(* ===== verification/Dumbo_Prelude.thy ===== *)
theory Dumbo_Prelude
  imports Main "HOL-Library.Word"
begin

text \<open>
  Shared vocabulary of the development: machine integers as \<open>int\<close> with the wrap-around
  written out, the power-of-two tests of the ring buffers, FIFO list lemmas, the
  \<open>named_theorems\<close> collections the component theories extend, and the result type of
  operations that may throw.
\<close>

unbundle bit_operations_syntax

subsection \<open>Collections\<close>

named_theorems inv_simps \<open>definitions of component invariants\<close>
named_theorems op_simps \<open>definitions of component operations\<close>

subsection \<open>Machine integers\<close>

text \<open>
  The sequences are \<open>int64_t\<close>, the sizes \<open>std::size_t\<close>. Both are kept as \<open>int\<close>;
  every addition of the source is followed by the conversion to its width. Comparisons
  are then the comparisons of \<open>int\<close>. A signed addition that overflows is undefined in
  C++; the model takes the two's complement result.
\<close>

definition i64 :: "int \<Rightarrow> int" where
  "i64 x = (x + 2 ^ 63) mod 2 ^ 64 - 2 ^ 63"

definition u64 :: "int \<Rightarrow> int" where
  "u64 x = x mod 2 ^ 64"

definition LONG_MAX :: int where
  "LONG_MAX = 2 ^ 63 - 1"

definition fits64 :: "int \<Rightarrow> bool" where
  "fits64 x \<longleftrightarrow> - (2 ^ 63) \<le> x \<and> x < 2 ^ 63"

lemma i64_id [simp]: "fits64 x \<Longrightarrow> i64 x = x"
  by (simp add: i64_def fits64_def)

lemma fits64_i64 [simp]: "fits64 (i64 x)"
  using pos_mod_bound [of "2 ^ 64 :: int" "x + 2 ^ 63"]
    pos_mod_sign [of "2 ^ 64 :: int" "x + 2 ^ 63"]
  by (simp add: i64_def fits64_def)

lemma fits64_between: "fits64 a \<Longrightarrow> fits64 b \<Longrightarrow> a \<le> x \<Longrightarrow> x \<le> b \<Longrightarrow> fits64 x"
  by (simp add: fits64_def)

lemma u64_range: "0 \<le> u64 x \<and> u64 x < 2 ^ 64"
  by (simp add: u64_def)

lemma u64_id [simp]: "0 \<le> x \<Longrightarrow> x < 2 ^ 64 \<Longrightarrow> u64 x = x"
  by (simp add: u64_def)

text \<open>
  A signed value, taken to unsigned and back, is itself: the conversions that C++ inserts
  in \<open>next_sequence - N\<close> (with \<open>N\<close> a \<open>size_t\<close>) do not change the signed result.
\<close>

lemma i64_u64 [simp]: "i64 (u64 x) = i64 x"
  by (simp add: i64_def u64_def mod_add_left_eq)

lemma i64_diff_left [simp]: "i64 (i64 x - y) = i64 (x - y)"
proof -
  have "i64 x - y + 2 ^ 63 = (x + 2 ^ 63) mod 2 ^ 64 - y" by (simp add: i64_def)
  moreover have "x - y + 2 ^ 63 = (x + 2 ^ 63) - y" by simp
  ultimately show ?thesis
    unfolding i64_def [of "i64 x - y"] i64_def [of "x - y"] by (simp only: mod_diff_left_eq)
qed

subsection \<open>Powers of two\<close>

definition pow2 :: "int \<Rightarrow> bool" where
  "pow2 n \<longleftrightarrow> (\<exists>k. n = 2 ^ k)"

lemma pow2_pos: "pow2 n \<Longrightarrow> 0 < n"
  by (auto simp: pow2_def)

lemma pow2_double: "pow2 (2 * n) \<longleftrightarrow> pow2 n" if "0 < n" for n :: int
proof
  assume "pow2 (2 * n)"
  then obtain k where k: "2 * n = 2 ^ k" by (auto simp: pow2_def)
  show "pow2 n"
  proof (cases k)
    case 0
    with k that show ?thesis by simp
  next
    case (Suc j)
    with k have "n = 2 ^ j" by simp
    then show ?thesis by (auto simp: pow2_def)
  qed
next
  assume "pow2 n"
  then obtain k where "n = 2 ^ k" by (auto simp: pow2_def)
  then have "2 * n = 2 ^ Suc k" by simp
  then show "pow2 (2 * n)" unfolding pow2_def by blast
qed

lemma odd_pow2: "odd n \<Longrightarrow> pow2 n \<longleftrightarrow> n = 1" for n :: int
proof
  assume "odd n" "pow2 n"
  then obtain k where k: "n = 2 ^ k" by (auto simp: pow2_def)
  with \<open>odd n\<close> show "n = 1" by (cases k) auto
qed (auto simp: pow2_def intro: exI [of _ 0])

lemma and_mask_pow2: "pow2 n \<Longrightarrow> x AND (n - 1) = x mod n" for x :: int
  by (auto simp: pow2_def take_bit_eq_mod [symmetric] take_bit_eq_mask mask_eq_exp_minus_1)

text \<open>The test of \<open>buffered_channel\<close>: \<open>0 == (n & (n - 1))\<close>.\<close>

lemma and_pred_eq_0_iff: "0 < n \<Longrightarrow> n AND (n - 1) = 0 \<longleftrightarrow> pow2 n" for n :: int
proof (induction "nat n" arbitrary: n rule: less_induct)
  case less
  show ?case
  proof (cases "even n")
    case True
    then obtain m where m: "n = 2 * m" by blast
    with less.prems have "0 < m" by simp
    have "(2 * m - 1) div 2 = m - 1" by simp
    with m have "n AND (n - 1) = 2 * (m AND (m - 1))"
      by (subst and_int_rec) simp
    moreover have "m AND (m - 1) = 0 \<longleftrightarrow> pow2 m"
      using less.hyps [of m] m \<open>0 < m\<close> by simp
    ultimately show ?thesis using m \<open>0 < m\<close> by (simp add: pow2_double)
  next
    case False
    then obtain m where m: "n = 2 * m + 1" by (blast elim: oddE)
    have "n AND (n - 1) = 2 * m"
      using m by (subst and_int_rec) auto
    with False m show ?thesis by (simp add: odd_pow2)
  qed
qed

text \<open>The test of the disruptor's ring buffer: \<open>(n & (~n + 1)) == n\<close>.\<close>

lemma and_minus_eq_self_iff: "0 < n \<Longrightarrow> n AND (- n) = n \<longleftrightarrow> pow2 n" for n :: int
proof (induction "nat n" arbitrary: n rule: less_induct)
  case less
  show ?case
  proof (cases "even n")
    case True
    then obtain m where m: "n = 2 * m" by blast
    with less.prems have "0 < m" by simp
    have "(- (2 * m)) div 2 = - m" by simp
    with m have "n AND (- n) = 2 * (m AND (- m))"
      by (subst and_int_rec) simp
    moreover have "m AND (- m) = m \<longleftrightarrow> pow2 m"
      using less.hyps [of m] m \<open>0 < m\<close> by simp
    ultimately show ?thesis using m \<open>0 < m\<close> by (simp add: pow2_double)
  next
    case False
    then obtain m where m: "n = 2 * m + 1" by (blast elim: oddE)
    have "m AND (- m - 1) = 0"
      using bit.conj_cancel_right [of m] by (simp add: not_int_def)
    moreover have "(- (2 * m + 1)) div 2 = - m - 1" by simp
    ultimately have "n AND (- n) = 1"
      using m by (subst and_int_rec) simp
    with False show ?thesis by (auto simp: odd_pow2)
  qed
qed

lemma and_u64_minus: "0 < n \<Longrightarrow> n < 2 ^ 64 \<Longrightarrow> n AND u64 (- n) = n AND (- n)" for n :: int
proof -
  assume n: "0 < n" "n < 2 ^ 64"
  have "n AND u64 (- n) = take_bit 64 n AND take_bit 64 (- n)"
    using n by (simp add: u64_def take_bit_eq_mod)
  also have "\<dots> = take_bit 64 (n AND (- n))" by simp
  also have "\<dots> = take_bit 64 n AND (- n)"
    by (simp add: take_bit_eq_mask ac_simps)
  also have "\<dots> = n AND (- n)" using n by (simp add: take_bit_eq_mod)
  finally show ?thesis .
qed

subsection \<open>Residues\<close>

text \<open>Two indices of a window no longer than the ring that share a slot are equal.\<close>

lemma mod_window_inj:
  fixes a b lo n :: int
  assumes "a mod n = b mod n" "lo < a" "a \<le> lo + n" "lo < b" "b \<le> lo + n"
  shows "a = b"
proof -
  from assms(1) have "n dvd (a - b)" by (simp add: mod_eq_dvd_iff)
  then obtain k where k: "a - b = n * k" by blast
  from assms have n: "0 < n" by linarith
  from assms have "- n < n * k" "n * k < n" using k by linarith+
  with n have "- 1 < k" "k < 1"
    by (metis mult_minus1_right mult_less_cancel_left_pos, metis mult.right_neutral mult_less_cancel_left_pos)
  then have "k = 0" by simp
  with k show ?thesis by simp
qed

subsection \<open>Results\<close>

datatype fiber_errc =
    invalid_argument
  | operation_not_permitted
  | resource_deadlock_would_occur

subsection \<open>Lists\<close>

lemma set_remove1_append: "set (remove1 x xs @ [x]) = insert x (set xs)"
  by (induction xs) auto

lemma distinct_remove1_append: "distinct xs \<Longrightarrow> distinct (remove1 x xs @ [x])"
  by simp

lemma sorted_wrt_remove1: "sorted_wrt P xs \<Longrightarrow> sorted_wrt P (remove1 x xs)"
  by (induction xs) (auto dest: notin_set_remove1)

end
