(* ===== verification/Disruptor_Sequence.thy ===== *)
theory Disruptor_Sequence
  imports Dumbo_Prelude
begin

text \<open>
  \<open>disruptor/sequence.h\<close> and \<open>disruptor/ring_buffer.h\<close>: the sequence counter, the minimum
  over the gating sequences, and the fixed ring indexed by a masked sequence. A load of an
  atomic is the value it returned; the memory orders are not modelled (the development
  reasons about sequentially consistent executions).
\<close>

subsection \<open>Sequence\<close>

definition kInitialCursorValue :: int where "kInitialCursorValue = -1"
definition kAlertedSignal :: int where "kAlertedSignal = -2"
definition kTimeoutSignal :: int where "kTimeoutSignal = -3"
definition kNotReadySignal :: int where "kNotReadySignal = -4"
definition kFirstSequenceValue :: int where "kFirstSequenceValue = i64 (kInitialCursorValue + 1)"

lemmas signal_defs [simp] = kInitialCursorValue_def kAlertedSignal_def kTimeoutSignal_def
  kNotReadySignal_def

definition is_signal :: "int \<Rightarrow> bool" where
  "is_signal r \<longleftrightarrow> r \<in> {kAlertedSignal, kTimeoutSignal, kNotReadySignal}"

record Sequence =
  seq_value :: int

definition Sequence_new :: "int \<Rightarrow> Sequence" where
  "Sequence_new initial_value = \<lparr>seq_value = initial_value\<rparr>"

definition Sequence_default :: Sequence where
  "Sequence_default = Sequence_new kInitialCursorValue"

definition set_sequence :: "int \<Rightarrow> Sequence \<Rightarrow> Sequence" where
  "set_sequence value s = s\<lparr>seq_value := value\<rparr>"

text \<open>\<open>fetch_add(increment) + increment\<close>: the new value, and the updated counter.\<close>

definition Sequence_IncrementAndGet :: "int \<Rightarrow> Sequence \<Rightarrow> int \<times> Sequence" where
  "Sequence_IncrementAndGet increment s =
     (let old = seq_value s in (i64 (old + increment), s\<lparr>seq_value := i64 (old + increment)\<rparr>))"

lemmas Sequence_simps [simp] = Sequence_new_def Sequence_default_def set_sequence_def
  Sequence_IncrementAndGet_def Let_def

subsection \<open>GetMinimumSequence\<close>

text \<open>The argument lists the values loaded from the container's sequences, in its order.\<close>

fun GetMinimumSequence_loop :: "int \<Rightarrow> int list \<Rightarrow> int" where
  "GetMinimumSequence_loop minimum [] = minimum"
| "GetMinimumSequence_loop minimum (sequence # sequences) =
     GetMinimumSequence_loop (if minimum < sequence then minimum else sequence) sequences"

definition GetMinimumSequence :: "int list \<Rightarrow> int" where
  "GetMinimumSequence sequences = GetMinimumSequence_loop LONG_MAX sequences"

lemma le_GetMinimumSequence_loop_iff:
  "x \<le> GetMinimumSequence_loop m xs \<longleftrightarrow> x \<le> m \<and> (\<forall>y\<in>set xs. x \<le> y)"
  by (induction xs arbitrary: m) auto

lemma GetMinimumSequence_loop_eq:
  "GetMinimumSequence_loop m xs = Min (insert m (set xs))"
proof (induction xs arbitrary: m)
  case (Cons a xs)
  have "Min (insert m (insert a (set xs))) = Min (insert (min m a) (set xs))"
    by (cases "xs = []") (auto simp: min.assoc)
  moreover have "(if m < a then m else a) = min m a" by simp
  ultimately show ?case by (simp only: GetMinimumSequence_loop.simps Cons.IH list.simps)
qed simp

lemma le_GetMinimumSequence_iff:
  "x \<le> GetMinimumSequence xs \<longleftrightarrow> x \<le> LONG_MAX \<and> (\<forall>y\<in>set xs. x \<le> y)"
  by (simp add: GetMinimumSequence_def le_GetMinimumSequence_loop_iff)

lemma GetMinimumSequence_le: "y \<in> set xs \<Longrightarrow> GetMinimumSequence xs \<le> y"
  using le_GetMinimumSequence_iff [of "GetMinimumSequence xs" xs] by simp

lemma GetMinimumSequence_Nil [simp]: "GetMinimumSequence [] = LONG_MAX"
  by (simp add: GetMinimumSequence_def)

lemma GetMinimumSequence_single: "x \<le> LONG_MAX \<Longrightarrow> GetMinimumSequence [x] = x"
  by (simp add: GetMinimumSequence_def)

lemma GetMinimumSequence_fits64: "\<forall>y\<in>set xs. fits64 y \<Longrightarrow> fits64 (GetMinimumSequence xs)"
  unfolding GetMinimumSequence_def GetMinimumSequence_loop_eq
  using Min_in [of "insert LONG_MAX (set xs)"] by (auto simp: fits64_def LONG_MAX_def)

lemma GetMinimumSequence_mono:
  "list_all2 (\<le>) xs ys \<Longrightarrow> GetMinimumSequence xs \<le> GetMinimumSequence ys"
proof -
  assume *: "list_all2 (\<le>) xs ys"
  have "\<exists>x\<in>set xs. x \<le> y" if "y \<in> set ys" for y
    using * that by (auto simp: list_all2_conv_all_nth in_set_conv_nth) force
  then have "\<forall>y\<in>set ys. GetMinimumSequence xs \<le> y"
    by (meson GetMinimumSequence_le order_trans)
  moreover have "GetMinimumSequence xs \<le> LONG_MAX"
    using le_GetMinimumSequence_iff by blast
  ultimately show ?thesis by (simp add: le_GetMinimumSequence_iff)
qed

text \<open>over a non-empty container \<open>GetMinimumSequence\<close> is the least of the loaded values.\<close>

theorem GetMinimumSequence_is_Min:
  assumes "xs \<noteq> []" and "\<forall>x\<in>set xs. fits64 x"
  shows "GetMinimumSequence xs = Min (set xs)"
proof -
  from assms have "fits64 (Min (set xs))" by simp
  then have "Min (set xs) \<le> LONG_MAX" by (simp add: fits64_def LONG_MAX_def)
  with assms(1) show ?thesis
    by (simp add: GetMinimumSequence_def GetMinimumSequence_loop_eq min_absorb2)
qed

theorem GetMinimumSequence_is_Min_witness: "GetMinimumSequence [7, 3, 5] = Min (set [7, 3, 5])"
  by (rule GetMinimumSequence_is_Min) (simp_all add: fits64_def)

subsection \<open>RingBuffer\<close>

record 'a RingBuffer =
  rb_events :: "'a list"

text \<open>The \<open>static_assert\<close> of the class, on the template parameter \<open>N\<close>.\<close>

definition RingBuffer_static_assert :: "int \<Rightarrow> bool" where
  "RingBuffer_static_assert N \<longleftrightarrow> 0 < N \<and> N AND u64 (NOT N + 1) = N"

definition RingBuffer_index :: "int \<Rightarrow> int \<Rightarrow> nat" where
  "RingBuffer_index N sequence = nat (u64 sequence AND (N - 1))"

definition RingBuffer_get :: "'a RingBuffer \<Rightarrow> int \<Rightarrow> 'a" where
  "RingBuffer_get rb sequence =
     rb_events rb ! RingBuffer_index (int (length (rb_events rb))) sequence"

definition RingBuffer_set :: "'a RingBuffer \<Rightarrow> int \<Rightarrow> 'a \<Rightarrow> 'a RingBuffer" where
  "RingBuffer_set rb sequence value =
     rb\<lparr>rb_events := (rb_events rb)[RingBuffer_index (int (length (rb_events rb))) sequence := value]\<rparr>"

definition ring_size_ok :: "int \<Rightarrow> bool" where
  "ring_size_ok N \<longleftrightarrow> N < 2 ^ 64 \<and> RingBuffer_static_assert N"

lemma RingBuffer_static_assert_iff:
  "N < 2 ^ 64 \<Longrightarrow> RingBuffer_static_assert N \<longleftrightarrow> pow2 N"
  by (auto simp: RingBuffer_static_assert_def not_int_def and_u64_minus and_minus_eq_self_iff
      pow2_pos)

lemma ring_size_pow2: "ring_size_ok N \<Longrightarrow> pow2 N"
  unfolding ring_size_ok_def using RingBuffer_static_assert_iff by blast

lemma ring_size_pos: "ring_size_ok N \<Longrightarrow> 0 < N"
  by (simp add: ring_size_ok_def RingBuffer_static_assert_def)

lemma u64_mod_pow2: "ring_size_ok N \<Longrightarrow> u64 s mod N = s mod N"
proof -
  assume "ring_size_ok N"
  then obtain k where k: "N = 2 ^ k" "(2::int) ^ k < 2 ^ 64"
    using ring_size_pow2 by (auto simp: pow2_def ring_size_ok_def)
  then have "k < 64" using power_less_imp_less_exp [of "2::int" k 64] by simp
  with k have "N dvd 2 ^ 64" using le_imp_power_dvd [of k 64 "2 :: int"] by simp
  then show ?thesis unfolding u64_def by (rule mod_mod_cancel)
qed

lemma RingBuffer_index_eq: "ring_size_ok N \<Longrightarrow> RingBuffer_index N s = nat (s mod N)"
  by (simp add: RingBuffer_index_def and_mask_pow2 ring_size_pow2 u64_mod_pow2)

lemma RingBuffer_index_less: "ring_size_ok N \<Longrightarrow> RingBuffer_index N s < nat N"
  using ring_size_pos [of N] by (simp add: RingBuffer_index_eq)

definition rb_ok :: "'a RingBuffer \<Rightarrow> int \<Rightarrow> bool" where
  "rb_ok rb N \<longleftrightarrow> int (length (rb_events rb)) = N \<and> ring_size_ok N"

lemma rb_ok_set [simp]: "rb_ok (RingBuffer_set rb s v) N \<longleftrightarrow> rb_ok rb N"
  by (simp add: rb_ok_def RingBuffer_set_def)

lemma RingBuffer_get_set_same [simp]: "rb_ok rb N \<Longrightarrow> RingBuffer_get (RingBuffer_set rb s v) s = v"
  using RingBuffer_index_less [of N s]
  by (auto simp: rb_ok_def RingBuffer_get_def RingBuffer_set_def)

lemma RingBuffer_get_set_other:
  assumes "rb_ok rb N" "t mod N \<noteq> s mod N"
  shows "RingBuffer_get (RingBuffer_set rb s v) t = RingBuffer_get rb t"
proof -
  from assms(1) have N: "ring_size_ok N" "int (length (rb_events rb)) = N"
    by (auto simp: rb_ok_def)
  then have "nat (t mod N) \<noteq> nat (s mod N)"
    using assms(2) ring_size_pos [OF N(1)] by (simp add: nat_eq_iff)
  with N show ?thesis
    by (simp add: RingBuffer_get_def RingBuffer_set_def RingBuffer_index_eq)
qed

text \<open>The compile-time test of the ring size accepts exactly the powers of two, and then
  the masked index is the sequence modulo the size, so it is in range and two sequences of
  one window of \<open>N\<close> consecutive ones share no slot.\<close>

theorem RingBuffer_index_window:
  assumes "N < 2 ^ 64" and "RingBuffer_static_assert N"
    and "lo < s" "s \<le> lo + N" "lo < t" "t \<le> lo + N"
  shows "pow2 N \<and> RingBuffer_index N s < nat N \<and>
    (RingBuffer_index N s = RingBuffer_index N t \<longleftrightarrow> s = t)"
proof -
  from assms(1,2) have ok: "ring_size_ok N" by (simp add: ring_size_ok_def)
  then have pos: "0 < N" by (rule ring_size_pos)
  have "nat (s mod N) = nat (t mod N) \<longleftrightarrow> s = t"
    using mod_window_inj [of s N t lo] assms(3-) pos by (auto simp: nat_eq_iff)
  with ok show ?thesis
    using RingBuffer_index_less [OF ok, of s] by (simp add: ring_size_pow2 RingBuffer_index_eq)
qed

theorem RingBuffer_index_window_witness:
  "pow2 1024 \<and> RingBuffer_index 1024 1030 < nat 1024 \<and>
    (RingBuffer_index 1024 1030 = RingBuffer_index 1024 7 \<longleftrightarrow> (1030::int) = 7)"
  by (rule RingBuffer_index_window [where lo = 6])
    (simp_all add: RingBuffer_static_assert_def u64_def not_int_def)

end
