(* ===== verification/Disruptor_Claim.thy ===== *)
theory Disruptor_Claim
  imports Disruptor_Sequence
begin

text \<open>
  \<open>disruptor/claim_strategy.h\<close>: how a publisher claims sequences. A loop that spins on
  shared sequences is run against the list of the values its loads return, one entry per
  evaluation of the loop condition; \<open>None\<close> is a loop still spinning when the list is used
  up. The locale \<open>claim_strategy\<close> is what \<open>Sequencer\<close> expects of its template parameter
  \<open>C\<close>; both strategies of the source interpret it.
\<close>

text \<open>\<open>while (GetMinimumSequence(dependents) < wrap_point) yield()\<close>\<close>

fun await_capacity :: "int \<Rightarrow> int list list \<Rightarrow> unit option" where
  "await_capacity wrap_point [] = None"
| "await_capacity wrap_point (deps # obs) =
     (if GetMinimumSequence deps < wrap_point then await_capacity wrap_point obs else Some ())"

lemma await_capacity_None_iff:
  "await_capacity w obs = None \<longleftrightarrow> (\<forall>deps\<in>set obs. GetMinimumSequence deps < w)"
  by (induction obs) auto

lemma await_capacity_Some_iff:
  "await_capacity w obs = Some u \<longleftrightarrow> (\<exists>deps\<in>set obs. w \<le> GetMinimumSequence deps)"
  by (induction obs) auto

subsection \<open>SingleThreadedStrategy\<close>

record SingleThreadedStrategy =
  st_last_claimed_sequence :: int
  st_last_consumer_sequence :: int

definition SingleThreadedStrategy_new :: SingleThreadedStrategy where
  "SingleThreadedStrategy_new =
     \<lparr>st_last_claimed_sequence = kInitialCursorValue,
      st_last_consumer_sequence = kInitialCursorValue\<rparr>"

definition st_IncrementAndGet ::
  "int \<Rightarrow> SingleThreadedStrategy \<Rightarrow> int \<Rightarrow> int list list
     \<Rightarrow> SingleThreadedStrategy \<times> int option" where
  "st_IncrementAndGet N c delta obs =
     (let next_sequence = i64 (st_last_claimed_sequence c + delta);
          c' = c\<lparr>st_last_claimed_sequence := next_sequence\<rparr>;
          wrap_point = i64 (next_sequence - N)
      in if st_last_consumer_sequence c < wrap_point
         then (c', map_option (\<lambda>_. next_sequence) (await_capacity wrap_point obs))
         else (c', Some next_sequence))"

definition st_HasAvailableCapacity ::
  "int \<Rightarrow> SingleThreadedStrategy \<Rightarrow> int list \<Rightarrow> SingleThreadedStrategy \<times> bool" where
  "st_HasAvailableCapacity N c deps =
     (let wrap_point = i64 (st_last_claimed_sequence c + 1 - N)
      in if wrap_point > st_last_consumer_sequence c
         then let min_sequence = GetMinimumSequence deps;
                  c' = c\<lparr>st_last_consumer_sequence := min_sequence\<rparr>
              in if wrap_point > min_sequence then (c', False) else (c', True)
         else (c, True))"

text \<open>\<open>SynchronizePublishing\<close> is empty here: a single publisher is always in order.\<close>

definition st_SynchronizePublishing :: "int \<Rightarrow> int \<Rightarrow> int list \<Rightarrow> unit option" where
  "st_SynchronizePublishing sequence delta cursor_obs = Some ()"

subsection \<open>MultiThreadedStrategy\<close>

record MultiThreadedStrategy =
  mt_last_claimed_sequence :: Sequence
  mt_last_consumer_sequence :: Sequence

definition MultiThreadedStrategy_new :: MultiThreadedStrategy where
  "MultiThreadedStrategy_new =
     \<lparr>mt_last_claimed_sequence = Sequence_default, mt_last_consumer_sequence = Sequence_default\<rparr>"

text \<open>The atomic claim, and the spinning that follows it, are also used on their own by the
  interleaving model of the message queue.\<close>

definition mt_claim :: "MultiThreadedStrategy \<Rightarrow> int \<Rightarrow> int \<times> MultiThreadedStrategy" where
  "mt_claim c delta =
     (let (next_sequence, s) = Sequence_IncrementAndGet delta (mt_last_claimed_sequence c)
      in (next_sequence, c\<lparr>mt_last_claimed_sequence := s\<rparr>))"

definition mt_must_wait :: "int \<Rightarrow> MultiThreadedStrategy \<Rightarrow> int \<Rightarrow> bool" where
  "mt_must_wait N c next_sequence \<longleftrightarrow>
     seq_value (mt_last_consumer_sequence c) < i64 (next_sequence - N)"

definition mt_IncrementAndGet ::
  "int \<Rightarrow> MultiThreadedStrategy \<Rightarrow> int \<Rightarrow> int list list
     \<Rightarrow> MultiThreadedStrategy \<times> int option" where
  "mt_IncrementAndGet N c delta obs =
     (let (next_sequence, c') = mt_claim c delta
      in if mt_must_wait N c' next_sequence
         then (c', map_option (\<lambda>_. next_sequence)
                     (await_capacity (i64 (next_sequence - N)) obs))
         else (c', Some next_sequence))"

definition mt_HasAvailableCapacity ::
  "int \<Rightarrow> MultiThreadedStrategy \<Rightarrow> int list \<Rightarrow> MultiThreadedStrategy \<times> bool" where
  "mt_HasAvailableCapacity N c deps =
     (let wrap_point = i64 (seq_value (mt_last_claimed_sequence c) + 1 - N)
      in if wrap_point > seq_value (mt_last_consumer_sequence c)
         then let min_sequence = GetMinimumSequence deps;
                  c' = c\<lparr>mt_last_consumer_sequence :=
                        set_sequence min_sequence (mt_last_consumer_sequence c)\<rparr>
              in if wrap_point > min_sequence then (c', False) else (c', True)
         else (c, True))"

text \<open>Waits until the publishers of the earlier sequences have advanced the cursor.\<close>

fun await_cursor :: "int \<Rightarrow> int list \<Rightarrow> unit option" where
  "await_cursor my_first_sequence [] = None"
| "await_cursor my_first_sequence (cursor # obs) =
     (if cursor < my_first_sequence then await_cursor my_first_sequence obs else Some ())"

definition mt_SynchronizePublishing :: "int \<Rightarrow> int \<Rightarrow> int list \<Rightarrow> unit option" where
  "mt_SynchronizePublishing sequence delta cursor_obs =
     await_cursor (i64 (sequence - delta)) cursor_obs"

lemma await_cursor_Some_iff:
  "await_cursor w obs = Some u \<longleftrightarrow> (\<exists>c\<in>set obs. w \<le> c)"
  by (induction obs) auto

subsection \<open>The interface Sequencer relies on\<close>

locale claim_strategy =
  fixes N :: int
    and IncrementAndGet :: "'c \<Rightarrow> int \<Rightarrow> int list list \<Rightarrow> 'c \<times> int option"
    and HasAvailableCapacity :: "'c \<Rightarrow> int list \<Rightarrow> 'c \<times> bool"
    and claimed :: "'c \<Rightarrow> int"
    and seen :: "'c \<Rightarrow> int"
  assumes claim_claimed: "claimed (fst (IncrementAndGet c d obs)) = i64 (claimed c + d)"
    and claim_seen: "seen (fst (IncrementAndGet c d obs)) = seen c"
    and claim_result: "snd (IncrementAndGet c d obs) = Some s \<Longrightarrow> s = i64 (claimed c + d)"
    and claim_returns: "snd (IncrementAndGet c d obs) \<noteq> None \<longleftrightarrow>
          i64 (claimed c + d - N) \<le> seen c \<or>
          (\<exists>deps\<in>set obs. i64 (claimed c + d - N) \<le> GetMinimumSequence deps)"
    and capacity_claimed: "claimed (fst (HasAvailableCapacity c deps)) = claimed c"
    and capacity_seen: "seen (fst (HasAvailableCapacity c deps)) \<in> {seen c, GetMinimumSequence deps}"
    and capacity_iff: "snd (HasAvailableCapacity c deps) \<longleftrightarrow>
          i64 (claimed c + 1 - N) \<le> seen c \<or>
          i64 (claimed c + 1 - N) \<le> GetMinimumSequence deps"
    and capacity_remembered: "snd (HasAvailableCapacity c deps) \<Longrightarrow>
          i64 (claimed c + 1 - N) \<le> seen (fst (HasAvailableCapacity c deps))"
begin

text \<open>No publisher is handed a sequence whose slot still holds an unread event: with \<open>gate\<close>
  a bound on everything that was ever observed of the consumers.\<close>

lemma claim_within_ring:
  assumes "snd (IncrementAndGet c d obs) = Some s"
    and "seen c \<le> gate" "\<forall>deps\<in>set obs. GetMinimumSequence deps \<le> gate"
    and "fits64 (s - N)"
  shows "s \<le> gate + N"
proof -
  from assms(1) have s: "s = i64 (claimed c + d)" by (rule claim_result)
  from assms(1) have "i64 (s - N) \<le> seen c \<or> (\<exists>deps\<in>set obs. i64 (s - N) \<le> GetMinimumSequence deps)"
    unfolding s i64_diff_left using claim_returns [of c d obs] by simp
  then have "i64 (s - N) \<le> gate" using assms(2,3) by fastforce
  with assms(4) show ?thesis by simp
qed

text \<open>A capacity test that succeeds is a promise for the next claim of one sequence: it
  returns without looking at the consumers again.\<close>

lemma capacity_then_claim:
  assumes "HasAvailableCapacity c deps = (c', True)"
  shows "snd (IncrementAndGet c' 1 obs) \<noteq> None"
proof -
  have "i64 (claimed c' + 1 - N) \<le> seen c'"
    using assms capacity_claimed [of c deps] capacity_remembered [of c deps] by simp
  then show ?thesis using claim_returns [of c' 1 obs] by blast
qed

lemma claim_strictly_increasing:
  assumes "snd (IncrementAndGet c d obs) = Some s" "0 < d" "fits64 (claimed c + d)"
    and "snd (IncrementAndGet (fst (IncrementAndGet c d obs)) e obs') = Some t" "0 < e"
    and "fits64 (s + e)"
  shows "claimed c < s \<and> t = s + e"
proof -
  from claim_result [OF assms(1)] assms(3) have s: "s = claimed c + d" by simp
  moreover from claim_result [OF assms(4)] have "t = i64 (s + e)"
    using assms(3) s by (simp add: claim_claimed)
  ultimately show ?thesis using assms(2,6) by simp
qed

end

interpretation st: claim_strategy N "st_IncrementAndGet N" "st_HasAvailableCapacity N"
    st_last_claimed_sequence st_last_consumer_sequence for N
  by unfold_locales
    (auto simp: st_IncrementAndGet_def st_HasAvailableCapacity_def await_capacity_Some_iff
      Let_def not_less split: if_splits)

interpretation mt: claim_strategy N "mt_IncrementAndGet N" "mt_HasAvailableCapacity N"
    "\<lambda>c. seq_value (mt_last_claimed_sequence c)" "\<lambda>c. seq_value (mt_last_consumer_sequence c)" for N
  by unfold_locales
    (auto simp: mt_IncrementAndGet_def mt_HasAvailableCapacity_def mt_claim_def mt_must_wait_def
      await_capacity_Some_iff Let_def not_less split: if_splits)

end
