(* ===== verification/Disruptor_Wait.thy ===== *)
theory Disruptor_Wait
  imports Disruptor_Sequence
begin

text \<open>
  \<open>disruptor/wait_strategy.h\<close>: how a consumer waits for a sequence. Each strategy is run
  against a list of observations, one per turn of its loop: what the loads of the cursor, of
  the dependents and of the alert flag returned, what the clock showed, and whether the
  condition variable timed out. \<open>None\<close> is a wait still going on when the list is used up,
  so that the model covers every interleaving with the publishers. The second component
  lists the pauses the thread made.
\<close>

record observation =
  ob_cursor :: int
  ob_deps :: "int list"
  ob_alerted :: bool
  ob_now :: int
  ob_timed_out :: bool

datatype pause = Spin | Yield | Sleep

text \<open>\<open>n\<close> is \<open>dependents.size()\<close>.\<close>

definition buildMinSequenceFunction :: "nat \<Rightarrow> observation \<Rightarrow> int" where
  "buildMinSequenceFunction n ob =
     (if n = 0 then ob_cursor ob else GetMinimumSequence (ob_deps ob))"

subsection \<open>BusySpinStrategy\<close>

fun BusySpin_WaitFor :: "int \<Rightarrow> nat \<Rightarrow> observation list \<Rightarrow> int option" where
  "BusySpin_WaitFor sequence n [] = None"
| "BusySpin_WaitFor sequence n (ob # obs) =
     (let available_sequence = buildMinSequenceFunction n ob
      in if available_sequence < sequence
         then if ob_alerted ob then Some kAlertedSignal else BusySpin_WaitFor sequence n obs
         else Some available_sequence)"

fun BusySpin_WaitFor_until :: "int \<Rightarrow> int \<Rightarrow> nat \<Rightarrow> observation list \<Rightarrow> int option" where
  "BusySpin_WaitFor_until stop sequence n [] = None"
| "BusySpin_WaitFor_until stop sequence n (ob # obs) =
     (let available_sequence = buildMinSequenceFunction n ob
      in if available_sequence < sequence
         then if ob_alerted ob then Some kAlertedSignal
              else if stop \<le> ob_now ob then Some kTimeoutSignal
              else BusySpin_WaitFor_until stop sequence n obs
         else Some available_sequence)"

subsection \<open>DontWaitStrategy\<close>

fun DontWait_WaitFor :: "int \<Rightarrow> nat \<Rightarrow> observation list \<Rightarrow> int option" where
  "DontWait_WaitFor sequence n [] = None"
| "DontWait_WaitFor sequence n (ob # obs) =
     (let available_sequence = buildMinSequenceFunction n ob
      in if available_sequence < sequence then Some kNotReadySignal else Some available_sequence)"

subsection \<open>YieldingStrategy and SleepingStrategy\<close>

text \<open>\<open>ApplyWaitMethod\<close> of each: the new counter and the pause. \<open>S / 2\<close> truncates.\<close>

definition Yielding_ApplyWaitMethod :: "int \<Rightarrow> int \<times> pause" where
  "Yielding_ApplyWaitMethod counter =
     (if counter \<noteq> 0 then (counter - 1, Spin) else (counter, Yield))"

definition Sleeping_ApplyWaitMethod :: "int \<Rightarrow> int \<Rightarrow> int \<times> pause" where
  "Sleeping_ApplyWaitMethod S counter =
     (if counter > (if 0 \<le> S then S div 2 else - ((- S) div 2)) then (counter - 1, Spin)
      else if counter > 0 then (counter - 1, Yield)
      else (counter, Sleep))"

text \<open>Both strategies have the same loop around their \<open>ApplyWaitMethod\<close>.\<close>

fun backoff_WaitFor ::
  "(int \<Rightarrow> int \<times> pause) \<Rightarrow> int \<Rightarrow> int \<Rightarrow> nat \<Rightarrow> observation list \<Rightarrow> int option \<times> pause list"
where
  "backoff_WaitFor apply_wait counter sequence n [] = (None, [])"
| "backoff_WaitFor apply_wait counter sequence n (ob # obs) =
     (let available_sequence = buildMinSequenceFunction n ob
      in if available_sequence < sequence
         then if ob_alerted ob then (Some kAlertedSignal, [])
              else let (counter', p) = apply_wait counter;
                       (r, ps) = backoff_WaitFor apply_wait counter' sequence n obs
                   in (r, p # ps)
         else (Some available_sequence, []))"

fun backoff_WaitFor_until ::
  "(int \<Rightarrow> int \<times> pause) \<Rightarrow> int \<Rightarrow> int \<Rightarrow> int \<Rightarrow> nat \<Rightarrow> observation list
     \<Rightarrow> int option \<times> pause list"
where
  "backoff_WaitFor_until apply_wait stop counter sequence n [] = (None, [])"
| "backoff_WaitFor_until apply_wait stop counter sequence n (ob # obs) =
     (let available_sequence = buildMinSequenceFunction n ob
      in if available_sequence < sequence
         then if ob_alerted ob then (Some kAlertedSignal, [])
              else let (counter', p) = apply_wait counter
                   in if stop \<le> ob_now ob then (Some kTimeoutSignal, [p])
                      else let (r, ps) =
                             backoff_WaitFor_until apply_wait stop counter' sequence n obs
                           in (r, p # ps)
         else (Some available_sequence, []))"

text \<open>The untimed waits copy \<open>S\<close> into an \<open>int\<close>, so it is cut to 32 bits.\<close>

definition i32 :: "int \<Rightarrow> int" where
  "i32 x = (x + 2 ^ 31) mod 2 ^ 32 - 2 ^ 31"

definition Yielding_WaitFor where
  "Yielding_WaitFor S sequence n obs =
     backoff_WaitFor (\<lambda>c. let (c', p) = Yielding_ApplyWaitMethod c in (i32 c', p))
       (i32 S) sequence n obs"

definition Yielding_WaitFor_until where
  "Yielding_WaitFor_until S stop sequence n obs =
     backoff_WaitFor_until Yielding_ApplyWaitMethod stop S sequence n obs"

definition Sleeping_WaitFor where
  "Sleeping_WaitFor S sequence n obs =
     backoff_WaitFor (\<lambda>c. let (c', p) = Sleeping_ApplyWaitMethod S c in (i32 c', p))
       (i32 S) sequence n obs"

definition Sleeping_WaitFor_until where
  "Sleeping_WaitFor_until S stop sequence n obs =
     backoff_WaitFor_until (Sleeping_ApplyWaitMethod S) stop S sequence n obs"

subsection \<open>BlockingStrategy\<close>

text \<open>First the cursor: a load without the lock, then under the lock until the cursor has
  advanced, blocking on the condition variable between the loads. The result is a signal, or
  the cursor read and the observations left.\<close>

fun Blocking_cursor_locked ::
  "int \<Rightarrow> observation list \<Rightarrow> (int + int \<times> observation list) option" where
  "Blocking_cursor_locked sequence [] = None"
| "Blocking_cursor_locked sequence (ob # obs) =
     (if ob_cursor ob < sequence
      then if ob_alerted ob then Some (Inl kAlertedSignal)
           else if ob_timed_out ob then Some (Inl kTimeoutSignal)
           else Blocking_cursor_locked sequence obs
      else Some (Inr (ob_cursor ob, obs)))"

fun Blocking_cursor ::
  "int \<Rightarrow> observation list \<Rightarrow> (int + int \<times> observation list) option" where
  "Blocking_cursor sequence [] = None"
| "Blocking_cursor sequence (ob # obs) =
     (if ob_cursor ob < sequence then Blocking_cursor_locked sequence obs
      else Some (Inr (ob_cursor ob, obs)))"

fun Blocking_dependents :: "int \<Rightarrow> observation list \<Rightarrow> int option" where
  "Blocking_dependents sequence [] = None"
| "Blocking_dependents sequence (ob # obs) =
     (let available_sequence = GetMinimumSequence (ob_deps ob)
      in if available_sequence < sequence
         then if ob_alerted ob then Some kAlertedSignal else Blocking_dependents sequence obs
         else Some available_sequence)"

definition Blocking_WaitFor_until :: "int \<Rightarrow> nat \<Rightarrow> observation list \<Rightarrow> int option" where
  "Blocking_WaitFor_until sequence n obs =
     (case Blocking_cursor sequence obs of
        None \<Rightarrow> None
      | Some (Inl signal) \<Rightarrow> Some signal
      | Some (Inr (available_sequence, obs')) \<Rightarrow>
          if n \<noteq> 0 then Blocking_dependents sequence obs' else Some available_sequence)"

text \<open>The untimed wait passes a locker that never reports a timeout.\<close>

definition Blocking_WaitFor :: "int \<Rightarrow> nat \<Rightarrow> observation list \<Rightarrow> int option" where
  "Blocking_WaitFor sequence n obs =
     Blocking_WaitFor_until sequence n (map (ob_timed_out_update (\<lambda>_. False)) obs)"

subsection \<open>The interface SequenceBarrier relies on\<close>

locale wait_strategy =
  fixes WaitFor :: "int \<Rightarrow> nat \<Rightarrow> observation list \<Rightarrow> int option"
  assumes wait_sound: "WaitFor s n obs = Some r \<Longrightarrow>
    is_signal r \<or> (s \<le> r \<and> (\<exists>ob\<in>set obs. r = buildMinSequenceFunction n ob))"
begin

lemma below_is_signal: "WaitFor s n obs = Some r \<Longrightarrow> r < s \<Longrightarrow> is_signal r"
  using wait_sound by fastforce

text \<open>What a wait hands out is bounded by whatever bounds the publishers' progress.\<close>

lemma available_bounded:
  assumes "WaitFor s n obs = Some r" "0 \<le> s" "s \<le> r"
    and "\<forall>ob\<in>set obs. buildMinSequenceFunction n ob \<le> hi"
  shows "r \<le> hi"
  using wait_sound [OF assms(1)] assms(2-) by (auto simp: is_signal_def)

end

locale spinning_wait_strategy = wait_strategy +
  assumes wait_None_iff: "WaitFor s n obs = None \<longleftrightarrow>
    (\<forall>ob\<in>set obs. buildMinSequenceFunction n ob < s \<and> \<not> ob_alerted ob)"
begin

lemma wakes_up_when_available:
  "ob \<in> set obs \<Longrightarrow> s \<le> buildMinSequenceFunction n ob \<Longrightarrow> \<exists>r. WaitFor s n obs = Some r"
  using wait_None_iff [of s n obs] by fastforce

lemma wakes_up_when_alerted:
  "ob \<in> set obs \<Longrightarrow> ob_alerted ob \<Longrightarrow> \<exists>r. WaitFor s n obs = Some r"
  using wait_None_iff [of s n obs] by fastforce

end

lemma BusySpin_sound: "BusySpin_WaitFor s n obs = Some r \<Longrightarrow>
    is_signal r \<or> (s \<le> r \<and> (\<exists>ob\<in>set obs. r = buildMinSequenceFunction n ob))"
  by (induction obs) (auto simp: Let_def is_signal_def split: if_splits)

lemma BusySpin_None_iff: "BusySpin_WaitFor s n obs = None \<longleftrightarrow>
    (\<forall>ob\<in>set obs. buildMinSequenceFunction n ob < s \<and> \<not> ob_alerted ob)"
  by (induction obs) (auto simp: Let_def)

lemma BusySpin_until_sound: "BusySpin_WaitFor_until stop s n obs = Some r \<Longrightarrow>
    is_signal r \<or> (s \<le> r \<and> (\<exists>ob\<in>set obs. r = buildMinSequenceFunction n ob))"
  by (induction obs) (auto simp: Let_def is_signal_def split: if_splits)

lemma DontWait_sound: "DontWait_WaitFor s n obs = Some r \<Longrightarrow>
    is_signal r \<or> (s \<le> r \<and> (\<exists>ob\<in>set obs. r = buildMinSequenceFunction n ob))"
  by (cases obs) (auto simp: Let_def is_signal_def split: if_splits)

text \<open>Backing off changes how long a turn of the loop takes, never its outcome.\<close>

lemma backoff_eq_BusySpin: "fst (backoff_WaitFor f c s n obs) = BusySpin_WaitFor s n obs"
  by (induction obs arbitrary: c) (simp_all add: Let_def split_beta)

lemma backoff_until_eq_BusySpin:
  "fst (backoff_WaitFor_until f stop c s n obs) = BusySpin_WaitFor_until stop s n obs"
  by (induction obs arbitrary: c) (simp_all add: Let_def split_beta)

lemma Blocking_cursor_locked_Inl:
  "Blocking_cursor_locked s obs = Some (Inl r) \<Longrightarrow> is_signal r"
  by (induction obs) (auto simp: is_signal_def split: if_splits)

lemma Blocking_cursor_Inl: "Blocking_cursor s obs = Some (Inl r) \<Longrightarrow> is_signal r"
  by (cases obs) (auto dest: Blocking_cursor_locked_Inl split: if_splits)

lemma Blocking_cursor_locked_Inr:
  "Blocking_cursor_locked s obs = Some (Inr (a, obs')) \<Longrightarrow>
     s \<le> a \<and> (\<exists>ob\<in>set obs. a = ob_cursor ob) \<and> set obs' \<subseteq> set obs"
  by (induction obs) (auto split: if_splits)

lemma Blocking_cursor_Inr:
  "Blocking_cursor s obs = Some (Inr (a, obs')) \<Longrightarrow>
     s \<le> a \<and> (\<exists>ob\<in>set obs. a = ob_cursor ob) \<and> set obs' \<subseteq> set obs"
  by (cases obs) (fastforce dest: Blocking_cursor_locked_Inr split: if_splits)+

lemma Blocking_dependents_sound: "Blocking_dependents s obs = Some r \<Longrightarrow>
    is_signal r \<or> (s \<le> r \<and> (\<exists>ob\<in>set obs. r = GetMinimumSequence (ob_deps ob)))"
  by (induction obs) (auto simp: Let_def is_signal_def split: if_splits)

lemma Blocking_until_sound:
  assumes "Blocking_WaitFor_until s n obs = Some r"
  shows "is_signal r \<or> (s \<le> r \<and> (\<exists>ob\<in>set obs. r = buildMinSequenceFunction n ob))"
proof -
  consider (signal) "Blocking_cursor s obs = Some (Inl r)"
    | (cursor) a obs' where "Blocking_cursor s obs = Some (Inr (a, obs'))"
    using assms by (auto simp: Blocking_WaitFor_until_def split: option.splits sum.splits)
  then show ?thesis
  proof cases
    case signal
    then show ?thesis by (simp add: Blocking_cursor_Inl)
  next
    case cursor
    with assms Blocking_cursor_Inr [OF cursor] Blocking_dependents_sound [of s obs' r]
    show ?thesis
      by (auto simp: Blocking_WaitFor_until_def buildMinSequenceFunction_def split: if_splits)
  qed
qed

lemma Blocking_sound:
  assumes "Blocking_WaitFor s n obs = Some r"
  shows "is_signal r \<or> (s \<le> r \<and> (\<exists>ob\<in>set obs. r = buildMinSequenceFunction n ob))"
  using Blocking_until_sound [OF assms [unfolded Blocking_WaitFor_def]]
  by (auto simp: buildMinSequenceFunction_def)

lemma Blocking_dependents_None_iff: "Blocking_dependents s obs = None \<longleftrightarrow>
    (\<forall>ob\<in>set obs. GetMinimumSequence (ob_deps ob) < s \<and> \<not> ob_alerted ob)"
  by (induction obs) (auto simp: Let_def)

interpretation busy_spin: spinning_wait_strategy BusySpin_WaitFor
  by unfold_locales (rule BusySpin_sound BusySpin_None_iff, assumption?)+

interpretation busy_spin_until: wait_strategy "BusySpin_WaitFor_until stop" for stop
  by unfold_locales (rule BusySpin_until_sound)

interpretation dont_wait: wait_strategy DontWait_WaitFor
  by unfold_locales (rule DontWait_sound)

interpretation yielding: spinning_wait_strategy "\<lambda>s n obs. fst (Yielding_WaitFor S s n obs)" for S
  by unfold_locales
    (simp_all add: Yielding_WaitFor_def backoff_eq_BusySpin BusySpin_sound BusySpin_None_iff)

interpretation sleeping: spinning_wait_strategy "\<lambda>s n obs. fst (Sleeping_WaitFor S s n obs)" for S
  by unfold_locales
    (simp_all add: Sleeping_WaitFor_def backoff_eq_BusySpin BusySpin_sound BusySpin_None_iff)

interpretation yielding_until: wait_strategy "\<lambda>s n obs. fst (Yielding_WaitFor_until S stop s n obs)"
  for S stop
  by unfold_locales (simp add: Yielding_WaitFor_until_def backoff_until_eq_BusySpin BusySpin_until_sound)

interpretation sleeping_until: wait_strategy "\<lambda>s n obs. fst (Sleeping_WaitFor_until S stop s n obs)"
  for S stop
  by unfold_locales (simp add: Sleeping_WaitFor_until_def backoff_until_eq_BusySpin BusySpin_until_sound)

interpretation blocking: wait_strategy Blocking_WaitFor
  by unfold_locales (rule Blocking_sound)

interpretation blocking_until: wait_strategy Blocking_WaitFor_until
  by unfold_locales (rule Blocking_until_sound)

subsection \<open>Properties\<close>

definition quiet :: "int \<Rightarrow> nat \<Rightarrow> observation \<Rightarrow> bool" where
  "quiet sequence n ob \<longleftrightarrow> buildMinSequenceFunction n ob < sequence \<and> \<not> ob_alerted ob"

lemma backoff_quiet_step:
  "quiet s n ob \<Longrightarrow> snd (backoff_WaitFor f c s n (ob # obs)) =
     snd (f c) # snd (backoff_WaitFor f (fst (f c)) s n obs)"
  by (simp add: quiet_def split_beta)

lemma Sleeping_pauses_from:
  assumes "0 \<le> S" "S < 2 ^ 31" "0 \<le> c" "c \<le> S" "\<forall>ob\<in>set obs. quiet s n ob"
  shows "snd (backoff_WaitFor (\<lambda>c. let (c', p) = Sleeping_ApplyWaitMethod S c in (i32 c', p))
           c s n obs) =
    map (\<lambda>i. if S div 2 < c - int i then Spin else if 0 < c - int i then Yield else Sleep)
      [0..<length obs]"
  using assms(3-)
proof (induction obs arbitrary: c)
  case (Cons ob obs)
  have id: "i32 x = x" if "0 \<le> x" "x \<le> S" for x
    using that assms(2) by (simp add: i32_def)
  have nh: "\<not> S div 2 < - int x" "\<not> S div 2 < - 1 - int x" for x using assms(1) by linarith+
  have q: "quiet s n ob" "\<forall>ob\<in>set obs. quiet s n ob" using Cons.prems(3) by auto
  have hd: "map g [0..<length (ob # obs)] = g 0 # map (\<lambda>i. g (Suc i)) [0..<length obs]"
    for g :: "nat \<Rightarrow> pause"
    by (simp add: map_upt_Suc del: upt_Suc)
  show ?case
  proof (cases "c = 0")
    case True
    with Cons.IH [of 0] q(2) assms(1) id [of 0] show ?thesis
      unfolding backoff_quiet_step [OF q(1)] hd by (simp add: Sleeping_ApplyWaitMethod_def nh)
  next
    case False
    with Cons.prems have "0 \<le> c - 1" "c - 1 \<le> S" by auto
    let ?f = "\<lambda>c. let (c', p) = Sleeping_ApplyWaitMethod S c in (i32 c', p)"
    have f: "fst (?f c) = c - 1" "snd (?f c) = (if S div 2 < c then Spin else Yield)"
      using id [OF \<open>0 \<le> c - 1\<close> \<open>c - 1 \<le> S\<close>] assms(1) \<open>0 \<le> c - 1\<close>
      by (simp_all add: Sleeping_ApplyWaitMethod_def)
    have shift: "c - int (Suc i) = c - 1 - int i" for i by simp
    show ?thesis
      unfolding backoff_quiet_step [OF q(1)] hd f Cons.IH [OF \<open>0 \<le> c - 1\<close> \<open>c - 1 \<le> S\<close> q(2)] shift
      using \<open>0 \<le> c - 1\<close> by simp
  qed
qed simp

text \<open>while nothing is available and no alert is raised, the sleeping strategy spins for
  the first half of its \<open>S\<close> retries, yields for the second half, and sleeps on every turn
  after that.\<close>

theorem Sleeping_schedule:
  assumes "0 \<le> S" "S < 2 ^ 31" "\<forall>ob\<in>set obs. quiet sequence n ob"
  shows "snd (Sleeping_WaitFor S sequence n obs) =
    map (\<lambda>i. if int i < S - S div 2 then Spin else if int i < S then Yield else Sleep)
      [0..<length obs]"
proof -
  have "i32 S = S" using assms(1,2) by (simp add: i32_def)
  with assms Sleeping_pauses_from [of S S obs sequence n] show ?thesis
    by (simp add: Sleeping_WaitFor_def algebra_simps)
qed

theorem Sleeping_schedule_witness:
  "snd (Sleeping_WaitFor 3 5 0 (replicate 5 \<lparr>ob_cursor = 4, ob_deps = [], ob_alerted = False,
      ob_now = 0, ob_timed_out = False\<rparr>)) = [Spin, Spin, Yield, Sleep, Sleep]"
  by (subst Sleeping_schedule)
    (simp_all add: quiet_def buildMinSequenceFunction_def upt_conv_Cons eval_nat_numeral)

text \<open>Yielding and sleeping are busy spinning with pauses: for the same observations all
  three return the same value, timed or not.\<close>

theorem backoff_strategies_agree:
  "fst (Yielding_WaitFor S sequence n obs) = BusySpin_WaitFor sequence n obs \<and>
   fst (Sleeping_WaitFor S sequence n obs) = BusySpin_WaitFor sequence n obs \<and>
   fst (Yielding_WaitFor_until S stop sequence n obs) = BusySpin_WaitFor_until stop sequence n obs \<and>
   fst (Sleeping_WaitFor_until S stop sequence n obs) = BusySpin_WaitFor_until stop sequence n obs"
  by (simp add: Yielding_WaitFor_def Sleeping_WaitFor_def Yielding_WaitFor_until_def
      Sleeping_WaitFor_until_def backoff_eq_BusySpin backoff_until_eq_BusySpin)

text \<open>a blocking wait that hands out a sequence (rather than a signal) hands out at least
  the one requested, and never more than the publishers and the dependents had reached.\<close>

theorem Blocking_available:
  assumes "Blocking_WaitFor sequence n obs = Some r" "0 \<le> sequence" "\<not> is_signal r"
    and "\<forall>ob\<in>set obs. buildMinSequenceFunction n ob \<le> hi"
  shows "sequence \<le> r \<and> r \<le> hi"
  using blocking.below_is_signal [OF assms(1)] blocking.available_bounded [OF assms(1,2) _ assms(4)]
    assms(3) by fastforce

theorem Blocking_available_witness:
  "let ob = (\<lambda>c d. \<lparr>ob_cursor = c, ob_deps = [d], ob_alerted = False, ob_now = 0, ob_timed_out = False\<rparr>);
       obs = [ob 1 0, ob 3 1, ob 4 3]
   in Blocking_WaitFor 2 1 obs = Some 3 \<and> 2 \<le> (3::int) \<and> (3::int) \<le> 3"
proof -
  let ?ob = "\<lambda>c d. \<lparr>ob_cursor = c, ob_deps = [d], ob_alerted = False, ob_now = 0, ob_timed_out = False\<rparr>"
  have w: "Blocking_WaitFor 2 1 [?ob 1 0, ?ob 3 1, ?ob 4 3] = Some 3"
    by (simp add: Blocking_WaitFor_def Blocking_WaitFor_until_def GetMinimumSequence_single LONG_MAX_def)
  have "2 \<le> (3::int) \<and> (3::int) \<le> 3"
    by (rule Blocking_available [OF w])
      (simp_all add: is_signal_def buildMinSequenceFunction_def GetMinimumSequence_single LONG_MAX_def)
  with w show ?thesis by simp
qed

end
