(* ===== verification/Disruptor_Sequencer.thy ===== *)
theory Disruptor_Sequencer
  imports Disruptor_Claim Disruptor_Wait
begin

text \<open>
  \<open>disruptor/sequencer.h\<close>, \<open>disruptor/sequence_barrier.h\<close> and
  \<open>disruptor/event_processor.h\<close>. The strategies are template parameters in the source and
  arguments here. A container of \<open>Sequence*\<close> is a list of addresses; what a publisher loads
  through it is a memory from addresses to values, one memory per turn of a spinning loop.
\<close>

type_synonym memory = "nat \<Rightarrow> int"

subsection \<open>SequenceBarrier\<close>

record SequenceBarrier =
  sb_dependents :: "nat list"
  sb_alerted :: bool

definition SequenceBarrier_new :: "nat list \<Rightarrow> SequenceBarrier" where
  "SequenceBarrier_new dependents = \<lparr>sb_dependents = dependents, sb_alerted = False\<rparr>"

definition SequenceBarrier_WaitFor ::
  "(int \<Rightarrow> nat \<Rightarrow> observation list \<Rightarrow> int option) \<Rightarrow> SequenceBarrier \<Rightarrow> int
     \<Rightarrow> observation list \<Rightarrow> int option" where
  "SequenceBarrier_WaitFor WaitFor sb sequence obs =
     WaitFor sequence (length (sb_dependents sb)) obs"

definition SequenceBarrier_get_sequence :: "SequenceBarrier \<Rightarrow> Sequence \<Rightarrow> int" where
  "SequenceBarrier_get_sequence sb cursor = seq_value cursor"

definition SequenceBarrier_set_alerted :: "bool \<Rightarrow> SequenceBarrier \<Rightarrow> SequenceBarrier" where
  "SequenceBarrier_set_alerted alert sb = sb\<lparr>sb_alerted := alert\<rparr>"

text \<open>What one turn of a waiting loop reads when nothing else runs in between.\<close>

definition observe :: "SequenceBarrier \<Rightarrow> Sequence \<Rightarrow> memory \<Rightarrow> int \<Rightarrow> observation" where
  "observe sb cursor mem now =
     \<lparr>ob_cursor = seq_value cursor, ob_deps = map mem (sb_dependents sb),
      ob_alerted = sb_alerted sb, ob_now = now, ob_timed_out = False\<rparr>"

subsection \<open>Sequencer\<close>

record ('a, 'c) Sequencer =
  sq_ring_buffer :: "'a RingBuffer"
  sq_cursor :: Sequence
  sq_claim_strategy :: 'c
  sq_gating_sequences :: "nat list"

definition Sequencer_new :: "'a list \<Rightarrow> 'c \<Rightarrow> ('a, 'c) Sequencer" where
  "Sequencer_new events c =
     \<lparr>sq_ring_buffer = \<lparr>rb_events = events\<rparr>, sq_cursor = Sequence_default,
      sq_claim_strategy = c, sq_gating_sequences = []\<rparr>"

definition Sequencer_set_gating_sequences ::
  "nat list \<Rightarrow> ('a, 'c) Sequencer \<Rightarrow> ('a, 'c) Sequencer" where
  "Sequencer_set_gating_sequences sequences sq = sq\<lparr>sq_gating_sequences := sequences\<rparr>"

definition Sequencer_NewBarrier :: "('a, 'c) Sequencer \<Rightarrow> nat list \<Rightarrow> SequenceBarrier" where
  "Sequencer_NewBarrier sq dependents = SequenceBarrier_new dependents"

definition Sequencer_GetCursor :: "('a, 'c) Sequencer \<Rightarrow> int" where
  "Sequencer_GetCursor sq = seq_value (sq_cursor sq)"

definition Sequencer_HasAvailableCapacity ::
  "('c \<Rightarrow> int list \<Rightarrow> 'c \<times> bool) \<Rightarrow> ('a, 'c) Sequencer \<Rightarrow> memory \<Rightarrow> ('a, 'c) Sequencer \<times> bool"
where
  "Sequencer_HasAvailableCapacity HasAvailableCapacity sq mem =
     (let (c, r) = HasAvailableCapacity (sq_claim_strategy sq) (map mem (sq_gating_sequences sq))
      in (sq\<lparr>sq_claim_strategy := c\<rparr>, r))"

definition Sequencer_Claim ::
  "('c \<Rightarrow> int \<Rightarrow> int list list \<Rightarrow> 'c \<times> int option) \<Rightarrow> ('a, 'c) Sequencer \<Rightarrow> int
     \<Rightarrow> memory list \<Rightarrow> ('a, 'c) Sequencer \<times> int option" where
  "Sequencer_Claim IncrementAndGet sq delta mems =
     (let (c, r) = IncrementAndGet (sq_claim_strategy sq) delta
                     (map (\<lambda>mem. map mem (sq_gating_sequences sq)) mems)
      in (sq\<lparr>sq_claim_strategy := c\<rparr>, r))"

text \<open>\<open>None\<close>: still synchronizing with the earlier publishers. \<open>SignalAllWhenBlocking\<close>
  changes no state of the model: it makes blocked consumers take their next observation.\<close>

definition Sequencer_Publish ::
  "(int \<Rightarrow> int \<Rightarrow> int list \<Rightarrow> unit option) \<Rightarrow> ('a, 'c) Sequencer \<Rightarrow> int \<Rightarrow> int
     \<Rightarrow> int list \<Rightarrow> ('a, 'c) Sequencer option" where
  "Sequencer_Publish SynchronizePublishing sq sequence delta cursor_obs =
     map_option
       (\<lambda>_. sq\<lparr>sq_cursor := snd (Sequence_IncrementAndGet delta (sq_cursor sq))\<rparr>)
       (SynchronizePublishing sequence delta cursor_obs)"

definition Sequencer_at :: "('a, 'c) Sequencer \<Rightarrow> int \<Rightarrow> 'a" where
  "Sequencer_at sq sequence = RingBuffer_get (sq_ring_buffer sq) sequence"

definition Sequencer_write :: "('a, 'c) Sequencer \<Rightarrow> int \<Rightarrow> 'a \<Rightarrow> ('a, 'c) Sequencer" where
  "Sequencer_write sq sequence value =
     sq\<lparr>sq_ring_buffer := RingBuffer_set (sq_ring_buffer sq) sequence value\<rparr>"

context claim_strategy
begin

text \<open>The gating contract of the sequencer, for every claim strategy: a claim that returns
  leaves the claimed events inside the ring of every gating consumer.\<close>

lemma Sequencer_Claim_within_ring:
  assumes "Sequencer_Claim IncrementAndGet sq d mems = (sq', Some s)"
    and "seen (sq_claim_strategy sq) \<le> gate"
    and "\<forall>mem\<in>set mems. \<exists>a\<in>set (sq_gating_sequences sq). mem a \<le> gate"
    and "fits64 (s - N)"
  shows "s \<le> gate + N"
proof -
  let ?obs = "map (\<lambda>mem. map mem (sq_gating_sequences sq)) mems"
  have "snd (IncrementAndGet (sq_claim_strategy sq) d ?obs) = Some s"
    using assms(1) by (auto simp: Sequencer_Claim_def split: prod.splits)
  moreover have "\<forall>deps\<in>set ?obs. GetMinimumSequence deps \<le> gate"
    using assms(3) by (fastforce intro: order_trans [OF GetMinimumSequence_le])
  ultimately show ?thesis using claim_within_ring assms(2,4) by blast
qed

end

subsection \<open>BatchEventProcessor\<close>

record BatchEventProcessor =
  ep_sequence :: Sequence
  ep_next_sequence :: int
  ep_avalaible_sequence :: int

definition BatchEventProcessor_new :: BatchEventProcessor where
  "BatchEventProcessor_new =
     \<lparr>ep_sequence = Sequence_default, ep_next_sequence = 0,
      ep_avalaible_sequence = kInitialCursorValue\<rparr>"

definition get_event :: "'a RingBuffer \<Rightarrow> BatchEventProcessor \<Rightarrow> int \<Rightarrow> 'a" where
  "get_event rb ep idx = RingBuffer_get rb (i64 (ep_next_sequence ep + idx))"

definition get_current_event :: "'a RingBuffer \<Rightarrow> BatchEventProcessor \<Rightarrow> 'a" where
  "get_current_event rb ep = get_event rb ep (ep_next_sequence ep)"

definition is_batch :: "BatchEventProcessor \<Rightarrow> bool" where
  "is_batch ep \<longleftrightarrow> ep_next_sequence ep \<le> ep_avalaible_sequence ep"

definition batch_size :: "BatchEventProcessor \<Rightarrow> int" where
  "batch_size ep = i64 (ep_avalaible_sequence ep - ep_next_sequence ep + 1)"

text \<open>\<open>wait\<close> is the barrier's \<open>WaitFor\<close>, with the observations it makes.\<close>

definition begin_batch ::
  "(int \<Rightarrow> int option) \<Rightarrow> BatchEventProcessor \<Rightarrow> (BatchEventProcessor \<times> int) option" where
  "begin_batch wait ep =
     (let next_sequence = i64 (seq_value (ep_sequence ep) + 1)
      in map_option
           (\<lambda>avalaible_sequence.
              let ep' = ep\<lparr>ep_next_sequence := next_sequence,
                           ep_avalaible_sequence := avalaible_sequence\<rparr>
              in (ep', if next_sequence \<le> avalaible_sequence then batch_size ep' else 0))
           (wait next_sequence))"

definition has_events ::
  "(int \<Rightarrow> int option) \<Rightarrow> BatchEventProcessor \<Rightarrow> (BatchEventProcessor \<times> int) option" where
  "has_events wait ep =
     (if \<not> is_batch ep then begin_batch wait ep else Some (ep, batch_size ep))"

definition finish_batch :: "BatchEventProcessor \<Rightarrow> BatchEventProcessor" where
  "finish_batch ep =
     ep\<lparr>ep_sequence := set_sequence (i64 (ep_next_sequence ep - 1)) (ep_sequence ep)\<rparr>"

definition commit :: "int \<Rightarrow> BatchEventProcessor \<Rightarrow> BatchEventProcessor" where
  "commit len ep =
     (let ep' = ep\<lparr>ep_next_sequence := i64 (ep_next_sequence ep + len)\<rparr>
      in if \<not> is_batch ep' then finish_batch ep' else ep')"

lemmas BatchEventProcessor_simps = get_event_def get_current_event_def is_batch_def
  batch_size_def begin_batch_def has_events_def finish_batch_def commit_def

end
