(* ===== verification/Fifo_Spec.thy ===== *)
theory Fifo_Spec
  imports Dumbo_Prelude
begin

text \<open>
  The contract the queues of the program share. \<open>fifo\<close> is first-in first-out with a
  \<open>push\<close> that may refuse and a \<open>pop\<close> that may find nothing; \<open>bounded_fifo\<close> adds that a
  refusal means the queue holds as many elements as its capacity. The queues count their
  operations in 64-bit counters; \<open>life\<close> is the number of pushes left before a counter
  overflows. A client sees a run of such operations only through what it pushed and what it
  popped.
\<close>

locale fifo =
  fixes push :: "'q \<Rightarrow> 'a \<Rightarrow> 'q option"
    and pop :: "'q \<Rightarrow> ('a \<times> 'q) option"
    and contents :: "'q \<Rightarrow> 'a list"
    and inv :: "'q \<Rightarrow> bool"
    and cap :: "'q \<Rightarrow> nat"
    and life :: "'q \<Rightarrow> nat"
  assumes push_Some: "inv q \<Longrightarrow> 0 < life q \<Longrightarrow> push q x = Some q' \<Longrightarrow>
            inv q' \<and> contents q' = contents q @ [x] \<and> cap q' = cap q \<and> life q \<le> Suc (life q')"
    and pop_Some: "inv q \<Longrightarrow> pop q = Some (x, q') \<Longrightarrow>
            inv q' \<and> contents q = x # contents q' \<and> cap q' = cap q \<and> life q \<le> life q'"
    and pop_None: "inv q \<Longrightarrow> pop q = None \<longleftrightarrow> contents q = []"
    and within_cap: "inv q \<Longrightarrow> length (contents q) \<le> cap q"

locale bounded_fifo = fifo +
  assumes push_None: "inv q \<Longrightarrow> push q x = None \<longleftrightarrow> length (contents q) = cap q"

datatype 'a queue_op = Push 'a | Pop

text \<open>Running a program of pushes and pops: the values accepted, the values delivered, and
  the queue left. A refused push and a pop of nothing leave the queue alone.\<close>

fun queue_run ::
  "('q \<Rightarrow> 'a \<Rightarrow> 'q option) \<Rightarrow> ('q \<Rightarrow> ('a \<times> 'q) option) \<Rightarrow> 'q \<Rightarrow> 'a queue_op list
     \<Rightarrow> 'a list \<times> 'a list \<times> 'q" where
  "queue_run push pop q [] = ([], [], q)"
| "queue_run push pop q (Push x # ops) =
     (case push q x of
        None \<Rightarrow> queue_run push pop q ops
      | Some q' \<Rightarrow> let (ins, outs, r) = queue_run push pop q' ops in (x # ins, outs, r))"
| "queue_run push pop q (Pop # ops) =
     (case pop q of
        None \<Rightarrow> queue_run push pop q ops
      | Some (x, q') \<Rightarrow> let (ins, outs, r) = queue_run push pop q' ops in (ins, x # outs, r))"

context fifo
begin

lemma run_conserves:
  assumes "inv q" "length ops \<le> life q" "queue_run push pop q ops = (ins, outs, r)"
  shows "inv r \<and> contents q @ ins = outs @ contents r \<and> cap r = cap q"
  using assms
proof (induction ops arbitrary: q ins outs)
  case (Cons op ops)
  show ?case
  proof (cases op)
    case (Push x)
    show ?thesis
    proof (cases "push q x")
      case None
      with Cons.IH [OF Cons.prems(1)] Cons.prems(2,3) Push show ?thesis by simp
    next
      case (Some q')
      with Cons.prems Push obtain ins' where i: "ins = x # ins'"
        and run: "queue_run push pop q' ops = (ins', outs, r)"
        by (auto split: prod.splits)
      from push_Some [OF Cons.prems(1) _ Some] Cons.prems(2)
      have "inv q' \<and> contents q' = contents q @ [x] \<and> cap q' = cap q" "length ops \<le> life q'"
        by auto
      with Cons.IH [OF _ _ run] i show ?thesis by simp
    qed
  next
    case Pop
    show ?thesis
    proof (cases "pop q")
      case None
      with Cons.IH [OF Cons.prems(1)] Cons.prems(2,3) Pop show ?thesis by simp
    next
      case (Some xq)
      obtain x q' where xq: "pop q = Some (x, q')" using Some by (cases xq) auto
      with Cons.prems Pop obtain outs' where o: "outs = x # outs'"
        and run: "queue_run push pop q' ops = (ins, outs', r)"
        by (auto split: prod.splits)
      from pop_Some [OF Cons.prems(1) xq] Cons.IH [OF _ _ run] Cons.prems(2) o show ?thesis
        by simp
    qed
  qed
qed simp

text \<open>What comes out is a prefix of what was in the queue followed by what went in.\<close>

lemma run_delivers_prefix:
  assumes "inv q" "length ops \<le> life q" "queue_run push pop q ops = (ins, outs, r)"
  shows "outs = take (length outs) (contents q @ ins)"
  using run_conserves [OF assms] by (metis append_eq_conv_conj)

lemma run_backlog:
  assumes "inv q" "length ops \<le> life q" "queue_run push pop q ops = (ins, outs, r)"
  shows "length (contents q) + length ins \<le> length outs + cap q"
proof -
  from run_conserves [OF assms]
  have "length (contents q) + length ins = length outs + length (contents r)"
    and "length (contents r) \<le> cap q"
    using within_cap [of r] by (metis length_append, simp)
  then show ?thesis by simp
qed

lemma pop_after_push_empty:
  "inv q \<Longrightarrow> 0 < life q \<Longrightarrow> contents q = [] \<Longrightarrow> push q x = Some q' \<Longrightarrow>
     \<exists>r. pop q' = Some (x, r) \<and> contents r = []"
  using push_Some [of q x q'] pop_None [of q'] pop_Some [of q'] by fastforce

end

context bounded_fifo
begin

lemma push_succeeds: "inv q \<Longrightarrow> length (contents q) < cap q \<Longrightarrow> \<exists>q'. push q x = Some q'"
  using push_None [of q x] by (cases "push q x") auto

text \<open>After a pop there is room again.\<close>

lemma push_after_pop: "inv q \<Longrightarrow> pop q = Some (x, q') \<Longrightarrow> \<exists>r. push q' y = Some r"
  using pop_Some [of q x q'] within_cap [of q] push_succeeds [of q' y] by fastforce

end

end
