(* ===== verification/MPSC_Queue.thy ===== *)
theory MPSC_Queue
  imports Disruptor_Sequencer Fifo_Spec
begin

text \<open>
  \<open>reactor/mpsc_queue.hpp\<close>: the inbox of every reactor, a sequencer with the multi-threaded
  claim strategy, a barrier that does not wait, and one batch event processor. This theory
  has the operations as functions; \<open>MPSC_Concurrent\<close> interleaves their atomic steps.
\<close>

text \<open>The consumer's sequence is the only gating sequence; its address:\<close>

definition consumer_address :: nat where
  "consumer_address = 0"

record 'a MPSCQueue =
  mq_sequencer :: "('a, MultiThreadedStrategy) Sequencer"
  mq_event_processor :: BatchEventProcessor
  mq_barrier :: SequenceBarrier

definition MPSCQueue_new :: "'a \<Rightarrow> nat \<Rightarrow> 'a MPSCQueue" where
  "MPSCQueue_new d BufferSize =
     (let sq = Sequencer_new (replicate BufferSize d) MultiThreadedStrategy_new
      in \<lparr>mq_sequencer = Sequencer_set_gating_sequences [consumer_address] sq,
          mq_event_processor = BatchEventProcessor_new,
          mq_barrier = Sequencer_NewBarrier sq []\<rparr>)"

definition mq_size :: "'a MPSCQueue \<Rightarrow> int" where
  "mq_size q = int (length (rb_events (sq_ring_buffer (mq_sequencer q))))"

definition mq_memory :: "'a MPSCQueue \<Rightarrow> memory" where
  "mq_memory q = (\<lambda>_. seq_value (ep_sequence (mq_event_processor q)))"

text \<open>\<open>send\<close>, given what its spinning loops observe; \<open>None\<close>: it has not returned.\<close>

definition MPSCQueue_send ::
  "'a MPSCQueue \<Rightarrow> 'a \<Rightarrow> memory list \<Rightarrow> int list \<Rightarrow> (bool \<times> 'a MPSCQueue) option" where
  "MPSCQueue_send q value mems cursor_obs =
     (case Sequencer_Claim (mt_IncrementAndGet (mq_size q)) (mq_sequencer q) 1 mems of
        (sq, None) \<Rightarrow> None
      | (sq, Some idx) \<Rightarrow>
          map_option (\<lambda>sq'. (True, q\<lparr>mq_sequencer := sq'\<rparr>))
            (Sequencer_Publish mt_SynchronizePublishing (Sequencer_write sq idx value) idx 1
               cursor_obs))"

text \<open>The barrier's wait, with the one load \<open>DontWaitStrategy\<close> makes.\<close>

definition mq_wait :: "SequenceBarrier \<Rightarrow> Sequence \<Rightarrow> int \<Rightarrow> int option" where
  "mq_wait sb cursor sequence =
     SequenceBarrier_WaitFor DontWait_WaitFor sb sequence [observe sb cursor (\<lambda>_. 0) 0]"

definition mq_has_events :: "'a MPSCQueue \<Rightarrow> (BatchEventProcessor \<times> int) option" where
  "mq_has_events q =
     has_events (mq_wait (mq_barrier q) (sq_cursor (mq_sequencer q))) (mq_event_processor q)"

text \<open>\<open>get(T&)\<close>: one event.\<close>

definition MPSCQueue_get :: "'a MPSCQueue \<Rightarrow> ('a option \<times> 'a MPSCQueue) option" where
  "MPSCQueue_get q =
     map_option
       (\<lambda>(ep, sz).
          if sz = 0 then (None, q\<lparr>mq_event_processor := ep\<rparr>)
          else (Some (get_current_event (sq_ring_buffer (mq_sequencer q)) ep),
                q\<lparr>mq_event_processor := commit 1 ep\<rparr>))
       (mq_has_events q)"

text \<open>\<open>get(requested_size, fn)\<close> and \<open>get_all(fn)\<close>: the events in the order in which \<open>fn\<close> is
  called on them. The loop counter is a \<open>size_t\<close>.\<close>

fun get_events :: "'a RingBuffer \<Rightarrow> BatchEventProcessor \<Rightarrow> nat \<Rightarrow> nat \<Rightarrow> 'a list" where
  "get_events rb ep c 0 = []"
| "get_events rb ep c (Suc n) = get_event rb ep (int c) # get_events rb ep (Suc c) n"


definition MPSCQueue_get_all :: "'a MPSCQueue \<Rightarrow> ('a list \<times> 'a MPSCQueue) option" where
  "MPSCQueue_get_all q =
     map_option
       (\<lambda>(ep, sz).
          if u64 sz = 0 then ([], q\<lparr>mq_event_processor := ep\<rparr>)
          else (get_events (sq_ring_buffer (mq_sequencer q)) ep 0 (nat (u64 sz)),
                q\<lparr>mq_event_processor := commit (i64 (u64 sz)) ep\<rparr>))
       (mq_has_events q)"

lemma get_events_conv:
  "get_events rb ep c n = map (\<lambda>k. get_event rb ep (int k)) [c..<c + n]"
  by (induction n arbitrary: c) (simp_all add: upt_conv_Cons del: upt_Suc)

subsection \<open>The queue between calls\<close>

text \<open>Between calls of one thread nothing is in flight: everything claimed is published.\<close>

definition mq_claimed :: "'a MPSCQueue \<Rightarrow> int" where
  "mq_claimed q = seq_value (mt_last_claimed_sequence (sq_claim_strategy (mq_sequencer q)))"

definition mq_cursor :: "'a MPSCQueue \<Rightarrow> int" where
  "mq_cursor q = seq_value (sq_cursor (mq_sequencer q))"

definition mq_consumed :: "'a MPSCQueue \<Rightarrow> int" where
  "mq_consumed q = seq_value (ep_sequence (mq_event_processor q))"

definition mq_next :: "'a MPSCQueue \<Rightarrow> int" where
  "mq_next q = ep_next_sequence (mq_event_processor q)"

definition mq_inv :: "'a MPSCQueue \<Rightarrow> bool" where
  "mq_inv q \<longleftrightarrow>
     ring_size_ok (mq_size q) \<and> mq_size q < 2 ^ 63 \<and>
     sq_gating_sequences (mq_sequencer q) = [consumer_address] \<and>
     sb_dependents (mq_barrier q) = [] \<and>
     seq_value (mt_last_consumer_sequence (sq_claim_strategy (mq_sequencer q))) = -1 \<and>
     mq_claimed q = mq_cursor q \<and> mq_cursor q < 2 ^ 63 - 1 \<and>
     -1 \<le> mq_consumed q \<and> mq_consumed q < mq_next q \<and> mq_next q \<le> mq_cursor q + 1 \<and>
     mq_cursor q \<le> mq_consumed q + mq_size q \<and>
     ep_avalaible_sequence (mq_event_processor q) \<le> mq_cursor q \<and>
     (\<not> is_batch (mq_event_processor q) \<longrightarrow> mq_next q = mq_consumed q + 1)"

definition mq_contents :: "'a MPSCQueue \<Rightarrow> 'a list" where
  "mq_contents q =
     map (\<lambda>s. RingBuffer_get (sq_ring_buffer (mq_sequencer q)) s) [mq_next q..mq_cursor q]"

lemmas mq_defs = mq_claimed_def mq_cursor_def mq_consumed_def mq_next_def mq_size_def

text \<open>\<open>send\<close> by a thread that runs alone: its loops observe the queue's own state once.\<close>

definition mq_push :: "'a MPSCQueue \<Rightarrow> 'a \<Rightarrow> 'a MPSCQueue option" where
  "mq_push q value = map_option snd (MPSCQueue_send q value [mq_memory q] [mq_cursor q])"


subsection \<open>The queue as a FIFO\<close>

lemma mq_size_bounds: "mq_inv q \<Longrightarrow> 0 < mq_size q \<and> mq_size q < 2 ^ 63"
  by (simp add: mq_inv_def ring_size_pos)

lemma mq_rb_ok: "mq_inv q \<Longrightarrow> rb_ok (sq_ring_buffer (mq_sequencer q)) (mq_size q)"
  by (simp add: mq_inv_def rb_ok_def mq_size_def)

definition mq_after_send :: "'a MPSCQueue \<Rightarrow> 'a \<Rightarrow> 'a MPSCQueue" where
  "mq_after_send q value =
     q\<lparr>mq_sequencer := (mq_sequencer q)
         \<lparr>sq_ring_buffer := RingBuffer_set (sq_ring_buffer (mq_sequencer q)) (mq_cursor q + 1) value,
          sq_cursor := \<lparr>seq_value = mq_cursor q + 1\<rparr>,
          sq_claim_strategy := (sq_claim_strategy (mq_sequencer q))
            \<lparr>mt_last_claimed_sequence := \<lparr>seq_value = mq_cursor q + 1\<rparr>\<rparr>\<rparr>\<rparr>"

lemma mq_push_eq:
  assumes "mq_inv q" "mq_cursor q < 2 ^ 63 - 2"
  shows "mq_push q v =
    (if mq_cursor q + 1 \<le> mq_consumed q + mq_size q then Some (mq_after_send q v) else None)"
proof -
  let ?c = "mq_cursor q" and ?N = "mq_size q"
  have b: "-1 \<le> ?c" "0 < ?N" "?N < 2 ^ 63" "-1 \<le> mq_consumed q" "mq_consumed q \<le> ?c"
    using assms mq_size_bounds [of q] by (auto simp: mq_inv_def)
  then have f: "i64 (?c + 1) = ?c + 1" "i64 (?c + 1 - ?N) = ?c + 1 - ?N" "i64 ?c = ?c"
    using assms(2) by (simp_all add: fits64_def)
  have g: "sq_gating_sequences (mq_sequencer q) = [consumer_address]"
    "seq_value (mt_last_consumer_sequence (sq_claim_strategy (mq_sequencer q))) = -1"
    "seq_value (mt_last_claimed_sequence (sq_claim_strategy (mq_sequencer q))) = ?c"
    "seq_value (sq_cursor (mq_sequencer q)) = ?c"
    using assms(1) by (auto simp: mq_inv_def mq_defs)
  have m: "GetMinimumSequence [mq_consumed q] = mq_consumed q"
    using b assms(2) by (simp add: GetMinimumSequence_single LONG_MAX_def)
  show ?thesis
  proof (cases "?c + 1 \<le> mq_consumed q + ?N")
    case True
    with b f g m show ?thesis
      by (simp add: mq_push_def MPSCQueue_send_def Sequencer_Claim_def mt_IncrementAndGet_def
          mt_claim_def mt_must_wait_def mq_memory_def mq_consumed_def [symmetric]
          Sequencer_Publish_def Sequencer_write_def mt_SynchronizePublishing_def
          mq_after_send_def ex_bool_eq)
  next
    case False
    with b f g m show ?thesis
      by (simp add: mq_push_def MPSCQueue_send_def Sequencer_Claim_def mt_IncrementAndGet_def
          mt_claim_def mt_must_wait_def mq_memory_def mq_consumed_def [symmetric])
  qed
qed

lemma mq_push_spec:
  assumes inv: "mq_inv q" and life: "mq_cursor q < 2 ^ 63 - 2" and push: "mq_push q v = Some q'"
  shows "mq_inv q' \<and> mq_contents q' = mq_contents q @ [v] \<and> mq_size q' = mq_size q \<and>
    mq_cursor q' = mq_cursor q + 1"
proof -
  let ?c = "mq_cursor q" and ?N = "mq_size q" and ?rb = "sq_ring_buffer (mq_sequencer q)"
  from push mq_push_eq [OF inv life] have room: "?c + 1 \<le> mq_consumed q + ?N"
    and q': "q' = mq_after_send q v"
    by (auto split: if_splits)
  have sizes: "mq_size q' = ?N" "mq_cursor q' = ?c + 1" "mq_claimed q' = ?c + 1"
    "mq_next q' = mq_next q" "mq_consumed q' = mq_consumed q"
    "mq_event_processor q' = mq_event_processor q" "mq_barrier q' = mq_barrier q"
    by (simp_all add: q' mq_after_send_def mq_defs RingBuffer_set_def)
  have inv': "mq_inv q'"
    using inv life room unfolding mq_inv_def sizes by (simp add: q' mq_after_send_def)
  have next_le: "mq_next q \<le> ?c + 1" "mq_consumed q < mq_next q" using inv by (auto simp: mq_inv_def)
  then have "[mq_next q..?c + 1] = [mq_next q..?c] @ [?c + 1]" by (simp add: upto_rec2)
  moreover have "RingBuffer_get (RingBuffer_set ?rb (?c + 1) v) s = RingBuffer_get ?rb s"
    if "s \<in> set [mq_next q..?c]" for s
  proof (rule RingBuffer_get_set_other [OF mq_rb_ok [OF inv]])
    show "s mod ?N \<noteq> (?c + 1) mod ?N"
    proof
      assume "s mod ?N = (?c + 1) mod ?N"
      then have "s = ?c + 1"
        by (rule mod_window_inj [where lo = "mq_consumed q"]) (use that next_le room in auto)
      with that show False by simp
    qed
  qed
  ultimately have "mq_contents q' = mq_contents q @ [v]"
    using mq_rb_ok [OF inv] unfolding mq_contents_def sizes
    by (simp add: q' mq_after_send_def)
  with inv' sizes show ?thesis by simp
qed

definition mq_refreshed :: "'a MPSCQueue \<Rightarrow> BatchEventProcessor" where
  "mq_refreshed q =
     (if is_batch (mq_event_processor q) then mq_event_processor q
      else (mq_event_processor q)
        \<lparr>ep_next_sequence := mq_next q,
         ep_avalaible_sequence := if mq_next q \<le> mq_cursor q then mq_cursor q else kNotReadySignal\<rparr>)"

lemma mq_has_events_eq:
  assumes inv: "mq_inv q"
  shows "mq_has_events q = Some (mq_refreshed q,
    if is_batch (mq_refreshed q)
    then ep_avalaible_sequence (mq_refreshed q) - mq_next q + 1 else 0)"
proof (cases "is_batch (mq_event_processor q)")
  case True
  with inv have "fits64 (ep_avalaible_sequence (mq_event_processor q) - mq_next q + 1)"
    by (auto simp: mq_inv_def is_batch_def fits64_def mq_next_def)
  with True show ?thesis
    by (simp add: mq_has_events_def has_events_def mq_refreshed_def batch_size_def mq_next_def)
next
  case False
  with inv have n: "mq_next q = mq_consumed q + 1" "-1 \<le> mq_consumed q" "mq_cursor q < 2 ^ 63 - 1"
    "mq_next q \<le> mq_cursor q + 1" "sb_dependents (mq_barrier q) = []"
    by (auto simp: mq_inv_def)
  then have f: "i64 (seq_value (ep_sequence (mq_event_processor q)) + 1) = mq_next q"
    "i64 (mq_cursor q - mq_next q + 1) = mq_cursor q - mq_next q + 1"
    by (simp_all add: fits64_def mq_consumed_def)
  have w: "mq_wait (mq_barrier q) (sq_cursor (mq_sequencer q)) (mq_next q) =
      Some (if mq_next q \<le> mq_cursor q then mq_cursor q else kNotReadySignal)"
    using n by (simp add: mq_wait_def SequenceBarrier_WaitFor_def observe_def
        buildMinSequenceFunction_def mq_cursor_def Let_def)
  show ?thesis
    using False f w n
    by (simp add: mq_has_events_def has_events_def begin_batch_def mq_refreshed_def
        batch_size_def is_batch_def Let_def)
qed

text \<open>Delivering \<open>n\<close> events of the open batch, for both batch calls.\<close>

definition mq_deliver :: "nat \<Rightarrow> 'a MPSCQueue \<Rightarrow> 'a list \<times> 'a MPSCQueue" where
  "mq_deliver n q =
     (get_events (sq_ring_buffer (mq_sequencer q)) (mq_refreshed q) 0 n,
      q\<lparr>mq_event_processor := commit (int n) (mq_refreshed q)\<rparr>)"

definition mq_batch :: "'a MPSCQueue \<Rightarrow> nat" where
  "mq_batch q =
     (if is_batch (mq_refreshed q)
      then nat (ep_avalaible_sequence (mq_refreshed q) - mq_next q + 1) else 0)"

lemma mq_refreshed_simps:
  "ep_next_sequence (mq_refreshed q) = mq_next q"
  "ep_sequence (mq_refreshed q) = ep_sequence (mq_event_processor q)"
  by (simp_all add: mq_refreshed_def mq_next_def)

lemma mq_refreshed_avail:
  "mq_inv q \<Longrightarrow> ep_avalaible_sequence (mq_refreshed q) \<le> mq_cursor q"
  by (auto simp: mq_refreshed_def mq_inv_def)

lemma mq_batch_0_iff: "mq_inv q \<Longrightarrow> mq_batch q = 0 \<longleftrightarrow> mq_contents q = []"
  by (auto simp: mq_batch_def mq_refreshed_def mq_contents_def is_batch_def mq_inv_def mq_next_def)

lemma mq_deliver_spec:
  assumes inv: "mq_inv q" and n: "0 < n" "n \<le> mq_batch q" and d: "mq_deliver n q = (xs, q')"
  shows "mq_inv q' \<and> mq_contents q = xs @ mq_contents q' \<and> length xs = n \<and>
    mq_size q' = mq_size q \<and> mq_cursor q' = mq_cursor q"
proof -
  let ?ep = "mq_refreshed q" and ?rb = "sq_ring_buffer (mq_sequencer q)"
  have batch: "is_batch ?ep" using n by (auto simp: mq_batch_def split: if_splits)
  then have n': "mq_next q + int n \<le> ep_avalaible_sequence ?ep + 1"
    using n by (simp add: mq_batch_def is_batch_def mq_refreshed_simps)
  with mq_refreshed_avail [OF inv] have le: "mq_next q + int n \<le> mq_cursor q + 1" by linarith
  have lo: "-1 \<le> mq_consumed q" "mq_consumed q < mq_next q" "mq_cursor q < 2 ^ 63 - 1"
    using inv by (auto simp: mq_inv_def)
  have f: "i64 (mq_next q + int n) = mq_next q + int n"
    "i64 (mq_next q + int n - 1) = mq_next q + int n - 1"
    using le lo n by (simp_all add: fits64_def)
  have xs: "xs = map (\<lambda>k. RingBuffer_get ?rb (mq_next q + int k)) [0..<n]"
    using d le lo by (auto simp: mq_deliver_def get_events_conv get_event_def mq_refreshed_simps
        fits64_def intro!: arg_cong [of _ _ "RingBuffer_get ?rb"] i64_id)
  have ep': "mq_event_processor q' = commit (int n) ?ep" and
    rest: "mq_sequencer q' = mq_sequencer q" "mq_barrier q' = mq_barrier q"
    using d by (auto simp: mq_deliver_def)
  have nxt: "mq_next q' = mq_next q + int n"
    by (simp add: mq_next_def [of q'] ep' commit_def Let_def finish_batch_def mq_refreshed_simps f)
  have same: "mq_size q' = mq_size q" "mq_cursor q' = mq_cursor q" "mq_claimed q' = mq_claimed q"
    by (simp_all add: mq_defs rest)
  have av: "ep_avalaible_sequence (mq_event_processor q') = ep_avalaible_sequence ?ep"
    by (simp add: ep' commit_def Let_def finish_batch_def)
  have ib: "is_batch (mq_event_processor q') \<longleftrightarrow> mq_next q + int n \<le> ep_avalaible_sequence ?ep"
    using nxt av by (simp add: is_batch_def mq_next_def [of q'])
  have cons: "mq_consumed q' =
      (if mq_next q + int n \<le> ep_avalaible_sequence ?ep then mq_consumed q else mq_next q + int n - 1)"
    by (simp add: mq_consumed_def ep' commit_def Let_def finish_batch_def is_batch_def
        mq_refreshed_simps f)
  have "mq_inv q'"
    using inv le lo n mq_refreshed_avail [OF inv]
    unfolding mq_inv_def same nxt av cons rest ib by auto
  moreover have "[mq_next q..mq_cursor q] = [mq_next q..mq_next q + int n - 1] @ [mq_next q + int n..mq_cursor q]"
    using upto_split2 [of "mq_next q" "mq_next q + int n - 1" "mq_cursor q"] le n by simp
  moreover have "[mq_next q..mq_next q + int n - 1] = map (\<lambda>k. mq_next q + int k) [0..<n]"
    by (rule nth_equalityI) (simp_all add: nth_upto)
  ultimately show ?thesis
    by (simp add: mq_contents_def nxt same rest xs comp_def)
qed

lemma mq_batch_size:
  assumes "mq_inv q"
  shows "mq_has_events q = Some (mq_refreshed q, int (mq_batch q))"
    and "int (mq_batch q) < 2 ^ 63"
  using mq_has_events_eq [OF assms] mq_refreshed_avail [OF assms] assms
  by (auto simp: mq_batch_def is_batch_def mq_refreshed_simps mq_inv_def)

lemma mq_idle_inv:
  assumes "mq_inv q" "mq_batch q = 0"
  shows "mq_inv (q\<lparr>mq_event_processor := mq_refreshed q\<rparr>) \<and>
    mq_contents (q\<lparr>mq_event_processor := mq_refreshed q\<rparr>) = []"
  using assms mq_batch_0_iff [OF assms(1)]
  by (auto simp: mq_inv_def mq_contents_def mq_defs mq_refreshed_def mq_batch_def is_batch_def
      split: if_splits)


lemma MPSCQueue_get_all_eq:
  assumes inv: "mq_inv q"
  shows "MPSCQueue_get_all q = Some
    (if mq_batch q = 0 then ([], q\<lparr>mq_event_processor := mq_refreshed q\<rparr>)
     else mq_deliver (mq_batch q) q)"
proof -
  note sz = mq_batch_size [OF inv]
  then have "u64 (int (mq_batch q)) = int (mq_batch q)" "i64 (int (mq_batch q)) = int (mq_batch q)"
    by (simp_all add: fits64_def)
  then show ?thesis unfolding MPSCQueue_get_all_def sz(1) by (simp add: mq_deliver_def)
qed




lemma mq_inv_new:
  assumes "ring_size_ok (int N)" "int N < 2 ^ 63"
  shows "mq_inv (MPSCQueue_new d N) \<and> mq_contents (MPSCQueue_new d N) = [] \<and>
    mq_size (MPSCQueue_new d N) = int N \<and> mq_cursor (MPSCQueue_new d N) = -1"
  using assms
  by (simp add: mq_inv_def mq_contents_def mq_defs MPSCQueue_new_def Sequencer_new_def
      Sequencer_set_gating_sequences_def Sequencer_NewBarrier_def SequenceBarrier_new_def
      MultiThreadedStrategy_new_def BatchEventProcessor_new_def is_batch_def)



text \<open>\<open>get_all\<close>, called when no batch is open (as the event loop calls it), hands over
  exactly the pending messages in order, leaves nothing pending, and advances the gating
  sequence to the cursor, so the whole ring is free again for the publishers.\<close>

theorem MPSCQueue_get_all_drains:
  assumes "mq_inv q" "\<not> is_batch (mq_event_processor q)"
  shows "\<exists>q'. MPSCQueue_get_all q = Some (mq_contents q, q') \<and> mq_inv q' \<and>
    mq_contents q' = [] \<and> mq_consumed q' = mq_cursor q \<and> \<not> is_batch (mq_event_processor q')"
proof (cases "mq_batch q = 0")
  case True
  let ?q' = "q\<lparr>mq_event_processor := mq_refreshed q\<rparr>"
  have "mq_next q = mq_consumed q + 1" "mq_next q \<le> mq_cursor q + 1" "-1 \<le> mq_consumed q"
    using assms by (auto simp: mq_inv_def)
  moreover have "\<not> mq_next q \<le> mq_cursor q"
    using True mq_batch_0_iff [OF assms(1)] by (simp add: mq_contents_def)
  ultimately have "mq_consumed ?q' = mq_cursor q \<and> \<not> is_batch (mq_refreshed q)"
    using assms(2) by (simp add: mq_defs mq_refreshed_def is_batch_def)
  with True mq_idle_inv [OF assms(1) True] mq_batch_0_iff [OF assms(1)] show ?thesis
    by (simp add: MPSCQueue_get_all_eq [OF assms(1)])
next
  case False
  obtain xs q' where d: "mq_deliver (mq_batch q) q = (xs, q')" by fastforce
  note spec = mq_deliver_spec [OF assms(1) _ order_refl d]
  have n: "mq_next q \<le> mq_cursor q"
    using False mq_batch_0_iff [OF assms(1)] by (auto simp: mq_contents_def)
  then have b: "mq_batch q = nat (mq_cursor q - mq_next q + 1)"
    using assms(2) by (simp add: mq_batch_def mq_refreshed_def is_batch_def)
  with n have e: "mq_next q + int (mq_batch q) = mq_cursor q + 1" by simp
  have lo: "-1 \<le> mq_consumed q" "mq_consumed q < mq_next q" "mq_cursor q < 2 ^ 63 - 1"
    using assms(1) by (auto simp: mq_inv_def)
  have len: "length (mq_contents q) = mq_batch q" using b by (simp add: mq_contents_def)
  have "mq_contents q = xs @ mq_contents q'" "length xs = mq_batch q" using spec False by simp_all
  with len have "mq_contents q' = [] \<and> xs = mq_contents q" by simp
  moreover have "mq_consumed q' = mq_cursor q \<and> \<not> is_batch (mq_event_processor q')"
    using d e lo n assms(2)
    by (auto simp: mq_deliver_def mq_consumed_def commit_def Let_def finish_batch_def
        is_batch_def mq_refreshed_def fits64_def)
  ultimately show ?thesis
    using spec d False by (simp add: MPSCQueue_get_all_eq [OF assms(1)])
qed

theorem MPSCQueue_get_all_drains_witness:
  "\<exists>q'. MPSCQueue_get_all (mq_after_send (MPSCQueue_new 0 2) (9::int)) = Some ([9], q') \<and>
    mq_contents q' = []"
proof -
  let ?q = "mq_after_send (MPSCQueue_new 0 2) (9::int)"
  have ok: "ring_size_ok (int 2)"
    by (simp add: ring_size_ok_def RingBuffer_static_assert_def u64_def not_int_def)
  have new: "mq_inv (MPSCQueue_new (0::int) 2)" using mq_inv_new [OF ok, of "0 :: int"] by simp
  have "mq_push (MPSCQueue_new 0 2) 9 = Some ?q" by code_simp
  from mq_push_spec [OF new _ this] mq_inv_new [OF ok, of "0 :: int"]
  have "mq_inv ?q" "mq_contents ?q = [9]" by simp_all
  moreover have "\<not> is_batch (mq_event_processor ?q)" by code_simp
  ultimately show ?thesis using MPSCQueue_get_all_drains [of ?q] by auto
qed

text \<open>The single-event overload \<open>get(T&)\<close> does not deliver the next message: it passes
  the absolute sequence where an offset into the batch is expected, so it reads the slot of
  twice the next sequence, and still consumes one message.\<close>

theorem MPSCQueue_get_reads_doubled:
  assumes "mq_inv q" "mq_contents q \<noteq> []" "2 * mq_next q < 2 ^ 63"
  shows "\<exists>q'. MPSCQueue_get q =
      Some (Some (RingBuffer_get (sq_ring_buffer (mq_sequencer q)) (2 * mq_next q)), q') \<and>
    mq_contents q' = tl (mq_contents q) \<and>
    hd (mq_contents q) = RingBuffer_get (sq_ring_buffer (mq_sequencer q)) (mq_next q)"
proof -
  have b: "mq_batch q \<noteq> 0" using assms(1,2) mq_batch_0_iff by blast
  obtain xs q' where d: "mq_deliver 1 q = (xs, q')" by fastforce
  note spec = mq_deliver_spec [OF assms(1) _ _ d]
  have "fits64 (2 * mq_next q)" using assms(1,3) by (simp add: mq_inv_def fits64_def)
  then have "get_current_event (sq_ring_buffer (mq_sequencer q)) (mq_refreshed q) =
      RingBuffer_get (sq_ring_buffer (mq_sequencer q)) (2 * mq_next q)"
    by (simp add: get_current_event_def get_event_def mq_refreshed_simps)
  moreover have "q' = q\<lparr>mq_event_processor := commit 1 (mq_refreshed q)\<rparr>"
    using d by (auto simp: mq_deliver_def)
  ultimately have "MPSCQueue_get q =
      Some (Some (RingBuffer_get (sq_ring_buffer (mq_sequencer q)) (2 * mq_next q)), q')"
    using b by (simp add: MPSCQueue_get_def mq_batch_size [OF assms(1)])
  moreover have "mq_contents q' = tl (mq_contents q)"
    using spec b by (cases xs) auto
  moreover have "hd (mq_contents q) = RingBuffer_get (sq_ring_buffer (mq_sequencer q)) (mq_next q)"
    using assms(2) by (auto simp: mq_contents_def upto_rec1)
  ultimately show ?thesis by blast
qed

text \<open>With two messages queued in a ring of four, the second call returns a default element.\<close>

theorem MPSCQueue_get_reads_doubled_witness:
  "let q = mq_after_send (mq_after_send (MPSCQueue_new 0 4) 5) (6::int);
       q1 = snd (the (MPSCQueue_get q))
   in mq_contents q1 = [6] \<and> fst (the (MPSCQueue_get q1)) = Some 0"
proof -
  let ?p = "mq_after_send (MPSCQueue_new 0 4) (5::int)"
  let ?q = "mq_after_send ?p 6"
  let ?q1 = "snd (the (MPSCQueue_get ?q))"
  have ok: "ring_size_ok (int 4)"
    by (simp add: ring_size_ok_def RingBuffer_static_assert_def u64_def not_int_def)
  have p: "mq_push (MPSCQueue_new 0 4) 5 = Some ?p" "mq_push ?p 6 = Some ?q" by code_simp+
  from mq_push_spec [OF _ _ p(1)] mq_inv_new [OF ok, of "0 :: int"]
  have 0: "mq_inv ?p" "mq_contents ?p = [5]" "mq_cursor ?p = 0" by auto
  with mq_push_spec [OF _ _ p(2)] have q: "mq_inv ?q" "mq_contents ?q = [5, 6]" by auto
  have "mq_next ?q = 0" by code_simp
  with MPSCQueue_get_reads_doubled [of ?q] q have "mq_contents ?q1 = [6]" by auto
  moreover have "fst (the (MPSCQueue_get ?q1)) = Some 0" by code_simp
  ultimately show ?thesis by (simp add: Let_def)
qed

end
