(* ===== verification/MPSC_Concurrent.thy ===== *)
theory MPSC_Concurrent
  imports MPSC_Queue
begin

text \<open>
  The message queue under concurrency: any number of producers run \<open>send\<close>, one consumer runs
  \<open>get_all\<close>, and every access to shared memory is a step of its own, interleaved at will.
  The steps use the operations of the component theories: the atomic claim, one turn of each
  spinning loop, the write of the slot, the increment of the cursor, the batch operations.
\<close>

subsection \<open>State and steps\<close>

text \<open>Where a producer is in \<open>send\<close>: spinning for capacity, about to write the slot,
  spinning in \<open>SynchronizePublishing\<close>, about to increment the cursor.\<close>

datatype 'a producer_pc =
    PIdle
  | PGate int 'a
  | PWrite int 'a
  | PSync int 'a
  | PPublish int 'a

text \<open>Where the consumer is in \<open>get_all\<close>: outside, or in the loop with the counter \<open>c\<close> and
  the size of the batch.\<close>

datatype consumer_pc = CIdle | CRead nat nat

text \<open>The last two fields are history: what was sent, in the order of the claims, and what
  was handed to the consumer's function, in the order of the calls.\<close>

record 'a mpsc =
  mp_claim :: MultiThreadedStrategy
  mp_cursor :: Sequence
  mp_ring :: "'a RingBuffer"
  mp_ep :: BatchEventProcessor
  mp_producers :: "nat \<Rightarrow> 'a producer_pc"
  mp_consumer :: consumer_pc
  mp_sent :: "'a list"
  mp_delivered :: "'a list"

definition mp_init :: "'a \<Rightarrow> nat \<Rightarrow> 'a mpsc" where
  "mp_init d N =
     \<lparr>mp_claim = MultiThreadedStrategy_new, mp_cursor = Sequence_default,
      mp_ring = \<lparr>rb_events = replicate N d\<rparr>, mp_ep = BatchEventProcessor_new,
      mp_producers = (\<lambda>_. PIdle), mp_consumer = CIdle, mp_sent = [], mp_delivered = []\<rparr>"

definition mp_size :: "'a mpsc \<Rightarrow> int" where
  "mp_size s = int (length (rb_events (mp_ring s)))"

definition mp_goto :: "nat \<Rightarrow> 'a producer_pc \<Rightarrow> 'a mpsc \<Rightarrow> 'a mpsc" where
  "mp_goto p pc s = s\<lparr>mp_producers := (mp_producers s)(p := pc)\<rparr>"

definition do_claim :: "nat \<Rightarrow> 'a \<Rightarrow> 'a mpsc \<Rightarrow> 'a mpsc" where
  "do_claim p v s =
     (let (idx, c) = mt_claim (mp_claim s) 1;
          s' = s\<lparr>mp_claim := c, mp_sent := mp_sent s @ [v]\<rparr>
      in mp_goto p (if mt_must_wait (mp_size s) c idx then PGate idx v else PWrite idx v) s')"

text \<open>One turn of \<open>while (GetMinimumSequence(dependents) < wrap_point)\<close>.\<close>

definition gate_open :: "int \<Rightarrow> 'a mpsc \<Rightarrow> bool" where
  "gate_open idx s \<longleftrightarrow>
     await_capacity (i64 (idx - mp_size s)) [[seq_value (ep_sequence (mp_ep s))]] = Some ()"

definition do_write :: "nat \<Rightarrow> int \<Rightarrow> 'a \<Rightarrow> 'a mpsc \<Rightarrow> 'a mpsc" where
  "do_write p idx v s = mp_goto p (PSync idx v) (s\<lparr>mp_ring := RingBuffer_set (mp_ring s) idx v\<rparr>)"

definition sync_open :: "int \<Rightarrow> 'a mpsc \<Rightarrow> bool" where
  "sync_open idx s \<longleftrightarrow> mt_SynchronizePublishing idx 1 [seq_value (mp_cursor s)] = Some ()"

definition do_publish :: "nat \<Rightarrow> 'a mpsc \<Rightarrow> 'a mpsc" where
  "do_publish p s =
     mp_goto p PIdle (s\<lparr>mp_cursor := snd (Sequence_IncrementAndGet 1 (mp_cursor s))\<rparr>)"

definition do_begin :: "'a mpsc \<Rightarrow> 'a mpsc" where
  "do_begin s =
     (case has_events (mq_wait (SequenceBarrier_new []) (mp_cursor s)) (mp_ep s) of
        None \<Rightarrow> s
      | Some (ep, sz) \<Rightarrow>
          s\<lparr>mp_ep := ep, mp_consumer := if u64 sz = 0 then CIdle else CRead 0 (nat (u64 sz))\<rparr>)"

definition do_read :: "nat \<Rightarrow> nat \<Rightarrow> 'a mpsc \<Rightarrow> 'a mpsc" where
  "do_read c sz s =
     s\<lparr>mp_delivered := mp_delivered s @ [get_event (mp_ring s) (mp_ep s) (int c)],
       mp_consumer := CRead (Suc c) sz\<rparr>"

definition do_commit :: "nat \<Rightarrow> 'a mpsc \<Rightarrow> 'a mpsc" where
  "do_commit sz s = s\<lparr>mp_ep := commit (int sz) (mp_ep s), mp_consumer := CIdle\<rparr>"

inductive mp_step :: "'a mpsc \<Rightarrow> 'a mpsc \<Rightarrow> bool" where
  claim: "mp_producers s p = PIdle \<Longrightarrow> mp_step s (do_claim p v s)"
| gate: "mp_producers s p = PGate idx v \<Longrightarrow> gate_open idx s \<Longrightarrow> mp_step s (mp_goto p (PWrite idx v) s)"
| write_slot: "mp_producers s p = PWrite idx v \<Longrightarrow> mp_step s (do_write p idx v s)"
| synced: "mp_producers s p = PSync idx v \<Longrightarrow> sync_open idx s \<Longrightarrow> mp_step s (mp_goto p (PPublish idx v) s)"
| publish: "mp_producers s p = PPublish idx v \<Longrightarrow> mp_step s (do_publish p s)"
| begin_get: "mp_consumer s = CIdle \<Longrightarrow> mp_step s (do_begin s)"
| read: "mp_consumer s = CRead c sz \<Longrightarrow> c < sz \<Longrightarrow> mp_step s (do_read c sz s)"
| commit_get: "mp_consumer s = CRead sz sz \<Longrightarrow> mp_step s (do_commit sz s)"

inductive mp_reachable :: "'a \<Rightarrow> nat \<Rightarrow> 'a mpsc \<Rightarrow> bool" for d N where
  start: "mp_reachable d N (mp_init d N)"
| more: "mp_reachable d N s \<Longrightarrow> mp_step s t \<Longrightarrow> mp_reachable d N t"

subsection \<open>The invariant\<close>

abbreviation claimed_of :: "'a mpsc \<Rightarrow> int" where
  "claimed_of s \<equiv> seq_value (mt_last_claimed_sequence (mp_claim s))"

abbreviation cursor_of :: "'a mpsc \<Rightarrow> int" where
  "cursor_of s \<equiv> seq_value (mp_cursor s)"

abbreviation consumed_of :: "'a mpsc \<Rightarrow> int" where
  "consumed_of s \<equiv> seq_value (ep_sequence (mp_ep s))"

fun holds_seq :: "'a producer_pc \<Rightarrow> (int \<times> 'a) option" where
  "holds_seq PIdle = None"
| "holds_seq (PGate i v) = Some (i, v)"
| "holds_seq (PWrite i v) = Some (i, v)"
| "holds_seq (PSync i v) = Some (i, v)"
| "holds_seq (PPublish i v) = Some (i, v)"

fun past_gate :: "'a producer_pc \<Rightarrow> int option" where
  "past_gate (PWrite i v) = Some i"
| "past_gate (PSync i v) = Some i"
| "past_gate (PPublish i v) = Some i"
| "past_gate _ = None"

fun has_written :: "'a producer_pc \<Rightarrow> (int \<times> 'a) option" where
  "has_written (PSync i v) = Some (i, v)"
| "has_written (PPublish i v) = Some (i, v)"
| "has_written _ = None"

text \<open>Counters: the claims counted by the history, the cursor between consumer and claims.\<close>

definition inv_counters :: "int \<Rightarrow> 'a mpsc \<Rightarrow> bool" where
  "inv_counters N s \<longleftrightarrow> rb_ok (mp_ring s) N \<and> N < 2 ^ 63 \<and>
     claimed_of s = int (length (mp_sent s)) - 1 \<and>
     seq_value (mt_last_consumer_sequence (mp_claim s)) = -1 \<and>
     -1 \<le> consumed_of s \<and> consumed_of s \<le> cursor_of s \<and> cursor_of s \<le> claimed_of s \<and>
     cursor_of s \<le> consumed_of s + N"

text \<open>Producers: every unpublished claim is held by exactly one of them, with its value; past
  the gate it fits the ring; the one that publishes is next in order.\<close>

definition inv_producers :: "int \<Rightarrow> 'a mpsc \<Rightarrow> bool" where
  "inv_producers N s \<longleftrightarrow>
     (\<forall>p i v. holds_seq (mp_producers s p) = Some (i, v) \<longrightarrow>
        cursor_of s < i \<and> i \<le> claimed_of s \<and> mp_sent s ! nat i = v) \<and>
     (\<forall>p q i v w. holds_seq (mp_producers s p) = Some (i, v) \<longrightarrow>
        holds_seq (mp_producers s q) = Some (i, w) \<longrightarrow> p = q) \<and>
     (\<forall>i. cursor_of s < i \<and> i \<le> claimed_of s \<longrightarrow>
        (\<exists>p v. holds_seq (mp_producers s p) = Some (i, v))) \<and>
     (\<forall>p i. past_gate (mp_producers s p) = Some i \<longrightarrow> i \<le> consumed_of s + N) \<and>
     (\<forall>p i v. mp_producers s p = PPublish i v \<longrightarrow> i = cursor_of s + 1)"

text \<open>Ring: the slots of published and of written sequences hold what was sent.\<close>

definition inv_ring :: "'a mpsc \<Rightarrow> bool" where
  "inv_ring s \<longleftrightarrow>
     (\<forall>i. consumed_of s < i \<and> i \<le> cursor_of s \<longrightarrow> RingBuffer_get (mp_ring s) i = mp_sent s ! nat i) \<and>
     (\<forall>p i v. has_written (mp_producers s p) = Some (i, v) \<longrightarrow> RingBuffer_get (mp_ring s) i = v)"

text \<open>Consumer: what has been delivered is what the sequences consumed say.\<close>

definition inv_consumer :: "'a mpsc \<Rightarrow> bool" where
  "inv_consumer s \<longleftrightarrow> ep_next_sequence (mp_ep s) = consumed_of s + 1 \<and>
     (case mp_consumer s of
        CIdle \<Rightarrow> \<not> is_batch (mp_ep s) \<and> mp_delivered s = take (nat (consumed_of s + 1)) (mp_sent s)
      | CRead c sz \<Rightarrow> c \<le> sz \<and> 0 < sz \<and> consumed_of s + int sz \<le> cursor_of s \<and>
          ep_avalaible_sequence (mp_ep s) = consumed_of s + int sz \<and>
          mp_delivered s = take (nat (consumed_of s + 1) + c) (mp_sent s))"

definition mp_inv :: "int \<Rightarrow> 'a mpsc \<Rightarrow> bool" where
  "mp_inv N s \<longleftrightarrow> inv_counters N s \<and> inv_producers N s \<and> inv_ring s \<and> inv_consumer s"

subsection \<open>Every step keeps the invariant\<close>

lemma mp_goto_simps [simp]:
  "mp_claim (mp_goto p pc s) = mp_claim s" "mp_cursor (mp_goto p pc s) = mp_cursor s"
  "mp_ring (mp_goto p pc s) = mp_ring s" "mp_ep (mp_goto p pc s) = mp_ep s"
  "mp_consumer (mp_goto p pc s) = mp_consumer s" "mp_sent (mp_goto p pc s) = mp_sent s"
  "mp_delivered (mp_goto p pc s) = mp_delivered s"
  "mp_producers (mp_goto p pc s) = (mp_producers s)(p := pc)"
  by (simp_all add: mp_goto_def)

lemma past_gate_holds: "past_gate pc = Some i \<Longrightarrow> \<exists>v. holds_seq pc = Some (i, v)"
  by (cases pc) auto

lemma has_written_holds: "has_written pc = Some iv \<Longrightarrow> holds_seq pc = Some iv"
  by (cases pc) auto

lemma has_written_past: "has_written pc = Some (i, v) \<Longrightarrow> past_gate pc = Some i"
  by (cases pc) auto

lemma inv_sizes: "inv_counters N s \<Longrightarrow> mp_size s = N \<and> 0 < N"
  by (auto simp: inv_counters_def mp_size_def rb_ok_def ring_size_pos)

lemma inv_producersD:
  assumes "inv_producers N s"
  shows "holds_seq (mp_producers s p) = Some (i, v) \<Longrightarrow>
      cursor_of s < i \<and> i \<le> claimed_of s \<and> mp_sent s ! nat i = v"
    and "holds_seq (mp_producers s p) = Some (i, v) \<Longrightarrow>
      holds_seq (mp_producers s q) = Some (i, w) \<Longrightarrow> p = q"
    and "past_gate (mp_producers s p) = Some i \<Longrightarrow> i \<le> consumed_of s + N"
    and "mp_producers s p = PPublish i v \<Longrightarrow> i = cursor_of s + 1"
  using assms unfolding inv_producers_def by blast+

lemma inv_producers_cover:
  "inv_producers N s \<Longrightarrow> cursor_of s < i \<Longrightarrow> i \<le> claimed_of s \<Longrightarrow>
     \<exists>p v. holds_seq (mp_producers s p) = Some (i, v)"
  unfolding inv_producers_def by blast

lemma inv_ringD:
  assumes "inv_ring s"
  shows "consumed_of s < i \<Longrightarrow> i \<le> cursor_of s \<Longrightarrow> RingBuffer_get (mp_ring s) i = mp_sent s ! nat i"
    and "has_written (mp_producers s p) = Some (i, v) \<Longrightarrow> RingBuffer_get (mp_ring s) i = v"
  using assms unfolding inv_ring_def by blast+

text \<open>A producer that moves along without leaving its sequence.\<close>

lemma goto_inv:
  assumes inv: "mp_inv N s"
    and holds: "holds_seq pc = holds_seq (mp_producers s p)"
    and gate: "past_gate pc = Some i \<Longrightarrow> i \<le> consumed_of s + N"
    and written: "has_written pc = Some (i, v) \<Longrightarrow> RingBuffer_get (mp_ring s) i = v"
    and pub: "pc = PPublish i v \<Longrightarrow> i = cursor_of s + 1"
    and only: "holds_seq pc = Some (i, v)"
  shows "mp_inv N (mp_goto p pc s)"
proof -
  have c: "inv_counters N (mp_goto p pc s)" and k: "inv_consumer (mp_goto p pc s)"
    using inv unfolding mp_inv_def inv_counters_def inv_consumer_def mp_goto_simps by blast+
  have h: "holds_seq (((mp_producers s)(p := pc)) q) = holds_seq (mp_producers s q)" for q
    using holds by simp
  have g: "j \<le> consumed_of s + N" if "past_gate (((mp_producers s)(p := pc)) q) = Some j" for q j
  proof (cases "q = p")
    case True
    with that have pc: "past_gate pc = Some j" by simp
    with only past_gate_holds [of pc j] have "j = i" by auto
    with pc gate show ?thesis by blast
  next
    case False
    with that inv inv_producersD(3) [of N s q j] show ?thesis by (simp add: mp_inv_def)
  qed
  have b: "j = cursor_of s + 1" if "((mp_producers s)(p := pc)) q = PPublish j w" for q j w
  proof (cases "q = p")
    case True
    with that have "pc = PPublish j w" by simp
    moreover from this only have "j = i \<and> w = v" by simp
    ultimately show ?thesis using pub by blast
  next
    case False
    with that inv inv_producersD(4) [of N s q j w] show ?thesis by (simp add: mp_inv_def)
  qed
  have p: "inv_producers N (mp_goto p pc s)"
    using inv g b unfolding mp_inv_def inv_producers_def mp_goto_simps h by blast
  have w: "RingBuffer_get (mp_ring s) j = w"
    if "has_written (((mp_producers s)(p := pc)) q) = Some (j, w)" for q j w
  proof (cases "q = p")
    case True
    with that have pc: "has_written pc = Some (j, w)" by simp
    with only has_written_holds [of pc "(j, w)"] have "j = i \<and> w = v" by simp
    with pc written show ?thesis by blast
  next
    case False
    with that inv inv_ringD(2) [of s q j w] show ?thesis by (simp add: mp_inv_def)
  qed
  have r: "inv_ring (mp_goto p pc s)"
    using inv w unfolding mp_inv_def inv_ring_def mp_goto_simps by blast
  from c k p r show ?thesis by (simp add: mp_inv_def)
qed

lemma claim_inv:
  assumes inv: "mp_inv N s" and idle: "mp_producers s p = PIdle"
    and few: "int (length (mp_sent s)) + 1 < 2 ^ 63"
  shows "mp_inv N (do_claim p v s)"
proof -
  let ?idx = "claimed_of s + 1" and ?sent = "mp_sent s @ [v]"
  have C: "inv_counters N s" and P: "inv_producers N s" and R: "inv_ring s" and K: "inv_consumer s"
    using inv by (auto simp: mp_inv_def)
  have cl: "claimed_of s = int (length (mp_sent s)) - 1" "cursor_of s \<le> claimed_of s"
    "consumed_of s \<le> cursor_of s" "-1 \<le> consumed_of s" "0 < N" "N < 2 ^ 63"
    using C inv_sizes [OF C] by (auto simp: inv_counters_def)
  with few have i: "i64 ?idx = ?idx" "i64 (?idx - N) = ?idx - N" by (simp_all add: fits64_def)
  define pc where "pc = (if -1 < ?idx - N then PGate ?idx v else PWrite ?idx v)"
  define c where "c = (mp_claim s)\<lparr>mt_last_claimed_sequence := \<lparr>seq_value = ?idx\<rparr>\<rparr>"
  define t where "t = mp_goto p pc (s\<lparr>mp_claim := c, mp_sent := ?sent\<rparr>)"
  have upd: "mt_last_claimed_sequence (mp_claim s)\<lparr>seq_value := ?idx\<rparr> = \<lparr>seq_value = ?idx\<rparr>"
    by simp
  have t: "do_claim p v s = t"
    using C i inv_sizes [OF C]
    by (simp add: do_claim_def t_def pc_def c_def mt_claim_def mt_must_wait_def upd inv_counters_def)
  have h: "holds_seq pc = Some (?idx, v)" by (simp add: pc_def)
  have f: "claimed_of t = ?idx" "cursor_of t = cursor_of s" "consumed_of t = consumed_of s"
    "mp_sent t = ?sent" "mp_ring t = mp_ring s" "mp_ep t = mp_ep s" "mp_consumer t = mp_consumer s"
    "mp_delivered t = mp_delivered s" "mp_producers t = (mp_producers s)(p := pc)"
    "mt_last_consumer_sequence (mp_claim t) = mt_last_consumer_sequence (mp_claim s)"
    by (simp_all add: t_def c_def)
  have nth: "?sent ! nat j = mp_sent s ! nat j" if "0 \<le> j" "j \<le> claimed_of s" for j
    using that cl by (simp add: nth_append nat_less_iff)
  have "inv_counters N t" using C unfolding inv_counters_def f by simp
  moreover have "inv_producers N t"
    unfolding inv_producers_def f
  proof (intro conjI allI impI)
    fix q j w assume q: "holds_seq (((mp_producers s)(p := pc)) q) = Some (j, w)"
    have "(j = ?idx \<and> w = v) \<or> (cursor_of s < j \<and> j \<le> claimed_of s \<and> mp_sent s ! nat j = w)"
      using q h P by (auto simp: inv_producers_def split: if_splits)
    then show "cursor_of s < j" "j \<le> ?idx" "?sent ! nat j = w"
      using cl nth [of j] by (auto simp: nth_append)
  next
    fix q r j w x
    assume "holds_seq (((mp_producers s)(p := pc)) q) = Some (j, w)"
      and "holds_seq (((mp_producers s)(p := pc)) r) = Some (j, x)"
    then show "q = r" using h P by (fastforce simp: inv_producers_def split: if_splits)
  next
    fix j assume j: "cursor_of s < j \<and> j \<le> ?idx"
    show "\<exists>q w. holds_seq (((mp_producers s)(p := pc)) q) = Some (j, w)"
    proof (cases "j = ?idx")
      case True
      then show ?thesis using h by (intro exI [of _ p]) simp
    next
      case False
      with j P obtain q w where q: "holds_seq (mp_producers s q) = Some (j, w)"
        by (fastforce simp: inv_producers_def)
      with idle have "q \<noteq> p" by auto
      with q show ?thesis by (intro exI [of _ q]) simp
    qed
  next
    fix q j assume "past_gate (((mp_producers s)(p := pc)) q) = Some j"
    then show "j \<le> consumed_of s + N"
      using P cl by (auto simp: inv_producers_def pc_def split: if_splits)
  next
    fix q j w assume "((mp_producers s)(p := pc)) q = PPublish j w"
    then show "j = cursor_of s + 1"
      using inv_producersD(4) [OF P, of q j w] by (auto simp: pc_def split: if_splits)
  qed
  moreover have "inv_ring t"
    using R cl nth unfolding inv_ring_def f by (auto simp: pc_def split: if_splits)
  moreover have "inv_consumer t"
    using K cl unfolding inv_consumer_def f by (auto split: consumer_pc.splits)
  ultimately show ?thesis unfolding t mp_inv_def by blast
qed

lemma gate_inv:
  assumes inv: "mp_inv N s" and pc: "mp_producers s p = PGate i v" and op: "gate_open i s"
    and few: "int (length (mp_sent s)) < 2 ^ 63"
  shows "mp_inv N (mp_goto p (PWrite i v) s)"
proof (rule goto_inv [OF inv])
  have C: "inv_counters N s" and P: "inv_producers N s" using inv by (auto simp: mp_inv_def)
  have "consumed_of s \<le> LONG_MAX" using C few by (auto simp: inv_counters_def LONG_MAX_def)
  then have "i64 (i - N) \<le> consumed_of s"
    using op inv_sizes [OF C]
    by (simp add: gate_open_def GetMinimumSequence_single split: if_splits)
  moreover have "fits64 (i - N)"
    using inv_producersD(1) [OF P, of p i v] pc C few inv_sizes [OF C]
    by (auto simp: inv_counters_def fits64_def)
  ultimately show "i \<le> consumed_of s + N" by simp
qed (use pc in auto)

lemma write_inv:
  assumes inv: "mp_inv N s" and pc: "mp_producers s p = PWrite i v"
  shows "mp_inv N (do_write p i v s)"
proof -
  let ?t = "s\<lparr>mp_ring := RingBuffer_set (mp_ring s) i v\<rparr>"
  have C: "inv_counters N s" and P: "inv_producers N s" and R: "inv_ring s" and K: "inv_consumer s"
    using inv by (auto simp: mp_inv_def)
  have ok: "rb_ok (mp_ring s) N" and cc: "cursor_of s \<le> consumed_of s + N" "consumed_of s \<le> cursor_of s"
    using C by (auto simp: inv_counters_def)
  have i: "cursor_of s < i" "i \<le> consumed_of s + N"
    using inv_producersD(1,3) [OF P, of p i] pc by auto
  have other: "RingBuffer_get (RingBuffer_set (mp_ring s) i v) j = RingBuffer_get (mp_ring s) j"
    if "j \<noteq> i" "consumed_of s < j" "j \<le> consumed_of s + N" for j
  proof (rule RingBuffer_get_set_other [OF ok])
    show "j mod N \<noteq> i mod N"
      using mod_window_inj [of j N i "consumed_of s"] that i cc by auto
  qed
  have "inv_counters N ?t" "inv_producers N ?t" "inv_consumer ?t"
    using C P K unfolding inv_counters_def inv_producers_def inv_consumer_def
    by (simp_all cong: consumer_pc.case_cong)
  moreover have "inv_ring ?t"
    unfolding inv_ring_def
  proof (intro conjI allI impI)
    fix j assume j: "consumed_of ?t < j \<and> j \<le> cursor_of ?t"
    then have "RingBuffer_get (RingBuffer_set (mp_ring s) i v) j = RingBuffer_get (mp_ring s) j"
      using i cc by (intro other) auto
    then show "RingBuffer_get (mp_ring ?t) j = mp_sent ?t ! nat j"
      using j R by (simp add: inv_ring_def)
  next
    fix q j w assume "has_written (mp_producers ?t q) = Some (j, w)"
    then have q: "has_written (mp_producers s q) = Some (j, w)" by simp
    then have "j \<noteq> i"
      using inv_producersD(2) [OF P, of q i w p v] has_written_holds [OF q] pc by auto
    moreover have "consumed_of s < j" "j \<le> consumed_of s + N"
      using inv_producersD(1) [OF P has_written_holds [OF q]] cc
        inv_producersD(3) [OF P has_written_past [OF q]] by auto
    ultimately show "RingBuffer_get (mp_ring ?t) j = w"
      using other [of j] q R by (simp add: inv_ring_def)
  qed
  ultimately have "mp_inv N ?t" by (simp add: mp_inv_def)
  then show ?thesis unfolding do_write_def
    by (rule goto_inv) (use pc i ok in auto)
qed

lemma sync_inv:
  assumes inv: "mp_inv N s" and pc: "mp_producers s p = PSync i v" and op: "sync_open i s"
    and few: "int (length (mp_sent s)) < 2 ^ 63"
  shows "mp_inv N (mp_goto p (PPublish i v) s)"
proof -
  have C: "inv_counters N s" and P: "inv_producers N s" and R: "inv_ring s"
    using inv by (auto simp: mp_inv_def)
  have i: "cursor_of s < i" "i \<le> claimed_of s" using inv_producersD(1) [OF P, of p i v] pc by auto
  with C few have "fits64 (i - 1)" by (auto simp: inv_counters_def fits64_def)
  then have "i - 1 \<le> cursor_of s"
    using op by (simp add: sync_open_def mt_SynchronizePublishing_def split: if_splits)
  with i have "i = cursor_of s + 1" by simp
  then show ?thesis
    by (intro goto_inv [OF inv, where i = i and v = v])
      (use pc inv_ringD(2) [OF R, of p i v] inv_producersD(3) [OF P, of p i] in auto)
qed

lemma publish_inv:
  assumes inv: "mp_inv N s" and pc: "mp_producers s p = PPublish i v"
    and few: "int (length (mp_sent s)) < 2 ^ 63"
  shows "mp_inv N (do_publish p s)"
proof -
  have C: "inv_counters N s" and P: "inv_producers N s" and R: "inv_ring s" and K: "inv_consumer s"
    using inv by (auto simp: mp_inv_def)
  have i: "i = cursor_of s + 1" "i \<le> claimed_of s" "mp_sent s ! nat i = v" "i \<le> consumed_of s + N"
    using inv_producersD(1) [OF P, of p i v] inv_producersD(3) [OF P, of p i]
      inv_producersD(4) [OF P pc] pc by auto
  with C few have "i64 (cursor_of s + 1) = cursor_of s + 1"
    by (intro i64_id) (auto simp: inv_counters_def fits64_def)
  then have t: "do_publish p s = mp_goto p PIdle (s\<lparr>mp_cursor := (mp_cursor s)\<lparr>seq_value := i\<rparr>\<rparr>)"
    using i(1) by (simp add: do_publish_def)
  let ?t = "mp_goto p PIdle (s\<lparr>mp_cursor := (mp_cursor s)\<lparr>seq_value := i\<rparr>\<rparr>)"
  have h: "holds_seq (mp_producers ?t q) = Some (j, w) \<longleftrightarrow>
      q \<noteq> p \<and> holds_seq (mp_producers s q) = Some (j, w)" for q j w by auto
  have new: "j \<noteq> i" if "holds_seq (mp_producers ?t q) = Some (j, w)" for q j w
    using that inv_producersD(2) [OF P, of q i w p v] pc unfolding h by auto
  have "inv_counters N ?t" using C i by (simp add: inv_counters_def)
  moreover have "inv_producers N ?t"
    unfolding inv_producers_def
  proof (intro conjI allI impI)
    fix q j w assume q: "holds_seq (mp_producers ?t q) = Some (j, w)"
    from new [OF q] inv_producersD(1) [OF P, of q j w] q i
    show "cursor_of ?t < j" "j \<le> claimed_of ?t" "mp_sent ?t ! nat j = w" unfolding h by auto
  next
    fix q r j w x
    assume "holds_seq (mp_producers ?t q) = Some (j, w)" "holds_seq (mp_producers ?t r) = Some (j, x)"
    then show "q = r" using inv_producersD(2) [OF P, of q j w r x] unfolding h by simp
  next
    fix j assume j: "cursor_of ?t < j \<and> j \<le> claimed_of ?t"
    then obtain q w where q: "holds_seq (mp_producers s q) = Some (j, w)"
      using inv_producers_cover [OF P, of j] i(1) by auto
    have "q \<noteq> p" using q pc j by auto
    with q show "\<exists>q w. holds_seq (mp_producers ?t q) = Some (j, w)" unfolding h by blast
  next
    fix q j assume "past_gate (mp_producers ?t q) = Some j"
    then show "j \<le> consumed_of ?t + N"
      using inv_producersD(3) [OF P, of q j] by (auto split: if_splits)
  next
    fix q j w assume q: "mp_producers ?t q = PPublish j w"
    then have "holds_seq (mp_producers ?t q) = Some (j, w)" by simp
    from new [OF this] q inv_producersD(4) [OF P, of q j w] i(1)
    show "j = cursor_of ?t + 1" by (auto split: if_splits)
  qed
  moreover have "inv_ring ?t"
  proof -
    have "RingBuffer_get (mp_ring s) i = v" using inv_ringD(2) [OF R, of p i v] pc by simp
    then have "RingBuffer_get (mp_ring s) j = mp_sent s ! nat j" if "consumed_of s < j" "j \<le> i" for j
      using inv_ringD(1) [OF R, of j] that i(1,3) by (cases "j = i") auto
    moreover have "RingBuffer_get (mp_ring s) j = w" if "has_written (mp_producers ?t q) = Some (j, w)" for q j w
      using inv_ringD(2) [OF R, of q j w] that by (auto split: if_splits)
    ultimately show ?thesis unfolding inv_ring_def by simp
  qed
  moreover have "inv_consumer ?t"
    using K i(1) by (auto simp: inv_consumer_def split: consumer_pc.splits)
  ultimately show ?thesis unfolding t mp_inv_def by blast
qed

lemma do_begin_eq:
  assumes inv: "mp_inv N s" and pc: "mp_consumer s = CIdle"
    and few: "int (length (mp_sent s)) < 2 ^ 63"
  shows "do_begin s =
    s\<lparr>mp_ep := (mp_ep s)\<lparr>ep_next_sequence := consumed_of s + 1,
         ep_avalaible_sequence := if consumed_of s < cursor_of s then cursor_of s else kNotReadySignal\<rparr>,
      mp_consumer := if consumed_of s < cursor_of s then CRead 0 (nat (cursor_of s - consumed_of s))
                     else CIdle\<rparr>"
proof -
  have b: "-1 \<le> consumed_of s" "consumed_of s \<le> cursor_of s"
    "cursor_of s \<le> int (length (mp_sent s)) - 1" "\<not> is_batch (mp_ep s)"
    using inv pc by (auto simp: mp_inv_def inv_counters_def inv_consumer_def)
  with few have f: "i64 (consumed_of s + 1) = consumed_of s + 1"
    "i64 (cursor_of s - consumed_of s) = cursor_of s - consumed_of s"
    "u64 (cursor_of s - consumed_of s) = cursor_of s - consumed_of s"
    by (simp_all add: fits64_def)
  have w: "mq_wait (SequenceBarrier_new []) (mp_cursor s) (consumed_of s + 1) =
      Some (if consumed_of s < cursor_of s then cursor_of s else kNotReadySignal)"
    by (simp add: mq_wait_def SequenceBarrier_WaitFor_def SequenceBarrier_new_def observe_def
        buildMinSequenceFunction_def Let_def)
  show ?thesis using b f w pc
    by (simp add: do_begin_def has_events_def begin_batch_def batch_size_def Let_def)
qed

lemma begin_inv:
  assumes inv: "mp_inv N s" and pc: "mp_consumer s = CIdle"
    and few: "int (length (mp_sent s)) < 2 ^ 63"
  shows "mp_inv N (do_begin s)"
  using inv pc unfolding do_begin_eq [OF assms]
  by (auto simp: mp_inv_def inv_counters_def inv_producers_def inv_ring_def inv_consumer_def
      is_batch_def)

lemma read_inv:
  assumes inv: "mp_inv N s" and pc: "mp_consumer s = CRead c sz" "c < sz"
    and few: "int (length (mp_sent s)) < 2 ^ 63"
  shows "mp_inv N (do_read c sz s)"
proof -
  have C: "inv_counters N s" and R: "inv_ring s" and K: "inv_consumer s"
    using inv by (auto simp: mp_inv_def)
  let ?i = "consumed_of s + 1 + int c"
  have k: "ep_next_sequence (mp_ep s) = consumed_of s + 1" "consumed_of s + int sz \<le> cursor_of s"
    "mp_delivered s = take (nat (consumed_of s + 1) + c) (mp_sent s)"
    using K pc by (auto simp: inv_consumer_def)
  have b: "-1 \<le> consumed_of s" "cursor_of s \<le> int (length (mp_sent s)) - 1"
    using C by (auto simp: inv_counters_def)
  have "get_event (mp_ring s) (mp_ep s) (int c) = mp_sent s ! nat ?i"
    using inv_ringD(1) [OF R, of ?i] k b pc(2) few
    by (simp add: get_event_def fits64_def)
  moreover have "nat ?i = nat (consumed_of s + 1) + c" using b by simp
  moreover have "nat (consumed_of s + 1) + c < length (mp_sent s)" using b k pc(2) by linarith
  ultimately have "mp_delivered s @ [get_event (mp_ring s) (mp_ep s) (int c)] =
      take (nat (consumed_of s + 1) + Suc c) (mp_sent s)"
    using k(3) by (simp add: take_Suc_conv_app_nth)
  with inv pc show ?thesis
    by (auto simp: do_read_def mp_inv_def inv_counters_def inv_producers_def inv_ring_def
        inv_consumer_def)
qed

lemma do_commit_eq:
  assumes inv: "mp_inv N s" and pc: "mp_consumer s = CRead sz sz"
    and few: "int (length (mp_sent s)) < 2 ^ 63"
  shows "do_commit sz s = s\<lparr>mp_consumer := CIdle, mp_ep := (mp_ep s)
    \<lparr>ep_next_sequence := consumed_of s + int sz + 1,
     ep_sequence := (ep_sequence (mp_ep s))\<lparr>seq_value := consumed_of s + int sz\<rparr>\<rparr>\<rparr>"
proof -
  have k: "ep_next_sequence (mp_ep s) = consumed_of s + 1" "consumed_of s + int sz \<le> cursor_of s"
    "ep_avalaible_sequence (mp_ep s) = consumed_of s + int sz" "-1 \<le> consumed_of s"
    "cursor_of s \<le> int (length (mp_sent s)) - 1"
    using inv pc by (auto simp: mp_inv_def inv_consumer_def inv_counters_def)
  with few have "i64 (consumed_of s + 1 + int sz) = consumed_of s + 1 + int sz"
    "i64 (consumed_of s + int sz) = consumed_of s + int sz"
    by (simp_all add: fits64_def)
  with k show ?thesis
    by (simp add: do_commit_def commit_def finish_batch_def is_batch_def Let_def)
qed

lemma commit_inv:
  assumes inv: "mp_inv N s" and pc: "mp_consumer s = CRead sz sz"
    and few: "int (length (mp_sent s)) < 2 ^ 63"
  shows "mp_inv N (do_commit sz s)"
proof -
  have k: "0 < sz" "consumed_of s + int sz \<le> cursor_of s" "-1 \<le> consumed_of s"
    "ep_avalaible_sequence (mp_ep s) = consumed_of s + int sz"
    "mp_delivered s = take (nat (consumed_of s + 1) + sz) (mp_sent s)"
    using inv pc by (auto simp: mp_inv_def inv_consumer_def inv_counters_def)
  then have n: "nat (consumed_of s + int sz + 1) = nat (consumed_of s + 1) + sz" by simp
  have P: "inv_producers N s" using inv by (simp add: mp_inv_def)
  let ?t = "s\<lparr>mp_consumer := CIdle, mp_ep := (mp_ep s)
    \<lparr>ep_next_sequence := consumed_of s + int sz + 1,
     ep_sequence := (ep_sequence (mp_ep s))\<lparr>seq_value := consumed_of s + int sz\<rparr>\<rparr>\<rparr>"
  have "inv_producers N ?t"
    using inv_producersD(1,2,4) [OF P] inv_producers_cover [OF P] inv_producersD(3) [OF P] k(1)
    unfolding inv_producers_def by (auto, fastforce)
  with inv k n show ?thesis unfolding do_commit_eq [OF assms]
    by (auto simp: mp_inv_def inv_counters_def inv_ring_def inv_consumer_def is_batch_def)
qed

lemma mp_step_inv:
  assumes "mp_step s t" "mp_inv N s" "int (length (mp_sent t)) < 2 ^ 63"
  shows "mp_inv N t \<and> (\<exists>new. mp_sent t = mp_sent s @ new)"
  using assms
proof cases
  case (claim p v)
  then have "mp_sent t = mp_sent s @ [v]" by (simp add: do_claim_def Let_def split_beta)
  with claim assms show ?thesis by (auto intro: claim_inv)
next
  case (gate p i v)
  with assms show ?thesis by (auto intro: gate_inv)
next
  case (write_slot p i v)
  with assms show ?thesis using write_inv [of N s p i v] by (simp add: do_write_def)
next
  case (synced p i v)
  with assms show ?thesis by (auto intro: sync_inv)
next
  case (publish p i v)
  with assms show ?thesis using publish_inv [of N s p i v] by (simp add: do_publish_def)
next
  case begin_get
  have "mp_sent (do_begin s) = mp_sent s" by (auto simp: do_begin_def split: option.splits)
  with begin_get assms show ?thesis by (auto intro: begin_inv)
next
  case (read c sz)
  with assms show ?thesis using read_inv [of N s c sz] by (simp add: do_read_def)
next
  case (commit_get sz)
  with assms show ?thesis using commit_inv [of N s sz] by (simp add: do_commit_def)
qed

lemma mp_init_inv: "ring_size_ok (int N) \<Longrightarrow> int N < 2 ^ 63 \<Longrightarrow> mp_inv (int N) (mp_init d N)"
  by (auto simp: mp_inv_def inv_counters_def inv_producers_def inv_ring_def inv_consumer_def
      mp_init_def rb_ok_def MultiThreadedStrategy_new_def BatchEventProcessor_new_def is_batch_def
      ring_size_pos less_imp_le)

lemma mp_reachable_inv:
  assumes "mp_reachable d N s" "ring_size_ok (int N)" "int N < 2 ^ 63"
    and "int (length (mp_sent s)) < 2 ^ 63"
  shows "mp_inv (int N) s"
  using assms(1,4)
proof induction
  case start
  from mp_init_inv [OF assms(2,3)] show ?case .
next
  case (more s t)
  have "length (mp_sent s) \<le> length (mp_sent t)"
    using more.hyps(2) by cases
      (auto simp: do_claim_def Let_def split_beta do_write_def do_publish_def do_begin_def
        do_read_def do_commit_def split: option.splits)
  with more mp_step_inv [OF more.hyps(2)] show ?case by simp
qed

subsection \<open>Progress\<close>

abbreviation mp_steps :: "'a mpsc \<Rightarrow> 'a mpsc \<Rightarrow> bool" where
  "mp_steps \<equiv> rtranclp mp_step"

definition same_producers :: "'a mpsc \<Rightarrow> 'a mpsc \<Rightarrow> bool" where
  "same_producers s t \<longleftrightarrow> mp_producers t = mp_producers s \<and> mp_claim t = mp_claim s \<and>
     mp_cursor t = mp_cursor s \<and> mp_sent t = mp_sent s"

lemma consumer_reads_batch:
  assumes "mp_inv N s" "mp_consumer s = CRead c sz" "int (length (mp_sent s)) < 2 ^ 63"
  shows "\<exists>t. mp_steps s t \<and> mp_inv N t \<and> mp_consumer t = CRead sz sz \<and> same_producers s t \<and>
    mp_ep t = mp_ep s"
  using assms
proof (induction "sz - c" arbitrary: c s)
  case 0
  then have "c = sz" by (auto simp: mp_inv_def inv_consumer_def)
  with 0 show ?case by (auto simp: same_producers_def)
next
  case (Suc k)
  then have lt: "c < sz" by simp
  let ?s = "do_read c sz s"
  have st: "mp_step s ?s" using Suc.prems(2) lt by (rule mp_step.read)
  have f: "mp_consumer ?s = CRead (Suc c) sz" "same_producers s ?s" "mp_ep ?s = mp_ep s"
    "mp_sent ?s = mp_sent s"
    by (simp_all add: do_read_def same_producers_def)
  have k: "k = sz - Suc c" using Suc.hyps(2) by simp
  from Suc.hyps(1) [OF k read_inv [OF Suc.prems(1,2) lt Suc.prems(3)] f(1)] f(4) Suc.prems(3)
  obtain t where t: "mp_steps ?s t" "mp_inv N t" "mp_consumer t = CRead sz sz"
    "same_producers ?s t" "mp_ep t = mp_ep ?s" by auto
  with st f(2,3) show ?case
    by (intro exI [of _ t]) (auto simp: same_producers_def intro: converse_rtranclp_into_rtranclp)
qed

lemma consumer_finishes_call:
  assumes inv: "mp_inv N s" and few: "int (length (mp_sent s)) < 2 ^ 63"
    and pc: "mp_consumer s = CRead c sz"
  shows "\<exists>t. mp_steps s t \<and> mp_inv N t \<and> mp_consumer t = CIdle \<and> same_producers s t \<and>
    consumed_of t = ep_avalaible_sequence (mp_ep s)"
proof -
  from consumer_reads_batch [OF inv pc few] obtain t where t: "mp_steps s t" "mp_inv N t"
    "mp_consumer t = CRead sz sz" "same_producers s t" "mp_ep t = mp_ep s" by blast
  have ft: "int (length (mp_sent t)) < 2 ^ 63" using t(4) few by (simp add: same_producers_def)
  let ?u = "do_commit sz t"
  have "mp_step t ?u" using t(3) by (rule mp_step.commit_get)
  with t(1) have "mp_steps s ?u" by (rule rtranclp.rtrancl_into_rtrancl)
  moreover have "mp_inv N ?u" using commit_inv [OF t(2,3) ft] .
  moreover have "consumed_of ?u = ep_avalaible_sequence (mp_ep s)"
    using t(2,3,5) by (simp add: do_commit_eq [OF t(2,3) ft] mp_inv_def inv_consumer_def)
  moreover have "mp_consumer ?u = CIdle" "same_producers s ?u"
    using t(4) by (simp_all add: do_commit_def same_producers_def)
  ultimately show ?thesis by blast
qed

lemma consumer_finishes_idle:
  assumes inv: "mp_inv N s" and few: "int (length (mp_sent s)) < 2 ^ 63"
  shows "\<exists>t. mp_steps s t \<and> mp_inv N t \<and> mp_consumer t = CIdle \<and> same_producers s t"
proof (cases "mp_consumer s")
  case CIdle
  with inv show ?thesis by (auto simp: same_producers_def)
next
  case (CRead c sz)
  with consumer_finishes_call [OF inv few] show ?thesis by blast
qed

lemma consumer_catches_up:
  assumes inv: "mp_inv N s" and few: "int (length (mp_sent s)) < 2 ^ 63"
  shows "\<exists>t. mp_steps s t \<and> mp_inv N t \<and> mp_consumer t = CIdle \<and> same_producers s t \<and>
    consumed_of t = cursor_of t"
proof -
  from consumer_finishes_idle [OF assms] obtain t where t: "mp_steps s t" "mp_inv N t"
    "mp_consumer t = CIdle" "same_producers s t" by blast
  have ft: "int (length (mp_sent t)) < 2 ^ 63" using t(4) few by (simp add: same_producers_def)
  show ?thesis
  proof (cases "consumed_of t = cursor_of t")
    case True
    with t show ?thesis by blast
  next
    case False
    with t(2) have lt: "consumed_of t < cursor_of t"
      by (auto simp: mp_inv_def inv_counters_def)
    let ?u = "do_begin t"
    have st: "mp_step t ?u" using t(3) by (rule mp_step.begin_get)
    note eq = do_begin_eq [OF t(2,3) ft]
    have "mp_consumer ?u = CRead 0 (nat (cursor_of t - consumed_of t))" "same_producers t ?u"
      "ep_avalaible_sequence (mp_ep ?u) = cursor_of t"
      using lt by (simp_all add: eq same_producers_def)
    moreover from this(2) ft have "int (length (mp_sent ?u)) < 2 ^ 63" by (simp add: same_producers_def)
    moreover note begin_inv [OF t(2,3) ft]
    ultimately obtain v where v: "mp_steps ?u v" "mp_inv N v" "mp_consumer v = CIdle"
      "same_producers ?u v" "consumed_of v = cursor_of t"
      using consumer_finishes_call [of N ?u] by metis
    have "mp_steps s v"
      using t(1) st v(1) by (meson converse_rtranclp_into_rtranclp rtranclp_trans)
    with v t(4) \<open>same_producers t ?u\<close> show ?thesis
      by (intro exI [of _ v]) (simp add: same_producers_def)
  qed
qed

text \<open>The producer whose turn it is goes through the rest of its \<open>send\<close>.\<close>

lemma producer_publishes:
  assumes inv: "mp_inv N s" and few: "int (length (mp_sent s)) < 2 ^ 63"
    and caught: "consumed_of s = cursor_of s"
    and holds: "holds_seq (mp_producers s p) = Some (cursor_of s + 1, v)"
  shows "\<exists>t. mp_steps s t \<and> mp_inv N t \<and> mp_sent t = mp_sent s \<and> cursor_of t = cursor_of s + 1"
proof -
  let ?i = "cursor_of s + 1"
  have bounds: "-1 \<le> cursor_of s" "cursor_of s < 2 ^ 63 - 1" "mp_size s = N" "0 < N" "N < 2 ^ 63"
    using inv few inv_sizes [of N s] by (auto simp: mp_inv_def inv_counters_def)
  have pub: "\<exists>t. mp_steps s' t \<and> mp_inv N t \<and> mp_sent t = mp_sent s' \<and> cursor_of t = cursor_of s' + 1"
    if "mp_inv N s'" "mp_producers s' p = PPublish (cursor_of s' + 1) v"
      "cursor_of s' = cursor_of s" "mp_sent s' = mp_sent s" for s'
    using that mp_step.publish [OF that(2)] publish_inv [OF that(1,2)] few bounds
    by (intro exI [of _ "do_publish p s'"]) (auto simp: do_publish_def fits64_def)
  have syn: "\<exists>t. mp_steps s' t \<and> mp_inv N t \<and> mp_sent t = mp_sent s' \<and> cursor_of t = cursor_of s' + 1"
    if s': "mp_inv N s'" "mp_producers s' p = PSync ?i v" "cursor_of s' = cursor_of s"
      "mp_sent s' = mp_sent s" for s'
  proof -
    have op: "sync_open ?i s'"
      using bounds s'(3) by (simp add: sync_open_def mt_SynchronizePublishing_def fits64_def)
    let ?u = "mp_goto p (PPublish ?i v) s'"
    have "mp_step s' ?u" using s'(2) op by (rule mp_step.synced)
    moreover have "mp_inv N ?u" using sync_inv [OF s'(1,2) op] s'(4) few by simp
    ultimately show ?thesis using pub [of ?u] s'(3,4)
      by (auto intro: converse_rtranclp_into_rtranclp)
  qed
  have wri: "\<exists>t. mp_steps s' t \<and> mp_inv N t \<and> mp_sent t = mp_sent s' \<and> cursor_of t = cursor_of s' + 1"
    if s': "mp_inv N s'" "mp_producers s' p = PWrite ?i v" "cursor_of s' = cursor_of s"
      "mp_sent s' = mp_sent s" for s'
    using mp_step.write_slot [OF s'(2)] write_inv [OF s'(1,2)] syn [of "do_write p ?i v s'"] s'(3,4)
    by (auto simp: do_write_def intro: converse_rtranclp_into_rtranclp)
  consider "mp_producers s p = PGate ?i v" | "mp_producers s p = PWrite ?i v"
    | "mp_producers s p = PSync ?i v" | "mp_producers s p = PPublish ?i v"
    using holds by (cases "mp_producers s p") auto
  then show ?thesis
  proof cases
    case 1
    have "i64 (?i - N) \<le> consumed_of s" using bounds caught by (simp add: fits64_def)
    moreover have "consumed_of s \<le> LONG_MAX" using bounds caught by (simp add: LONG_MAX_def)
    ultimately have op: "gate_open ?i s"
      using bounds by (simp add: gate_open_def GetMinimumSequence_single)
    have "mp_step s (mp_goto p (PWrite ?i v) s)" using 1 op by (rule mp_step.gate)
    with wri [OF gate_inv [OF inv 1 op few]] show ?thesis
      by (auto intro: converse_rtranclp_into_rtranclp)
  qed (use inv wri [of s] syn [of s] pub [of s] in auto)
qed

lemma all_published:
  assumes "mp_inv N s" "int (length (mp_sent s)) < 2 ^ 63"
  shows "\<exists>t. mp_steps s t \<and> mp_inv N t \<and> mp_sent t = mp_sent s \<and> cursor_of t = claimed_of t"
  using assms
proof (induction "nat (claimed_of s - cursor_of s)" arbitrary: s rule: less_induct)
  case less
  show ?case
  proof (cases "cursor_of s = claimed_of s")
    case True
    with less.prems show ?thesis by blast
  next
    case False
    from consumer_catches_up [OF less.prems] obtain t where t: "mp_steps s t" "mp_inv N t"
      "same_producers s t" "consumed_of t = cursor_of t" by blast
    then have eq: "cursor_of t = cursor_of s" "claimed_of t = claimed_of s" "mp_sent t = mp_sent s"
      by (simp_all add: same_producers_def)
    with False t(2) have lt: "cursor_of t < claimed_of t" by (auto simp: mp_inv_def inv_counters_def)
    with t(2) obtain p v where "holds_seq (mp_producers t p) = Some (cursor_of t + 1, v)"
      using inv_producers_cover [of N t "cursor_of t + 1"] by (auto simp: mp_inv_def)
    from producer_publishes [OF t(2) _ t(4) this] eq less.prems(2)
    obtain u where u: "mp_steps t u" "mp_inv N u" "mp_sent u = mp_sent s" "cursor_of u = cursor_of s + 1"
      by auto
    have cl: "claimed_of u = claimed_of s"
      using u(2,3) less.prems(1) by (simp add: mp_inv_def inv_counters_def)
    have "nat (claimed_of u - cursor_of u) < nat (claimed_of s - cursor_of s)"
      using lt eq u(4) cl by simp
    from less.hyps [OF this u(2)] u(3) less.prems(2) obtain w where
      "mp_steps u w" "mp_inv N w" "mp_sent w = mp_sent s" "cursor_of w = claimed_of w" by auto
    with t(1) u(1) show ?thesis by (meson rtranclp_trans)
  qed
qed

subsection \<open>A concrete run\<close>

text \<open>Two producers on a ring of two slots: the second one writes first, the first one
  publishes, the consumer starts and reads.\<close>

definition run_claimed :: "int mpsc" where
  "run_claimed = do_claim 1 6 (do_claim 0 5 (mp_init 0 2))"

definition run_written :: "int mpsc" where
  "run_written = do_write 0 0 5 (do_write 1 1 6 run_claimed)"

definition run_published :: "int mpsc" where
  "run_published = do_publish 0 (mp_goto 0 (PPublish 0 5) run_written)"

definition run_reading :: "int mpsc" where
  "run_reading = do_read 0 1 (do_begin run_published)"

lemma run_facts:
  "mp_producers (mp_init 0 2 :: int mpsc) 0 = PIdle"
  "mp_producers (do_claim 0 5 (mp_init 0 2) :: int mpsc) 1 = PIdle"
  "mp_producers run_claimed 1 = PWrite 1 6" "mp_producers run_claimed 0 = PWrite 0 5"
  "mp_producers (do_write 1 1 6 run_claimed) 0 = PWrite 0 5"
  "mp_producers run_written 0 = PSync 0 5" "sync_open 0 run_written"
  "mp_producers (mp_goto 0 (PPublish 0 5) run_written) 0 = PPublish 0 5"
  "mp_consumer run_published = CIdle" "mp_consumer (do_begin run_published) = CRead 0 1"
  "mp_sent run_reading = [5, 6]" "mp_delivered run_reading = [5]" "mp_sent run_claimed = [5, 6]"
  "ring_size_ok 2"
  by code_simp+

lemma run_claimed_reachable: "mp_reachable 0 2 run_claimed"
  unfolding run_claimed_def
  by (intro mp_reachable.more [OF _ mp_step.claim] mp_reachable.start run_facts)

lemma run_reading_reachable: "mp_reachable 0 2 run_reading"
proof -
  have "mp_reachable 0 2 run_written"
    unfolding run_written_def
    by (intro mp_reachable.more [OF _ mp_step.write_slot] run_claimed_reachable run_facts)
  then have "mp_reachable 0 2 run_published"
    unfolding run_published_def
    using run_facts(6-8) by (blast intro: mp_reachable.more mp_step.publish mp_step.synced)
  then show ?thesis
    unfolding run_reading_def
    by (intro mp_reachable.more [OF _ mp_step.read] mp_reachable.more [OF _ mp_step.begin_get])
      (rule run_facts | simp)+
qed

subsection \<open>Properties\<close>

text \<open>C37: whatever the interleaving of any number of \<open>send\<close>s with \<open>get_all\<close>, what the
  consumer's function has been called with is a prefix of what was sent, in the order in which
  the producers claimed their sequences: no message is lost, doubled, torn or reordered.\<close>

theorem mpsc_fifo:
  assumes "mp_reachable d N s" "ring_size_ok (int N)" "int N < 2 ^ 63"
    and "int (length (mp_sent s)) < 2 ^ 63"
  shows "mp_delivered s = take (length (mp_delivered s)) (mp_sent s)"
  using mp_reachable_inv [OF assms]
  by (auto simp: mp_inv_def inv_consumer_def min_def split: consumer_pc.splits)

theorem mpsc_fifo_witness:
  "mp_delivered run_reading = take (length (mp_delivered run_reading)) (mp_sent run_reading) \<and>
   length (mp_delivered run_reading) = 1"
  using mpsc_fifo [OF run_reading_reachable] by (simp add: run_facts)

text \<open>C38: a producer about to write a slot writes one whose previous event the consumer has
  taken, and no other producer past its claim holds the same slot, so concurrent \<open>send\<close>s never
  overwrite an unread message or each other.\<close>

theorem mpsc_no_overwrite:
  assumes "mp_reachable d N s" "ring_size_ok (int N)" "int N < 2 ^ 63"
    and "int (length (mp_sent s)) < 2 ^ 63" and pc: "mp_producers s p = PWrite i v"
  shows "i - int N \<le> consumed_of s \<and>
    (\<forall>q j. q \<noteq> p \<longrightarrow> past_gate (mp_producers s q) = Some j \<longrightarrow>
       RingBuffer_index (int N) j \<noteq> RingBuffer_index (int N) i)"
proof -
  have inv: "inv_counters (int N) s" "inv_producers (int N) s"
    using mp_reachable_inv [OF assms(1-4)] by (auto simp: mp_inv_def)
  have i: "consumed_of s < i" "i \<le> consumed_of s + int N"
    using inv_producersD(1,3) [OF inv(2), of p i] pc inv(1) by (auto simp: inv_counters_def)
  have "RingBuffer_index (int N) j \<noteq> RingBuffer_index (int N) i"
    if q: "q \<noteq> p" "past_gate (mp_producers s q) = Some j" for q j
  proof -
    obtain w where w: "holds_seq (mp_producers s q) = Some (j, w)" using past_gate_holds [OF q(2)] ..
    have "j \<noteq> i" using inv_producersD(2) [OF inv(2), of q i w p v] w pc q(1) by auto
    moreover have "consumed_of s < j" "j \<le> consumed_of s + int N"
      using inv_producersD(1) [OF inv(2) w] inv_producersD(3) [OF inv(2) q(2)] inv(1)
      by (auto simp: inv_counters_def)
    ultimately show ?thesis
      using mod_window_inj [of j "int N" i "consumed_of s"] i assms(2)
      by (auto simp: RingBuffer_index_eq nat_eq_iff2 ring_size_pos)
  qed
  with i show ?thesis by auto
qed

theorem mpsc_no_overwrite_witness:
  "1 - int 2 \<le> consumed_of run_claimed \<and>
   past_gate (mp_producers run_claimed 0) = Some 0 \<and>
   RingBuffer_index (int 2) 0 \<noteq> RingBuffer_index (int 2) 1"
proof -
  have p: "past_gate (mp_producers run_claimed 0) = Some 0" by (simp add: run_facts)
  have h: "ring_size_ok (int 2)" "int 2 < 2 ^ 63" "int (length (mp_sent run_claimed)) < 2 ^ 63"
    by (simp_all add: run_facts)
  from mpsc_no_overwrite [OF run_claimed_reachable h run_facts(3)] p show ?thesis by fastforce
qed

text \<open>C39: from every reachable state the system can go on, with no further message sent, until
  every message sent has been delivered: no interleaving of the spinning loops of \<open>send\<close>
  leads to a state in which a message is stuck.\<close>

theorem mpsc_drains:
  assumes "mp_reachable d N s" "ring_size_ok (int N)" "int N < 2 ^ 63"
    and "int (length (mp_sent s)) < 2 ^ 63"
  shows "\<exists>t. mp_steps s t \<and> mp_sent t = mp_sent s \<and> mp_delivered t = mp_sent s"
proof -
  from all_published [OF mp_reachable_inv [OF assms] assms(4)] obtain t where
    t: "mp_steps s t" "mp_inv (int N) t" "mp_sent t = mp_sent s" "cursor_of t = claimed_of t" by blast
  with assms(4) obtain u where u: "mp_steps t u" "mp_inv (int N) u" "mp_consumer u = CIdle"
    "same_producers t u" "consumed_of u = cursor_of u"
    using consumer_catches_up [OF t(2)] by metis
  then have "mp_sent u = mp_sent s" "consumed_of u = int (length (mp_sent s)) - 1"
    using t by (auto simp: same_producers_def mp_inv_def inv_counters_def)
  moreover from u have "mp_delivered u = take (nat (consumed_of u + 1)) (mp_sent u)"
    by (simp add: mp_inv_def inv_consumer_def)
  ultimately show ?thesis using t(1) u(1) by (intro exI [of _ u]) auto
qed

theorem mpsc_drains_witness:
  "\<exists>t. mp_steps run_claimed t \<and> mp_sent t = [5, 6] \<and> mp_delivered t = [5, 6]"
  using mpsc_drains [OF run_claimed_reachable] by (simp add: run_facts)

end
