(* ===== verification/Reactor_Ring.thy ===== *)
theory Reactor_Ring
  imports Fifo_Spec
begin

text \<open>
  \<open>reactor/ring_buffer.hpp\<close>: the ring through which the poller hands completed messages to
  the reactor's event loop. A violated \<open>BOOST_ASSERT\<close> is \<open>None\<close>. The class is renamed
  \<open>ReactorRing\<close> (the disruptor has a \<open>RingBuffer\<close> of its own).
\<close>

record 'a ReactorRing =
  rr_buffer :: "'a list"
  rr_tail :: int
  rr_head :: int

text \<open>The vector is value-initialised: \<open>d\<close> is the default value of the element type.\<close>

definition ReactorRing_new :: "'a \<Rightarrow> nat \<Rightarrow> 'a ReactorRing" where
  "ReactorRing_new d n = \<lparr>rr_buffer = replicate n d, rr_tail = 0, rr_head = 0\<rparr>"

definition rr_ring_size :: "'a ReactorRing \<Rightarrow> int" where
  "rr_ring_size q = int (length (rr_buffer q))"

definition rr_available :: "'a ReactorRing \<Rightarrow> int" where
  "rr_available q = u64 (i64 (rr_head q - rr_tail q))"

definition rr_capacity :: "'a ReactorRing \<Rightarrow> int" where
  "rr_capacity q = u64 (rr_ring_size q - rr_available q)"

definition rr_idx :: "'a ReactorRing \<Rightarrow> int \<Rightarrow> nat" where
  "rr_idx q i = nat (u64 i AND u64 (rr_ring_size q - 1))"

definition rr_pop_back :: "'a ReactorRing \<Rightarrow> ('a \<times> 'a ReactorRing) option" where
  "rr_pop_back q =
     (if rr_head q > rr_tail q
      then Some (rr_buffer q ! rr_idx q (rr_tail q), q\<lparr>rr_tail := i64 (rr_tail q + 1)\<rparr>)
      else None)"

definition rr_push_front :: "'a ReactorRing \<Rightarrow> 'a \<Rightarrow> 'a ReactorRing option" where
  "rr_push_front q value =
     (if rr_available q < rr_ring_size q
      then Some (q\<lparr>rr_buffer := (rr_buffer q)[rr_idx q (rr_head q) := value],
                   rr_head := i64 (rr_head q + 1)\<rparr>)
      else None)"

subsection \<open>Invariant and abstraction\<close>

definition rr_inv :: "'a ReactorRing \<Rightarrow> bool" where
  "rr_inv q \<longleftrightarrow> pow2 (rr_ring_size q) \<and> rr_ring_size q < 2 ^ 63 \<and>
     0 \<le> rr_tail q \<and> rr_tail q \<le> rr_head q \<and> rr_head q \<le> rr_tail q + rr_ring_size q \<and>
     rr_head q < 2 ^ 63"

definition rr_contents :: "'a ReactorRing \<Rightarrow> 'a list" where
  "rr_contents q = map (\<lambda>i. rr_buffer q ! nat (i mod rr_ring_size q)) [rr_tail q..rr_head q - 1]"

definition rr_life :: "'a ReactorRing \<Rightarrow> nat" where
  "rr_life q = nat (2 ^ 63 - 1 - rr_head q)"

lemma rr_idx_eq:
  assumes "rr_inv q" "0 \<le> i" "i < 2 ^ 63"
  shows "rr_idx q i = nat (i mod rr_ring_size q)"
proof -
  have "0 < rr_ring_size q" using assms(1) by (simp add: rr_inv_def pow2_pos)
  then have "u64 (rr_ring_size q - 1) = rr_ring_size q - 1" "u64 i = i"
    using assms by (simp_all add: rr_inv_def)
  with assms(1) show ?thesis by (simp add: rr_idx_def rr_inv_def and_mask_pow2)
qed

lemma rr_available_eq: "rr_inv q \<Longrightarrow> rr_available q = rr_head q - rr_tail q"
  by (simp add: rr_inv_def rr_available_def fits64_def)

lemma rr_length_contents: "length (rr_contents q) = nat (rr_head q - rr_tail q)"
  by (simp add: rr_contents_def)

lemma rr_slot_neq:
  assumes "rr_inv q" "rr_tail q \<le> i" "i < rr_head q" "rr_head q - rr_tail q < rr_ring_size q"
  shows "nat (i mod rr_ring_size q) \<noteq> nat (rr_head q mod rr_ring_size q)"
proof
  have pos: "0 < rr_ring_size q" using assms(1) by (simp add: rr_inv_def pow2_pos)
  assume "nat (i mod rr_ring_size q) = nat (rr_head q mod rr_ring_size q)"
  with pos have "i mod rr_ring_size q = rr_head q mod rr_ring_size q" by (simp add: nat_eq_iff)
  then have "i = rr_head q"
    by (rule mod_window_inj [where lo = "rr_tail q - 1"]) (use assms in linarith)+
  with assms(3) show False by simp
qed

lemma rr_push_spec:
  assumes "rr_inv q" "0 < rr_life q" "rr_push_front q x = Some q'"
  shows "rr_inv q' \<and> rr_contents q' = rr_contents q @ [x] \<and>
    length (rr_buffer q') = length (rr_buffer q) \<and> rr_life q \<le> Suc (rr_life q')"
proof -
  let ?n = "rr_ring_size q" and ?h = "rr_head q" and ?t = "rr_tail q"
  have pos: "0 < ?n" using assms(1) by (simp add: rr_inv_def pow2_pos)
  have room: "?h - ?t < ?n" using assms(1,3)
    by (auto simp: rr_push_front_def rr_available_eq split: if_splits)
  have h: "0 \<le> ?h" "?h < 2 ^ 63 - 1" using assms(1,2) by (auto simp: rr_inv_def rr_life_def)
  then have q': "q' = q\<lparr>rr_buffer := (rr_buffer q)[nat (?h mod ?n) := x], rr_head := ?h + 1\<rparr>"
    using assms(1,3) by (auto simp: rr_push_front_def rr_idx_eq fits64_def split: if_splits)
  have n': "rr_ring_size q' = ?n" by (simp add: q' rr_ring_size_def)
  have inv: "rr_inv q'"
    using assms(1) room h n' by (simp add: rr_inv_def) (simp add: q')
  have lt: "nat (?h mod ?n) < length (rr_buffer q)"
    using pos by (simp add: rr_ring_size_def nat_less_iff)
  have "[?t..?h] = [?t..?h - 1] @ [?h]" using assms(1) by (simp add: rr_inv_def upto_rec2)
  then have "rr_contents q' = map (\<lambda>i. rr_buffer q' ! nat (i mod ?n)) [?t..?h - 1] @ [x]"
    using lt unfolding rr_contents_def n' by (simp add: q')
  moreover have "map (\<lambda>i. rr_buffer q' ! nat (i mod ?n)) [?t..?h - 1] = rr_contents q"
    unfolding rr_contents_def using not_sym [OF rr_slot_neq [OF assms(1) _ _ room]] by (auto simp: q')
  ultimately show ?thesis using inv by (simp add: q' rr_life_def)
qed

lemma rr_pop_spec:
  assumes "rr_inv q" "rr_pop_back q = Some (x, q')"
  shows "rr_inv q' \<and> rr_contents q = x # rr_contents q' \<and>
    length (rr_buffer q') = length (rr_buffer q) \<and> rr_life q \<le> rr_life q'"
proof -
  let ?t = "rr_tail q"
  have lt: "?t < rr_head q" using assms(2) by (auto simp: rr_pop_back_def split: if_splits)
  with assms have q': "q' = q\<lparr>rr_tail := ?t + 1\<rparr>" "x = rr_buffer q ! nat (?t mod rr_ring_size q)"
    by (auto simp: rr_pop_back_def rr_idx_eq rr_inv_def fits64_def)
  moreover have "[?t..rr_head q - 1] = ?t # [?t + 1..rr_head q - 1]"
    using lt by (simp add: upto_rec1)
  ultimately show ?thesis using assms(1) lt
    by (simp add: rr_inv_def rr_contents_def rr_ring_size_def rr_life_def)
qed

interpretation rr: bounded_fifo rr_push_front rr_pop_back rr_contents rr_inv
    "\<lambda>q. length (rr_buffer q)" rr_life
proof
  fix q :: "'a ReactorRing" and x q'
  assume inv: "rr_inv q"
  show "0 < rr_life q \<Longrightarrow> rr_push_front q x = Some q' \<Longrightarrow> rr_inv q' \<and>
      rr_contents q' = rr_contents q @ [x] \<and> length (rr_buffer q') = length (rr_buffer q) \<and>
      rr_life q \<le> Suc (rr_life q')"
    using rr_push_spec [OF inv] by blast
  show "rr_pop_back q = Some (x, q') \<Longrightarrow> rr_inv q' \<and> rr_contents q = x # rr_contents q' \<and>
      length (rr_buffer q') = length (rr_buffer q) \<and> rr_life q \<le> rr_life q'"
    using rr_pop_spec [OF inv] by blast
  show "rr_pop_back q = None \<longleftrightarrow> rr_contents q = []"
    by (simp add: rr_pop_back_def rr_contents_def)
  show "length (rr_contents q) \<le> length (rr_buffer q)"
    using inv by (simp add: rr_length_contents rr_inv_def rr_ring_size_def nat_le_iff)
  show "rr_push_front q x = None \<longleftrightarrow> length (rr_contents q) = length (rr_buffer q)"
    using inv rr_available_eq [OF inv]
    by (auto simp: rr_push_front_def rr_length_contents rr_inv_def rr_ring_size_def)
qed

lemma rr_inv_new: "pow2 (int n) \<Longrightarrow> int n < 2 ^ 63 \<Longrightarrow> rr_inv (ReactorRing_new d n)"
  by (simp add: rr_inv_def ReactorRing_new_def rr_ring_size_def)

text \<open>The reactor's ring delivers what was pushed, in order and once, whatever the mix of
  pushes and pops, and never holds more than its size.\<close>

theorem ReactorRing_fifo:
  assumes "pow2 (int n)" "int n < 2 ^ 63" "int (length ops) < 2 ^ 63"
    and "queue_run rr_push_front rr_pop_back (ReactorRing_new d n) ops = (ins, outs, r)"
  shows "outs = take (length outs) ins \<and> length ins \<le> length outs + n"
proof -
  have inv: "rr_inv (ReactorRing_new d n)" using assms(1,2) by (rule rr_inv_new)
  have "length ops \<le> rr_life (ReactorRing_new d n)"
    using assms(3) by (simp add: rr_life_def ReactorRing_new_def)
  from rr.run_delivers_prefix [OF inv this assms(4)] rr.run_backlog [OF inv this assms(4)]
  show ?thesis by (simp add: rr_contents_def ReactorRing_new_def)
qed

theorem ReactorRing_fifo_witness:
  "[10, 20] = take 2 [10, 20, (30::int)] \<and> length [10, 20, (30::int)] \<le> length [10, (20::int)] + 2"
proof -
  have run: "queue_run rr_push_front rr_pop_back (ReactorRing_new 0 2)
      [Push 10, Push 20, Push 99, Pop, Push 30, Pop]
    = ([10, 20, 30], [10, 20::int], \<lparr>rr_buffer = [30, 20], rr_tail = 2, rr_head = 3\<rparr>)"
    by (simp add: ReactorRing_new_def rr_push_front_def rr_pop_back_def rr_available_def
        rr_ring_size_def rr_idx_def u64_def i64_def eval_nat_numeral)
  have "pow2 (int 2)" unfolding pow2_def by (rule exI [of _ 1]) simp
  from ReactorRing_fifo [OF this _ _ run] show ?thesis by simp
qed

end
