(* ===== verification/Fiber_Runtime.thy ===== *)
theory Fiber_Runtime
  imports Dumbo_Prelude "HOL-Library.Monad_Syntax"
begin

text \<open>
  The fiber runtime of one thread: \<open>fiber/context.hpp\<close>, \<open>fiber/scheduler.hpp\<close>,
  \<open>fiber/fiber.hpp\<close> with their sources, and the default algorithm \<open>round_robin\<close>. A context
  is a number, a pointer to it dereferences only while the context is allocated, and an intrusive
  queue is the list of the contexts linked in it. Every operation is an option: \<open>None\<close> is a
  failed \<open>BOOST_ASSERT\<close>, a null pointer or a destroyed context dereferenced. A switch of
  contexts ends the code of the caller: what it does once resumed is an operation of its own.
\<close>

subsection \<open>Data\<close>

type_synonym ctx = nat
type_synonym time_point = int

definition TP_MAX :: time_point where "TP_MAX = 2 ^ 63 - 1"

datatype launch = launch_dispatch | launch_post

datatype context_type = main_context | dispatcher_context | worker_context

fun is_pinned :: "context_type \<Rightarrow> bool" where
  "is_pinned worker_context = False"
| "is_pinned _ = True"

text \<open>The wait-queues: that of a context, for those who join it, and those of the mutexes,
  condition variables and channels.\<close>

datatype wait_queue = Joiners ctx | Waiters nat

text \<open>\<open>cx_wait_hook\<close> is the queue the wait hook is linked in; the other hooks each have one
  queue only, and are linked when the context is in it.\<close>

record fiber_context =
  cx_use_count :: nat
  cx_terminated :: bool
  cx_type :: context_type
  cx_scheduler :: bool
  cx_policy :: launch
  cx_tp :: time_point
  cx_wait_hook :: "wait_queue option"

record round_robin =
  rq_rqueue :: "ctx list"
  rq_flag :: bool

record runtime =
  rt_active :: ctx
  rt_main :: ctx
  rt_dispatcher :: ctx
  rt_context :: "ctx \<Rightarrow> fiber_context option"
  rt_contexts :: nat
  rt_algo :: round_robin
  rt_worker :: "ctx list"
  rt_terminated :: "ctx list"
  rt_sleep :: "ctx list"
  rt_wait :: "wait_queue \<Rightarrow> ctx list"
  rt_splk :: "nat list"
  rt_shutdown :: bool

definition ensure :: "bool \<Rightarrow> unit option" where
  "ensure b = (if b then Some () else None)"

definition set_context :: "ctx \<Rightarrow> fiber_context \<Rightarrow> runtime \<Rightarrow> runtime" where
  "set_context c x rt = rt\<lparr>rt_context := (rt_context rt)(c := Some x)\<rparr>"

definition is_terminated :: "runtime \<Rightarrow> ctx \<Rightarrow> bool" where
  "is_terminated rt c = (case rt_context rt c of Some x \<Rightarrow> cx_terminated x | None \<Rightarrow> True)"

definition ready_is_linked :: "runtime \<Rightarrow> ctx \<Rightarrow> bool" where
  "ready_is_linked rt c = (c \<in> set (rq_rqueue (rt_algo rt)))"

definition sleep_is_linked :: "runtime \<Rightarrow> ctx \<Rightarrow> bool" where
  "sleep_is_linked rt c = (c \<in> set (rt_sleep rt))"

definition terminated_is_linked :: "runtime \<Rightarrow> ctx \<Rightarrow> bool" where
  "terminated_is_linked rt c = (c \<in> set (rt_terminated rt))"

definition worker_is_linked :: "runtime \<Rightarrow> ctx \<Rightarrow> bool" where
  "worker_is_linked rt c = (c \<in> set (rt_worker rt))"

definition wait_is_linked :: "runtime \<Rightarrow> ctx \<Rightarrow> bool" where
  "wait_is_linked rt c = (case rt_context rt c of Some x \<Rightarrow> cx_wait_hook x \<noteq> None | None \<Rightarrow> False)"

text \<open>The hooks unlink themselves and do nothing when they are not linked.\<close>

definition ready_unlink :: "ctx \<Rightarrow> runtime \<Rightarrow> runtime" where
  "ready_unlink c rt =
     rt\<lparr>rt_algo := (rt_algo rt)\<lparr>rq_rqueue := remove1 c (rq_rqueue (rt_algo rt))\<rparr>\<rparr>"

definition sleep_unlink :: "ctx \<Rightarrow> runtime \<Rightarrow> runtime" where
  "sleep_unlink c rt = rt\<lparr>rt_sleep := remove1 c (rt_sleep rt)\<rparr>"

definition worker_unlink :: "ctx \<Rightarrow> runtime \<Rightarrow> runtime" where
  "worker_unlink c rt = rt\<lparr>rt_worker := remove1 c (rt_worker rt)\<rparr>"

definition wait_link :: "ctx \<Rightarrow> wait_queue \<Rightarrow> runtime \<Rightarrow> runtime option" where
  "wait_link c q rt = do {
     x \<leftarrow> rt_context rt c;
     ensure (cx_wait_hook x = None);
     Some ((set_context c (x\<lparr>cx_wait_hook := Some q\<rparr>) rt)\<lparr>rt_wait := (rt_wait rt)(q := rt_wait rt q @ [c])\<rparr>)
   }"

definition wait_unlink :: "ctx \<Rightarrow> runtime \<Rightarrow> runtime option" where
  "wait_unlink c rt = do {
     x \<leftarrow> rt_context rt c;
     Some (case cx_wait_hook x of
         None \<Rightarrow> rt
       | Some q \<Rightarrow> (set_context c (x\<lparr>cx_wait_hook := None\<rparr>) rt)
                     \<lparr>rt_wait := (rt_wait rt)(q := remove1 c (rt_wait rt q))\<rparr>)
   }"

text \<open>\<open>front\<close> and \<open>pop_front\<close> of a wait-queue.\<close>

definition wait_pop_front :: "wait_queue \<Rightarrow> runtime \<Rightarrow> (ctx \<times> runtime) option" where
  "wait_pop_front q rt =
     (case rt_wait rt q of
        [] \<Rightarrow> None
      | c # cs \<Rightarrow> do { rt' \<leftarrow> wait_unlink c rt; Some (c, rt') })"

text \<open>The sleep-queue is a multiset ordered by \<open>tp_\<close>; an element goes behind its equals.\<close>

fun sleep_insert :: "(ctx \<Rightarrow> time_point) \<Rightarrow> ctx \<Rightarrow> ctx list \<Rightarrow> ctx list" where
  "sleep_insert tp c [] = [c]"
| "sleep_insert tp c (d # ds) = (if tp c < tp d then c # d # ds else d # sleep_insert tp c ds)"

definition tp_of :: "runtime \<Rightarrow> ctx \<Rightarrow> time_point" where
  "tp_of rt c = (case rt_context rt c of Some x \<Rightarrow> cx_tp x | None \<Rightarrow> TP_MAX)"

definition sleep_link :: "ctx \<Rightarrow> time_point \<Rightarrow> runtime \<Rightarrow> runtime option" where
  "sleep_link c tp rt = do {
     x \<leftarrow> rt_context rt c;
     let rt = set_context c (x\<lparr>cx_tp := tp\<rparr>) rt;
     Some (rt\<lparr>rt_sleep := sleep_insert (tp_of rt) c (rt_sleep rt)\<rparr>)
   }"

subsection \<open>round_robin\<close>

definition round_robin_new :: round_robin where
  "round_robin_new = \<lparr>rq_rqueue = [], rq_flag = False\<rparr>"

definition awakened :: "ctx \<Rightarrow> round_robin \<Rightarrow> round_robin option" where
  "awakened c a = do {
     ensure (c \<notin> set (rq_rqueue a));
     Some (a\<lparr>rq_rqueue := rq_rqueue a @ [c]\<rparr>)
   }"

definition pick_next :: "round_robin \<Rightarrow> ctx option \<times> round_robin" where
  "pick_next a =
     (case rq_rqueue a of
        [] \<Rightarrow> (None, a)
      | victim # rest \<Rightarrow> (Some victim, a\<lparr>rq_rqueue := rest\<rparr>))"

definition algo_has_ready_fibers :: "round_robin \<Rightarrow> bool" where
  "algo_has_ready_fibers a = (rq_rqueue a \<noteq> [])"

definition notify :: "round_robin \<Rightarrow> round_robin" where
  "notify a = a\<lparr>rq_flag := True\<rparr>"

text \<open>One look at the condition variable: \<open>None\<close> while the thread goes on sleeping.\<close>

definition suspend_until :: "time_point \<Rightarrow> time_point \<Rightarrow> round_robin \<Rightarrow> round_robin option" where
  "suspend_until tp now a =
     (if rq_flag a \<or> (tp \<noteq> TP_MAX \<and> tp \<le> now) then Some (a\<lparr>rq_flag := False\<rparr>) else None)"

subsection \<open>Making a context ready, switching to the next one\<close>

definition algo_awakened :: "ctx \<Rightarrow> runtime \<Rightarrow> runtime option" where
  "algo_awakened c rt = do { a \<leftarrow> awakened c (rt_algo rt); Some (rt\<lparr>rt_algo := a\<rparr>) }"

definition sched_set_ready :: "ctx \<Rightarrow> runtime \<Rightarrow> runtime option" where
  "sched_set_ready c rt = do {
     ensure (\<not> is_terminated rt c);
     let rt = (if sleep_is_linked rt c then sleep_unlink c rt else rt);
     algo_awakened c (ready_unlink c rt)
   }"

definition has_scheduler :: "runtime \<Rightarrow> ctx \<Rightarrow> bool" where
  "has_scheduler rt c = (case rt_context rt c of Some x \<Rightarrow> cx_scheduler x | None \<Rightarrow> False)"

text \<open>\<open>this\<close> is the context that makes the other one ready.\<close>

definition set_ready :: "ctx \<Rightarrow> ctx \<Rightarrow> runtime \<Rightarrow> runtime option" where
  "set_ready this c rt = do {
     ensure (this \<noteq> c);
     ensure (has_scheduler rt this);
     ensure (has_scheduler rt c);
     sched_set_ready c rt
   }"

text \<open>What the resumed context finds in the \<open>data_t\<close> of the one that resumed it: a spinlock to
  unlock or else a context to make ready.\<close>

record data_t =
  d_lk :: "nat option"
  d_ctx :: "ctx option"
  d_from :: ctx

definition splk_unlock :: "nat \<Rightarrow> runtime \<Rightarrow> runtime" where
  "splk_unlock l rt = rt\<lparr>rt_splk := remove1 l (rt_splk rt)\<rparr>"

definition splk_lock :: "nat \<Rightarrow> runtime \<Rightarrow> runtime option" where
  "splk_lock l rt = do { ensure (l \<notin> set (rt_splk rt)); Some (rt\<lparr>rt_splk := l # rt_splk rt\<rparr>) }"

definition resume_tail :: "data_t \<Rightarrow> runtime \<Rightarrow> runtime option" where
  "resume_tail d rt =
     (case d_lk d of
        Some l \<Rightarrow> Some (splk_unlock l rt)
      | None \<Rightarrow> (case d_ctx d of Some c \<Rightarrow> sched_set_ready c rt | None \<Rightarrow> Some rt))"

definition resume_with :: "data_t \<Rightarrow> ctx \<Rightarrow> runtime \<Rightarrow> runtime option" where
  "resume_with d c rt = do {
     x \<leftarrow> rt_context rt c;
     resume_tail d (rt\<lparr>rt_active := c\<rparr>)
   }"

definition resume :: "ctx \<Rightarrow> runtime \<Rightarrow> runtime option" where
  "resume c rt = resume_with \<lparr>d_lk = None, d_ctx = None, d_from = rt_active rt\<rparr> c rt"

definition resume_lk :: "ctx \<Rightarrow> nat \<Rightarrow> runtime \<Rightarrow> runtime option" where
  "resume_lk c lk rt = resume_with \<lparr>d_lk = Some lk, d_ctx = None, d_from = rt_active rt\<rparr> c rt"

definition resume_ready :: "ctx \<Rightarrow> ctx \<Rightarrow> runtime \<Rightarrow> runtime option" where
  "resume_ready c ready_ctx rt =
     resume_with \<lparr>d_lk = None, d_ctx = Some ready_ctx, d_from = rt_active rt\<rparr> c rt"

definition suspend_with_cc :: "ctx \<Rightarrow> runtime \<Rightarrow> runtime option" where
  "suspend_with_cc c rt = resume_with \<lparr>d_lk = None, d_ctx = None, d_from = rt_active rt\<rparr> c rt"

definition get_next :: "runtime \<Rightarrow> ctx option \<times> runtime" where
  "get_next rt = (let (c, a) = pick_next (rt_algo rt) in (c, rt\<lparr>rt_algo := a\<rparr>))"

subsection \<open>yield, suspend, wait_until\<close>

definition sched_yield :: "ctx \<Rightarrow> runtime \<Rightarrow> runtime option" where
  "sched_yield active_ctx rt = do {
     ensure (\<not> is_terminated rt active_ctx);
     ensure (\<not> ready_is_linked rt active_ctx);
     ensure (\<not> sleep_is_linked rt active_ctx);
     let (n, rt) = get_next rt;
     n \<leftarrow> n;
     resume_ready n active_ctx rt
   }"

definition yield :: "runtime \<Rightarrow> runtime option" where
  "yield rt = sched_yield (rt_active rt) rt"

definition suspend :: "runtime \<Rightarrow> runtime option" where
  "suspend rt = (let (n, rt) = get_next rt in do { n \<leftarrow> n; resume n rt })"

definition suspend_lk :: "nat \<Rightarrow> runtime \<Rightarrow> runtime option" where
  "suspend_lk lk rt = (let (n, rt) = get_next rt in do { n \<leftarrow> n; resume_lk n lk rt })"

definition wait_until :: "ctx \<Rightarrow> time_point \<Rightarrow> runtime \<Rightarrow> runtime option" where
  "wait_until active_ctx sleep_tp rt = do {
     ensure (\<not> is_terminated rt active_ctx);
     ensure (\<not> sleep_is_linked rt active_ctx);
     rt \<leftarrow> sleep_link active_ctx sleep_tp rt;
     let (n, rt) = get_next rt;
     n \<leftarrow> n;
     resume n rt
   }"

definition wait_until_lk :: "ctx \<Rightarrow> time_point \<Rightarrow> nat \<Rightarrow> runtime \<Rightarrow> runtime option" where
  "wait_until_lk active_ctx sleep_tp lk rt = do {
     ensure (\<not> is_terminated rt active_ctx);
     ensure (\<not> sleep_is_linked rt active_ctx);
     rt \<leftarrow> sleep_link active_ctx sleep_tp rt;
     let (n, rt) = get_next rt;
     n \<leftarrow> n;
     resume_lk n lk rt
   }"

text \<open>What \<open>wait_until\<close> returns when the context is resumed, at the time of its resumption.\<close>

definition wait_until_result :: "time_point \<Rightarrow> time_point \<Rightarrow> bool" where
  "wait_until_result now sleep_tp = (now < sleep_tp)"

subsection \<open>References to a context\<close>

text \<open>\<open>~context\<close>: its assertions; the hooks that are still linked unlink themselves.\<close>

definition destroy_context :: "ctx \<Rightarrow> runtime \<Rightarrow> runtime option" where
  "destroy_context c rt = do {
     ensure (rt_wait rt (Joiners c) = []);
     ensure (\<not> ready_is_linked rt c);
     ensure (\<not> sleep_is_linked rt c);
     ensure (\<not> wait_is_linked rt c);
     Some (rt\<lparr>rt_context := (rt_context rt)(c := None), rt_contexts := rt_contexts rt - 1,
              rt_worker := remove1 c (rt_worker rt),
              rt_terminated := remove1 c (rt_terminated rt)\<rparr>)
   }"

definition intrusive_ptr_release :: "ctx \<Rightarrow> runtime \<Rightarrow> runtime option" where
  "intrusive_ptr_release c rt = do {
     x \<leftarrow> rt_context rt c;
     let n = (if cx_use_count x = 0 then 2 ^ 64 - 1 else cx_use_count x - 1);
     if n = 0 then destroy_context c rt
     else Some (set_context c (x\<lparr>cx_use_count := n\<rparr>) rt)
   }"

subsection \<open>Creation, attaching\<close>

text \<open>\<open>make_worker_context\<close>: the constructor starts the count at 1, for the scheduler, and the
  pointer returned adds 1, for the fiber.\<close>

definition make_worker_context :: "launch \<Rightarrow> ctx \<Rightarrow> runtime \<Rightarrow> runtime option" where
  "make_worker_context policy c rt = do {
     ensure (rt_context rt c = None);
     Some ((set_context c \<lparr>cx_use_count = 2, cx_terminated = False, cx_type = worker_context,
             cx_scheduler = False, cx_policy = policy, cx_tp = TP_MAX, cx_wait_hook = None\<rparr> rt)
             \<lparr>rt_contexts := rt_contexts rt + 1\<rparr>)
   }"

definition attach_worker_context :: "ctx \<Rightarrow> runtime \<Rightarrow> runtime option" where
  "attach_worker_context c rt = do {
     ensure (\<not> ready_is_linked rt c);
     ensure (\<not> sleep_is_linked rt c);
     ensure (\<not> terminated_is_linked rt c);
     ensure (\<not> wait_is_linked rt c);
     ensure (\<not> worker_is_linked rt c);
     x \<leftarrow> rt_context rt c;
     ensure (\<not> cx_scheduler x);
     let rt = set_context c (x\<lparr>cx_scheduler := True\<rparr>) rt;
     Some (rt\<lparr>rt_worker := rt_worker rt @ [c]\<rparr>)
   }"

definition detach_worker_context :: "ctx \<Rightarrow> runtime \<Rightarrow> runtime option" where
  "detach_worker_context c rt = do {
     ensure (\<not> ready_is_linked rt c);
     ensure (\<not> sleep_is_linked rt c);
     ensure (\<not> terminated_is_linked rt c);
     ensure (\<not> wait_is_linked rt c);
     x \<leftarrow> rt_context rt c;
     ensure (\<not> is_pinned (cx_type x));
     let rt = worker_unlink c rt;
     Some (set_context c (x\<lparr>cx_scheduler := False\<rparr>) rt)
   }"

text \<open>\<open>fiber::start_\<close>: push the new fiber to the ready-queue, or switch to it at once.\<close>

definition fiber_start :: "ctx \<Rightarrow> runtime \<Rightarrow> runtime option" where
  "fiber_start c rt = do {
     rt \<leftarrow> attach_worker_context c rt;
     x \<leftarrow> rt_context rt c;
     (case cx_policy x of
        launch_post \<Rightarrow> sched_set_ready c rt
      | launch_dispatch \<Rightarrow> resume_ready c (rt_active rt) rt)
   }"

definition fiber_new :: "launch \<Rightarrow> ctx \<Rightarrow> runtime \<Rightarrow> runtime option" where
  "fiber_new policy c rt = do { rt \<leftarrow> make_worker_context policy c rt; fiber_start c rt }"

text \<open>The start of a thread: the main context and the dispatcher, which is the first in the
  ready-queue. Each is held once, by the thread and by the scheduler.\<close>

definition pinned_new :: "context_type \<Rightarrow> fiber_context" where
  "pinned_new t = \<lparr>cx_use_count = 1, cx_terminated = False, cx_type = t, cx_scheduler = True,
     cx_policy = launch_post, cx_tp = TP_MAX, cx_wait_hook = None\<rparr>"

definition scheduler_new :: "ctx \<Rightarrow> ctx \<Rightarrow> runtime" where
  "scheduler_new main disp =
     \<lparr>rt_active = main, rt_main = main, rt_dispatcher = disp,
      rt_context = [main \<mapsto> pinned_new main_context, disp \<mapsto> pinned_new dispatcher_context],
      rt_contexts = 2, rt_algo = \<lparr>rq_rqueue = [disp], rq_flag = False\<rparr>, rt_worker = [],
      rt_terminated = [], rt_sleep = [], rt_wait = (\<lambda>_. []), rt_splk = [], rt_shutdown = False\<rparr>"

subsection \<open>Termination and join\<close>

fun wake_joiners :: "ctx \<Rightarrow> nat \<Rightarrow> runtime \<Rightarrow> runtime option" where
  "wake_joiners this fuel rt =
     (if rt_wait rt (Joiners this) = [] then Some rt
      else case fuel of
          0 \<Rightarrow> None
        | Suc fuel \<Rightarrow> do {
            (c, rt) \<leftarrow> wait_pop_front (Joiners this) rt;
            rt \<leftarrow> set_ready this c rt;
            wake_joiners this fuel rt
          })"

declare wake_joiners.simps [simp del]

definition sched_set_terminated :: "ctx \<Rightarrow> runtime \<Rightarrow> runtime option" where
  "sched_set_terminated active_ctx rt = do {
     x \<leftarrow> rt_context rt active_ctx;
     ensure (\<not> is_pinned (cx_type x));
     ensure (cx_terminated x);
     ensure (\<not> ready_is_linked rt active_ctx);
     ensure (\<not> sleep_is_linked rt active_ctx);
     ensure (\<not> wait_is_linked rt active_ctx);
     let rt = rt\<lparr>rt_terminated := rt_terminated rt @ [active_ctx]\<rparr>;
     let (n, rt) = get_next rt;
     n \<leftarrow> n;
     suspend_with_cc n rt
   }"

text \<open>\<open>context::set_terminated\<close> of the active context, whose function has returned; the joiners
  left in the queue bound its loop.\<close>

definition set_terminated :: "runtime \<Rightarrow> runtime option" where
  "set_terminated rt = do {
     let this = rt_active rt;
     x \<leftarrow> rt_context rt this;
     let rt = set_context this (x\<lparr>cx_terminated := True\<rparr>) rt;
     rt \<leftarrow> wake_joiners this (length (rt_wait rt (Joiners this))) rt;
     sched_set_terminated this rt
   }"

text \<open>\<open>context::join\<close>: whether the active context was suspended, and then what it does when it
  is resumed.\<close>

definition context_join :: "ctx \<Rightarrow> runtime \<Rightarrow> (bool \<times> runtime) option" where
  "context_join this rt = do {
     x \<leftarrow> rt_context rt this;
     if cx_terminated x then Some (False, rt)
     else do {
       rt \<leftarrow> wait_link (rt_active rt) (Joiners this) rt;
       rt \<leftarrow> suspend rt;
       Some (True, rt)
     }
   }"

definition context_join_resumed :: "ctx \<Rightarrow> runtime \<Rightarrow> runtime option" where
  "context_join_resumed active_ctx rt = do {
     rt \<leftarrow> wait_unlink active_ctx rt;
     ensure (rt_active rt = active_ctx);
     Some rt
   }"

text \<open>\<open>fiber::join\<close> and \<open>fiber::detach\<close> of a fiber object, which holds a context or nothing.
  A join that did not suspend drops the reference at once.\<close>

definition fiber_join :: "ctx option \<Rightarrow> runtime \<Rightarrow> (fiber_errc + bool \<times> runtime) option" where
  "fiber_join impl rt =
     (if Some (rt_active rt) = impl then Some (Inl resource_deadlock_would_occur)
      else case impl of
          None \<Rightarrow> Some (Inl invalid_argument)
        | Some c \<Rightarrow> do {
            (blocked, rt) \<leftarrow> context_join c rt;
            if blocked then Some (Inr (True, rt))
            else do { rt \<leftarrow> intrusive_ptr_release c rt; Some (Inr (False, rt)) }
          })"

definition fiber_join_resumed :: "ctx \<Rightarrow> runtime \<Rightarrow> runtime option" where
  "fiber_join_resumed c rt = do {
     rt \<leftarrow> context_join_resumed (rt_active rt) rt;
     intrusive_ptr_release c rt
   }"

definition fiber_detach :: "ctx option \<Rightarrow> runtime \<Rightarrow> (fiber_errc + runtime) option" where
  "fiber_detach impl rt =
     (case impl of
        None \<Rightarrow> Some (Inl invalid_argument)
      | Some c \<Rightarrow> do { rt \<leftarrow> intrusive_ptr_release c rt; Some (Inr rt) })"

subsection \<open>The dispatcher\<close>

fun release_loop :: "ctx list \<Rightarrow> runtime \<Rightarrow> runtime option" where
  "release_loop [] rt = Some rt"
| "release_loop (c # cs) rt = do {
     x \<leftarrow> rt_context rt c;
     ensure (cx_type x \<noteq> main_context);
     ensure (cx_type x \<noteq> dispatcher_context);
     ensure (cx_terminated x);
     ensure (\<not> ready_is_linked rt c);
     ensure (\<not> sleep_is_linked rt c);
     let rt = worker_unlink c rt;
     let rt = rt\<lparr>rt_terminated := remove1 c (rt_terminated rt)\<rparr>;
     rt \<leftarrow> intrusive_ptr_release c rt;
     release_loop cs rt
   }"

definition release_terminated :: "runtime \<Rightarrow> runtime option" where
  "release_terminated rt = release_loop (rt_terminated rt) rt"

fun sleep2ready_loop :: "time_point \<Rightarrow> ctx list \<Rightarrow> runtime \<Rightarrow> runtime option" where
  "sleep2ready_loop now [] rt = Some rt"
| "sleep2ready_loop now (c # cs) rt = do {
     x \<leftarrow> rt_context rt c;
     ensure (cx_type x \<noteq> dispatcher_context);
     ensure (\<not> cx_terminated x);
     ensure (\<not> ready_is_linked rt c);
     ensure (sleep_is_linked rt c);
     if cx_tp x \<le> now then do {
       let rt = sleep_unlink c rt;
       rt \<leftarrow> algo_awakened c (set_context c (x\<lparr>cx_tp := TP_MAX\<rparr>) rt);
       sleep2ready_loop now cs rt
     } else Some rt
   }"

definition sleep2ready :: "time_point \<Rightarrow> runtime \<Rightarrow> runtime option" where
  "sleep2ready now rt = sleep2ready_loop now (rt_sleep rt) rt"

text \<open>One turn of the loop of \<open>dispatch\<close>, from its head to the switch to a ready context (whose
  next switch to the dispatcher starts the next turn) or to the end of \<open>suspend_until\<close>, and the
  exit. A thread still asleep in \<open>suspend_until\<close> is where it was.\<close>

definition dispatch :: "time_point \<Rightarrow> runtime \<Rightarrow> runtime option" where
  "dispatch now rt = do {
     ensure (rt_active rt = rt_dispatcher rt);
     let no_worker = (rt_worker rt = []);
     let rt = (if rt_shutdown rt then rt\<lparr>rt_algo := notify (rt_algo rt)\<rparr> else rt);
     if rt_shutdown rt \<and> no_worker then do {
       rt \<leftarrow> release_terminated rt;
       suspend_with_cc (rt_main rt) rt
     } else do {
       rt \<leftarrow> release_terminated rt;
       rt \<leftarrow> sleep2ready now rt;
       let (c, rt) = get_next rt;
       (case c of
          Some c \<Rightarrow> resume_ready c (rt_dispatcher rt) rt
        | None \<Rightarrow>
            let suspend_time = (case rt_sleep rt of [] \<Rightarrow> TP_MAX | i # _ \<Rightarrow> tp_of rt i)
            in case suspend_until suspend_time now (rt_algo rt) of
                 Some a \<Rightarrow> Some (rt\<lparr>rt_algo := a\<rparr>)
               | None \<Rightarrow> Some rt)
     }
   }"

text \<open>\<open>~scheduler\<close>, run by the main context: up to the switch of \<open>join\<close>, and from there to the
  release of the dispatcher.\<close>

definition scheduler_delete :: "runtime \<Rightarrow> runtime option" where
  "scheduler_delete rt = do {
     ensure (rt_active rt = rt_main rt);
     (_, rt) \<leftarrow> context_join (rt_dispatcher rt) (rt\<lparr>rt_shutdown := True\<rparr>);
     Some rt
   }"

definition scheduler_delete_resumed :: "runtime \<Rightarrow> runtime option" where
  "scheduler_delete_resumed rt = do {
     rt \<leftarrow> context_join_resumed (rt_main rt) rt;
     ensure (rt_worker rt = []);
     ensure (rt_terminated rt = []);
     ensure (rt_sleep rt = []);
     ensure (\<not> ready_is_linked rt (rt_dispatcher rt));
     intrusive_ptr_release (rt_dispatcher rt) rt
   }"

end
