(* ===== verification/Fiber_Invariant.thy ===== *)
theory Fiber_Invariant
  imports Fiber_Runtime
begin

text \<open>
  The invariant of the fiber runtime and what each operation does under it: no assertion fails, no
  null or dangling pointer is followed, and the invariant is kept. \<open>rt_core\<close> does not mention the
  active context, so that it also holds between putting the active context away and switching to
  the next one. \<open>H\<close> is the set of the contexts held by a fiber object.
\<close>

subsection \<open>The invariant\<close>

abbreviation rqueue :: "runtime \<Rightarrow> ctx list" where
  "rqueue rt \<equiv> rq_rqueue (rt_algo rt)"

definition runnable :: "runtime \<Rightarrow> ctx \<Rightarrow> bool" where
  "runnable rt c = (case rt_context rt c of
     Some x \<Rightarrow> \<not> cx_terminated x \<and> cx_scheduler x | None \<Rightarrow> False)"

definition inv_pinned :: "runtime \<Rightarrow> bool" where
  "inv_pinned rt \<longleftrightarrow> rt_main rt \<noteq> rt_dispatcher rt \<and>
     runnable rt (rt_main rt) \<and> runnable rt (rt_dispatcher rt) \<and>
     (\<forall>c x. rt_context rt c = Some x \<longrightarrow>
        cx_type x = (if c = rt_main rt then main_context
                     else if c = rt_dispatcher rt then dispatcher_context else worker_context))"

definition inv_ready :: "runtime \<Rightarrow> bool" where
  "inv_ready rt \<longleftrightarrow> distinct (rqueue rt) \<and> (\<forall>c \<in> set (rqueue rt). runnable rt c)"

definition inv_sleep :: "runtime \<Rightarrow> bool" where
  "inv_sleep rt \<longleftrightarrow> distinct (rt_sleep rt) \<and> (\<forall>c \<in> set (rt_sleep rt). runnable rt c) \<and>
     set (rt_sleep rt) \<inter> set (rqueue rt) = {} \<and> rt_dispatcher rt \<notin> set (rt_sleep rt) \<and>
     sorted_wrt (\<lambda>c d. tp_of rt c \<le> tp_of rt d) (rt_sleep rt)"

definition hook_of :: "runtime \<Rightarrow> ctx \<Rightarrow> wait_queue option" where
  "hook_of rt c = (case rt_context rt c of Some x \<Rightarrow> cx_wait_hook x | None \<Rightarrow> None)"

definition inv_wait :: "runtime \<Rightarrow> bool" where
  "inv_wait rt \<longleftrightarrow> (\<forall>q. distinct (rt_wait rt q)) \<and>
     (\<forall>q c. c \<in> set (rt_wait rt q) \<longleftrightarrow> hook_of rt c = Some q) \<and>
     (\<forall>c. hook_of rt c \<noteq> None \<longrightarrow> runnable rt c) \<and> hook_of rt (rt_dispatcher rt) = None \<and>
     (\<forall>c. rt_wait rt (Joiners c) \<noteq> [] \<longrightarrow> runnable rt c)"

definition ref_ok :: "ctx set \<Rightarrow> ctx list \<Rightarrow> ctx list \<Rightarrow> ctx \<Rightarrow> fiber_context \<Rightarrow> bool" where
  "ref_ok H worker terminated c x \<longleftrightarrow>
     cx_use_count x = of_bool (c \<in> set worker) + of_bool (c \<in> H) \<and> 0 < cx_use_count x \<and>
     cx_scheduler x \<and> (cx_terminated x \<longleftrightarrow> c \<notin> set worker \<or> c \<in> set terminated)"

definition disp_held :: "runtime \<Rightarrow> bool" where
  "disp_held rt \<longleftrightarrow> (\<forall>x. rt_context rt (rt_dispatcher rt) = Some x \<longrightarrow> cx_use_count x = 1)"

definition inv_refs :: "ctx set \<Rightarrow> runtime \<Rightarrow> bool" where
  "inv_refs H rt \<longleftrightarrow> finite (dom (rt_context rt)) \<and> rt_contexts rt = card (dom (rt_context rt)) \<and>
     distinct (rt_worker rt) \<and> distinct (rt_terminated rt) \<and>
     set (rt_worker rt) \<union> H \<subseteq> dom (rt_context rt) - {rt_main rt, rt_dispatcher rt} \<and>
     (\<forall>c x. rt_context rt c = Some x \<and> c \<noteq> rt_main rt \<and> c \<noteq> rt_dispatcher rt \<longrightarrow>
        ref_ok H (rt_worker rt) (rt_terminated rt) c x) \<and>
     set (rt_terminated rt) \<subseteq> set (rt_worker rt) \<and> disp_held rt"

definition rt_core :: "ctx set \<Rightarrow> runtime \<Rightarrow> bool" where
  "rt_core H rt \<longleftrightarrow>
     inv_pinned rt \<and> inv_ready rt \<and> inv_sleep rt \<and> inv_wait rt \<and> inv_refs H rt"

definition active_ok :: "runtime \<Rightarrow> bool" where
  "active_ok rt \<longleftrightarrow> runnable rt (rt_active rt) \<and> rt_active rt \<notin> set (rqueue rt) \<and>
     rt_active rt \<notin> set (rt_sleep rt) \<and>
     (rt_active rt = rt_dispatcher rt \<or> rt_dispatcher rt \<in> set (rqueue rt))"

definition rt_inv :: "ctx set \<Rightarrow> runtime \<Rightarrow> bool" where
  "rt_inv H rt \<longleftrightarrow> rt_core H rt \<and> active_ok rt"

lemmas core_defs = rt_core_def inv_pinned_def inv_ready_def inv_sleep_def inv_wait_def inv_refs_def
lemmas linked_defs = ready_is_linked_def sleep_is_linked_def terminated_is_linked_def
  worker_is_linked_def

lemma ensure_simps [simp]: "ensure b = Some u \<longleftrightarrow> b" "ensure b = None \<longleftrightarrow> \<not> b" "ensure True = Some ()"
  by (auto simp: ensure_def)

lemma ensure_bind [simp]: "b \<Longrightarrow> Option.bind (ensure b) f = f ()"
  by (simp add: ensure_def)

lemma runnable_context: "runnable rt c \<longleftrightarrow>
    (\<exists>x. rt_context rt c = Some x \<and> \<not> cx_terminated x \<and> cx_scheduler x)"
  by (auto simp: runnable_def split: option.splits)

lemma runnable_not_terminated: "runnable rt c \<Longrightarrow> \<not> is_terminated rt c"
  by (auto simp: runnable_context is_terminated_def)

lemma runnable_has_scheduler: "runnable rt c \<Longrightarrow> has_scheduler rt c"
  by (auto simp: runnable_context has_scheduler_def)

text \<open>What does not depend on the queues.\<close>

lemma runnable_cong: "rt_context rt = rt_context rt' \<Longrightarrow> runnable rt c = runnable rt' c"
  by (simp add: runnable_def)

lemma runnable_upd [simp]:
  "runnable (rt\<lparr>rt_active := a\<rparr>) c = runnable rt c"
  "runnable (rt\<lparr>rt_algo := g\<rparr>) c = runnable rt c"
  "runnable (rt\<lparr>rt_sleep := s\<rparr>) c = runnable rt c"
  "runnable (rt\<lparr>rt_splk := l\<rparr>) c = runnable rt c"
  "runnable (rt\<lparr>rt_shutdown := b\<rparr>) c = runnable rt c"
  "runnable (rt\<lparr>rt_wait := w\<rparr>) c = runnable rt c"
  "runnable (rt\<lparr>rt_worker := w'\<rparr>) c = runnable rt c"
  "runnable (rt\<lparr>rt_terminated := t\<rparr>) c = runnable rt c"
  by (simp_all add: runnable_def)

lemma tp_of_upd [simp]:
  "tp_of (rt\<lparr>rt_active := a\<rparr>) c = tp_of rt c" "tp_of (rt\<lparr>rt_algo := g\<rparr>) c = tp_of rt c"
  "tp_of (rt\<lparr>rt_sleep := s\<rparr>) c = tp_of rt c" "tp_of (rt\<lparr>rt_splk := l\<rparr>) c = tp_of rt c"
  "tp_of (rt\<lparr>rt_shutdown := b\<rparr>) c = tp_of rt c" "tp_of (rt\<lparr>rt_wait := w\<rparr>) c = tp_of rt c"
  "tp_of (rt\<lparr>rt_worker := w'\<rparr>) c = tp_of rt c" "tp_of (rt\<lparr>rt_terminated := t\<rparr>) c = tp_of rt c"
  by (simp_all add: tp_of_def)

lemma hook_of_upd [simp]:
  "hook_of (rt\<lparr>rt_active := a\<rparr>) c = hook_of rt c" "hook_of (rt\<lparr>rt_algo := g\<rparr>) c = hook_of rt c"
  "hook_of (rt\<lparr>rt_sleep := s\<rparr>) c = hook_of rt c" "hook_of (rt\<lparr>rt_splk := l\<rparr>) c = hook_of rt c"
  "hook_of (rt\<lparr>rt_shutdown := b\<rparr>) c = hook_of rt c" "hook_of (rt\<lparr>rt_wait := w\<rparr>) c = hook_of rt c"
  "hook_of (rt\<lparr>rt_worker := w'\<rparr>) c = hook_of rt c"
  "hook_of (rt\<lparr>rt_terminated := t\<rparr>) c = hook_of rt c"
  by (simp_all add: hook_of_def)

lemma disp_held_upd [simp]:
  "disp_held (rt\<lparr>rt_active := a\<rparr>) = disp_held rt" "disp_held (rt\<lparr>rt_algo := g\<rparr>) = disp_held rt"
  "disp_held (rt\<lparr>rt_sleep := s\<rparr>) = disp_held rt" "disp_held (rt\<lparr>rt_splk := l\<rparr>) = disp_held rt"
  "disp_held (rt\<lparr>rt_shutdown := b\<rparr>) = disp_held rt" "disp_held (rt\<lparr>rt_wait := w\<rparr>) = disp_held rt"
  "disp_held (rt\<lparr>rt_worker := w'\<rparr>) = disp_held rt"
  "disp_held (rt\<lparr>rt_terminated := t\<rparr>) = disp_held rt"
  by (simp_all add: disp_held_def)

lemma disp_held_cong:
  "rt_dispatcher rt' = rt_dispatcher rt \<Longrightarrow>
     rt_context rt' (rt_dispatcher rt) = rt_context rt (rt_dispatcher rt) \<Longrightarrow>
     disp_held rt' = disp_held rt"
  by (simp add: disp_held_def)

subsection \<open>Switching\<close>

text \<open>The runtime in which the head of the ready-queue has become active.\<close>

definition switched :: "runtime \<Rightarrow> runtime" where
  "switched rt = rt\<lparr>rt_algo := (rt_algo rt)\<lparr>rq_rqueue := tl (rqueue rt)\<rparr>,
     rt_active := hd (rqueue rt)\<rparr>"

lemma switched_simps [simp]:
  "rt_context (switched rt) = rt_context rt" "rt_sleep (switched rt) = rt_sleep rt"
  "rt_active (switched rt) = hd (rqueue rt)" "rqueue (switched rt) = tl (rqueue rt)"
  "rt_dispatcher (switched rt) = rt_dispatcher rt" "rt_main (switched rt) = rt_main rt"
  "rt_wait (switched rt) = rt_wait rt" "rt_worker (switched rt) = rt_worker rt"
  "rt_terminated (switched rt) = rt_terminated rt" "rt_splk (switched rt) = rt_splk rt"
  "rt_shutdown (switched rt) = rt_shutdown rt" "rt_contexts (switched rt) = rt_contexts rt"
  "runnable (switched rt) c = runnable rt c" "tp_of (switched rt) c = tp_of rt c"
  "hook_of (switched rt) c = hook_of rt c" "rq_flag (rt_algo (switched rt)) = rq_flag (rt_algo rt)"
  "disp_held (switched rt) = disp_held rt"
  by (simp_all add: switched_def runnable_def tp_of_def hook_of_def)

lemma get_next_Cons:
  "rqueue rt = n # rest \<Longrightarrow> get_next rt = (Some n, rt\<lparr>rt_algo := (rt_algo rt)\<lparr>rq_rqueue := rest\<rparr>\<rparr>)"
  by (simp add: get_next_def pick_next_def)

lemma core_switched:
  assumes "rt_core H rt" "rqueue rt \<noteq> []"
  shows "rt_core H (switched rt)"
proof -
  obtain n rest where q: "rqueue rt = n # rest" using assms(2) by (cases "rqueue rt") auto
  have "inv_ready (switched rt)" "inv_sleep (switched rt)"
    using assms(1) q by (auto simp: rt_core_def inv_ready_def inv_sleep_def)
  moreover have "inv_pinned (switched rt)" "inv_wait (switched rt)" "inv_refs H (switched rt)"
    using assms(1) unfolding rt_core_def inv_pinned_def inv_wait_def inv_refs_def switched_simps
    by blast+
  ultimately show ?thesis by (simp add: rt_core_def)
qed

lemma inv_switched:
  assumes "rt_core H rt" "rt_dispatcher rt \<in> set (rqueue rt)"
  shows "rt_inv H (switched rt)"
proof -
  obtain n rest where q: "rqueue rt = n # rest" using assms(2) by (cases "rqueue rt") auto
  then have "rt_core H (switched rt)" using assms(1) by (intro core_switched) auto
  moreover have "active_ok (switched rt)"
    using assms q by (auto simp: active_ok_def rt_core_def inv_ready_def inv_sleep_def)
  ultimately show ?thesis by (simp add: rt_inv_def)
qed

lemma head_runnable:
  assumes "rt_core H rt" "rqueue rt = n # rest"
  shows "runnable rt n"
  using assms by (simp add: rt_core_def inv_ready_def)

lemma suspend_eq:
  assumes "rt_core H rt" "rqueue rt \<noteq> []"
  shows "suspend rt = Some (switched rt)"
    and "suspend_lk l rt = Some (splk_unlock l (switched rt))"
proof -
  obtain n rest where q: "rqueue rt = n # rest" using assms(2) by (cases "rqueue rt") auto
  moreover from head_runnable [OF assms(1) q] obtain x where "rt_context rt n = Some x"
    by (auto simp: runnable_context)
  ultimately show "suspend rt = Some (switched rt)"
    and "suspend_lk l rt = Some (splk_unlock l (switched rt))"
    by (simp_all add: suspend_def suspend_lk_def get_next_Cons resume_def resume_lk_def resume_with_def
        resume_tail_def switched_def)
qed

subsection \<open>Making ready\<close>

definition made_ready :: "ctx \<Rightarrow> runtime \<Rightarrow> runtime" where
  "made_ready c rt = rt\<lparr>rt_sleep := remove1 c (rt_sleep rt),
     rt_algo := (rt_algo rt)\<lparr>rq_rqueue := remove1 c (rqueue rt) @ [c]\<rparr>\<rparr>"

lemma made_ready_simps [simp]:
  "rt_context (made_ready c rt) = rt_context rt" "rt_sleep (made_ready c rt) = remove1 c (rt_sleep rt)"
  "rt_active (made_ready c rt) = rt_active rt"
  "set (rqueue (made_ready c rt)) = insert c (set (rqueue rt))"
  "distinct (rqueue rt) \<Longrightarrow> distinct (rqueue (made_ready c rt))"
  "rt_dispatcher (made_ready c rt) = rt_dispatcher rt" "rt_main (made_ready c rt) = rt_main rt"
  "rt_wait (made_ready c rt) = rt_wait rt" "rt_worker (made_ready c rt) = rt_worker rt"
  "rt_terminated (made_ready c rt) = rt_terminated rt" "rt_splk (made_ready c rt) = rt_splk rt"
  "rt_shutdown (made_ready c rt) = rt_shutdown rt" "rt_contexts (made_ready c rt) = rt_contexts rt"
  "runnable (made_ready c rt) d = runnable rt d" "tp_of (made_ready c rt) d = tp_of rt d"
  "hook_of (made_ready c rt) d = hook_of rt d"
  "rq_flag (rt_algo (made_ready c rt)) = rq_flag (rt_algo rt)"
  "disp_held (made_ready c rt) = disp_held rt"
  using set_remove1_append [of c "rqueue rt"]
  by (simp_all add: made_ready_def runnable_def tp_of_def hook_of_def)

lemma rqueue_made_ready: "rqueue (made_ready c rt) = remove1 c (rqueue rt) @ [c]"
  by (simp add: made_ready_def)

lemma sched_set_ready_eq:
  assumes "rt_core H rt" "runnable rt c"
  shows "sched_set_ready c rt = Some (made_ready c rt)"
proof -
  have d: "distinct (rqueue rt)" using assms(1) by (simp add: rt_core_def inv_ready_def)
  have r: "remove1 c (rt_sleep rt) = rt_sleep rt" if "c \<notin> set (rt_sleep rt)"
    using that by (rule remove1_idem)
  show ?thesis
    using d r runnable_not_terminated [OF assms(2)]
    by (simp add: sched_set_ready_def algo_awakened_def awakened_def ready_unlink_def sleep_unlink_def
        sleep_is_linked_def made_ready_def)
qed

lemma set_ready_eq:
  assumes "rt_core H rt" "runnable rt c" "runnable rt this" "c \<noteq> this"
  shows "set_ready this c rt = Some (made_ready c rt)"
  using assms(4) by (simp add: set_ready_def runnable_has_scheduler [OF assms(2)]
      runnable_has_scheduler [OF assms(3)] sched_set_ready_eq [OF assms(1,2)])

lemma core_made_ready:
  assumes "rt_core H rt" "runnable rt c"
  shows "rt_core H (made_ready c rt)"
proof -
  have R: "inv_ready rt" and S: "inv_sleep rt" using assms(1) by (auto simp: rt_core_def)
  have "inv_ready (made_ready c rt)"
    using R assms(2) by (auto simp: inv_ready_def dest: notin_set_remove1)
  moreover have "inv_sleep (made_ready c rt)"
    using S by (auto simp: inv_sleep_def sorted_wrt_remove1 dest: notin_set_remove1)
  moreover have "inv_pinned (made_ready c rt)" "inv_wait (made_ready c rt)" "inv_refs H (made_ready c rt)"
    using assms(1) unfolding rt_core_def inv_pinned_def inv_wait_def inv_refs_def made_ready_simps
    by blast+
  ultimately show ?thesis by (simp add: rt_core_def)
qed

lemma inv_made_ready:
  assumes "rt_inv H rt" "runnable rt c" "c \<noteq> rt_active rt"
  shows "rt_inv H (made_ready c rt)"
  using assms core_made_ready [of H rt c]
  by (auto simp: rt_inv_def active_ok_def dest: notin_set_remove1)

lemma set_ready_inv:
  assumes "rt_inv H rt" "runnable rt c" "c \<noteq> rt_active rt"
  shows "set_ready (rt_active rt) c rt = Some (made_ready c rt) \<and> rt_inv H (made_ready c rt)"
  using assms set_ready_eq [of H rt c "rt_active rt"] inv_made_ready [OF assms]
  by (auto simp: rt_inv_def active_ok_def)

text \<open>Switching with a context to be made ready by the resumed one.\<close>

lemma resume_ready_eq:
  assumes "rt_core H rt" "runnable rt n" "runnable rt a" "n \<notin> set (rqueue rt)" "n \<notin> set (rt_sleep rt)"
  shows "resume_ready n a rt = Some (made_ready a (rt\<lparr>rt_active := n\<rparr>))"
proof -
  from assms(2) obtain x where "rt_context rt n = Some x" by (auto simp: runnable_context)
  moreover have "rt_core H (rt\<lparr>rt_active := n\<rparr>)"
    using assms(1) by (simp add: rt_core_def inv_pinned_def inv_ready_def inv_sleep_def inv_wait_def
        inv_refs_def)
  ultimately show ?thesis
    using assms(3) by (simp add: resume_ready_def resume_with_def resume_tail_def sched_set_ready_eq)
qed

lemma core_active [simp]: "rt_core H (rt\<lparr>rt_active := n\<rparr>) = rt_core H rt"
  by (simp add: rt_core_def inv_pinned_def inv_ready_def inv_sleep_def inv_wait_def inv_refs_def)

lemma resume_ready_inv:
  assumes "rt_core H rt" "runnable rt n" "runnable rt a" "n \<notin> set (rqueue rt)" "n \<notin> set (rt_sleep rt)"
    and "a \<noteq> n" "rt_dispatcher rt \<in> insert n (insert a (set (rqueue rt)))"
  shows "rt_inv H (made_ready a (rt\<lparr>rt_active := n\<rparr>))"
  using assms core_made_ready [of H "rt\<lparr>rt_active := n\<rparr>" a]
  by (auto simp: rt_inv_def active_ok_def dest: notin_set_remove1)

lemma yield_inv:
  assumes inv: "rt_inv H rt" and ne: "rqueue rt \<noteq> []"
  shows "yield rt = Some (made_ready (rt_active rt) (switched rt)) \<and>
    rt_inv H (made_ready (rt_active rt) (switched rt))"
proof -
  let ?a = "rt_active rt"
  obtain n rest where q: "rqueue rt = n # rest" using ne by (cases "rqueue rt") auto
  let ?rt = "rt\<lparr>rt_algo := (rt_algo rt)\<lparr>rq_rqueue := rest\<rparr>\<rparr>"
  have C: "rt_core H rt" and A: "active_ok rt" using inv by (auto simp: rt_inv_def)
  have core: "rt_core H ?rt"
    using core_switched [OF C ne] q by (simp add: switched_def)
  have fresh: "n \<notin> set rest" "n \<notin> set (rt_sleep rt)" "runnable rt n" "?a \<noteq> n" "?a \<notin> set rest"
    using C A q by (auto simp: rt_core_def inv_ready_def inv_sleep_def active_ok_def)
  have sw: "switched rt = ?rt\<lparr>rt_active := n\<rparr>" using q by (simp add: switched_def)
  have a: "runnable rt ?a" "\<not> ready_is_linked rt ?a" "\<not> sleep_is_linked rt ?a"
    using A by (auto simp: active_ok_def linked_defs)
  have "yield rt = resume_ready n ?a ?rt"
    using a runnable_not_terminated [OF a(1)] q by (simp add: yield_def sched_yield_def get_next_Cons)
  also have "\<dots> = Some (made_ready ?a (switched rt))"
    unfolding sw by (rule resume_ready_eq [OF core]) (use fresh a in auto)
  finally have "yield rt = Some (made_ready ?a (switched rt))" .
  moreover have "rt_inv H (made_ready ?a (switched rt))"
    unfolding sw by (rule resume_ready_inv [OF core]) (use fresh a q A in \<open>auto simp: active_ok_def\<close>)
  ultimately show ?thesis by blast
qed

lemma queue_nonempty:
  assumes "rt_inv H rt" "rt_active rt \<noteq> rt_dispatcher rt"
  shows "rqueue rt \<noteq> []" "rt_dispatcher rt \<in> set (rqueue rt)"
  using assms by (auto simp: rt_inv_def active_ok_def)

subsection \<open>Writing a context\<close>

lemma set_context_simps [simp]:
  "rt_context (set_context c x rt) = (rt_context rt)(c := Some x)"
  "rt_sleep (set_context c x rt) = rt_sleep rt" "rt_active (set_context c x rt) = rt_active rt"
  "rt_algo (set_context c x rt) = rt_algo rt" "rt_dispatcher (set_context c x rt) = rt_dispatcher rt"
  "rt_main (set_context c x rt) = rt_main rt" "rt_wait (set_context c x rt) = rt_wait rt"
  "rt_worker (set_context c x rt) = rt_worker rt" "rt_splk (set_context c x rt) = rt_splk rt"
  "rt_terminated (set_context c x rt) = rt_terminated rt"
  "rt_shutdown (set_context c x rt) = rt_shutdown rt"
  "rt_contexts (set_context c x rt) = rt_contexts rt"
  "runnable (set_context c x rt) d =
     (if d = c then \<not> cx_terminated x \<and> cx_scheduler x else runnable rt d)"
  "tp_of (set_context c x rt) d = (if d = c then cx_tp x else tp_of rt d)"
  "hook_of (set_context c x rt) d = (if d = c then cx_wait_hook x else hook_of rt d)"
  by (simp_all add: set_context_def runnable_def tp_of_def hook_of_def)

text \<open>Writing a context that stays of its type, alive and with the same references: pinned and
  reference invariants are those of before.\<close>

definition same_status :: "fiber_context \<Rightarrow> fiber_context \<Rightarrow> bool" where
  "same_status x y \<longleftrightarrow> cx_type x = cx_type y \<and> cx_terminated x = cx_terminated y \<and>
     cx_scheduler x = cx_scheduler y \<and> cx_use_count x = cx_use_count y"

lemma set_context_status:
  assumes "rt_context rt c = Some x" "same_status x y"
  shows "runnable (set_context c y rt) d = runnable rt d"
    and "inv_pinned (set_context c y rt) = inv_pinned rt"
    and "inv_refs H (set_context c y rt) = inv_refs H rt"
proof -
  show r: "runnable (set_context c y rt) d = runnable rt d" for d
    using assms by (auto simp: runnable_context same_status_def)
  have "(\<forall>z. ((rt_context rt)(c \<mapsto> y)) d = Some z \<longrightarrow> cx_type z = t) =
      (\<forall>z. rt_context rt d = Some z \<longrightarrow> cx_type z = t)" for d t
    using assms by (cases "d = c") (simp_all add: same_status_def)
  then show "inv_pinned (set_context c y rt) = inv_pinned rt"
    by (simp only: inv_pinned_def r set_context_simps(1,5,6))
  have dom: "dom ((rt_context rt)(c \<mapsto> y)) = dom (rt_context rt)" using assms(1) by auto
  have ref: "ref_ok H w t c y = ref_ok H w t c x" for w t
    using assms(2) by (simp add: same_status_def ref_ok_def)
  have "(\<forall>z. ((rt_context rt)(c \<mapsto> y)) d = Some z \<and> d \<noteq> m \<and> d \<noteq> n \<longrightarrow> ref_ok H w t d z) =
      (\<forall>z. rt_context rt d = Some z \<and> d \<noteq> m \<and> d \<noteq> n \<longrightarrow> ref_ok H w t d z)" for d m n w t
    using ref assms(1) by (cases "d = c") simp_all
  moreover have "disp_held (set_context c y rt) = disp_held rt"
    using assms by (auto simp: disp_held_def same_status_def)
  ultimately show "inv_refs H (set_context c y rt) = inv_refs H rt" using dom
    unfolding inv_refs_def set_context_simps by simp
qed

subsection \<open>Sleeping\<close>

lemma set_sleep_insert [simp]: "set (sleep_insert tp c ds) = insert c (set ds)"
  by (induction ds) auto

lemma distinct_sleep_insert: "distinct ds \<Longrightarrow> c \<notin> set ds \<Longrightarrow> distinct (sleep_insert tp c ds)"
  by (induction ds) auto

lemma sorted_sleep_insert:
  "sorted_wrt (\<lambda>x y. (tp x :: int) \<le> tp y) ds \<Longrightarrow>
     sorted_wrt (\<lambda>x y. tp x \<le> tp y) (sleep_insert tp c ds)"
  by (induction ds) auto

definition slept :: "ctx \<Rightarrow> time_point \<Rightarrow> runtime \<Rightarrow> runtime" where
  "slept c tp rt = (set_context c (the (rt_context rt c)\<lparr>cx_tp := tp\<rparr>) rt)
     \<lparr>rt_sleep := sleep_insert ((tp_of rt)(c := tp)) c (rt_sleep rt)\<rparr>"

lemma slept_simps [simp]:
  "rt_sleep (slept c tp rt) = sleep_insert ((tp_of rt)(c := tp)) c (rt_sleep rt)"
  "rt_active (slept c tp rt) = rt_active rt" "rt_algo (slept c tp rt) = rt_algo rt"
  "rt_dispatcher (slept c tp rt) = rt_dispatcher rt" "rt_main (slept c tp rt) = rt_main rt"
  "rt_wait (slept c tp rt) = rt_wait rt" "rt_worker (slept c tp rt) = rt_worker rt"
  "rt_terminated (slept c tp rt) = rt_terminated rt" "rt_splk (slept c tp rt) = rt_splk rt"
  "rt_shutdown (slept c tp rt) = rt_shutdown rt"
  by (simp_all add: slept_def)

lemma sleep_link_core:
  assumes C: "rt_core H rt" and a: "runnable rt c" "c \<notin> set (rqueue rt)" "c \<notin> set (rt_sleep rt)"
    and d: "c \<noteq> rt_dispatcher rt"
  shows "sleep_link c tp rt = Some (slept c tp rt)" and "rt_core H (slept c tp rt)"
    and "runnable (slept c tp rt) e = runnable rt e" and "hook_of (slept c tp rt) e = hook_of rt e"
    and "tp_of (slept c tp rt) e = (if e = c then tp else tp_of rt e)"
proof -
  obtain x where x: "rt_context rt c = Some x" using a(1) by (auto simp: runnable_context)
  let ?y = "x\<lparr>cx_tp := tp\<rparr>"
  have st: "same_status x ?y" by (simp add: same_status_def)
  have r: "runnable (set_context c ?y rt) e = runnable rt e" for e
    using set_context_status(1) [OF x st] .
  have tp: "tp_of (set_context c ?y rt) = (tp_of rt)(c := tp)" by (auto simp: fun_eq_iff)
  show "sleep_link c tp rt = Some (slept c tp rt)" using x tp by (simp add: sleep_link_def slept_def)
  have eq: "slept c tp rt = (set_context c ?y rt)
      \<lparr>rt_sleep := sleep_insert ((tp_of rt)(c := tp)) c (rt_sleep rt)\<rparr>"
    using x by (simp add: slept_def)
  show r': "runnable (slept c tp rt) e = runnable rt e" for e
    using r [of e] unfolding eq by (simp del: set_context_simps)
  have h: "hook_of (set_context c ?y rt) e = hook_of rt e" for e
    using x by (simp add: hook_of_def)
  show h': "hook_of (slept c tp rt) e = hook_of rt e" for e
    using h [of e] unfolding eq by (simp del: set_context_simps)
  show t': "tp_of (slept c tp rt) e = (if e = c then tp else tp_of rt e)" for e
    unfolding eq by simp
  have P: "inv_pinned rt" and R: "inv_ready rt" and S: "inv_sleep rt" and W: "inv_wait rt"
    and F: "inv_refs H rt"
    using C by (auto simp: rt_core_def)
  have "inv_pinned (slept c tp rt)"
    using set_context_status(2) [OF x st] P unfolding eq inv_pinned_def by simp
  moreover have "inv_ready (slept c tp rt)" using R r' by (simp add: inv_ready_def)
  moreover have "inv_sleep (slept c tp rt)"
  proof -
    define f where "f = (tp_of rt)(c := tp)"
    have "sorted_wrt (\<lambda>e e'. f e \<le> f e') (rt_sleep rt)"
      using S a(3) by (auto simp: inv_sleep_def f_def elim!: sorted_wrt_mono_rel [rotated])
    moreover have "tp_of (slept c tp rt) e = f e" for e by (simp add: t' f_def)
    moreover have "rt_sleep (slept c tp rt) = sleep_insert f c (rt_sleep rt)" by (simp add: f_def)
    ultimately show ?thesis
      using S a d r' sorted_sleep_insert [of f "rt_sleep rt" c]
      by (simp add: inv_sleep_def distinct_sleep_insert del: slept_simps(1))
  qed
  moreover have "inv_wait (slept c tp rt)" using W r' h' by (simp add: inv_wait_def)
  moreover have "inv_refs H (slept c tp rt)"
    using set_context_status(3) [OF x st] F unfolding eq inv_refs_def by simp
  ultimately show "rt_core H (slept c tp rt)" by (simp add: rt_core_def)
qed

lemma core_splk [simp]: "rt_core H (splk_unlock l rt) = rt_core H rt"
  by (simp add: splk_unlock_def rt_core_def inv_pinned_def inv_ready_def inv_sleep_def inv_wait_def
      inv_refs_def)

lemma inv_splk [simp]: "rt_inv H (splk_unlock l rt) = rt_inv H rt"
  by (simp add: rt_inv_def active_ok_def) (simp add: splk_unlock_def)

lemma wait_until_inv:
  assumes inv: "rt_inv H rt" and a: "rt_active rt \<noteq> rt_dispatcher rt"
  shows "wait_until (rt_active rt) tp rt = Some (switched (slept (rt_active rt) tp rt))"
    and "wait_until_lk (rt_active rt) tp l rt =
      Some (splk_unlock l (switched (slept (rt_active rt) tp rt)))"
    and "rt_inv H (switched (slept (rt_active rt) tp rt))"
proof -
  let ?a = "rt_active rt" and ?s = "slept (rt_active rt) tp rt"
  have C: "rt_core H rt" and A: "runnable rt ?a" "?a \<notin> set (rqueue rt)" "?a \<notin> set (rt_sleep rt)"
    "rt_dispatcher rt \<in> set (rqueue rt)"
    using inv a by (auto simp: rt_inv_def active_ok_def)
  note sl = sleep_link_core [OF C A(1-3) a, of tp]
  have ne: "rqueue ?s \<noteq> []" using A(4) by auto
  note sus = suspend_eq [OF sl(2) ne]
  have t: "\<not> is_terminated rt ?a" "\<not> sleep_is_linked rt ?a"
    using runnable_not_terminated [OF A(1)] A(3) by (auto simp: linked_defs)
  show "wait_until ?a tp rt = Some (switched ?s)"
    using t sl(1) sus(1) by (simp add: wait_until_def suspend_def)
  show "wait_until_lk ?a tp l rt = Some (splk_unlock l (switched ?s))"
    using t sl(1) sus(2) by (simp add: wait_until_lk_def suspend_lk_def)
  show "rt_inv H (switched ?s)" by (rule inv_switched [OF sl(2)]) (simp add: A(4))
qed

subsection \<open>Wait-queues\<close>

text \<open>Writing the wait hook of a context and its queue together.\<close>

definition hooked :: "ctx \<Rightarrow> wait_queue option \<Rightarrow> wait_queue \<Rightarrow> ctx list \<Rightarrow> runtime \<Rightarrow> runtime" where
  "hooked c h q cs rt = (set_context c (the (rt_context rt c)\<lparr>cx_wait_hook := h\<rparr>) rt)
     \<lparr>rt_wait := (rt_wait rt)(q := cs)\<rparr>"

definition linked :: "ctx \<Rightarrow> wait_queue \<Rightarrow> runtime \<Rightarrow> runtime" where
  "linked c q rt = hooked c (Some q) q (rt_wait rt q @ [c]) rt"

definition unlinked :: "ctx \<Rightarrow> runtime \<Rightarrow> runtime" where
  "unlinked c rt = (case hook_of rt c of
     None \<Rightarrow> rt | Some q \<Rightarrow> hooked c None q (remove1 c (rt_wait rt q)) rt)"

lemma hooked_simps [simp]:
  "rt_sleep (hooked c h q cs rt) = rt_sleep rt" "rt_active (hooked c h q cs rt) = rt_active rt"
  "rt_algo (hooked c h q cs rt) = rt_algo rt" "rt_dispatcher (hooked c h q cs rt) = rt_dispatcher rt"
  "rt_main (hooked c h q cs rt) = rt_main rt" "rt_wait (hooked c h q cs rt) = (rt_wait rt)(q := cs)"
  "rt_worker (hooked c h q cs rt) = rt_worker rt" "rt_splk (hooked c h q cs rt) = rt_splk rt"
  "rt_terminated (hooked c h q cs rt) = rt_terminated rt"
  "rt_shutdown (hooked c h q cs rt) = rt_shutdown rt"
  "rt_contexts (hooked c h q cs rt) = rt_contexts rt"
  "hook_of (hooked c h q cs rt) d = (if d = c then h else hook_of rt d)"
  by (simp_all add: hooked_def hook_of_def set_context_def)

lemma inv_upd_wait:
  "inv_pinned (rt\<lparr>rt_wait := w\<rparr>) = inv_pinned rt" "inv_refs H (rt\<lparr>rt_wait := w\<rparr>) = inv_refs H rt"
  by (simp_all add: inv_pinned_def inv_refs_def)

lemma hooked_status:
  assumes "rt_context rt c = Some x"
  shows "runnable (hooked c h q cs rt) d = runnable rt d"
    and "tp_of (hooked c h q cs rt) d = tp_of rt d"
    and "inv_pinned (hooked c h q cs rt) = inv_pinned rt"
    and "inv_ready (hooked c h q cs rt) = inv_ready rt"
    and "inv_sleep (hooked c h q cs rt) = inv_sleep rt"
    and "inv_refs H (hooked c h q cs rt) = inv_refs H rt"
proof -
  have st: "same_status x (x\<lparr>cx_wait_hook := h\<rparr>)" by (simp add: same_status_def)
  note s = set_context_status [OF assms st]
  show r: "runnable (hooked c h q cs rt) d = runnable rt d" for d
    using s(1) [of d] assms by (simp add: hooked_def del: set_context_simps)
  show t: "tp_of (hooked c h q cs rt) d = tp_of rt d" for d
    using assms by (simp add: hooked_def tp_of_def set_context_def)
  show "inv_pinned (hooked c h q cs rt) = inv_pinned rt"
    using s(2) assms by (simp add: hooked_def inv_upd_wait)
  show "inv_ready (hooked c h q cs rt) = inv_ready rt" by (simp add: inv_ready_def r)
  show "inv_sleep (hooked c h q cs rt) = inv_sleep rt" by (simp add: inv_sleep_def r t)
  show "inv_refs H (hooked c h q cs rt) = inv_refs H rt"
    using s(3) assms by (simp add: hooked_def inv_upd_wait)
qed

lemma wait_link_core:
  assumes C: "rt_core H rt" and a: "runnable rt c" "hook_of rt c = None" "c \<noteq> rt_dispatcher rt"
    and j: "\<And>j. q = Joiners j \<Longrightarrow> runnable rt j"
  shows "wait_link c q rt = Some (linked c q rt)" and "rt_core H (linked c q rt)"
    and "runnable (linked c q rt) d = runnable rt d"
proof -
  obtain x where x: "rt_context rt c = Some x" using a(1) by (auto simp: runnable_context)
  with a(2) have h: "cx_wait_hook x = None" by (simp add: hook_of_def)
  show "wait_link c q rt = Some (linked c q rt)"
    using x h by (simp add: wait_link_def linked_def hooked_def)
  have W: "inv_wait rt" using C by (simp add: rt_core_def)
  have new: "c \<notin> set (rt_wait rt q')" for q' using W a(2) by (simp add: inv_wait_def)
  have "inv_wait (linked c q rt)"
    using W new a j unfolding inv_wait_def linked_def hooked_simps hooked_status(1) [OF x] by auto
  with C show "rt_core H (linked c q rt)"
    by (simp add: rt_core_def linked_def hooked_status [OF x])
  show "runnable (linked c q rt) d = runnable rt d"
    by (simp add: linked_def hooked_status(1) [OF x])
qed

lemma wait_unlink_core:
  assumes C: "rt_core H rt" and a: "runnable rt c"
  shows "wait_unlink c rt = Some (unlinked c rt)" and "rt_core H (unlinked c rt)"
    and "runnable (unlinked c rt) d = runnable rt d"
proof -
  obtain x where x: "rt_context rt c = Some x" using a by (auto simp: runnable_context)
  then have h: "hook_of rt c = cx_wait_hook x" by (simp add: hook_of_def)
  show "wait_unlink c rt = Some (unlinked c rt)"
    using x by (auto simp: wait_unlink_def unlinked_def h hooked_def split: option.splits)
  have W: "inv_wait rt" using C by (simp add: rt_core_def)
  have "inv_wait (hooked c None q (remove1 c (rt_wait rt q)) rt)" if "hook_of rt c = Some q" for q
    unfolding inv_wait_def hooked_simps hooked_status(1) [OF x]
  proof (intro conjI allI impI)
    fix q' d
    show "distinct (((rt_wait rt)(q := remove1 c (rt_wait rt q))) q')"
      using W by (simp add: inv_wait_def)
    show "(d \<in> set (((rt_wait rt)(q := remove1 c (rt_wait rt q))) q')) =
        ((if d = c then None else hook_of rt d) = Some q')"
      using W that by (auto simp: inv_wait_def)
    show "runnable rt d" if "(if d = c then None else hook_of rt d) \<noteq> None"
      using W that by (auto simp: inv_wait_def split: if_splits)
    show "(if rt_dispatcher rt = c then None else hook_of rt (rt_dispatcher rt)) = None"
      using W by (simp add: inv_wait_def)
    show "runnable rt d" if "((rt_wait rt)(q := remove1 c (rt_wait rt q))) (Joiners d) \<noteq> []"
      using W that remove1.simps(1) [of c] unfolding inv_wait_def
      by (metis fun_upd_apply)
  qed
  with C show "rt_core H (unlinked c rt)"
    by (simp add: rt_core_def unlinked_def hooked_status [OF x] split: option.splits)
  show "runnable (unlinked c rt) d = runnable rt d"
    by (simp add: unlinked_def hooked_status(1) [OF x] split: option.splits)
qed

lemma unlinked_simps [simp]:
  "rt_sleep (unlinked c rt) = rt_sleep rt" "rt_active (unlinked c rt) = rt_active rt"
  "rt_algo (unlinked c rt) = rt_algo rt" "rt_dispatcher (unlinked c rt) = rt_dispatcher rt"
  "rt_main (unlinked c rt) = rt_main rt" "rt_worker (unlinked c rt) = rt_worker rt"
  "rt_splk (unlinked c rt) = rt_splk rt" "rt_terminated (unlinked c rt) = rt_terminated rt"
  "rt_shutdown (unlinked c rt) = rt_shutdown rt"
  "hook_of (unlinked c rt) d = (if d = c then None else hook_of rt d)"
  by (auto simp: unlinked_def split: option.splits)

lemma rt_wait_unlinked:
  "hook_of rt c = Some q \<Longrightarrow> rt_wait (unlinked c rt) = (rt_wait rt)(q := remove1 c (rt_wait rt q))"
  "hook_of rt c = None \<Longrightarrow> rt_wait (unlinked c rt) = rt_wait rt"
  by (simp_all add: unlinked_def)

lemma linked_simps [simp]:
  "rt_sleep (linked c q rt) = rt_sleep rt" "rt_active (linked c q rt) = rt_active rt"
  "rt_algo (linked c q rt) = rt_algo rt" "rt_dispatcher (linked c q rt) = rt_dispatcher rt"
  "rt_main (linked c q rt) = rt_main rt" "rt_worker (linked c q rt) = rt_worker rt"
  "rt_wait (linked c q rt) = (rt_wait rt)(q := rt_wait rt q @ [c])"
  "rt_splk (linked c q rt) = rt_splk rt" "rt_terminated (linked c q rt) = rt_terminated rt"
  "rt_shutdown (linked c q rt) = rt_shutdown rt"
  "hook_of (linked c q rt) d = (if d = c then Some q else hook_of rt d)"
  by (simp_all add: linked_def)

lemma core_hook:
  assumes "rt_core H rt"
  shows "c \<in> set (rt_wait rt q) \<longleftrightarrow> hook_of rt c = Some q" and "distinct (rt_wait rt q)"
    and "hook_of rt c = Some q \<Longrightarrow> runnable rt c" and "hook_of rt c = Some q \<Longrightarrow> c \<noteq> rt_dispatcher rt"
  using assms by (auto simp: rt_core_def inv_wait_def)

lemma wait_pop_front_core:
  assumes C: "rt_core H rt" and q: "rt_wait rt q = c # cs"
  shows "wait_pop_front q rt = Some (c, unlinked c rt)" and "rt_core H (unlinked c rt)"
    and "runnable rt c" and "rt_wait (unlinked c rt) = (rt_wait rt)(q := cs)"
    and "hook_of rt c = Some q"
proof -
  show h: "hook_of rt c = Some q" using core_hook(1) [OF C, of c q] q by simp
  then show r: "runnable rt c" using core_hook(3) [OF C] by blast
  show "wait_pop_front q rt = Some (c, unlinked c rt)" "rt_core H (unlinked c rt)"
    using wait_unlink_core [OF C r] q by (simp_all add: wait_pop_front_def)
  show "rt_wait (unlinked c rt) = (rt_wait rt)(q := cs)"
    using rt_wait_unlinked(1) [OF h] q by simp
qed

lemma active_unlinked: "rt_core H rt \<Longrightarrow> runnable rt c \<Longrightarrow> active_ok (unlinked c rt) = active_ok rt"
  by (simp add: active_ok_def wait_unlink_core(3))

lemma active_linked:
  "rt_core H rt \<Longrightarrow> runnable rt c \<Longrightarrow> hook_of rt c = None \<Longrightarrow> active_ok (linked c q rt) = active_ok rt"
  by (cases "rt_context rt c") (auto simp: linked_def active_ok_def hooked_status runnable_context [of rt c])

subsection \<open>References\<close>

text \<open>A change that only touches contexts and the worker and terminated queues.\<close>

lemma core_cong:
  assumes "rt_core H rt" "rt_algo rt' = rt_algo rt" "rt_sleep rt' = rt_sleep rt"
    and "rt_wait rt' = rt_wait rt" "rt_dispatcher rt' = rt_dispatcher rt"
    and "\<And>d. runnable rt' d = runnable rt d" "\<And>d. hook_of rt' d = hook_of rt d"
    and tp: "\<And>d. d \<in> set (rt_sleep rt) \<Longrightarrow> tp_of rt' d = tp_of rt d"
    and "inv_pinned rt'" "inv_refs H' rt'"
  shows "rt_core H' rt'"
proof -
  have "sorted_wrt (\<lambda>c d. tp_of rt' c \<le> tp_of rt' d) (rt_sleep rt)"
    using assms(1) tp by (auto simp: rt_core_def inv_sleep_def elim!: sorted_wrt_mono_rel [rotated])
  then show ?thesis using assms by (simp add: rt_core_def inv_ready_def inv_sleep_def inv_wait_def)
qed

definition destroyed :: "ctx \<Rightarrow> runtime \<Rightarrow> runtime" where
  "destroyed c rt = rt\<lparr>rt_context := (rt_context rt)(c := None), rt_contexts := rt_contexts rt - 1,
     rt_worker := remove1 c (rt_worker rt), rt_terminated := remove1 c (rt_terminated rt)\<rparr>"

definition less_used :: "ctx \<Rightarrow> runtime \<Rightarrow> runtime" where
  "less_used c rt = set_context c (the (rt_context rt c)\<lparr>cx_use_count := 1\<rparr>) rt"

lemma not_runnable_idle:
  assumes C: "rt_core H rt" and n: "\<not> runnable rt c"
  shows "c \<notin> set (rqueue rt)" "c \<notin> set (rt_sleep rt)" "hook_of rt c = None"
    "rt_wait rt (Joiners c) = []"
  using assms by (auto simp: rt_core_def inv_ready_def inv_sleep_def inv_wait_def)

lemma destroy_context_eq:
  assumes "rt_core H rt" "\<not> runnable rt c"
  shows "destroy_context c rt = Some (destroyed c rt)"
  using not_runnable_idle [OF assms]
  by (simp add: destroy_context_def linked_defs destroyed_def wait_is_linked_def hook_of_def
      split: option.splits)

lemma refs_at:
  assumes "rt_core H rt" "rt_context rt c = Some x" "c \<noteq> rt_main rt" "c \<noteq> rt_dispatcher rt"
  shows "cx_use_count x = of_bool (c \<in> set (rt_worker rt)) + of_bool (c \<in> H)" "0 < cx_use_count x"
    "cx_scheduler x" "cx_terminated x \<longleftrightarrow> c \<notin> set (rt_worker rt) \<or> c \<in> set (rt_terminated rt)"
  using assms unfolding rt_core_def inv_refs_def ref_ok_def by blast+

lemma refs_dom:
  assumes "rt_core H rt" "c \<in> set (rt_worker rt) \<union> H"
  obtains x where "rt_context rt c = Some x" "c \<noteq> rt_main rt" "c \<noteq> rt_dispatcher rt"
  using assms unfolding rt_core_def inv_refs_def by blast

lemma terminated_worker:
  "rt_core H rt \<Longrightarrow> c \<in> set (rt_terminated rt) \<Longrightarrow> c \<in> set (rt_worker rt)"
  by (auto simp: rt_core_def inv_refs_def)

text \<open>The last reference goes.\<close>

lemma destroyed_core:
  assumes C: "rt_core H rt" and n: "\<not> runnable rt c" and x: "rt_context rt c = Some x"
    and p: "c \<noteq> rt_main rt" "c \<noteq> rt_dispatcher rt"
  shows "rt_core (H - {c}) (destroyed c rt)"
proof (rule core_cong [OF C])
  show "runnable (destroyed c rt) d = runnable rt d" for d
    using n by (auto simp: destroyed_def runnable_def)
  then show "inv_pinned (destroyed c rt)"
    using C unfolding rt_core_def inv_pinned_def by (simp add: destroyed_def)
  show "hook_of (destroyed c rt) d = hook_of rt d" for d
    using not_runnable_idle(3) [OF C n] by (auto simp: destroyed_def hook_of_def)
  show "tp_of (destroyed c rt) d = tp_of rt d" if "d \<in> set (rt_sleep rt)" for d
    using not_runnable_idle(2) [OF C n] that by (auto simp: destroyed_def tp_of_def)
  have F: "inv_refs H rt" using C by (simp add: rt_core_def)
  have w: "d \<in> set (remove1 c xs) \<longleftrightarrow> d \<in> set xs \<and> d \<noteq> c" if "distinct xs" for d and xs :: "ctx list"
    using that by auto
  have dm: "dom (rt_context (destroyed c rt)) = dom (rt_context rt) - {c}"
    by (simp add: destroyed_def)
  have "ref_ok (H - {c}) (remove1 c (rt_worker rt)) (remove1 c (rt_terminated rt)) d y"
    if "ref_ok H (rt_worker rt) (rt_terminated rt) d y" "d \<noteq> c" for d y
    using that F by (auto simp: ref_ok_def inv_refs_def)
  moreover have "card (dom (rt_context rt) - {c}) = rt_contexts rt - 1"
    using F x by (simp add: inv_refs_def card_Diff_singleton domI)
  moreover have "set (remove1 c (rt_terminated rt)) \<subseteq> set (remove1 c (rt_worker rt))"
    "set (remove1 c (rt_worker rt)) = set (rt_worker rt) - {c}"
    using F by (auto simp: inv_refs_def w)
  moreover have "disp_held (destroyed c rt) = disp_held rt"
    using p by (intro disp_held_cong) (simp_all add: destroyed_def)
  ultimately show "inv_refs (H - {c}) (destroyed c rt)"
    using F unfolding inv_refs_def dm by (auto simp: destroyed_def)
qed (simp_all add: destroyed_def)

lemma ref_ok_cong:
  "(d \<in> set w \<longleftrightarrow> d \<in> set w') \<Longrightarrow> (d \<in> set t \<longleftrightarrow> d \<in> set t') \<Longrightarrow> (d \<in> H \<longleftrightarrow> d \<in> H') \<Longrightarrow>
     ref_ok H w t d z = ref_ok H' w' t' d z"
  by (simp add: ref_ok_def)

text \<open>Another one remains.\<close>

lemma less_used_core:
  assumes C: "rt_core H rt" and c: "c \<in> set (rt_worker rt)" "c \<in> H"
  shows "rt_core (H - {c}) (less_used c rt)"
proof -
  obtain x where x: "rt_context rt c = Some x" and p: "c \<noteq> rt_main rt" "c \<noteq> rt_dispatcher rt"
    using refs_dom [OF C, of c] c by blast
  note r = refs_at [OF C x p]
  let ?y = "x\<lparr>cx_use_count := 1\<rparr>"
  have eq: "less_used c rt = set_context c ?y rt" using x by (simp add: less_used_def)
  have F: "inv_refs H rt" using C by (simp add: rt_core_def)
  show ?thesis unfolding eq
  proof (rule core_cong [OF C])
    show run: "runnable (set_context c ?y rt) d = runnable rt d" for d
      using x by (simp add: runnable_def)
    show "hook_of (set_context c ?y rt) d = hook_of rt d" for d using x by (simp add: hook_of_def)
    show "tp_of (set_context c ?y rt) d = tp_of rt d" for d using x by (simp add: tp_of_def)
    have "(\<forall>z. ((rt_context rt)(c \<mapsto> ?y)) d = Some z \<longrightarrow> cx_type z = t) =
        (\<forall>z. rt_context rt d = Some z \<longrightarrow> cx_type z = t)" for d t
      using x by (cases "d = c") simp_all
    then have "inv_pinned (set_context c ?y rt) = inv_pinned rt"
      by (simp only: inv_pinned_def run set_context_simps(1,5,6))
    with C show "inv_pinned (set_context c ?y rt)" by (simp add: rt_core_def)
    have dom: "dom ((rt_context rt)(c \<mapsto> ?y)) = dom (rt_context rt)" using x by auto
    have "ref_ok (H - {c}) (rt_worker rt) (rt_terminated rt) d z"
      if "((rt_context rt)(c \<mapsto> ?y)) d = Some z" "d \<noteq> rt_main rt" "d \<noteq> rt_dispatcher rt" for d z
    proof (cases "d = c")
      case True
      with that r c show ?thesis by (auto simp: ref_ok_def)
    next
      case False
      with that have "ref_ok H (rt_worker rt) (rt_terminated rt) d z"
        using F unfolding inv_refs_def by simp
      with False show ?thesis
        using ref_ok_cong [of d "rt_worker rt" "rt_worker rt" "rt_terminated rt" "rt_terminated rt"
            "H - {c}" H z] by simp
    qed
    moreover have "disp_held (set_context c ?y rt) = disp_held rt"
      using p by (intro disp_held_cong) simp_all
    ultimately show "inv_refs (H - {c}) (set_context c ?y rt)" using F
      unfolding inv_refs_def set_context_simps dom by blast
  qed simp_all
qed

definition handle_released :: "ctx \<Rightarrow> runtime \<Rightarrow> runtime" where
  "handle_released c rt = (if c \<in> set (rt_worker rt) then less_used c rt else destroyed c rt)"

text \<open>A fiber object lets go of its context.\<close>

lemma handle_release_core:
  assumes C: "rt_core H rt" and c: "c \<in> H"
  shows "intrusive_ptr_release c rt = Some (handle_released c rt)"
    and "rt_core (H - {c}) (handle_released c rt)"
    and "runnable (handle_released c rt) d = runnable rt d"
proof -
  obtain x where x: "rt_context rt c = Some x" and p: "c \<noteq> rt_main rt" "c \<noteq> rt_dispatcher rt"
    using refs_dom [OF C, of c] c by blast
  note r = refs_at [OF C x p]
  have n: "\<not> runnable rt c" if "c \<notin> set (rt_worker rt)"
    using r(4) x that by (simp add: runnable_def)
  show "intrusive_ptr_release c rt = Some (handle_released c rt)"
  proof (cases "c \<in> set (rt_worker rt)")
    case True
    then have "cx_use_count x = 2" using r(1) c by simp
    with True x show ?thesis
      by (simp add: intrusive_ptr_release_def handle_released_def less_used_def)
  next
    case False
    then have "cx_use_count x = 1" using r(1) c by simp
    with False x destroy_context_eq [OF C n] show ?thesis
      by (simp add: intrusive_ptr_release_def handle_released_def)
  qed
  show "rt_core (H - {c}) (handle_released c rt)"
    using less_used_core [OF C _ c] destroyed_core [OF C n x p] by (simp add: handle_released_def)
  show "runnable (handle_released c rt) d = runnable rt d"
    using n x by (auto simp: handle_released_def less_used_def destroyed_def runnable_def)
qed

lemma handle_released_simps [simp]:
  "rt_active (handle_released c rt) = rt_active rt" "rt_algo (handle_released c rt) = rt_algo rt"
  "rt_dispatcher (handle_released c rt) = rt_dispatcher rt"
  "rt_main (handle_released c rt) = rt_main rt" "rt_sleep (handle_released c rt) = rt_sleep rt"
  "rt_wait (handle_released c rt) = rt_wait rt" "rt_splk (handle_released c rt) = rt_splk rt"
  "rt_shutdown (handle_released c rt) = rt_shutdown rt"
  by (simp_all add: handle_released_def less_used_def destroyed_def)

lemma handle_release_inv:
  assumes "rt_inv H rt" "c \<in> H"
  shows "intrusive_ptr_release c rt = Some (handle_released c rt)"
    and "rt_inv (H - {c}) (handle_released c rt)"
  using assms handle_release_core [of H rt c] by (auto simp: rt_inv_def active_ok_def)

subsection \<open>Releasing terminated contexts\<close>

definition sched_released :: "ctx \<Rightarrow> runtime \<Rightarrow> runtime" where
  "sched_released c rt =
     (let rt' = rt\<lparr>rt_worker := remove1 c (rt_worker rt), rt_terminated := remove1 c (rt_terminated rt)\<rparr>
      in if cx_use_count (the (rt_context rt c)) = 1
         then destroyed c rt'
         else less_used c rt')"

lemma release_one_core:
  assumes C: "rt_core H rt" and c: "c \<in> set (rt_terminated rt)"
  shows "release_loop [c] rt = Some (sched_released c rt)"
    and "rt_core H (sched_released c rt)"
    and "runnable (sched_released c rt) d = runnable rt d"
proof -
  have w: "c \<in> set (rt_worker rt)" using terminated_worker [OF C c] .
  obtain x where x: "rt_context rt c = Some x" and p: "c \<noteq> rt_main rt" "c \<noteq> rt_dispatcher rt"
    using refs_dom [OF C, of c] w by blast
  note r = refs_at [OF C x p]
  have F: "inv_refs H rt" and P: "inv_pinned rt" using C by (auto simp: rt_core_def)
  have t: "cx_terminated x" using r(4) c by simp
  then have n: "\<not> runnable rt c" using x by (simp add: runnable_def)
  note idle = not_runnable_idle [OF C n]
  have dst: "distinct (rt_worker rt)" "distinct (rt_terminated rt)" using F by (auto simp: inv_refs_def)
  have ty: "cx_type x = worker_context" using P x p by (simp add: inv_pinned_def)
  have cnt: "cx_use_count x = 1 + of_bool (c \<in> H)" using r(1) w by simp
  let ?rt = "rt\<lparr>rt_worker := remove1 c (rt_worker rt), rt_terminated := remove1 c (rt_terminated rt)\<rparr>"
  have twice: "remove1 c (remove1 c (rt_worker rt)) = remove1 c (rt_worker rt)"
    "remove1 c (remove1 c (rt_terminated rt)) = remove1 c (rt_terminated rt)"
    using dst by (simp_all add: remove1_idem)
  have rl: "intrusive_ptr_release c ?rt = Some (sched_released c rt)"
  proof (cases "c \<in> H")
    case True
    then show ?thesis using x cnt
      by (simp add: intrusive_ptr_release_def sched_released_def less_used_def)
  next
    case False
    then show ?thesis using x cnt idle dst
      by (simp add: intrusive_ptr_release_def sched_released_def destroy_context_def linked_defs
          wait_is_linked_def hook_of_def destroyed_def)
  qed
  show "release_loop [c] rt = Some (sched_released c rt)"
    using x ty t idle rl by (simp add: linked_defs worker_unlink_def)
  have tc: "rt_context (sched_released c rt) =
      (rt_context rt)(c := if c \<in> H then Some (x\<lparr>cx_use_count := 1\<rparr>) else None)"
    using x cnt by (simp add: sched_released_def less_used_def destroyed_def Let_def)
  have sel: "rt_worker (sched_released c rt) = remove1 c (rt_worker rt)"
    "rt_terminated (sched_released c rt) = remove1 c (rt_terminated rt)"
    "rt_main (sched_released c rt) = rt_main rt"
    "rt_dispatcher (sched_released c rt) = rt_dispatcher rt"
    "rt_contexts (sched_released c rt) = (if c \<in> H then rt_contexts rt else rt_contexts rt - 1)"
    using x cnt twice by (simp_all add: sched_released_def less_used_def destroyed_def Let_def)
  show run: "runnable (sched_released c rt) d = runnable rt d" for d
    using n t by (simp add: runnable_def tc)
  show "rt_core H (sched_released c rt)"
  proof (rule core_cong [OF C])
    show "runnable (sched_released c rt) d = runnable rt d" for d by (rule run)
    show "hook_of (sched_released c rt) d = hook_of rt d" for d
      using idle(3) x by (simp add: hook_of_def tc)
    show "tp_of (sched_released c rt) d = tp_of rt d" if "d \<in> set (rt_sleep rt)" for d
      using idle(2) that by (auto simp: tp_of_def tc)
    show "inv_pinned (sched_released c rt)"
      using P p ty unfolding inv_pinned_def sel run by (simp add: tc)
    have dm: "dom (rt_context (sched_released c rt)) =
        (if c \<in> H then dom (rt_context rt) else dom (rt_context rt) - {c})"
      using x by (auto simp: tc)
    have crd: "card (dom (rt_context rt) - {c}) = rt_contexts rt - 1"
      using F x by (simp add: inv_refs_def card_Diff_singleton domI)
    have sets: "set (remove1 c (rt_worker rt)) = set (rt_worker rt) - {c}"
      "set (remove1 c (rt_terminated rt)) = set (rt_terminated rt) - {c}"
      using dst by simp_all
    have "ref_ok H (remove1 c (rt_worker rt)) (remove1 c (rt_terminated rt)) d z"
      if "rt_context (sched_released c rt) d = Some z" "d \<noteq> rt_main rt" "d \<noteq> rt_dispatcher rt" for d z
    proof (cases "d = c")
      case True
      with that t r(3) show ?thesis by (auto simp: ref_ok_def tc sets split: if_splits)
    next
      case False
      with that have "ref_ok H (rt_worker rt) (rt_terminated rt) d z"
        using F unfolding inv_refs_def by (simp add: tc)
      with False show ?thesis
        using ref_ok_cong [of d "remove1 c (rt_worker rt)" "rt_worker rt"
            "remove1 c (rt_terminated rt)" "rt_terminated rt" H H z] by (simp add: sets)
    qed
    moreover have "set (rt_worker rt) - {c} \<union> H \<subseteq>
        dom (rt_context (sched_released c rt)) - {rt_main rt, rt_dispatcher rt}"
      using F unfolding inv_refs_def dm by auto
    moreover have "set (rt_terminated rt) - {c} \<subseteq> set (rt_worker rt) - {c}"
      using F by (auto simp: inv_refs_def)
    moreover have "disp_held (sched_released c rt) = disp_held rt"
      using p by (intro disp_held_cong) (simp_all add: sel tc)
    ultimately show "inv_refs H (sched_released c rt)"
      using F crd dst unfolding inv_refs_def sel sets by (simp add: dm)
  qed (simp_all add: sched_released_def less_used_def destroyed_def Let_def)
qed

text \<open>What the turn of the dispatcher before its switch leaves alone.\<close>

definition frame :: "runtime \<Rightarrow> runtime \<Rightarrow> bool" where
  "frame rt rt' \<longleftrightarrow> rt_active rt' = rt_active rt \<and> rt_main rt' = rt_main rt \<and>
     rt_dispatcher rt' = rt_dispatcher rt \<and> rt_wait rt' = rt_wait rt \<and> rt_splk rt' = rt_splk rt \<and>
     rt_shutdown rt' = rt_shutdown rt \<and> (\<forall>d. runnable rt' d = runnable rt d)"

lemma release_loop_Cons:
  "release_loop (c # cs) rt = Option.bind (release_loop [c] rt) (release_loop cs)"
  by (simp add: bind_assoc Let_def)

lemma sched_released_frame:
  assumes "rt_core H rt" "c \<in> set (rt_terminated rt)"
  shows "frame rt (sched_released c rt)" "rt_algo (sched_released c rt) = rt_algo rt"
    "rt_sleep (sched_released c rt) = rt_sleep rt"
    "rt_terminated (sched_released c rt) = remove1 c (rt_terminated rt)"
    "rt_worker (sched_released c rt) = remove1 c (rt_worker rt)"
proof -
  have "distinct (rt_worker rt)" "distinct (rt_terminated rt)"
    using assms(1) by (auto simp: rt_core_def inv_refs_def)
  then have "remove1 c (remove1 c (rt_worker rt)) = remove1 c (rt_worker rt)"
    "remove1 c (remove1 c (rt_terminated rt)) = remove1 c (rt_terminated rt)"
    by (simp_all add: remove1_idem)
  then show "frame rt (sched_released c rt)" "rt_algo (sched_released c rt) = rt_algo rt"
    "rt_sleep (sched_released c rt) = rt_sleep rt"
    "rt_terminated (sched_released c rt) = remove1 c (rt_terminated rt)"
    "rt_worker (sched_released c rt) = remove1 c (rt_worker rt)"
    using release_one_core(3) [OF assms]
    by (auto simp: frame_def sched_released_def less_used_def destroyed_def Let_def)
qed

lemma sched_released_tp:
  assumes C: "rt_core H rt" and c: "c \<in> set (rt_terminated rt)" and d: "runnable rt d"
  shows "tp_of (sched_released c rt) d = tp_of rt d"
proof -
  obtain x where x: "rt_context rt c = Some x" "c \<noteq> rt_main rt" "c \<noteq> rt_dispatcher rt"
    using refs_dom [OF C, of c] terminated_worker [OF C c] by blast
  from refs_at(4) [OF C x] c x(1) d have "d \<noteq> c" by (auto simp: runnable_def)
  then show ?thesis
    by (simp add: sched_released_def less_used_def destroyed_def tp_of_def Let_def)
qed

lemma release_terminated_core:
  assumes "rt_core H rt"
  shows "\<exists>rt'. release_terminated rt = Some rt' \<and> rt_core H rt' \<and> frame rt rt' \<and>
    rt_algo rt' = rt_algo rt \<and> rt_sleep rt' = rt_sleep rt \<and> rt_terminated rt' = [] \<and>
    set (rt_worker rt') = set (rt_worker rt) - set (rt_terminated rt) \<and>
    (\<forall>d. runnable rt d \<longrightarrow> tp_of rt' d = tp_of rt d)"
proof -
  have "\<exists>rt'. release_loop cs rt = Some rt' \<and> rt_core H rt' \<and> frame rt rt' \<and>
      rt_algo rt' = rt_algo rt \<and> rt_sleep rt' = rt_sleep rt \<and> rt_terminated rt' = [] \<and>
      set (rt_worker rt') = set (rt_worker rt) - set cs \<and>
      (\<forall>d. runnable rt d \<longrightarrow> tp_of rt' d = tp_of rt d)"
    if "rt_terminated rt = cs" "rt_core H rt" for cs
    using that
  proof (induction cs arbitrary: rt)
    case Nil
    then show ?case by (simp add: frame_def)
  next
    case (Cons c cs)
    then have c: "c \<in> set (rt_terminated rt)" by simp
    note one = release_one_core [OF Cons.prems(2) c] and fr = sched_released_frame [OF Cons.prems(2) c]
    have "rt_terminated (sched_released c rt) = cs" using fr(4) Cons.prems(1) by simp
    from Cons.IH [OF this one(2)] obtain rt' where rt': "release_loop cs (sched_released c rt) = Some rt'"
      "rt_core H rt'" "frame (sched_released c rt) rt'" "rt_algo rt' = rt_algo (sched_released c rt)"
      "rt_sleep rt' = rt_sleep (sched_released c rt)" "rt_terminated rt' = []"
      "set (rt_worker rt') = set (rt_worker (sched_released c rt)) - set cs"
      "\<forall>d. runnable (sched_released c rt) d \<longrightarrow> tp_of rt' d = tp_of (sched_released c rt) d" by blast
    have tps: "\<forall>d. runnable rt d \<longrightarrow> tp_of rt' d = tp_of rt d"
      using rt'(8) one(3) sched_released_tp [OF Cons.prems(2) c] by simp
    have "distinct (rt_worker rt)" using Cons.prems(2) by (simp add: rt_core_def inv_refs_def)
    then have "set (rt_worker rt') = set (rt_worker rt) - set (c # cs)"
      unfolding rt'(7) fr(5) by auto
    moreover have "release_loop (c # cs) rt = Some rt'"
      using one(1) rt'(1) unfolding release_loop_Cons [of c cs] by simp
    moreover have "frame rt rt'" using fr(1) rt'(3) by (simp add: frame_def)
    moreover note tps rt'(2) rt'(6) rt'(4) [unfolded fr(2)] rt'(5) [unfolded fr(3)]
    ultimately show ?case by blast
  qed
  from this [OF refl assms] show ?thesis unfolding release_terminated_def by blast
qed

subsection \<open>Waking the sleepers\<close>

definition woken :: "ctx \<Rightarrow> runtime \<Rightarrow> runtime" where
  "woken c rt = (set_context c (the (rt_context rt c)\<lparr>cx_tp := TP_MAX\<rparr>) rt)
     \<lparr>rt_sleep := tl (rt_sleep rt), rt_algo := (rt_algo rt)\<lparr>rq_rqueue := rqueue rt @ [c]\<rparr>\<rparr>"

lemma woken_core:
  assumes C: "rt_core H rt" and s: "rt_sleep rt = c # cs"
  shows "rt_core H (woken c rt)" and "frame rt (woken c rt)"
    and "rqueue (woken c rt) = rqueue rt @ [c]" and "rt_sleep (woken c rt) = cs"
    and "\<And>d. d \<noteq> c \<Longrightarrow> tp_of (woken c rt) d = tp_of rt d"
    and "rt_terminated (woken c rt) = rt_terminated rt" "rt_worker (woken c rt) = rt_worker rt"
    and "rt_context rt c = Some x \<Longrightarrow> \<not> cx_terminated x \<and> cx_type x \<noteq> dispatcher_context"
    and "hook_of (woken c rt) d = hook_of rt d"
    and "rq_flag (rt_algo (woken c rt)) = rq_flag (rt_algo rt)"
proof -
  have S: "inv_sleep rt" and R: "inv_ready rt" and P: "inv_pinned rt" and W: "inv_wait rt"
    and F: "inv_refs H rt"
    using C by (auto simp: rt_core_def)
  have c: "runnable rt c" "c \<noteq> rt_dispatcher rt" "c \<notin> set (rqueue rt)" "c \<notin> set cs"
    using S s by (auto simp: inv_sleep_def)
  obtain y where y: "rt_context rt c = Some y" using c(1) by (auto simp: runnable_context)
  show "\<not> cx_terminated x \<and> cx_type x \<noteq> dispatcher_context" if "rt_context rt c = Some x"
    using that c(1,2) P by (auto simp: runnable_def inv_pinned_def)
  let ?y = "y\<lparr>cx_tp := TP_MAX\<rparr>"
  have st: "same_status y ?y" by (simp add: same_status_def)
  note s1 = set_context_status [OF y st]
  have eq: "woken c rt = (set_context c ?y rt)
      \<lparr>rt_sleep := cs, rt_algo := (rt_algo rt)\<lparr>rq_rqueue := rqueue rt @ [c]\<rparr>\<rparr>"
    using y s by (simp add: woken_def)
  have run: "runnable (woken c rt) d = runnable rt d" for d
    using s1(1) [of d] unfolding eq by (simp del: set_context_simps(13))
  show tp: "tp_of (woken c rt) d = tp_of rt d" if "d \<noteq> c" for d using that unfolding eq by simp
  show hook: "hook_of (woken c rt) d = hook_of rt d" for d using y unfolding eq by (simp add: hook_of_def)
  show "rqueue (woken c rt) = rqueue rt @ [c]" "rt_sleep (woken c rt) = cs"
    "rt_terminated (woken c rt) = rt_terminated rt" "rt_worker (woken c rt) = rt_worker rt"
    "rq_flag (rt_algo (woken c rt)) = rq_flag (rt_algo rt)"
    unfolding eq by simp_all
  show "frame rt (woken c rt)" using run unfolding frame_def by (simp add: eq)
  have "inv_ready (woken c rt)" using R c run unfolding inv_ready_def by (auto simp: eq)
  moreover have "inv_pinned (woken c rt)" "inv_refs H (woken c rt)"
    using s1(2,3) P F unfolding eq by (simp_all add: inv_pinned_def inv_refs_def)
  moreover have "inv_sleep (woken c rt)"
  proof -
    have "sorted_wrt (\<lambda>d e. tp_of rt d \<le> tp_of rt e) cs" using S s by (simp add: inv_sleep_def)
    moreover have "tp_of (woken c rt) d = tp_of rt d" if "d \<in> set cs" for d
      using that c(4) by (intro tp) auto
    ultimately have "sorted_wrt (\<lambda>d e. tp_of (woken c rt) d \<le> tp_of (woken c rt) e) cs"
      by (auto elim!: sorted_wrt_mono_rel [rotated])
    moreover have "rt_sleep (woken c rt) = cs" "rqueue (woken c rt) = rqueue rt @ [c]"
      "rt_dispatcher (woken c rt) = rt_dispatcher rt"
      by (simp_all add: eq)
    ultimately show ?thesis using S s c run by (auto simp: inv_sleep_def)
  qed
  moreover have "inv_wait (woken c rt)" using W run hook unfolding inv_wait_def by (simp add: eq)
  ultimately show "rt_core H (woken c rt)" by (simp add: rt_core_def)
qed

lemma sleep2ready_core:
  assumes "rt_core H rt"
  shows "\<exists>rt'. sleep2ready now rt = Some rt' \<and> rt_core H rt' \<and> frame rt rt' \<and>
    rqueue rt' = rqueue rt @ takeWhile (\<lambda>c. tp_of rt c \<le> now) (rt_sleep rt) \<and>
    rt_sleep rt' = dropWhile (\<lambda>c. tp_of rt c \<le> now) (rt_sleep rt) \<and>
    rt_terminated rt' = rt_terminated rt \<and> rt_worker rt' = rt_worker rt \<and>
    (\<forall>d \<in> set (rt_sleep rt'). tp_of rt' d = tp_of rt d) \<and> (\<forall>d. hook_of rt' d = hook_of rt d)"
proof -
  have "\<exists>rt'. sleep2ready_loop now cs rt = Some rt' \<and> rt_core H rt' \<and> frame rt rt' \<and>
      rqueue rt' = rqueue rt @ takeWhile (\<lambda>c. tp_of rt c \<le> now) cs \<and>
      rt_sleep rt' = dropWhile (\<lambda>c. tp_of rt c \<le> now) cs \<and>
      rt_terminated rt' = rt_terminated rt \<and> rt_worker rt' = rt_worker rt \<and>
      (\<forall>d \<in> set (rt_sleep rt'). tp_of rt' d = tp_of rt d) \<and> (\<forall>d. hook_of rt' d = hook_of rt d)"
    if "rt_sleep rt = cs" "rt_core H rt" for cs
    using that
  proof (induction cs arbitrary: rt)
    case Nil
    then show ?case by (simp add: frame_def)
  next
    case (Cons c cs)
    note w = woken_core [OF Cons.prems(2,1)]
    have c: "runnable rt c" "c \<notin> set (rqueue rt)" "c \<notin> set cs"
      using Cons.prems by (auto simp: rt_core_def inv_sleep_def)
    then obtain x where x: "rt_context rt c = Some x" by (auto simp: runnable_context)
    have pre: "ready_is_linked rt c = False" "sleep_is_linked rt c" "\<not> cx_terminated x"
      "cx_type x \<noteq> dispatcher_context" "tp_of rt c = cx_tp x"
      using c Cons.prems(1) w(8) [OF x] x by (auto simp: linked_defs tp_of_def)
    show ?case
    proof (cases "cx_tp x \<le> now")
      case False
      then show ?thesis using pre x Cons.prems by (simp add: frame_def)
    next
      case True
      have aw: "algo_awakened c (set_context c (x\<lparr>cx_tp := TP_MAX\<rparr>) (sleep_unlink c rt)) = Some (woken c rt)"
        using c(2) x Cons.prems(1)
        by (simp add: algo_awakened_def awakened_def sleep_unlink_def woken_def set_context_def)
      have step: "sleep2ready_loop now (c # cs) rt = sleep2ready_loop now cs (woken c rt)"
        using pre x True aw by simp
      have tps: "tp_of (woken c rt) d = tp_of rt d" if "d \<in> set cs" for d
        using that c(3) w(5) [of d] by auto
      then have tw: "takeWhile (\<lambda>c. tp_of (woken c' rt) c \<le> now) cs = takeWhile (\<lambda>c. tp_of rt c \<le> now) cs"
        "dropWhile (\<lambda>c. tp_of (woken c' rt) c \<le> now) cs = dropWhile (\<lambda>c. tp_of rt c \<le> now) cs"
        if "c' = c" for c'
        using that by (auto intro: takeWhile_cong dropWhile_cong)
      from Cons.IH [OF w(4,1)] tw [OF refl] obtain rt' where
        rt': "sleep2ready_loop now cs (woken c rt) = Some rt'" "rt_core H rt'" "frame (woken c rt) rt'"
        "rqueue rt' = rqueue (woken c rt) @ takeWhile (\<lambda>c. tp_of rt c \<le> now) cs"
        "rt_sleep rt' = dropWhile (\<lambda>c. tp_of rt c \<le> now) cs"
        "rt_terminated rt' = rt_terminated (woken c rt)" "rt_worker rt' = rt_worker (woken c rt)"
        "\<forall>d \<in> set (rt_sleep rt'). tp_of rt' d = tp_of (woken c rt) d"
        "\<forall>d. hook_of rt' d = hook_of (woken c rt) d" by auto
      have "\<forall>d \<in> set (rt_sleep rt'). tp_of rt' d = tp_of rt d"
        using rt'(5,8) tps by (auto dest: set_dropWhileD)
      moreover have "frame rt rt'" using w(2) rt'(3) by (simp add: frame_def)
      moreover have "\<forall>d. hook_of rt' d = hook_of rt d" using rt'(9) w(9) by simp
      ultimately show ?thesis
        using step rt'(1,2,4-7) w(3,6,7) True pre(5) by auto
    qed
  qed
  from this [OF refl assms] show ?thesis by (simp add: sleep2ready_def)
qed

subsection \<open>Termination\<close>

definition marked :: "ctx \<Rightarrow> runtime \<Rightarrow> runtime" where
  "marked c rt = set_context c (the (rt_context rt c)\<lparr>cx_terminated := True\<rparr>) rt"

lemma marked_simps [simp]:
  "rt_sleep (marked c rt) = rt_sleep rt" "rt_active (marked c rt) = rt_active rt"
  "rt_algo (marked c rt) = rt_algo rt" "rt_dispatcher (marked c rt) = rt_dispatcher rt"
  "rt_main (marked c rt) = rt_main rt" "rt_wait (marked c rt) = rt_wait rt"
  "rt_worker (marked c rt) = rt_worker rt" "rt_splk (marked c rt) = rt_splk rt"
  "rt_terminated (marked c rt) = rt_terminated rt" "rt_shutdown (marked c rt) = rt_shutdown rt"
  "rt_contexts (marked c rt) = rt_contexts rt"
  "d \<noteq> c \<Longrightarrow> rt_context (marked c rt) d = rt_context rt d"
  by (simp_all add: marked_def)

lemma marked_commutes:
  assumes "rt_context rt this = Some x" "c \<noteq> this"
  shows "unlinked c (marked this rt) = marked this (unlinked c rt)"
    and "made_ready c (marked this rt) = marked this (made_ready c rt)"
proof -
  have h: "hook_of (marked this rt) c = hook_of rt c" using assms(2) by (simp add: hook_of_def)
  show "unlinked c (marked this rt) = marked this (unlinked c rt)"
    using assms(2) h
    by (simp add: unlinked_def hooked_def marked_def set_context_def fun_upd_twist [of c this]
        split: option.split)
  show "made_ready c (marked this rt) = marked this (made_ready c rt)"
    by (simp add: made_ready_def marked_def set_context_def)
qed

lemma wake_joiners_core:
  assumes "rt_core H rt" "runnable rt this" "hook_of rt this = None"
    and "rt_wait rt (Joiners this) = cs" "length cs \<le> fuel"
  shows "\<exists>rt'. wake_joiners this fuel (marked this rt) = Some (marked this rt') \<and> rt_core H rt' \<and>
    rt_wait rt' = (rt_wait rt)(Joiners this := []) \<and>
    set (rqueue rt') = set (rqueue rt) \<union> set cs \<and> set (rt_sleep rt') = set (rt_sleep rt) - set cs \<and>
    rt_active rt' = rt_active rt \<and> rt_main rt' = rt_main rt \<and> rt_dispatcher rt' = rt_dispatcher rt \<and>
    rt_splk rt' = rt_splk rt \<and> rt_shutdown rt' = rt_shutdown rt \<and> rt_worker rt' = rt_worker rt \<and>
    rt_terminated rt' = rt_terminated rt \<and> (\<forall>d. runnable rt' d = runnable rt d) \<and>
    (\<forall>d. hook_of rt' d = (if d \<in> set cs then None else hook_of rt d)) \<and>
    (\<forall>d. tp_of rt' d = tp_of rt d)"
  using assms
proof (induction cs arbitrary: rt fuel)
  case Nil
  then show ?case
    by (intro exI [of _ rt]) (simp add: wake_joiners.simps [of this fuel] fun_upd_idem)
next
  case (Cons c cs)
  obtain k where k: "fuel = Suc k" "length cs \<le> k" using Cons.prems(5) by (cases fuel) auto
  obtain x where x: "rt_context rt this = Some x" using Cons.prems(2) by (auto simp: runnable_context)
  note pop = wait_pop_front_core [OF Cons.prems(1,4)]
  have ne: "c \<noteq> this" using pop(5) Cons.prems(3) by auto
  have dst: "c \<notin> set cs" using core_hook(2) [OF Cons.prems(1), of "Joiners this"] Cons.prems(4) by simp
  let ?u = "unlinked c rt"
  have run: "runnable ?u d = runnable rt d" for d using wait_unlink_core(3) [OF Cons.prems(1) pop(3)] .
  obtain y where y: "rt_context rt c = Some y" "cx_wait_hook y = Some (Joiners this)"
    using pop(3,5) by (auto simp: runnable_context hook_of_def)
  have p1: "wait_pop_front (Joiners this) (marked this rt) = Some (c, marked this ?u)"
    using Cons.prems(4) y ne x
    by (simp add: wait_pop_front_def wait_unlink_def unlinked_def hook_of_def hooked_def marked_def
        set_context_def fun_upd_twist [of c this])
  have rc: "runnable ?u c" "runnable ?u this" using run pop(3) Cons.prems(2) by auto
  have p2: "set_ready this c (marked this ?u) = Some (marked this (made_ready c ?u))"
  proof -
    have "rt_context ?u this = Some x"
      using ne x pop(5) by (simp add: unlinked_def hooked_def set_context_def)
    moreover have "distinct (rqueue ?u)" using pop(2) by (simp add: rt_core_def inv_ready_def)
    moreover have "\<not> is_terminated (marked this ?u) c" "has_scheduler (marked this ?u) c"
      using runnable_not_terminated [OF rc(1)] runnable_has_scheduler [OF rc(1)] ne
      by (simp_all add: is_terminated_def has_scheduler_def)
    moreover have "has_scheduler (marked this ?u) this"
      using runnable_has_scheduler [OF rc(2)]
      by (auto simp: has_scheduler_def marked_def split: option.splits)
    moreover have "remove1 c (rt_sleep ?u) = rt_sleep ?u" if "c \<notin> set (rt_sleep ?u)"
      using that by (rule remove1_idem)
    ultimately show ?thesis
      using ne by (simp add: set_ready_def sched_set_ready_def algo_awakened_def awakened_def
          ready_unlink_def sleep_unlink_def sleep_is_linked_def made_ready_def marked_def set_context_def)
  qed
  have core: "rt_core H (made_ready c ?u)" using core_made_ready [OF pop(2) rc(1)] .
  have w: "rt_wait (made_ready c ?u) (Joiners this) = cs" using pop(4) by simp
  have "runnable (made_ready c ?u) this" "hook_of (made_ready c ?u) this = None"
    using rc(2) Cons.prems(3) by auto
  from Cons.IH [OF core this w k(2)] obtain rt' where rt':
    "wake_joiners this k (marked this (made_ready c ?u)) = Some (marked this rt')" "rt_core H rt'"
    "rt_wait rt' = (rt_wait (made_ready c ?u))(Joiners this := [])"
    "set (rqueue rt') = set (rqueue (made_ready c ?u)) \<union> set cs"
    "set (rt_sleep rt') = set (rt_sleep (made_ready c ?u)) - set cs"
    "rt_active rt' = rt_active (made_ready c ?u)" "rt_main rt' = rt_main (made_ready c ?u)"
    "rt_dispatcher rt' = rt_dispatcher (made_ready c ?u)" "rt_splk rt' = rt_splk (made_ready c ?u)"
    "rt_shutdown rt' = rt_shutdown (made_ready c ?u)" "rt_worker rt' = rt_worker (made_ready c ?u)"
    "rt_terminated rt' = rt_terminated (made_ready c ?u)"
    "\<forall>d. runnable rt' d = runnable (made_ready c ?u) d"
    "\<forall>d. hook_of rt' d = (if d \<in> set cs then None else hook_of (made_ready c ?u) d)"
    "\<forall>d. tp_of rt' d = tp_of (made_ready c ?u) d"
    by blast
  have tps: "\<forall>d. tp_of rt' d = tp_of rt d"
    using rt'(15) y by (simp add: unlinked_def hooked_status(2) split: option.splits)
  have "wake_joiners this fuel (marked this rt) = Some (marked this rt')"
    unfolding k(1) wake_joiners.simps [of this "Suc k"] using Cons.prems(4) p1 p2 rt'(1) by simp
  moreover have "rt_wait rt' = (rt_wait rt)(Joiners this := [])" using rt'(3) pop(4) by simp
  moreover have "set (rqueue rt') = set (rqueue rt) \<union> set (c # cs)" using rt'(4) by auto
  moreover have "set (rt_sleep rt') = set (rt_sleep rt) - set (c # cs)"
    using rt'(5) Cons.prems(1) by (auto simp: rt_core_def inv_sleep_def)
  moreover have "\<forall>d. hook_of rt' d = (if d \<in> set (c # cs) then None else hook_of rt d)"
    using rt'(14) by auto
  ultimately show ?case
    using rt'(2) rt'(6-13) [unfolded made_ready_simps unlinked_simps run] tps by blast
qed

definition ended :: "ctx \<Rightarrow> runtime \<Rightarrow> runtime" where
  "ended c rt = (marked c rt)\<lparr>rt_terminated := rt_terminated rt @ [c]\<rparr>"

lemma ended_simps [simp]:
  "rt_sleep (ended c rt) = rt_sleep rt" "rt_active (ended c rt) = rt_active rt"
  "rt_algo (ended c rt) = rt_algo rt" "rt_dispatcher (ended c rt) = rt_dispatcher rt"
  "rt_main (ended c rt) = rt_main rt" "rt_wait (ended c rt) = rt_wait rt"
  "rt_worker (ended c rt) = rt_worker rt" "rt_splk (ended c rt) = rt_splk rt"
  "rt_terminated (ended c rt) = rt_terminated rt @ [c]" "rt_shutdown (ended c rt) = rt_shutdown rt"
  "rt_contexts (ended c rt) = rt_contexts rt"
  by (simp_all add: ended_def)

lemma worker_facts:
  assumes C: "rt_core H rt" and r: "runnable rt c" and p: "c \<noteq> rt_main rt" "c \<noteq> rt_dispatcher rt"
  obtains x where "rt_context rt c = Some x" "cx_type x = worker_context" "\<not> cx_terminated x"
    "c \<in> set (rt_worker rt)" "c \<notin> set (rt_terminated rt)"
proof -
  from r obtain x where x: "rt_context rt c = Some x" "\<not> cx_terminated x"
    by (auto simp: runnable_context)
  moreover have "cx_type x = worker_context" using C x p by (simp add: rt_core_def inv_pinned_def)
  ultimately show ?thesis using that refs_at(4) [OF C x(1) p] by blast
qed

lemma ended_core:
  assumes C: "rt_core H rt" and r: "runnable rt c" and p: "c \<noteq> rt_main rt" "c \<noteq> rt_dispatcher rt"
    and idle: "c \<notin> set (rqueue rt)" "c \<notin> set (rt_sleep rt)" "hook_of rt c = None"
      "rt_wait rt (Joiners c) = []"
  shows "rt_core H (ended c rt)" and "runnable (ended c rt) d \<longleftrightarrow> runnable rt d \<and> d \<noteq> c"
    and "hook_of (ended c rt) d = hook_of rt d" and "tp_of (ended c rt) d = tp_of rt d"
proof -
  obtain x where x: "rt_context rt c = Some x" "cx_type x = worker_context" "\<not> cx_terminated x"
    and w: "c \<in> set (rt_worker rt)" "c \<notin> set (rt_terminated rt)"
    using worker_facts [OF C r p] by blast
  note ref = refs_at [OF C x(1) p]
  have R: "inv_ready rt" and S: "inv_sleep rt" and P: "inv_pinned rt" and W: "inv_wait rt"
    and F: "inv_refs H rt"
    using C by (auto simp: rt_core_def)
  have ctx: "rt_context (ended c rt) = (rt_context rt)(c \<mapsto> x\<lparr>cx_terminated := True\<rparr>)"
    using x(1) by (simp add: ended_def marked_def)
  show run: "runnable (ended c rt) d \<longleftrightarrow> runnable rt d \<and> d \<noteq> c" for d
    by (simp add: runnable_def ctx)
  show hook: "hook_of (ended c rt) d = hook_of rt d" for d using x by (simp add: hook_of_def ctx)
  show tp: "tp_of (ended c rt) d = tp_of rt d" for d using x by (simp add: tp_of_def ctx)
  have "inv_ready (ended c rt)" using R idle run by (auto simp: inv_ready_def)
  moreover have "inv_sleep (ended c rt)" using S idle run tp by (auto simp: inv_sleep_def)
  moreover have "inv_wait (ended c rt)"
    using W idle run hook unfolding inv_wait_def ended_simps by metis
  moreover have "inv_pinned (ended c rt)"
    using P p x unfolding inv_pinned_def ended_simps run by (simp add: ctx)
  moreover have "inv_refs H (ended c rt)"
  proof -
    have dom: "dom (rt_context (ended c rt)) = dom (rt_context rt)" using x by (auto simp: ctx)
    have "ref_ok H (rt_worker rt) (rt_terminated rt @ [c]) d z"
      if "rt_context (ended c rt) d = Some z" "d \<noteq> rt_main rt" "d \<noteq> rt_dispatcher rt" for d z
    proof (cases "d = c")
      case True
      with that ref w show ?thesis by (auto simp: ref_ok_def ctx)
    next
      case False
      with that have "ref_ok H (rt_worker rt) (rt_terminated rt) d z"
        using F unfolding inv_refs_def by (simp add: ctx)
      with False show ?thesis
        using ref_ok_cong [of d "rt_worker rt" "rt_worker rt" "rt_terminated rt @ [c]"
            "rt_terminated rt" H H z] by simp
    qed
    moreover have "disp_held (ended c rt) = disp_held rt"
      using p by (intro disp_held_cong) (simp_all add: ctx)
    ultimately show ?thesis using F w unfolding inv_refs_def ended_simps dom
      by (simp add: ended_def marked_def)
  qed
  ultimately show "rt_core H (ended c rt)" by (simp add: rt_core_def)
qed

lemma set_terminated_inv:
  assumes inv: "rt_inv H rt" and p: "rt_active rt \<noteq> rt_main rt" "rt_active rt \<noteq> rt_dispatcher rt"
    and h: "hook_of rt (rt_active rt) = None"
  shows "\<exists>rt'. set_terminated rt = Some rt' \<and> rt_inv H rt' \<and>
    rt_wait rt' = (rt_wait rt)(Joiners (rt_active rt) := []) \<and>
    insert (rt_active rt') (set (rqueue rt')) =
      set (rqueue rt) \<union> set (rt_wait rt (Joiners (rt_active rt))) \<and>
    rt_terminated rt' = rt_terminated rt @ [rt_active rt] \<and> rt_worker rt' = rt_worker rt \<and>
    rt_main rt' = rt_main rt \<and> rt_dispatcher rt' = rt_dispatcher rt \<and>
    rt_shutdown rt' = rt_shutdown rt \<and> rt_splk rt' = rt_splk rt \<and>
    set (rt_sleep rt') = set (rt_sleep rt) - set (rt_wait rt (Joiners (rt_active rt))) \<and>
    (\<forall>d. runnable rt' d \<longleftrightarrow> runnable rt d \<and> d \<noteq> rt_active rt) \<and>
    (\<forall>d. hook_of rt' d = (if d \<in> set (rt_wait rt (Joiners (rt_active rt))) then None else hook_of rt d)) \<and>
    (\<forall>d. tp_of rt' d = tp_of rt d)"
proof -
  let ?a = "rt_active rt" and ?js = "rt_wait rt (Joiners (rt_active rt))"
  have C: "rt_core H rt" and A: "active_ok rt" and r: "runnable rt ?a"
    using inv by (auto simp: rt_inv_def active_ok_def)
  obtain x where x: "rt_context rt ?a = Some x" "cx_type x = worker_context"
    using worker_facts [OF C r p] by blast
  obtain rt1 where rt1: "wake_joiners ?a (length ?js) (marked ?a rt) = Some (marked ?a rt1)"
    "rt_core H rt1" "rt_wait rt1 = (rt_wait rt)(Joiners ?a := [])"
    "set (rqueue rt1) = set (rqueue rt) \<union> set ?js" "set (rt_sleep rt1) = set (rt_sleep rt) - set ?js"
    "rt_active rt1 = ?a" "rt_main rt1 = rt_main rt" "rt_dispatcher rt1 = rt_dispatcher rt"
    "rt_splk rt1 = rt_splk rt" "rt_shutdown rt1 = rt_shutdown rt" "rt_worker rt1 = rt_worker rt"
    "rt_terminated rt1 = rt_terminated rt" "\<forall>d. runnable rt1 d = runnable rt d"
    "\<forall>d. hook_of rt1 d = (if d \<in> set ?js then None else hook_of rt d)"
    "\<forall>d. tp_of rt1 d = tp_of rt d"
    using wake_joiners_core [OF C r h refl order.refl] by blast
  have "?a \<notin> set ?js" using core_hook(1) [OF C, of ?a "Joiners ?a"] h by simp
  then have idle: "?a \<notin> set (rqueue rt1)" "?a \<notin> set (rt_sleep rt1)" "hook_of rt1 ?a = None"
    "rt_wait rt1 (Joiners ?a) = []" "runnable rt1 ?a" "?a \<noteq> rt_main rt1" "?a \<noteq> rt_dispatcher rt1"
    using A p h r rt1(3-8,13,14) by (auto simp: active_ok_def)
  note e = ended_core [OF rt1(2) idle(5-7) idle(1-4)]
  let ?e = "ended ?a rt1"
  have ne: "rqueue ?e \<noteq> []" and d: "rt_dispatcher ?e \<in> set (rqueue ?e)"
    using A p rt1(4,8) by (auto simp: active_ok_def)
  have sus: "suspend ?e = Some (switched ?e)" using suspend_eq(1) [OF e(1) ne] .
  from idle(5) obtain y where y: "rt_context rt1 ?a = Some y" by (auto simp: runnable_context)
  moreover have "cx_type y = worker_context"
    using rt1(2) y idle(6,7) by (simp add: rt_core_def inv_pinned_def)
  ultimately have chk: "sched_set_terminated ?a (marked ?a rt1) = suspend ?e"
    using idle by (simp add: sched_set_terminated_def marked_def linked_defs wait_is_linked_def
        hook_of_def ended_def suspend_def suspend_with_cc_def resume_def)
  have "set_terminated rt = Some (switched ?e)"
    using x(1) rt1(1) chk sus by (simp add: set_terminated_def marked_def Let_def)
  moreover have "rt_inv H (switched ?e)" by (rule inv_switched [OF e(1) d])
  moreover have "insert (hd (rqueue ?e)) (set (tl (rqueue ?e))) = set (rqueue rt1)"
    using ne by (cases "rqueue ?e") auto
  ultimately show ?thesis using rt1(3-15) e(2-4)
    by (intro exI [of _ "switched ?e"]) simp
qed

subsection \<open>A new fiber\<close>

definition attached :: "launch \<Rightarrow> ctx \<Rightarrow> runtime \<Rightarrow> runtime" where
  "attached policy c rt = (set_context c \<lparr>cx_use_count = 2, cx_terminated = False,
     cx_type = worker_context, cx_scheduler = True, cx_policy = policy, cx_tp = TP_MAX,
     cx_wait_hook = None\<rparr> rt)\<lparr>rt_contexts := rt_contexts rt + 1, rt_worker := rt_worker rt @ [c]\<rparr>"

lemma attached_simps [simp]:
  "rt_sleep (attached policy c rt) = rt_sleep rt" "rt_active (attached policy c rt) = rt_active rt"
  "rt_algo (attached policy c rt) = rt_algo rt" "rt_main (attached policy c rt) = rt_main rt"
  "rt_dispatcher (attached policy c rt) = rt_dispatcher rt"
  "rt_wait (attached policy c rt) = rt_wait rt" "rt_splk (attached policy c rt) = rt_splk rt"
  "rt_worker (attached policy c rt) = rt_worker rt @ [c]"
  "rt_terminated (attached policy c rt) = rt_terminated rt"
  "rt_shutdown (attached policy c rt) = rt_shutdown rt"
  by (simp_all add: attached_def)

lemma attached_core:
  assumes C: "rt_core H rt" and new: "rt_context rt c = None"
  shows "rt_core (insert c H) (attached policy c rt)"
    and "runnable (attached policy c rt) d \<longleftrightarrow> d = c \<or> runnable rt d"
    and "hook_of (attached policy c rt) d = hook_of rt d"
proof -
  have R: "inv_ready rt" and S: "inv_sleep rt" and P: "inv_pinned rt" and W: "inv_wait rt"
    and F: "inv_refs H rt"
    using C by (auto simp: rt_core_def)
  have n: "\<not> runnable rt c" using new by (simp add: runnable_def)
  note idle = not_runnable_idle [OF C n]
  have p: "c \<noteq> rt_main rt" "c \<noteq> rt_dispatcher rt"
    using P n by (auto simp: inv_pinned_def)
  define x where "x = \<lparr>cx_use_count = 2, cx_terminated = False, cx_type = worker_context,
     cx_scheduler = True, cx_policy = policy, cx_tp = TP_MAX, cx_wait_hook = None\<rparr>"
  then have x: "rt_context (attached policy c rt) = (rt_context rt)(c \<mapsto> x)"
    "cx_use_count x = 2" "\<not> cx_terminated x" "cx_type x = worker_context" "cx_scheduler x"
    "cx_wait_hook x = None"
    by (simp_all add: attached_def)
  show run: "runnable (attached policy c rt) d \<longleftrightarrow> d = c \<or> runnable rt d" for d
    using x by (simp add: runnable_def)
  show hook: "hook_of (attached policy c rt) d = hook_of rt d" for d
    using x new by (simp add: hook_of_def)
  have tp: "tp_of (attached policy c rt) d = tp_of rt d" if "d \<noteq> c" for d
    using that x by (simp add: tp_of_def)
  have "inv_ready (attached policy c rt)" using R run by (simp add: inv_ready_def)
  moreover have "inv_sleep (attached policy c rt)"
  proof -
    have "tp_of (attached policy c rt) d = tp_of rt d" if "d \<in> set (rt_sleep rt)" for d
      using idle(2) that by (intro tp) auto
    then have "sorted_wrt (\<lambda>d e. tp_of (attached policy c rt) d \<le> tp_of (attached policy c rt) e) (rt_sleep rt)"
      using S by (auto simp: inv_sleep_def elim!: sorted_wrt_mono_rel [rotated])
    then show ?thesis using S run by (simp add: inv_sleep_def)
  qed
  moreover have "inv_wait (attached policy c rt)"
    using W run hook unfolding inv_wait_def attached_simps by metis
  moreover have "inv_pinned (attached policy c rt)"
    using P p x unfolding inv_pinned_def attached_simps run by simp
  moreover have "inv_refs (insert c H) (attached policy c rt)"
  proof -
    have new': "c \<notin> set (rt_worker rt)" "c \<notin> set (rt_terminated rt)" "c \<notin> H"
      using F new by (auto simp: inv_refs_def)
    have dom: "dom (rt_context (attached policy c rt)) = insert c (dom (rt_context rt))"
      by (simp add: x)
    have crd: "card (insert c (dom (rt_context rt))) = rt_contexts rt + 1"
      using F new by (simp add: inv_refs_def domIff)
    have "ref_ok (insert c H) (rt_worker rt @ [c]) (rt_terminated rt) d z"
      if "rt_context (attached policy c rt) d = Some z" "d \<noteq> rt_main rt" "d \<noteq> rt_dispatcher rt" for d z
    proof (cases "d = c")
      case True
      with that x new' show ?thesis by (auto simp: ref_ok_def)
    next
      case False
      with that have "ref_ok H (rt_worker rt) (rt_terminated rt) d z"
        using F x unfolding inv_refs_def by simp
      with False show ?thesis
        using ref_ok_cong [of d "rt_worker rt @ [c]" "rt_worker rt" "rt_terminated rt"
            "rt_terminated rt" "insert c H" H z] by simp
    qed
    moreover have "rt_contexts (attached policy c rt) = rt_contexts rt + 1" by (simp add: attached_def)
    moreover have "disp_held (attached policy c rt) = disp_held rt"
      using p by (intro disp_held_cong) (simp_all add: x)
    ultimately show ?thesis using F p new' crd unfolding inv_refs_def attached_simps dom by auto
  qed
  ultimately show "rt_core (insert c H) (attached policy c rt)" by (simp add: rt_core_def)
qed

lemma attach_eq:
  assumes C: "rt_core H rt" and new: "rt_context rt c = None"
  shows "Option.bind (make_worker_context policy c rt) (attach_worker_context c) =
    Some (attached policy c rt)"
proof -
  have "\<not> runnable rt c" using new by (simp add: runnable_def)
  from not_runnable_idle [OF C this] have "c \<notin> set (rqueue rt)" "c \<notin> set (rt_sleep rt)" by auto
  moreover have "c \<notin> set (rt_worker rt)" "c \<notin> set (rt_terminated rt)"
    using C new by (auto simp: rt_core_def inv_refs_def)
  ultimately show ?thesis using new
    by (simp add: make_worker_context_def attach_worker_context_def linked_defs wait_is_linked_def
        attached_def set_context_def)
qed

lemma fiber_new_inv:
  assumes inv: "rt_inv H rt" and new: "rt_context rt c = None"
  shows "fiber_new launch_post c rt = Some (made_ready c (attached launch_post c rt))"
    and "rt_inv (insert c H) (made_ready c (attached launch_post c rt))"
    and "fiber_new launch_dispatch c rt =
      Some (made_ready (rt_active rt) ((attached launch_dispatch c rt)\<lparr>rt_active := c\<rparr>))"
    and "rt_inv (insert c H) (made_ready (rt_active rt) ((attached launch_dispatch c rt)\<lparr>rt_active := c\<rparr>))"
proof -
  have C: "rt_core H rt" and A: "active_ok rt" using inv by (auto simp: rt_inv_def)
  have n: "\<not> runnable rt c" using new by (simp add: runnable_def)
  note idle = not_runnable_idle [OF C n]
  have ac: "c \<noteq> rt_active rt" using A n by (auto simp: active_ok_def)
  note at = attached_core [OF C new]
  have pol: "\<exists>x. rt_context (attached policy c rt) c = Some x \<and> cx_policy x = policy" for policy
    by (simp add: attached_def)
  have inv': "rt_inv (insert c H) (attached policy c rt)" for policy
    using at A by (simp add: rt_inv_def active_ok_def)
  have st: "fiber_new policy c rt = (case policy of
      launch_post \<Rightarrow> sched_set_ready c (attached policy c rt)
    | launch_dispatch \<Rightarrow> resume_ready c (rt_active rt) (attached policy c rt))" for policy
  proof -
    obtain m where m: "make_worker_context policy c rt = Some m"
      using new by (simp add: make_worker_context_def)
    with attach_eq [OF C new, of policy] have "attach_worker_context c m = Some (attached policy c rt)"
      by simp
    with m pol [of policy] show ?thesis
      by (auto simp: fiber_new_def fiber_start_def split: launch.split)
  qed
  show "fiber_new launch_post c rt = Some (made_ready c (attached launch_post c rt))"
    using sched_set_ready_eq [OF at(1)] at(2) by (simp add: st)
  show "rt_inv (insert c H) (made_ready c (attached launch_post c rt))"
    by (rule inv_made_ready [OF inv']) (use at(2) ac in auto)
  have r: "runnable (attached launch_dispatch c rt) c"
    "runnable (attached launch_dispatch c rt) (rt_active rt)"
    using at(2) A by (auto simp: active_ok_def)
  show "fiber_new launch_dispatch c rt =
      Some (made_ready (rt_active rt) ((attached launch_dispatch c rt)\<lparr>rt_active := c\<rparr>))"
    using resume_ready_eq [OF at(1) r] idle by (simp add: st)
  show "rt_inv (insert c H)
      (made_ready (rt_active rt) ((attached launch_dispatch c rt)\<lparr>rt_active := c\<rparr>))"
    by (rule resume_ready_inv [OF at(1) r]) (use idle ac A in \<open>auto simp: active_ok_def\<close>)
qed

subsection \<open>The dispatcher\<close>

lemma frame_trans: "frame a b \<Longrightarrow> frame b c \<Longrightarrow> frame a c"
  by (simp add: frame_def)

lemma hook_from_wait:
  assumes "rt_core H rt" "rt_core H' rt'" "rt_wait rt' = rt_wait rt"
  shows "hook_of rt' d = hook_of rt d"
proof (cases "hook_of rt d")
  case None
  then show ?thesis using assms core_hook(1) [of H rt d] core_hook(1) [of H' rt' d]
    by (cases "hook_of rt' d") auto
next
  case (Some q)
  then show ?thesis using assms core_hook(1) [of H rt d q] core_hook(1) [of H' rt' d q] by simp
qed

definition expired :: "time_point \<Rightarrow> runtime \<Rightarrow> ctx list" where
  "expired now rt = takeWhile (\<lambda>c. tp_of rt c \<le> now) (rt_sleep rt)"

definition asleep :: "time_point \<Rightarrow> runtime \<Rightarrow> ctx list" where
  "asleep now rt = dropWhile (\<lambda>c. tp_of rt c \<le> now) (rt_sleep rt)"

lemma core_notify: "rt_core H (rt\<lparr>rt_algo := notify (rt_algo rt)\<rparr>) = rt_core H rt"
  by (simp add: notify_def rt_core_def inv_pinned_def inv_ready_def inv_sleep_def inv_wait_def
      inv_refs_def)

lemma core_flag:
  "rt_core H (rt\<lparr>rt_algo := (rt_algo rt)\<lparr>rq_flag := b\<rparr>\<rparr>) = rt_core H rt"
  by (simp add: rt_core_def inv_pinned_def inv_ready_def inv_sleep_def inv_wait_def inv_refs_def)

lemma release_and_wake:
  assumes C: "rt_core H rt"
  obtains r1 r2 where "release_terminated rt = Some r1" "sleep2ready now r1 = Some r2" "rt_core H r2"
    "frame rt r2" "rqueue r2 = rqueue rt @ expired now rt" "rt_sleep r2 = asleep now rt"
    "rt_terminated r2 = []" "set (rt_worker r2) = set (rt_worker rt) - set (rt_terminated rt)"
    "\<forall>d \<in> set (rt_sleep r2). tp_of r2 d = tp_of rt d" "\<forall>d. hook_of r2 d = hook_of rt d"
proof -
  from release_terminated_core [OF C] obtain r1 where r1: "release_terminated rt = Some r1"
    "rt_core H r1" "frame rt r1" "rt_algo r1 = rt_algo rt" "rt_sleep r1 = rt_sleep rt"
    "rt_terminated r1 = []" "set (rt_worker r1) = set (rt_worker rt) - set (rt_terminated rt)"
    "\<forall>d. runnable rt d \<longrightarrow> tp_of r1 d = tp_of rt d" by blast
  from sleep2ready_core [OF r1(2), of now] obtain r2 where r2: "sleep2ready now r1 = Some r2"
    "rt_core H r2" "frame r1 r2"
    "rqueue r2 = rqueue r1 @ takeWhile (\<lambda>c. tp_of r1 c \<le> now) (rt_sleep r1)"
    "rt_sleep r2 = dropWhile (\<lambda>c. tp_of r1 c \<le> now) (rt_sleep r1)"
    "rt_terminated r2 = rt_terminated r1" "rt_worker r2 = rt_worker r1"
    "\<forall>d \<in> set (rt_sleep r2). tp_of r2 d = tp_of r1 d" by blast
  have tps: "tp_of r1 d = tp_of rt d" if "d \<in> set (rt_sleep rt)" for d
    using r1(8) C that by (auto simp: rt_core_def inv_sleep_def)
  then have tw: "takeWhile (\<lambda>c. tp_of r1 c \<le> now) (rt_sleep rt) = expired now rt"
    "dropWhile (\<lambda>c. tp_of r1 c \<le> now) (rt_sleep rt) = asleep now rt"
    by (auto simp: expired_def asleep_def intro!: takeWhile_cong dropWhile_cong)
  have fr: "frame rt r2" using frame_trans [OF r1(3) r2(3)] .
  then have "rt_wait r2 = rt_wait rt" by (simp add: frame_def)
  then have "\<forall>d. hook_of r2 d = hook_of rt d" using hook_from_wait [OF C r2(2)] by blast
  moreover have "\<forall>d \<in> set (rt_sleep r2). tp_of r2 d = tp_of rt d"
    using r2(5,8) r1(5) tps by (auto dest: set_dropWhileD)
  ultimately show ?thesis
    using that [OF r1(1) r2(1,2) fr] r2(4-7) r1(4-7) tw by simp
qed

text \<open>What a turn leaves, \<open>q\<close> being the ready-queue with the sleepers whose time has come.\<close>

definition turned :: "time_point \<Rightarrow> runtime \<Rightarrow> runtime \<Rightarrow> bool" where
  "turned now rt rt' \<longleftrightarrow>
     (case rqueue rt @ expired now rt of
        [] \<Rightarrow> rt_active rt' = rt_dispatcher rt \<and> rqueue rt' = []
      | n # rest \<Rightarrow> rt_active rt' = n \<and> rqueue rt' = rest @ [rt_dispatcher rt]) \<and>
     rt_sleep rt' = asleep now rt \<and> rt_terminated rt' = [] \<and>
     set (rt_worker rt') = set (rt_worker rt) - set (rt_terminated rt) \<and>
     rt_main rt' = rt_main rt \<and> rt_dispatcher rt' = rt_dispatcher rt \<and> rt_wait rt' = rt_wait rt \<and>
     rt_splk rt' = rt_splk rt \<and> rt_shutdown rt' = rt_shutdown rt \<and>
     (\<forall>d. runnable rt' d = runnable rt d) \<and> (\<forall>d. hook_of rt' d = hook_of rt d) \<and>
     (\<forall>d \<in> set (rt_sleep rt'). tp_of rt' d = tp_of rt d)"

lemma dispatch_inv:
  assumes inv: "rt_inv H rt" and a: "rt_active rt = rt_dispatcher rt"
    and go: "\<not> (rt_shutdown rt \<and> rt_worker rt = [])"
  shows "\<exists>rt'. dispatch now rt = Some rt' \<and> rt_inv H rt' \<and> turned now rt rt'"
proof -
  let ?d = "rt_dispatcher rt"
  define r0 where "r0 = (if rt_shutdown rt then rt\<lparr>rt_algo := notify (rt_algo rt)\<rparr> else rt)"
  have C: "rt_core H rt" and A: "active_ok rt" using inv by (auto simp: rt_inv_def)
  have C0: "rt_core H r0" using C by (simp add: r0_def core_notify)
  have f0: "rqueue r0 = rqueue rt" "rt_sleep r0 = rt_sleep rt" "rt_terminated r0 = rt_terminated rt"
    "rt_worker r0 = rt_worker rt" "rt_active r0 = ?d" "rt_main r0 = rt_main rt"
    "rt_dispatcher r0 = ?d" "rt_wait r0 = rt_wait rt" "rt_splk r0 = rt_splk rt"
    "rt_shutdown r0 = rt_shutdown rt" "expired now r0 = expired now rt" "asleep now r0 = asleep now rt"
    "\<And>d. runnable r0 d = runnable rt d" "\<And>d. hook_of r0 d = hook_of rt d"
    "\<And>d. tp_of r0 d = tp_of rt d"
    using a by (simp_all add: r0_def notify_def expired_def asleep_def)
  obtain r1 r2 where r: "release_terminated r0 = Some r1" "sleep2ready now r1 = Some r2" "rt_core H r2"
    "frame r0 r2" "rqueue r2 = rqueue rt @ expired now rt" "rt_sleep r2 = asleep now rt"
    "rt_terminated r2 = []" "set (rt_worker r2) = set (rt_worker rt) - set (rt_terminated rt)"
    "\<forall>d \<in> set (rt_sleep r2). tp_of r2 d = tp_of rt d" "\<forall>d. hook_of r2 d = hook_of rt d"
    using release_and_wake [OF C0, of now] unfolding f0 by metis
  have fr: "rt_active r2 = ?d" "rt_main r2 = rt_main rt" "rt_dispatcher r2 = ?d"
    "rt_wait r2 = rt_wait rt" "rt_splk r2 = rt_splk rt" "rt_shutdown r2 = rt_shutdown rt"
    "\<forall>d. runnable r2 d = runnable rt d"
    using r(4) f0 by (simp_all add: frame_def)
  have dis: "dispatch now rt =
      (case get_next r2 of
         (Some c, r3) \<Rightarrow> resume_ready c ?d r3
       | (None, r3) \<Rightarrow>
           (case suspend_until (case rt_sleep r3 of [] \<Rightarrow> TP_MAX | i # _ \<Rightarrow> tp_of r3 i) now (rt_algo r3) of
              Some g \<Rightarrow> Some (r3\<lparr>rt_algo := g\<rparr>) | None \<Rightarrow> Some r3))"
  proof -
    have "rt_dispatcher (snd (get_next r2)) = ?d" using fr(3)
      by (simp add: get_next_def split: prod.split)
    then show ?thesis
      using a go r(1,2) unfolding dispatch_def r0_def [symmetric] Let_def
      by (auto simp: f0 split: prod.split option.split)
  qed
  have dis_not: "?d \<notin> set (rqueue r2)" "?d \<notin> set (rt_sleep r2)"
  proof -
    have "?d \<notin> set (rqueue rt)" "?d \<notin> set (rt_sleep rt)"
      using A a C by (auto simp: active_ok_def rt_core_def inv_sleep_def)
    then show "?d \<notin> set (rqueue r2)" "?d \<notin> set (rt_sleep r2)"
      unfolding r by (auto simp: expired_def asleep_def dest: set_takeWhileD set_dropWhileD)
  qed
  have rd: "runnable rt ?d" using A a by (simp add: active_ok_def)
  show ?thesis
  proof (cases "rqueue r2")
    case Nil
    then have g: "get_next r2 = (None, r2)" by (simp add: get_next_def pick_next_def)
    obtain g' where g': "dispatch now rt = Some (r2\<lparr>rt_algo := g'\<rparr>)" "rq_rqueue g' = []"
      "g' = rt_algo r2 \<or> g' = (rt_algo r2)\<lparr>rq_flag := False\<rparr>"
    proof (cases "suspend_until (case rt_sleep r2 of [] \<Rightarrow> TP_MAX | i # _ \<Rightarrow> tp_of r2 i) now (rt_algo r2)")
      case None
      with that [of "rt_algo r2"] Nil show ?thesis unfolding dis g by simp
    next
      case (Some g')
      then have "g' = (rt_algo r2)\<lparr>rq_flag := False\<rparr>"
        by (simp add: suspend_until_def split: if_splits)
      with that [of g'] Some Nil show ?thesis unfolding dis g by simp
    qed
    have "rt_inv H (r2\<lparr>rt_algo := g'\<rparr>)"
      using g'(3) r(3) core_flag [of H False r2] fr rd dis_not Nil g'(2)
      by (auto simp: rt_inv_def active_ok_def)
    moreover have "turned now rt (r2\<lparr>rt_algo := g'\<rparr>)"
      using Nil r g'(2) fr unfolding turned_def by simp
    ultimately show ?thesis using g'(1) by blast
  next
    case (Cons n rest)
    let ?r3 = "r2\<lparr>rt_algo := (rt_algo r2)\<lparr>rq_rqueue := rest\<rparr>\<rparr>"
    have core: "rt_core H ?r3" using core_switched [OF r(3)] Cons by (simp add: switched_def)
    have n: "runnable ?r3 n" "runnable ?r3 ?d" "n \<notin> set (rqueue ?r3)" "n \<notin> set (rt_sleep ?r3)" "?d \<noteq> n"
      using r(3) Cons fr(7) rd dis_not by (auto simp: rt_core_def inv_ready_def inv_sleep_def)
    let ?t = "made_ready ?d (?r3\<lparr>rt_active := n\<rparr>)"
    have "dispatch now rt = Some ?t"
      unfolding dis get_next_Cons [OF Cons] using resume_ready_eq [OF core n(1-4)] by simp
    moreover have "rt_inv H ?t"
      by (rule resume_ready_inv [OF core n(1-5)]) (use fr in simp)
    moreover have "remove1 ?d rest = rest" using dis_not Cons by (simp add: remove1_idem)
    then have "turned now rt ?t"
      using Cons r(5-10) fr dis_not unfolding turned_def
      by (simp add: rqueue_made_ready remove1_idem)
    ultimately show ?thesis by blast
  qed
qed

text \<open>The exit: the queues of workers are empty, and control goes back to the main context.\<close>

lemma dispatch_exit:
  assumes inv: "rt_inv H rt" and a: "rt_active rt = rt_dispatcher rt"
    and go: "rt_shutdown rt" "rt_worker rt = []"
  shows "dispatch now rt = Some (rt\<lparr>rt_algo := notify (rt_algo rt), rt_active := rt_main rt\<rparr>)"
    and "rt_terminated rt = []" "set (rt_sleep rt) \<subseteq> {rt_main rt}" "set (rqueue rt) \<subseteq> {rt_main rt}"
proof -
  have C: "rt_core H rt" and A: "active_ok rt" using inv by (auto simp: rt_inv_def)
  show t: "rt_terminated rt = []" using C go(2) by (simp add: rt_core_def inv_refs_def)
  from C obtain x where "rt_context rt (rt_main rt) = Some x"
    by (auto simp: rt_core_def inv_pinned_def runnable_context)
  then show "dispatch now rt = Some (rt\<lparr>rt_algo := notify (rt_algo rt), rt_active := rt_main rt\<rparr>)"
    using a go t by (simp add: dispatch_def release_terminated_def suspend_with_cc_def
        resume_with_def resume_tail_def)
  have "c = rt_main rt \<or> c = rt_dispatcher rt" if "runnable rt c" for c
    using worker_facts [OF C that] go(2) by fastforce
  moreover have "rt_dispatcher rt \<notin> set (rt_sleep rt)" "rt_dispatcher rt \<notin> set (rqueue rt)"
    using C A a by (auto simp: rt_core_def inv_sleep_def active_ok_def)
  ultimately show "set (rt_sleep rt) \<subseteq> {rt_main rt}" "set (rqueue rt) \<subseteq> {rt_main rt}"
    using C by (auto simp: rt_core_def inv_sleep_def inv_ready_def)
qed

end
