(* ===== verification/Fiber_System.thy ===== *)
theory Fiber_System
  imports Fiber_Invariant
begin

text \<open>
  A whole thread of fibers: the runtime, the fiber objects, and what each suspended fiber does when
  it is resumed. The active fiber takes one action at a time, every action running the code of
  \<open>fiber.cpp\<close>, \<open>context.cpp\<close> and \<open>scheduler.cpp\<close> up to the next switch; fibers block in wait-queues
  the way the synchronisation objects do, under the spinlock of the queue, with or without a
  deadline. An action that fails an assertion or follows a bad pointer is \<open>None\<close>.
\<close>

subsection \<open>States and actions\<close>

datatype pending =
    Idle
  | Joining ctx
  | Blocked nat
  | Timed nat time_point
  | Deleting

record fibers =
  fb_rt :: runtime
  fb_handles :: "ctx list"
  fb_pend :: "ctx \<Rightarrow> pending"
  fb_now :: time_point
  fb_deleted :: bool

datatype action =
    Spawn launch ctx
  | Join ctx
  | Detach ctx
  | Yield_now
  | Sleep_until time_point
  | Wait nat
  | Wait_until nat time_point
  | Wake nat
  | Finish
  | Delete
  | Resumed
  | Dispatch
  | Clock time_point

definition fibers_new :: "ctx \<Rightarrow> ctx \<Rightarrow> fibers" where
  "fibers_new main disp = \<lparr>fb_rt = scheduler_new main disp, fb_handles = [],
     fb_pend = (\<lambda>_. Idle), fb_now = 0, fb_deleted = False\<rparr>"

definition set_pend :: "ctx \<Rightarrow> pending \<Rightarrow> fibers \<Rightarrow> fibers" where
  "set_pend c k s = s\<lparr>fb_pend := (fb_pend s)(c := k)\<rparr>"

definition block_on :: "nat \<Rightarrow> runtime \<Rightarrow> runtime option" where
  "block_on k rt = do {
     rt \<leftarrow> splk_lock k rt;
     rt \<leftarrow> wait_link (rt_active rt) (Waiters k) rt;
     suspend_lk k rt
   }"

definition block_on_until :: "nat \<Rightarrow> time_point \<Rightarrow> runtime \<Rightarrow> runtime option" where
  "block_on_until k tp rt = do {
     rt \<leftarrow> splk_lock k rt;
     rt \<leftarrow> wait_link (rt_active rt) (Waiters k) rt;
     wait_until_lk (rt_active rt) tp k rt
   }"

text \<open>Back from \<open>wait_until\<close>: on a timeout, the fiber takes itself out of the queue.\<close>

definition timed_resumed :: "nat \<Rightarrow> time_point \<Rightarrow> time_point \<Rightarrow> runtime \<Rightarrow> runtime option" where
  "timed_resumed k tp now rt =
     (if wait_until_result now tp
      then do { ensure (\<not> wait_is_linked rt (rt_active rt)); Some rt }
      else do {
        rt \<leftarrow> splk_lock k rt;
        rt \<leftarrow> wait_unlink (rt_active rt) rt;
        Some (splk_unlock k rt)
      })"

definition wake_one :: "nat \<Rightarrow> runtime \<Rightarrow> runtime option" where
  "wake_one k rt =
     (if rt_wait rt (Waiters k) = [] then Some rt
      else do {
        rt \<leftarrow> splk_lock k rt;
        (c, rt) \<leftarrow> wait_pop_front (Waiters k) rt;
        rt \<leftarrow> set_ready (rt_active rt) c rt;
        Some (splk_unlock k rt)
      })"

fun exec :: "action \<Rightarrow> fibers \<Rightarrow> fibers option" where
  "exec (Spawn policy c) s = do {
     rt \<leftarrow> fiber_new policy c (fb_rt s);
     Some (s\<lparr>fb_rt := rt, fb_handles := c # fb_handles s\<rparr>)
   }"
| "exec (Join c) s = do {
     r \<leftarrow> fiber_join (Some c) (fb_rt s);
     (case r of
        Inl _ \<Rightarrow> Some s
      | Inr (blocked, rt) \<Rightarrow>
          let s' = s\<lparr>fb_rt := rt, fb_handles := remove1 c (fb_handles s)\<rparr>
          in Some (if blocked then set_pend (rt_active (fb_rt s)) (Joining c) s' else s'))
   }"
| "exec (Detach c) s = do {
     r \<leftarrow> fiber_detach (Some c) (fb_rt s);
     (case r of
        Inl _ \<Rightarrow> Some s
      | Inr rt \<Rightarrow> Some (s\<lparr>fb_rt := rt, fb_handles := remove1 c (fb_handles s)\<rparr>))
   }"
| "exec Yield_now s = do { rt \<leftarrow> yield (fb_rt s); Some (s\<lparr>fb_rt := rt\<rparr>) }"
| "exec (Sleep_until tp) s = do {
     rt \<leftarrow> wait_until (rt_active (fb_rt s)) tp (fb_rt s);
     Some (s\<lparr>fb_rt := rt\<rparr>)
   }"
| "exec (Wait k) s = do {
     rt \<leftarrow> block_on k (fb_rt s);
     Some (set_pend (rt_active (fb_rt s)) (Blocked k) (s\<lparr>fb_rt := rt\<rparr>))
   }"
| "exec (Wait_until k tp) s = do {
     rt \<leftarrow> block_on_until k tp (fb_rt s);
     Some (set_pend (rt_active (fb_rt s)) (Timed k tp) (s\<lparr>fb_rt := rt\<rparr>))
   }"
| "exec (Wake k) s = do { rt \<leftarrow> wake_one k (fb_rt s); Some (s\<lparr>fb_rt := rt\<rparr>) }"
| "exec Finish s = do { rt \<leftarrow> set_terminated (fb_rt s); Some (s\<lparr>fb_rt := rt\<rparr>) }"
| "exec Delete s = do {
     rt \<leftarrow> scheduler_delete (fb_rt s);
     Some (set_pend (rt_active (fb_rt s)) Deleting (s\<lparr>fb_rt := rt\<rparr>))
   }"
| "exec Resumed s =
     (let a = rt_active (fb_rt s)
      in case fb_pend s a of
           Idle \<Rightarrow> Some s
         | Joining c \<Rightarrow> do {
             rt \<leftarrow> fiber_join_resumed c (fb_rt s);
             Some (set_pend a Idle (s\<lparr>fb_rt := rt\<rparr>))
           }
         | Blocked k \<Rightarrow> do {
             ensure (\<not> wait_is_linked (fb_rt s) a);
             Some (set_pend a Idle s)
           }
         | Timed k tp \<Rightarrow> do {
             rt \<leftarrow> timed_resumed k tp (fb_now s) (fb_rt s);
             Some (set_pend a Idle (s\<lparr>fb_rt := rt\<rparr>))
           }
         | Deleting \<Rightarrow> None)"
| "exec Dispatch s = do {
     rt \<leftarrow> dispatch (fb_now s) (fb_rt s);
     if rt_shutdown (fb_rt s) \<and> rt_worker (fb_rt s) = [] then do {
       rt \<leftarrow> scheduler_delete_resumed rt;
       Some (s\<lparr>fb_rt := rt, fb_deleted := True\<rparr>)
     } else Some (s\<lparr>fb_rt := rt\<rparr>)
   }"
| "exec (Clock now) s = Some (s\<lparr>fb_now := now\<rparr>)"

text \<open>What the program may do: only the active fiber acts, an operation that was suspended is
  finished before the next one begins, the dispatcher runs its loop; new fibers get fresh memory,
  fiber objects that hold a context are joined or detached, only a worker returns from its
  function and only the main context destroys the scheduler; the clock is steady.\<close>

definition allowed :: "action \<Rightarrow> fibers \<Rightarrow> bool" where
  "allowed act s =
     (let rt = fb_rt s; a = rt_active rt; acts = (a \<noteq> rt_dispatcher rt \<and> fb_pend s a = Idle)
      in \<not> fb_deleted s \<and>
         (case act of
            Dispatch \<Rightarrow> a = rt_dispatcher rt
          | Clock now \<Rightarrow> fb_now s \<le> now
          | Resumed \<Rightarrow> a \<noteq> rt_dispatcher rt \<and> fb_pend s a \<noteq> Idle
          | Spawn policy c \<Rightarrow> acts \<and> rt_context rt c = None
          | Join c \<Rightarrow> acts \<and> c \<in> set (fb_handles s)
          | Detach c \<Rightarrow> acts \<and> c \<in> set (fb_handles s)
          | Finish \<Rightarrow> acts \<and> a \<noteq> rt_main rt
          | Delete \<Rightarrow> acts \<and> a = rt_main rt
          | _ \<Rightarrow> acts))"

inductive fibers_reachable :: "ctx \<Rightarrow> ctx \<Rightarrow> fibers \<Rightarrow> bool" for main disp where
  start: "fibers_reachable main disp (fibers_new main disp)"
| act: "fibers_reachable main disp s \<Longrightarrow> allowed act s \<Longrightarrow> exec act s = Some t \<Longrightarrow>
    fibers_reachable main disp t"

subsection \<open>The invariant\<close>

definition on_deck :: "runtime \<Rightarrow> ctx set" where
  "on_deck rt = insert (rt_active rt) (set (rqueue rt) \<union> set (rt_sleep rt))"

text \<open>Where a fiber with a suspended operation is.\<close>

definition pend_ok :: "runtime \<Rightarrow> time_point \<Rightarrow> ctx \<Rightarrow> pending \<Rightarrow> bool" where
  "pend_ok rt now c p =
     (case p of
        Idle \<Rightarrow> hook_of rt c = None
      | Joining j \<Rightarrow> c \<notin> set (rt_sleep rt) \<and>
          (hook_of rt c = None \<and> \<not> runnable rt j \<or> hook_of rt c = Some (Joiners j) \<and> c \<notin> on_deck rt)
      | Blocked k \<Rightarrow> c \<notin> set (rt_sleep rt) \<and>
          (hook_of rt c = None \<or> hook_of rt c = Some (Waiters k) \<and> c \<notin> on_deck rt)
      | Timed k tp \<Rightarrow> hook_of rt c = None \<and> c \<notin> set (rt_sleep rt) \<or>
          hook_of rt c = Some (Waiters k) \<and>
          (if c \<in> set (rt_sleep rt) then tp_of rt c = tp else tp \<le> now)
      | Deleting \<Rightarrow> c = rt_main rt \<and> hook_of rt c = Some (Joiners (rt_dispatcher rt)) \<and> c \<notin> on_deck rt)"

definition joined :: "(ctx \<Rightarrow> pending) \<Rightarrow> ctx set" where
  "joined pend = {j. \<exists>c. pend c = Joining j}"

definition held :: "fibers \<Rightarrow> ctx set" where
  "held s = set (fb_handles s) \<union> joined (fb_pend s)"

text \<open>No fiber that can run is lost.\<close>

definition none_lost :: "runtime \<Rightarrow> bool" where
  "none_lost rt \<longleftrightarrow> (\<forall>c. runnable rt c \<longrightarrow> c \<in> on_deck rt \<or> hook_of rt c \<noteq> None)"

definition pend_inv :: "fibers \<Rightarrow> bool" where
  "pend_inv s \<longleftrightarrow>
     (\<forall>c. pend_ok (fb_rt s) (fb_now s) c (fb_pend s c)) \<and>
     (\<forall>c. fb_pend s c \<noteq> Idle \<longrightarrow> runnable (fb_rt s) c \<and> c \<noteq> rt_dispatcher (fb_rt s)) \<and>
     (\<forall>c d j. fb_pend s c = Joining j \<longrightarrow> fb_pend s d = Joining j \<longrightarrow> c = d) \<and>
     distinct (fb_handles s) \<and> set (fb_handles s) \<inter> joined (fb_pend s) = {} \<and>
     (rt_shutdown (fb_rt s) \<longleftrightarrow> fb_pend s (rt_main (fb_rt s)) = Deleting)"

definition fib_inv :: "fibers \<Rightarrow> bool" where
  "fib_inv s \<longleftrightarrow> rt_inv (held s) (fb_rt s) \<and> rt_splk (fb_rt s) = [] \<and> none_lost (fb_rt s) \<and> pend_inv s"

text \<open>After the scheduler is gone: the main context is left, and the contexts of the finished
  fibers whose fiber objects still hold them.\<close>

definition ended_inv :: "fibers \<Rightarrow> bool" where
  "ended_inv s \<longleftrightarrow> (\<forall>c. rt_context (fb_rt s) c \<noteq> None \<longleftrightarrow>
       c = rt_main (fb_rt s) \<or> c \<in> set (fb_handles s)) \<and>
     rt_contexts (fb_rt s) = Suc (length (fb_handles s)) \<and>
     rqueue (fb_rt s) = [] \<and> rt_sleep (fb_rt s) = [] \<and> rt_worker (fb_rt s) = [] \<and>
     rt_active (fb_rt s) = rt_main (fb_rt s) \<and> (\<forall>c \<in> set (fb_handles s). is_terminated (fb_rt s) c)"

definition sys_inv :: "fibers \<Rightarrow> bool" where
  "sys_inv s = (if fb_deleted s then ended_inv s else fib_inv s)"

lemma set_pend_simps [simp]:
  "fb_rt (set_pend c k s) = fb_rt s" "fb_handles (set_pend c k s) = fb_handles s"
  "fb_now (set_pend c k s) = fb_now s" "fb_deleted (set_pend c k s) = fb_deleted s"
  "fb_pend (set_pend c k s) = (fb_pend s)(c := k)"
  by (simp_all add: set_pend_def)

subsection \<open>Keeping it\<close>

text \<open>The fibers other than the active one \<open>a\<close>: those in \<open>X\<close> have been woken, the rest is left
  alone, but for the sleepers whose deadline has passed.\<close>

definition others_kept :: "ctx \<Rightarrow> ctx set \<Rightarrow> time_point \<Rightarrow> runtime \<Rightarrow> runtime \<Rightarrow> bool" where
  "others_kept a X now rt rt' \<longleftrightarrow>
     rt_main rt' = rt_main rt \<and> rt_dispatcher rt' = rt_dispatcher rt \<and>
     (\<forall>d. d \<noteq> a \<longrightarrow> d \<notin> X \<longrightarrow> hook_of rt' d = hook_of rt d \<and>
        (d \<in> set (rt_sleep rt') \<longrightarrow> d \<in> set (rt_sleep rt) \<and> tp_of rt' d = tp_of rt d) \<and>
        (d \<in> set (rt_sleep rt) \<longrightarrow> d \<in> set (rt_sleep rt') \<or> tp_of rt d \<le> now) \<and>
        (d \<in> on_deck rt' \<longrightarrow> d \<in> on_deck rt)) \<and>
     (\<forall>d \<in> X. hook_of rt' d = None \<and> d \<notin> set (rt_sleep rt'))"

lemma pend_ok_other:
  assumes k: "others_kept a X now rt rt'" and d: "d \<noteq> a" "d \<notin> X" and p: "pend_ok rt now d p"
    and j: "\<And>j. p = Joining j \<Longrightarrow> \<not> runnable rt j \<Longrightarrow> \<not> runnable rt' j"
  shows "pend_ok rt' now d p"
proof -
  have f: "hook_of rt' d = hook_of rt d" "rt_main rt' = rt_main rt"
    "rt_dispatcher rt' = rt_dispatcher rt"
    "d \<in> set (rt_sleep rt') \<Longrightarrow> d \<in> set (rt_sleep rt) \<and> tp_of rt' d = tp_of rt d"
    "d \<in> set (rt_sleep rt) \<Longrightarrow> d \<in> set (rt_sleep rt') \<or> tp_of rt d \<le> now"
    "d \<in> on_deck rt' \<Longrightarrow> d \<in> on_deck rt"
    using k d unfolding others_kept_def by blast+
  show ?thesis
  proof (cases p)
    case (Joining i)
    with p f j [OF Joining] show ?thesis by (auto simp: pend_ok_def)
  next
    case (Timed k tp)
    with p f(1,4,5) show ?thesis by (auto simp: pend_ok_def split: if_splits)
  qed (use p f in \<open>auto simp: pend_ok_def\<close>)
qed

lemma pend_ok_woken:
  assumes k: "others_kept a X now rt rt'" and d: "d \<in> X" "p \<noteq> Deleting"
    and j: "\<And>j. p = Joining j \<Longrightarrow> \<not> runnable rt' j"
  shows "pend_ok rt' now d p"
proof -
  have "hook_of rt' d = None" "d \<notin> set (rt_sleep rt')" using k d(1) unfolding others_kept_def by blast+
  with d(2) j show ?thesis by (auto simp: pend_ok_def split: pending.split)
qed

lemma joined_upd: "joined (pend(a := p)) \<subseteq> joined pend \<union> {j. p = Joining j}"
  by (auto simp: joined_def split: if_splits)

lemma pend_inv_step:
  assumes P: "pend_inv s" and k: "others_kept a X (fb_now s) (fb_rt s) rt'" and aX: "a \<notin> X"
    and X: "\<And>d. d \<in> X \<Longrightarrow> fb_pend s d \<noteq> Deleting \<and> (\<forall>j. fb_pend s d = Joining j \<longrightarrow> \<not> runnable rt' j)"
    and j: "\<And>j. j \<in> joined (fb_pend s) \<Longrightarrow> \<not> runnable (fb_rt s) j \<Longrightarrow> \<not> runnable rt' j"
    and live: "\<And>d. d \<noteq> a \<Longrightarrow> fb_pend s d \<noteq> Idle \<Longrightarrow> runnable rt' d"
    and own: "pend_ok rt' (fb_now s) a p" "p \<noteq> Idle \<Longrightarrow> runnable rt' a \<and> a \<noteq> rt_dispatcher (fb_rt s)"
    and hs: "distinct hs" "set hs \<inter> (joined (fb_pend s) \<union> {j. p = Joining j}) = {}"
    and new: "\<And>j. p = Joining j \<Longrightarrow> j \<notin> joined (fb_pend s)"
    and sh: "rt_shutdown rt' \<longleftrightarrow> ((fb_pend s)(a := p)) (rt_main (fb_rt s)) = Deleting"
  shows "pend_inv (set_pend a p (s\<lparr>fb_rt := rt', fb_handles := hs\<rparr>))"
proof -
  have md: "rt_main rt' = rt_main (fb_rt s)" "rt_dispatcher rt' = rt_dispatcher (fb_rt s)"
    using k unfolding others_kept_def by blast+
  have inj: "fb_pend s c = Joining i \<Longrightarrow> fb_pend s d = Joining i \<Longrightarrow> c = d" for c d i
    using P unfolding pend_inv_def by blast
  have ok: "pend_ok rt' (fb_now s) d (((fb_pend s)(a := p)) d)" for d
  proof (cases "d = a")
    case True
    with own(1) show ?thesis by simp
  next
    case False
    show ?thesis
    proof (cases "d \<in> X")
      case True
      with False X [OF True] show ?thesis by (auto intro: pend_ok_woken [OF k True])
    next
      case nX: False
      have "pend_ok (fb_rt s) (fb_now s) d (fb_pend s d)" using P by (simp add: pend_inv_def)
      moreover have "\<not> runnable rt' i" if "fb_pend s d = Joining i" "\<not> runnable (fb_rt s) i" for i
        using that by (intro j) (auto simp: joined_def)
      ultimately show ?thesis using False by (auto intro: pend_ok_other [OF k False nX])
    qed
  qed
  have lv: "((fb_pend s)(a := p)) d \<noteq> Idle \<Longrightarrow> runnable rt' d \<and> d \<noteq> rt_dispatcher (fb_rt s)" for d
    using own(2) live [of d] P by (cases "d = a") (auto simp: pend_inv_def)
  have uq: "((fb_pend s)(a := p)) c = Joining i \<Longrightarrow> ((fb_pend s)(a := p)) d = Joining i \<Longrightarrow> c = d"
    for c d i
    using inj [of c i d] new [of i] by (cases "c = a"; cases "d = a") (auto simp: joined_def)
  have dj: "set hs \<inter> joined ((fb_pend s)(a := p)) = {}"
    using hs(2) joined_upd [of "fb_pend s" a p] by blast
  have f: "fb_rt (set_pend a p (s\<lparr>fb_rt := rt', fb_handles := hs\<rparr>)) = rt'"
    "fb_handles (set_pend a p (s\<lparr>fb_rt := rt', fb_handles := hs\<rparr>)) = hs"
    "fb_pend (set_pend a p (s\<lparr>fb_rt := rt', fb_handles := hs\<rparr>)) = (fb_pend s)(a := p)"
    "fb_now (set_pend a p (s\<lparr>fb_rt := rt', fb_handles := hs\<rparr>)) = fb_now s"
    by simp_all
  show ?thesis
    unfolding pend_inv_def f md using ok lv uq dj hs(1) sh by blast
qed

subsection \<open>The effect of the operations on who is on deck\<close>

lemma on_deck_simps [simp]:
  "rqueue rt \<noteq> [] \<Longrightarrow> on_deck (switched rt) = set (rqueue rt) \<union> set (rt_sleep rt)"
  "on_deck (made_ready c rt) = insert c (on_deck rt)"
  "on_deck (slept c tp rt) = insert c (on_deck rt)"
  "on_deck (linked c q rt) = on_deck rt" "on_deck (unlinked c rt) = on_deck rt"
  "on_deck (splk_unlock l rt) = on_deck rt" "on_deck (attached policy c rt) = on_deck rt"
  "on_deck (handle_released c rt) = on_deck rt"
  "on_deck (rt\<lparr>rt_splk := ls\<rparr>) = on_deck rt" "on_deck (rt\<lparr>rt_shutdown := b\<rparr>) = on_deck rt"
proof -
  show "on_deck (switched rt) = set (rqueue rt) \<union> set (rt_sleep rt)" if "rqueue rt \<noteq> []"
    using that by (cases "rqueue rt") (auto simp: on_deck_def)
  have "insert c (set (remove1 c ds)) = insert c (set ds)" for ds by (induction ds) auto
  then have "insert c (set (rqueue rt)) \<union> set (remove1 c (rt_sleep rt)) =
      insert c (set (rqueue rt) \<union> set (rt_sleep rt))" by blast
  then show "on_deck (made_ready c rt) = insert c (on_deck rt)" by (auto simp: on_deck_def)
qed (auto simp: on_deck_def splk_unlock_def)

lemma splk_unlock_simps [simp]:
  "rt_context (splk_unlock l rt) = rt_context rt" "rt_sleep (splk_unlock l rt) = rt_sleep rt"
  "rt_active (splk_unlock l rt) = rt_active rt" "rt_algo (splk_unlock l rt) = rt_algo rt"
  "rt_dispatcher (splk_unlock l rt) = rt_dispatcher rt" "rt_main (splk_unlock l rt) = rt_main rt"
  "rt_wait (splk_unlock l rt) = rt_wait rt" "rt_worker (splk_unlock l rt) = rt_worker rt"
  "rt_terminated (splk_unlock l rt) = rt_terminated rt"
  "rt_shutdown (splk_unlock l rt) = rt_shutdown rt"
  "rt_splk (splk_unlock l rt) = remove1 l (rt_splk rt)"
  "runnable (splk_unlock l rt) d = runnable rt d" "tp_of (splk_unlock l rt) d = tp_of rt d"
  "hook_of (splk_unlock l rt) d = hook_of rt d"
  by (simp_all add: splk_unlock_def)

lemma core_splk_upd [simp]:
  "rt_core H (rt\<lparr>rt_splk := l\<rparr>) = rt_core H rt" "rt_inv H (rt\<lparr>rt_splk := l\<rparr>) = rt_inv H rt"
  "rt_core H (rt\<lparr>rt_shutdown := b\<rparr>) = rt_core H rt" "rt_inv H (rt\<lparr>rt_shutdown := b\<rparr>) = rt_inv H rt"
  by (simp_all add: rt_inv_def active_ok_def rt_core_def inv_pinned_def inv_ready_def inv_sleep_def
      inv_wait_def inv_refs_def)

text \<open>The contexts that exist and have not ended, and what a step makes of them.\<close>

definition living :: "fibers \<Rightarrow> ctx set" where
  "living s = {c. runnable (fb_rt s) c}"

definition lives :: "ctx set \<Rightarrow> fibers \<Rightarrow> fibers \<Rightarrow> bool" where
  "lives R s t \<longleftrightarrow> rt_main (fb_rt t) = rt_main (fb_rt s) \<and> rt_dispatcher (fb_rt t) = rt_dispatcher (fb_rt s) \<and> living t = R"

lemma lives_refl: "lives (living s) s s"
  by (simp add: lives_def)

lemma livesI:
  assumes "rt_main (fb_rt t) = rt_main (fb_rt s)" "rt_dispatcher (fb_rt t) = rt_dispatcher (fb_rt s)"
    and "\<And>c. runnable (fb_rt t) c \<longleftrightarrow> c \<in> R"
  shows "lives R s t"
  using assms by (auto simp: lives_def living_def)

text \<open>What an acting fiber can rely on.\<close>

lemma acting:
  assumes inv: "fib_inv s" and a: "rt_active (fb_rt s) \<noteq> rt_dispatcher (fb_rt s)"
    and idle: "fb_pend s (rt_active (fb_rt s)) = Idle"
  shows "rt_core (held s) (fb_rt s)" "runnable (fb_rt s) (rt_active (fb_rt s))"
    "rt_active (fb_rt s) \<notin> set (rqueue (fb_rt s))" "rt_active (fb_rt s) \<notin> set (rt_sleep (fb_rt s))"
    "hook_of (fb_rt s) (rt_active (fb_rt s)) = None"
    "rt_dispatcher (fb_rt s) \<in> set (rqueue (fb_rt s))" "rqueue (fb_rt s) \<noteq> []"
    "rt_splk (fb_rt s) = []"
  using inv a idle unfolding fib_inv_def rt_inv_def active_ok_def pend_inv_def pend_ok_def
  by (auto dest: spec [of _ "rt_active (fb_rt s)"])

lemma pend_live: "pend_inv s \<Longrightarrow> fb_pend s d \<noteq> Idle \<Longrightarrow> runnable (fb_rt s) d"
  by (simp add: pend_inv_def)

lemma held_live:
  assumes "rt_core H rt" "j \<in> H"
  shows "j \<noteq> rt_main rt" "j \<noteq> rt_dispatcher rt" "rt_context rt j \<noteq> None"
  using refs_dom [OF assms(1), of j] assms(2) by blast+

text \<open>An action that leaves the pending operations alone.\<close>

lemma fib_inv_hs:
  assumes inv: "fib_inv s" and idle: "fb_pend s a = Idle" and aX: "a \<notin> X"
    and rt: "rt_inv (set hs \<union> joined (fb_pend s)) rt'" "rt_splk rt' = []" "none_lost rt'"
    and hs: "distinct hs" "set hs \<inter> joined (fb_pend s) = {}"
    and k: "others_kept a X (fb_now s) (fb_rt s) rt'"
    and X: "\<And>d. d \<in> X \<Longrightarrow> fb_pend s d \<noteq> Deleting \<and> (\<forall>j. fb_pend s d = Joining j \<longrightarrow> \<not> runnable rt' j)"
    and run: "\<And>j. j \<in> joined (fb_pend s) \<Longrightarrow> \<not> runnable (fb_rt s) j \<Longrightarrow> \<not> runnable rt' j"
    and live: "\<And>d. d \<noteq> a \<Longrightarrow> fb_pend s d \<noteq> Idle \<Longrightarrow> runnable rt' d"
    and own: "hook_of rt' a = None" and sh: "rt_shutdown rt' = rt_shutdown (fb_rt s)"
  shows "fib_inv (s\<lparr>fb_rt := rt', fb_handles := hs\<rparr>)"
proof -
  have P: "pend_inv s" using inv by (simp add: fib_inv_def)
  have eq: "set_pend a Idle (s\<lparr>fb_rt := rt', fb_handles := hs\<rparr>) = s\<lparr>fb_rt := rt', fb_handles := hs\<rparr>"
    using idle by (simp add: set_pend_def fun_upd_idem)
  have "pend_inv (set_pend a Idle (s\<lparr>fb_rt := rt', fb_handles := hs\<rparr>))"
  proof (rule pend_inv_step [OF P k aX X])
    show "pend_ok rt' (fb_now s) a Idle" using own by (simp add: pend_ok_def)
    show "set hs \<inter> (joined (fb_pend s) \<union> {j. Idle = Joining j}) = {}" using hs by simp
    show "rt_shutdown rt' \<longleftrightarrow> ((fb_pend s)(a := Idle)) (rt_main (fb_rt s)) = Deleting"
      using P idle sh by (simp add: pend_inv_def)
  qed (use run live hs in auto)
  then have "pend_inv (s\<lparr>fb_rt := rt', fb_handles := hs\<rparr>)" unfolding eq .
  then show ?thesis using rt by (simp add: fib_inv_def held_def)
qed

lemma fib_inv_same:
  assumes "fib_inv s" "fb_pend s a = Idle" "a \<notin> X"
    and "rt_inv (held s) rt'" "rt_splk rt' = []" "none_lost rt'"
    and "others_kept a X (fb_now s) (fb_rt s) rt'"
    and "\<And>d. d \<in> X \<Longrightarrow> fb_pend s d \<noteq> Deleting \<and> (\<forall>j. fb_pend s d = Joining j \<longrightarrow> \<not> runnable rt' j)"
    and "\<And>d. runnable rt' d \<longrightarrow> runnable (fb_rt s) d"
    and "\<And>d. d \<noteq> a \<Longrightarrow> fb_pend s d \<noteq> Idle \<Longrightarrow> runnable rt' d"
    and "hook_of rt' a = None" "rt_shutdown rt' = rt_shutdown (fb_rt s)"
  shows "fib_inv (s\<lparr>fb_rt := rt'\<rparr>)"
proof -
  have "distinct (fb_handles s)" "set (fb_handles s) \<inter> joined (fb_pend s) = {}"
    using assms(1) by (auto simp: fib_inv_def pend_inv_def)
  then have "fib_inv (s\<lparr>fb_rt := rt', fb_handles := fb_handles s\<rparr>)"
    using assms by (intro fib_inv_hs [where X = X and a = a]) (auto simp: held_def)
  then show ?thesis by simp
qed

lemma lost_same:
  assumes "none_lost rt" "\<And>d. runnable rt' d \<Longrightarrow> runnable rt d"
    and "\<And>d. runnable rt' d \<Longrightarrow> d \<in> on_deck rt \<or> hook_of rt d \<noteq> None \<Longrightarrow> d \<in> on_deck rt' \<or> hook_of rt' d \<noteq> None"
  shows "none_lost rt'"
  using assms unfolding none_lost_def by blast

lemma exec_Yield:
  assumes inv: "fib_inv s" and al: "allowed Yield_now s"
  shows "\<exists>t. exec Yield_now s = Some t \<and> fib_inv t \<and> lives (living s) s t"
proof -
  let ?rt = "fb_rt s" and ?a = "rt_active (fb_rt s)"
  have a: "?a \<noteq> rt_dispatcher ?rt" and idle: "fb_pend s ?a = Idle" using al by (auto simp: allowed_def Let_def)
  note f = acting [OF inv a idle]
  let ?r = "made_ready ?a (switched ?rt)"
  have y: "yield ?rt = Some ?r" "rt_inv (held s) ?r"
    using yield_inv [of "held s" ?rt] inv f(7) by (auto simp: fib_inv_def)
  have od: "on_deck ?r = on_deck ?rt" using f(7) by (simp add: on_deck_def [of ?rt])
  have "fib_inv (s\<lparr>fb_rt := ?r\<rparr>)"
  proof (rule fib_inv_same [OF inv idle, where X = "{}"])
    show "none_lost ?r" using inv od by (simp add: fib_inv_def none_lost_def)
    show "others_kept ?a {} (fb_now s) ?rt ?r"
      using od f(4) by (auto simp: others_kept_def dest: notin_set_remove1)
  qed (use y f inv in \<open>auto simp: fib_inv_def pend_live\<close>)
  moreover have "lives (living s) s (s\<lparr>fb_rt := ?r\<rparr>)" by (intro livesI) (auto simp: living_def)
  ultimately show ?thesis using y by simp
qed

lemma exec_Sleep:
  assumes inv: "fib_inv s" and al: "allowed (Sleep_until tp) s"
  shows "\<exists>t. exec (Sleep_until tp) s = Some t \<and> fib_inv t \<and> lives (living s) s t"
proof -
  let ?rt = "fb_rt s" and ?a = "rt_active (fb_rt s)"
  have a: "?a \<noteq> rt_dispatcher ?rt" and idle: "fb_pend s ?a = Idle" using al by (auto simp: allowed_def Let_def)
  note f = acting [OF inv a idle]
  note sl = sleep_link_core [OF f(1-4) a, of tp]
  let ?r = "switched (slept ?a tp ?rt)"
  have "rt_inv (held s) ?rt" using inv by (simp add: fib_inv_def)
  note w = wait_until_inv [OF this a, of tp]
  have od: "on_deck ?r = on_deck ?rt" using f(7) by (simp add: on_deck_def [of ?rt])
  have "fib_inv (s\<lparr>fb_rt := ?r\<rparr>)"
  proof (rule fib_inv_same [OF inv idle, where X = "{}"])
    show "none_lost ?r" using inv od sl(3,4) by (simp add: fib_inv_def none_lost_def)
    show "others_kept ?a {} (fb_now s) ?rt ?r"
      using od sl(4,5) by (simp add: others_kept_def)
  qed (use w f sl inv in \<open>auto simp: fib_inv_def pend_live\<close>)
  moreover have "lives (living s) s (s\<lparr>fb_rt := ?r\<rparr>)" by (intro livesI) (auto simp: living_def sl)
  ultimately show ?thesis using w by simp
qed

lemma exec_Wake:
  assumes inv: "fib_inv s" and al: "allowed (Wake k) s"
  shows "\<exists>t. exec (Wake k) s = Some t \<and> fib_inv t \<and> lives (living s) s t"
proof -
  let ?rt = "fb_rt s" and ?a = "rt_active (fb_rt s)"
  have a: "?a \<noteq> rt_dispatcher ?rt" and idle: "fb_pend s ?a = Idle" using al by (auto simp: allowed_def Let_def)
  note f = acting [OF inv a idle]
  show ?thesis
  proof (cases "rt_wait ?rt (Waiters k)")
    case Nil
    then show ?thesis using inv by (simp add: wake_one_def lives_refl)
  next
    case (Cons c cs)
    let ?l = "?rt\<lparr>rt_splk := [k]\<rparr>"
    have C: "rt_core (held s) ?l" using f(1) by simp
    have cons: "rt_wait ?l (Waiters k) = c # cs" using Cons by simp
    note pop = wait_pop_front_core [OF C cons]
    have run: "runnable (unlinked c ?l) d = runnable ?rt d" for d
      using wait_unlink_core(3) [OF C pop(3)] by simp
    have hk: "hook_of ?rt c = Some (Waiters k)" using pop(5) by simp
    then have ne: "c \<noteq> ?a" using f(5) by auto
    have I: "rt_inv (held s) (unlinked c ?l)"
      using inv pop(2) active_unlinked [OF C pop(3)] by (simp add: fib_inv_def rt_inv_def active_ok_def)
    have rc: "runnable (unlinked c ?l) c" using run pop(3) by simp
    note sr = set_ready_inv [OF I rc]
    let ?r = "splk_unlock k (made_ready c (unlinked c ?l))"
    have ex: "wake_one k ?rt = Some ?r"
      using cons pop(1) sr ne f(8) Cons by (simp add: wake_one_def splk_lock_def)
    have od: "on_deck ?r = insert c (on_deck ?rt)" by simp
    have tps: "tp_of ?r d = tp_of ?rt d" for d
      using pop(3) by (auto simp: unlinked_def hooked_status(2) runnable_context split: option.splits)
    have pc: "fb_pend s c \<noteq> Deleting \<and> (\<forall>j. fb_pend s c \<noteq> Joining j)"
    proof -
      have "pend_ok ?rt (fb_now s) c (fb_pend s c)" using inv by (simp add: fib_inv_def pend_inv_def)
      with hk show ?thesis by (auto simp: pend_ok_def)
    qed
    have "distinct (rt_sleep ?rt)" using f(1) by (simp add: rt_core_def inv_sleep_def)
    then have sl: "set (rt_sleep ?r) = set (rt_sleep ?rt) - {c}" by simp
    have "fib_inv (s\<lparr>fb_rt := ?r\<rparr>)"
    proof (rule fib_inv_same [OF inv idle, where X = "{c}"])
      show "none_lost ?r" using inv run unfolding fib_inv_def none_lost_def od by auto
      show "others_kept ?a {c} (fb_now s) ?rt ?r"
        unfolding others_kept_def od sl tps by simp
    qed (use sr ne f run inv pc in \<open>auto simp: fib_inv_def pend_live\<close>)
    moreover have "lives (living s) s (s\<lparr>fb_rt := ?r\<rparr>)" by (intro livesI) (auto simp: living_def run)
    ultimately show ?thesis using ex by simp
  qed
qed

lemma handle_released_kept:
  assumes C: "rt_core H rt" and ch: "c \<in> H"
  shows "hook_of (handle_released c rt) d = hook_of rt d"
    and "d \<in> set (rt_sleep rt) \<Longrightarrow> tp_of (handle_released c rt) d = tp_of rt d"
proof -
  have w: "rt_wait (handle_released c rt) = rt_wait rt" by simp
  show "hook_of (handle_released c rt) d = hook_of rt d"
    by (rule hook_from_wait [OF C handle_release_core(2) [OF C ch] w])
  obtain x where x: "rt_context rt c = Some x" "c \<noteq> rt_main rt" "c \<noteq> rt_dispatcher rt"
    using refs_dom [OF C, of c] ch by blast
  show "tp_of (handle_released c rt) d = tp_of rt d" if d: "d \<in> set (rt_sleep rt)"
  proof (cases "d = c \<and> c \<notin> set (rt_worker rt)")
    case True
    with refs_at(4) [OF C x] x(1) have "\<not> runnable rt c" by (simp add: runnable_def)
    with not_runnable_idle(2) [OF C this] d True show ?thesis by simp
  next
    case False
    with x(1) show ?thesis
      by (auto simp: handle_released_def less_used_def destroyed_def tp_of_def)
  qed
qed

text \<open>A fiber object lets go of a context that nobody joins.\<close>

lemma handle_gone:
  assumes inv: "fib_inv s" and a: "rt_active (fb_rt s) \<noteq> rt_dispatcher (fb_rt s)"
    and idle: "fb_pend s (rt_active (fb_rt s)) = Idle" and c: "c \<in> set (fb_handles s)"
  shows "intrusive_ptr_release c (fb_rt s) = Some (handle_released c (fb_rt s))"
    and "fib_inv (s\<lparr>fb_rt := handle_released c (fb_rt s), fb_handles := remove1 c (fb_handles s)\<rparr>)"
    and "lives (living s) s (s\<lparr>fb_rt := handle_released c (fb_rt s), fb_handles := remove1 c (fb_handles s)\<rparr>)"
proof -
  let ?rt = "fb_rt s" and ?a = "rt_active (fb_rt s)" and ?hs = "remove1 c (fb_handles s)"
  let ?r = "handle_released c (fb_rt s)"
  note f = acting [OF inv a idle]
  have I: "rt_inv (held s) ?rt" and P: "pend_inv s" using inv by (auto simp: fib_inv_def)
  have ch: "c \<in> held s" using c by (simp add: held_def)
  note hr = handle_release_inv [OF I ch] and hc = handle_release_core [OF f(1) ch]
  show "intrusive_ptr_release c ?rt = Some ?r" by (rule hr(1))
  show "lives (living s) s (s\<lparr>fb_rt := ?r, fb_handles := ?hs\<rparr>)"
    by (intro livesI) (auto simp: living_def hc(3))
  have dj: "distinct (fb_handles s)" "set (fb_handles s) \<inter> joined (fb_pend s) = {}"
    using P by (auto simp: pend_inv_def)
  then have H: "set ?hs \<union> joined (fb_pend s) = held s - {c}" using c by (auto simp: held_def)
  note hk = handle_released_kept(1) [OF f(1) ch] and tps = handle_released_kept(2) [OF f(1) ch]
  show "fib_inv (s\<lparr>fb_rt := ?r, fb_handles := ?hs\<rparr>)"
  proof (rule fib_inv_hs [OF inv idle, where X = "{}"])
    show "none_lost ?r" using inv hc(3) hk unfolding fib_inv_def none_lost_def by simp
    show "others_kept ?a {} (fb_now s) ?rt ?r"
      using hk tps by (simp add: others_kept_def)
    show "set ?hs \<inter> joined (fb_pend s) = {}" using dj by (auto dest: notin_set_remove1)
  qed (use hr(2) H f hk hc(3) dj P in \<open>auto simp: pend_live\<close>)
qed

lemma exec_Detach:
  assumes inv: "fib_inv s" and al: "allowed (Detach c) s"
  shows "\<exists>t. exec (Detach c) s = Some t \<and> fib_inv t \<and> lives (living s) s t"
proof -
  have a: "rt_active (fb_rt s) \<noteq> rt_dispatcher (fb_rt s)" and idle: "fb_pend s (rt_active (fb_rt s)) = Idle"
    and c: "c \<in> set (fb_handles s)"
    using al by (auto simp: allowed_def Let_def)
  from handle_gone [OF inv a idle c] show ?thesis by (simp add: fiber_detach_def)
qed

text \<open>An operation of the active fiber that is suspended: its hook is linked, it is off deck, and
  the head of the ready-queue runs.\<close>

lemma suspended_inv:
  assumes inv: "fib_inv s" and a: "rt_active (fb_rt s) \<noteq> rt_dispatcher (fb_rt s)"
    and idle: "fb_pend s (rt_active (fb_rt s)) = Idle"
    and hs: "distinct hs" "set hs \<inter> (joined (fb_pend s) \<union> {j. p = Joining j}) = {}"
    and H: "set hs \<union> joined ((fb_pend s)(rt_active (fb_rt s) := p)) = held s"
    and new: "\<And>j. p = Joining j \<Longrightarrow> j \<notin> joined (fb_pend s)"
    and q: "\<And>j. q = Joiners j \<Longrightarrow> runnable (fb_rt s) j"
    and rt: "rt_inv (held s) rt'" "rt_splk rt' = []" "rt_main rt' = rt_main (fb_rt s)"
      "rt_dispatcher rt' = rt_dispatcher (fb_rt s)"
      "\<And>d. runnable rt' d = runnable (fb_rt s) d"
      "\<And>d. hook_of rt' d = (if d = rt_active (fb_rt s) then Some q else hook_of (fb_rt s) d)"
      "\<And>d. d \<noteq> rt_active (fb_rt s) \<Longrightarrow> tp_of rt' d = tp_of (fb_rt s) d"
      "\<And>d. d \<noteq> rt_active (fb_rt s) \<Longrightarrow> d \<in> set (rt_sleep rt') \<longleftrightarrow> d \<in> set (rt_sleep (fb_rt s))"
      "\<And>d. d \<noteq> rt_active (fb_rt s) \<Longrightarrow> d \<in> on_deck rt' \<longleftrightarrow> d \<in> on_deck (fb_rt s)"
    and own: "pend_ok rt' (fb_now s) (rt_active (fb_rt s)) p"
    and sh: "rt_shutdown rt' \<longleftrightarrow> ((fb_pend s)(rt_active (fb_rt s) := p)) (rt_main (fb_rt s)) = Deleting"
  shows "fib_inv (set_pend (rt_active (fb_rt s)) p (s\<lparr>fb_rt := rt', fb_handles := hs\<rparr>))"
proof -
  let ?rt = "fb_rt s" and ?a = "rt_active (fb_rt s)"
  note f = acting [OF inv a idle]
  have P: "pend_inv s" using inv by (simp add: fib_inv_def)
  have k: "others_kept ?a {} (fb_now s) ?rt rt'" using rt(3-9) by (simp add: others_kept_def)
  have "pend_inv (set_pend ?a p (s\<lparr>fb_rt := rt', fb_handles := hs\<rparr>))"
    by (rule pend_inv_step [OF P k]) (use rt(5) own a f(2) hs new sh pend_live [OF P] in auto)
  moreover have "none_lost rt'"
    unfolding none_lost_def
  proof (intro allI impI)
    fix d assume "runnable rt' d"
    with inv rt(5) have "d \<in> on_deck ?rt \<or> hook_of ?rt d \<noteq> None"
      by (auto simp: fib_inv_def none_lost_def)
    with rt(6,9) show "d \<in> on_deck rt' \<or> hook_of rt' d \<noteq> None" by (cases "d = ?a") auto
  qed
  moreover have "held (set_pend ?a p (s\<lparr>fb_rt := rt', fb_handles := hs\<rparr>)) = held s"
    using H by (simp add: held_def)
  ultimately show ?thesis using rt(1,2) by (simp add: fib_inv_def)
qed

text \<open>Linking the active fiber in a wait-queue and switching, with no deadline.\<close>

lemma link_and_switch:
  assumes inv: "fib_inv s" and a: "rt_active (fb_rt s) \<noteq> rt_dispatcher (fb_rt s)"
    and idle: "fb_pend s (rt_active (fb_rt s)) = Idle"
    and q: "\<forall>j. q = Joiners j \<longrightarrow> runnable (fb_rt s) j"
  defines "r \<equiv> switched (linked (rt_active (fb_rt s)) q (fb_rt s))"
  shows "Option.bind (wait_link (rt_active (fb_rt s)) q (fb_rt s)) suspend = Some r"
    and "rt_inv (held s) r" "rt_splk r = []"
    and "runnable r d = runnable (fb_rt s) d" "tp_of r d = tp_of (fb_rt s) d"
    and "hook_of r d = (if d = rt_active (fb_rt s) then Some q else hook_of (fb_rt s) d)"
    and "rt_sleep r = rt_sleep (fb_rt s)"
    and "on_deck r = on_deck (fb_rt s) - {rt_active (fb_rt s)}"
proof -
  let ?rt = "fb_rt s" and ?a = "rt_active (fb_rt s)"
  note f = acting [OF inv a idle]
  note wl = wait_link_core [OF f(1,2,5) a, of q]
  have ne: "rqueue (linked ?a q ?rt) \<noteq> []" using f(7) by simp
  show "Option.bind (wait_link ?a q ?rt) suspend = Some r"
    using wl(1) q suspend_eq(1) [OF wl(2) ne] by (simp add: r_def)
  show "rt_inv (held s) r" unfolding r_def
    by (rule inv_switched [OF wl(2)]) (use q f(6) in auto)
  show "rt_splk r = []" "rt_sleep r = rt_sleep ?rt" using f(8) by (simp_all add: r_def)
  show "runnable r d = runnable ?rt d" using wl(3) q by (simp add: r_def)
  show "hook_of r d = (if d = ?a then Some q else hook_of ?rt d)" by (simp add: r_def)
  obtain x where "rt_context ?rt ?a = Some x" using f(2) by (auto simp: runnable_context)
  then show "tp_of r d = tp_of ?rt d" by (simp add: r_def linked_def hooked_status(2))
  show "on_deck r = on_deck ?rt - {?a}"
    using f(3,4,7) by (simp add: r_def on_deck_def [of ?rt])
qed

text \<open>Under the spinlock of the queue, the end is the same.\<close>

lemma splk_commutes:
  "linked a q (rt\<lparr>rt_splk := l\<rparr>) = (linked a q rt)\<lparr>rt_splk := l\<rparr>"
  "slept a tp (rt\<lparr>rt_splk := l\<rparr>) = (slept a tp rt)\<lparr>rt_splk := l\<rparr>"
  "switched (rt\<lparr>rt_splk := l\<rparr>) = (switched rt)\<lparr>rt_splk := l\<rparr>"
proof -
  show "linked a q (rt\<lparr>rt_splk := l\<rparr>) = (linked a q rt)\<lparr>rt_splk := l\<rparr>"
    by (simp add: linked_def hooked_def set_context_def)
  have "(tp_of (rt\<lparr>rt_splk := l\<rparr>))(a := tp) = (tp_of rt)(a := tp)" by (simp add: fun_eq_iff)
  then show "slept a tp (rt\<lparr>rt_splk := l\<rparr>) = (slept a tp rt)\<lparr>rt_splk := l\<rparr>"
    by (simp add: slept_def set_context_def del: tp_of_upd)
  show "switched (rt\<lparr>rt_splk := l\<rparr>) = (switched rt)\<lparr>rt_splk := l\<rparr>" by (simp add: switched_def)
qed

lemma tp_linked: "runnable rt a \<Longrightarrow> tp_of (linked a q rt) d = tp_of rt d"
  by (auto simp: linked_def hooked_status(2) runnable_context)

lemma splk_idem: "rt_splk rt = [] \<Longrightarrow> splk_unlock k (rt\<lparr>rt_splk := [k]\<rparr>) = rt"
  by (cases rt) (simp add: splk_unlock_def)

lemma locked_switch:
  assumes "rt_splk rt = []"
  shows "splk_unlock k (switched (linked a q (rt\<lparr>rt_splk := [k]\<rparr>))) = switched (linked a q rt)"
    and "splk_unlock k (switched (slept a tp (linked a q (rt\<lparr>rt_splk := [k]\<rparr>)))) =
      switched (slept a tp (linked a q rt))"
  unfolding splk_commutes by (rule splk_idem, simp add: assms)+

lemma joined_other:
  assumes "\<And>j. pend a \<noteq> Joining j" "\<And>j. p \<noteq> Joining j"
  shows "joined (pend(a := p)) = joined pend"
proof -
  have "((pend(a := p)) c = Joining j) = (pend c = Joining j)" for c j
    using assms by (cases "c = a") auto
  then show ?thesis by (simp add: joined_def del: fun_upd_apply)
qed

lemma exec_Wait:
  assumes inv: "fib_inv s" and al: "allowed (Wait k) s"
  shows "\<exists>t. exec (Wait k) s = Some t \<and> fib_inv t \<and> lives (living s) s t"
proof -
  let ?rt = "fb_rt s" and ?a = "rt_active (fb_rt s)"
  have a: "?a \<noteq> rt_dispatcher ?rt" and idle: "fb_pend s ?a = Idle" using al by (auto simp: allowed_def Let_def)
  note f = acting [OF inv a idle]
  have C: "rt_core (held s) (?rt\<lparr>rt_splk := [k]\<rparr>)" using f(1) by simp
  have wl: "wait_link ?a (Waiters k) (?rt\<lparr>rt_splk := [k]\<rparr>) =
      Some (linked ?a (Waiters k) (?rt\<lparr>rt_splk := [k]\<rparr>))"
    "rt_core (held s) (linked ?a (Waiters k) (?rt\<lparr>rt_splk := [k]\<rparr>))"
    using wait_link_core [OF C, of ?a "Waiters k"] f(2,5) a by simp_all
  have ne: "rqueue (linked ?a (Waiters k) (?rt\<lparr>rt_splk := [k]\<rparr>)) \<noteq> []" using f(7) by simp
  define r where "r = switched (linked ?a (Waiters k) ?rt)"
  have ex: "block_on k ?rt = Some r"
    using f(8) wl(1) suspend_eq(2) [OF wl(2) ne, of k]
    by (simp add: block_on_def splk_lock_def locked_switch(1) [OF f(8)] r_def)
  have "\<forall>j. Waiters k = Joiners j \<longrightarrow> runnable ?rt j" by simp
  note ls = link_and_switch [OF inv a idle this, folded r_def]
  have md: "rt_main r = rt_main ?rt" "rt_dispatcher r = rt_dispatcher ?rt"
    "rt_shutdown r = rt_shutdown ?rt"
    by (simp_all add: r_def)
  have P: "distinct (fb_handles s)" "set (fb_handles s) \<inter> joined (fb_pend s) = {}"
    "rt_shutdown ?rt \<longleftrightarrow> fb_pend s (rt_main ?rt) = Deleting"
    using inv by (auto simp: fib_inv_def pend_inv_def)
  have "joined ((fb_pend s)(?a := Blocked k)) = joined (fb_pend s)"
    using idle by (intro joined_other) auto
  then have "fib_inv (set_pend ?a (Blocked k) (s\<lparr>fb_rt := r, fb_handles := fb_handles s\<rparr>))"
    using P idle
    by (intro suspended_inv [OF inv a idle, where q = "Waiters k"])
      (auto simp: ls ls(2) [unfolded held_def] held_def pend_ok_def f(4) md)
  moreover have "lives (living s) s (set_pend ?a (Blocked k) (s\<lparr>fb_rt := r, fb_handles := fb_handles s\<rparr>))"
    by (intro livesI) (auto simp: living_def ls md)
  ultimately show ?thesis using ex by simp
qed

lemma exec_Wait_until:
  assumes inv: "fib_inv s" and al: "allowed (Wait_until k tp) s"
  shows "\<exists>t. exec (Wait_until k tp) s = Some t \<and> fib_inv t \<and> lives (living s) s t"
proof -
  let ?rt = "fb_rt s" and ?a = "rt_active (fb_rt s)"
  have a: "?a \<noteq> rt_dispatcher ?rt" and idle: "fb_pend s ?a = Idle" using al by (auto simp: allowed_def Let_def)
  note f = acting [OF inv a idle]
  have L: "wait_link ?a (Waiters k) (?rt\<lparr>rt_splk := l\<rparr>) = Some (linked ?a (Waiters k) (?rt\<lparr>rt_splk := l\<rparr>))"
    "rt_inv (held s) (linked ?a (Waiters k) (?rt\<lparr>rt_splk := l\<rparr>))"
    "runnable (linked ?a (Waiters k) (?rt\<lparr>rt_splk := l\<rparr>)) d = runnable ?rt d" for l d
  proof -
    have C: "rt_core (held s) (?rt\<lparr>rt_splk := l\<rparr>)" using f(1) by simp
    note wl = wait_link_core [OF C, of ?a "Waiters k"]
    show "wait_link ?a (Waiters k) (?rt\<lparr>rt_splk := l\<rparr>) = Some (linked ?a (Waiters k) (?rt\<lparr>rt_splk := l\<rparr>))"
      "runnable (linked ?a (Waiters k) (?rt\<lparr>rt_splk := l\<rparr>)) d = runnable ?rt d"
      using wl(1,3) f(2,5) a by simp_all
    show "rt_inv (held s) (linked ?a (Waiters k) (?rt\<lparr>rt_splk := l\<rparr>))"
      using wl(2) f(2,5) a active_linked [OF C, of ?a] inv by (simp add: rt_inv_def active_ok_def fib_inv_def)
  qed
  have self: "?rt\<lparr>rt_splk := []\<rparr> = ?rt" using f(8) by simp
  let ?k = "linked ?a (Waiters k) ?rt"
  let ?r = "switched (slept ?a tp ?k)"
  have ex: "block_on_until k tp ?rt = Some ?r"
    using f(8) L(1) [of "[k]"] wait_until_inv(2) [OF L(2) [of "[k]"], of tp k] a
    by (simp add: block_on_until_def splk_lock_def locked_switch(2) [OF f(8)])
  note L0 = L [of "[]", unfolded self]
  have I: "rt_inv (held s) ?r" using wait_until_inv(3) [OF L0(2), of tp] a by simp
  have K: "rt_core (held s) ?k" using L0(2) by (simp add: rt_inv_def)
  have sl: "runnable (slept ?a tp ?k) d = runnable ?rt d"
    "hook_of (slept ?a tp ?k) d = (if d = ?a then Some (Waiters k) else hook_of ?rt d)"
    "tp_of (slept ?a tp ?k) d = (if d = ?a then tp else tp_of ?rt d)" for d
  proof -
    obtain x where x: "rt_context ?rt ?a = Some x" using f(2) by (auto simp: runnable_context)
    have "runnable ?k ?a" "?a \<notin> set (rqueue ?k)" "?a \<notin> set (rt_sleep ?k)" "?a \<noteq> rt_dispatcher ?k"
      using L0(3) f(2-4) a by simp_all
    note s = sleep_link_core(3-5) [OF K this]
    have "tp_of ?k d = tp_of ?rt d" using x by (simp add: linked_def hooked_status(2))
    then show "runnable (slept ?a tp ?k) d = runnable ?rt d"
      "hook_of (slept ?a tp ?k) d = (if d = ?a then Some (Waiters k) else hook_of ?rt d)"
      "tp_of (slept ?a tp ?k) d = (if d = ?a then tp else tp_of ?rt d)"
      using s L0(3) by simp_all
  qed
  have od: "on_deck ?r = on_deck ?rt" using f(7) by (simp add: on_deck_def [of ?rt])
  have P: "pend_inv s" using inv by (simp add: fib_inv_def)
  have jn: "joined ((fb_pend s)(?a := Timed k tp)) = joined (fb_pend s)"
    using idle by (intro joined_other) auto
  have "fib_inv (set_pend ?a (Timed k tp) (s\<lparr>fb_rt := ?r, fb_handles := fb_handles s\<rparr>))"
  proof (rule suspended_inv [OF inv a idle, where q = "Waiters k"])
    show "pend_ok ?r (fb_now s) ?a (Timed k tp)" using sl by (simp add: pend_ok_def)
  qed (use P idle jn I od sl f in \<open>simp_all add: pend_inv_def held_def\<close>)
  moreover have "lives (living s) s (set_pend ?a (Timed k tp) (s\<lparr>fb_rt := ?r, fb_handles := fb_handles s\<rparr>))"
    by (intro livesI) (auto simp: living_def sl)
  ultimately show ?thesis using ex by simp
qed

lemma exec_Join:
  assumes inv: "fib_inv s" and al: "allowed (Join c) s"
  shows "\<exists>t. exec (Join c) s = Some t \<and> fib_inv t \<and> lives (living s) s t"
proof -
  let ?rt = "fb_rt s" and ?a = "rt_active (fb_rt s)" and ?hs = "remove1 c (fb_handles s)"
  have a: "?a \<noteq> rt_dispatcher ?rt" and idle: "fb_pend s ?a = Idle" and c: "c \<in> set (fb_handles s)"
    using al by (auto simp: allowed_def Let_def)
  note f = acting [OF inv a idle]
  have P: "pend_inv s" using inv by (simp add: fib_inv_def)
  show ?thesis
  proof (cases "c = ?a")
    case True
    then show ?thesis using inv by (simp add: fiber_join_def lives_refl)
  next
    case False
    have ch: "c \<in> held s" using c by (simp add: held_def)
    obtain x where x: "rt_context ?rt c = Some x" "c \<noteq> rt_main ?rt" "c \<noteq> rt_dispatcher ?rt"
      using refs_dom [OF f(1), of c] ch by blast
    show ?thesis
    proof (cases "cx_terminated x")
      case True
      with handle_gone [OF inv a idle c] x False show ?thesis
        by (simp add: fiber_join_def context_join_def)
    next
      case nt: False
      with x refs_at(3) [OF f(1) x] have rc: "runnable ?rt c" by (simp add: runnable_def)
      define r where "r = switched (linked ?a (Joiners c) ?rt)"
      have "\<forall>j. Joiners c = Joiners j \<longrightarrow> runnable ?rt j" using rc by simp
      note ls = link_and_switch [OF inv a idle this, folded r_def]
      have md: "rt_main r = rt_main ?rt" "rt_dispatcher r = rt_dispatcher ?rt"
        "rt_shutdown r = rt_shutdown ?rt"
        by (simp_all add: r_def)
      have "fiber_join (Some c) ?rt = Some (Inr (True, r))"
        using False x nt ls(1) by (cases "wait_link ?a (Joiners c) ?rt") (auto simp: fiber_join_def context_join_def)
      then have ex: "exec (Join c) s = Some (set_pend ?a (Joining c) (s\<lparr>fb_rt := r, fb_handles := ?hs\<rparr>))"
        by simp
      have dj: "distinct (fb_handles s)" "set (fb_handles s) \<inter> joined (fb_pend s) = {}"
        "rt_shutdown ?rt \<longleftrightarrow> fb_pend s (rt_main ?rt) = Deleting"
        using P by (auto simp: pend_inv_def)
      have jn: "joined ((fb_pend s)(?a := Joining c)) = insert c (joined (fb_pend s))"
      proof
        show "insert c (joined (fb_pend s)) \<subseteq> joined ((fb_pend s)(?a := Joining c))"
        proof
          fix j assume "j \<in> insert c (joined (fb_pend s))"
          then consider "j = c" | d where "fb_pend s d = Joining j" by (auto simp: joined_def)
          then have "\<exists>d. ((fb_pend s)(?a := Joining c)) d = Joining j"
          proof cases
            case 1
            then show ?thesis by (intro exI [of _ ?a]) simp
          next
            case (2 d)
            with idle show ?thesis by (intro exI [of _ d]) auto
          qed
          then show "j \<in> joined ((fb_pend s)(?a := Joining c))" by (auto simp: joined_def)
        qed
      qed (use joined_upd [of "fb_pend s" ?a "Joining c"] in auto)
      have "fib_inv (set_pend ?a (Joining c) (s\<lparr>fb_rt := r, fb_handles := ?hs\<rparr>))"
      proof (rule suspended_inv [OF inv a idle, where q = "Joiners c"])
        show "set ?hs \<union> joined ((fb_pend s)(?a := Joining c)) = held s"
          unfolding jn using c dj(1) by (auto simp: held_def)
        show "set ?hs \<inter> (joined (fb_pend s) \<union> {j. Joining c = Joining j}) = {}"
          using dj(1,2) by auto
      qed (use dj c idle rc ls md f(4) in \<open>auto simp: pend_ok_def\<close>)
      moreover have "lives (living s) s (set_pend ?a (Joining c) (s\<lparr>fb_rt := r, fb_handles := ?hs\<rparr>))"
        by (intro livesI) (auto simp: living_def ls md)
      ultimately show ?thesis using ex by blast
    qed
  qed
qed

lemma exec_Delete:
  assumes inv: "fib_inv s" and al: "allowed Delete s"
  shows "\<exists>t. exec Delete s = Some t \<and> fib_inv t \<and> lives (living s) s t"
proof -
  let ?a = "rt_active (fb_rt s)" and ?d = "rt_dispatcher (fb_rt s)"
  have a: "?a \<noteq> ?d" and idle: "fb_pend s ?a = Idle" and m: "?a = rt_main (fb_rt s)"
    using al by (auto simp: allowed_def Let_def)
  note f = acting [OF inv a idle]
  have P: "pend_inv s" using inv by (simp add: fib_inv_def)
  obtain y where y: "rt_context (fb_rt s) ?d = Some y" "\<not> cx_terminated y" "runnable (fb_rt s) ?d"
    using f(1) by (auto simp: rt_core_def inv_pinned_def runnable_context)
  define r where "r = switched (linked ?a (Joiners ?d) (fb_rt s))"
  have "\<forall>j. Joiners ?d = Joiners j \<longrightarrow> runnable (fb_rt s) j" using y(3) by simp
  note ls = link_and_switch [OF inv a idle this, folded r_def]
  let ?r = "r\<lparr>rt_shutdown := True\<rparr>"
  have md: "rt_main r = rt_main (fb_rt s)" "rt_dispatcher r = ?d" by (simp_all add: r_def)
  have comm: "linked b q (rt\<lparr>rt_shutdown := True\<rparr>) = (linked b q rt)\<lparr>rt_shutdown := True\<rparr>"
    "switched (rt\<lparr>rt_shutdown := True\<rparr>) = (switched rt)\<lparr>rt_shutdown := True\<rparr>" for b q rt
    by (simp_all add: linked_def hooked_def set_context_def switched_def)
  have C: "rt_core (held s) ((fb_rt s)\<lparr>rt_shutdown := True\<rparr>)" using f(1) by simp
  have wl: "wait_link ?a (Joiners ?d) ((fb_rt s)\<lparr>rt_shutdown := True\<rparr>) =
      Some (linked ?a (Joiners ?d) ((fb_rt s)\<lparr>rt_shutdown := True\<rparr>))"
    "rt_core (held s) (linked ?a (Joiners ?d) ((fb_rt s)\<lparr>rt_shutdown := True\<rparr>))"
    using wait_link_core [OF C, of ?a "Joiners ?d"] f(2,5) a y(3) by simp_all
  have ne: "rqueue (linked ?a (Joiners ?d) ((fb_rt s)\<lparr>rt_shutdown := True\<rparr>)) \<noteq> []" using f(7) by simp
  have "scheduler_delete (fb_rt s) = Some ?r"
    using m y wl(1) suspend_eq(1) [OF wl(2) ne]
    by (simp add: scheduler_delete_def context_join_def comm r_def)
  then have ex: "exec Delete s = Some (set_pend ?a Deleting (s\<lparr>fb_rt := ?r, fb_handles := fb_handles s\<rparr>))"
    by simp
  have jn: "joined ((fb_pend s)(?a := Deleting)) = joined (fb_pend s)"
    using idle by (intro joined_other) auto
  have dj: "distinct (fb_handles s)" "set (fb_handles s) \<inter> joined (fb_pend s) = {}"
    using P by (auto simp: pend_inv_def)
  have "fib_inv (set_pend ?a Deleting (s\<lparr>fb_rt := ?r, fb_handles := fb_handles s\<rparr>))"
    by (rule suspended_inv [OF inv a idle, where q = "Joiners ?d"])
      (use dj jn y(3) ls md m in \<open>auto simp: pend_ok_def held_def\<close>)
  moreover have "lives (living s) s (set_pend ?a Deleting (s\<lparr>fb_rt := ?r, fb_handles := fb_handles s\<rparr>))"
    by (intro livesI) (auto simp: living_def ls md)
  ultimately show ?thesis using ex by blast
qed

lemma tp_attached: "d \<noteq> c \<Longrightarrow> tp_of (attached policy c rt) d = tp_of rt d"
  by (simp add: attached_def tp_of_def)

lemma exec_Spawn:
  assumes inv: "fib_inv s" and al: "allowed (Spawn policy c) s"
  shows "\<exists>t. exec (Spawn policy c) s = Some t \<and> fib_inv t \<and> lives (insert c (living s)) s t"
proof -
  let ?rt = "fb_rt s" and ?a = "rt_active (fb_rt s)"
  have a: "?a \<noteq> rt_dispatcher ?rt" and idle: "fb_pend s ?a = Idle" and new: "rt_context ?rt c = None"
    using al by (auto simp: allowed_def Let_def)
  note f = acting [OF inv a idle]
  have I: "rt_inv (held s) ?rt" and P: "pend_inv s" using inv by (auto simp: fib_inv_def)
  have n: "\<not> runnable ?rt c" using new by (simp add: runnable_def)
  note off = not_runnable_idle [OF f(1) n]
  have ne: "c \<noteq> ?a" using f(2) n by auto
  note at = attached_core [OF f(1) new] and fn = fiber_new_inv [OF I new]
  have hn: "c \<notin> held s" using held_live(3) [OF f(1)] new by blast
  have pc: "fb_pend s c = Idle" using pend_live [OF P] n by blast
  have H: "set (c # fb_handles s) \<union> joined (fb_pend s) = insert c (held s)" by (auto simp: held_def)
  have dj: "distinct (c # fb_handles s)" "set (c # fb_handles s) \<inter> joined (fb_pend s) = {}"
    using P hn by (auto simp: pend_inv_def held_def)
  have run: "\<not> runnable (attached policy c ?rt) j" if "j \<in> joined (fb_pend s)" "\<not> runnable ?rt j" for j
    using that hn at(2) by (auto simp: held_def)
  define r where "r = (case policy of
      launch_post \<Rightarrow> made_ready c (attached policy c ?rt)
    | launch_dispatch \<Rightarrow> made_ready ?a ((attached policy c ?rt)\<lparr>rt_active := c\<rparr>))"
  have ex: "fiber_new policy c ?rt = Some r" "rt_inv (insert c (held s)) r"
    using fn by (cases policy; simp add: r_def)+
  have sel: "rt_main r = rt_main ?rt" "rt_dispatcher r = rt_dispatcher ?rt" "rt_splk r = []"
    "rt_shutdown r = rt_shutdown ?rt" "set (rt_sleep r) = set (rt_sleep ?rt)"
    "hook_of r d = hook_of ?rt d" "runnable r d = runnable (attached policy c ?rt) d"
    "tp_of r d = tp_of (attached policy c ?rt) d" for d
    using f(4,8) off at(3) by (cases policy; simp add: r_def remove1_idem)+
  have od: "on_deck r = insert c (on_deck ?rt)"
    using f(4) by (cases policy) (auto simp: r_def on_deck_def [of ?rt] on_deck_def [of "_\<lparr>rt_active := c\<rparr>"])
  have "fib_inv (s\<lparr>fb_rt := r, fb_handles := c # fb_handles s\<rparr>)"
  proof (rule fib_inv_hs [OF inv idle, where X = "{c}"])
    show "none_lost r" using inv unfolding fib_inv_def none_lost_def od sel at(2) by auto
    show "others_kept ?a {c} (fb_now s) ?rt r"
      unfolding others_kept_def od sel using off by (auto simp: tp_attached)
  qed (use ex(2) H dj sel f run at(2) pc ne pend_live [OF P] in auto)
  moreover have "lives (insert c (living s)) s (s\<lparr>fb_rt := r, fb_handles := c # fb_handles s\<rparr>)"
    by (intro livesI) (auto simp: living_def sel at(2))
  ultimately show ?thesis using ex(1) by simp
qed

lemma exec_Finish:
  assumes inv: "fib_inv s" and al: "allowed Finish s"
  shows "\<exists>t. exec Finish s = Some t \<and> fib_inv t \<and> lives (living s - {rt_active (fb_rt s)}) s t"
proof -
  let ?rt = "fb_rt s" and ?a = "rt_active (fb_rt s)" and ?js = "set (rt_wait (fb_rt s) (Joiners (rt_active (fb_rt s))))"
  have a: "?a \<noteq> rt_dispatcher ?rt" and idle: "fb_pend s ?a = Idle" and m: "?a \<noteq> rt_main ?rt"
    using al by (auto simp: allowed_def Let_def)
  note f = acting [OF inv a idle]
  have I: "rt_inv (held s) ?rt" and P: "pend_inv s" using inv by (auto simp: fib_inv_def)
  obtain r where r: "set_terminated ?rt = Some r" "rt_inv (held s) r"
    "insert (rt_active r) (set (rqueue r)) = set (rqueue ?rt) \<union> ?js"
    "rt_main r = rt_main ?rt" "rt_dispatcher r = rt_dispatcher ?rt" "rt_shutdown r = rt_shutdown ?rt"
    "rt_splk r = rt_splk ?rt" "set (rt_sleep r) = set (rt_sleep ?rt) - ?js"
    "\<forall>d. runnable r d \<longleftrightarrow> runnable ?rt d \<and> d \<noteq> ?a"
    "\<forall>d. hook_of r d = (if d \<in> ?js then None else hook_of ?rt d)" "\<forall>d. tp_of r d = tp_of ?rt d"
    using set_terminated_inv [OF I m a f(5)] by metis
  have js: "d \<in> ?js \<longleftrightarrow> hook_of ?rt d = Some (Joiners ?a)" for d by (rule core_hook(1) [OF f(1)])
  have pj: "fb_pend s d = Joining ?a" if "d \<in> ?js" for d
  proof -
    have "pend_ok ?rt (fb_now s) d (fb_pend s d)" using P by (simp add: pend_inv_def)
    with that js a show ?thesis by (auto simp: pend_ok_def split: pending.splits)
  qed
  have od: "on_deck r = set (rqueue ?rt) \<union> ?js \<union> set (rt_sleep ?rt)"
    using r(3,8) unfolding on_deck_def by blast
  have "fib_inv (s\<lparr>fb_rt := r\<rparr>)"
  proof (rule fib_inv_same [OF inv idle, where X = ?js])
    show "?a \<notin> ?js" using js f(5) by simp
    show "none_lost r" unfolding none_lost_def
    proof (intro allI impI)
      fix d assume "runnable r d"
      then have d: "runnable ?rt d" "d \<noteq> ?a" using r(9) by auto
      then have "d \<in> on_deck ?rt \<or> hook_of ?rt d \<noteq> None" using inv by (simp add: fib_inv_def none_lost_def)
      with d r(10) show "d \<in> on_deck r \<or> hook_of r d \<noteq> None" by (auto simp: od on_deck_def [of ?rt])
    qed
    show "others_kept ?a ?js (fb_now s) ?rt r"
      unfolding others_kept_def od using r by (auto simp: on_deck_def)
    show "fb_pend s d \<noteq> Deleting \<and> (\<forall>j. fb_pend s d = Joining j \<longrightarrow> \<not> runnable r j)" if "d \<in> ?js" for d
      using pj [OF that] r(9) by simp
  qed (use r f js pend_live [OF P] in auto)
  moreover have "lives (living s - {?a}) s (s\<lparr>fb_rt := r\<rparr>)"
    by (intro livesI) (auto simp: living_def r(4,5,9))
  ultimately show ?thesis using r(1) by simp
qed

text \<open>The active fiber finishes a suspended operation.\<close>

lemma finished_inv:
  assumes inv: "fib_inv s" and a: "rt_active (fb_rt s) \<noteq> rt_dispatcher (fb_rt s)"
    and nd: "fb_pend s (rt_active (fb_rt s)) \<noteq> Deleting"
    and rt: "rt_inv (set (fb_handles s) \<union> joined ((fb_pend s)(rt_active (fb_rt s) := Idle))) r"
      "rt_splk r = []" "\<And>d. runnable r d = runnable (fb_rt s) d"
      "on_deck r = on_deck (fb_rt s)" "set (rt_sleep r) = set (rt_sleep (fb_rt s))"
      "rt_main r = rt_main (fb_rt s)" "rt_dispatcher r = rt_dispatcher (fb_rt s)"
      "rt_shutdown r = rt_shutdown (fb_rt s)"
      "\<And>d. hook_of r d = (if d = rt_active (fb_rt s) then None else hook_of (fb_rt s) d)"
      "\<And>d. d \<in> set (rt_sleep r) \<Longrightarrow> tp_of r d = tp_of (fb_rt s) d"
  shows "fib_inv (set_pend (rt_active (fb_rt s)) Idle (s\<lparr>fb_rt := r\<rparr>))"
proof -
  let ?rt = "fb_rt s" and ?a = "rt_active (fb_rt s)"
  have P: "pend_inv s" using inv by (simp add: fib_inv_def)
  have k: "others_kept ?a {} (fb_now s) ?rt r" unfolding others_kept_def using rt by simp
  have sh: "rt_shutdown r \<longleftrightarrow> ((fb_pend s)(?a := Idle)) (rt_main ?rt) = Deleting"
  proof (cases "?a = rt_main ?rt")
    case True
    with nd P rt(8) show ?thesis by (auto simp: pend_inv_def)
  next
    case False
    with P rt(8) show ?thesis by (auto simp: pend_inv_def)
  qed
  have "pend_inv (set_pend ?a Idle (s\<lparr>fb_rt := r, fb_handles := fb_handles s\<rparr>))"
    by (rule pend_inv_step [OF P k])
      (use rt P sh pend_live [OF P] in \<open>auto simp: pend_ok_def pend_inv_def\<close>)
  moreover have "?a \<in> on_deck ?rt" by (simp add: on_deck_def)
  then have "none_lost r" using inv rt(3,4,9) unfolding fib_inv_def none_lost_def by auto
  ultimately show ?thesis using rt(1,2) by (simp add: fib_inv_def held_def)
qed

lemma exec_Resumed:
  assumes inv: "fib_inv s" and al: "allowed Resumed s"
  shows "\<exists>t. exec Resumed s = Some t \<and> fib_inv t \<and> lives (living s) s t"
proof -
  let ?rt = "fb_rt s" and ?a = "rt_active (fb_rt s)"
  have a: "?a \<noteq> rt_dispatcher ?rt" and np: "fb_pend s ?a \<noteq> Idle" using al by (auto simp: allowed_def Let_def)
  have I: "rt_inv (held s) ?rt" and P: "pend_inv s" and L: "rt_splk ?rt = []"
    using inv by (auto simp: fib_inv_def)
  have C: "rt_core (held s) ?rt" and A: "?a \<notin> set (rt_sleep ?rt)" "runnable ?rt ?a"
    using I by (auto simp: rt_inv_def active_ok_def)
  have od: "?a \<in> on_deck ?rt" by (simp add: on_deck_def)
  have ok: "pend_ok ?rt (fb_now s) ?a (fb_pend s ?a)" using P by (simp add: pend_inv_def)
  have self: "\<And>d. hook_of ?rt ?a = None \<Longrightarrow> hook_of ?rt d = (if d = ?a then None else hook_of ?rt d)" by simp
  show ?thesis
  proof (cases "fb_pend s ?a")
    case Idle
    with np show ?thesis by simp
  next
    case (Joining c)
    with ok od have h: "hook_of ?rt ?a = None" by (auto simp: pend_ok_def)
    have ch: "c \<in> held s" using Joining by (auto simp: held_def joined_def)
    have un: "unlinked ?a ?rt = ?rt" using h by (simp add: unlinked_def)
    have only: "\<And>d. fb_pend s d = Joining c \<Longrightarrow> d = ?a" using P Joining unfolding pend_inv_def by blast
    have "joined ((fb_pend s)(?a := Idle)) = joined (fb_pend s) - {c}"
    proof -
      have "((fb_pend s)(?a := Idle)) d = Joining j \<longleftrightarrow> fb_pend s d = Joining j \<and> j \<noteq> c" for d j
        using only [of d] Joining by (cases "d = ?a") auto
      then show ?thesis by (auto simp: joined_def simp del: fun_upd_apply)
    qed
    moreover have "c \<notin> set (fb_handles s)" using P Joining by (auto simp: pend_inv_def joined_def)
    ultimately have H: "set (fb_handles s) \<union> joined ((fb_pend s)(?a := Idle)) = held s - {c}"
      by (auto simp: held_def)
    let ?r = "handle_released c ?rt"
    have "exec Resumed s = Some (set_pend ?a Idle (s\<lparr>fb_rt := ?r\<rparr>))"
      using Joining wait_unlink_core(1) [OF C A(2)] un handle_release_inv(1) [OF I ch]
      by (simp add: fiber_join_resumed_def context_join_resumed_def Let_def)
    moreover have "fib_inv (set_pend ?a Idle (s\<lparr>fb_rt := ?r\<rparr>))"
      by (rule finished_inv [OF inv a])
        (use Joining H handle_release_inv(2) [OF I ch] handle_release_core(3) [OF C ch]
          handle_released_kept [OF C ch] L h in auto)
    moreover have "lives (living s) s (set_pend ?a Idle (s\<lparr>fb_rt := ?r\<rparr>))"
      by (intro livesI) (auto simp: living_def handle_release_core(3) [OF C ch])
    ultimately show ?thesis by blast
  next
    case (Blocked k)
    with ok od have h: "hook_of ?rt ?a = None" by (auto simp: pend_ok_def)
    then have "exec Resumed s = Some (set_pend ?a Idle (s\<lparr>fb_rt := ?rt\<rparr>))"
      using Blocked by (simp add: wait_is_linked_def hook_of_def split: option.splits)
    moreover have "joined ((fb_pend s)(?a := Idle)) = joined (fb_pend s)"
      using Blocked by (intro joined_other) auto
    then have "fib_inv (set_pend ?a Idle (s\<lparr>fb_rt := ?rt\<rparr>))"
      by (intro finished_inv [OF inv a]) (use Blocked I L self [OF h] in \<open>auto simp: held_def h\<close>)
    moreover have "lives (living s) s (set_pend ?a Idle (s\<lparr>fb_rt := ?rt\<rparr>))" by (simp add: lives_def living_def)
    ultimately show ?thesis by blast
  next
    case (Timed k tp)
    have jn: "joined ((fb_pend s)(?a := Idle)) = joined (fb_pend s)"
      using Timed by (intro joined_other) auto
    show ?thesis
    proof (cases "fb_now s < tp")
      case True
      with ok Timed A(1) have h: "hook_of ?rt ?a = None" by (auto simp: pend_ok_def)
      then have "exec Resumed s = Some (set_pend ?a Idle (s\<lparr>fb_rt := ?rt\<rparr>))"
        using Timed True
        by (simp add: timed_resumed_def wait_until_result_def wait_is_linked_def hook_of_def
            split: option.splits)
      moreover have "fib_inv (set_pend ?a Idle (s\<lparr>fb_rt := ?rt\<rparr>))"
        by (intro finished_inv [OF inv a]) (use Timed I L jn self [OF h] in \<open>auto simp: held_def h\<close>)
      moreover have "lives (living s) s (set_pend ?a Idle (s\<lparr>fb_rt := ?rt\<rparr>))" by (simp add: lives_def living_def)
      ultimately show ?thesis by blast
    next
      case False
      let ?l = "?rt\<lparr>rt_splk := [k]\<rparr>"
      have Cl: "rt_core (held s) ?l" "runnable ?l ?a" using C A(2) by simp_all
      note wu = wait_unlink_core [OF Cl]
      let ?r = "splk_unlock k (unlinked ?a ?l)"
      have ex: "exec Resumed s = Some (set_pend ?a Idle (s\<lparr>fb_rt := ?r\<rparr>))"
        using Timed False L wu(1)
        by (simp add: timed_resumed_def wait_until_result_def splk_lock_def Let_def)
      have run: "runnable ?r d = runnable ?rt d" for d using wu(3) by simp
      have "rt_inv (held s) ?r"
        using wu(2) active_unlinked [OF Cl] I by (simp add: rt_inv_def active_ok_def)
      moreover have "tp_of ?r d = tp_of ?rt d" for d
        using A(2) by (auto simp: unlinked_def hooked_status(2) runnable_context split: option.splits)
      ultimately have "fib_inv (set_pend ?a Idle (s\<lparr>fb_rt := ?r\<rparr>))"
        by (intro finished_inv [OF inv a]) (use Timed L jn run in \<open>auto simp: held_def\<close>)
      moreover have "lives (living s) s (set_pend ?a Idle (s\<lparr>fb_rt := ?r\<rparr>))"
        by (intro livesI) (auto simp: living_def wu(3))
      ultimately show ?thesis using ex by blast
    qed
  next
    case Deleting
    with ok od show ?thesis by (auto simp: pend_ok_def)
  qed
qed

lemma disp_idle: "fib_inv s \<Longrightarrow> fb_pend s (rt_dispatcher (fb_rt s)) = Idle"
  by (auto simp: fib_inv_def pend_inv_def)

lemma turned_on_deck:
  assumes t: "turned now rt r" and a: "rt_active rt = rt_dispatcher rt"
  shows "on_deck r = on_deck rt"
proof -
  have parts: "set (rt_sleep rt) = set (expired now rt) \<union> set (asleep now rt)"
    by (metis expired_def asleep_def set_append takeWhile_dropWhile_id)
  have sl: "rt_sleep r = asleep now rt" using t by (simp add: turned_def)
  show ?thesis
  proof (cases "rqueue rt @ expired now rt")
    case Nil
    then have "rt_active r = rt_dispatcher rt" "rqueue r = []" using t by (auto simp: turned_def)
    with Nil parts sl a show ?thesis by (auto simp: on_deck_def)
  next
    case (Cons n rest)
    then have r: "rt_active r = n" "rqueue r = rest @ [rt_dispatcher rt]" using t by (auto simp: turned_def)
    have "set (rqueue rt) \<union> set (expired now rt) = insert n (set rest)"
      using arg_cong [OF Cons, of set] by simp
    with r parts sl a show ?thesis by (auto simp: on_deck_def)
  qed
qed

lemma exec_Dispatch_turn:
  assumes inv: "fib_inv s" and al: "allowed Dispatch s"
    and go: "\<not> (rt_shutdown (fb_rt s) \<and> rt_worker (fb_rt s) = [])"
  shows "\<exists>t. exec Dispatch s = Some t \<and> fib_inv t \<and> lives (living s) s t"
proof -
  let ?rt = "fb_rt s" and ?now = "fb_now s" and ?d = "rt_dispatcher (fb_rt s)"
  have a: "rt_active ?rt = ?d" using al by (simp add: allowed_def Let_def)
  have I: "rt_inv (held s) ?rt" and P: "pend_inv s" and L: "rt_splk ?rt = []"
    using inv by (auto simp: fib_inv_def)
  obtain r where r: "dispatch ?now ?rt = Some r" "rt_inv (held s) r" "turned ?now ?rt r"
    using dispatch_inv [OF I a go] by blast
  have t: "rt_sleep r = asleep ?now ?rt" "rt_main r = rt_main ?rt" "rt_dispatcher r = ?d"
    "rt_splk r = rt_splk ?rt" "rt_shutdown r = rt_shutdown ?rt" "\<forall>d. runnable r d = runnable ?rt d"
    "\<forall>d. hook_of r d = hook_of ?rt d" "\<forall>d \<in> set (rt_sleep r). tp_of r d = tp_of ?rt d"
    using r(3) by (simp_all add: turned_def)
  have od: "on_deck r = on_deck ?rt" by (rule turned_on_deck [OF r(3) a])
  have sl: "d \<in> set (rt_sleep ?rt) \<longleftrightarrow> d \<in> set (expired ?now ?rt) \<or> d \<in> set (asleep ?now ?rt)" for d
    by (metis UnE UnI1 UnI2 expired_def asleep_def set_append takeWhile_dropWhile_id)
  have dh: "hook_of ?rt ?d = None"
    using I by (simp add: rt_inv_def rt_core_def inv_wait_def)
  have "fib_inv (s\<lparr>fb_rt := r\<rparr>)"
  proof (rule fib_inv_same [OF inv disp_idle [OF inv], where X = "{}"])
    show "none_lost r" using inv t(6,7) od by (simp add: fib_inv_def none_lost_def)
    show "others_kept ?d {} ?now ?rt r"
      unfolding others_kept_def od using t sl
      by (auto simp: expired_def dest: set_takeWhileD)
  qed (use r(2) L t dh pend_live [OF P] in auto)
  moreover have "lives (living s) s (s\<lparr>fb_rt := r\<rparr>)"
    by (intro livesI) (auto simp: living_def t(2,3,6))
  ultimately show ?thesis using r(1) go by auto
qed

lemma exec_Dispatch_exit:
  assumes inv: "fib_inv s" and al: "allowed Dispatch s"
    and go: "rt_shutdown (fb_rt s)" "rt_worker (fb_rt s) = []"
  shows "\<exists>t. exec Dispatch s = Some t \<and> fb_deleted t \<and> ended_inv t \<and> rt_main (fb_rt t) = rt_main (fb_rt s) \<and>
    living s = {rt_main (fb_rt s), rt_dispatcher (fb_rt s)}"
proof -
  let ?rt = "fb_rt s" and ?d = "rt_dispatcher (fb_rt s)" and ?m = "rt_main (fb_rt s)"
  have a: "rt_active ?rt = ?d" using al by (simp add: allowed_def Let_def)
  have I: "rt_inv (held s) ?rt" and P: "pend_inv s" and C: "rt_core (held s) ?rt"
    using inv by (auto simp: fib_inv_def rt_inv_def)
  note ex = dispatch_exit [OF I a go]
  have pm: "fb_pend s ?m = Deleting" using P go(1) by (simp add: pend_inv_def)
  have "pend_ok ?rt (fb_now s) ?m (fb_pend s ?m)" using P by (simp add: pend_inv_def)
  with pm have m: "hook_of ?rt ?m = Some (Joiners ?d)" "?m \<notin> on_deck ?rt" by (simp_all add: pend_ok_def)
  then have q: "rqueue ?rt = []" "rt_sleep ?rt = []" using ex(3,4) by (auto simp: on_deck_def subset_insert)
  have md: "?m \<noteq> ?d" "runnable ?rt ?m" using C by (simp_all add: rt_core_def inv_pinned_def)
  obtain x y where x: "rt_context ?rt ?m = Some x" and y: "rt_context ?rt ?d = Some y" "cx_use_count y = 1"
    using C by (auto simp: rt_core_def inv_pinned_def runnable_context inv_refs_def disp_held_def)
  have wq: "set (rt_wait ?rt (Joiners ?d)) \<subseteq> {?m}"
  proof
    fix c assume "c \<in> set (rt_wait ?rt (Joiners ?d))"
    then have h: "hook_of ?rt c = Some (Joiners ?d)" using core_hook(1) [OF C] by simp
    have "pend_ok ?rt (fb_now s) c (fb_pend s c)" using P by (simp add: pend_inv_def)
    moreover have "fb_pend s c \<noteq> Joining ?d"
      using held_live(2) [OF C, of ?d] by (auto simp: held_def joined_def)
    ultimately show "c \<in> {?m}" using h by (auto simp: pend_ok_def split: pending.splits)
  qed
  have "?m \<in> set (rt_wait ?rt (Joiners ?d))" using core_hook(1) [OF C, of ?m "Joiners ?d"] m(1) by simp
  with wq core_hook(2) [OF C, of "Joiners ?d"] have w: "rt_wait ?rt (Joiners ?d) = [?m]"
    by (cases "rt_wait ?rt (Joiners ?d)") (auto simp: subset_singleton_iff)
  have dh: "hook_of ?rt ?d = None" using C by (simp add: rt_core_def inv_wait_def)
  then have yh: "cx_wait_hook y = None" using y by (simp add: hook_of_def)
  let ?r1 = "?rt\<lparr>rt_algo := notify (rt_algo ?rt), rt_active := ?m\<rparr>"
  let ?u = "unlinked ?m ?r1"
  have hm: "hook_of ?r1 ?m = Some (Joiners ?d)" using m(1) by simp
  have wu: "wait_unlink ?m ?r1 = Some ?u"
    using x hm by (simp add: wait_unlink_def unlinked_def hooked_def hook_of_def split: option.splits)
  have u: "rt_context ?u ?d = Some y" "rt_wait ?u (Joiners ?d) = []" "rt_worker ?u = []"
    "rt_terminated ?u = []" "rt_sleep ?u = []" "rqueue ?u = []" "rt_active ?u = ?m"
    "rt_main ?u = ?m" "rt_dispatcher ?u = ?d" "rt_contexts ?u = rt_contexts ?rt"
    "dom (rt_context ?u) = dom (rt_context ?rt)"
    using md y w q go ex(2) x hm rt_wait_unlinked(1) [OF hm]
    by (auto simp: notify_def unlinked_def hooked_def set_context_def split: option.splits)
  let ?t = "destroyed ?d ?u"
  have del: "scheduler_delete_resumed ?r1 = Some ?t"
    using wu u y yh
    by (simp add: scheduler_delete_resumed_def context_join_resumed_def linked_defs
        intrusive_ptr_release_def destroy_context_def destroyed_def wait_is_linked_def)
  have ex': "exec Dispatch s = Some (s\<lparr>fb_rt := ?t, fb_deleted := True\<rparr>)"
    using ex(1) go del by simp
  have nojoin: "joined (fb_pend s) = {}"
  proof -
    have "fb_pend s c \<noteq> Joining j" for c j
    proof
      assume c: "fb_pend s c = Joining j"
      then have "runnable ?rt c" "c \<noteq> ?d" using P by (auto simp: pend_inv_def)
      then have "c = ?m" using worker_facts [OF C, of c] go(2) by fastforce
      with c pm show False by simp
    qed
    then show ?thesis by (auto simp: joined_def)
  qed
  have dom: "dom (rt_context ?rt) = {?m, ?d} \<union> set (fb_handles s)"
  proof
    show "dom (rt_context ?rt) \<subseteq> {?m, ?d} \<union> set (fb_handles s)"
    proof
      fix c assume "c \<in> dom (rt_context ?rt)"
      then obtain z where z: "rt_context ?rt c = Some z" by auto
      show "c \<in> {?m, ?d} \<union> set (fb_handles s)"
      proof (rule ccontr)
        assume n: "c \<notin> {?m, ?d} \<union> set (fb_handles s)"
        with nojoin have "c \<notin> held s" by (simp add: held_def)
        with refs_at(1,2) [OF C z] n go(2) show False by simp
      qed
    qed
    show "{?m, ?d} \<union> set (fb_handles s) \<subseteq> dom (rt_context ?rt)"
      using x y held_live(3) [OF C] by (auto simp: held_def)
  qed
  have hs: "?m \<notin> set (fb_handles s)" "?d \<notin> set (fb_handles s)" "distinct (fb_handles s)"
    using held_live(1,2) [OF C] P by (auto simp: held_def pend_inv_def)
  have "rt_contexts ?rt = card (dom (rt_context ?rt))" using C by (simp add: rt_core_def inv_refs_def)
  also have "\<dots> = 2 + length (fb_handles s)"
    unfolding dom using hs md(1) by (simp add: distinct_card)
  finally have cnt: "rt_contexts ?t = Suc (length (fb_handles s))"
    using u(10) by (simp add: destroyed_def)
  have "dom (rt_context ?t) = {?m} \<union> set (fb_handles s)"
    using u(11) dom hs md(1) by (auto simp: destroyed_def)
  then have "rt_context ?t c \<noteq> None \<longleftrightarrow> c = ?m \<or> c \<in> set (fb_handles s)" for c
    by (metis Un_iff domIff insert_iff singletonD)
  moreover have "is_terminated ?t c" if c: "c \<in> set (fb_handles s)" for c
  proof -
    obtain z where z: "rt_context ?rt c = Some z" using held_live(3) [OF C, of c] c by (auto simp: held_def)
    have n: "c \<noteq> ?m" "c \<noteq> ?d" using c hs by auto
    then have "rt_context ?t c = Some z" using z x hm by (auto simp: destroyed_def unlinked_def hooked_def set_context_def)
    with refs_at(4) [OF C z n] go(2) show ?thesis by (simp add: is_terminated_def)
  qed
  ultimately have "ended_inv (s\<lparr>fb_rt := ?t, fb_deleted := True\<rparr>)"
    using u cnt unfolding ended_inv_def by (simp add: destroyed_def)
  moreover have "living s = {?m, ?d}"
  proof -
    have "c = ?m \<or> c = ?d" if "runnable ?rt c" for c using worker_facts [OF C that] go(2) by fastforce
    moreover have "runnable ?rt ?d" using C by (simp add: rt_core_def inv_pinned_def)
    ultimately show ?thesis using md(2) by (auto simp: living_def)
  qed
  ultimately show ?thesis using ex' u by (simp add: destroyed_def)
qed

lemma exec_Clock:
  assumes inv: "fib_inv s" and al: "allowed (Clock now) s"
  shows "fib_inv (s\<lparr>fb_now := now\<rparr>)"
proof -
  have le: "fb_now s \<le> now" using al by (simp add: allowed_def)
  have "pend_ok rt now c p" if "pend_ok rt (fb_now s) c p" for rt c p
    using that le by (auto simp: pend_ok_def split: pending.splits if_splits)
  with inv show ?thesis by (simp add: fib_inv_def pend_inv_def held_def)
qed

subsection \<open>Every reachable state\<close>

lemma exec_inv:
  assumes "fib_inv s" "allowed act s"
  shows "\<exists>t. exec act s = Some t \<and> (if fb_deleted t then ended_inv t else fib_inv t)"
proof -
  have nd: "\<not> fb_deleted s" using assms(2) by (simp add: allowed_def Let_def)
  have keep: "fb_deleted t = fb_deleted s" if "exec act s = Some t" "act \<noteq> Dispatch" for t
    using that by (cases act) (auto simp: Let_def split: Option.bind_splits sum.splits pending.splits if_splits)
  show ?thesis
  proof (cases "act = Dispatch")
    case True
    show ?thesis
    proof (cases "rt_shutdown (fb_rt s) \<and> rt_worker (fb_rt s) = []")
      case exit: True
      with exec_Dispatch_exit [OF assms(1)] assms(2) True show ?thesis by auto
    next
      case False
      with exec_Dispatch_turn [OF assms(1) _ False] assms(2) True obtain t where
        t: "exec Dispatch s = Some t" "fib_inv t" by blast
      then have "fb_deleted t = fb_deleted s" using False by (auto split: Option.bind_splits if_splits)
      with t nd True show ?thesis by auto
    qed
  next
    case False
    have "\<exists>t. exec act s = Some t \<and> fib_inv t"
    proof (cases act)
      case (Clock now)
      with exec_Clock [OF assms(1), of now] assms(2) show ?thesis by simp
    next
      case (Spawn p c)
      with assms exec_Spawn [OF assms(1)] show ?thesis by blast
    next
      case (Join c)
      with assms exec_Join [OF assms(1)] show ?thesis by blast
    next
      case (Detach c)
      with assms exec_Detach [OF assms(1)] show ?thesis by blast
    next
      case Yield_now
      with assms exec_Yield [OF assms(1)] show ?thesis by blast
    next
      case (Sleep_until tp)
      with assms exec_Sleep [OF assms(1)] show ?thesis by blast
    next
      case (Wait k)
      with assms exec_Wait [OF assms(1)] show ?thesis by blast
    next
      case (Wait_until k tp)
      with assms exec_Wait_until [OF assms(1)] show ?thesis by blast
    next
      case (Wake k)
      with assms exec_Wake [OF assms(1)] show ?thesis by blast
    next
      case Finish
      with assms exec_Finish [OF assms(1)] show ?thesis by blast
    next
      case Delete
      with assms exec_Delete [OF assms(1)] show ?thesis by blast
    next
      case Resumed
      with assms exec_Resumed [OF assms(1)] show ?thesis by blast
    qed (use False in simp)
    with keep False nd show ?thesis by fastforce
  qed
qed

text \<open>What a step makes of the contexts that have not ended, as long as the scheduler exists.\<close>

lemma exec_living:
  assumes "fib_inv s" "allowed act s" "exec act s = Some t" "\<not> fb_deleted t"
  shows "lives (case act of Spawn policy c \<Rightarrow> insert c (living s) | Finish \<Rightarrow> living s - {rt_active (fb_rt s)} | _ \<Rightarrow> living s) s t"
proof (cases act)
  case (Clock now)
  with assms(3) show ?thesis by (auto simp: lives_def living_def)
next
  case Dispatch
  with assms have "\<not> (rt_shutdown (fb_rt s) \<and> rt_worker (fb_rt s) = [])" by (auto split: Option.bind_splits)
  with exec_Dispatch_turn [OF assms(1)] assms Dispatch show ?thesis by fastforce
next
  case (Spawn policy c)
  with assms exec_Spawn [OF assms(1)] show ?thesis by fastforce
next
  case (Join c)
  with assms exec_Join [OF assms(1)] show ?thesis by fastforce
next
  case (Detach c)
  with assms exec_Detach [OF assms(1)] show ?thesis by fastforce
next
  case Yield_now
  with assms exec_Yield [OF assms(1)] show ?thesis by fastforce
next
  case (Sleep_until tp)
  with assms exec_Sleep [OF assms(1)] show ?thesis by fastforce
next
  case (Wait k)
  with assms exec_Wait [OF assms(1)] show ?thesis by fastforce
next
  case (Wait_until k tp)
  with assms exec_Wait_until [OF assms(1)] show ?thesis by fastforce
next
  case (Wake k)
  with assms exec_Wake [OF assms(1)] show ?thesis by fastforce
next
  case Finish
  with assms exec_Finish [OF assms(1)] show ?thesis by fastforce
next
  case Delete
  with assms exec_Delete [OF assms(1)] show ?thesis by fastforce
next
  case Resumed
  with assms exec_Resumed [OF assms(1)] show ?thesis by fastforce
qed

lemma fibers_new_inv:
  assumes "main \<noteq> disp"
  shows "fib_inv (fibers_new main disp)"
proof -
  have r: "runnable (scheduler_new main disp) c \<longleftrightarrow> c = main \<or> c = disp" for c
    by (auto simp: scheduler_new_def runnable_def pinned_new_def)
  have h: "hook_of (scheduler_new main disp) c = None" for c
    by (auto simp: scheduler_new_def hook_of_def pinned_new_def)
  have "rt_core {} (scheduler_new main disp)"
    using assms r h unfolding rt_core_def inv_pinned_def inv_ready_def inv_sleep_def inv_wait_def
      inv_refs_def ref_ok_def disp_held_def
    by (auto simp: scheduler_new_def pinned_new_def split: if_splits)
  moreover have "active_ok (scheduler_new main disp)"
    using assms r by (simp add: active_ok_def) (simp add: scheduler_new_def)
  moreover have "none_lost (scheduler_new main disp)"
    using r by (auto simp: none_lost_def on_deck_def scheduler_new_def)
  ultimately show ?thesis using h
    by (simp add: fib_inv_def fibers_new_def held_def joined_def rt_inv_def pend_inv_def pend_ok_def)
      (simp add: scheduler_new_def)
qed

lemma reachable_inv:
  assumes "fibers_reachable main disp s" "main \<noteq> disp"
  shows "sys_inv s"
  using assms(1)
proof induction
  case start
  with fibers_new_inv [OF assms(2)] show ?case by (simp add: sys_inv_def fibers_new_def)
next
  case (act s a t)
  have "\<not> fb_deleted s" using act.hyps(2) by (simp add: allowed_def Let_def)
  with act.IH have "fib_inv s" by (simp add: sys_inv_def)
  from exec_inv [OF this act.hyps(2)] act.hyps(3) show ?case by (simp add: sys_inv_def)
qed

lemma reachable_live:
  "fibers_reachable main disp s \<Longrightarrow> main \<noteq> disp \<Longrightarrow> \<not> fb_deleted s \<Longrightarrow> fib_inv s"
  using reachable_inv by (fastforce simp: sys_inv_def)

subsection \<open>Running a program\<close>

fun run :: "action list \<Rightarrow> fibers \<Rightarrow> fibers option" where
  "run [] s = Some s"
| "run (a # acts) s = (if allowed a s then Option.bind (exec a s) (run acts) else None)"

lemma run_reachable:
  "fibers_reachable main disp s \<Longrightarrow> run acts s = Some t \<Longrightarrow> fibers_reachable main disp t"
proof (induction acts arbitrary: s)
  case (Cons a acts)
  then obtain u where "allowed a s" "exec a s = Some u" "run acts u = Some t"
    by (auto split: if_splits Option.bind_splits)
  with Cons.IH [of u] Cons.prems(1) show ?case by (auto intro: fibers_reachable.act)
qed simp

definition after :: "action list \<Rightarrow> fibers" where
  "after acts = the (run acts (fibers_new 0 1))"

lemma after_reachable:
  assumes "run acts (fibers_new 0 1) \<noteq> None"
  shows "fibers_reachable 0 1 (after acts)"
  using assms run_reachable [OF fibers_reachable.start] by (auto simp: after_def)

text \<open>The main context starts a fiber and joins it; the fiber sleeps, wakes up and returns.\<close>

definition demo :: "action list" where
  "demo = [Spawn launch_post 2, Join 2, Dispatch, Sleep_until 50, Clock 60, Dispatch]"

definition demo_joined :: "action list" where
  "demo_joined = demo @ [Finish, Dispatch]"

lemma demo_runs:
  "run demo (fibers_new 0 1) \<noteq> None" "run demo_joined (fibers_new 0 1) \<noteq> None"
  "run (demo_joined @ [Resumed, Delete, Dispatch]) (fibers_new 0 1) \<noteq> None"
  by code_simp+

lemma demo_states:
  "allowed Finish (after demo)" "\<not> fb_deleted (after demo)"
  "fb_pend (after demo) 0 = Joining 2" "rt_active (fb_rt (after demo)) = 2"
  "fb_pend (after demo_joined) 0 = Joining 2" "rt_active (fb_rt (after demo_joined)) = 0"
  "\<not> fb_deleted (after demo_joined)"
  "fb_deleted (after (demo_joined @ [Resumed, Delete, Dispatch]))"
  by code_simp+

end
