(* ===== verification/Fiber_Properties.thy ===== *)
theory Fiber_Properties
  imports Fiber_System "HOL-Library.Multiset"
begin

text \<open>
  What the fiber runtime guarantees, over every reachable state of a thread of fibers: nothing
  fails, no fiber is lost, a join returns after the end of the joined fiber, the destruction of
  the scheduler leaves no context behind, the sleepers wake up in the order of their deadlines,
  and the ready fibers take turns.
\<close>

subsection \<open>Safety\<close>

text \<open>C16: whatever a program does with fibers, no operation of the runtime fails one of its
  assertions, finds no context to switch to, takes a spinlock it already holds, or follows a
  pointer to a destroyed context.\<close>

theorem fibers_never_fail:
  assumes "fibers_reachable main disp s" "main \<noteq> disp" "allowed act s"
  shows "exec act s \<noteq> None"
proof -
  have "\<not> fb_deleted s" using assms(3) by (simp add: allowed_def Let_def)
  with reachable_live [OF assms(1,2)] exec_inv [OF _ assms(3)] show ?thesis by auto
qed

theorem fibers_never_fail_witness: "exec Finish (after demo) \<noteq> None"
  by (rule fibers_never_fail [OF after_reachable [OF demo_runs(1)] _ demo_states(1)]) simp

text \<open>C17: no fiber is lost: a context that has not terminated is running, in the ready-queue, in
  the sleep-queue or linked in the wait-queue its hook names, and never in two of the first
  three; the dispatcher is running or ready, so there is always a context to switch to.\<close>

theorem no_fiber_lost:
  assumes "fibers_reachable main disp s" "main \<noteq> disp" "\<not> fb_deleted s" "runnable (fb_rt s) c"
  shows "(c = rt_active (fb_rt s) \<or> c \<in> set (rqueue (fb_rt s)) \<or> c \<in> set (rt_sleep (fb_rt s)) \<or>
      (\<exists>q. c \<in> set (rt_wait (fb_rt s) q))) \<and>
    distinct (rt_active (fb_rt s) # rqueue (fb_rt s) @ rt_sleep (fb_rt s)) \<and>
    rt_dispatcher (fb_rt s) \<in> set (rt_active (fb_rt s) # rqueue (fb_rt s))"
proof -
  have inv: "fib_inv s" using reachable_live [OF assms(1-3)] .
  then have C: "rt_core (held s) (fb_rt s)" and A: "active_ok (fb_rt s)"
    by (auto simp: fib_inv_def rt_inv_def)
  have "c \<in> on_deck (fb_rt s) \<or> hook_of (fb_rt s) c \<noteq> None"
    using inv assms(4) by (simp add: fib_inv_def none_lost_def)
  then have "c \<in> on_deck (fb_rt s) \<or> (\<exists>q. c \<in> set (rt_wait (fb_rt s) q))"
    using core_hook(1) [OF C] by auto
  moreover have "distinct (rqueue (fb_rt s))" "distinct (rt_sleep (fb_rt s))"
    "set (rt_sleep (fb_rt s)) \<inter> set (rqueue (fb_rt s)) = {}"
    using C by (auto simp: rt_core_def inv_ready_def inv_sleep_def)
  ultimately show ?thesis using A by (auto simp: on_deck_def active_ok_def)
qed

theorem no_fiber_lost_witness:
  "(0 = rt_active (fb_rt (after demo)) \<or> 0 \<in> set (rqueue (fb_rt (after demo))) \<or>
     0 \<in> set (rt_sleep (fb_rt (after demo))) \<or> (\<exists>q. 0 \<in> set (rt_wait (fb_rt (after demo)) q)))"
proof -
  have "runnable (fb_rt (after demo)) 0" by code_simp
  from no_fiber_lost [OF after_reachable [OF demo_runs(1)] _ demo_states(2) this]
  show ?thesis by simp
qed

subsection \<open>Join\<close>

text \<open>C18: when a fiber that joins another one is running again, the other one has terminated, and
  its context is still there for the fiber object to release.\<close>

theorem join_returns_after_end:
  assumes "fibers_reachable main disp s" "main \<noteq> disp" "\<not> fb_deleted s"
    and "fb_pend s (rt_active (fb_rt s)) = Joining c"
  shows "is_terminated (fb_rt s) c \<and> rt_context (fb_rt s) c \<noteq> None"
proof -
  have inv: "fib_inv s" using reachable_live [OF assms(1-3)] .
  then have P: "pend_inv s" and C: "rt_core (held s) (fb_rt s)"
    by (auto simp: fib_inv_def rt_inv_def)
  have ch: "c \<in> held s" using assms(4) by (auto simp: held_def joined_def)
  obtain x where x: "rt_context (fb_rt s) c = Some x" "c \<noteq> rt_main (fb_rt s)" "c \<noteq> rt_dispatcher (fb_rt s)"
    using refs_dom [OF C, of c] ch by blast
  have "pend_ok (fb_rt s) (fb_now s) (rt_active (fb_rt s)) (Joining c)"
    using P assms(4) unfolding pend_inv_def by metis
  then have "\<not> runnable (fb_rt s) c" by (auto simp: pend_ok_def on_deck_def)
  with x refs_at(3) [OF C x] show ?thesis by (simp add: runnable_def is_terminated_def)
qed

theorem join_returns_after_end_witness:
  "is_terminated (fb_rt (after demo_joined)) 2 \<and> rt_context (fb_rt (after demo_joined)) 2 \<noteq> None"
  using join_returns_after_end [OF after_reachable [OF demo_runs(2)]] demo_states(5-7) by simp

text \<open>The fibers that a run starts, and those that return from their function in it, with repetitions: the memory of a
  context can be used again.\<close>

fun spawned :: "action list \<Rightarrow> ctx list" where
  "spawned [] = []"
| "spawned (Spawn policy c # acts) = c # spawned acts"
| "spawned (_ # acts) = spawned acts"

fun finished :: "action list \<Rightarrow> fibers \<Rightarrow> ctx list" where
  "finished [] s = []"
| "finished (act # acts) s =
     (if act = Finish then [rt_active (fb_rt s)] else []) @
     (case exec act s of None \<Rightarrow> [] | Some t \<Rightarrow> finished acts t)"

lemma spawned_Cons: "spawned (act # acts) = (case act of Spawn policy c \<Rightarrow> [c] | _ \<Rightarrow> []) @ spawned acts"
  by (cases act) simp_all

lemma run_deleted: "fb_deleted s \<Longrightarrow> run acts s = Some t \<Longrightarrow> acts = []"
  by (cases acts) (auto simp: allowed_def Let_def split: if_splits)

text \<open>The contexts that have not ended are those of the beginning and the fibers started since, but for those that
  have returned.\<close>

lemma living_step:
  assumes inv: "fib_inv s" and al: "allowed act s" and t: "exec act s = Some t" "\<not> fb_deleted t" and fin: "finite (living s)"
  shows "finite (living t)" and "rt_main (fb_rt t) = rt_main (fb_rt s)" "rt_dispatcher (fb_rt t) = rt_dispatcher (fb_rt s)"
    and "mset_set (living t) + mset (if act = Finish then [rt_active (fb_rt s)] else []) =
      mset_set (living s) + mset (case act of Spawn policy c \<Rightarrow> [c] | _ \<Rightarrow> [])"
proof -
  note l = exec_living [OF inv al t]
  from l show "rt_main (fb_rt t) = rt_main (fb_rt s)" "rt_dispatcher (fb_rt t) = rt_dispatcher (fb_rt s)"
    by (simp_all add: lives_def)
  from l fin show "finite (living t)" by (cases act) (simp_all add: lives_def)
  have new: "c \<notin> living s" if "act = Spawn policy c" for policy c
    using al that by (auto simp: allowed_def Let_def living_def runnable_def)
  have active: "rt_active (fb_rt s) \<in> living s"
    using inv by (simp add: fib_inv_def rt_inv_def active_ok_def living_def)
  from l fin new active show "mset_set (living t) + mset (if act = Finish then [rt_active (fb_rt s)] else []) =
      mset_set (living s) + mset (case act of Spawn policy c \<Rightarrow> [c] | _ \<Rightarrow> [])"
    by (cases act) (auto simp: lives_def mset_set.remove)
qed

lemma run_living:
  assumes "fib_inv s" "run acts s = Some t" "finite (living s)" "fb_deleted t" "\<not> fb_deleted s"
  shows "mset (finished acts s) + {#rt_main (fb_rt s), rt_dispatcher (fb_rt s)#} = mset_set (living s) + mset (spawned acts) \<and>
    rt_main (fb_rt t) = rt_main (fb_rt s)"
  using assms
proof (induction acts arbitrary: s)
  case (Cons act acts)
  from Cons.prems(2) obtain u where u: "allowed act s" "exec act s = Some u" "run acts u = Some t"
    by (auto split: if_splits Option.bind_splits)
  show ?case
  proof (cases "fb_deleted u")
    case False
    have inv: "fib_inv u" using exec_inv [OF Cons.prems(1) u(1)] u(2) False by auto
    note st = living_step [OF Cons.prems(1) u(1,2) False Cons.prems(3)]
    let ?F = "mset (if act = Finish then [rt_active (fb_rt s)] else [])" and ?S = "mset (case act of Spawn policy c \<Rightarrow> [c] | _ \<Rightarrow> [])"
    have IH: "mset (finished acts u) + {#rt_main (fb_rt s), rt_dispatcher (fb_rt s)#} = mset_set (living u) + mset (spawned acts)"
      "rt_main (fb_rt t) = rt_main (fb_rt s)"
      using Cons.IH [OF inv u(3) st(1) Cons.prems(4) False] st(2,3) by simp_all
    have "mset (finished (act # acts) s) = ?F + mset (finished acts u)" by (simp add: u(2))
    then have "mset (finished (act # acts) s) + {#rt_main (fb_rt s), rt_dispatcher (fb_rt s)#} =
        ?F + (mset (finished acts u) + {#rt_main (fb_rt s), rt_dispatcher (fb_rt s)#})" by (simp only: union_assoc)
    also have "\<dots> = (mset_set (living u) + ?F) + mset (spawned acts)" unfolding IH(1) by (simp only: ac_simps)
    also have "\<dots> = mset_set (living s) + (?S + mset (spawned acts))" unfolding st(4) by (simp only: union_assoc)
    also have "?S + mset (spawned acts) = mset (spawned (act # acts))" by (simp only: spawned_Cons [of act acts] mset_append)
    finally show ?thesis using IH(2) by blast
  next
    case True
    have acts: "acts = []" using run_deleted [OF True u(3)] .
    with u(3) have tu: "t = u" by simp
    have d: "act = Dispatch" "rt_shutdown (fb_rt s)" "rt_worker (fb_rt s) = []"
      using u(2) True Cons.prems(5)
      by (cases act; auto simp: Let_def split: Option.bind_splits sum.splits pending.splits if_splits)+
    have "rt_main (fb_rt s) \<noteq> rt_dispatcher (fb_rt s)"
      using Cons.prems(1) by (simp add: fib_inv_def rt_inv_def rt_core_def inv_pinned_def)
    with exec_Dispatch_exit [OF Cons.prems(1) _ d(2,3)] u(1,2) d(1) acts tu show ?thesis by auto
  qed
qed simp

text \<open>C19: when the scheduler of the thread has been destroyed, every fiber that was ever started has run to its
  end, as often as it was started: no fiber is left suspended, and the destruction kills none. Every context has been
  destroyed but the main one and those that a fiber object still holds, which have ended; so no stack leaks, the
  counter of contexts agrees, and the queues are empty.\<close>

theorem scheduler_destroys_all:
  assumes "run acts (fibers_new main disp) = Some s" "main \<noteq> disp" "fb_deleted s"
  shows "mset (finished acts (fibers_new main disp)) = mset (spawned acts) \<and>
    (\<forall>c. rt_context (fb_rt s) c \<noteq> None \<longleftrightarrow> c = main \<or> c \<in> set (fb_handles s)) \<and>
    (\<forall>c \<in> set (fb_handles s). is_terminated (fb_rt s) c) \<and>
    rt_contexts (fb_rt s) = Suc (length (fb_handles s)) \<and>
    rqueue (fb_rt s) = [] \<and> rt_sleep (fb_rt s) = []"
proof -
  let ?s = "fibers_new main disp"
  have "living ?s = {main, disp}" by (auto simp: living_def fibers_new_def scheduler_new_def runnable_def pinned_new_def)
  moreover have "rt_main (fb_rt ?s) = main" "rt_dispatcher (fb_rt ?s) = disp" "\<not> fb_deleted ?s" by (simp_all add: fibers_new_def scheduler_new_def)
  ultimately have "mset (finished acts ?s) = mset (spawned acts)" "rt_main (fb_rt s) = main"
    using run_living [OF fibers_new_inv [OF assms(2)] assms(1) _ assms(3)] assms(2) by simp_all
  moreover have "ended_inv s"
    using reachable_inv [OF run_reachable [OF fibers_reachable.start assms(1)] assms(2)] assms(3) by (simp add: sys_inv_def)
  ultimately show ?thesis by (simp add: ended_inv_def)
qed

theorem scheduler_destroys_all_witness:
  "mset (finished (demo_joined @ [Resumed, Delete, Dispatch]) (fibers_new 0 1)) = {#2#}"
proof -
  let ?acts = "demo_joined @ [Resumed, Delete, Dispatch]"
  have "run ?acts (fibers_new 0 1) = Some (after ?acts)" using demo_runs(3) by (simp add: after_def)
  from scheduler_destroys_all [OF this _ demo_states(8)] show ?thesis by (simp add: demo_joined_def demo_def)
qed

subsection \<open>Sleeping\<close>

lemma sorted_takeWhile_filter:
  "sorted_wrt (\<lambda>c d. (tp c :: int) \<le> tp d) cs \<Longrightarrow>
     takeWhile (\<lambda>c. tp c \<le> now) cs = filter (\<lambda>c. tp c \<le> now) cs \<and>
     dropWhile (\<lambda>c. tp c \<le> now) cs = filter (\<lambda>c. now < tp c) cs"
proof (induction cs)
  case (Cons c cs)
  show ?case
  proof (cases "tp c \<le> now")
    case True
    with Cons show ?thesis by simp
  next
    case False
    with Cons.prems have "\<forall>d \<in> set cs. now < tp d" by fastforce
    then have "filter (\<lambda>c. tp c \<le> now) cs = []" "filter (\<lambda>c. now < tp c) cs = cs"
      by (auto simp: filter_empty_conv filter_id_conv)
    with False show ?thesis by simp
  qed
qed simp

text \<open>A turn of the dispatcher puts exactly the sleepers whose deadline has passed behind the
  ready fibers, in the order of the deadlines, and goes to the back itself; the others sleep on.\<close>

theorem sleepers_wake_in_order:
  assumes "fibers_reachable main disp s" "main \<noteq> disp" "\<not> fb_deleted s"
    and a: "rt_active (fb_rt s) = rt_dispatcher (fb_rt s)" and go: "\<not> rt_shutdown (fb_rt s)"
    and q: "rqueue (fb_rt s) @ filter (\<lambda>c. tp_of (fb_rt s) c \<le> fb_now s) (rt_sleep (fb_rt s)) \<noteq> []"
  shows "\<exists>t. exec Dispatch s = Some t \<and>
    rt_active (fb_rt t) # rqueue (fb_rt t) =
      rqueue (fb_rt s) @ filter (\<lambda>c. tp_of (fb_rt s) c \<le> fb_now s) (rt_sleep (fb_rt s)) @
      [rt_dispatcher (fb_rt s)] \<and>
    rt_sleep (fb_rt t) = filter (\<lambda>c. fb_now s < tp_of (fb_rt s) c) (rt_sleep (fb_rt s))"
proof -
  let ?rt = "fb_rt s"
  have inv: "rt_inv (held s) ?rt" using reachable_live [OF assms(1-3)] by (simp add: fib_inv_def)
  have "sorted_wrt (\<lambda>c d. tp_of ?rt c \<le> tp_of ?rt d) (rt_sleep ?rt)"
    using inv by (simp add: rt_inv_def rt_core_def inv_sleep_def)
  note fl = sorted_takeWhile_filter [OF this, of "fb_now s"]
  obtain r where r: "dispatch (fb_now s) ?rt = Some r" "turned (fb_now s) ?rt r"
    using dispatch_inv [OF inv a, of "fb_now s"] go by blast
  have "rt_active r # rqueue r = rqueue ?rt @ expired (fb_now s) ?rt @ [rt_dispatcher ?rt]"
  proof (cases "rqueue ?rt @ expired (fb_now s) ?rt")
    case Nil
    with q fl show ?thesis by (simp add: expired_def)
  next
    case (Cons n rest)
    with r(2) have "rt_active r # rqueue r = (n # rest) @ [rt_dispatcher ?rt]"
      by (simp add: turned_def)
    then show ?thesis unfolding Cons [symmetric] by simp
  qed
  moreover have "rt_sleep r = asleep (fb_now s) ?rt" using r(2) by (simp add: turned_def)
  ultimately show ?thesis using r(1) go fl by (simp add: expired_def asleep_def)
qed

theorem sleepers_wake_in_order_witness:
  "rt_active (fb_rt (the (exec Dispatch (after
     [Spawn launch_post 2, Join 2, Dispatch, Sleep_until 50, Clock 60])))) = 2"
proof -
  let ?acts = "[Spawn launch_post 2, Join 2, Dispatch, Sleep_until 50, Clock 60]"
  have f: "run ?acts (fibers_new 0 1) \<noteq> None" "\<not> fb_deleted (after ?acts)"
    "rt_active (fb_rt (after ?acts)) = rt_dispatcher (fb_rt (after ?acts))"
    "\<not> rt_shutdown (fb_rt (after ?acts))" "rqueue (fb_rt (after ?acts)) = []"
    "filter (\<lambda>c. tp_of (fb_rt (after ?acts)) c \<le> fb_now (after ?acts)) (rt_sleep (fb_rt (after ?acts))) = [2]"
    by code_simp+
  from sleepers_wake_in_order [OF after_reachable [OF f(1)] _ f(2-4)] f(5,6) show ?thesis by auto
qed

subsection \<open>Taking turns\<close>

text \<open>What the thread does when every fiber gives way: the dispatcher takes its turn, a fiber
  finishes the operation it was suspended in, or yields.\<close>

definition next_action :: "fibers \<Rightarrow> action" where
  "next_action s =
     (let a = rt_active (fb_rt s)
      in if a = rt_dispatcher (fb_rt s) then Dispatch
         else if fb_pend s a = Idle then Yield_now else Resumed)"

fun spin :: "nat \<Rightarrow> fibers \<Rightarrow> fibers option" where
  "spin 0 s = Some s"
| "spin (Suc n) s = Option.bind (exec (next_action s) s) (spin n)"

definition same_turn :: "runtime \<Rightarrow> runtime \<Rightarrow> bool" where
  "same_turn rt rt' \<longleftrightarrow> rt_algo rt' = rt_algo rt \<and> rt_active rt' = rt_active rt \<and>
     rt_dispatcher rt' = rt_dispatcher rt \<and> rt_shutdown rt' = rt_shutdown rt"

lemma wait_unlink_same_turn: "wait_unlink c rt = Some rt' \<Longrightarrow> same_turn rt rt'"
  by (auto simp: wait_unlink_def same_turn_def split: option.splits Option.bind_splits)

lemma release_same_turn: "intrusive_ptr_release c rt = Some rt' \<Longrightarrow> same_turn rt rt'"
  by (auto simp: intrusive_ptr_release_def destroy_context_def same_turn_def Let_def
      split: Option.bind_splits if_splits)

lemma same_turn_trans: "same_turn a b \<Longrightarrow> same_turn b c \<Longrightarrow> same_turn a c"
  by (simp add: same_turn_def)

lemma resumed_same_turn:
  assumes "exec Resumed s = Some t"
  shows "same_turn (fb_rt s) (fb_rt t)" "fb_pend t (rt_active (fb_rt s)) = Idle" "fb_deleted t = fb_deleted s"
proof -
  have "same_turn (fb_rt s) (fb_rt t) \<and> fb_pend t (rt_active (fb_rt s)) = Idle \<and> fb_deleted t = fb_deleted s"
  proof (cases "fb_pend s (rt_active (fb_rt s))")
    case (Joining c)
    with assms obtain r where r: "fiber_join_resumed c (fb_rt s) = Some r"
      "t = set_pend (rt_active (fb_rt s)) Idle (s\<lparr>fb_rt := r\<rparr>)"
      by (auto simp: Let_def split: Option.bind_splits)
    then obtain m where "wait_unlink (rt_active (fb_rt s)) (fb_rt s) = Some m" "intrusive_ptr_release c m = Some r"
      by (auto simp: fiber_join_resumed_def context_join_resumed_def split: Option.bind_splits)
    then have "same_turn (fb_rt s) r"
      using wait_unlink_same_turn release_same_turn same_turn_trans by blast
    with r show ?thesis by simp
  next
    case (Timed k tp)
    with assms obtain r where r: "timed_resumed k tp (fb_now s) (fb_rt s) = Some r"
      "t = set_pend (rt_active (fb_rt s)) Idle (s\<lparr>fb_rt := r\<rparr>)"
      by (auto simp: Let_def split: Option.bind_splits)
    have "same_turn (fb_rt s) r"
    proof (cases "wait_until_result (fb_now s) tp")
      case True
      with r(1) show ?thesis
        by (auto simp: timed_resumed_def same_turn_def split: Option.bind_splits)
    next
      case False
      with r(1) obtain m where "wait_unlink (rt_active (fb_rt s)) ((fb_rt s)\<lparr>rt_splk := k # rt_splk (fb_rt s)\<rparr>) = Some m"
        "r = splk_unlock k m"
        by (auto simp: timed_resumed_def splk_lock_def split: Option.bind_splits)
      then show ?thesis using wait_unlink_same_turn [of _ _ m] by (auto simp: same_turn_def)
    qed
    with r show ?thesis by simp
  qed (use assms in \<open>auto simp: same_turn_def Let_def split: Option.bind_splits\<close>)
  then show "same_turn (fb_rt s) (fb_rt t)" "fb_pend t (rt_active (fb_rt s)) = Idle" "fb_deleted t = fb_deleted s"
    by blast+
qed

text \<open>One switch: the head of the ready-queue runs, and the others move up.\<close>

lemma switch_step:
  assumes inv: "fib_inv s" and nd: "\<not> fb_deleted s" "\<not> rt_shutdown (fb_rt s)"
    and q: "rqueue (fb_rt s) = n # rest"
    and sw: "rt_active (fb_rt s) = rt_dispatcher (fb_rt s) \<or> fb_pend s (rt_active (fb_rt s)) = Idle"
  shows "\<exists>t more. exec (next_action s) s = Some t \<and> fib_inv t \<and> \<not> fb_deleted t \<and>
    \<not> rt_shutdown (fb_rt t) \<and> rt_active (fb_rt t) = n \<and> rqueue (fb_rt t) = rest @ more"
proof (cases "rt_active (fb_rt s) = rt_dispatcher (fb_rt s)")
  case True
  have al: "allowed Dispatch s" using True nd by (simp add: allowed_def Let_def)
  have I: "rt_inv (held s) (fb_rt s)" using inv by (simp add: fib_inv_def)
  obtain r where r: "dispatch (fb_now s) (fb_rt s) = Some r" "turned (fb_now s) (fb_rt s) r"
    using dispatch_inv [OF I True, of "fb_now s"] nd by blast
  obtain t where t: "exec Dispatch s = Some t" "fib_inv t"
    using exec_Dispatch_turn [OF inv al] nd by blast
  then have "t = s\<lparr>fb_rt := r\<rparr>" using r(1) nd by simp
  with t r q nd True show ?thesis
    by (intro exI [of _ t] exI [of _ "expired (fb_now s) (fb_rt s) @ [rt_dispatcher (fb_rt s)]"])
      (simp add: next_action_def turned_def)
next
  case False
  with sw have idle: "fb_pend s (rt_active (fb_rt s)) = Idle" by simp
  have al: "allowed Yield_now s" using False idle nd by (simp add: allowed_def Let_def)
  have I: "rt_inv (held s) (fb_rt s)" using inv by (simp add: fib_inv_def)
  have y: "yield (fb_rt s) = Some (made_ready (rt_active (fb_rt s)) (switched (fb_rt s)))"
    using yield_inv [OF I] q by simp
  obtain t where t: "exec Yield_now s = Some t" "fib_inv t" using exec_Yield [OF inv al] by blast
  then have "t = s\<lparr>fb_rt := made_ready (rt_active (fb_rt s)) (switched (fb_rt s))\<rparr>" using y by simp
  moreover have "rt_active (fb_rt s) \<notin> set rest" using I q by (simp add: rt_inv_def active_ok_def)
  ultimately show ?thesis using t q nd False idle
    by (intro exI [of _ t] exI [of _ "[rt_active (fb_rt s)]"])
      (simp add: next_action_def rqueue_made_ready remove1_idem)
qed

lemma spin_add: "spin m s = Some t \<Longrightarrow> spin (m + n) s = spin n t"
  by (induction m arbitrary: s) (auto split: Option.bind_splits)

lemma turn_step:
  assumes inv: "fib_inv s" and nd: "\<not> fb_deleted s" "\<not> rt_shutdown (fb_rt s)"
    and q: "rqueue (fb_rt s) = n # rest"
  shows "\<exists>m t more. m \<le> 2 \<and> spin m s = Some t \<and> fib_inv t \<and> \<not> fb_deleted t \<and>
    \<not> rt_shutdown (fb_rt t) \<and> rt_active (fb_rt t) = n \<and> rqueue (fb_rt t) = rest @ more"
proof (cases "rt_active (fb_rt s) = rt_dispatcher (fb_rt s) \<or> fb_pend s (rt_active (fb_rt s)) = Idle")
  case True
  from switch_step [OF inv nd q True] obtain t more where
    "spin 1 s = Some t \<and> fib_inv t \<and> \<not> fb_deleted t \<and> \<not> rt_shutdown (fb_rt t) \<and>
     rt_active (fb_rt t) = n \<and> rqueue (fb_rt t) = rest @ more" by auto
  then show ?thesis by (intro exI [of _ 1]) auto
next
  case False
  then have al: "allowed Resumed s" and na: "next_action s = Resumed"
    using nd by (auto simp: allowed_def next_action_def Let_def)
  obtain u where u: "exec Resumed s = Some u" "fib_inv u" using exec_Resumed [OF inv al] by blast
  note st = resumed_same_turn [OF u(1)]
  have f: "\<not> fb_deleted u" "\<not> rt_shutdown (fb_rt u)" "rqueue (fb_rt u) = n # rest"
    "fb_pend u (rt_active (fb_rt u)) = Idle"
    using st nd q by (auto simp: same_turn_def)
  from switch_step [OF u(2) f(1-3)] f(4) obtain t more where
    t: "exec (next_action u) u = Some t" "fib_inv t" "\<not> fb_deleted t" "\<not> rt_shutdown (fb_rt t)"
    "rt_active (fb_rt t) = n" "rqueue (fb_rt t) = rest @ more" by blast
  have "spin 2 s = Some t" using na u(1) t(1) by (simp add: numeral_2_eq_2)
  with t show ?thesis by blast
qed

lemma turns:
  assumes "fib_inv s" "\<not> fb_deleted s" "\<not> rt_shutdown (fb_rt s)" "k < length (rqueue (fb_rt s))"
  shows "\<exists>n t. n \<le> 2 * (k + 1) \<and> spin n s = Some t \<and> rt_active (fb_rt t) = rqueue (fb_rt s) ! k"
  using assms
proof (induction k arbitrary: s)
  case (0 s)
  then obtain n rest where q: "rqueue (fb_rt s) = n # rest" by (cases "rqueue (fb_rt s)") auto
  with turn_step [OF 0(1-3) q] show ?case by auto
next
  case (Suc k s)
  then obtain n rest where q: "rqueue (fb_rt s) = n # rest" by (cases "rqueue (fb_rt s)") auto
  from turn_step [OF Suc.prems(1-3) q] obtain m t more where
    t: "m \<le> 2" "spin m s = Some t" "fib_inv t" "\<not> fb_deleted t" "\<not> rt_shutdown (fb_rt t)"
    "rqueue (fb_rt t) = rest @ more" by blast
  have k: "k < length (rqueue (fb_rt t))" and at: "rqueue (fb_rt t) ! k = rqueue (fb_rt s) ! Suc k"
    using Suc.prems(4) q t(6) by (simp_all add: nth_append)
  from Suc.IH [OF t(3-5) k] obtain i u where
    "i \<le> 2 * (k + 1)" "spin i t = Some u" "rt_active (fb_rt u) = rqueue (fb_rt s) ! Suc k"
    unfolding at by blast
  with t(1) spin_add [OF t(2), of i] show ?case by (intro exI [of _ "m + i"] exI [of _ u]) simp
qed

text \<open>C20: the ready fibers take turns: when every fiber that runs gives way, the fiber at position
  \<open>k\<close> of the ready-queue runs after at most \<open>2 (k + 1)\<close> actions, that is after \<open>k + 1\<close> switches,
  each preceded by at most one operation to finish.\<close>

theorem ready_fibers_take_turns:
  assumes "fibers_reachable main disp s" "main \<noteq> disp" "\<not> fb_deleted s" "\<not> rt_shutdown (fb_rt s)"
    and "k < length (rqueue (fb_rt s))"
  shows "\<exists>n t. n \<le> 2 * (k + 1) \<and> spin n s = Some t \<and> rt_active (fb_rt t) = rqueue (fb_rt s) ! k"
  using turns [OF reachable_live [OF assms(1-3)] assms(3-5)] .

theorem ready_fibers_take_turns_witness:
  "\<exists>n t. n \<le> 4 \<and> spin n (after [Spawn launch_post 2]) = Some t \<and> rt_active (fb_rt t) = 2"
proof -
  let ?s = "after [Spawn launch_post 2]"
  have f: "run [Spawn launch_post 2] (fibers_new 0 1) \<noteq> None" "\<not> fb_deleted ?s"
    "\<not> rt_shutdown (fb_rt ?s)" "rqueue (fb_rt ?s) = [1, 2]"
    by code_simp+
  from ready_fibers_take_turns [OF after_reachable [OF f(1)] _ f(2,3), of 1] f(4) show ?thesis by simp
qed

end
