(* ===== verification/Fiber_Mutex.thy ===== *)
theory Fiber_Mutex
  imports Fiber_System
begin

text \<open>
  The mutexes: \<open>fiber/mutex.hpp\<close>, \<open>timed_mutex.hpp\<close>, \<open>recursive_mutex.hpp\<close>,
  \<open>recursive_timed_mutex.hpp\<close> with their sources. A mutex is known by the number of its
  wait-queue and spinlock. An operation is \<open>None\<close> when it fails an assertion, \<open>Inl\<close> the error of
  the \<open>lock_error\<close> it throws (the spinlock is released and nothing changes), or \<open>Inr\<close> the new
  state. The flag of a lock says whether the fiber was suspended.
\<close>

subsection \<open>mutex\<close>

record mutex =
  mx_owner :: "ctx option"

definition mutex_lock ::
  "nat \<Rightarrow> mutex \<Rightarrow> runtime \<Rightarrow> (fiber_errc + bool \<times> mutex \<times> runtime) option" where
  "mutex_lock k m rt = do {
     let ctx = rt_active rt;
     rt \<leftarrow> splk_lock k rt;
     if mx_owner m = Some ctx then Some (Inl resource_deadlock_would_occur)
     else if mx_owner m = None
     then Some (Inr (False, m\<lparr>mx_owner := Some ctx\<rparr>, splk_unlock k rt))
     else do {
       ensure (\<not> wait_is_linked rt ctx);
       rt \<leftarrow> wait_link ctx (Waiters k) rt;
       rt \<leftarrow> suspend_lk k rt;
       Some (Inr (True, m, rt))
     }
   }"

text \<open>\<open>try_lock\<close> up to its \<open>yield\<close>, and what it returns when the fiber runs again.\<close>

definition mutex_try_lock ::
  "nat \<Rightarrow> mutex \<Rightarrow> runtime \<Rightarrow> (fiber_errc + mutex \<times> runtime) option" where
  "mutex_try_lock k m rt = do {
     let ctx = rt_active rt;
     rt \<leftarrow> splk_lock k rt;
     if mx_owner m = Some ctx then Some (Inl resource_deadlock_would_occur)
     else do {
       let m = (if mx_owner m = None then m\<lparr>mx_owner := Some ctx\<rparr> else m);
       let rt = splk_unlock k rt;
       rt \<leftarrow> yield rt;
       Some (Inr (m, rt))
     }
   }"

definition mutex_try_lock_result :: "ctx \<Rightarrow> mutex \<Rightarrow> bool" where
  "mutex_try_lock_result ctx m = (mx_owner m = Some ctx)"

definition mutex_unlock ::
  "nat \<Rightarrow> mutex \<Rightarrow> runtime \<Rightarrow> (fiber_errc + mutex \<times> runtime) option" where
  "mutex_unlock k m rt = do {
     let ctx = rt_active rt;
     rt \<leftarrow> splk_lock k rt;
     if mx_owner m \<noteq> Some ctx then Some (Inl operation_not_permitted)
     else if rt_wait rt (Waiters k) \<noteq> []
     then do {
       (c, rt) \<leftarrow> wait_pop_front (Waiters k) rt;
       rt \<leftarrow> set_ready ctx c rt;
       Some (Inr (m\<lparr>mx_owner := Some c\<rparr>, splk_unlock k rt))
     }
     else Some (Inr (m\<lparr>mx_owner := None\<rparr>, splk_unlock k rt))
   }"

subsection \<open>timed_mutex\<close>

definition timed_mutex_lock ::
  "nat \<Rightarrow> mutex \<Rightarrow> runtime \<Rightarrow> (fiber_errc + bool \<times> mutex \<times> runtime) option" where
  "timed_mutex_lock k m rt = do {
     let ctx = rt_active rt;
     rt \<leftarrow> splk_lock k rt;
     if mx_owner m = Some ctx then Some (Inl resource_deadlock_would_occur)
     else if mx_owner m = None
     then Some (Inr (False, m\<lparr>mx_owner := Some ctx\<rparr>, splk_unlock k rt))
     else do {
       ensure (\<not> wait_is_linked rt ctx);
       rt \<leftarrow> wait_link ctx (Waiters k) rt;
       rt \<leftarrow> suspend_lk k rt;
       Some (Inr (True, m, rt))
     }
   }"

definition timed_mutex_try_lock ::
  "nat \<Rightarrow> mutex \<Rightarrow> runtime \<Rightarrow> (fiber_errc + mutex \<times> runtime) option" where
  "timed_mutex_try_lock k m rt = do {
     let ctx = rt_active rt;
     rt \<leftarrow> splk_lock k rt;
     if mx_owner m = Some ctx then Some (Inl resource_deadlock_would_occur)
     else do {
       let m = (if mx_owner m = None then m\<lparr>mx_owner := Some ctx\<rparr> else m);
       let rt = splk_unlock k rt;
       rt \<leftarrow> yield rt;
       Some (Inr (m, rt))
     }
   }"

definition timed_mutex_unlock ::
  "nat \<Rightarrow> mutex \<Rightarrow> runtime \<Rightarrow> (fiber_errc + mutex \<times> runtime) option" where
  "timed_mutex_unlock k m rt = do {
     let ctx = rt_active rt;
     rt \<leftarrow> splk_lock k rt;
     if mx_owner m \<noteq> Some ctx then Some (Inl operation_not_permitted)
     else if rt_wait rt (Waiters k) \<noteq> []
     then do {
       (c, rt) \<leftarrow> wait_pop_front (Waiters k) rt;
       rt \<leftarrow> set_ready ctx c rt;
       Some (Inr (m\<lparr>mx_owner := Some c\<rparr>, splk_unlock k rt))
     }
     else Some (Inr (m\<lparr>mx_owner := None\<rparr>, splk_unlock k rt))
   }"

text \<open>\<open>try_lock_until_\<close>: what it returns at once, or that it suspended the fiber; and what it
  returns when the fiber is resumed at the time \<open>now\<close>.\<close>

datatype 'm until_outcome = Returned bool 'm runtime | Suspended 'm runtime

definition timed_mutex_try_lock_until ::
  "nat \<Rightarrow> time_point \<Rightarrow> time_point \<Rightarrow> mutex \<Rightarrow> runtime \<Rightarrow> mutex until_outcome option" where
  "timed_mutex_try_lock_until k now timeout_time m rt =
     (if timeout_time < now then Some (Returned False m rt)
      else do {
        let ctx = rt_active rt;
        rt \<leftarrow> splk_lock k rt;
        if mx_owner m = None
        then Some (Returned True (m\<lparr>mx_owner := Some ctx\<rparr>) (splk_unlock k rt))
        else do {
          ensure (\<not> wait_is_linked rt ctx);
          rt \<leftarrow> wait_link ctx (Waiters k) rt;
          rt \<leftarrow> wait_until_lk (rt_active rt) timeout_time k rt;
          Some (Suspended m rt)
        }
      })"

definition timed_mutex_try_lock_until_resumed ::
  "nat \<Rightarrow> time_point \<Rightarrow> time_point \<Rightarrow> runtime \<Rightarrow> (bool \<times> runtime) option" where
  "timed_mutex_try_lock_until_resumed k now timeout_time rt = do {
     let ctx = rt_active rt;
     if \<not> wait_until_result now timeout_time then do {
       rt \<leftarrow> splk_lock k rt;
       rt \<leftarrow> wait_unlink ctx rt;
       Some (False, splk_unlock k rt)
     } else do {
       ensure (\<not> wait_is_linked rt ctx);
       Some (True, rt)
     }
   }"

subsection \<open>recursive_mutex and recursive_timed_mutex\<close>

text \<open>\<open>count_\<close> is a \<open>size_t\<close>.\<close>

record recursive_mutex = mutex +
  mx_count :: int

definition recursive_mutex_lock ::
  "nat \<Rightarrow> recursive_mutex \<Rightarrow> runtime \<Rightarrow> (bool \<times> recursive_mutex \<times> runtime) option" where
  "recursive_mutex_lock k m rt = do {
     let ctx = rt_active rt;
     rt \<leftarrow> splk_lock k rt;
     if mx_owner m = Some ctx
     then Some (False, m\<lparr>mx_count := u64 (mx_count m + 1)\<rparr>, splk_unlock k rt)
     else if mx_owner m = None
     then Some (False, m\<lparr>mx_owner := Some ctx, mx_count := 1\<rparr>, splk_unlock k rt)
     else do {
       ensure (\<not> wait_is_linked rt ctx);
       rt \<leftarrow> wait_link ctx (Waiters k) rt;
       rt \<leftarrow> suspend_lk k rt;
       Some (True, m, rt)
     }
   }"

definition recursive_mutex_try_lock ::
  "nat \<Rightarrow> recursive_mutex \<Rightarrow> runtime \<Rightarrow> (recursive_mutex \<times> runtime) option" where
  "recursive_mutex_try_lock k m rt = do {
     let ctx = rt_active rt;
     rt \<leftarrow> splk_lock k rt;
     let m = (if mx_owner m = None then m\<lparr>mx_owner := Some ctx, mx_count := 1\<rparr>
              else if mx_owner m = Some ctx then m\<lparr>mx_count := u64 (mx_count m + 1)\<rparr>
              else m);
     let rt = splk_unlock k rt;
     rt \<leftarrow> yield rt;
     Some (m, rt)
   }"

definition recursive_mutex_unlock ::
  "nat \<Rightarrow> recursive_mutex \<Rightarrow> runtime \<Rightarrow> (fiber_errc + recursive_mutex \<times> runtime) option" where
  "recursive_mutex_unlock k m rt = do {
     let ctx = rt_active rt;
     rt \<leftarrow> splk_lock k rt;
     if mx_owner m \<noteq> Some ctx then Some (Inl operation_not_permitted)
     else do {
       let n = u64 (mx_count m - 1);
       let m = m\<lparr>mx_count := n\<rparr>;
       if n = 0
       then if rt_wait rt (Waiters k) \<noteq> []
         then do {
           (c, rt) \<leftarrow> wait_pop_front (Waiters k) rt;
           rt \<leftarrow> set_ready ctx c rt;
           Some (Inr (m\<lparr>mx_owner := Some c, mx_count := 1\<rparr>, splk_unlock k rt))
         }
         else Some (Inr (m\<lparr>mx_owner := None\<rparr>, splk_unlock k rt))
       else Some (Inr (m, splk_unlock k rt))
     }
   }"

definition recursive_timed_mutex_lock ::
  "nat \<Rightarrow> recursive_mutex \<Rightarrow> runtime \<Rightarrow> (bool \<times> recursive_mutex \<times> runtime) option" where
  "recursive_timed_mutex_lock k m rt = do {
     let ctx = rt_active rt;
     rt \<leftarrow> splk_lock k rt;
     if mx_owner m = Some ctx
     then Some (False, m\<lparr>mx_count := u64 (mx_count m + 1)\<rparr>, splk_unlock k rt)
     else if mx_owner m = None
     then Some (False, m\<lparr>mx_owner := Some ctx, mx_count := 1\<rparr>, splk_unlock k rt)
     else do {
       ensure (\<not> wait_is_linked rt ctx);
       rt \<leftarrow> wait_link ctx (Waiters k) rt;
       rt \<leftarrow> suspend_lk k rt;
       Some (True, m, rt)
     }
   }"

definition recursive_timed_mutex_try_lock ::
  "nat \<Rightarrow> recursive_mutex \<Rightarrow> runtime \<Rightarrow> (recursive_mutex \<times> runtime) option" where
  "recursive_timed_mutex_try_lock k m rt = do {
     let ctx = rt_active rt;
     rt \<leftarrow> splk_lock k rt;
     let m = (if mx_owner m = None then m\<lparr>mx_owner := Some ctx, mx_count := 1\<rparr>
              else if mx_owner m = Some ctx then m\<lparr>mx_count := u64 (mx_count m + 1)\<rparr>
              else m);
     let rt = splk_unlock k rt;
     rt \<leftarrow> yield rt;
     Some (m, rt)
   }"

definition recursive_timed_mutex_unlock ::
  "nat \<Rightarrow> recursive_mutex \<Rightarrow> runtime \<Rightarrow> (fiber_errc + recursive_mutex \<times> runtime) option" where
  "recursive_timed_mutex_unlock k m rt = do {
     let ctx = rt_active rt;
     rt \<leftarrow> splk_lock k rt;
     if mx_owner m \<noteq> Some ctx then Some (Inl operation_not_permitted)
     else do {
       let n = u64 (mx_count m - 1);
       let m = m\<lparr>mx_count := n\<rparr>;
       if n = 0
       then if rt_wait rt (Waiters k) \<noteq> []
         then do {
           (c, rt) \<leftarrow> wait_pop_front (Waiters k) rt;
           rt \<leftarrow> set_ready ctx c rt;
           Some (Inr (m\<lparr>mx_owner := Some c, mx_count := 1\<rparr>, splk_unlock k rt))
         }
         else Some (Inr (m\<lparr>mx_owner := None\<rparr>, splk_unlock k rt))
       else Some (Inr (m, splk_unlock k rt))
     }
   }"

definition recursive_timed_mutex_try_lock_until ::
  "nat \<Rightarrow> time_point \<Rightarrow> time_point \<Rightarrow> recursive_mutex \<Rightarrow> runtime \<Rightarrow> recursive_mutex until_outcome option"
  where
  "recursive_timed_mutex_try_lock_until k now timeout_time m rt =
     (if timeout_time < now then Some (Returned False m rt)
      else do {
        let ctx = rt_active rt;
        rt \<leftarrow> splk_lock k rt;
        if mx_owner m = Some ctx
        then Some (Returned True (m\<lparr>mx_count := u64 (mx_count m + 1)\<rparr>) (splk_unlock k rt))
        else if mx_owner m = None
        then Some (Returned True (m\<lparr>mx_owner := Some ctx, mx_count := 1\<rparr>) (splk_unlock k rt))
        else do {
          ensure (\<not> wait_is_linked rt ctx);
          rt \<leftarrow> wait_link ctx (Waiters k) rt;
          rt \<leftarrow> wait_until_lk (rt_active rt) timeout_time k rt;
          Some (Suspended m rt)
        }
      })"

definition recursive_timed_mutex_try_lock_until_resumed ::
  "nat \<Rightarrow> time_point \<Rightarrow> time_point \<Rightarrow> recursive_mutex \<Rightarrow> runtime \<Rightarrow> (bool \<times> runtime) option" where
  "recursive_timed_mutex_try_lock_until_resumed k now timeout_time m rt = do {
     let ctx = rt_active rt;
     if \<not> wait_until_result now timeout_time then do {
       rt \<leftarrow> splk_lock k rt;
       rt \<leftarrow> wait_unlink ctx rt;
       Some (False, splk_unlock k rt)
     } else do {
       ensure (\<not> wait_is_linked rt ctx);
       Some (mx_owner m = Some ctx, rt)
     }
   }"

subsection \<open>Construction, destruction, durations\<close>

text \<open>The destructors assert that nobody owns the mutex or waits for it.\<close>

definition mutex_new :: mutex where
  "mutex_new = \<lparr>mx_owner = None\<rparr>"

definition mutex_delete :: "nat \<Rightarrow> mutex \<Rightarrow> runtime \<Rightarrow> unit option" where
  "mutex_delete k m rt = do { ensure (mx_owner m = None); ensure (rt_wait rt (Waiters k) = []) }"

definition timed_mutex_delete :: "nat \<Rightarrow> mutex \<Rightarrow> runtime \<Rightarrow> unit option" where
  "timed_mutex_delete k m rt = do { ensure (mx_owner m = None); ensure (rt_wait rt (Waiters k) = []) }"

definition recursive_mutex_new :: recursive_mutex where
  "recursive_mutex_new = \<lparr>mx_owner = None, mx_count = 0\<rparr>"

definition recursive_mutex_delete :: "nat \<Rightarrow> recursive_mutex \<Rightarrow> runtime \<Rightarrow> unit option" where
  "recursive_mutex_delete k m rt = do {
     ensure (mx_owner m = None); ensure (mx_count m = 0); ensure (rt_wait rt (Waiters k) = [])
   }"

definition recursive_timed_mutex_delete :: "nat \<Rightarrow> recursive_mutex \<Rightarrow> runtime \<Rightarrow> unit option" where
  "recursive_timed_mutex_delete k m rt = do {
     ensure (mx_owner m = None); ensure (mx_count m = 0); ensure (rt_wait rt (Waiters k) = [])
   }"

definition timed_mutex_try_lock_for ::
  "nat \<Rightarrow> time_point \<Rightarrow> time_point \<Rightarrow> mutex \<Rightarrow> runtime \<Rightarrow> mutex until_outcome option" where
  "timed_mutex_try_lock_for k now timeout_duration =
     timed_mutex_try_lock_until k now (now + timeout_duration)"

definition recursive_timed_mutex_try_lock_for ::
  "nat \<Rightarrow> time_point \<Rightarrow> time_point \<Rightarrow> recursive_mutex \<Rightarrow> runtime \<Rightarrow> recursive_mutex until_outcome option"
  where
  "recursive_timed_mutex_try_lock_for k now timeout_duration =
     recursive_timed_mutex_try_lock_until k now (now + timeout_duration)"

lemma timed_mutex_is_mutex:
  "timed_mutex_lock = mutex_lock" "timed_mutex_try_lock = mutex_try_lock"
  "timed_mutex_unlock = mutex_unlock"
  by (simp_all add: fun_eq_iff timed_mutex_lock_def mutex_lock_def timed_mutex_try_lock_def
      mutex_try_lock_def timed_mutex_unlock_def mutex_unlock_def)

lemma recursive_timed_mutex_is_recursive_mutex:
  "recursive_timed_mutex_lock = recursive_mutex_lock"
  "recursive_timed_mutex_try_lock = recursive_mutex_try_lock"
  "recursive_timed_mutex_unlock = recursive_mutex_unlock"
  by (simp_all add: fun_eq_iff recursive_timed_mutex_lock_def recursive_mutex_lock_def
      recursive_timed_mutex_try_lock_def recursive_mutex_try_lock_def
      recursive_timed_mutex_unlock_def recursive_mutex_unlock_def)

end
