(* ===== verification/Fiber_Lockable.thy ===== *)
theory Fiber_Lockable
  imports Fiber_Mutex
begin

text \<open>
  What a \<open>std::unique_lock\<close> relies on: the contract of the four mutexes, as a locale over a lock,
  an unlock, the owner and the number of times it has locked. The recursive mutexes extend it.
\<close>

type_synonym 'm lock_result = "(fiber_errc + bool \<times> 'm \<times> runtime) option"
type_synonym 'm unlock_result = "(fiber_errc + 'm \<times> runtime) option"

locale lockable =
  fixes lock :: "nat \<Rightarrow> 'm \<Rightarrow> runtime \<Rightarrow> 'm lock_result"
    and unlock :: "nat \<Rightarrow> 'm \<Rightarrow> runtime \<Rightarrow> 'm unlock_result"
    and owner :: "'m \<Rightarrow> ctx option"
    and depth :: "'m \<Rightarrow> int"
  assumes lock_free: "k \<notin> set (rt_splk rt) \<Longrightarrow> owner m = None \<Longrightarrow>
      \<exists>m'. lock k m rt = Some (Inr (False, m', rt)) \<and> owner m' = Some (rt_active rt) \<and> depth m' = 1"
    and unlock_last: "k \<notin> set (rt_splk rt) \<Longrightarrow> owner m = Some (rt_active rt) \<Longrightarrow> depth m = 1 \<Longrightarrow>
      rt_wait rt (Waiters k) = [] \<Longrightarrow> \<exists>m'. unlock k m rt = Some (Inr (m', rt)) \<and> owner m' = None"
    and unlock_other: "k \<notin> set (rt_splk rt) \<Longrightarrow> owner m \<noteq> Some (rt_active rt) \<Longrightarrow>
      unlock k m rt = Some (Inl operation_not_permitted)"
begin

text \<open>A free mutex is free again after a lock and an unlock, and only its owner unlocks it.\<close>

lemma lock_unlock:
  assumes "k \<notin> set (rt_splk rt)" "owner m = None" "rt_wait rt (Waiters k) = []"
  shows "\<exists>m' m''. lock k m rt = Some (Inr (False, m', rt)) \<and> unlock k m' rt = Some (Inr (m'', rt)) \<and>
    owner m'' = None"
  using lock_free [OF assms(1,2)] unlock_last [OF assms(1) _ _ assms(3)] by metis

lemma others_cannot_unlock:
  assumes "k \<notin> set (rt_splk rt)" "lock k m rt = Some (Inr (False, m', rt))" "owner m = None"
    and "rt_active rt' \<noteq> rt_active rt" "k \<notin> set (rt_splk rt')"
  shows "unlock k m' rt' = Some (Inl operation_not_permitted)"
proof -
  have "owner m' = Some (rt_active rt)" using lock_free [OF assms(1,3)] assms(2) by auto
  with assms(4) show ?thesis by (intro unlock_other [OF assms(5)]) simp
qed

end

text \<open>A lock or an unlock done \<open>n\<close> times over.\<close>

fun lock_times :: "(nat \<Rightarrow> 'm \<Rightarrow> runtime \<Rightarrow> 'm lock_result) \<Rightarrow> nat \<Rightarrow> nat \<Rightarrow> 'm \<Rightarrow> runtime \<Rightarrow> ('m \<times> runtime) option" where
  "lock_times lock 0 k m rt = Some (m, rt)"
| "lock_times lock (Suc n) k m rt = do {
     r \<leftarrow> lock k m rt;
     (case r of Inr (False, m, rt) \<Rightarrow> lock_times lock n k m rt | _ \<Rightarrow> None)
   }"

fun unlock_times :: "(nat \<Rightarrow> 'm \<Rightarrow> runtime \<Rightarrow> 'm unlock_result) \<Rightarrow> nat \<Rightarrow> nat \<Rightarrow> 'm \<Rightarrow> runtime \<Rightarrow> ('m \<times> runtime) option" where
  "unlock_times unlock 0 k m rt = Some (m, rt)"
| "unlock_times unlock (Suc n) k m rt = do {
     r \<leftarrow> unlock k m rt;
     (case r of Inr (m, rt) \<Rightarrow> unlock_times unlock n k m rt | _ \<Rightarrow> None)
   }"

locale recursive_lockable = lockable +
  assumes lock_again: "k \<notin> set (rt_splk rt) \<Longrightarrow> owner m = Some (rt_active rt) \<Longrightarrow> 0 < depth m \<Longrightarrow>
      depth m + 1 < 2 ^ 64 \<Longrightarrow>
      \<exists>m'. lock k m rt = Some (Inr (False, m', rt)) \<and> owner m' = owner m \<and> depth m' = depth m + 1"
    and unlock_inner: "k \<notin> set (rt_splk rt) \<Longrightarrow> owner m = Some (rt_active rt) \<Longrightarrow> 1 < depth m \<Longrightarrow>
      depth m < 2 ^ 64 \<Longrightarrow>
      \<exists>m'. unlock k m rt = Some (Inr (m', rt)) \<and> owner m' = owner m \<and> depth m' = depth m - 1"
begin

lemma lock_times_again:
  assumes "k \<notin> set (rt_splk rt)" "owner m = Some (rt_active rt)" "0 < depth m" "depth m + int n < 2 ^ 64"
  shows "\<exists>m'. lock_times lock n k m rt = Some (m', rt) \<and> owner m' = Some (rt_active rt) \<and>
    depth m' = depth m + int n"
  using assms
proof (induction n arbitrary: m)
  case (Suc n)
  from lock_again [OF Suc.prems(1-3)] Suc.prems(4) obtain m' where
    m': "lock k m rt = Some (Inr (False, m', rt))" "owner m' = Some (rt_active rt)" "depth m' = depth m + 1"
    using Suc.prems(2) by auto
  from Suc.IH [of m'] m' Suc.prems show ?case by (simp add: algebra_simps)
qed simp

lemma unlock_times_inner:
  assumes "k \<notin> set (rt_splk rt)" "owner m = Some (rt_active rt)" "int n < depth m" "depth m < 2 ^ 64"
  shows "\<exists>m'. unlock_times unlock n k m rt = Some (m', rt) \<and> owner m' = Some (rt_active rt) \<and>
    depth m' = depth m - int n"
  using assms
proof (induction n arbitrary: m)
  case (Suc n)
  from unlock_inner [OF Suc.prems(1,2)] Suc.prems(2-4) obtain m' where
    m': "unlock k m rt = Some (Inr (m', rt))" "owner m' = Some (rt_active rt)" "depth m' = depth m - 1"
    by auto
  from Suc.IH [of m'] m' Suc.prems show ?case by (simp add: algebra_simps)
qed simp

lemma unlock_times_add:
  "unlock_times unlock (i + j) k m rt =
     Option.bind (unlock_times unlock i k m rt) (\<lambda>(m, rt). unlock_times unlock j k m rt)"
  by (induction i arbitrary: m rt) (auto split: Option.bind_splits sum.split)

text \<open>\<open>n\<close> locks and \<open>n\<close> unlocks free the mutex, and no fewer unlocks do.\<close>

lemma nested:
  assumes "k \<notin> set (rt_splk rt)" "owner m = None" "rt_wait rt (Waiters k) = []" "0 < n" "int n < 2 ^ 64"
  shows "\<exists>m1 m2. lock_times lock n k m rt = Some (m1, rt) \<and> owner m1 = Some (rt_active rt) \<and>
    (\<forall>i < n. \<exists>mi. unlock_times unlock i k m1 rt = Some (mi, rt) \<and> owner mi = Some (rt_active rt)) \<and>
    unlock_times unlock n k m1 rt = Some (m2, rt) \<and> owner m2 = None"
proof -
  obtain n' where n: "n = Suc n'" using assms(4) by (cases n) auto
  obtain m' where m': "lock k m rt = Some (Inr (False, m', rt))" "owner m' = Some (rt_active rt)" "depth m' = 1"
    using lock_free [OF assms(1,2)] by blast
  obtain m1 where m1: "lock_times lock n k m rt = Some (m1, rt)" "owner m1 = Some (rt_active rt)" "depth m1 = int n"
    using lock_times_again [OF assms(1) m'(2), of n'] m' assms(5) n by auto
  have inner: "\<exists>mi. unlock_times unlock i k m1 rt = Some (mi, rt) \<and> owner mi = Some (rt_active rt) \<and>
      depth mi = int n - int i" if "i < n" for i
    using unlock_times_inner [OF assms(1) m1(2), of i] m1(3) assms(5) that by auto
  obtain mi where mi: "unlock_times unlock n' k m1 rt = Some (mi, rt)" "owner mi = Some (rt_active rt)" "depth mi = 1"
    using inner [of n'] n by auto
  obtain m2 where "unlock k mi rt = Some (Inr (m2, rt))" "owner m2 = None"
    using unlock_last [OF assms(1) mi(2,3) assms(3)] by blast
  with mi(1) n have "unlock_times unlock n k m1 rt = Some (m2, rt)"
    using unlock_times_add [of n' 1 k m1 rt] by simp
  with m1 inner \<open>owner m2 = None\<close> show ?thesis by blast
qed

end

subsection \<open>The mutexes keep the contract\<close>

lemma splk_roundtrip [simp]:
  "k \<notin> set (rt_splk rt) \<Longrightarrow> splk_lock k rt = Some (rt\<lparr>rt_splk := k # rt_splk rt\<rparr>)"
  "splk_unlock k (rt\<lparr>rt_splk := k # rt_splk rt\<rparr>) = rt"
  by (simp_all add: splk_lock_def splk_unlock_def ensure_def)

interpretation mx: lockable mutex_lock mutex_unlock mx_owner "\<lambda>_. 1"
  by unfold_locales (auto simp: mutex_lock_def mutex_unlock_def)

interpretation tmx: lockable timed_mutex_lock timed_mutex_unlock mx_owner "\<lambda>_. 1"
  by unfold_locales (auto simp: timed_mutex_lock_def timed_mutex_unlock_def)

interpretation rmx: recursive_lockable "\<lambda>k m rt. map_option Inr (recursive_mutex_lock k m rt)"
  recursive_mutex_unlock mx_owner mx_count
  by unfold_locales (auto simp: recursive_mutex_lock_def recursive_mutex_unlock_def Let_def u64_def)

interpretation rtmx: recursive_lockable "\<lambda>k m rt. map_option Inr (recursive_timed_mutex_lock k m rt)"
  recursive_timed_mutex_unlock mx_owner mx_count
  by unfold_locales
    (auto simp: recursive_timed_mutex_lock_def recursive_timed_mutex_unlock_def Let_def u64_def)

text \<open>C24: A recursive mutex nests: after \<open>n\<close> locks of a free mutex by a fiber, fewer than \<open>n\<close>
  unlocks leave the fiber its owner, and the \<open>n\<close>-th frees it, the runtime being as before; up to
  the range of the \<open>size_t\<close> that counts them.\<close>

theorem recursive_mutex_nests:
  assumes "k \<notin> set (rt_splk rt)" "mx_owner m = None" "rt_wait rt (Waiters k) = []" "0 < n" "int n < 2 ^ 64"
  shows "\<exists>m1 m2. lock_times (\<lambda>k m rt. map_option Inr (recursive_mutex_lock k m rt)) n k m rt = Some (m1, rt) \<and>
    (\<forall>i < n. \<exists>mi. unlock_times recursive_mutex_unlock i k m1 rt = Some (mi, rt) \<and>
       mx_owner mi = Some (rt_active rt)) \<and>
    unlock_times recursive_mutex_unlock n k m1 rt = Some (m2, rt) \<and> mx_owner m2 = None"
  using rmx.nested [OF assms] by blast

lemma recursive_mutex_nests_witness:
  "\<exists>m1 m2. lock_times (\<lambda>k m rt. map_option Inr (recursive_mutex_lock k m rt)) 3 7
      \<lparr>mx_owner = None, mx_count = 0\<rparr> (scheduler_new 0 1) = Some (m1, scheduler_new 0 1) \<and>
    unlock_times recursive_mutex_unlock 3 7 m1 (scheduler_new 0 1) = Some (m2, scheduler_new 0 1) \<and>
    mx_owner m2 = None"
  using recursive_mutex_nests [of 7 "scheduler_new 0 1" "\<lparr>mx_owner = None, mx_count = 0\<rparr>" 3]
  by (auto simp: scheduler_new_def)

end
