(* ===== verification/Fiber_Locking.thy ===== *)
theory Fiber_Locking
  imports Fiber_Mutex
begin

text \<open>
  Fibers that synchronise through timed mutexes (a \<open>mutex\<close> is one on which nobody calls
  \<open>try_lock_until\<close>). A fiber of the system takes the actions of \<open>Fiber_System\<close>, except for
  waiting and waking, which only the mutexes do. \<open>lk_held\<close> is what the program believes:
  the pairs of a fiber and a mutex of which the last operation told the fiber it has the lock.
\<close>

record lockers =
  lk_fb :: fibers
  lk_mx :: "nat \<Rightarrow> mutex"
  lk_trying :: "ctx \<Rightarrow> nat option"
  lk_held :: "(ctx \<times> nat) list"

datatype lock_action =
    Plain action
  | Lock nat
  | Lock_until nat time_point
  | Try_lock nat
  | Try_return
  | Unlock nat

definition lockers_new :: "ctx \<Rightarrow> ctx \<Rightarrow> lockers" where
  "lockers_new main disp = \<lparr>lk_fb = fibers_new main disp, lk_mx = (\<lambda>_. \<lparr>mx_owner = None\<rparr>),
     lk_trying = (\<lambda>_. None), lk_held = []\<rparr>"

definition lk_rt :: "lockers \<Rightarrow> runtime" where
  "lk_rt s = fb_rt (lk_fb s)"

definition lk_active :: "lockers \<Rightarrow> ctx" where
  "lk_active s = rt_active (lk_rt s)"

definition put_rt :: "runtime \<Rightarrow> lockers \<Rightarrow> lockers" where
  "put_rt rt s = s\<lparr>lk_fb := (lk_fb s)\<lparr>fb_rt := rt\<rparr>\<rparr>"

definition put_mx :: "nat \<Rightarrow> mutex \<Rightarrow> lockers \<Rightarrow> lockers" where
  "put_mx k m s = s\<lparr>lk_mx := (lk_mx s)(k := m)\<rparr>"

definition put_pend :: "ctx \<Rightarrow> pending \<Rightarrow> lockers \<Rightarrow> lockers" where
  "put_pend c p s = s\<lparr>lk_fb := set_pend c p (lk_fb s)\<rparr>"

definition holds :: "ctx \<Rightarrow> nat \<Rightarrow> lockers \<Rightarrow> lockers" where
  "holds c k s = s\<lparr>lk_held := (c, k) # lk_held s\<rparr>"

text \<open>What the operation that the active fiber finishes tells it.\<close>

definition told :: "lockers \<Rightarrow> nat option" where
  "told s = (case fb_pend (lk_fb s) (lk_active s) of
     Blocked k \<Rightarrow> Some k
   | Timed k tp \<Rightarrow> if wait_until_result (fb_now (lk_fb s)) tp then Some k else None
   | _ \<Rightarrow> None)"

fun lexec :: "lock_action \<Rightarrow> lockers \<Rightarrow> lockers option" where
  "lexec (Plain act) s = do {
     f \<leftarrow> exec act (lk_fb s);
     let s' = s\<lparr>lk_fb := f\<rparr>;
     Some (case (act, told s) of (Resumed, Some k) \<Rightarrow> holds (lk_active s) k s' | _ \<Rightarrow> s')
   }"
| "lexec (Lock k) s = do {
     r \<leftarrow> timed_mutex_lock k (lk_mx s k) (lk_rt s);
     (case r of
        Inl _ \<Rightarrow> Some s
      | Inr (suspended, m, rt) \<Rightarrow>
          let s' = put_mx k m (put_rt rt s)
          in Some (if suspended then put_pend (lk_active s) (Blocked k) s'
                   else holds (lk_active s) k s'))
   }"
| "lexec (Lock_until k tp) s = do {
     r \<leftarrow> timed_mutex_try_lock_until k (fb_now (lk_fb s)) tp (lk_mx s k) (lk_rt s);
     (case r of
        Returned True m rt \<Rightarrow> Some (holds (lk_active s) k (put_mx k m (put_rt rt s)))
      | Returned False m rt \<Rightarrow> Some (put_mx k m (put_rt rt s))
      | Suspended m rt \<Rightarrow> Some (put_pend (lk_active s) (Timed k tp) (put_mx k m (put_rt rt s))))
   }"
| "lexec (Try_lock k) s = do {
     r \<leftarrow> timed_mutex_try_lock k (lk_mx s k) (lk_rt s);
     (case r of
        Inl _ \<Rightarrow> Some s
      | Inr (m, rt) \<Rightarrow>
          Some (put_mx k m (put_rt rt s) \<lparr>lk_trying := (lk_trying s)(lk_active s := Some k)\<rparr>))
   }"
| "lexec Try_return s =
     (case lk_trying s (lk_active s) of
        None \<Rightarrow> Some s
      | Some k \<Rightarrow>
          let s' = s\<lparr>lk_trying := (lk_trying s)(lk_active s := None)\<rparr>
          in Some (if mutex_try_lock_result (lk_active s) (lk_mx s k)
                   then holds (lk_active s) k s' else s'))"
| "lexec (Unlock k) s = do {
     r \<leftarrow> timed_mutex_unlock k (lk_mx s k) (lk_rt s);
     (case r of
        Inl _ \<Rightarrow> Some s
      | Inr (m, rt) \<Rightarrow>
          Some (put_mx k m (put_rt rt s)
            \<lparr>lk_held := removeAll (lk_active s, k) (lk_held s)\<rparr>))
   }"

text \<open>What the program may do: as for any fibers, the operation at hand is finished before the
  next one; a timed lock is not tried by the owner (which the standard leaves undefined); a fiber
  does not end while it holds a lock.\<close>

definition lallowed :: "lock_action \<Rightarrow> lockers \<Rightarrow> bool" where
  "lallowed act s =
     (let f = lk_fb s; a = lk_active s;
          acts = (\<not> fb_deleted f \<and> a \<noteq> rt_dispatcher (fb_rt f) \<and> fb_pend f a = Idle \<and> lk_trying s a = None)
      in case act of
           Plain Dispatch \<Rightarrow> allowed Dispatch f
         | Plain (Clock now) \<Rightarrow> allowed (Clock now) f
         | Plain Resumed \<Rightarrow> allowed Resumed f
         | Plain (Wait _) \<Rightarrow> False
         | Plain (Wait_until _ _) \<Rightarrow> False
         | Plain (Wake _) \<Rightarrow> False
         | Plain Finish \<Rightarrow> acts \<and> allowed Finish f \<and> (\<forall>(c, k) \<in> set (lk_held s). c \<noteq> a)
         | Plain p \<Rightarrow> acts \<and> allowed p f
         | Lock_until k tp \<Rightarrow> acts \<and> mx_owner (lk_mx s k) \<noteq> Some a
         | Try_return \<Rightarrow> \<not> fb_deleted f \<and> a \<noteq> rt_dispatcher (fb_rt f) \<and> fb_pend f a = Idle \<and>
             lk_trying s a \<noteq> None
         | _ \<Rightarrow> acts)"

inductive lockers_reachable :: "ctx \<Rightarrow> ctx \<Rightarrow> lockers \<Rightarrow> bool" for main disp where
  start: "lockers_reachable main disp (lockers_new main disp)"
| act: "lockers_reachable main disp s \<Longrightarrow> lallowed act s \<Longrightarrow> lexec act s = Some t \<Longrightarrow>
    lockers_reachable main disp t"

subsection \<open>The queues of the mutexes\<close>

definition waiters :: "runtime \<Rightarrow> nat \<Rightarrow> ctx list" where
  "waiters rt k = rt_wait rt (Waiters k)"

text \<open>The operations of the runtime leave the queues of the mutexes alone.\<close>

lemma waiters_upd [simp]:
  "waiters (set_context c x rt) = waiters rt" "waiters (rt\<lparr>rt_active := a\<rparr>) = waiters rt"
  "waiters (rt\<lparr>rt_algo := g\<rparr>) = waiters rt" "waiters (rt\<lparr>rt_sleep := ds\<rparr>) = waiters rt"
  "waiters (rt\<lparr>rt_splk := l\<rparr>) = waiters rt" "waiters (rt\<lparr>rt_shutdown := b\<rparr>) = waiters rt"
  "waiters (rt\<lparr>rt_worker := ds\<rparr>) = waiters rt" "waiters (rt\<lparr>rt_terminated := ds\<rparr>) = waiters rt"
  "waiters (rt\<lparr>rt_context := g'\<rparr>) = waiters rt" "waiters (rt\<lparr>rt_contexts := n\<rparr>) = waiters rt"
  "waiters (rt\<lparr>rt_wait := (rt_wait rt)(Joiners j := ds)\<rparr>) = waiters rt"
  "waiters (splk_unlock n rt) = waiters rt"
  by (simp_all add: waiters_def fun_eq_iff set_context_def splk_unlock_def)

lemma waiters_set_ready: "sched_set_ready c rt = Some rt' \<Longrightarrow> waiters rt' = waiters rt"
  by (auto simp: sched_set_ready_def algo_awakened_def ready_unlink_def sleep_unlink_def Let_def
      split: Option.bind_splits if_splits)

lemma waiters_resume: "resume_with d c rt = Some rt' \<Longrightarrow> waiters rt' = waiters rt"
  by (auto simp: resume_with_def resume_tail_def split: Option.bind_splits option.splits
      dest: waiters_set_ready)

lemma waiters_get_next: "get_next rt = (n, rt') \<Longrightarrow> waiters rt' = waiters rt"
  by (auto simp: get_next_def split: prod.splits)

lemma waiters_suspend: "suspend rt = Some rt' \<Longrightarrow> waiters rt' = waiters rt"
  by (auto simp: suspend_def resume_def split: prod.splits Option.bind_splits
      dest!: waiters_resume waiters_get_next)

lemma waiters_yield: "yield rt = Some rt' \<Longrightarrow> waiters rt' = waiters rt"
  by (auto simp: yield_def sched_yield_def resume_ready_def Let_def split: prod.splits Option.bind_splits
      dest!: waiters_resume waiters_get_next)

lemma waiters_wait_until: "wait_until c tp rt = Some rt' \<Longrightarrow> waiters rt' = waiters rt"
  by (auto simp: wait_until_def sleep_link_def resume_def Let_def split: prod.splits Option.bind_splits
      dest!: waiters_resume waiters_get_next)

lemma waiters_release: "intrusive_ptr_release c rt = Some rt' \<Longrightarrow> waiters rt' = waiters rt"
  by (auto simp: intrusive_ptr_release_def destroy_context_def Let_def waiters_def fun_eq_iff
      split: Option.bind_splits if_splits)

lemma waiters_fiber_new: "fiber_new p c rt = Some rt' \<Longrightarrow> waiters rt' = waiters rt"
  by (auto simp: fiber_new_def make_worker_context_def fiber_start_def attach_worker_context_def
      resume_ready_def Let_def split: Option.bind_splits launch.splits
      dest!: waiters_resume waiters_set_ready)

lemma waiters_link_joiners: "wait_link c (Joiners j) rt = Some rt' \<Longrightarrow> waiters rt' = waiters rt"
  by (auto simp: wait_link_def waiters_def fun_eq_iff split: Option.bind_splits)

lemma waiters_context_join: "context_join c rt = Some (b, rt') \<Longrightarrow> waiters rt' = waiters rt"
  by (auto simp: context_join_def split: Option.bind_splits if_splits
      dest!: waiters_link_joiners waiters_suspend)

lemma waiters_release_loop: "release_loop cs rt = Some rt' \<Longrightarrow> waiters rt' = waiters rt"
  by (induction cs arbitrary: rt)
    (auto simp: Let_def worker_unlink_def split: Option.bind_splits dest!: waiters_release)

lemma waiters_sleep2ready_loop: "sleep2ready_loop now cs rt = Some rt' \<Longrightarrow> waiters rt' = waiters rt"
  by (induction cs arbitrary: rt)
    (auto simp: Let_def sleep_unlink_def algo_awakened_def split: Option.bind_splits if_splits)

lemma waiters_dispatch: "dispatch now rt = Some rt' \<Longrightarrow> waiters rt' = waiters rt"
  by (auto simp: dispatch_def Let_def release_terminated_def sleep2ready_def suspend_with_cc_def
      resume_ready_def split: Option.bind_splits prod.splits option.splits if_splits
      dest!: waiters_resume waiters_get_next waiters_release_loop waiters_sleep2ready_loop)

lemma waiters_hook:
  assumes "rt_core H rt"
  shows "c \<in> set (waiters rt k) \<longleftrightarrow> hook_of rt c = Some (Waiters k)"
  unfolding waiters_def by (rule core_hook(1) [OF assms])

lemma waiters_unlinked:
  assumes "rt_core H rt"
  shows "waiters (unlinked c rt) k = remove1 c (waiters rt k)"
proof (cases "hook_of rt c")
  case None
  then have "c \<notin> set (waiters rt k)" using waiters_hook [OF assms] by simp
  with None show ?thesis by (simp add: unlinked_def remove1_idem)
next
  case (Some q)
  show ?thesis
  proof (cases "q = Waiters k")
    case True
    with Some show ?thesis by (simp add: waiters_def rt_wait_unlinked(1))
  next
    case False
    with Some have "c \<notin> set (waiters rt k)" using waiters_hook [OF assms] by simp
    with Some False show ?thesis by (simp add: waiters_def rt_wait_unlinked(1) remove1_idem)
  qed
qed

lemma wait_unlink_eq: "wait_unlink c rt = Some rt' \<Longrightarrow> rt' = unlinked c rt"
  by (auto simp: wait_unlink_def unlinked_def hook_of_def hooked_def split: option.splits Option.bind_splits)

definition plain :: "action \<Rightarrow> bool" where
  "plain act = (case act of Wait _ \<Rightarrow> False | Wait_until _ _ \<Rightarrow> False | Wake _ \<Rightarrow> False | _ \<Rightarrow> True)"

text \<open>A plain action at most takes the active fiber, which gives up waiting, out of a queue.\<close>

lemma exec_waiters:
  assumes inv: "fib_inv s" and al: "allowed act s" and pl: "plain act"
    and ex: "exec act s = Some t" and nd: "\<not> fb_deleted t"
  shows "waiters (fb_rt t) k = (if act = Resumed then remove1 (rt_active (fb_rt s)) (waiters (fb_rt s) k)
    else waiters (fb_rt s) k)"
proof -
  let ?rt = "fb_rt s" and ?a = "rt_active (fb_rt s)"
  have C: "rt_core (held s) ?rt" using inv by (simp add: fib_inv_def rt_inv_def)
  have nosplk: "waiters (unlinked ?a (?rt\<lparr>rt_splk := l\<rparr>)) k = remove1 ?a (waiters ?rt k)" for l
    using waiters_unlinked [of "held s" "?rt\<lparr>rt_splk := l\<rparr>"] C by simp
  show ?thesis
  proof (cases act)
    case Finish
    then have a: "?a \<noteq> rt_main ?rt" "?a \<noteq> rt_dispatcher ?rt" "fb_pend s ?a = Idle"
      using al by (auto simp: allowed_def Let_def)
    have I: "rt_inv (held s) ?rt" using inv by (simp add: fib_inv_def)
    from set_terminated_inv [OF I a(1,2) acting(5) [OF inv a(2,3)]] Finish ex show ?thesis
      by (auto simp: waiters_def split: Option.bind_splits)
  next
    case Resumed
    have ok: "pend_ok ?rt (fb_now s) ?a (fb_pend s ?a)" using inv by (simp add: fib_inv_def pend_inv_def)
    have od: "?a \<in> on_deck ?rt" "?a \<notin> set (rt_sleep ?rt)"
      using inv by (auto simp: on_deck_def fib_inv_def rt_inv_def active_ok_def)
    show ?thesis
    proof (cases "fb_pend s ?a")
      case Idle
      with Resumed al show ?thesis by (simp add: allowed_def Let_def)
    next
      case (Joining c)
      then obtain m where m: "wait_unlink ?a ?rt = Some m" "intrusive_ptr_release c m = Some (fb_rt t)"
        using Resumed ex
        by (auto simp: fiber_join_resumed_def context_join_resumed_def Let_def split: Option.bind_splits)
      with Resumed show ?thesis
        using waiters_release [OF m(2)] wait_unlink_eq [OF m(1)] waiters_unlinked [OF C] by simp
    next
      case (Blocked i)
      with ok od have "?a \<notin> set (waiters ?rt k)" using waiters_hook [OF C] by (auto simp: pend_ok_def)
      with Resumed Blocked ex show ?thesis by (auto simp: Let_def remove1_idem split: Option.bind_splits)
    next
      case (Timed i tp)
      show ?thesis
      proof (cases "fb_now s < tp")
        case True
        with ok od Timed have "?a \<notin> set (waiters ?rt k)" using waiters_hook [OF C] by (auto simp: pend_ok_def)
        with Resumed Timed ex True show ?thesis
          by (auto simp: Let_def timed_resumed_def wait_until_result_def remove1_idem split: Option.bind_splits)
      next
        case False
        with Resumed Timed ex obtain m l where m: "wait_unlink ?a (?rt\<lparr>rt_splk := l\<rparr>) = Some m"
          "fb_rt t = splk_unlock i m"
          by (auto simp: Let_def timed_resumed_def wait_until_result_def splk_lock_def split: Option.bind_splits)
        with Resumed wait_unlink_eq [OF m(1)] show ?thesis using nosplk [of l] by simp
      qed
    next
      case Deleting
      with Resumed ex show ?thesis by (simp add: Let_def)
    qed
  next
    case Dispatch
    with ex nd al show ?thesis
      by (auto simp: allowed_def Let_def split: Option.bind_splits if_splits dest!: waiters_dispatch)
  next
    case (Join c)
    with ex show ?thesis
      by (auto simp: fiber_join_def Let_def split: Option.bind_splits sum.splits if_splits prod.splits
          dest!: waiters_context_join waiters_release)
  next
    case Delete
    with ex show ?thesis
      by (auto simp: scheduler_delete_def split: Option.bind_splits dest!: waiters_context_join)
  next
    case (Detach c)
    with ex show ?thesis
      by (auto simp: fiber_detach_def split: Option.bind_splits dest!: waiters_release)
  qed (use pl ex in \<open>auto simp: plain_def split: Option.bind_splits
         dest!: waiters_fiber_new waiters_yield waiters_wait_until\<close>)
qed

definition waiting_on :: "nat \<Rightarrow> pending \<Rightarrow> bool" where
  "waiting_on k p = (case p of Blocked i \<Rightarrow> i = k | Timed i _ \<Rightarrow> i = k | _ \<Rightarrow> False)"

lemma exec_pend:
  assumes "plain act" "exec act s = Some t" "waiting_on k (fb_pend t c)" "allowed act s"
  shows "fb_pend t c = fb_pend s c \<and> (act = Resumed \<longrightarrow> c \<noteq> rt_active (fb_rt s))"
  using assms
  by (cases act)
    (auto simp: plain_def waiting_on_def Let_def allowed_def fiber_join_def scheduler_delete_def
      split: Option.bind_splits sum.splits if_splits prod.splits pending.splits option.splits)

subsection \<open>Who holds what\<close>

definition queue_ok :: "lockers \<Rightarrow> nat \<Rightarrow> bool" where
  "queue_ok s k \<longleftrightarrow>
     (mx_owner (lk_mx s k) = None \<longrightarrow> waiters (lk_rt s) k = []) \<and>
     (\<forall>c. waiting_on k (fb_pend (lk_fb s) c) \<longrightarrow> c \<notin> set (waiters (lk_rt s) k) \<longrightarrow>
        mx_owner (lk_mx s k) = Some c)"

definition held_ok :: "lockers \<Rightarrow> bool" where
  "held_ok s \<longleftrightarrow> (\<forall>c k. (c, k) \<in> set (lk_held s) \<longrightarrow> mx_owner (lk_mx s k) = Some c)"

definition lock_inv :: "lockers \<Rightarrow> bool" where
  "lock_inv s \<longleftrightarrow> held_ok s \<and>
     (\<not> fb_deleted (lk_fb s) \<longrightarrow> fib_inv (lk_fb s) \<and> (\<forall>k. queue_ok s k))"

lemma lk_simps [simp]:
  "lk_fb (put_mx k m s) = lk_fb s" "lk_mx (put_mx k m s) = (lk_mx s)(k := m)"
  "lk_held (put_mx k m s) = lk_held s" "lk_rt (put_mx k m s) = lk_rt s"
  "lk_fb (put_rt rt s) = (lk_fb s)\<lparr>fb_rt := rt\<rparr>" "lk_mx (put_rt rt s) = lk_mx s"
  "lk_held (put_rt rt s) = lk_held s" "lk_rt (put_rt rt s) = rt"
  "lk_fb (put_pend c p s) = set_pend c p (lk_fb s)" "lk_mx (put_pend c p s) = lk_mx s"
  "lk_held (put_pend c p s) = lk_held s" "lk_rt (put_pend c p s) = lk_rt s"
  "lk_fb (holds c k s) = lk_fb s" "lk_mx (holds c k s) = lk_mx s"
  "lk_held (holds c k s) = (c, k) # lk_held s" "lk_rt (holds c k s) = lk_rt s"
  "lk_rt (s\<lparr>lk_trying := t\<rparr>) = lk_rt s" "lk_rt (s\<lparr>lk_held := h\<rparr>) = lk_rt s"
  "lk_rt (s\<lparr>lk_fb := f\<rparr>) = fb_rt f"
  by (simp_all add: put_mx_def put_rt_def put_pend_def holds_def lk_rt_def)

lemma waiters_block:
  assumes "splk_lock k rt = Some l" "wait_link c (Waiters k) l = Some w" "waiters r = waiters w"
  shows "waiters r = (waiters rt)(k := waiters rt k @ [c])"
  using assms
  by (auto simp: splk_lock_def wait_link_def waiters_def fun_eq_iff split: Option.bind_splits)

lemma waiters_suspend_lk: "suspend_lk k rt = Some rt' \<Longrightarrow> waiters rt' = waiters rt"
  by (auto simp: suspend_lk_def resume_lk_def split: prod.splits Option.bind_splits
      dest!: waiters_resume waiters_get_next)

lemma waiters_wait_until_lk: "wait_until_lk c tp k rt = Some rt' \<Longrightarrow> waiters rt' = waiters rt"
  by (auto simp: wait_until_lk_def sleep_link_def resume_lk_def Let_def
      split: prod.splits Option.bind_splits dest!: waiters_resume waiters_get_next)

lemma fib_acting:
  assumes "fib_inv f" "rt_active (fb_rt f) \<noteq> rt_dispatcher (fb_rt f)" "fb_pend f (rt_active (fb_rt f)) = Idle"
    "\<not> fb_deleted f"
  shows "splk_lock k (fb_rt f) = Some ((fb_rt f)\<lparr>rt_splk := [k]\<rparr>)"
    "splk_unlock k ((fb_rt f)\<lparr>rt_splk := [k]\<rparr>) = fb_rt f"
    "\<not> wait_is_linked (fb_rt f) (rt_active (fb_rt f))"
    "allowed (Wait k) f" "allowed (Wait_until k tp) f" "allowed (Wake k) f" "allowed Yield_now f"
  using acting(5,8) [OF assms(1-3)] assms
  by (auto simp: splk_lock_def splk_unlock_def allowed_def Let_def hook_of_def wait_is_linked_def
      split: option.splits)

definition acts :: "lockers \<Rightarrow> bool" where
  "acts s \<longleftrightarrow> \<not> fb_deleted (lk_fb s) \<and> lk_active s \<noteq> rt_dispatcher (lk_rt s) \<and>
     fb_pend (lk_fb s) (lk_active s) = Idle"

lemma lock_inv_acts:
  assumes "lock_inv s" "acts s"
  shows "held_ok s" "fib_inv (lk_fb s)" "queue_ok s k"
    "splk_lock k (lk_rt s) = Some ((lk_rt s)\<lparr>rt_splk := [k]\<rparr>)"
    "splk_unlock k ((lk_rt s)\<lparr>rt_splk := [k]\<rparr>) = lk_rt s"
    "\<not> wait_is_linked (lk_rt s) (lk_active s)"
    "allowed (Wait k) (lk_fb s)" "allowed (Wait_until k tp) (lk_fb s)" "allowed (Wake k) (lk_fb s)"
    "allowed Yield_now (lk_fb s)"
  using assms fib_acting [of "lk_fb s"] by (auto simp: lock_inv_def acts_def lk_rt_def lk_active_def)

text \<open>A lock that is granted to the active fiber, or that one owner gives to the next.\<close>

lemma lock_inv_owner:
  assumes inv: "lock_inv s" and nd: "\<not> fb_deleted (lk_fb s)"
    and f: "fib_inv f" "\<And>c. fb_pend f c = fb_pend (lk_fb s) c" "waiters (fb_rt f) = (waiters (lk_rt s))(k := ws)"
    and o: "\<And>c. (c, k) \<in> set (lk_held t) \<Longrightarrow> mx_owner (lk_mx t k) = Some c"
      "\<And>c i. i \<noteq> k \<Longrightarrow> (c, i) \<in> set (lk_held t) \<Longrightarrow> (c, i) \<in> set (lk_held s)"
      "\<And>i. i \<noteq> k \<Longrightarrow> lk_mx t i = lk_mx s i"
    and q: "mx_owner (lk_mx t k) = None \<Longrightarrow> ws = []"
      "\<And>c. waiting_on k (fb_pend f c) \<Longrightarrow> c \<notin> set ws \<Longrightarrow> mx_owner (lk_mx t k) = Some c"
    and t: "lk_fb t = f"
  shows "lock_inv t"
proof -
  have H: "held_ok s" and Q: "queue_ok s i" for i using inv nd by (auto simp: lock_inv_def)
  have "held_ok t" using H o unfolding held_ok_def by metis
  moreover have "queue_ok t i" for i
  proof (cases "i = k")
    case True
    with q f(3) t show ?thesis by (auto simp: queue_ok_def lk_rt_def)
  next
    case False
    with Q [of i] f(2,3) o(3) t show ?thesis by (auto simp: queue_ok_def lk_rt_def)
  qed
  ultimately show ?thesis using f(1) t by (simp add: lock_inv_def)
qed

text \<open>A fiber that goes to wait.\<close>

lemma lock_inv_wait:
  assumes inv: "lock_inv s" and nd: "\<not> fb_deleted (lk_fb s)" and own: "mx_owner (lk_mx s k) \<noteq> None"
    and f: "fib_inv f" "fb_pend f = (fb_pend (lk_fb s))(c := p)"
      "waiters (fb_rt f) = (waiters (lk_rt s))(k := waiters (lk_rt s) k @ [c])"
    and p: "\<And>i. waiting_on i p \<Longrightarrow> i = k"
    and t: "lk_fb t = f" "lk_mx t = lk_mx s" "lk_held t = lk_held s"
  shows "lock_inv t"
proof -
  have H: "held_ok s" and Q: "queue_ok s i" for i using inv nd by (auto simp: lock_inv_def)
  have "held_ok t" using H t by (simp add: held_ok_def)
  moreover have "queue_ok t i" for i
  proof (cases "i = k")
    case True
    have "waiters (lk_rt t) k = waiters (lk_rt s) k @ [c]" "fb_pend (lk_fb t) = (fb_pend (lk_fb s))(c := p)"
      using f(2,3) t(1) by (simp_all add: lk_rt_def)
    with True Q [of k] own t(2) show ?thesis by (simp add: queue_ok_def)
  next
    case False
    then have "waiters (lk_rt t) i = waiters (lk_rt s) i" "fb_pend (lk_fb t) = (fb_pend (lk_fb s))(c := p)"
      "\<not> waiting_on i p"
      using f(2,3) t(1) p [of i] by (auto simp: lk_rt_def)
    with Q [of i] t(2) show ?thesis by (simp add: queue_ok_def)
  qed
  ultimately show ?thesis using f(1) t by (simp add: lock_inv_def)
qed

lemma put_mx_same: "put_mx k (lk_mx s k) (put_rt rt s) = put_rt rt s"
  by (simp add: put_mx_def put_rt_def)

lemma put_rt_same: "put_rt (lk_rt s) s = s"
  by (simp add: put_rt_def lk_rt_def)

lemma lock_inv_take:
  assumes inv: "lock_inv s" and a: "acts s" and own: "mx_owner (lk_mx s k) = None" and o: "mx_owner m = Some c"
  shows "lock_inv (holds c k (put_mx k m s))" "lock_inv (put_mx k m s)"
proof -
  have nd: "\<not> fb_deleted (lk_fb s)" using a by (simp add: acts_def)
  have q: "queue_ok s k" "held_ok s" using lock_inv_acts [OF inv a] by blast+
  have nh: "(d, k) \<notin> set (lk_held s)" for d using q(2) own by (auto simp: held_ok_def)
  have nw: "\<not> waiting_on k (fb_pend (lk_fb s) d)" for d using q(1) own by (auto simp: queue_ok_def)
  note I = lock_inv_owner [OF inv nd lock_inv_acts(2) [OF inv a], where k = k and ws = "waiters (lk_rt s) k"]
  show "lock_inv (holds c k (put_mx k m s))" "lock_inv (put_mx k m s)"
    using o nh nw by (auto intro!: I simp: lk_rt_def)
qed

lemma lexec_Lock:
  assumes inv: "lock_inv s" and a: "acts s"
  shows "\<exists>t. lexec (Lock k) s = Some t \<and> lock_inv t"
proof -
  let ?rt = "lk_rt s" and ?a = "lk_active s" and ?m = "lk_mx s k"
  note L = lock_inv_acts [OF inv a]
  have ra: "rt_active (lk_rt s) = ?a" by (simp add: lk_active_def)
  have nd: "\<not> fb_deleted (lk_fb s)" using a by (simp add: acts_def)
  consider "mx_owner ?m = Some ?a" | "mx_owner ?m = None" | b where "mx_owner ?m = Some b" "b \<noteq> ?a" by auto
  then show ?thesis
  proof cases
    case 1
    with L(4) inv show ?thesis by (simp add: timed_mutex_lock_def ra)
  next
    case 2
    then have "lexec (Lock k) s = Some (holds ?a k (put_mx k (?m\<lparr>mx_owner := Some ?a\<rparr>) s))"
      using L(4,5) put_rt_same [of s] by (simp add: timed_mutex_lock_def ra Let_def)
    with lock_inv_take(1) [OF inv a 2] show ?thesis by simp
  next
    case 3
    obtain t where "exec (Wait k) (lk_fb s) = Some t" "fib_inv t" using exec_Wait [OF L(2,7)] by blast
    then obtain rt w where t: "wait_link ?a (Waiters k) (?rt\<lparr>rt_splk := [k]\<rparr>) = Some w"
      "suspend_lk k w = Some rt" "t = set_pend ?a (Blocked k) ((lk_fb s)\<lparr>fb_rt := rt\<rparr>)" "fib_inv t"
      using L(4) by (auto simp: block_on_def lk_rt_def lk_active_def split: Option.bind_splits)
    have ex: "lexec (Lock k) s = Some (put_pend ?a (Blocked k) (put_rt rt s))"
      using 3 L(4,6) t(1,2) put_mx_same [of k s rt]
      by (simp add: timed_mutex_lock_def ra Let_def wait_is_linked_def ensure_def)
    have "waiters rt = (waiters ?rt)(k := waiters ?rt k @ [?a])"
      by (rule waiters_block [OF L(4) t(1) waiters_suspend_lk [OF t(2)]])
    then have "lock_inv (put_pend ?a (Blocked k) (put_rt rt s))"
      by (intro lock_inv_wait [OF inv nd, where k = k and c = ?a and p = "Blocked k" and f = t])
        (use 3 t(3,4) in \<open>auto simp: waiting_on_def\<close>)
    with ex show ?thesis by simp
  qed
qed

lemma lexec_Lock_until:
  assumes inv: "lock_inv s" and a: "acts s"
  shows "\<exists>t. lexec (Lock_until k tp) s = Some t \<and> lock_inv t"
proof -
  let ?rt = "lk_rt s" and ?a = "lk_active s" and ?m = "lk_mx s k"
  note L = lock_inv_acts [OF inv a]
  have ra: "rt_active (lk_rt s) = ?a" by (simp add: lk_active_def)
  have nd: "\<not> fb_deleted (lk_fb s)" using a by (simp add: acts_def)
  consider "tp < fb_now (lk_fb s)" | "\<not> tp < fb_now (lk_fb s)" "mx_owner ?m = None"
    | b where "\<not> tp < fb_now (lk_fb s)" "mx_owner ?m = Some b" by auto
  then show ?thesis
  proof cases
    case 1
    with inv put_mx_same [of k s ?rt] put_rt_same [of s] show ?thesis
      by (simp add: timed_mutex_try_lock_until_def)
  next
    case 2
    then have "lexec (Lock_until k tp) s = Some (holds ?a k (put_mx k (?m\<lparr>mx_owner := Some ?a\<rparr>) s))"
      using L(4,5) put_rt_same [of s] by (simp add: timed_mutex_try_lock_until_def ra Let_def)
    with lock_inv_take(1) [OF inv a 2(2)] show ?thesis by simp
  next
    case 3
    obtain t where "exec (Wait_until k tp) (lk_fb s) = Some t" "fib_inv t"
      using exec_Wait_until [OF L(2,8)] by blast
    then obtain rt w where t: "wait_link ?a (Waiters k) (?rt\<lparr>rt_splk := [k]\<rparr>) = Some w"
      "wait_until_lk (rt_active w) tp k w = Some rt"
      "t = set_pend ?a (Timed k tp) ((lk_fb s)\<lparr>fb_rt := rt\<rparr>)" "fib_inv t"
      using L(4) by (auto simp: block_on_until_def lk_rt_def lk_active_def split: Option.bind_splits)
    have ex: "lexec (Lock_until k tp) s = Some (put_pend ?a (Timed k tp) (put_rt rt s))"
      using 3 L(4,6) t(1,2) put_mx_same [of k s rt]
      by (simp add: timed_mutex_try_lock_until_def ra Let_def wait_is_linked_def ensure_def)
    have "waiters rt = (waiters ?rt)(k := waiters ?rt k @ [?a])"
      by (rule waiters_block [OF L(4) t(1) waiters_wait_until_lk [OF t(2)]])
    then have "lock_inv (put_pend ?a (Timed k tp) (put_rt rt s))"
      by (intro lock_inv_wait [OF inv nd, where k = k and c = ?a and p = "Timed k tp" and f = t])
        (use 3 t(3,4) in \<open>auto simp: waiting_on_def\<close>)
    with ex show ?thesis by simp
  qed
qed

lemma lexec_Try_lock:
  assumes inv: "lock_inv s" and a: "acts s"
  shows "\<exists>t. lexec (Try_lock k) s = Some t \<and> lock_inv t"
proof -
  let ?rt = "lk_rt s" and ?a = "lk_active s" and ?m = "lk_mx s k"
  note L = lock_inv_acts [OF inv a]
  have ra: "rt_active (lk_rt s) = ?a" by (simp add: lk_active_def)
  show ?thesis
  proof (cases "mx_owner ?m = Some ?a")
    case True
    with L(4) inv show ?thesis by (simp add: timed_mutex_try_lock_def ra)
  next
    case False
    let ?m' = "if mx_owner ?m = None then ?m\<lparr>mx_owner := Some ?a\<rparr> else ?m"
    obtain f where "exec Yield_now (lk_fb s) = Some f" "fib_inv f" using exec_Yield [OF L(2,10)] by blast
    then obtain rt where y: "yield ?rt = Some rt" "fib_inv ((lk_fb s)\<lparr>fb_rt := rt\<rparr>)"
      by (auto simp: lk_rt_def split: Option.bind_splits)
    define u where "u = put_mx k ?m' s"
    have "lock_inv u"
      using lock_inv_take(2) [OF inv a] inv put_mx_same [of k s ?rt] put_rt_same [of s] by (simp add: u_def)
    then have u: "lock_inv u" "\<not> fb_deleted (lk_fb u)" "held_ok u" "queue_ok u k" "lk_fb u = lk_fb s"
      using lock_inv_acts [of u] a by (auto simp: acts_def u_def lk_active_def lk_rt_def)
    define t where "t = put_mx k ?m' (put_rt rt s)\<lparr>lk_trying := (lk_trying s)(?a := Some k)\<rparr>"
    have ex: "lexec (Try_lock k) s = Some t"
      using False L(4,5) y(1) by (simp add: timed_mutex_try_lock_def ra Let_def t_def)
    have tu: "lk_held t = lk_held u" "lk_mx t = lk_mx u" "lk_fb t = (lk_fb s)\<lparr>fb_rt := rt\<rparr>"
      "lk_rt u = lk_rt s"
      by (simp_all add: u_def t_def)
    have "lock_inv t"
      by (rule lock_inv_owner [OF u(1,2) y(2), where k = k and ws = "waiters ?rt k"])
        (use u(3-5) tu waiters_yield [OF y(1)] in \<open>auto simp: held_ok_def queue_ok_def\<close>)
    with ex show ?thesis by blast
  qed
qed

lemma lexec_Try_return:
  assumes inv: "lock_inv s"
  shows "\<exists>t. lexec Try_return s = Some t \<and> lock_inv t"
  using inv
  by (auto simp: lock_inv_def held_ok_def queue_ok_def mutex_try_lock_result_def Let_def split: option.splits)

text \<open>\<open>unlock\<close> by the owner: the mutex goes to the fiber at the head of the queue, which is made ready.\<close>

lemma unlock_owner:
  assumes inv: "lock_inv s" and a: "acts s" and own: "mx_owner (lk_mx s k) = Some (lk_active s)"
  defines "t \<equiv> s\<lparr>lk_held := removeAll (lk_active s, k) (lk_held s)\<rparr>"
  shows "waiters (lk_rt s) k = [] \<Longrightarrow>
      lexec (Unlock k) s = Some (put_mx k \<lparr>mx_owner = None\<rparr> t)"
    "waiters (lk_rt s) k = c # cs \<Longrightarrow>
      \<exists>f. exec (Wake k) (lk_fb s) = Some f \<and> fib_inv f \<and> fb_pend f = fb_pend (lk_fb s) \<and>
        fb_now f = fb_now (lk_fb s) \<and> rt_active (fb_rt f) = lk_active s \<and>
        rqueue (fb_rt f) = remove1 c (rqueue (lk_rt s)) @ [c] \<and> rt_sleep (fb_rt f) = remove1 c (rt_sleep (lk_rt s)) \<and>
        waiters (fb_rt f) = (waiters (lk_rt s))(k := cs) \<and>
        lexec (Unlock k) s = Some (put_mx k \<lparr>mx_owner = Some c\<rparr> (t\<lparr>lk_fb := f\<rparr>))"
proof -
  let ?rt = "lk_rt s" and ?m = "lk_mx s k"
  note L = lock_inv_acts [OF inv a]
  have ra: "rt_active (lk_rt s) = lk_active s" by (simp add: lk_active_def)
  have m: "m\<lparr>mx_owner := x\<rparr> = \<lparr>mx_owner = x\<rparr>" for m :: mutex and x by simp
  show "lexec (Unlock k) s = Some (put_mx k \<lparr>mx_owner = None\<rparr> t)" if "waiters ?rt k = []"
    using that L(4,5) own
    by (simp add: timed_mutex_unlock_def ra waiters_def Let_def m t_def put_mx_def put_rt_same)
  assume w: "waiters ?rt k = c # cs"
  let ?l = "?rt\<lparr>rt_splk := [k]\<rparr>"
  have C: "rt_core (held (lk_fb s)) ?l" using L(2) by (simp add: fib_inv_def rt_inv_def lk_rt_def)
  obtain f where f: "exec (Wake k) (lk_fb s) = Some f" "fib_inv f" using exec_Wake [OF L(2,9)] by blast
  then obtain x u r where u: "wait_pop_front (Waiters k) ?l = Some (x, u)" "set_ready (rt_active u) x u = Some r"
    "f = (lk_fb s)\<lparr>fb_rt := splk_unlock k r\<rparr>"
    using L(4) w by (auto simp: wake_one_def waiters_def lk_rt_def split: Option.bind_splits)
  have xu: "x = c" "u = unlinked c ?l" "rt_active u = lk_active s"
    using u(1) w
    by (auto simp: wait_pop_front_def waiters_def lk_active_def split: Option.bind_splits dest!: wait_unlink_eq)
  have sr: "sched_set_ready c u = Some r" using u(2) xu by (auto simp: set_ready_def split: Option.bind_splits)
  have ws: "waiters r j = ((waiters ?rt)(k := cs)) j" for j
  proof (cases "j = k")
    case True
    with waiters_set_ready [OF sr] waiters_unlinked [OF C, of c j] xu(2) w show ?thesis by simp
  next
    case False
    have "hook_of ?l c = Some (Waiters k)" using waiters_hook [OF C, of c k] w by simp
    then have "c \<notin> set (waiters ?l j)" using False waiters_hook [OF C, of c j] by simp
    with False waiters_set_ready [OF sr] waiters_unlinked [OF C, of c j] xu(2) show ?thesis
      by (simp add: remove1_idem)
  qed
  have run: "runnable u c"
    using wait_pop_front_core [OF C, of "Waiters k" c cs] w wait_unlink_core(3) [OF C] xu(2)
    by (auto simp: waiters_def)
  have "rt_core (held (lk_fb s)) u"
    using wait_pop_front_core(2) [OF C, of "Waiters k" c cs] w xu(2) by (simp add: waiters_def)
  with run sr have r: "r = made_ready c u" using sched_set_ready_eq by fastforce
  have ex: "lexec (Unlock k) s = Some (put_mx k \<lparr>mx_owner = Some c\<rparr> (t\<lparr>lk_fb := f\<rparr>))"
    using L(4) own u xu w
    by (simp add: timed_mutex_unlock_def ra waiters_def Let_def m t_def put_mx_def put_rt_def)
  show "\<exists>f. exec (Wake k) (lk_fb s) = Some f \<and> fib_inv f \<and> fb_pend f = fb_pend (lk_fb s) \<and>
        fb_now f = fb_now (lk_fb s) \<and> rt_active (fb_rt f) = lk_active s \<and>
        rqueue (fb_rt f) = remove1 c (rqueue (lk_rt s)) @ [c] \<and> rt_sleep (fb_rt f) = remove1 c (rt_sleep (lk_rt s)) \<and>
        waiters (fb_rt f) = (waiters (lk_rt s))(k := cs) \<and>
        lexec (Unlock k) s = Some (put_mx k \<lparr>mx_owner = Some c\<rparr> (t\<lparr>lk_fb := f\<rparr>))"
    using f u(3) ex ws r xu(2,3) by (auto simp: fun_eq_iff rqueue_made_ready)
qed

lemma lexec_Unlock:
  assumes inv: "lock_inv s" and a: "acts s"
  shows "\<exists>t. lexec (Unlock k) s = Some t \<and> lock_inv t"
proof (cases "mx_owner (lk_mx s k) = Some (lk_active s)")
  case False
  with lock_inv_acts(4) [OF inv a] inv show ?thesis by (simp add: timed_mutex_unlock_def lk_active_def)
next
  case True
  note L = lock_inv_acts [OF inv a]
  have nd: "\<not> fb_deleted (lk_fb s)" using a by (simp add: acts_def)
  have h: "c = lk_active s" if "(c, k) \<in> set (lk_held s)" for c using L(1) True that by (auto simp: held_ok_def)
  have w: "c = lk_active s" if "waiting_on k (fb_pend (lk_fb s) c)" "c \<notin> set (waiters (lk_rt s) k)" for c
    using L(3) [of k] True that by (auto simp: queue_ok_def)
  have ia: "\<not> waiting_on i (fb_pend (lk_fb s) (lk_active s))" for i using a by (simp add: acts_def waiting_on_def)
  define t where "t = s\<lparr>lk_held := removeAll (lk_active s, k) (lk_held s)\<rparr>"
  have t: "lk_held t = removeAll (lk_active s, k) (lk_held s)" "lk_mx t = lk_mx s" "lk_fb t = lk_fb s"
    by (simp_all add: t_def)
  show ?thesis
  proof (cases "waiters (lk_rt s) k")
    case Nil
    have "lock_inv (put_mx k \<lparr>mx_owner = None\<rparr> t)"
      by (rule lock_inv_owner [OF inv nd L(2), where k = k and ws = "[]"])
        (use h w ia Nil t in \<open>auto simp: lk_rt_def\<close>)
    with unlock_owner(1) [OF inv a True Nil] show ?thesis by (simp add: t_def)
  next
    case (Cons c cs)
    from unlock_owner(2) [OF inv a True Cons] obtain f where f: "fib_inv f"
      "fb_pend f = fb_pend (lk_fb s)" "waiters (fb_rt f) = (waiters (lk_rt s))(k := cs)"
      "lexec (Unlock k) s = Some (put_mx k \<lparr>mx_owner = Some c\<rparr> (t\<lparr>lk_fb := f\<rparr>))"
      by (auto simp: t_def)
    have "d \<in> set cs \<or> d = c" if "waiting_on k (fb_pend (lk_fb s) d)" for d
      using w [OF that] ia that Cons by auto
    then have "lock_inv (put_mx k \<lparr>mx_owner = Some c\<rparr> (t\<lparr>lk_fb := f\<rparr>))"
      by (intro lock_inv_owner [OF inv nd f(1), where k = k and ws = cs]) (use h t f(2,3) in auto)
    with f(4) show ?thesis by blast
  qed
qed

text \<open>A fiber that is told it has the lock is the owner.\<close>

lemma told_owner:
  assumes inv: "lock_inv s" and nd: "\<not> fb_deleted (lk_fb s)" and k: "told s = Some k"
  shows "mx_owner (lk_mx s k) = Some (lk_active s)"
proof -
  let ?f = "lk_fb s" and ?a = "lk_active s"
  have I: "fib_inv ?f" and Q: "queue_ok s k" using inv nd by (auto simp: lock_inv_def)
  have C: "rt_core (held ?f) (lk_rt s)" using I by (simp add: fib_inv_def rt_inv_def lk_rt_def)
  have ok: "pend_ok (lk_rt s) (fb_now ?f) ?a (fb_pend ?f ?a)"
    using I by (simp add: fib_inv_def pend_inv_def lk_rt_def)
  have od: "?a \<in> on_deck (lk_rt s)" "?a \<notin> set (rt_sleep (lk_rt s))"
    using I by (auto simp: on_deck_def fib_inv_def rt_inv_def active_ok_def lk_active_def lk_rt_def)
  have w: "waiting_on k (fb_pend ?f ?a)"
    using k by (auto simp: told_def waiting_on_def split: pending.splits if_splits)
  have "?a \<notin> set (waiters (lk_rt s) k)"
    using k ok od waiters_hook [OF C]
    by (auto simp: told_def pend_ok_def wait_until_result_def split: pending.splits if_splits)
  with w Q show ?thesis by (auto simp: queue_ok_def)
qed

lemma lexec_Plain:
  assumes inv: "lock_inv s" and al: "allowed act (lk_fb s)" and pl: "plain act"
  shows "\<exists>t. lexec (Plain act) s = Some t \<and> lock_inv t"
proof -
  have nd: "\<not> fb_deleted (lk_fb s)" using al by (simp add: allowed_def Let_def)
  have I: "fib_inv (lk_fb s)" and H: "held_ok s" and Q: "queue_ok s k" for k
    using inv nd by (auto simp: lock_inv_def)
  obtain f where f: "exec act (lk_fb s) = Some f" "\<not> fb_deleted f \<Longrightarrow> fib_inv f"
    using exec_inv [OF I al] by (auto split: if_splits)
  define t where "t = (case (act, told s) of (Resumed, Some k) \<Rightarrow> holds (lk_active s) k (s\<lparr>lk_fb := f\<rparr>)
    | _ \<Rightarrow> s\<lparr>lk_fb := f\<rparr>)"
  have ex: "lexec (Plain act) s = Some t" using f(1) by (simp add: t_def Let_def)
  have t: "lk_fb t = f" "lk_mx t = lk_mx s" by (auto simp: t_def split: action.split option.split)
  have "set (lk_held t) \<subseteq> set (lk_held s) \<union> {(lk_active s, k) |k. told s = Some k}"
    by (auto simp: t_def split: action.splits option.splits)
  with H told_owner [OF inv nd] t have "held_ok t" unfolding held_ok_def by fastforce
  moreover have "queue_ok t k" if "\<not> fb_deleted f" for k
  proof -
    have w: "waiters (lk_rt t) k = (if act = Resumed then remove1 (lk_active s) (waiters (lk_rt s) k)
        else waiters (lk_rt s) k)"
      using exec_waiters [OF I al pl f(1) that] t by (simp add: lk_rt_def lk_active_def)
    have "c \<notin> set (waiters (lk_rt s) k) \<and> waiting_on k (fb_pend (lk_fb s) c)"
      if "waiting_on k (fb_pend f c)" "c \<notin> set (waiters (lk_rt t) k)" for c
      using exec_pend [OF pl f(1) that(1) al] that w by (auto simp: lk_active_def lk_rt_def split: if_splits)
    with Q [of k] w t show ?thesis by (auto simp: queue_ok_def)
  qed
  ultimately show ?thesis using ex f(2) t by (auto simp: lock_inv_def)
qed

lemma lallowed_cases:
  assumes "lallowed act s"
  shows "case act of Plain p \<Rightarrow> allowed p (lk_fb s) \<and> plain p | Try_return \<Rightarrow> True | _ \<Rightarrow> acts s"
  using assms
  by (cases act) (auto simp: lallowed_def acts_def plain_def lk_rt_def Let_def split: action.splits)

lemma lexec_inv:
  assumes "lock_inv s" "lallowed act s"
  shows "\<exists>t. lexec act s = Some t \<and> lock_inv t"
  using lallowed_cases [OF assms(2)] assms(1) lexec_Plain lexec_Lock lexec_Lock_until lexec_Try_lock
    lexec_Try_return lexec_Unlock
  by (cases act) auto

lemma lockers_inv:
  assumes "lockers_reachable main disp s" "main \<noteq> disp"
  shows "lock_inv s"
  using assms(1)
proof induction
  case start
  have "waiters (scheduler_new main disp) k = []" for k by (simp add: waiters_def scheduler_new_def)
  with fibers_new_inv [OF assms(2)] show ?case
    by (simp add: lock_inv_def held_ok_def queue_ok_def lockers_new_def lk_rt_def fibers_new_def waiting_on_def)
next
  case (act s a t)
  with lexec_inv [of s a] show ?case by auto
qed

subsection \<open>Running a program\<close>

fun lrun :: "lock_action list \<Rightarrow> lockers \<Rightarrow> lockers option" where
  "lrun [] s = Some s"
| "lrun (a # p) s = (if lallowed a s then Option.bind (lexec a s) (lrun p) else None)"

definition lafter :: "lock_action list \<Rightarrow> lockers" where
  "lafter p = the (lrun p (lockers_new 0 1))"

lemma lrun_reachable:
  "lockers_reachable main disp s \<Longrightarrow> lrun p s = Some t \<Longrightarrow> lockers_reachable main disp t"
proof (induction p arbitrary: s)
  case (Cons a p)
  then obtain u where "lallowed a s" "lexec a s = Some u" "lrun p u = Some t"
    by (auto split: if_splits Option.bind_splits)
  with Cons.IH [of u] Cons.prems(1) show ?case by (auto intro: lockers_reachable.act)
qed simp

lemma lafter_reachable:
  assumes "lrun p (lockers_new 0 1) \<noteq> None"
  shows "lockers_reachable 0 1 (lafter p)"
  using assms lrun_reachable [OF lockers_reachable.start] by (auto simp: lafter_def)

text \<open>The main context takes mutex 7; a fiber tries it until the time 10; the main context unlocks.\<close>

definition contended :: "lock_action list" where
  "contended = [Plain (Spawn launch_post 2), Lock 7, Plain Yield_now, Plain Dispatch, Lock_until 7 10]"

definition late_hand_over :: "lock_action list" where
  "late_hand_over = contended @ [Unlock 7, Plain (Clock 20), Plain Yield_now, Plain Dispatch, Plain Resumed]"

lemma lock_demo_runs:
  "lrun contended (lockers_new 0 1) \<noteq> None" "lrun late_hand_over (lockers_new 0 1) \<noteq> None"
  "lrun (late_hand_over @ [Plain Finish, Lock 7]) (lockers_new 0 1) \<noteq> None"
  by code_simp+

lemma lock_demo_states:
  "acts (lafter contended)" "lallowed (Unlock 7) (lafter contended)" "\<not> fb_deleted (lk_fb (lafter contended))"
  "mx_owner (lk_mx (lafter contended) 7) = Some 0" "lk_active (lafter contended) = 0"
  "waiters (lk_rt (lafter contended)) 7 = [2]" "lk_held (lafter contended) = [(0, 7)]"
  by code_simp+

subsection \<open>Properties\<close>

text \<open>C21: The mutexes exclude each other: two fibers that were told they have the same lock, by
  any of the ways to lock and in any order of operations, are one fiber, and it is the owner.\<close>

theorem mutual_exclusion:
  assumes "lockers_reachable main disp s" "main \<noteq> disp"
    and "(c, k) \<in> set (lk_held s)" "(d, k) \<in> set (lk_held s)"
  shows "c = d \<and> mx_owner (lk_mx s k) = Some c"
proof -
  have "held_ok s" using lockers_inv [OF assms(1,2)] by (simp add: lock_inv_def)
  with assms(3,4) have "mx_owner (lk_mx s k) = Some c" "mx_owner (lk_mx s k) = Some d"
    unfolding held_ok_def by blast+
  then show ?thesis by simp
qed

lemma mutual_exclusion_witness:
  "(0::ctx) = 0 \<and> mx_owner (lk_mx (lafter contended) 7) = Some 0"
  by (rule mutual_exclusion [OF lafter_reachable [OF lock_demo_runs(1)] _, where c = 0 and d = 0])
    (simp_all add: lock_demo_states)

text \<open>C22: No operation on a mutex fails an assertion or follows a bad pointer, in whatever order
  the fibers lock, try, wait with a deadline, unlock, sleep, end and are joined.\<close>

theorem mutexes_never_fail:
  assumes "lockers_reachable main disp s" "main \<noteq> disp" "lallowed act s"
  shows "\<exists>t. lexec act s = Some t \<and> lockers_reachable main disp t"
  using lexec_inv [OF lockers_inv [OF assms(1,2)] assms(3)] lockers_reachable.act [OF assms(1,3)] by blast

lemma mutexes_never_fail_witness:
  "\<exists>t. lexec (Unlock 7) (lafter contended) = Some t \<and> lockers_reachable 0 1 t"
  by (rule mutexes_never_fail [OF lafter_reachable [OF lock_demo_runs(1)]]) (simp_all add: lock_demo_states)

text \<open>C23: \<open>unlock\<close> hands the mutex over in the order of arrival: the fiber at the head of the queue becomes the
  owner without running - the fiber that unlocks goes on - and is put at the end of the ready-queue, no longer asleep if it
  had a deadline; the queue of the mutex moves up by one. Nothing else changes hands: the other mutexes and their queues
  are left alone, the fiber that unlocks gives up this lock and no other, and nobody's suspended operation is touched.\<close>

theorem unlock_hands_over:
  assumes "lockers_reachable main disp s" "main \<noteq> disp" "acts s"
    and "mx_owner (lk_mx s k) = Some (lk_active s)" "waiters (lk_rt s) k = c # cs"
  shows "\<exists>t. lexec (Unlock k) s = Some t \<and> lk_mx t = (lk_mx s)(k := \<lparr>mx_owner = Some c\<rparr>) \<and>
    lk_active t = lk_active s \<and> rqueue (lk_rt t) = remove1 c (rqueue (lk_rt s)) @ [c] \<and>
    rt_sleep (lk_rt t) = remove1 c (rt_sleep (lk_rt s)) \<and> c \<notin> set (rt_sleep (lk_rt t)) \<and>
    waiters (lk_rt t) = (waiters (lk_rt s))(k := cs) \<and>
    lk_held t = removeAll (lk_active s, k) (lk_held s) \<and> fb_pend (lk_fb t) = fb_pend (lk_fb s)"
proof -
  have inv: "lock_inv s" using lockers_inv [OF assms(1,2)] .
  from lock_inv_acts(2) [OF inv assms(3)] have "distinct (rt_sleep (lk_rt s))"
    by (simp add: fib_inv_def rt_inv_def rt_core_def inv_sleep_def lk_rt_def)
  with unlock_owner(2) [OF inv assms(3-5)] show ?thesis by (auto simp: put_mx_def lk_rt_def lk_active_def)
qed

lemma unlock_hands_over_witness:
  "\<exists>t. lexec (Unlock 7) (lafter contended) = Some t \<and> mx_owner (lk_mx t 7) = Some 2 \<and>
    last (rqueue (lk_rt t)) = 2 \<and> lk_active t = lk_active (lafter contended) \<and>
    waiters (lk_rt t) = (waiters (lk_rt (lafter contended)))(7 := []) \<and>
    (lk_active (lafter contended), 7) \<notin> set (lk_held t)"
  using unlock_hands_over [OF lafter_reachable [OF lock_demo_runs(1)], of 7 2 "[]"] lock_demo_states by auto

text \<open>Nobody waits for a mutex that is free: where a fiber is queued there is an owner to
  unlock it, and a fiber that waits for the lock is in the queue until it owns the mutex.\<close>

theorem waiters_have_owner:
  assumes "lockers_reachable main disp s" "main \<noteq> disp" "\<not> fb_deleted (lk_fb s)"
  shows "(waiters (lk_rt s) k \<noteq> [] \<longrightarrow> mx_owner (lk_mx s k) \<noteq> None) \<and>
    (fb_pend (lk_fb s) c = Blocked k \<longrightarrow> c \<in> set (waiters (lk_rt s) k) \<or> mx_owner (lk_mx s k) = Some c)"
proof -
  have Q: "queue_ok s k" using lockers_inv [OF assms(1,2)] assms(3) by (simp add: lock_inv_def)
  have "waiting_on k (fb_pend (lk_fb s) c)" if "fb_pend (lk_fb s) c = Blocked k"
    using that by (simp add: waiting_on_def)
  with Q show ?thesis unfolding queue_ok_def by blast
qed

lemma waiters_have_owner_witness:
  "waiters (lk_rt (lafter contended)) 7 = [2] \<and> mx_owner (lk_mx (lafter contended) 7) \<noteq> None"
  using waiters_have_owner [OF lafter_reachable [OF lock_demo_runs(1)] _ lock_demo_states(3), of 7 0]
    lock_demo_states(6) by simp

text \<open>A timed lock can be lost. When \<open>unlock\<close> has handed the mutex to a fiber in
  \<open>try_lock_until\<close> and the deadline passes before that fiber runs, the call returns false
  although the fiber is the owner; the fiber ends, and the mutex stays locked: the next fiber
  that locks it is suspended behind a fiber that is gone.\<close>

theorem timed_lock_lost:
  "(let s = lafter late_hand_over; t = lafter (late_hand_over @ [Plain Finish, Lock 7])
    in lk_active s = 2 \<and> fb_pend (lk_fb s) 2 = Idle \<and> lk_held s = [] \<and> mx_owner (lk_mx s 7) = Some 2 \<and>
       lockers_reachable 0 1 t \<and> is_terminated (lk_rt t) 2 \<and> mx_owner (lk_mx t 7) = Some 2 \<and>
       fb_pend (lk_fb t) 0 = Blocked 7)"
proof -
  have "lk_active (lafter late_hand_over) = 2" "fb_pend (lk_fb (lafter late_hand_over)) 2 = Idle"
    "lk_held (lafter late_hand_over) = []" "mx_owner (lk_mx (lafter late_hand_over) 7) = Some 2"
    by code_simp+
  moreover have "is_terminated (lk_rt (lafter (late_hand_over @ [Plain Finish, Lock 7]))) 2"
    "mx_owner (lk_mx (lafter (late_hand_over @ [Plain Finish, Lock 7])) 7) = Some 2"
    "fb_pend (lk_fb (lafter (late_hand_over @ [Plain Finish, Lock 7]))) 0 = Blocked 7"
    by code_simp+
  ultimately show ?thesis using lafter_reachable [OF lock_demo_runs(3)] by (simp add: Let_def)
qed

end
