(* ===== verification/Fiber_Condvar.thy ===== *)
theory Fiber_Condvar
  imports Fiber_Lockable Fiber_Locking
begin

text \<open>
  \<open>condition_variable_any\<close> and \<open>condition_variable\<close> (\<open>fiber/condition_variable.hpp\<close> and its source)
  on the fiber runtime. A condition variable is known by the number of its wait-queue and spinlock.
  The external lock is given by its \<open>lock\<close> and \<open>unlock\<close>, as for the \<open>LockType\<close> of the templates.
  A wait has a part up to the suspension and a part from the resumption on; the latter relocks the
  external lock, which may suspend the fiber again.
\<close>

datatype cv_status = no_timeout | timeout

text \<open>\<open>set_ready\<close> for the contexts of a wait-queue, in order, until it is empty. The bound on the
  rounds is never reached: the queue loses a context in each.\<close>

fun wake_all :: "nat \<Rightarrow> nat \<Rightarrow> runtime \<Rightarrow> runtime option" where
  "wake_all k fuel rt =
     (if rt_wait rt (Waiters k) = [] then Some rt
      else case fuel of
          0 \<Rightarrow> None
        | Suc fuel \<Rightarrow> do {
            (c, rt) \<leftarrow> wait_pop_front (Waiters k) rt;
            rt \<leftarrow> set_ready (rt_active rt) c rt;
            wake_all k fuel rt
          })"

declare wake_all.simps [simp del]

definition cv_notify_one :: "nat \<Rightarrow> runtime \<Rightarrow> runtime option" where
  "cv_notify_one k rt = do {
     rt \<leftarrow> splk_lock k rt;
     if rt_wait rt (Waiters k) = [] then Some (splk_unlock k rt)
     else do {
       (c, rt) \<leftarrow> wait_pop_front (Waiters k) rt;
       rt \<leftarrow> set_ready (rt_active rt) c rt;
       Some (splk_unlock k rt)
     }
   }"

definition cv_notify_all :: "nat \<Rightarrow> runtime \<Rightarrow> runtime option" where
  "cv_notify_all k rt = do {
     rt \<leftarrow> splk_lock k rt;
     rt \<leftarrow> wake_all k (length (rt_wait rt (Waiters k))) rt;
     Some (splk_unlock k rt)
   }"

definition cv_delete :: "nat \<Rightarrow> runtime \<Rightarrow> unit option" where
  "cv_delete k rt = ensure (rt_wait rt (Waiters k) = [])"

subsection \<open>wait\<close>

definition cv_wait ::
  "nat \<Rightarrow> ('m \<Rightarrow> runtime \<Rightarrow> 'm unlock_result) \<Rightarrow> 'm \<Rightarrow> runtime \<Rightarrow> 'm unlock_result" where
  "cv_wait k unlock m rt = do {
     let ctx = rt_active rt;
     rt \<leftarrow> splk_lock k rt;
     ensure (\<not> wait_is_linked rt ctx);
     rt \<leftarrow> wait_link ctx (Waiters k) rt;
     r \<leftarrow> unlock m rt;
     (case r of
        Inl e \<Rightarrow> Some (Inl e)
      | Inr (m, rt) \<Rightarrow> do { rt \<leftarrow> suspend_lk k rt; Some (Inr (m, rt)) })
   }"

text \<open>The resumed fiber: out of the wait-queue, then the external lock; an exception there ends the
  program. The flag says whether the lock suspended the fiber.\<close>

definition cv_relock ::
  "nat \<Rightarrow> ('m \<Rightarrow> runtime \<Rightarrow> 'm lock_result) \<Rightarrow> 'm \<Rightarrow> runtime \<Rightarrow> (bool \<times> 'm \<times> runtime) option" where
  "cv_relock k lock m rt = do {
     let ctx = rt_active rt;
     rt \<leftarrow> splk_lock k rt;
     rt \<leftarrow> wait_unlink ctx rt;
     let rt = splk_unlock k rt;
     r \<leftarrow> lock m rt;
     (case r of
        Inl _ \<Rightarrow> None
      | Inr (suspended, m, rt) \<Rightarrow> Some (suspended, m, rt))
   }"

definition cv_wait_end :: "runtime \<Rightarrow> unit option" where
  "cv_wait_end rt = ensure (\<not> wait_is_linked rt (rt_active rt))"

text \<open>\<open>wait\<close> with a predicate, entered and each time the lock is held again: the flag says whether
  the fiber waits (again).\<close>

definition cv_wait_pred ::
  "nat \<Rightarrow> bool \<Rightarrow> ('m \<Rightarrow> runtime \<Rightarrow> 'm unlock_result) \<Rightarrow> 'm \<Rightarrow> runtime \<Rightarrow> 'm lock_result" where
  "cv_wait_pred k pred unlock m rt =
     (if pred then Some (Inr (False, m, rt))
      else do {
        r \<leftarrow> cv_wait k unlock m rt;
        Some (case r of Inl e \<Rightarrow> Inl e | Inr (m, rt) \<Rightarrow> Inr (True, m, rt))
      })"

subsection \<open>wait_until\<close>

definition cv_wait_until ::
  "nat \<Rightarrow> time_point \<Rightarrow> ('m \<Rightarrow> runtime \<Rightarrow> 'm unlock_result) \<Rightarrow> 'm \<Rightarrow> runtime \<Rightarrow> 'm unlock_result" where
  "cv_wait_until k timeout_time unlock m rt = do {
     let ctx = rt_active rt;
     rt \<leftarrow> splk_lock k rt;
     ensure (\<not> wait_is_linked rt ctx);
     rt \<leftarrow> wait_link ctx (Waiters k) rt;
     r \<leftarrow> unlock m rt;
     (case r of
        Inl e \<Rightarrow> Some (Inl e)
      | Inr (m, rt) \<Rightarrow> do { rt \<leftarrow> wait_until_lk ctx timeout_time k rt; Some (Inr (m, rt)) })
   }"

definition cv_wait_until_resumed ::
  "nat \<Rightarrow> time_point \<Rightarrow> time_point \<Rightarrow> ('m \<Rightarrow> runtime \<Rightarrow> 'm lock_result) \<Rightarrow> 'm \<Rightarrow> runtime \<Rightarrow>
     (cv_status \<times> bool \<times> 'm \<times> runtime) option" where
  "cv_wait_until_resumed k now timeout_time lock m rt = do {
     let status = (if \<not> wait_until_result now timeout_time then timeout else no_timeout);
     (suspended, m, rt) \<leftarrow> cv_relock k lock m rt;
     Some (status, suspended, m, rt)
   }"

text \<open>\<open>wait_until\<close> with a predicate: entered, and each time the lock is held again, with the status
  of the wait; \<open>Inl\<close> the result of the call.\<close>

definition cv_wait_until_pred ::
  "nat \<Rightarrow> bool \<Rightarrow> time_point \<Rightarrow> ('m \<Rightarrow> runtime \<Rightarrow> 'm unlock_result) \<Rightarrow> 'm \<Rightarrow> runtime \<Rightarrow>
     (bool + fiber_errc + 'm \<times> runtime) option" where
  "cv_wait_until_pred k pred timeout_time unlock m rt =
     (if \<not> pred
      then map_option Inr (cv_wait_until k timeout_time unlock m rt)
      else Some (Inl True))"

definition cv_wait_until_pred_again ::
  "nat \<Rightarrow> cv_status \<Rightarrow> bool \<Rightarrow> time_point \<Rightarrow> ('m \<Rightarrow> runtime \<Rightarrow> 'm unlock_result) \<Rightarrow> 'm \<Rightarrow> runtime \<Rightarrow>
     (bool + fiber_errc + 'm \<times> runtime) option" where
  "cv_wait_until_pred_again k status pred timeout_time unlock m rt =
     (if status = timeout then Some (Inl pred)
      else cv_wait_until_pred k pred timeout_time unlock m rt)"

definition cv_wait_for ::
  "nat \<Rightarrow> time_point \<Rightarrow> time_point \<Rightarrow> ('m \<Rightarrow> runtime \<Rightarrow> 'm unlock_result) \<Rightarrow> 'm \<Rightarrow> runtime \<Rightarrow> 'm unlock_result"
  where
  "cv_wait_for k now timeout_duration = cv_wait_until k (now + timeout_duration)"

definition cv_wait_for_pred ::
  "nat \<Rightarrow> bool \<Rightarrow> time_point \<Rightarrow> time_point \<Rightarrow> ('m \<Rightarrow> runtime \<Rightarrow> 'm unlock_result) \<Rightarrow> 'm \<Rightarrow> runtime \<Rightarrow>
     (bool + fiber_errc + 'm \<times> runtime) option" where
  "cv_wait_for_pred k pred now timeout_duration =
     cv_wait_until_pred k pred (now + timeout_duration)"

subsection \<open>condition_variable\<close>

text \<open>\<open>condition_variable\<close> waits with a \<open>unique_lock\<close> on a \<open>mutex\<close>, which is the number of the mutex
  and whether the lock owns it; before and after each wait the active fiber must own the mutex.\<close>

record unique_lock =
  ul_mutex :: nat
  ul_owns :: bool

definition cv_owned :: "unique_lock \<Rightarrow> mutex \<Rightarrow> runtime \<Rightarrow> unit option" where
  "cv_owned lt m rt = do { ensure (ul_owns lt); ensure (mx_owner m = Some (rt_active rt)) }"

definition condition_variable_notify_one :: "nat \<Rightarrow> runtime \<Rightarrow> runtime option" where
  "condition_variable_notify_one k rt = cv_notify_one k rt"

definition condition_variable_notify_all :: "nat \<Rightarrow> runtime \<Rightarrow> runtime option" where
  "condition_variable_notify_all k rt = cv_notify_all k rt"

definition condition_variable_wait ::
  "nat \<Rightarrow> unique_lock \<Rightarrow> mutex \<Rightarrow> runtime \<Rightarrow> mutex unlock_result" where
  "condition_variable_wait k lt m rt = do {
     cv_owned lt m rt;
     cv_wait k (mutex_unlock (ul_mutex lt)) m rt
   }"

definition condition_variable_wait_pred ::
  "nat \<Rightarrow> bool \<Rightarrow> unique_lock \<Rightarrow> mutex \<Rightarrow> runtime \<Rightarrow> mutex lock_result" where
  "condition_variable_wait_pred k pred lt m rt = do {
     cv_owned lt m rt;
     cv_wait_pred k pred (mutex_unlock (ul_mutex lt)) m rt
   }"

definition condition_variable_wait_until ::
  "nat \<Rightarrow> unique_lock \<Rightarrow> time_point \<Rightarrow> mutex \<Rightarrow> runtime \<Rightarrow> mutex unlock_result" where
  "condition_variable_wait_until k lt timeout_time m rt = do {
     cv_owned lt m rt;
     cv_wait_until k timeout_time (mutex_unlock (ul_mutex lt)) m rt
   }"

definition condition_variable_wait_until_pred ::
  "nat \<Rightarrow> bool \<Rightarrow> unique_lock \<Rightarrow> time_point \<Rightarrow> mutex \<Rightarrow> runtime \<Rightarrow>
     (bool + fiber_errc + mutex \<times> runtime) option" where
  "condition_variable_wait_until_pred k pred lt timeout_time m rt = do {
     cv_owned lt m rt;
     cv_wait_until_pred k pred timeout_time (mutex_unlock (ul_mutex lt)) m rt
   }"

definition condition_variable_wait_for ::
  "nat \<Rightarrow> unique_lock \<Rightarrow> time_point \<Rightarrow> time_point \<Rightarrow> mutex \<Rightarrow> runtime \<Rightarrow> mutex unlock_result" where
  "condition_variable_wait_for k lt now timeout_duration m rt = do {
     cv_owned lt m rt;
     cv_wait_for k now timeout_duration (mutex_unlock (ul_mutex lt)) m rt
   }"

definition condition_variable_wait_for_pred ::
  "nat \<Rightarrow> bool \<Rightarrow> unique_lock \<Rightarrow> time_point \<Rightarrow> time_point \<Rightarrow> mutex \<Rightarrow> runtime \<Rightarrow>
     (bool + fiber_errc + mutex \<times> runtime) option" where
  "condition_variable_wait_for_pred k pred lt now timeout_duration m rt = do {
     cv_owned lt m rt;
     cv_wait_for_pred k pred now timeout_duration (mutex_unlock (ul_mutex lt)) m rt
   }"

text \<open>When the call returns.\<close>

definition condition_variable_wait_end :: "unique_lock \<Rightarrow> mutex \<Rightarrow> runtime \<Rightarrow> unit option" where
  "condition_variable_wait_end lt m rt = do { cv_wait_end rt; cv_owned lt m rt }"

subsection \<open>Waking\<close>

lemma wake_all_core:
  assumes "rt_core H rt" "runnable rt (rt_active rt)" "hook_of rt (rt_active rt) = None"
    and "rt_wait rt (Waiters k) = cs" "length cs \<le> fuel"
  shows "\<exists>rt'. wake_all k fuel rt = Some rt' \<and> rt_core H rt' \<and>
    rt_wait rt' = (rt_wait rt)(Waiters k := []) \<and>
    rqueue rt' = filter (\<lambda>c. c \<notin> set cs) (rqueue rt) @ cs \<and> set (rt_sleep rt') = set (rt_sleep rt) - set cs \<and>
    rt_active rt' = rt_active rt \<and> rt_splk rt' = rt_splk rt \<and> (\<forall>d. runnable rt' d = runnable rt d) \<and>
    (\<forall>d. hook_of rt' d = (if d \<in> set cs then None else hook_of rt d))"
  using assms
proof (induction cs arbitrary: rt fuel)
  case Nil
  then show ?case
    by (intro exI [of _ rt]) (simp add: wake_all.simps [of k fuel] fun_upd_idem)
next
  case (Cons c cs)
  let ?u = "made_ready c (unlinked c rt)"
  obtain fuel' where fuel: "fuel = Suc fuel'" "length cs \<le> fuel'" using Cons.prems(5) by (cases fuel) auto
  note pop = wait_pop_front_core [OF Cons.prems(1,4)]
  have run: "runnable (unlinked c rt) d = runnable rt d" for d
    using wait_unlink_core(3) [OF Cons.prems(1) pop(3)] by simp
  have ne: "c \<noteq> rt_active rt" using pop(5) Cons.prems(3) by auto
  have rdy: "runnable (unlinked c rt) c" "runnable (unlinked c rt) (rt_active rt)"
    using run pop(3) Cons.prems(2) by simp_all
  have "distinct (rqueue rt)" "distinct (rt_sleep rt)" using Cons.prems(1) by (auto simp: rt_core_def inv_ready_def inv_sleep_def)
  moreover have d: "c \<notin> set cs" using core_hook(2) [OF Cons.prems(1), of "Waiters k"] Cons.prems(4) by simp
  ultimately have q: "filter (\<lambda>x. x \<notin> set cs) (remove1 c (rqueue rt) @ [c]) @ cs =
      filter (\<lambda>x. x \<notin> set (c # cs)) (rqueue rt) @ c # cs"
    "set (rt_sleep ?u) = set (rt_sleep rt) - {c}"
    by (auto simp: distinct_remove1_removeAll removeAll_filter_not_eq conj_commute intro!: filter_cong)
  have step: "wake_all k fuel rt = wake_all k fuel' ?u"
    using pop(1) Cons.prems(4) set_ready_eq [OF pop(2) rdy ne] fuel(1)
    by (subst wake_all.simps) simp
  have core: "rt_core H ?u" by (rule core_made_ready [OF pop(2) rdy(1)]) 
  have "runnable ?u (rt_active ?u)" "hook_of ?u (rt_active ?u) = None" "rt_wait ?u (Waiters k) = cs"
    using rdy(2) Cons.prems(3) pop(4) ne by simp_all
  from Cons.IH [OF core this fuel(2)] obtain rt' where rt': "wake_all k fuel' ?u = Some rt'" "rt_core H rt'"
    "rt_wait rt' = (rt_wait ?u)(Waiters k := [])"
    "rqueue rt' = filter (\<lambda>c. c \<notin> set cs) (rqueue ?u) @ cs" "set (rt_sleep rt') = set (rt_sleep ?u) - set cs"
    "rt_active rt' = rt_active ?u" "rt_splk rt' = rt_splk ?u" "\<forall>d. runnable rt' d = runnable ?u d"
    "\<forall>d. hook_of rt' d = (if d \<in> set cs then None else hook_of ?u d)"
    by blast
  with step q pop(4) run show ?case by (intro exI [of _ rt']) (auto simp: rqueue_made_ready)
qed

lemma notify_all_eq:
  assumes inv: "fib_inv s" and al: "allowed (Wake k) s"
  shows "\<exists>rt'. cv_notify_all k (fb_rt s) = Some rt' \<and> rt_core (held s) rt' \<and> rt_splk rt' = [] \<and>
    rt_wait rt' = (rt_wait (fb_rt s))(Waiters k := []) \<and> rt_active rt' = rt_active (fb_rt s) \<and>
    rqueue rt' = filter (\<lambda>c. c \<notin> set (waiters (fb_rt s) k)) (rqueue (fb_rt s)) @ waiters (fb_rt s) k \<and>
    (\<forall>c \<in> set (waiters (fb_rt s) k). c \<notin> set (rt_sleep rt') \<and> hook_of rt' c = None)"
proof -
  let ?rt = "fb_rt s" and ?a = "rt_active (fb_rt s)"
  have a: "?a \<noteq> rt_dispatcher ?rt" and idle: "fb_pend s ?a = Idle" using al by (auto simp: allowed_def Let_def)
  note f = acting [OF inv a idle]
  let ?l = "?rt\<lparr>rt_splk := [k]\<rparr>"
  have C: "rt_core (held s) ?l" using f(1) by simp
  have "runnable ?l (rt_active ?l)" "hook_of ?l (rt_active ?l) = None" using f(2,5) by simp_all
  from wake_all_core [OF C this refl order_refl, of k] obtain r where r:
    "wake_all k (length (rt_wait ?l (Waiters k))) ?l = Some r" "rt_core (held s) r"
    "rt_wait r = (rt_wait ?l)(Waiters k := [])"
    "rqueue r = filter (\<lambda>c. c \<notin> set (waiters ?rt k)) (rqueue ?l) @ waiters ?rt k"
    "set (rt_sleep r) = set (rt_sleep ?l) - set (waiters ?rt k)" "rt_active r = rt_active ?l" "rt_splk r = rt_splk ?l"
    "\<forall>d. hook_of r d = (if d \<in> set (waiters ?rt k) then None else hook_of ?l d)"
    by (auto simp: waiters_def)
  then have "cv_notify_all k ?rt = Some (splk_unlock k r)"
    using f(8) by (simp add: cv_notify_all_def splk_lock_def)
  with r show ?thesis by (intro exI [of _ "splk_unlock k r"]) (auto simp: splk_unlock_def)
qed

text \<open>\<open>notify_all\<close> wakes every fiber that waits on the condition variable: each of them, in the
  order in which they came, goes to the end of the ready-queue and out of the wait-queue and the
  sleep-queue; no other queue changes and the notifying fiber goes on.\<close>

theorem notify_all_wakes_in_order:
  assumes "fibers_reachable main disp s" "main \<noteq> disp" "allowed (Wake k) s"
  shows "\<exists>rt'. condition_variable_notify_all k (fb_rt s) = Some rt' \<and> rt_splk rt' = [] \<and>
    rt_wait rt' = (rt_wait (fb_rt s))(Waiters k := []) \<and> rt_active rt' = rt_active (fb_rt s) \<and>
    rqueue rt' = filter (\<lambda>c. c \<notin> set (waiters (fb_rt s) k)) (rqueue (fb_rt s)) @ waiters (fb_rt s) k \<and>
    (\<forall>c. c \<in> set (waiters (fb_rt s) k) \<longrightarrow> c \<notin> set (rt_sleep rt') \<and> hook_of rt' c = None)"
proof -
  have "\<not> fb_deleted s" using assms(3) by (simp add: allowed_def Let_def)
  from notify_all_eq [OF reachable_live [OF assms(1,2) this] assms(3)] show ?thesis
    by (auto simp: condition_variable_notify_all_def)
qed

text \<open>Two fibers wait, one of them with a deadline.\<close>

definition two_waiters :: "action list" where
  "two_waiters = [Spawn launch_post 2, Spawn launch_post 3, Yield_now, Dispatch, Wait 5, Wait_until 5 90]"

lemma two_waiters_run:
  "run two_waiters (fibers_new 0 1) \<noteq> None" "allowed (Wake 5) (after two_waiters)"
  "waiters (fb_rt (after two_waiters)) 5 = [2, 3]" "rt_sleep (fb_rt (after two_waiters)) = [3]"
  "rt_active (fb_rt (after two_waiters)) = 0" "rqueue (fb_rt (after two_waiters)) = [1]"
  "allowed (Wait 5) (after two_waiters)" "waiters (fb_rt (after two_waiters)) 6 = []"
  by code_simp+

lemma notify_all_wakes_in_order_witness:
  "\<exists>rt'. condition_variable_notify_all 5 (fb_rt (after two_waiters)) = Some rt' \<and> rqueue rt' = [1, 2, 3]"
  using notify_all_wakes_in_order [OF after_reachable [OF two_waiters_run(1)] _ two_waiters_run(2)]
  by (auto simp: two_waiters_run)

subsection \<open>Waiting\<close>

lemma mutex_unlock_core:
  assumes C: "rt_core H rt" and l: "i \<notin> set (rt_splk rt)" and own: "mx_owner m = Some (rt_active rt)"
    and a: "runnable rt (rt_active rt)" "rt_active rt \<notin> set (waiters rt i)"
  shows "\<exists>r. mutex_unlock i m rt =
      Some (Inr (m\<lparr>mx_owner := (case waiters rt i of [] \<Rightarrow> None | c # _ \<Rightarrow> Some c)\<rparr>, r)) \<and> rt_core H r \<and>
    rt_splk r = rt_splk rt \<and> rt_active r = rt_active rt \<and> rt_wait r = (rt_wait rt)(Waiters i := tl (waiters rt i)) \<and>
    set (rqueue r) = set (rqueue rt) \<union> set (take 1 (waiters rt i)) \<and> rt_dispatcher r = rt_dispatcher rt \<and>
    (\<forall>d. hook_of r d = (if d \<in> set (take 1 (waiters rt i)) then None else hook_of rt d))"
proof (cases "waiters rt i")
  case Nil
  with C l own show ?thesis
    by (intro exI [of _ rt]) (auto simp: mutex_unlock_def waiters_def fun_upd_idem Let_def)
next
  case (Cons c cs)
  let ?l = "rt\<lparr>rt_splk := i # rt_splk rt\<rparr>"
  have L: "rt_core H ?l" using C by simp
  have cons: "rt_wait ?l (Waiters i) = c # cs" using Cons by (simp add: waiters_def)
  note pop = wait_pop_front_core [OF L cons]
  let ?u = "unlinked c ?l"
  have run: "runnable ?u d = runnable rt d" for d using wait_unlink_core(3) [OF L pop(3)] by simp
  have ne: "c \<noteq> rt_active rt" using a(2) Cons by auto
  have rdy: "runnable ?u c" "runnable ?u (rt_active rt)" using run pop(3) a(1) by simp_all
  note sr = set_ready_eq [OF pop(2) rdy ne]
  have "mutex_unlock i m rt = Some (Inr (m\<lparr>mx_owner := Some c\<rparr>, splk_unlock i (made_ready c ?u)))"
    using l own cons pop(1) sr by (simp add: mutex_unlock_def splk_lock_def Let_def)
  moreover have "rt_core H (splk_unlock i (made_ready c ?u))"
    using core_made_ready [OF pop(2) rdy(1)] by (simp add: splk_unlock_def)
  ultimately show ?thesis using Cons pop(4)
    by (intro exI [of _ "splk_unlock i (made_ready c ?u)"]) (auto simp: splk_unlock_def waiters_def)
qed

text \<open>\<open>wait\<close> gives up the mutex and starts to wait in one go: the call succeeds for the owner,
  the mutex goes to the fiber that has waited longest for it, which is made ready, or becomes
  free; and the waiting fiber is the last in the wait-queue of the condition variable before
  any other fiber runs, so that no notification is missed.\<close>

theorem wait_is_atomic:
  assumes "fibers_reachable main disp s" "main \<noteq> disp" "allowed (Wait k) s"
    and "mx_owner m = Some (rt_active (fb_rt s))" "i \<noteq> k"
  shows "\<exists>m' rt'. condition_variable_wait k \<lparr>ul_mutex = i, ul_owns = True\<rparr> m (fb_rt s) = Some (Inr (m', rt')) \<and>
    mx_owner m' = (case waiters (fb_rt s) i of [] \<Rightarrow> None | c # _ \<Rightarrow> Some c) \<and>
    waiters rt' k = waiters (fb_rt s) k @ [rt_active (fb_rt s)] \<and>
    waiters rt' i = tl (waiters (fb_rt s) i) \<and> rt_splk rt' = [] \<and>
    insert (rt_active rt') (set (rqueue rt')) = set (rqueue (fb_rt s)) \<union> set (take 1 (waiters (fb_rt s) i))"
proof -
  let ?rt = "fb_rt s" and ?a = "rt_active (fb_rt s)"
  have nd: "\<not> fb_deleted s" and a: "?a \<noteq> rt_dispatcher ?rt" and idle: "fb_pend s ?a = Idle"
    using assms(3) by (auto simp: allowed_def Let_def)
  note inv = reachable_live [OF assms(1,2) nd]
  note f = acting [OF inv a idle]
  let ?l = "?rt\<lparr>rt_splk := [k]\<rparr>"
  let ?w = "linked ?a (Waiters k) ?l"
  have C: "rt_core (held s) ?l" using f(1) by simp
  have L: "wait_link ?a (Waiters k) ?l = Some ?w" "rt_core (held s) ?w" "runnable ?w d = runnable ?rt d" for d
    using wait_link_core [OF C, of ?a "Waiters k"] f(2,5) a by simp_all
  have nk: "\<not> wait_is_linked ?l ?a" using f(5) by (auto simp: hook_of_def wait_is_linked_def split: option.splits)
  have wi: "waiters ?w i = waiters ?rt i" using assms(5) by (simp add: waiters_def)
  have na: "?a \<notin> set (waiters ?rt i)" using waiters_hook [OF f(1)] f(5) by simp
  have own: "mx_owner m = Some (rt_active ?w)" "i \<notin> set (rt_splk ?w)" using assms(4,5) by simp_all
  obtain r where r: "mutex_unlock i m ?w =
      Some (Inr (m\<lparr>mx_owner := (case waiters ?rt i of [] \<Rightarrow> None | c # _ \<Rightarrow> Some c)\<rparr>, r))" "rt_core (held s) r"
    "rt_splk r = [k]" "rt_active r = ?a" "rt_wait r = (rt_wait ?w)(Waiters i := tl (waiters ?rt i))"
    "set (rqueue r) = set (rqueue ?rt) \<union> set (take 1 (waiters ?rt i))"
    using mutex_unlock_core [OF L(2) own(2,1)] L(3) f(2) na wi by auto
  have ne: "rqueue r \<noteq> []" using r(6) f(7) by auto
  let ?r = "splk_unlock k (switched r)"
  have "condition_variable_wait k \<lparr>ul_mutex = i, ul_owns = True\<rparr> m ?rt =
      Some (Inr (m\<lparr>mx_owner := (case waiters ?rt i of [] \<Rightarrow> None | c # _ \<Rightarrow> Some c)\<rparr>, ?r))"
    using f(8) assms(4) nk L(1) r(1) suspend_eq(2) [OF r(2) ne, of k]
    by (simp add: condition_variable_wait_def cv_owned_def cv_wait_def splk_lock_def Let_def)
  moreover have "waiters ?r k = waiters ?rt k @ [?a]" "waiters ?r i = tl (waiters ?rt i)"
    using r(5) assms(5) by (simp_all add: waiters_def splk_unlock_def)
  moreover have "insert (rt_active ?r) (set (rqueue ?r)) = set (rqueue ?rt) \<union> set (take 1 (waiters ?rt i))"
    using r(6) ne by (cases "rqueue r") (auto simp: splk_unlock_def)
  ultimately show ?thesis using r(3) by (auto simp: splk_unlock_def)
qed

lemma wait_is_atomic_witness:
  "\<exists>m' rt'. condition_variable_wait 5 \<lparr>ul_mutex = 6, ul_owns = True\<rparr> \<lparr>mx_owner = Some 0\<rparr>
      (fb_rt (after two_waiters)) = Some (Inr (m', rt')) \<and> mx_owner m' = None \<and> waiters rt' 5 = [2, 3, 0]"
  using wait_is_atomic [OF after_reachable [OF two_waiters_run(1)] _ two_waiters_run(7),
      of "\<lparr>mx_owner = Some 0\<rparr>" 6]
  by (auto simp: two_waiters_run)

end
