(* ===== verification/Fiber_Monitor.thy ===== *)
theory Fiber_Monitor
  imports Fiber_Condvar
begin

text \<open>
  Objects whose data is protected by a \<open>mutex\<close> and whose operations wait on condition variables:
  the channels with a mutex, the barrier, the shared state of the futures. An operation is a
  critical section, given by a function on the data (its \<open>body\<close>), that ends by leaving with a
  result and notifications to send after the mutex is released, or by waiting; a fiber that has
  waited relocks the mutex and continues with what the wait left to do, told whether it timed out.
  Fibers on any number of threads interleave at the mutex and at the wait-queues: who gets the free
  mutex next is left open. \<open>Fiber_Condvar\<close> and \<open>Fiber_Locking\<close> show that the fiber library provides
  these steps: a wait releases the mutex and enqueues in one go, a notification wakes the head of
  the queue, a notification of all wakes every fiber in the queue, the mutex excludes.
\<close>

datatype notification = Notify_one nat | Notify_all nat

datatype ('o, 'r) verdict =
    Leave "notification list" 'r
  | Wait_on nat bool 'o

text \<open>Where a fiber is: about to lock the mutex for an operation (after a wait: with or without a
  deadline), in the critical section, sending notifications, in a wait-queue, or done.\<close>

datatype ('o, 'r) pc =
    Away
  | Entering 'o bool cv_status
  | Inside 'o cv_status
  | Notifying "notification list" 'r
  | Waiting nat bool 'o
  | Back 'r

record ('d, 'o, 'r) monitor =
  mo_data :: 'd
  mo_owner :: "ctx option"
  mo_cond :: "nat \<Rightarrow> ctx list"
  mo_pc :: "ctx \<Rightarrow> ('o, 'r) pc"
  mo_log :: "('o \<times> 'r) list"

datatype 'o event =
    Call ctx 'o
  | Acquire ctx
  | Section ctx
  | Notify ctx
  | Time_out ctx
  | Late ctx

text \<open>A woken fiber leaves the queue; it goes on when it has locked the mutex again.\<close>

definition wakes :: "ctx \<Rightarrow> (ctx \<Rightarrow> ('o, 'r) pc) \<Rightarrow> ctx \<Rightarrow> ('o, 'r) pc" where
  "wakes c pc = (case pc c of Waiting k timed op \<Rightarrow> pc(c := Entering op timed no_timeout) | _ \<Rightarrow> pc)"

definition notified :: "notification \<Rightarrow> ('d, 'o, 'r) monitor \<Rightarrow> ('d, 'o, 'r) monitor" where
  "notified n s =
     (case n of
        Notify_one k \<Rightarrow>
          (case mo_cond s k of
             [] \<Rightarrow> s
           | c # cs \<Rightarrow> s\<lparr>mo_cond := (mo_cond s)(k := cs), mo_pc := wakes c (mo_pc s)\<rparr>)
      | Notify_all k \<Rightarrow> s\<lparr>mo_cond := (mo_cond s)(k := []), mo_pc := fold wakes (mo_cond s k) (mo_pc s)\<rparr>)"

fun mstep ::
  "('o \<Rightarrow> cv_status \<Rightarrow> 'd \<Rightarrow> 'd \<times> ('o, 'r) verdict) \<Rightarrow> 'o event \<Rightarrow> ('d, 'o, 'r) monitor \<Rightarrow> ('d, 'o, 'r) monitor option"
  where
  "mstep body (Call c op) s =
     (case mo_pc s c of
        Away \<Rightarrow> Some (s\<lparr>mo_pc := (mo_pc s)(c := Entering op False no_timeout)\<rparr>)
      | Back r \<Rightarrow> Some (s\<lparr>mo_pc := (mo_pc s)(c := Entering op False no_timeout)\<rparr>)
      | _ \<Rightarrow> None)"
| "mstep body (Acquire c) s =
     (case mo_pc s c of
        Entering op timed st \<Rightarrow>
          if mo_owner s = None
          then Some (s\<lparr>mo_owner := Some c, mo_pc := (mo_pc s)(c := Inside op st)\<rparr>)
          else None
      | _ \<Rightarrow> None)"
| "mstep body (Section c) s =
     (case mo_pc s c of
        Inside op st \<Rightarrow>
          (case body op st (mo_data s) of
             (d, Leave ns r) \<Rightarrow>
               Some (s\<lparr>mo_data := d, mo_owner := None, mo_pc := (mo_pc s)(c := Notifying ns r),
                  mo_log := mo_log s @ [(op, r)]\<rparr>)
           | (d, Wait_on k timed op') \<Rightarrow>
               Some (s\<lparr>mo_data := d, mo_owner := None, mo_pc := (mo_pc s)(c := Waiting k timed op'),
                  mo_cond := (mo_cond s)(k := mo_cond s k @ [c])\<rparr>))
      | _ \<Rightarrow> None)"
| "mstep body (Notify c) s =
     (case mo_pc s c of
        Notifying ns r \<Rightarrow>
          (case ns of
             [] \<Rightarrow> Some (s\<lparr>mo_pc := (mo_pc s)(c := Back r)\<rparr>)
           | n # ns \<Rightarrow> Some (notified n (s\<lparr>mo_pc := (mo_pc s)(c := Notifying ns r)\<rparr>)))
      | _ \<Rightarrow> None)"
| "mstep body (Time_out c) s =
     (case mo_pc s c of
        Waiting k timed op \<Rightarrow>
          if timed
          then Some (s\<lparr>mo_cond := (mo_cond s)(k := remove1 c (mo_cond s k)),
             mo_pc := (mo_pc s)(c := Entering op True timeout)\<rparr>)
          else None
      | _ \<Rightarrow> None)"
| "mstep body (Late c) s =
     (case mo_pc s c of
        Entering op timed st \<Rightarrow>
          if timed then Some (s\<lparr>mo_pc := (mo_pc s)(c := Entering op True timeout)\<rparr>) else None
      | _ \<Rightarrow> None)"

definition monitor_new :: "'d \<Rightarrow> ('d, 'o, 'r) monitor" where
  "monitor_new d = \<lparr>mo_data = d, mo_owner = None, mo_cond = (\<lambda>_. []), mo_pc = (\<lambda>_. Away), mo_log = []\<rparr>"

inductive mreach ::
  "('o \<Rightarrow> cv_status \<Rightarrow> 'd \<Rightarrow> 'd \<times> ('o, 'r) verdict) \<Rightarrow> 'd \<Rightarrow> ('d, 'o, 'r) monitor \<Rightarrow> bool"
  for body d where
  start: "mreach body d (monitor_new d)"
| step: "mreach body d s \<Longrightarrow> mstep body e s = Some t \<Longrightarrow> mreach body d t"

subsection \<open>The queues and the mutex\<close>

definition mon_inv :: "('d, 'o, 'r) monitor \<Rightarrow> bool" where
  "mon_inv s \<longleftrightarrow>
     (\<forall>c. (\<exists>op st. mo_pc s c = Inside op st) = (mo_owner s = Some c)) \<and>
     (\<forall>k. distinct (mo_cond s k)) \<and>
     (\<forall>k c. c \<in> set (mo_cond s k) \<longleftrightarrow> (\<exists>timed op. mo_pc s c = Waiting k timed op))"

lemma fold_wakes:
  "distinct cs \<Longrightarrow> fold wakes cs pc = (\<lambda>c. if c \<in> set cs then wakes c pc c else pc c)"
proof (induction cs arbitrary: pc)
  case (Cons x cs)
  have "wakes c (wakes x pc) c = wakes c pc c" if "c \<noteq> x" for c
    using that by (auto simp: wakes_def split: pc.splits)
  with Cons show ?case by (auto simp: wakes_def fun_eq_iff split: pc.splits)
qed simp

text \<open>The effect of a notification: the fibers \<open>X\<close> are woken.\<close>

definition woken_set :: "notification \<Rightarrow> ('d, 'o, 'r) monitor \<Rightarrow> ctx set" where
  "woken_set n s = (case n of Notify_one k \<Rightarrow> set (take 1 (mo_cond s k)) | Notify_all k \<Rightarrow> set (mo_cond s k))"

definition target :: "notification \<Rightarrow> nat" where
  "target n = (case n of Notify_one k \<Rightarrow> k | Notify_all k \<Rightarrow> k)"

lemma notified_effect:
  assumes "mon_inv s"
  shows "mo_pc (notified n s) = (\<lambda>c. if c \<in> woken_set n s then wakes c (mo_pc s) c else mo_pc s c)"
    and "mo_data (notified n s) = mo_data s" "mo_owner (notified n s) = mo_owner s"
    and "mo_log (notified n s) = mo_log s"
    and "mo_cond (notified n s) =
      (mo_cond s)(target n := case n of Notify_one k \<Rightarrow> tl (mo_cond s k) | Notify_all k \<Rightarrow> [])"
proof -
  have d: "distinct (mo_cond s k)" for k using assms by (simp add: mon_inv_def)
  show "mo_pc (notified n s) = (\<lambda>c. if c \<in> woken_set n s then wakes c (mo_pc s) c else mo_pc s c)"
  proof (cases n)
    case (Notify_one k)
    then show ?thesis
      by (cases "mo_cond s k") (auto simp: notified_def woken_set_def wakes_def fun_eq_iff split: pc.split)
  next
    case (Notify_all k)
    then show ?thesis by (simp add: notified_def woken_set_def fold_wakes [OF d])
  qed
  show "mo_data (notified n s) = mo_data s" "mo_owner (notified n s) = mo_owner s" "mo_log (notified n s) = mo_log s"
    by (simp_all add: notified_def split: notification.split list.split)
  show "mo_cond (notified n s) =
      (mo_cond s)(target n := case n of Notify_one k \<Rightarrow> tl (mo_cond s k) | Notify_all k \<Rightarrow> [])"
    by (auto simp: notified_def target_def fun_eq_iff split: notification.split list.split)
qed

lemma woken_waiting:
  assumes "mon_inv s" "c \<in> woken_set n s"
  shows "\<exists>timed op. mo_pc s c = Waiting (target n) timed op"
proof -
  have "c \<in> set (mo_cond s (target n))"
    using assms(2) by (auto simp: woken_set_def target_def split: notification.splits dest: in_set_takeD)
  with assms(1) show ?thesis by (simp add: mon_inv_def)
qed

lemma mon_inv_pc:
  assumes "mon_inv s" "mo_pc t = (mo_pc s)(c := p)" "mo_owner t = mo_owner s" "mo_cond t = mo_cond s"
    and "\<And>op st. mo_pc s c \<noteq> Inside op st" "\<And>k b op. mo_pc s c \<noteq> Waiting k b op"
    and "\<And>op st. p \<noteq> Inside op st" "\<And>k b op. p \<noteq> Waiting k b op"
  shows "mon_inv t"
proof -
  have "mo_owner s \<noteq> Some c" using assms(1,5) unfolding mon_inv_def by blast
  with assms show ?thesis unfolding mon_inv_def by auto
qed

lemma mon_inv_notified:
  assumes I: "mon_inv s"
  shows "mon_inv (notified n s)"
proof -
  note e = notified_effect [OF I, of n]
  have w: "\<exists>b op. mo_pc s c = Waiting (target n) b op \<and> mo_pc (notified n s) c = Entering op b no_timeout"
    if "c \<in> woken_set n s" for c
    using woken_waiting [OF I that] that by (auto simp: e(1) wakes_def)
  have nw: "mo_pc (notified n s) c = mo_pc s c" if "c \<notin> woken_set n s" for c
    using that by (simp add: e(1))
  have q: "c \<in> set (mo_cond (notified n s) k) \<longleftrightarrow> c \<in> set (mo_cond s k) \<and> c \<notin> woken_set n s" for c k
  proof -
    have "distinct (mo_cond s k)" "k \<noteq> target n \<Longrightarrow> c \<in> set (mo_cond s k) \<Longrightarrow> c \<notin> set (mo_cond s (target n))"
      using I by (auto simp: mon_inv_def)
    then show ?thesis unfolding e(5)
      by (cases n; cases "mo_cond s k"; cases "k = target n")
        (auto simp: woken_set_def target_def dest: in_set_takeD)
  qed
  have "distinct (mo_cond (notified n s) k)" for k
    using I unfolding e(5) mon_inv_def by (auto simp: distinct_tl target_def split: notification.split)
  moreover have "(\<exists>op st. mo_pc (notified n s) c = Inside op st) = (mo_owner (notified n s) = Some c)" for c
  proof -
    have "(\<exists>op st. mo_pc s c = Inside op st) = (mo_owner s = Some c)" using I by (simp add: mon_inv_def)
    then show ?thesis using w [of c] nw [of c] e(3) by (cases "c \<in> woken_set n s") auto
  qed
  moreover have "c \<in> set (mo_cond (notified n s) k) \<longleftrightarrow> (\<exists>b op. mo_pc (notified n s) c = Waiting k b op)" for c k
  proof -
    have "c \<in> set (mo_cond s k) \<longleftrightarrow> (\<exists>b op. mo_pc s c = Waiting k b op)" using I by (simp add: mon_inv_def)
    then show ?thesis using w [of c] nw [of c] unfolding q by (cases "c \<in> woken_set n s") auto
  qed
  ultimately show ?thesis by (simp add: mon_inv_def)
qed

lemma mon_inv_step:
  assumes I: "mon_inv s" and st: "mstep body e s = Some t"
  shows "mon_inv t"
proof (cases e)
  case (Call c op)
  with st show ?thesis by (intro mon_inv_pc [OF I, where c = c]) (auto split: pc.splits)
next
  case (Late c)
  with st obtain op x where "mo_pc s c = Entering op True x"
    "t = s\<lparr>mo_pc := (mo_pc s)(c := Entering op True timeout)\<rparr>"
    by (auto split: pc.splits if_splits)
  then show ?thesis by (intro mon_inv_pc [OF I, where c = c and p = "Entering op True timeout"]) auto
next
  case (Acquire c)
  with st obtain op b x where t: "mo_pc s c = Entering op b x" "mo_owner s = None"
    "t = s\<lparr>mo_owner := Some c, mo_pc := (mo_pc s)(c := Inside op x)\<rparr>"
    by (auto split: pc.splits if_splits)
  with I show ?thesis unfolding mon_inv_def by auto
next
  case (Section c)
  with st obtain op x where c: "mo_pc s c = Inside op x" by (auto split: pc.splits)
  have o: "mo_owner s = Some c" "\<And>d op st. mo_pc s d = Inside op st \<Longrightarrow> d = c" "\<And>k. c \<notin> set (mo_cond s k)"
    using I c unfolding mon_inv_def by (metis option.inject pc.distinct)+
  obtain d v where b: "body op x (mo_data s) = (d, v)" by fastforce
  show ?thesis
  proof (cases v)
    case (Leave ns r)
    with c b st Section have t: "mo_pc t = (mo_pc s)(c := Notifying ns r)" "mo_owner t = None" "mo_cond t = mo_cond s"
      by auto
    with I o show ?thesis unfolding mon_inv_def by auto
  next
    case (Wait_on k b' op')
    with c b st Section have t: "mo_pc t = (mo_pc s)(c := Waiting k b' op')" "mo_owner t = None"
      "mo_cond t = (mo_cond s)(k := mo_cond s k @ [c])"
      by auto
    with I o show ?thesis unfolding mon_inv_def by auto
  qed
next
  case (Notify c)
  with st obtain ns r where c: "mo_pc s c = Notifying ns r" by (auto split: pc.splits)
  show ?thesis
  proof (cases ns)
    case Nil
    with c st Notify show ?thesis by (intro mon_inv_pc [OF I, where c = c]) auto
  next
    case (Cons n ns')
    have "mon_inv (s\<lparr>mo_pc := (mo_pc s)(c := Notifying ns' r)\<rparr>)"
      using c by (intro mon_inv_pc [OF I, where c = c]) auto
    from mon_inv_notified [OF this] Cons c st Notify show ?thesis by auto
  qed
next
  case (Time_out c)
  with st obtain k op where t: "mo_pc s c = Waiting k True op"
    "mo_pc t = (mo_pc s)(c := Entering op True timeout)" "mo_owner t = mo_owner s"
    "mo_cond t = (mo_cond s)(k := remove1 c (mo_cond s k))"
    by (auto split: pc.splits if_splits)
  have "mo_owner s \<noteq> Some c" "\<And>j. j \<noteq> k \<Longrightarrow> c \<notin> set (mo_cond s j)" "\<And>j. distinct (mo_cond s j)"
    using I t(1) unfolding mon_inv_def by (metis pc.distinct pc.inject(4))+
  with I t show ?thesis unfolding mon_inv_def by auto
qed

lemma mreach_inv: "mreach body d s \<Longrightarrow> mon_inv s"
proof (induction rule: mreach.induct)
  case start
  show ?case by (simp add: mon_inv_def monitor_new_def)
next
  case (step s e t)
  from mon_inv_step [OF step.IH step.hyps(2)] show ?case .
qed

text \<open>What a step does to the data and to the log: only a critical section touches them.\<close>

lemma mstep_data:
  assumes "mstep body e s = Some t" "mon_inv s"
  shows "(mo_data t = mo_data s \<and> mo_log t = mo_log s) \<or>
    (\<exists>c op st v. mo_pc s c = Inside op st \<and> body op st (mo_data s) = (mo_data t, v) \<and>
       mo_log t = mo_log s @ (case v of Leave ns r \<Rightarrow> [(op, r)] | Wait_on k b op' \<Rightarrow> []))"
proof (cases e)
  case (Section c)
  with assms obtain op st where c: "mo_pc s c = Inside op st" by (auto split: pc.splits)
  obtain d v where b: "body op st (mo_data s) = (d, v)" by fastforce
  with Section assms c show ?thesis
    by (intro disjI2 exI [of _ c] exI [of _ op] exI [of _ st] exI [of _ v]) (auto split: verdict.splits)
next
  case (Notify c)
  with assms obtain ns r where c: "mo_pc s c = Notifying ns r" by (auto split: pc.splits)
  show ?thesis
  proof (cases ns)
    case (Cons n ns')
    have "mon_inv (s\<lparr>mo_pc := (mo_pc s)(c := Notifying ns' r)\<rparr>)"
      using c by (intro mon_inv_pc [OF assms(2), where c = c]) auto
    with notified_effect(2,4) Notify assms(1) c Cons show ?thesis by fastforce
  qed (use Notify assms c in auto)
qed (use assms in \<open>auto split: pc.splits if_splits\<close>)

subsection \<open>Clients\<close>

text \<open>An invariant of the data and of the operations completed so far, kept by every critical
  section, holds whenever any fiber sees the data.\<close>

locale monitor_client =
  fixes body :: "'o \<Rightarrow> cv_status \<Rightarrow> 'd \<Rightarrow> 'd \<times> ('o, 'r) verdict"
    and init :: 'd
    and good :: "'d \<Rightarrow> ('o \<times> 'r) list \<Rightarrow> bool"
  assumes good_init: "good init []"
    and good_leave: "good d log \<Longrightarrow> body op st d = (d', Leave ns r) \<Longrightarrow> good d' (log @ [(op, r)])"
    and good_wait: "good d log \<Longrightarrow> body op st d = (d', Wait_on k b op') \<Longrightarrow> good d' log"
begin

lemma always_good:
  assumes "mreach body init s"
  shows "good (mo_data s) (mo_log s)"
  using assms
proof induction
  case start
  with good_init show ?case by (simp add: monitor_new_def)
next
  case (step s e t)
  from mstep_data [OF step.hyps(2) mreach_inv [OF step.hyps(1)]] show ?case
  proof
    assume "mo_data t = mo_data s \<and> mo_log t = mo_log s"
    with step.IH show ?thesis by simp
  next
    assume "\<exists>c op st v. mo_pc s c = Inside op st \<and> body op st (mo_data s) = (mo_data t, v) \<and>
       mo_log t = mo_log s @ (case v of Leave ns r \<Rightarrow> [(op, r)] | Wait_on k b op' \<Rightarrow> [])"
    then obtain op st v where b: "body op st (mo_data s) = (mo_data t, v)"
      "mo_log t = mo_log s @ (case v of Leave ns r \<Rightarrow> [(op, r)] | Wait_on k b op' \<Rightarrow> [])" by blast
    show ?thesis using good_leave [OF step.IH, of op st] good_wait [OF step.IH, of op st] b
      by (cases v) auto
  qed
qed

end

text \<open>A condition that is broadcast: nobody sleeps on \<open>k\<close> when there is nothing to wait for, unless a
  fiber is about to wake all who do.\<close>

definition will_wake_all :: "nat \<Rightarrow> ('d, 'o, 'r) monitor \<Rightarrow> bool" where
  "will_wake_all k s \<longleftrightarrow> (\<exists>c ns r. mo_pc s c = Notifying ns r \<and> Notify_all k \<in> set ns)"

lemma will_wake_all_other:
  assumes "will_wake_all k s" "\<And>ns r. mo_pc s c \<noteq> Notifying ns r" "\<And>d. d \<noteq> c \<Longrightarrow> mo_pc t d = mo_pc s d"
  shows "will_wake_all k t"
proof -
  obtain d ns r where d: "mo_pc s d = Notifying ns r" "Notify_all k \<in> set ns"
    using assms(1) by (auto simp: will_wake_all_def)
  with assms(2) have "d \<noteq> c" by auto
  with assms(3) d show ?thesis unfolding will_wake_all_def by metis
qed

text \<open>The steps in which no critical section runs.\<close>

lemma will_wake_all_step:
  assumes I: "mon_inv s" and st: "mstep body e s = Some t" and ns: "\<And>c. e \<noteq> Section c"
    and w: "will_wake_all k s" and q: "mo_cond t k \<noteq> []"
  shows "will_wake_all k t"
proof (cases e)
  case (Notify c)
  with st obtain ns r where c: "mo_pc s c = Notifying ns r" by (auto split: pc.splits)
  show ?thesis
  proof (cases ns)
    case Nil
    with c st Notify have "mo_pc t = (mo_pc s)(c := Back r)" by auto
    with w c Nil show ?thesis unfolding will_wake_all_def by (metis emptyE fun_upd_apply list.set(1) pc.inject(3))
  next
    case (Cons n ns')
    let ?u = "s\<lparr>mo_pc := (mo_pc s)(c := Notifying ns' r)\<rparr>"
    have U: "mon_inv ?u" using c by (intro mon_inv_pc [OF I, where c = c]) auto
    have t: "t = notified n ?u" using Cons c st Notify by simp
    have "n \<noteq> Notify_all k" using q unfolding t notified_effect(5) [OF U] by (auto simp: target_def)
    with w c Cons have "will_wake_all k ?u"
      unfolding will_wake_all_def by (metis fun_upd_apply monitor.select_convs(4) monitor.surjective
          monitor.update_convs(4) pc.inject(3) set_ConsD)
    then obtain d ms x where d: "mo_pc ?u d = Notifying ms x" "Notify_all k \<in> set ms"
      by (auto simp: will_wake_all_def)
    have "d \<notin> woken_set n ?u" using woken_waiting [OF U, of d n] d(1) by auto
    then have "mo_pc t d = Notifying ms x" using notified_effect(1) [OF U, of n] d(1) t by simp
    with d(2) show ?thesis unfolding will_wake_all_def by blast
  qed
next
  case (Section c)
  with ns [of c] show ?thesis by simp
next
  case (Call c op)
  with st show ?thesis by (intro will_wake_all_other [OF w, where c = c]) (auto split: pc.splits)
next
  case (Acquire c)
  with st show ?thesis by (intro will_wake_all_other [OF w, where c = c]) (auto split: pc.splits if_splits)
next
  case (Time_out c)
  with st show ?thesis by (intro will_wake_all_other [OF w, where c = c]) (auto split: pc.splits if_splits)
next
  case (Late c)
  with st show ?thesis by (intro will_wake_all_other [OF w, where c = c]) (auto split: pc.splits if_splits)
qed

lemma mstep_queue:
  assumes "mon_inv s" "mstep body e s = Some t" "\<And>c. e \<noteq> Section c" "mo_cond t k \<noteq> []"
  shows "mo_cond s k \<noteq> [] \<and> mo_data t = mo_data s"
proof (cases e)
  case (Notify c)
  with assms(2) obtain ns r where c: "mo_pc s c = Notifying ns r" by (auto split: pc.splits)
  show ?thesis
  proof (cases ns)
    case (Cons n ns')
    have U: "mon_inv (s\<lparr>mo_pc := (mo_pc s)(c := Notifying ns' r)\<rparr>)"
      using c by (intro mon_inv_pc [OF assms(1), where c = c]) auto
    with assms(2,4) Cons c Notify notified_effect(2,5) [OF U, of n] show ?thesis
      by (auto simp: target_def split: notification.splits if_splits)
  qed (use assms c Notify in auto)
qed (use assms in \<open>auto split: pc.splits if_splits\<close>)

locale broadcast = monitor_client +
  fixes k :: nat and blocked :: "'d \<Rightarrow> bool"
  assumes wait_blocked: "good d log \<Longrightarrow> body op st d = (d', Wait_on k b op') \<Longrightarrow> blocked d'"
    and wait_keeps: "good d log \<Longrightarrow> body op st d = (d', Wait_on j b op') \<Longrightarrow> blocked d \<Longrightarrow> blocked d'"
    and leave_wakes: "good d log \<Longrightarrow> body op st d = (d', Leave ns r) \<Longrightarrow> blocked d \<Longrightarrow>
      blocked d' \<or> Notify_all k \<in> set ns"
begin

lemma sleepers_blocked:
  assumes "mreach body init s" "mo_cond s k \<noteq> []"
  shows "blocked (mo_data s) \<or> will_wake_all k s"
  using assms
proof (induction rule: mreach.induct)
  case start
  then show ?case by (simp add: monitor_new_def)
next
  case (step s e t)
  have I: "mon_inv s" and G: "good (mo_data s) (mo_log s)"
    by (rule mreach_inv [OF step.hyps(1)], rule always_good [OF step.hyps(1)])
  show ?case
  proof (cases "\<exists>c. e = Section c")
    case False
    with mstep_queue [OF I step.hyps(2) _ step.prems] step.IH
      will_wake_all_step [OF I step.hyps(2) _ _ step.prems] show ?thesis by auto
  next
    case True
    then obtain c where e: "e = Section c" ..
    with step.hyps(2) obtain op st where c: "mo_pc s c = Inside op st" by (auto split: pc.splits)
    obtain d v where b: "body op st (mo_data s) = (d, v)" by fastforce
    have other: "will_wake_all k t" if "will_wake_all k s"
      using step.hyps(2) e c b
      by (intro will_wake_all_other [OF that, where c = c]) (auto split: verdict.splits)
    show ?thesis
    proof (cases v)
      case (Leave ns r)
      with e c b step.hyps(2) have t: "mo_data t = d" "mo_cond t = mo_cond s" "mo_pc t c = Notifying ns r" by auto
      have "will_wake_all k t" if "Notify_all k \<in> set ns" using t(3) that unfolding will_wake_all_def by blast
      with t leave_wakes [OF G, of op st d ns r] b Leave step other show ?thesis by auto
    next
      case (Wait_on j b' op')
      with e c b step.hyps(2) have t: "mo_data t = d" "mo_cond t = (mo_cond s)(j := mo_cond s j @ [c])" by auto
      show ?thesis
      proof (cases "j = k")
        case True
        with wait_blocked [OF G, of op st d b' op'] b Wait_on t show ?thesis by simp
      next
        case False
        with t step other wait_keeps [OF G, of op st d j b' op'] b Wait_on show ?thesis by auto
      qed
    qed
  qed
qed

end

subsection \<open>Handing items over\<close>

text \<open>A condition on which fibers wait for one of several items and which is notified once per item:
  nobody sleeps while there are more items than fibers on the way to take them. A fiber that has
  been woken and not yet left counts for one, and so does a notification about to be sent.\<close>

definition total :: "('a \<Rightarrow> nat) \<Rightarrow> nat" where
  "total f = sum f {c. f c \<noteq> 0}"

lemma total_upd:
  assumes "finite {c. f c \<noteq> 0}"
  shows "finite {d. (f(c := n)) d \<noteq> 0}" "total (f(c := n)) + f c = total f + n"
proof -
  have sub: "{d. (f(c := n)) d \<noteq> 0} \<subseteq> insert c {d. f d \<noteq> 0}" by auto
  with assms show fin: "finite {d. (f(c := n)) d \<noteq> 0}" by (meson finite_insert finite_subset)
  let ?S = "insert c {d. f d \<noteq> 0}"
  have S: "finite ?S" using assms by simp
  have "total (f(c := n)) = sum (f(c := n)) ?S" unfolding total_def
    by (rule sum.mono_neutral_left [OF S]) auto
  also have "\<dots> = n + sum (f(c := n)) (?S - {c})" using S by (subst sum.remove [of ?S c]) auto
  also have "sum (f(c := n)) (?S - {c}) = sum f (?S - {c})" by (rule sum.cong) auto
  finally have 1: "total (f(c := n)) = n + sum f (?S - {c})" .
  have 2: "sum f ?S = f c + sum f (?S - {c})" by (rule sum.remove [OF S]) simp
  have 3: "sum f ?S = total f" unfolding total_def by (rule sum.mono_neutral_right [OF S]) auto
  from 1 2 3 show "total (f(c := n)) + f c = total f + n" by linarith
qed

lemma total_mono:
  assumes "finite {c. g c \<noteq> 0}" "\<And>c. f c \<le> g c"
  shows "total f \<le> total g"
proof -
  have sub: "{c. f c \<noteq> 0} \<subseteq> {c. g c \<noteq> 0}" using assms(2) by (auto intro: less_le_trans)
  have "total f \<le> sum g {c. f c \<noteq> 0}" unfolding total_def by (rule sum_mono) (rule assms(2))
  also have "\<dots> \<le> total g" unfolding total_def by (rule sum_mono2 [OF assms(1) sub]) simp
  finally show ?thesis .
qed

fun ones :: "nat \<Rightarrow> notification list \<Rightarrow> nat" where
  "ones k [] = 0"
| "ones k (Notify_one i # ns) = (if i = k then Suc (ones k ns) else ones k ns)"
| "ones k (Notify_all i # ns) = ones k ns"

definition token :: "nat \<Rightarrow> ('o \<Rightarrow> bool) \<Rightarrow> ('o, 'r) pc \<Rightarrow> nat" where
  "token k taker p =
     (case p of
        Entering op timed st \<Rightarrow> of_bool (taker op)
      | Inside op st \<Rightarrow> of_bool (taker op)
      | Notifying ns r \<Rightarrow> ones k ns
      | _ \<Rightarrow> 0)"

definition tokens :: "nat \<Rightarrow> ('o \<Rightarrow> bool) \<Rightarrow> ('d, 'o, 'r) monitor \<Rightarrow> nat" where
  "tokens k taker s = total (\<lambda>c. token k taker (mo_pc s c))"

definition finite_pc :: "('d, 'o, 'r) monitor \<Rightarrow> bool" where
  "finite_pc s \<longleftrightarrow> finite {c. mo_pc s c \<noteq> Away}"

lemma mstep_pcs:
  assumes "mstep body e s = Some t" "mon_inv s"
  shows "\<exists>c. {d. mo_pc t d \<noteq> Away} \<subseteq> insert c {d. mo_pc s d \<noteq> Away}"
proof (cases e)
  case (Notify c)
  with assms(1) obtain ns r where c: "mo_pc s c = Notifying ns r" by (auto split: pc.splits)
  show ?thesis
  proof (cases ns)
    case (Cons n ns')
    have U: "mon_inv (s\<lparr>mo_pc := (mo_pc s)(c := Notifying ns' r)\<rparr>)"
      using c by (intro mon_inv_pc [OF assms(2), where c = c]) auto
    have t: "t = notified n (s\<lparr>mo_pc := (mo_pc s)(c := Notifying ns' r)\<rparr>)" using Cons c assms(1) Notify by simp
    show ?thesis unfolding t notified_effect(1) [OF U]
      by (intro exI [of _ c]) (auto simp: wakes_def split: if_splits pc.splits)
  qed (use assms c Notify in \<open>auto intro!: exI [of _ c] split: if_splits\<close>)
next
  case (Section c)
  with assms show ?thesis by (intro exI [of _ c]) (auto split: pc.splits prod.splits verdict.splits if_splits)
qed (use assms in \<open>auto split: pc.splits if_splits\<close>)

lemma mreach_finite: "mreach body d s \<Longrightarrow> finite_pc s"
proof (induction rule: mreach.induct)
  case start
  show ?case by (simp add: finite_pc_def monitor_new_def)
next
  case (step s e t)
  from mstep_pcs [OF step.hyps(2) mreach_inv [OF step.hyps(1)]] step.IH show ?case
    unfolding finite_pc_def by (meson finite_insert finite_subset)
qed

lemma finite_token: "finite_pc s \<Longrightarrow> finite {c. token k taker (mo_pc s c) \<noteq> 0}"
  unfolding finite_pc_def by (erule finite_subset [rotated]) (auto simp: token_def)

locale handover = monitor_client +
  fixes k :: nat and avail :: "'d \<Rightarrow> nat" and taker :: "'o \<Rightarrow> bool"
  assumes wait_none: "good d log \<Longrightarrow> body op st d = (d', Wait_on k b op') \<Longrightarrow> avail d' = 0 \<and> taker op'"
    and wait_other: "good d log \<Longrightarrow> body op st d = (d', Wait_on j b op') \<Longrightarrow> j \<noteq> k \<Longrightarrow>
      avail d' \<le> avail d \<and> \<not> taker op"
    and leave_tokens: "good d log \<Longrightarrow> body op st d = (d', Leave ns r) \<Longrightarrow>
      Notify_all k \<in> set ns \<or> avail d' \<le> avail d + ones k ns - of_bool (taker op)"
begin

definition takers_wait :: "('d, 'o, 'r) monitor \<Rightarrow> bool" where
  "takers_wait s \<longleftrightarrow> (\<forall>c b op. mo_pc s c = Waiting k b op \<longrightarrow> taker op)"

lemma takers_wait_step:
  assumes G: "good (mo_data s) (mo_log s)" and I: "mon_inv s" and st: "mstep body e s = Some t"
    and w: "takers_wait s"
  shows "takers_wait t"
proof (cases e)
  case (Section c)
  with st obtain op x where c: "mo_pc s c = Inside op x" by (auto split: pc.splits)
  obtain d v where b: "body op x (mo_data s) = (d, v)" by fastforce
  have "mo_pc t = (mo_pc s)(c := (case v of Leave ns r \<Rightarrow> Notifying ns r | Wait_on j b op' \<Rightarrow> Waiting j b op'))"
    using Section st c b by (cases v) auto
  moreover have "taker op'" if "v = Wait_on k b' op'" for b' op'
    using wait_none [OF G, of op x d b' op'] b that by simp
  ultimately show ?thesis using w unfolding takers_wait_def by (auto split: verdict.splits if_splits)
next
  case (Notify c)
  with st obtain ns r where c: "mo_pc s c = Notifying ns r" by (auto split: pc.splits)
  show ?thesis
  proof (cases ns)
    case Nil
    with c st Notify have "mo_pc t = (mo_pc s)(c := Back r)" by auto
    with w show ?thesis unfolding takers_wait_def by (auto split: if_splits)
  next
    case (Cons n ns')
    let ?u = "s\<lparr>mo_pc := (mo_pc s)(c := Notifying ns' r)\<rparr>"
    have U: "mon_inv ?u" using c by (intro mon_inv_pc [OF I, where c = c]) auto
    have t: "t = notified n ?u" using Cons c st Notify by simp
    have "mo_pc t d = Waiting j b op \<Longrightarrow> mo_pc s d = Waiting j b op" for d j b op
      unfolding t notified_effect(1) [OF U] by (auto simp: wakes_def split: if_splits pc.splits)
    with w show ?thesis unfolding takers_wait_def by blast
  qed
qed (use st w in \<open>auto simp: takers_wait_def split: pc.splits if_splits\<close>)

lemma tokens_upd:
  assumes "finite_pc s" "mo_pc t = (mo_pc s)(c := p)"
  shows "tokens k taker t + token k taker (mo_pc s c) = tokens k taker s + token k taker p"
proof -
  have "(\<lambda>d. token k taker (mo_pc t d)) = (\<lambda>d. token k taker (mo_pc s d))(c := token k taker p)"
    using assms(2) by (auto simp: fun_eq_iff)
  with total_upd(2) [OF finite_token [OF assms(1)], of k taker c "token k taker p"] show ?thesis
    unfolding tokens_def by simp
qed

text \<open>Sending a notification keeps the count, if somebody sleeps afterwards.\<close>

lemma tokens_notify:
  assumes I: "mon_inv s" and F: "finite_pc s" and w: "takers_wait s" and c: "mo_pc s c = Notifying (n # ns) r"
    and q: "mo_cond (notified n (s\<lparr>mo_pc := (mo_pc s)(c := Notifying ns r)\<rparr>)) k \<noteq> []"
  shows "tokens k taker s \<le> tokens k taker (notified n (s\<lparr>mo_pc := (mo_pc s)(c := Notifying ns r)\<rparr>))"
proof -
  let ?u = "s\<lparr>mo_pc := (mo_pc s)(c := Notifying ns r)\<rparr>"
  let ?t = "notified n ?u"
  have U: "mon_inv ?u" using c by (intro mon_inv_pc [OF I, where c = c]) auto
  have "{d. mo_pc ?u d \<noteq> Away} \<subseteq> insert c {d. mo_pc s d \<noteq> Away}" by auto
  with F have FU: "finite_pc ?u" unfolding finite_pc_def by (meson finite_insert finite_subset)
  have FT: "finite_pc ?t" using FU unfolding finite_pc_def
    by (rule finite_subset [rotated]) (auto simp: notified_effect(1) [OF U] wakes_def split: if_splits pc.splits)
  have up: "token k taker (mo_pc ?u d) \<le> token k taker (mo_pc ?t d)" for d
    unfolding notified_effect(1) [OF U] by (auto simp: wakes_def token_def split: pc.splits)
  have u: "tokens k taker ?u + ones k (n # ns) = tokens k taker s + ones k ns"
    using tokens_upd [OF F, of ?u c "Notifying ns r"] c by (simp add: token_def)
  show ?thesis
  proof (cases "n = Notify_one k")
    case False
    moreover have "n \<noteq> Notify_all k" using q unfolding notified_effect(5) [OF U] by (auto simp: target_def)
    ultimately have "ones k (n # ns) = ones k ns" by (cases n) auto
    with u have "tokens k taker ?u = tokens k taker s" by simp
    moreover have "tokens k taker ?u \<le> tokens k taker ?t" unfolding tokens_def
      by (rule total_mono [OF finite_token [OF FT] up])
    ultimately show ?thesis by simp
  next
    case True
    then obtain x xs where x: "mo_cond s k = x # xs"
      using q unfolding notified_effect(5) [OF U] by (cases "mo_cond s k") (auto simp: target_def)
    then obtain b op where wx: "mo_pc s x = Waiting k b op" using I unfolding mon_inv_def by (metis list.set_intros(1))
    then have tk: "taker op" "x \<noteq> c" using w c unfolding takers_wait_def by auto
    have pc: "mo_pc ?t = (mo_pc ?u)(x := Entering op b no_timeout)"
      using x wx tk True by (simp add: notified_def wakes_def)
    from tokens_upd [OF FU pc] wx tk u True show ?thesis by (simp add: token_def)
  qed
qed

definition enough :: "('d, 'o, 'r) monitor \<Rightarrow> bool" where
  "enough s \<longleftrightarrow> will_wake_all k s \<or> avail (mo_data s) \<le> tokens k taker s"

lemma enough_quiet:
  assumes I: "mon_inv s" and F: "finite_pc s" and w: "takers_wait s" and st: "mstep body e s = Some t"
    and e: "\<And>c. e \<noteq> Section c" and q: "mo_cond t k \<noteq> []" and en: "enough s"
  shows "enough t"
proof (cases "will_wake_all k s")
  case True
  with will_wake_all_step [OF I st e _ q] show ?thesis by (simp add: enough_def)
next
  case False
  have d: "mo_data t = mo_data s" using mstep_queue [OF I st e q] by simp
  have "tokens k taker s \<le> tokens k taker t"
  proof (cases e)
    case (Section c)
    with e [of c] show ?thesis by simp
  next
    case (Notify c)
    with st obtain ns r where c: "mo_pc s c = Notifying ns r" by (auto split: pc.splits)
    show ?thesis
    proof (cases ns)
      case Nil
      with c st Notify have "mo_pc t = (mo_pc s)(c := Back r)" by auto
      from tokens_upd [OF F this] c Nil show ?thesis by (simp add: token_def)
    next
      case (Cons n ns')
      with tokens_notify [OF I F w, of c n ns' r] c st Notify q show ?thesis by simp
    qed
  next
    case (Call c op)
    with st have "mo_pc t = (mo_pc s)(c := Entering op False no_timeout)" "token k taker (mo_pc s c) = 0"
      by (auto simp: token_def split: pc.splits)
    with tokens_upd [OF F this(1)] show ?thesis by simp
  next
    case (Acquire c)
    with st obtain op b x where "mo_pc s c = Entering op b x" "mo_pc t = (mo_pc s)(c := Inside op x)"
      by (auto split: pc.splits if_splits)
    with tokens_upd [OF F this(2)] show ?thesis by (simp add: token_def)
  next
    case (Time_out c)
    with st obtain j op where "mo_pc s c = Waiting j True op" "mo_pc t = (mo_pc s)(c := Entering op True timeout)"
      by (auto split: pc.splits if_splits)
    with tokens_upd [OF F this(2)] show ?thesis by (simp add: token_def)
  next
    case (Late c)
    with st obtain op x where "mo_pc s c = Entering op True x" "mo_pc t = (mo_pc s)(c := Entering op True timeout)"
      by (auto split: pc.splits if_splits)
    with tokens_upd [OF F this(2)] show ?thesis by (simp add: token_def)
  qed
  with d en False show ?thesis by (simp add: enough_def)
qed

lemma sleepers_served:
  assumes "mreach body init s"
  shows "takers_wait s \<and> (mo_cond s k \<noteq> [] \<longrightarrow> enough s)"
  using assms
proof (induction rule: mreach.induct)
  case start
  show ?case by (simp add: monitor_new_def takers_wait_def)
next
  case (step s e t)
  have I: "mon_inv s" and G: "good (mo_data s) (mo_log s)" and F: "finite_pc s"
    by (rule mreach_inv [OF step.hyps(1)], rule always_good [OF step.hyps(1)], rule mreach_finite [OF step.hyps(1)])
  have w: "takers_wait s" using step.IH ..
  have "enough t" if q: "mo_cond t k \<noteq> []"
  proof (cases "\<exists>c. e = Section c")
    case False
    with enough_quiet [OF I F w step.hyps(2) _ q] mstep_queue [OF I step.hyps(2) _ q] step.IH show ?thesis by blast
  next
    case True
    then obtain c where e: "e = Section c" ..
    with step.hyps(2) obtain op x where c: "mo_pc s c = Inside op x" by (auto split: pc.splits)
    obtain d v where b: "body op x (mo_data s) = (d, v)" by fastforce
    have other: "will_wake_all k t" if "will_wake_all k s"
      using step.hyps(2) e c b
      by (intro will_wake_all_other [OF that, where c = c]) (auto split: verdict.splits)
    show ?thesis
    proof (cases v)
      case (Leave ns r)
      with e c b step.hyps(2) have t: "mo_data t = d" "mo_cond t = mo_cond s"
        "mo_pc t = (mo_pc s)(c := Notifying ns r)" by auto
      have "tokens k taker t + of_bool (taker op) = tokens k taker s + ones k ns"
        using tokens_upd [OF F t(3)] c by (simp add: token_def)
      moreover have "will_wake_all k t" if "Notify_all k \<in> set ns"
        using t(3) that unfolding will_wake_all_def by (metis fun_upd_same)
      ultimately show ?thesis using leave_tokens [OF G, of op x d ns r] b Leave step.IH q t other
        by (auto simp: enough_def)
    next
      case (Wait_on j b' op')
      with e c b step.hyps(2) have t: "mo_data t = d" "mo_cond t = (mo_cond s)(j := mo_cond s j @ [c])"
        "mo_pc t = (mo_pc s)(c := Waiting j b' op')" by auto
      show ?thesis
      proof (cases "j = k")
        case True
        with wait_none [OF G, of op x d b' op'] b Wait_on t show ?thesis by (simp add: enough_def)
      next
        case False
        have d: "avail d \<le> avail (mo_data s)" "\<not> taker op"
          using wait_other [OF G, of op x d j b' op'] b Wait_on False by simp_all
        have "tokens k taker t = tokens k taker s"
          using tokens_upd [OF F t(3)] c d(2) by (simp add: token_def)
        with d(1) t step.IH q False other show ?thesis by (auto simp: enough_def)
      qed
    qed
  qed
  with takers_wait_step [OF G I step.hyps(2) w] show ?case by blast
qed

end

subsection \<open>Runs\<close>

fun mrun ::
  "('o \<Rightarrow> cv_status \<Rightarrow> 'd \<Rightarrow> 'd \<times> ('o, 'r) verdict) \<Rightarrow> 'o event list \<Rightarrow> ('d, 'o, 'r) monitor \<Rightarrow> ('d, 'o, 'r) monitor option"
  where
  "mrun body [] s = Some s"
| "mrun body (e # es) s = Option.bind (mstep body e s) (mrun body es)"

definition mafter ::
  "('o \<Rightarrow> cv_status \<Rightarrow> 'd \<Rightarrow> 'd \<times> ('o, 'r) verdict) \<Rightarrow> 'd \<Rightarrow> 'o event list \<Rightarrow> ('d, 'o, 'r) monitor" where
  "mafter body d es = the (mrun body es (monitor_new d))"

lemma mrun_reach: "mreach body d s \<Longrightarrow> mrun body es s = Some t \<Longrightarrow> mreach body d t"
  by (induction es arbitrary: s) (auto intro: mreach.step split: Option.bind_splits)

lemma mafter_reach: "mrun body es (monitor_new d) \<noteq> None \<Longrightarrow> mreach body d (mafter body d es)"
  using mrun_reach [OF mreach.start] by (auto simp: mafter_def)

text \<open>A call without contention, up to the end of its critical section.\<close>

definition enters :: "ctx \<Rightarrow> 'o \<Rightarrow> 'o event list" where
  "enters c op = [Call c op, Acquire c, Section c]"

definition goes_on :: "ctx \<Rightarrow> 'o event list" where
  "goes_on c = [Acquire c, Section c]"

end
