(* ===== verification/Channel_List.thy ===== *)
theory Channel_List
  imports Dumbo_Prelude "HOL-Library.Monad_Syntax"
begin

text \<open>
  The linked list of \<open>bounded_channel\<close> and \<open>unbounded_channel\<close> (the two have the same \<open>node\<close>,
  \<open>push_tail_\<close> and \<open>pop_head_\<close>): reference-counted nodes, a head, and a \<open>tail_\<close> that points to
  the pointer to be set next. A step that follows a null or dangling pointer is \<open>None\<close>. The
  references that a call copies and drops again are left out. The nodes are addressed by numbers
  and the allocator never hands out the same one twice.
\<close>

record 'a node =
  nd_use_count :: nat
  nd_va :: 'a
  nd_nxt :: "nat option"

datatype ptr_ref = At_head | At_nxt nat

record 'a chan_list =
  cl_nodes :: "nat \<Rightarrow> 'a node option"
  cl_head :: "nat option"
  cl_tail :: ptr_ref
  cl_next :: nat

definition chan_list_new :: "'a chan_list" where
  "chan_list_new = \<lparr>cl_nodes = (\<lambda>_. None), cl_head = None, cl_tail = At_head, cl_next = 0\<rparr>"

definition set_node :: "nat \<Rightarrow> 'a node option \<Rightarrow> 'a chan_list \<Rightarrow> 'a chan_list" where
  "set_node i x l = l\<lparr>cl_nodes := (cl_nodes l)(i := x)\<rparr>"

text \<open>A new node with the reference of the argument that carries it.\<close>

definition node_new :: "'a \<Rightarrow> 'a chan_list \<Rightarrow> nat \<times> 'a chan_list" where
  "node_new t l = (cl_next l,
     (set_node (cl_next l) (Some \<lparr>nd_use_count = 1, nd_va = t, nd_nxt = None\<rparr>) l)\<lparr>cl_next := Suc (cl_next l)\<rparr>)"

definition node_add_ref :: "nat option \<Rightarrow> 'a chan_list \<Rightarrow> 'a chan_list option" where
  "node_add_ref p l =
     (case p of
        None \<Rightarrow> Some l
      | Some i \<Rightarrow> do { x \<leftarrow> cl_nodes l i; Some (set_node i (Some (x\<lparr>nd_use_count := Suc (nd_use_count x)\<rparr>)) l) })"

text \<open>The last reference frees the node, whose \<open>nxt\<close> is then released; the bound is on the length
  of this chain.\<close>

fun node_release :: "nat \<Rightarrow> nat option \<Rightarrow> 'a chan_list \<Rightarrow> 'a chan_list option" where
  "node_release fuel None l = Some l"
| "node_release 0 (Some i) l = None"
| "node_release (Suc fuel) (Some i) l = do {
     x \<leftarrow> cl_nodes l i;
     if nd_use_count x = 1 then node_release fuel (nd_nxt x) (set_node i None l)
     else Some (set_node i (Some (x\<lparr>nd_use_count := nd_use_count x - 1\<rparr>)) l)
   }"

definition get_ptr :: "ptr_ref \<Rightarrow> 'a chan_list \<Rightarrow> nat option option" where
  "get_ptr r l = (case r of At_head \<Rightarrow> Some (cl_head l) | At_nxt i \<Rightarrow> map_option nd_nxt (cl_nodes l i))"

definition put_ptr :: "ptr_ref \<Rightarrow> nat option \<Rightarrow> 'a chan_list \<Rightarrow> 'a chan_list option" where
  "put_ptr r p l =
     (case r of
        At_head \<Rightarrow> Some (l\<lparr>cl_head := p\<rparr>)
      | At_nxt i \<Rightarrow> do { x \<leftarrow> cl_nodes l i; Some (set_node i (Some (x\<lparr>nd_nxt := p\<rparr>)) l) })"

text \<open>The assignment of an \<open>intrusive_ptr\<close>.\<close>

definition assign_ptr :: "ptr_ref \<Rightarrow> nat option \<Rightarrow> 'a chan_list \<Rightarrow> 'a chan_list option" where
  "assign_ptr r p l = do {
     l \<leftarrow> node_add_ref p l;
     old \<leftarrow> get_ptr r l;
     l \<leftarrow> put_ptr r p l;
     node_release (cl_next l) old l
   }"

definition push_tail :: "nat \<Rightarrow> 'a chan_list \<Rightarrow> 'a chan_list option" where
  "push_tail new_node l = do {
     l \<leftarrow> assign_ptr (cl_tail l) (Some new_node) l;
     Some (l\<lparr>cl_tail := At_nxt new_node\<rparr>)
   }"

definition pop_head :: "'a chan_list \<Rightarrow> (nat \<times> 'a chan_list) option" where
  "pop_head l = do {
     old_head \<leftarrow> cl_head l;
     l \<leftarrow> node_add_ref (Some old_head) l;
     x \<leftarrow> cl_nodes l old_head;
     l \<leftarrow> assign_ptr At_head (nd_nxt x) l;
     let l = (if cl_head l = None then l\<lparr>cl_tail := At_head\<rparr> else l);
     l \<leftarrow> assign_ptr (At_nxt old_head) None l;
     Some (old_head, l)
   }"

text \<open>How a value gets into a node: the memory is allocated, the value copied or moved into it, and the
  memory given back when this throws. \<open>live\<close> counts the nodes allocated.\<close>

definition node_construct :: "('a \<Rightarrow> 'a option) \<Rightarrow> 'a \<Rightarrow> nat \<Rightarrow> 'a option \<times> nat" where
  "node_construct construct va live =
     (let live = Suc live
      in case construct va of
           Some t \<Rightarrow> (Some t, live)
         | None \<Rightarrow> (None, live - 1))"

lemma node_construct_balance: "snd (node_construct f va n) = (if f va = None then n else Suc n)"
  by (simp add: node_construct_def split: option.split)

text \<open>A push allocates the node, links it and drops the argument; a pop unlinks the node, moves the
  value out and drops the node; the destructor drops the head.\<close>

definition list_push :: "'a \<Rightarrow> 'a chan_list \<Rightarrow> 'a chan_list option" where
  "list_push t l = do {
     let (i, l) = node_new t l;
     l \<leftarrow> push_tail i l;
     node_release (cl_next l) (Some i) l
   }"

definition list_pop :: "'a chan_list \<Rightarrow> ('a \<times> 'a chan_list) option" where
  "list_pop l = do {
     (old_head, l) \<leftarrow> pop_head l;
     x \<leftarrow> cl_nodes l old_head;
     l \<leftarrow> node_release (cl_next l) (Some old_head) l;
     Some (nd_va x, l)
   }"

definition list_delete :: "'a chan_list \<Rightarrow> 'a chan_list option" where
  "list_delete l = node_release (cl_next l) (cl_head l) l"

subsection \<open>The list it stands for\<close>

text \<open>\<open>chain is p\<close>: following \<open>nxt\<close> from \<open>p\<close> one meets exactly the nodes \<open>is\<close>.\<close>

fun chain :: "(nat \<Rightarrow> 'a node option) \<Rightarrow> nat option \<Rightarrow> nat list \<Rightarrow> bool" where
  "chain ns p [] \<longleftrightarrow> p = None"
| "chain ns p (i # is) \<longleftrightarrow> p = Some i \<and> (\<exists>x. ns i = Some x \<and> nd_use_count x = 1 \<and> chain ns (nd_nxt x) is)"

definition list_ok :: "nat list \<Rightarrow> 'a chan_list \<Rightarrow> bool" where
  "list_ok is l \<longleftrightarrow> chain (cl_nodes l) (cl_head l) is \<and> distinct is \<and> dom (cl_nodes l) = set is \<and>
     (\<forall>i \<in> set is. i < cl_next l) \<and> cl_tail l = (if is = [] then At_head else At_nxt (last is))"

fun walk :: "nat \<Rightarrow> (nat \<Rightarrow> 'a node option) \<Rightarrow> nat option \<Rightarrow> 'a list" where
  "walk 0 ns p = []"
| "walk (Suc n) ns p =
     (case p of
        None \<Rightarrow> []
      | Some i \<Rightarrow> (case ns i of None \<Rightarrow> [] | Some x \<Rightarrow> nd_va x # walk n ns (nd_nxt x)))"

definition elements :: "'a chan_list \<Rightarrow> 'a list" where
  "elements l = walk (cl_next l) (cl_nodes l) (cl_head l)"

definition list_inv :: "'a chan_list \<Rightarrow> bool" where
  "list_inv l \<longleftrightarrow> (\<exists>is. list_ok is l)"

definition value_at :: "(nat \<Rightarrow> 'a node option) \<Rightarrow> nat \<Rightarrow> 'a" where
  "value_at ns i = nd_va (the (ns i))"

lemma walk_chain: "chain ns p is \<Longrightarrow> length is \<le> n \<Longrightarrow> walk n ns p = map (value_at ns) is"
proof (induction "is" arbitrary: p n)
  case (Cons i "is")
  then obtain m where "n = Suc m" by (cases n) auto
  with Cons show ?case by (auto simp: value_at_def)
next
  case Nil
  then show ?case by (cases n) auto
qed

lemma chain_upd: "i \<notin> set is \<Longrightarrow> chain (ns(i := x)) p is = chain ns p is"
  by (induction "is" arbitrary: p) auto

lemma value_at_upd: "i \<notin> set is \<Longrightarrow> map (value_at (ns(i := x))) is = map (value_at ns) is"
  by (auto simp: value_at_def)

text \<open>A node hung on the last one.\<close>

lemma chain_snoc:
  assumes "chain ns p is" "distinct is" "i \<notin> set is" "is \<noteq> []" "ns (last is) = Some x"
    and "y = \<lparr>nd_use_count = 1, nd_va = t, nd_nxt = None\<rparr>"
  shows "chain (ns(i \<mapsto> y, last is \<mapsto> x\<lparr>nd_nxt := Some i\<rparr>)) p (is @ [i])"
  using assms
proof (induction "is" arbitrary: p)
  case (Cons j "is")
  show ?case
  proof (cases "is = []")
    case True
    with Cons.prems show ?thesis by auto
  next
    case False
    with Cons.prems have l: "j \<noteq> last is" "i \<noteq> j" "last is \<in> set is" by auto
    from Cons.prems False obtain z where z: "ns j = Some z" "nd_use_count z = 1" "chain ns (nd_nxt z) is" "p = Some j"
      by auto
    with Cons.IH [of "nd_nxt z"] Cons.prems False l show ?thesis by simp
  qed
qed simp

lemma list_ok_length: "list_ok is l \<Longrightarrow> length is \<le> cl_next l"
proof -
  assume "list_ok is l"
  then have "distinct is" "set is \<subseteq> {..<cl_next l}" by (auto simp: list_ok_def)
  then have "card (set is) \<le> cl_next l" using card_mono [of "{..<cl_next l}"] by fastforce
  with \<open>distinct is\<close> show ?thesis by (simp add: distinct_card)
qed

lemma elements_ok: "list_ok is l \<Longrightarrow> elements l = map (value_at (cl_nodes l)) is"
  unfolding elements_def by (rule walk_chain) (simp add: list_ok_def, rule list_ok_length)

lemma chain_last:
  "chain ns p is \<Longrightarrow> is \<noteq> [] \<Longrightarrow> \<exists>x. ns (last is) = Some x \<and> nd_nxt x = None \<and> nd_use_count x = 1"
  by (induction "is" arbitrary: p) auto

lemma node_bundle:
  "\<lparr>nd_use_count = n, nd_va = t, nd_nxt = q\<rparr>\<lparr>nd_use_count := m\<rparr> = \<lparr>nd_use_count = m, nd_va = t, nd_nxt = q\<rparr>"
  "nd_use_count x = n \<Longrightarrow> x\<lparr>nd_use_count := n\<rparr> = x"
  "x\<lparr>nd_nxt := q\<rparr>\<lparr>nd_use_count := n\<rparr> = x\<lparr>nd_use_count := n, nd_nxt := q\<rparr>"
  by simp_all

lemmas ptr_ops = node_add_ref_def get_ptr_def put_ptr_def assign_ptr_def set_node_def

lemma list_push_ok:
  assumes ok: "list_ok is l"
  shows "\<exists>l'. list_push t l = Some l' \<and> list_ok (is @ [cl_next l]) l' \<and> elements l' = elements l @ [t] \<and>
    cl_next l' = Suc (cl_next l)"
proof -
  let ?i = "cl_next l" and ?y = "\<lparr>nd_use_count = 1, nd_va = t, nd_nxt = None\<rparr>"
  have c: "chain (cl_nodes l) (cl_head l) is" "distinct is" "dom (cl_nodes l) = set is"
    "\<forall>j \<in> set is. j < ?i" "cl_tail l = (if is = [] then At_head else At_nxt (last is))"
    using ok by (auto simp: list_ok_def)
  have new: "?i \<notin> set is" using c(4) by auto
  show ?thesis
  proof (cases "is = []")
    case True
    then have h: "cl_head l = None" using c(1) by simp
    let ?l = "l\<lparr>cl_nodes := (cl_nodes l)(?i \<mapsto> ?y), cl_head := Some ?i, cl_tail := At_nxt ?i, cl_next := Suc ?i\<rparr>"
    have "list_push t l = Some ?l"
      using True c(5) h by (simp add: list_push_def node_new_def push_tail_def ptr_ops)
    moreover have "list_ok [?i] ?l" using c True by (auto simp: list_ok_def)
    ultimately show ?thesis using elements_ok [OF ok] elements_ok [of "[?i]" ?l] True by (simp add: value_at_def)
  next
    case False
    then obtain x where x: "cl_nodes l (last is) = Some x" "nd_nxt x = None" "nd_use_count x = 1"
      using chain_last [OF c(1)] by blast
    have ne: "last is \<noteq> ?i" using new False by (metis last_in_set)
    let ?ns = "(cl_nodes l)(?i \<mapsto> ?y, last is \<mapsto> x\<lparr>nd_nxt := Some ?i\<rparr>)"
    let ?l = "l\<lparr>cl_nodes := ?ns, cl_tail := At_nxt ?i, cl_next := Suc ?i\<rparr>"
    have push: "list_push t l = Some ?l"
      using False c(5) x ne
      by (simp add: list_push_def node_new_def push_tail_def ptr_ops fun_upd_twist)
    have "chain ?ns (cl_head l) (is @ [?i])" by (rule chain_snoc [OF c(1,2) new False x(1) refl])
    then have ok': "list_ok (is @ [?i]) ?l"
      using c(2-4) new False by (auto simp: list_ok_def less_Suc_eq)
    have "map (value_at ?ns) is = map (value_at (cl_nodes l)) is"
      using new x(1) by (auto simp: value_at_def)
    with push ok' elements_ok [OF ok] elements_ok [OF ok'] ne show ?thesis by (simp add: value_at_def)
  qed
qed

lemma list_pop_ok:
  assumes ok: "list_ok (i # is) l"
  shows "\<exists>v l'. list_pop l = Some (v, l') \<and> list_ok is l' \<and> elements l = v # elements l' \<and>
    cl_next l' = cl_next l"
proof -
  obtain x where x: "cl_head l = Some i" "cl_nodes l i = Some x" "nd_use_count x = 1"
    "chain (cl_nodes l) (nd_nxt x) is"
    using ok by (auto simp: list_ok_def)
  have d: "i \<notin> set is" "distinct is" "dom (cl_nodes l) = insert i (set is)" "\<forall>j \<in> set is. j < cl_next l"
    "i < cl_next l" "cl_tail l = At_nxt (last (i # is))"
    using ok by (auto simp: list_ok_def)
  obtain n where n: "cl_next l = Suc n" using d(5) by (cases "cl_next l") auto
  let ?ns = "(cl_nodes l)(i := None)"
  let ?l = "l\<lparr>cl_nodes := ?ns, cl_head := nd_nxt x, cl_tail := (if is = [] then At_head else cl_tail l)\<rparr>"
  have pop: "list_pop l = Some (nd_va x, ?l)"
  proof (cases "is")
    case Nil
    then have "nd_nxt x = None" using x(4) by simp
    with Nil x n show ?thesis by (simp add: list_pop_def pop_head_def ptr_ops)
  next
    case (Cons j js)
    then obtain z where z: "nd_nxt x = Some j" "cl_nodes l j = Some z" "nd_use_count z = 1" "j \<noteq> i"
      using x(4) d(1) by auto
    have "((cl_nodes l)(j \<mapsto> z, i := None)) = ?ns" using z by (auto simp: fun_eq_iff)
    with Cons x n z show ?thesis
      by (simp add: list_pop_def pop_head_def ptr_ops fun_upd_twist node_bundle)
  qed
  have ch: "chain ?ns (nd_nxt x) is" by (subst chain_upd [OF d(1)]) (rule x(4))
  have ok': "list_ok is ?l"
    using ch d by (auto simp: list_ok_def)
  have "map (value_at ?ns) is = map (value_at (cl_nodes l)) is" by (rule value_at_upd [OF d(1)])
  with pop ok' elements_ok [OF ok] elements_ok [OF ok'] x(2) show ?thesis by (simp add: value_at_def)
qed

lemma list_pop_empty: "list_ok [] l \<Longrightarrow> list_pop l = None \<and> cl_head l = None \<and> elements l = []"
  using elements_ok [of "[]" l] by (simp add: list_ok_def list_pop_def pop_head_def)

lemma node_release_chain:
  assumes "chain (cl_nodes l) p is" "distinct is" "length is \<le> n"
  shows "\<exists>l'. node_release n p l = Some l' \<and> cl_nodes l' = (\<lambda>i. if i \<in> set is then None else cl_nodes l i)"
  using assms
proof (induction "is" arbitrary: p n l)
  case (Cons i "is")
  obtain m where m: "n = Suc m" "length is \<le> m" using Cons.prems(3) by (cases n) auto
  obtain x where x: "p = Some i" "cl_nodes l i = Some x" "nd_use_count x = 1" "chain (cl_nodes l) (nd_nxt x) is"
    using Cons.prems(1) by auto
  have "chain (cl_nodes (set_node i None l)) (nd_nxt x) is"
    unfolding set_node_def
    by (simp, subst chain_upd) (use Cons.prems(2) x(4) in auto)
  from Cons.IH [OF this _ m(2)] Cons.prems(2) x m(1) show ?case
    by (auto simp: set_node_def fun_eq_iff)
qed (auto simp: fun_eq_iff elim: node_release.elims)

lemma list_delete_ok:
  assumes ok: "list_ok is l"
  shows "\<exists>l'. list_delete l = Some l' \<and> cl_nodes l' = (\<lambda>_. None)"
proof -
  have "chain (cl_nodes l) (cl_head l) is" "distinct is" "dom (cl_nodes l) = set is"
    using ok by (auto simp: list_ok_def)
  with node_release_chain [OF this(1,2) list_ok_length [OF ok]] show ?thesis
    unfolding list_delete_def by (auto simp: fun_eq_iff dom_def)
qed

subsection \<open>As a list\<close>

text \<open>What the channels rely on: a list to append to and to take the first element from.\<close>

locale list_queue =
  fixes push :: "'a \<Rightarrow> 'q \<Rightarrow> 'q option"
    and pop :: "'q \<Rightarrow> ('a \<times> 'q) option"
    and contents :: "'q \<Rightarrow> 'a list"
    and inv :: "'q \<Rightarrow> bool"
  assumes push: "inv q \<Longrightarrow> \<exists>q'. push x q = Some q' \<and> inv q' \<and> contents q' = contents q @ [x]"
    and pop: "inv q \<Longrightarrow> contents q = x # xs \<Longrightarrow> \<exists>q'. pop q = Some (x, q') \<and> inv q' \<and> contents q' = xs"
    and pop_empty: "inv q \<Longrightarrow> contents q = [] \<Longrightarrow> pop q = None"
begin

lemma push_Some: "inv q \<Longrightarrow> push x q = Some q' \<Longrightarrow> inv q' \<and> contents q' = contents q @ [x]"
  using push [of q x] by auto

lemma pop_Some: "inv q \<Longrightarrow> pop q = Some (x, q') \<Longrightarrow> inv q' \<and> contents q = x # contents q'"
  using pop [of q] pop_empty [of q] by (cases "contents q") fastforce+

lemma pop_nonempty: "inv q \<Longrightarrow> contents q \<noteq> [] \<Longrightarrow> \<exists>q'. pop q = Some (hd (contents q), q')"
  using pop [of q "hd (contents q)" "tl (contents q)"] by auto

end

interpretation cl: list_queue list_push list_pop elements list_inv
proof
  fix q :: "'a chan_list" and x xs
  assume "list_inv q"
  then obtain "is" where ok: "list_ok is q" by (auto simp: list_inv_def)
  show "\<exists>q'. list_push x q = Some q' \<and> list_inv q' \<and> elements q' = elements q @ [x]"
    using list_push_ok [OF ok, of x] by (auto simp: list_inv_def)
  show "\<exists>q'. list_pop q = Some (x, q') \<and> list_inv q' \<and> elements q' = xs" if "elements q = x # xs"
    using list_pop_ok [of "hd is" "tl is" q] ok elements_ok [OF ok] that
    by (cases "is") (auto simp: list_inv_def)
  show "list_pop q = None" if "elements q = []"
    using list_pop_empty [of q] ok elements_ok [OF ok] that by auto
qed

lemma chan_list_new_ok: "list_inv chan_list_new" "elements chan_list_new = []"
  using elements_ok [of "[]" chan_list_new] by (auto simp: list_inv_def list_ok_def chan_list_new_def intro: exI [of _ "[]"])

lemma is_empty_elements: "list_inv l \<Longrightarrow> (cl_head l = None) = (elements l = [])"
proof -
  assume "list_inv l"
  then obtain "is" where ok: "list_ok is l" by (auto simp: list_inv_def)
  then show ?thesis using elements_ok [OF ok] by (cases "is") (auto simp: list_ok_def)
qed

text \<open>A run of pushes (\<open>Some\<close>) and, while the list is not empty, pops (\<open>None\<close>).\<close>

fun list_run :: "'a option list \<Rightarrow> 'a chan_list \<Rightarrow> ('a list \<times> 'a chan_list) option" where
  "list_run [] l = Some ([], l)"
| "list_run (Some t # ops) l = do { l \<leftarrow> list_push t l; list_run ops l }"
| "list_run (None # ops) l =
     (if cl_head l = None then list_run ops l
      else do { (t, l) \<leftarrow> list_pop l; (ts, l) \<leftarrow> list_run ops l; Some (t # ts, l) })"

lemma list_run_ok:
  assumes "list_inv l"
  shows "\<exists>outs r. list_run ops l = Some (outs, r) \<and> list_inv r \<and>
    elements l @ List.map_filter (\<lambda>t. t) ops = outs @ elements r"
  using assms
proof (induction ops arbitrary: l)
  case Nil
  then show ?case by (simp add: List.map_filter_def)
next
  case (Cons op ops)
  show ?case
  proof (cases op)
    case (Some t)
    obtain l' where l': "list_push t l = Some l'" "list_inv l'" "elements l' = elements l @ [t]"
      using cl.push [OF Cons.prems] by blast
    from Cons.IH [OF l'(2)] l' Some show ?thesis by (auto simp: List.map_filter_def)
  next
    case None
    show ?thesis
    proof (cases "elements l")
      case Nil
      with Cons.IH [OF Cons.prems] None is_empty_elements [OF Cons.prems] show ?thesis
        by (auto simp: List.map_filter_def)
    next
      case (Cons t ts)
      obtain l' where l': "list_pop l = Some (t, l')" "list_inv l'" "elements l' = ts"
        using cl.pop [OF Cons.prems Cons] by blast
      from Cons.IH [OF l'(2)] obtain outs r where "list_run ops l' = Some (outs, r)" "list_inv r"
        "elements l' @ List.map_filter (\<lambda>t. t) ops = outs @ elements r" by blast
      moreover obtain y where "cl_head l = Some y" using Cons is_empty_elements [OF Cons.prems] by auto
      ultimately show ?thesis using l' Cons None
        by (intro exI [of _ "t # outs"] exI [of _ r]) (simp add: List.map_filter_def)
    qed
  qed
qed

text \<open>The channels' linked list is memory-safe and first-in first-out: no run of pushes and pops
  follows a null or freed node, what was pushed is what was popped followed by what is left, in
  order, and destroying the list frees every node that is left.\<close>

theorem chan_list_safe:
  "\<exists>outs l l'. list_run ops chan_list_new = Some (outs, l) \<and>
    List.map_filter (\<lambda>t. t) ops = outs @ elements l \<and> card (dom (cl_nodes l)) = length (elements l) \<and>
    list_delete l = Some l' \<and> cl_nodes l' = (\<lambda>_. None)"
proof -
  obtain outs l where l: "list_run ops chan_list_new = Some (outs, l)" "list_inv l"
    "elements chan_list_new @ List.map_filter (\<lambda>t. t) ops = outs @ elements l"
    using list_run_ok [OF chan_list_new_ok(1), of ops] by blast
  then obtain "is" where ok: "list_ok is l" by (auto simp: list_inv_def)
  have "card (dom (cl_nodes l)) = length (elements l)"
    using ok elements_ok [OF ok] by (simp add: list_ok_def distinct_card)
  with l list_delete_ok [OF ok] show ?thesis by (simp add: chan_list_new_ok(2))
qed

end
