(* ===== verification/Bounded_Channel.thy ===== *)
theory Bounded_Channel
  imports Fiber_Monitor Channel_List
begin

text \<open>
  \<open>bounded_channel\<close> (\<open>fiber/bounded_channel.hpp\<close>) as a client of the monitor: the data under
  \<open>mtx_\<close> is the state, the count, the linked list and the two watermarks; the condition variables
  are \<open>not_empty_cond_\<close> (0) and \<open>not_full_cond_\<close> (1). A call that follows a bad pointer or fails
  an assertion has the result \<open>Broken\<close>. The node of a pushed value is allocated where it is linked.
\<close>

datatype channel_op_status = op_success | op_empty | op_full | op_closed | op_timeout

datatype 'a channel_result = Void | Status channel_op_status | Popped 'a | Threw fiber_errc | Broken

definition not_empty_cond :: nat where "not_empty_cond = 0"
definition not_full_cond :: nat where "not_full_cond = 1"

datatype queue_status = q_open | q_closed

record 'a bounded_channel =
  bc_state :: queue_status
  bc_count :: int
  bc_list :: "'a chan_list"
  bc_hwm :: int
  bc_lwm :: int

definition bounded_channel_new :: "int \<Rightarrow> int \<Rightarrow> fiber_errc + 'a bounded_channel" where
  "bounded_channel_new hwm lwm =
     (if hwm \<le> lwm then Inl invalid_argument
      else if hwm = 0 then Inl invalid_argument
      else Inr \<lparr>bc_state = q_open, bc_count = 0, bc_list = chan_list_new, bc_hwm = hwm, bc_lwm = lwm\<rparr>)"

definition bounded_channel_new1 :: "int \<Rightarrow> fiber_errc + 'a bounded_channel" where
  "bounded_channel_new1 wm =
     (if wm = 0 then Inl invalid_argument
      else Inr \<lparr>bc_state = q_open, bc_count = 0, bc_list = chan_list_new, bc_hwm = wm, bc_lwm = u64 (wm - 1)\<rparr>)"

definition bc_upper_bound :: "'a bounded_channel \<Rightarrow> int" where
  "bc_upper_bound d = bc_hwm d"

definition bc_lower_bound :: "'a bounded_channel \<Rightarrow> int" where
  "bc_lower_bound d = bc_lwm d"

definition bc_is_closed :: "'a bounded_channel \<Rightarrow> bool" where
  "bc_is_closed d = (q_closed = bc_state d)"

definition bc_size :: "'a bounded_channel \<Rightarrow> int" where
  "bc_size d = bc_count d"

definition bc_is_empty :: "'a bounded_channel \<Rightarrow> bool" where
  "bc_is_empty d = (cl_head (bc_list d) = None)"

definition bc_is_full :: "'a bounded_channel \<Rightarrow> bool" where
  "bc_is_full d = (bc_hwm d \<le> bc_count d)"

subsection \<open>The critical sections\<close>

text \<open>The operations; each that can wait has a second entry, after a wait.\<close>

datatype 'a bc_op =
    Close
  | Push 'a | Push_waited 'a
  | Try_push 'a
  | Push_until 'a | Push_until_waited 'a
  | Pop | Pop_waited
  | Value_pop | Value_pop_waited
  | Try_pop
  | Pop_until | Pop_until_waited

type_synonym 'a bc_section = "'a bounded_channel \<times> ('a bc_op, 'a channel_result) verdict"

definition bc_close :: "'a bounded_channel \<Rightarrow> 'a bc_section" where
  "bc_close d = (d\<lparr>bc_state := q_closed\<rparr>, Leave [Notify_all not_empty_cond, Notify_all not_full_cond] Void)"

definition bc_push_tail :: "'a \<Rightarrow> 'a bounded_channel \<Rightarrow> 'a bounded_channel option" where
  "bc_push_tail va d = do {
     l \<leftarrow> list_push va (bc_list d);
     Some (d\<lparr>bc_list := l, bc_count := u64 (bc_count d + 1)\<rparr>)
   }"

definition bc_push_and_notify :: "'a \<Rightarrow> 'a bounded_channel \<Rightarrow> 'a bc_section" where
  "bc_push_and_notify va d =
     (case bc_push_tail va d of
        None \<Rightarrow> (d, Leave [] Broken)
      | Some d \<Rightarrow> (d, Leave [Notify_one not_empty_cond] (Status op_success)))"

text \<open>\<open>not_full_cond_.wait\<close> with its predicate, and what follows.\<close>

definition bc_push_wait :: "'a \<Rightarrow> 'a bounded_channel \<Rightarrow> 'a bc_section" where
  "bc_push_wait va d =
     (if \<not> bc_is_full d then bc_push_and_notify va d
      else (d, Wait_on not_full_cond False (Push_waited va)))"

definition bc_push :: "'a \<Rightarrow> 'a bounded_channel \<Rightarrow> 'a bc_section" where
  "bc_push va d =
     (if bc_is_closed d then (d, Leave [] (Status op_closed)) else bc_push_wait va d)"

definition bc_try_push :: "'a \<Rightarrow> 'a bounded_channel \<Rightarrow> 'a bc_section" where
  "bc_try_push va d =
     (if bc_is_closed d then (d, Leave [] (Status op_closed))
      else if bc_is_full d then (d, Leave [] (Status op_full))
      else bc_push_and_notify va d)"

definition bc_push_until_wait :: "'a \<Rightarrow> cv_status \<Rightarrow> 'a bounded_channel \<Rightarrow> 'a bc_section" where
  "bc_push_until_wait va status d =
     (if \<not> bc_is_full d then bc_push_and_notify va d
      else if status = timeout then (d, Leave [] (Status op_timeout))
      else (d, Wait_on not_full_cond True (Push_until_waited va)))"

definition bc_push_until :: "'a \<Rightarrow> 'a bounded_channel \<Rightarrow> 'a bc_section" where
  "bc_push_until va d =
     (if bc_is_closed d then (d, Leave [] (Status op_closed))
      else bc_push_until_wait va no_timeout d)"

definition bc_pop_head :: "'a bounded_channel \<Rightarrow> ('a \<times> 'a bounded_channel) option" where
  "bc_pop_head d = do {
     (va, l) \<leftarrow> list_pop (bc_list d);
     Some (va, d\<lparr>bc_list := l, bc_count := u64 (bc_count d - 1)\<rparr>)
   }"

text \<open>\<open>value_pop_\<close>, with the assertion that the channel is not empty.\<close>

definition bc_value_pop :: "'a bounded_channel \<Rightarrow> 'a bc_section" where
  "bc_value_pop d =
     (if bc_is_empty d then (d, Leave [] Broken)
      else case bc_pop_head d of
          None \<Rightarrow> (d, Leave [] Broken)
        | Some (va, d) \<Rightarrow>
            (d, Leave
               (if bc_size d \<le> bc_lwm d
                then if bc_lwm d = bc_hwm d then [Notify_one not_full_cond] else [Notify_all not_full_cond]
                else []) (Popped va)))"

definition bc_pop_wait :: "'a bounded_channel \<Rightarrow> 'a bc_section" where
  "bc_pop_wait d =
     (if bc_is_closed d \<or> \<not> bc_is_empty d
      then if bc_is_closed d \<and> bc_is_empty d then (d, Leave [] (Status op_closed)) else bc_value_pop d
      else (d, Wait_on not_empty_cond False Pop_waited))"

definition bc_value_pop_wait :: "'a bounded_channel \<Rightarrow> 'a bc_section" where
  "bc_value_pop_wait d =
     (if bc_is_closed d \<or> \<not> bc_is_empty d
      then if bc_is_closed d \<and> bc_is_empty d then (d, Leave [] (Threw operation_not_permitted))
           else bc_value_pop d
      else (d, Wait_on not_empty_cond False Value_pop_waited))"

text \<open>\<open>try_pop\<close> yields before it returns empty-handed.\<close>

definition bc_try_pop :: "'a bounded_channel \<Rightarrow> 'a bc_section" where
  "bc_try_pop d =
     (if bc_is_closed d \<and> bc_is_empty d then (d, Leave [] (Status op_closed))
      else if bc_is_empty d then (d, Leave [] (Status op_empty))
      else bc_value_pop d)"

definition bc_pop_until_wait :: "cv_status \<Rightarrow> 'a bounded_channel \<Rightarrow> 'a bc_section" where
  "bc_pop_until_wait status d =
     (if bc_is_closed d \<or> \<not> bc_is_empty d
      then if bc_is_closed d \<and> bc_is_empty d then (d, Leave [] (Status op_closed)) else bc_value_pop d
      else if status = timeout then (d, Leave [] (Status op_timeout))
      else (d, Wait_on not_empty_cond True Pop_until_waited))"

fun bc_body :: "'a bc_op \<Rightarrow> cv_status \<Rightarrow> 'a bounded_channel \<Rightarrow> 'a bc_section" where
  "bc_body Close status d = bc_close d"
| "bc_body (Push va) status d = bc_push va d"
| "bc_body (Push_waited va) status d = bc_push_wait va d"
| "bc_body (Try_push va) status d = bc_try_push va d"
| "bc_body (Push_until va) status d = bc_push_until va d"
| "bc_body (Push_until_waited va) status d = bc_push_until_wait va status d"
| "bc_body Pop status d = bc_pop_wait d"
| "bc_body Pop_waited status d = bc_pop_wait d"
| "bc_body Value_pop status d = bc_value_pop_wait d"
| "bc_body Value_pop_waited status d = bc_value_pop_wait d"
| "bc_body Try_pop status d = bc_try_pop d"
| "bc_body Pop_until status d = bc_pop_until_wait no_timeout d"
| "bc_body Pop_until_waited status d = bc_pop_until_wait status d"

text \<open>The public pushes make the node before they lock the mutex; when the copy or move of the value
  throws there is no operation.\<close>

definition bounded_channel_push ::
  "('a \<Rightarrow> 'a option) \<Rightarrow> 'a \<Rightarrow> nat \<Rightarrow> 'a bc_op option \<times> nat" where
  "bounded_channel_push copy va live =
     (let (t, live) = node_construct copy va live in (map_option Push t, live))"

definition bounded_channel_push_move ::
  "('a \<Rightarrow> 'a option) \<Rightarrow> 'a \<Rightarrow> nat \<Rightarrow> 'a bc_op option \<times> nat" where
  "bounded_channel_push_move move va live =
     (let (t, live) = node_construct move va live in (map_option Push t, live))"

definition bounded_channel_push_wait_until ::
  "('a \<Rightarrow> 'a option) \<Rightarrow> 'a \<Rightarrow> nat \<Rightarrow> 'a bc_op option \<times> nat" where
  "bounded_channel_push_wait_until copy va live =
     (let (t, live) = node_construct copy va live in (map_option Push_until t, live))"

definition bounded_channel_push_wait_until_move ::
  "('a \<Rightarrow> 'a option) \<Rightarrow> 'a \<Rightarrow> nat \<Rightarrow> 'a bc_op option \<times> nat" where
  "bounded_channel_push_wait_until_move move va live =
     (let (t, live) = node_construct move va live in (map_option Push_until t, live))"

definition bounded_channel_try_push ::
  "('a \<Rightarrow> 'a option) \<Rightarrow> 'a \<Rightarrow> nat \<Rightarrow> 'a bc_op option \<times> nat" where
  "bounded_channel_try_push copy va live =
     (let (t, live) = node_construct copy va live in (map_option Try_push t, live))"

definition bounded_channel_try_push_move ::
  "('a \<Rightarrow> 'a option) \<Rightarrow> 'a \<Rightarrow> nat \<Rightarrow> 'a bc_op option \<times> nat" where
  "bounded_channel_try_push_move move va live =
     (let (t, live) = node_construct move va live in (map_option Try_push t, live))"

subsection \<open>What went in and what came out\<close>

fun op_value :: "'a bc_op \<Rightarrow> 'a list" where
  "op_value (Push va) = [va]"
| "op_value (Push_waited va) = [va]"
| "op_value (Try_push va) = [va]"
| "op_value (Push_until va) = [va]"
| "op_value (Push_until_waited va) = [va]"
| "op_value _ = []"

definition bc_pushed :: "('a bc_op \<times> 'a channel_result) list \<Rightarrow> 'a list" where
  "bc_pushed log = concat (map (\<lambda>(op, r). case r of Status op_success \<Rightarrow> op_value op | _ \<Rightarrow> []) log)"

definition bc_popped :: "('o \<times> 'a channel_result) list \<Rightarrow> 'a list" where
  "bc_popped log = concat (map (\<lambda>(op, r). case r of Popped va \<Rightarrow> [va] | _ \<Rightarrow> []) log)"

lemma bc_popped_simps [simp]:
  "bc_popped [] = []"
  "bc_popped (log @ [(op, r)]) = bc_popped log @ (case r of Popped va \<Rightarrow> [va] | _ \<Rightarrow> [])"
  by (simp_all add: bc_popped_def)

lemma bc_pushed_simps [simp]:
  "bc_pushed [] = []"
  "bc_pushed (log @ [(op, r)]) = bc_pushed log @ (case r of Status op_success \<Rightarrow> op_value op | _ \<Rightarrow> [])"
  by (simp_all add: bc_pushed_def)

definition bc_good :: "int \<Rightarrow> int \<Rightarrow> 'a bounded_channel \<Rightarrow> ('a bc_op \<times> 'a channel_result) list \<Rightarrow> bool" where
  "bc_good hwm lwm d log \<longleftrightarrow>
     bc_hwm d = hwm \<and> bc_lwm d = lwm \<and> list_inv (bc_list d) \<and>
     bc_count d = int (length (elements (bc_list d))) \<and> bc_count d \<le> hwm \<and>
     bc_pushed log = bc_popped log @ elements (bc_list d) \<and> Broken \<notin> snd ` set log"

text \<open>The two ways the data changes.\<close>

lemma bc_push_and_notify_good:
  assumes g: "bc_good hwm lwm d log" and w: "0 \<le> lwm" "hwm < 2 ^ 64" and f: "\<not> bc_is_full d" and v: "op_value op = [va]"
  shows "\<exists>d'. bc_push_and_notify va d = (d', Leave [Notify_one not_empty_cond] (Status op_success)) \<and>
    bc_good hwm lwm d' (log @ [(op, Status op_success)]) \<and> bc_state d' = bc_state d \<and>
    bc_count d' = bc_count d + 1 \<and> bc_hwm d' = hwm \<and> bc_lwm d' = lwm"
proof -
  have d: "list_inv (bc_list d)" "0 \<le> bc_count d" "bc_count d < hwm" "bc_hwm d = hwm"
    using g f by (auto simp: bc_good_def bc_is_full_def)
  obtain l where l: "list_push va (bc_list d) = Some l" "list_inv l" "elements l = elements (bc_list d) @ [va]"
    using cl.push [OF d(1)] by blast
  have "u64 (bc_count d + 1) = bc_count d + 1" using d w by (intro u64_id) auto
  with l g d v show ?thesis
    by (auto simp: bc_push_and_notify_def bc_push_tail_def bc_good_def)
qed

lemma bc_value_pop_good:
  assumes g: "bc_good hwm lwm d log" and w: "0 \<le> lwm" "lwm < hwm" "hwm < 2 ^ 64" and e: "\<not> bc_is_empty d"
  shows "\<exists>va d'. bc_value_pop d =
      (d', Leave (if bc_count d' \<le> lwm then [Notify_all not_full_cond] else []) (Popped va)) \<and>
    bc_good hwm lwm d' (log @ [(op, Popped va)]) \<and> bc_state d' = bc_state d \<and>
    bc_count d' = bc_count d - 1 \<and> bc_hwm d' = hwm \<and> bc_lwm d' = lwm"
proof -
  have d: "list_inv (bc_list d)" "bc_count d \<le> hwm" "bc_count d = int (length (elements (bc_list d)))"
    using g by (auto simp: bc_good_def)
  obtain va vs where vs: "elements (bc_list d) = va # vs"
    using e is_empty_elements [OF d(1)] by (cases "elements (bc_list d)") (auto simp: bc_is_empty_def)
  obtain l where l: "list_pop (bc_list d) = Some (va, l)" "list_inv l" "elements l = vs"
    using cl.pop [OF d(1) vs] by blast
  have "u64 (bc_count d - 1) = bc_count d - 1" using d w vs by (intro u64_id) auto
  with l g d vs w e show ?thesis
    by (auto simp: bc_value_pop_def bc_pop_head_def bc_good_def bc_size_def)
qed

text \<open>What a critical section can be.\<close>

fun pop_waited :: "'a bc_op \<Rightarrow> bool" where
  "pop_waited Pop_waited = True"
| "pop_waited Value_pop_waited = True"
| "pop_waited Pop_until_waited = True"
| "pop_waited _ = False"

definition is_pop :: "'a bc_op \<Rightarrow> bool" where
  "is_pop op \<longleftrightarrow> op \<in> {Pop, Pop_waited, Value_pop, Value_pop_waited, Try_pop, Pop_until, Pop_until_waited}"

definition refused :: "'a channel_result \<Rightarrow> bool" where
  "refused r \<longleftrightarrow> r \<in> {Status op_closed, Status op_full, Status op_empty, Status op_timeout, Threw operation_not_permitted}"

definition bc_outcome :: "'a bc_op \<Rightarrow> 'a bounded_channel \<Rightarrow> 'a bc_section \<Rightarrow> bool" where
  "bc_outcome op d x \<longleftrightarrow>
     (\<exists>r. x = (d, Leave [] r) \<and> refused r \<and> (is_pop op \<longrightarrow> bc_is_empty d)) \<or>
     op = Close \<and> x = bc_close d \<or>
     (\<exists>va. op_value op = [va] \<and> \<not> bc_is_full d \<and> x = bc_push_and_notify va d \<and> \<not> is_pop op) \<or>
     is_pop op \<and> \<not> bc_is_empty d \<and> x = bc_value_pop d \<or>
     (\<exists>b op'. bc_is_full d \<and> x = (d, Wait_on not_full_cond b op') \<and> \<not> is_pop op) \<or>
     (\<exists>b op'. bc_is_empty d \<and> \<not> bc_is_closed d \<and> x = (d, Wait_on not_empty_cond b op') \<and>
        pop_waited op' \<and> is_pop op)"

lemma bc_body_outcome: "bc_outcome op d (bc_body op st d)"
  by (cases op)
    (auto simp: bc_outcome_def bc_push_def bc_push_wait_def bc_try_push_def bc_push_until_def
      bc_push_until_wait_def bc_pop_wait_def bc_value_pop_wait_def bc_try_pop_def bc_pop_until_wait_def
      is_pop_def refused_def)

lemma bc_body_cases:
  obtains
    (refuse) r where "bc_body op st d = (d, Leave [] r)" "refused r" "is_pop op \<longrightarrow> bc_is_empty d"
  | (close) "op = Close" "bc_body op st d = bc_close d"
  | (push) va where "op_value op = [va]" "\<not> bc_is_full d" "bc_body op st d = bc_push_and_notify va d" "\<not> is_pop op"
  | (pop) "is_pop op" "\<not> bc_is_empty d" "bc_body op st d = bc_value_pop d"
  | (full) b op' where "bc_is_full d" "bc_body op st d = (d, Wait_on not_full_cond b op')" "\<not> is_pop op"
  | (empty) b op' where "bc_is_empty d" "\<not> bc_is_closed d" "bc_body op st d = (d, Wait_on not_empty_cond b op')"
      "pop_waited op'" "is_pop op"
  using bc_body_outcome [of op d st] unfolding bc_outcome_def by blast

lemma pop_waited_is_pop: "pop_waited op \<Longrightarrow> is_pop op"
  by (cases op) (auto simp: is_pop_def)

lemma is_pop_value: "is_pop op \<Longrightarrow> op_value op = []"
  by (auto simp: is_pop_def)

definition wm_ok :: "int \<Rightarrow> int \<Rightarrow> bool" where
  "wm_ok hwm lwm \<longleftrightarrow> 0 \<le> lwm \<and> lwm < hwm \<and> hwm < 2 ^ 64"

definition bc_new :: "int \<Rightarrow> int \<Rightarrow> 'a bounded_channel" where
  "bc_new hwm lwm = \<lparr>bc_state = q_open, bc_count = 0, bc_list = chan_list_new, bc_hwm = hwm, bc_lwm = lwm\<rparr>"

lemma bounded_channel_new_eq: "wm_ok hwm lwm \<Longrightarrow> bounded_channel_new hwm lwm = Inr (bc_new hwm lwm)"
  by (auto simp: wm_ok_def bounded_channel_new_def bc_new_def)

lemma bc_good_new: "wm_ok hwm lwm \<Longrightarrow> bc_good hwm lwm (bc_new hwm lwm) []"
  by (simp add: wm_ok_def bc_good_def bc_new_def chan_list_new_ok)

text \<open>The sections that change the channel end by leaving.\<close>

lemma bc_wait_only:
  assumes "bc_body op st d = (d', Wait_on k b' op')"
  shows "d' = d \<and> (k = not_full_cond \<and> bc_is_full d \<and> \<not> is_pop op \<or>
    k = not_empty_cond \<and> bc_is_empty d \<and> pop_waited op')"
  using assms
  by (cases rule: bc_body_cases [of op st d])
    (auto simp: bc_close_def bc_push_and_notify_def bc_value_pop_def split: option.splits prod.splits if_splits)

lemma bc_leave:
  assumes w: "wm_ok hwm lwm" and g: "bc_good hwm lwm d log" and b: "bc_body op st d = (d', Leave ns r)"
  shows "bc_good hwm lwm d' (log @ [(op, r)]) \<and>
    (d' = d \<and> ns = [] \<and> (is_pop op \<longrightarrow> bc_is_empty d) \<or>
     bc_count d' = bc_count d \<and> ns = [Notify_all not_empty_cond, Notify_all not_full_cond] \<or>
     bc_count d' = bc_count d + 1 \<and> ns = [Notify_one not_empty_cond] \<and> \<not> is_pop op \<or>
     bc_count d' = bc_count d - 1 \<and> is_pop op \<and> (lwm < bc_count d' \<or> ns = [Notify_all not_full_cond]))"
proof -
  have wm: "0 \<le> lwm" "lwm < hwm" "hwm < 2 ^ 64" using w by (auto simp: wm_ok_def)
  show ?thesis
  proof (cases rule: bc_body_cases [of op st d])
    case (refuse r')
    with g b show ?thesis by (auto simp: bc_good_def refused_def)
  next
    case close
    with g b show ?thesis by (auto simp: bc_good_def bc_close_def)
  next
    case (push va)
    with bc_push_and_notify_good [OF g wm(1,3) push(2,1)] b show ?thesis by auto
  next
    case pop
    with bc_value_pop_good [OF g wm pop(2), of op] b show ?thesis by (auto split: if_splits)
  qed (use b in auto)
qed

lemma bc_empty_count: "bc_good hwm lwm d log \<Longrightarrow> bc_is_empty d \<Longrightarrow> bc_count d = 0"
  using is_empty_elements [of "bc_list d"] by (simp add: bc_good_def bc_is_empty_def)

interpretation bc: monitor_client bc_body "bc_new hwm lwm" "\<lambda>d log. wm_ok hwm lwm \<longrightarrow> bc_good hwm lwm d log"
  for hwm lwm
  using bc_good_new bc_leave bc_wait_only by unfold_locales blast+

text \<open>Producers sleep while the channel is above its low watermark.\<close>

interpretation producers: broadcast bc_body "bc_new hwm lwm"
  "\<lambda>d log. wm_ok hwm lwm \<longrightarrow> bc_good hwm lwm d log" not_full_cond "\<lambda>d. wm_ok hwm lwm \<longrightarrow> lwm < bc_count d"
  for hwm lwm
proof
  fix d d' :: "'a bounded_channel" and log op st b op' j ns r
  assume g: "wm_ok hwm lwm \<longrightarrow> bc_good hwm lwm d log"
  show "wm_ok hwm lwm \<longrightarrow> lwm < bc_count d'" if "bc_body op st d = (d', Wait_on not_full_cond b op')"
    using bc_wait_only [OF that] g by (auto simp: bc_is_full_def bc_good_def wm_ok_def not_full_cond_def not_empty_cond_def)
  show "wm_ok hwm lwm \<longrightarrow> lwm < bc_count d'"
    if "bc_body op st d = (d', Wait_on j b op')" "wm_ok hwm lwm \<longrightarrow> lwm < bc_count d"
    using bc_wait_only [OF that(1)] that(2) by simp
  show "(wm_ok hwm lwm \<longrightarrow> lwm < bc_count d') \<or> Notify_all not_full_cond \<in> set ns"
    if "bc_body op st d = (d', Leave ns r)" "wm_ok hwm lwm \<longrightarrow> lwm < bc_count d"
    using bc_leave [OF _ _ that(1)] that(2) g by fastforce
qed

text \<open>Consumers sleep while there are no values beyond those for the fibers on the way.\<close>

interpretation consumers: handover bc_body "bc_new hwm lwm"
  "\<lambda>d log. wm_ok hwm lwm \<longrightarrow> bc_good hwm lwm d log" not_empty_cond
  "\<lambda>d. if wm_ok hwm lwm then nat (bc_count d) else 0" pop_waited
  for hwm lwm
proof
  fix d d' :: "'a bounded_channel" and log op st b op' j ns r
  assume g: "wm_ok hwm lwm \<longrightarrow> bc_good hwm lwm d log"
  show "(if wm_ok hwm lwm then nat (bc_count d') else 0) = 0 \<and> pop_waited op'"
    if "bc_body op st d = (d', Wait_on not_empty_cond b op')"
    using bc_wait_only [OF that] bc_empty_count [of hwm lwm d log] g
    by (auto simp: not_full_cond_def not_empty_cond_def)
  show "(if wm_ok hwm lwm then nat (bc_count d') else 0) \<le> (if wm_ok hwm lwm then nat (bc_count d) else 0) \<and>
      \<not> pop_waited op"
    if "bc_body op st d = (d', Wait_on j b op')" "j \<noteq> not_empty_cond"
    using bc_wait_only [OF that(1)] that(2) pop_waited_is_pop [of op] by auto
  show "Notify_all not_empty_cond \<in> set ns \<or>
      (if wm_ok hwm lwm then nat (bc_count d') else 0)
        \<le> (if wm_ok hwm lwm then nat (bc_count d) else 0) + ones not_empty_cond ns - of_bool (pop_waited op)"
    if b: "bc_body op st d = (d', Leave ns r)"
  proof (cases "wm_ok hwm lwm")
    case True
    with g have G: "bc_good hwm lwm d log" by simp
    from bc_leave [OF True G b] bc_empty_count [OF G] pop_waited_is_pop [of op] True show ?thesis
      by (auto split: if_splits)
  qed simp
qed

subsection \<open>Properties\<close>

text \<open>A consumer sleeps, a producer fills a channel of two values and another one has to wait.\<close>

definition bc_crowded :: "nat bc_op event list" where
  "bc_crowded = enters 3 Pop @ enters 1 (Push 10) @ enters 2 (Push 20) @ enters 4 (Push 30)"

lemma bc_crowded_run:
  "mrun bc_body bc_crowded (monitor_new (bc_new 2 0)) \<noteq> None" "wm_ok 2 0"
  "elements (bc_list (mo_data (mafter bc_body (bc_new 2 0) bc_crowded))) = [10, 20]"
  "bc_popped (mo_log (mafter bc_body (bc_new 2 0) bc_crowded)) = []"
  "mo_cond (mafter bc_body (bc_new 2 0) bc_crowded) not_empty_cond = [3]"
  "mo_cond (mafter bc_body (bc_new 2 0) bc_crowded) not_full_cond = [4]"
  by code_simp+

text \<open>C27: A bounded channel is first-in first-out and bounded, whatever fibers on whatever threads
  call, wait, are notified, time out and close it: the values of the pushes that succeeded, in
  the order in which they did, are the values popped followed by the values in the channel;
  there are never more of these than the high watermark; \<open>count_\<close> is their number; and no call
  follows a bad pointer or fails an assertion.\<close>

theorem bounded_channel_fifo:
  assumes "wm_ok hwm lwm" "mreach bc_body (bc_new hwm lwm) s"
  shows "bc_pushed (mo_log s) = bc_popped (mo_log s) @ elements (bc_list (mo_data s)) \<and>
    bc_count (mo_data s) = int (length (elements (bc_list (mo_data s)))) \<and> bc_count (mo_data s) \<le> hwm \<and>
    Broken \<notin> snd ` set (mo_log s)"
  using bc.always_good [OF assms(2)] assms(1) by (simp add: bc_good_def)

lemma bounded_channel_fifo_witness:
  "bc_pushed (mo_log (mafter bc_body (bc_new 2 0) bc_crowded)) = [10, 20]"
  using bounded_channel_fifo [OF bc_crowded_run(2) mafter_reach [OF bc_crowded_run(1)]] bc_crowded_run(3,4)
  by simp

text \<open>C28: No wake-up is lost. While a consumer sleeps there are no more values in the channel than
  notifications under way and woken consumers that will take them, unless all sleepers are about
  to be woken; and while a producer sleeps the channel is above its low watermark, unless all
  sleepers are about to be woken.\<close>

theorem bounded_channel_no_lost_wakeup:
  assumes "wm_ok hwm lwm" "mreach bc_body (bc_new hwm lwm) s"
  shows "(mo_cond s not_empty_cond = [] \<or> will_wake_all not_empty_cond s \<or>
      nat (bc_count (mo_data s)) \<le> tokens not_empty_cond pop_waited s) \<and>
    (mo_cond s not_full_cond = [] \<or> will_wake_all not_full_cond s \<or> lwm < bc_count (mo_data s))"
proof -
  have "mo_cond s not_empty_cond = [] \<or> will_wake_all not_empty_cond s \<or>
      (if wm_ok hwm lwm then nat (bc_count (mo_data s)) else 0) \<le> tokens not_empty_cond pop_waited s"
    using consumers.sleepers_served [OF assms(2)] unfolding consumers.enough_def by blast
  with producers.sleepers_blocked [OF assms(2)] assms(1) show ?thesis by auto
qed

lemma bounded_channel_no_lost_wakeup_witness:
  "will_wake_all not_empty_cond (mafter bc_body (bc_new 2 0) bc_crowded) \<or>
    2 \<le> tokens not_empty_cond pop_waited (mafter bc_body (bc_new 2 0) bc_crowded)"
proof -
  have "bc_count (mo_data (mafter bc_body (bc_new 2 0) bc_crowded)) = 2" by code_simp
  with bounded_channel_no_lost_wakeup [OF bc_crowded_run(2) mafter_reach [OF bc_crowded_run(1)]] bc_crowded_run(5)
  show ?thesis by simp
qed

text \<open>The channel is full and a producer waits when it is closed; later it is popped from.\<close>

definition bc_stranded :: "nat bc_op event list" where
  "bc_stranded = enters 1 (Push 10) @ [Notify 1, Notify 1] @ enters 2 (Push 20) @
     enters 3 Close @ [Notify 3, Notify 3, Notify 3] @ goes_on 2"

definition bc_pushed_late :: "nat bc_op event list" where
  "bc_pushed_late = bc_stranded @ enters 3 Pop @ [Notify 3, Notify 3] @ goes_on 2"

text \<open>Closing a full channel strands its producers: \<open>push_\<close> does not look at the state again
  after a wait. The producer that waits when the channel is closed goes back to sleep, with the
  channel closed, every other call returned and no notification under way; and when a value is
  popped after all, its push into the closed channel succeeds.\<close>

theorem bounded_close_strands_producer:
  "(let s = mafter bc_body (bc_new 1 0) bc_stranded; t = mafter bc_body (bc_new 1 0) bc_pushed_late
    in mreach bc_body (bc_new 1 0) s \<and> bc_is_closed (mo_data s) \<and>
       mo_pc s 2 = Waiting not_full_cond False (Push_waited 20) \<and>
       mo_pc s 1 = Back (Status op_success) \<and> mo_pc s 3 = Back Void \<and> mo_owner s = None \<and>
       mreach bc_body (bc_new 1 0) t \<and>
       mo_log t = [(Push 10, Status op_success), (Close, Void), (Pop, Popped 10), (Push_waited 20, Status op_success)])"
proof -
  have "mrun bc_body bc_stranded (monitor_new (bc_new 1 0)) \<noteq> None"
    "mrun bc_body bc_pushed_late (monitor_new (bc_new 1 0)) \<noteq> None"
    by code_simp+
  then have r: "mreach bc_body (bc_new 1 0) (mafter bc_body (bc_new 1 0) bc_stranded)"
    "mreach bc_body (bc_new 1 0) (mafter bc_body (bc_new 1 0) bc_pushed_late)"
    by (blast intro: mafter_reach)+
  have "bc_is_closed (mo_data (mafter bc_body (bc_new 1 0) bc_stranded))"
    "mo_pc (mafter bc_body (bc_new 1 0) bc_stranded) 2 = Waiting not_full_cond False (Push_waited 20)"
    "mo_pc (mafter bc_body (bc_new 1 0) bc_stranded) 1 = Back (Status op_success)"
    "mo_pc (mafter bc_body (bc_new 1 0) bc_stranded) 3 = Back Void"
    "mo_owner (mafter bc_body (bc_new 1 0) bc_stranded) = None"
    "mo_log (mafter bc_body (bc_new 1 0) bc_pushed_late) =
       [(Push 10, Status op_success), (Close, Void), (Pop, Popped 10), (Push_waited 20, Status op_success)]"
    by code_simp+
  with r show ?thesis by (simp add: Let_def)
qed

end
