(* ===== verification/Unbounded_Channel.thy ===== *)
theory Unbounded_Channel
  imports Bounded_Channel
begin

text \<open>
  \<open>unbounded_channel\<close> (\<open>fiber/unbounded_channel.hpp\<close>) as a client of the monitor: the state and
  the linked list under \<open>mtx_\<close>, and one condition variable, \<open>not_empty_cond_\<close>.
\<close>

record 'a unbounded_channel =
  uc_state :: queue_status
  uc_list :: "'a chan_list"

definition unbounded_channel_new :: "'a unbounded_channel" where
  "unbounded_channel_new = \<lparr>uc_state = q_open, uc_list = chan_list_new\<rparr>"

definition uc_is_closed :: "'a unbounded_channel \<Rightarrow> bool" where
  "uc_is_closed d = (q_closed = uc_state d)"

definition uc_is_empty :: "'a unbounded_channel \<Rightarrow> bool" where
  "uc_is_empty d = (cl_head (uc_list d) = None)"

datatype 'a uc_op =
    U_close
  | U_push 'a
  | U_pop | U_pop_waited
  | U_value_pop | U_value_pop_waited
  | U_try_pop
  | U_pop_until | U_pop_until_waited

type_synonym 'a uc_section = "'a unbounded_channel \<times> ('a uc_op, 'a channel_result) verdict"

definition uc_close :: "'a unbounded_channel \<Rightarrow> 'a uc_section" where
  "uc_close d = (d\<lparr>uc_state := q_closed\<rparr>, Leave [Notify_all not_empty_cond] Void)"

definition uc_push_tail :: "'a \<Rightarrow> 'a unbounded_channel \<Rightarrow> 'a unbounded_channel option" where
  "uc_push_tail va d = do { l \<leftarrow> list_push va (uc_list d); Some (d\<lparr>uc_list := l\<rparr>) }"

definition uc_push_and_notify :: "'a \<Rightarrow> 'a unbounded_channel \<Rightarrow> 'a uc_section" where
  "uc_push_and_notify va d =
     (case uc_push_tail va d of
        None \<Rightarrow> (d, Leave [] Broken)
      | Some d \<Rightarrow> (d, Leave [Notify_one not_empty_cond] (Status op_success)))"

definition uc_push :: "'a \<Rightarrow> 'a unbounded_channel \<Rightarrow> 'a uc_section" where
  "uc_push va d =
     (if uc_is_closed d then (d, Leave [] (Status op_closed)) else uc_push_and_notify va d)"

definition uc_pop_head :: "'a unbounded_channel \<Rightarrow> ('a \<times> 'a unbounded_channel) option" where
  "uc_pop_head d = do { (va, l) \<leftarrow> list_pop (uc_list d); Some (va, d\<lparr>uc_list := l\<rparr>) }"

definition uc_value_pop :: "'a unbounded_channel \<Rightarrow> 'a uc_section" where
  "uc_value_pop d =
     (if uc_is_empty d then (d, Leave [] Broken)
      else case uc_pop_head d of
          None \<Rightarrow> (d, Leave [] Broken)
        | Some (va, d) \<Rightarrow> (d, Leave [] (Popped va)))"

definition uc_pop_wait :: "'a unbounded_channel \<Rightarrow> 'a uc_section" where
  "uc_pop_wait d =
     (if uc_is_closed d \<or> \<not> uc_is_empty d
      then if uc_is_closed d \<and> uc_is_empty d then (d, Leave [] (Status op_closed)) else uc_value_pop d
      else (d, Wait_on not_empty_cond False U_pop_waited))"

definition uc_value_pop_wait :: "'a unbounded_channel \<Rightarrow> 'a uc_section" where
  "uc_value_pop_wait d =
     (if uc_is_closed d \<or> \<not> uc_is_empty d
      then if uc_is_closed d \<and> uc_is_empty d then (d, Leave [] (Threw operation_not_permitted))
           else uc_value_pop d
      else (d, Wait_on not_empty_cond False U_value_pop_waited))"

definition uc_try_pop :: "'a unbounded_channel \<Rightarrow> 'a uc_section" where
  "uc_try_pop d =
     (if uc_is_closed d \<and> uc_is_empty d then (d, Leave [] (Status op_closed))
      else if uc_is_empty d then (d, Leave [] (Status op_empty))
      else uc_value_pop d)"

definition uc_pop_until_wait :: "cv_status \<Rightarrow> 'a unbounded_channel \<Rightarrow> 'a uc_section" where
  "uc_pop_until_wait status d =
     (if uc_is_closed d \<or> \<not> uc_is_empty d
      then if uc_is_closed d \<and> uc_is_empty d then (d, Leave [] (Status op_closed)) else uc_value_pop d
      else if status = timeout then (d, Leave [] (Status op_timeout))
      else (d, Wait_on not_empty_cond True U_pop_until_waited))"

fun uc_body :: "'a uc_op \<Rightarrow> cv_status \<Rightarrow> 'a unbounded_channel \<Rightarrow> 'a uc_section" where
  "uc_body U_close status d = uc_close d"
| "uc_body (U_push va) status d = uc_push va d"
| "uc_body U_pop status d = uc_pop_wait d"
| "uc_body U_pop_waited status d = uc_pop_wait d"
| "uc_body U_value_pop status d = uc_value_pop_wait d"
| "uc_body U_value_pop_waited status d = uc_value_pop_wait d"
| "uc_body U_try_pop status d = uc_try_pop d"
| "uc_body U_pop_until status d = uc_pop_until_wait no_timeout d"
| "uc_body U_pop_until_waited status d = uc_pop_until_wait status d"

text \<open>The public pushes.\<close>

definition unbounded_channel_push ::
  "('a \<Rightarrow> 'a option) \<Rightarrow> 'a \<Rightarrow> nat \<Rightarrow> 'a uc_op option \<times> nat" where
  "unbounded_channel_push copy va live =
     (let (t, live) = node_construct copy va live in (map_option U_push t, live))"

definition unbounded_channel_push_move ::
  "('a \<Rightarrow> 'a option) \<Rightarrow> 'a \<Rightarrow> nat \<Rightarrow> 'a uc_op option \<times> nat" where
  "unbounded_channel_push_move move va live =
     (let (t, live) = node_construct move va live in (map_option U_push t, live))"

subsection \<open>As a monitor\<close>

definition uc_pushed :: "('a uc_op \<times> 'a channel_result) list \<Rightarrow> 'a list" where
  "uc_pushed log = concat (map (\<lambda>(op, r). case (op, r) of (U_push va, Status op_success) \<Rightarrow> [va] | _ \<Rightarrow> []) log)"

lemma uc_pushed_simps [simp]:
  "uc_pushed [] = []"
  "uc_pushed (log @ [(op, r)]) = uc_pushed log @ (case (op, r) of (U_push va, Status op_success) \<Rightarrow> [va] | _ \<Rightarrow> [])"
  by (simp_all add: uc_pushed_def)

definition uc_good :: "'a unbounded_channel \<Rightarrow> ('a uc_op \<times> 'a channel_result) list \<Rightarrow> bool" where
  "uc_good d log \<longleftrightarrow> list_inv (uc_list d) \<and>
     uc_pushed log = bc_popped log @ elements (uc_list d) \<and> Broken \<notin> snd ` set log"

fun uc_pop_op :: "'a uc_op \<Rightarrow> bool" where
  "uc_pop_op U_close = False"
| "uc_pop_op (U_push va) = False"
| "uc_pop_op _ = True"

fun uc_waited :: "'a uc_op \<Rightarrow> bool" where
  "uc_waited U_pop_waited = True"
| "uc_waited U_value_pop_waited = True"
| "uc_waited U_pop_until_waited = True"
| "uc_waited _ = False"

definition uc_outcome :: "'a uc_op \<Rightarrow> 'a unbounded_channel \<Rightarrow> 'a uc_section \<Rightarrow> bool" where
  "uc_outcome op d x \<longleftrightarrow>
     (\<exists>r. x = (d, Leave [] r) \<and> refused r \<and> (uc_pop_op op \<longrightarrow> uc_is_empty d)) \<or>
     op = U_close \<and> x = uc_close d \<or>
     (\<exists>va. op = U_push va \<and> x = uc_push_and_notify va d) \<or>
     uc_pop_op op \<and> \<not> uc_is_empty d \<and> x = uc_value_pop d \<or>
     (\<exists>b op'. uc_is_empty d \<and> x = (d, Wait_on not_empty_cond b op') \<and> uc_waited op' \<and> uc_pop_op op)"

lemma uc_body_outcome: "uc_outcome op d (uc_body op st d)"
  by (cases op)
    (auto simp: uc_outcome_def uc_push_def uc_pop_wait_def uc_value_pop_wait_def uc_try_pop_def
      uc_pop_until_wait_def refused_def)

lemma uc_body_cases:
  obtains
    (refuse) r where "uc_body op st d = (d, Leave [] r)" "refused r" "uc_pop_op op \<longrightarrow> uc_is_empty d"
  | (close) "op = U_close" "uc_body op st d = uc_close d"
  | (push) va where "op = U_push va" "uc_body op st d = uc_push_and_notify va d"
  | (pop) "uc_pop_op op" "\<not> uc_is_empty d" "uc_body op st d = uc_value_pop d"
  | (empty) b op' where "uc_is_empty d" "uc_body op st d = (d, Wait_on not_empty_cond b op')" "uc_waited op'" "uc_pop_op op"
  using uc_body_outcome [of op d st] unfolding uc_outcome_def by blast

lemma uc_waited_pop: "uc_waited op \<Longrightarrow> uc_pop_op op"
  by (cases op) auto

lemma uc_pop_pushes: "uc_pop_op op \<Longrightarrow> (case (op, r) of (U_push va, Status op_success) \<Rightarrow> [va] | _ \<Rightarrow> []) = []"
  by (cases op) auto

lemma uc_push_good:
  assumes "uc_good d log"
  shows "\<exists>d'. uc_push_and_notify va d = (d', Leave [Notify_one not_empty_cond] (Status op_success)) \<and>
    uc_good d' (log @ [(U_push va, Status op_success)]) \<and>
    length (elements (uc_list d')) = Suc (length (elements (uc_list d)))"
proof -
  have i: "list_inv (uc_list d)" using assms by (simp add: uc_good_def)
  obtain l where l: "list_push va (uc_list d) = Some l" "list_inv l" "elements l = elements (uc_list d) @ [va]"
    using cl.push [OF i] by blast
  have "uc_push_and_notify va d = (d\<lparr>uc_list := l\<rparr>, Leave [Notify_one not_empty_cond] (Status op_success))"
    using l(1) by (simp add: uc_push_and_notify_def uc_push_tail_def)
  moreover have "uc_good (d\<lparr>uc_list := l\<rparr>) (log @ [(U_push va, Status op_success)])"
    using l assms by (simp add: uc_good_def)
  ultimately show ?thesis using l(3) by simp
qed

lemma uc_pop_good:
  assumes g: "uc_good d log" and e: "\<not> uc_is_empty d" "uc_pop_op op"
  shows "\<exists>va d'. uc_value_pop d = (d', Leave [] (Popped va)) \<and> uc_good d' (log @ [(op, Popped va)]) \<and>
    length (elements (uc_list d)) = Suc (length (elements (uc_list d')))"
proof -
  have i: "list_inv (uc_list d)" using g by (simp add: uc_good_def)
  obtain va vs where vs: "elements (uc_list d) = va # vs"
    using e is_empty_elements [OF i] by (cases "elements (uc_list d)") (auto simp: uc_is_empty_def)
  obtain l where "list_pop (uc_list d) = Some (va, l)" "list_inv l" "elements l = vs"
    using cl.pop [OF i vs] by blast
  with g vs e show ?thesis
    by (cases op) (auto simp: uc_value_pop_def uc_pop_head_def uc_good_def)
qed

lemma uc_wait_only:
  assumes "uc_body op st d = (d', Wait_on k b' op')"
  shows "d' = d \<and> k = not_empty_cond \<and> uc_is_empty d \<and> uc_waited op'"
  using assms
  by (cases rule: uc_body_cases [of op st d])
    (auto simp: uc_close_def uc_push_and_notify_def uc_value_pop_def split: option.splits prod.splits if_splits)

lemma uc_leave:
  assumes g: "uc_good d log" and b: "uc_body op st d = (d', Leave ns r)"
  shows "uc_good d' (log @ [(op, r)]) \<and>
    (Notify_all not_empty_cond \<in> set ns \<or>
     length (elements (uc_list d')) \<le> length (elements (uc_list d)) + ones not_empty_cond ns - of_bool (uc_waited op))"
proof (cases rule: uc_body_cases [of op st d])
  case (refuse r')
  have "uc_is_empty d \<Longrightarrow> elements (uc_list d) = []"
    using g is_empty_elements [of "uc_list d"] by (simp add: uc_good_def uc_is_empty_def)
  with refuse g b uc_waited_pop [of op] show ?thesis
    by (auto simp: uc_good_def refused_def split: uc_op.splits channel_op_status.splits)
next
  case close
  with g b show ?thesis by (auto simp: uc_good_def uc_close_def)
next
  case (push va)
  with uc_push_good [OF g, of va] b show ?thesis by auto
next
  case pop
  with uc_pop_good [OF g pop(2,1)] b show ?thesis by auto
qed (use b in auto)

interpretation uc: handover uc_body unbounded_channel_new uc_good not_empty_cond
  "\<lambda>d. length (elements (uc_list d))" uc_waited
proof
  show "uc_good unbounded_channel_new []"
    by (simp add: uc_good_def unbounded_channel_new_def chan_list_new_ok)
next
  fix d d' :: "'a unbounded_channel" and log op st b op' j k ns r
  assume g: "uc_good d log"
  show "uc_good d' (log @ [(op, r)])" if "uc_body op st d = (d', Leave ns r)"
    using uc_leave [OF g that] by simp
  show "uc_good d' log" if "uc_body op st d = (d', Wait_on k b op')"
    using uc_wait_only [OF that] g by simp
  show "length (elements (uc_list d')) = 0 \<and> uc_waited op'"
    if "uc_body op st d = (d', Wait_on not_empty_cond b op')"
    using uc_wait_only [OF that] g is_empty_elements [of "uc_list d"] by (simp add: uc_good_def uc_is_empty_def)
  show "length (elements (uc_list d')) \<le> length (elements (uc_list d)) \<and> \<not> uc_waited op"
    if "uc_body op st d = (d', Wait_on j b op')" "j \<noteq> not_empty_cond"
    using uc_wait_only [OF that(1)] that(2) by simp
  show "Notify_all not_empty_cond \<in> set ns \<or>
      length (elements (uc_list d')) \<le> length (elements (uc_list d)) + ones not_empty_cond ns - of_bool (uc_waited op)"
    if "uc_body op st d = (d', Leave ns r)"
    using uc_leave [OF g that] by simp
qed

text \<open>An unbounded channel is first-in first-out, never follows a bad pointer, and loses no
  wake-up: the values pushed are the values popped followed by those in the channel; and while a
  consumer sleeps, there are no more values than notifications under way and woken consumers,
  unless all sleepers are about to be woken.\<close>

theorem unbounded_channel_fifo:
  assumes "mreach uc_body unbounded_channel_new s"
  shows "uc_pushed (mo_log s) = bc_popped (mo_log s) @ elements (uc_list (mo_data s)) \<and>
    Broken \<notin> snd ` set (mo_log s) \<and>
    (mo_cond s not_empty_cond = [] \<or> will_wake_all not_empty_cond s \<or>
      length (elements (uc_list (mo_data s))) \<le> tokens not_empty_cond uc_waited s)"
proof -
  have "mo_cond s not_empty_cond = [] \<or> will_wake_all not_empty_cond s \<or>
      length (elements (uc_list (mo_data s))) \<le> tokens not_empty_cond uc_waited s"
    using uc.sleepers_served [OF assms] unfolding uc.enough_def by blast
  with uc.always_good [OF assms] show ?thesis by (simp add: uc_good_def)
qed

definition uc_demo :: "nat uc_op event list" where
  "uc_demo = enters 3 U_pop @ enters 1 (U_push 10) @ [Notify 1, Notify 1] @ enters 2 (U_push 20) @ goes_on 3"

lemma unbounded_channel_fifo_witness:
  "uc_pushed (mo_log (mafter uc_body unbounded_channel_new uc_demo)) = [10] @ [20]"
proof -
  have r: "mrun uc_body uc_demo (monitor_new unbounded_channel_new) \<noteq> None"
    "bc_popped (mo_log (mafter uc_body unbounded_channel_new uc_demo)) = [10]"
    "elements (uc_list (mo_data (mafter uc_body unbounded_channel_new uc_demo))) = [20]"
    by code_simp+
  with unbounded_channel_fifo [OF mafter_reach [OF r(1)]] show ?thesis by simp
qed

end
