(* ===== verification/Future_Errors.thy ===== *)
theory Future_Errors
  imports Dumbo_Prelude
begin

text \<open>
  The errors of the futures (\<open>fiber/exceptions.hpp\<close>, \<open>src/fiber/future.cpp\<close>): the codes, the
  category with its messages, and the exception classes with the code each carries.
\<close>

datatype future_errc = errc_broken_promise | errc_future_already_retrieved
  | errc_promise_already_satisfied | errc_no_state

definition errc_value :: "future_errc \<Rightarrow> int" where
  "errc_value e = (case e of
     errc_broken_promise \<Rightarrow> 1 | errc_future_already_retrieved \<Rightarrow> 2
   | errc_promise_already_satisfied \<Rightarrow> 3 | errc_no_state \<Rightarrow> 4)"

text \<open>\<open>static_cast< future_errc >\<close> of an enumerator's value.\<close>

definition errc_cast :: "int \<Rightarrow> future_errc option" where
  "errc_cast ev =
     (if ev = 1 then Some errc_broken_promise
      else if ev = 2 then Some errc_future_already_retrieved
      else if ev = 3 then Some errc_promise_already_satisfied
      else if ev = 4 then Some errc_no_state
      else None)"

datatype error_category = future_category | other_category nat

record error_code =
  ec_value :: int
  ec_category :: error_category

definition make_error_code :: "future_errc \<Rightarrow> error_code" where
  "make_error_code e = \<lparr>ec_value = errc_value e, ec_category = future_category\<rparr>"

definition make_error_condition :: "future_errc \<Rightarrow> error_code" where
  "make_error_condition e = \<lparr>ec_value = errc_value e, ec_category = future_category\<rparr>"

definition category_name :: string where
  "category_name = ''fiber-future''"

definition default_error_condition :: "int \<Rightarrow> error_code" where
  "default_error_condition ev =
     (case errc_cast ev of
        Some errc_broken_promise \<Rightarrow> \<lparr>ec_value = errc_value errc_broken_promise, ec_category = future_category\<rparr>
      | Some errc_future_already_retrieved \<Rightarrow>
          \<lparr>ec_value = errc_value errc_future_already_retrieved, ec_category = future_category\<rparr>
      | Some errc_promise_already_satisfied \<Rightarrow>
          \<lparr>ec_value = errc_value errc_promise_already_satisfied, ec_category = future_category\<rparr>
      | Some errc_no_state \<Rightarrow> \<lparr>ec_value = errc_value errc_no_state, ec_category = future_category\<rparr>
      | None \<Rightarrow> \<lparr>ec_value = ev, ec_category = future_category\<rparr>)"

definition category_equivalent :: "error_code \<Rightarrow> int \<Rightarrow> bool" where
  "category_equivalent code condition \<longleftrightarrow>
     future_category = ec_category code \<and> ec_value (default_error_condition (ec_value code)) = condition"

definition error_message :: "int \<Rightarrow> string" where
  "error_message ev =
     (case errc_cast ev of
        Some errc_broken_promise \<Rightarrow>
          ''The associated promise has been destructed prior to the associated state becoming ready.''
      | Some errc_future_already_retrieved \<Rightarrow>
          ''The future has already been retrieved from the promise or packaged_task.''
      | Some errc_promise_already_satisfied \<Rightarrow> ''The state of the promise has already been set.''
      | Some errc_no_state \<Rightarrow> ''Operation not permitted on an object without an associated state.''
      | None \<Rightarrow> ''unspecified future_errc value'' @ [CHR 10])"

datatype future_exception = future_uninitialized | future_already_retrieved | broken_promise
  | promise_already_satisfied | promise_uninitialized | packaged_task_uninitialized

definition code_of :: "future_exception \<Rightarrow> error_code" where
  "code_of x = (case x of
     future_uninitialized \<Rightarrow> make_error_code errc_no_state
   | future_already_retrieved \<Rightarrow> make_error_code errc_future_already_retrieved
   | broken_promise \<Rightarrow> make_error_code errc_broken_promise
   | promise_already_satisfied \<Rightarrow> make_error_code errc_promise_already_satisfied
   | promise_uninitialized \<Rightarrow> make_error_code errc_no_state
   | packaged_task_uninitialized \<Rightarrow> make_error_code errc_no_state)"

lemma errc_cast_value: "errc_cast (errc_value e) = Some e"
  by (cases e) (simp_all add: errc_cast_def errc_value_def)

lemma errc_value_cast: "errc_cast ev = Some e \<Longrightarrow> errc_value e = ev"
  by (auto simp: errc_cast_def errc_value_def split: if_splits)

lemma default_condition_value: "ec_value (default_error_condition ev) = ev"
  using errc_value_cast [of ev]
  by (auto simp: default_error_condition_def split: option.split future_errc.split)

text \<open>The codes of the futures survive the way through an \<open>error_code\<close>: the enumerator is read
  back from its value, the default condition of a code is the condition of the same enumerator, a
  code is equivalent to its own condition and to no other, and different enumerators have
  different messages, none of them the one for unspecified values.\<close>

theorem future_error_codes:
  "errc_cast (ec_value (make_error_code e)) = Some e \<and>
   default_error_condition (ec_value (make_error_code e)) = make_error_condition e \<and>
   (category_equivalent (make_error_code e) (ec_value (make_error_condition e')) = (e = e')) \<and>
   (error_message (errc_value e) = error_message (errc_value e') \<longleftrightarrow> e = e') \<and>
   error_message (errc_value e) \<noteq> error_message 0"
proof -
  have inj: "errc_value e = errc_value e' \<longleftrightarrow> e = e'" by (metis errc_cast_value option.inject)
  have m: "error_message (errc_value e) = error_message (errc_value e') \<longleftrightarrow> e = e'"
    "error_message (errc_value e) \<noteq> error_message 0"
    unfolding error_message_def errc_cast_value by (cases e; cases e'; simp add: errc_cast_def)+
  show ?thesis
    using m inj errc_cast_value [of e]
    by (simp add: make_error_code_def make_error_condition_def default_condition_value category_equivalent_def)
      (auto simp: default_error_condition_def errc_cast_value split: future_errc.split)
qed

end
