(* ===== verification/Shared_State.thy ===== *)
theory Shared_State
  imports Fiber_Monitor Future_Errors
begin

text \<open>
  The shared state of promises and futures (\<open>fiber/future/detail/shared_state.hpp\<close>) as a client
  of the monitor: under \<open>mtx_\<close> the flag, the exception and the storage for the value, constructed or
  not; the condition variable \<open>waiters_\<close> is number 0. The three versions of the class share the
  base; the one for references stores an address and the one for \<open>void\<close> nothing, which is a value of
  type \<open>unit\<close> here. Reading storage that holds no value is the result \<open>Garbage\<close>.
\<close>

datatype exn = Fut future_exception | User nat

datatype future_status = fut_ready | fut_timeout | fut_deferred

record 'r shared_state =
  ss_ready :: bool
  ss_except :: "exn option"
  ss_storage :: "'r option"

definition shared_state_new :: "'r shared_state" where
  "shared_state_new = \<lparr>ss_ready = False, ss_except = None, ss_storage = None\<rparr>"

definition waiters_cond :: nat where "waiters_cond = 0"

datatype 'r ss_op =
    Set_value 'r
  | Set_exception "exn option"
  | Owner_destroyed
  | Get | Get_waited
  | Get_exception_ptr | Get_exception_ptr_waited
  | Wait_ready | Wait_ready_waited
  | Wait_ready_until | Wait_ready_until_waited

datatype 'r ss_result =
    Satisfied
  | Nothing
  | Got 'r
  | Pointer "exn option"
  | Thrown exn
  | Fut_status future_status
  | Garbage

type_synonym 'r ss_section = "'r shared_state \<times> ('r ss_op, 'r ss_result) verdict"

definition mark_ready_and_notify :: "'r shared_state \<Rightarrow> 'r ss_section" where
  "mark_ready_and_notify d = (d\<lparr>ss_ready := True\<rparr>, Leave [Notify_all waiters_cond] Satisfied)"

text \<open>A \<open>std::exception_ptr\<close> can be null: \<open>None\<close>.\<close>

definition ss_set_exception :: "exn option \<Rightarrow> 'r shared_state \<Rightarrow> 'r ss_section" where
  "ss_set_exception except d =
     (if ss_ready d then (d, Leave [] (Thrown (Fut promise_already_satisfied)))
      else mark_ready_and_notify (d\<lparr>ss_except := except\<rparr>))"

definition ss_owner_destroyed :: "'r shared_state \<Rightarrow> 'r ss_section" where
  "ss_owner_destroyed d =
     (if \<not> ss_ready d then ss_set_exception (Some (Fut broken_promise)) d else (d, Leave [] Nothing))"

definition ss_set_value :: "'r \<Rightarrow> 'r shared_state \<Rightarrow> 'r ss_section" where
  "ss_set_value value d =
     (if ss_ready d then (d, Leave [] (Thrown (Fut promise_already_satisfied)))
      else mark_ready_and_notify (d\<lparr>ss_storage := Some value\<rparr>))"

definition ss_set_value_ref :: "nat \<Rightarrow> nat shared_state \<Rightarrow> nat ss_section" where
  "ss_set_value_ref address d =
     (if ss_ready d then (d, Leave [] (Thrown (Fut promise_already_satisfied)))
      else mark_ready_and_notify (d\<lparr>ss_storage := Some address\<rparr>))"

definition ss_set_value_void :: "unit shared_state \<Rightarrow> unit ss_section" where
  "ss_set_value_void d =
     (if ss_ready d then (d, Leave [] (Thrown (Fut promise_already_satisfied)))
      else mark_ready_and_notify d)"

text \<open>\<open>wait_\<close>: what follows when it is over, or the wait.\<close>

definition ss_wait :: "'r ss_op \<Rightarrow> ('r shared_state \<Rightarrow> 'r ss_section) \<Rightarrow> 'r shared_state \<Rightarrow> 'r ss_section" where
  "ss_wait again cont d = (if ss_ready d then cont d else (d, Wait_on waiters_cond False again))"

definition ss_wait_until :: "cv_status \<Rightarrow> 'r shared_state \<Rightarrow> 'r ss_section" where
  "ss_wait_until status d =
     (if ss_ready d then (d, Leave [] (Fut_status fut_ready))
      else if status = timeout then (d, Leave [] (Fut_status fut_timeout))
      else (d, Wait_on waiters_cond True Wait_ready_until_waited))"

definition ss_get_exception_ptr :: "'r shared_state \<Rightarrow> 'r ss_section" where
  "ss_get_exception_ptr = ss_wait Get_exception_ptr_waited (\<lambda>d. (d, Leave [] (Pointer (ss_except d))))"

definition ss_get :: "'r shared_state \<Rightarrow> 'r ss_section" where
  "ss_get = ss_wait Get_waited (\<lambda>d.
     (d, Leave [] (case ss_except d of
        Some e \<Rightarrow> Thrown e
      | None \<Rightarrow> (case ss_storage d of Some value \<Rightarrow> Got value | None \<Rightarrow> Garbage))))"

definition ss_get_ref :: "nat shared_state \<Rightarrow> nat ss_section" where
  "ss_get_ref = ss_wait Get_waited (\<lambda>d.
     (d, Leave [] (case ss_except d of
        Some e \<Rightarrow> Thrown e
      | None \<Rightarrow> (case ss_storage d of Some address \<Rightarrow> Got address | None \<Rightarrow> Garbage))))"

definition ss_get_void :: "unit shared_state \<Rightarrow> unit ss_section" where
  "ss_get_void = ss_wait Get_waited (\<lambda>d.
     (d, Leave [] (case ss_except d of Some e \<Rightarrow> Thrown e | None \<Rightarrow> Got ())))"

text \<open>The destructor destroys the value if there is one; \<open>None\<close> when it would destroy what is not there.\<close>

definition shared_state_delete :: "'r shared_state \<Rightarrow> 'r shared_state option" where
  "shared_state_delete d =
     (if ss_ready d \<and> ss_except d = None
      then (case ss_storage d of Some value \<Rightarrow> Some (d\<lparr>ss_storage := None\<rparr>) | None \<Rightarrow> None)
      else Some d)"

fun ss_body :: "'r ss_op \<Rightarrow> cv_status \<Rightarrow> 'r shared_state \<Rightarrow> 'r ss_section" where
  "ss_body (Set_value value) status d = ss_set_value value d"
| "ss_body (Set_exception except) status d = ss_set_exception except d"
| "ss_body Owner_destroyed status d = ss_owner_destroyed d"
| "ss_body Get status d = ss_get d"
| "ss_body Get_waited status d = ss_get d"
| "ss_body Get_exception_ptr status d = ss_get_exception_ptr d"
| "ss_body Get_exception_ptr_waited status d = ss_get_exception_ptr d"
| "ss_body Wait_ready status d = ss_wait Wait_ready_waited (\<lambda>d. (d, Leave [] Nothing)) d"
| "ss_body Wait_ready_waited status d = ss_wait Wait_ready_waited (\<lambda>d. (d, Leave [] Nothing)) d"
| "ss_body Wait_ready_until status d = ss_wait_until no_timeout d"
| "ss_body Wait_ready_until_waited status d = ss_wait_until status d"

text \<open>The specialisations do what the general class does, for the types of what they store.\<close>

lemma ss_ref_eq: "ss_set_value_ref = ss_set_value" "ss_get_ref = ss_get"
  by (simp_all add: fun_eq_iff ss_set_value_ref_def ss_set_value_def ss_get_ref_def ss_get_def)

subsection \<open>What is agreed on\<close>

text \<open>What the operation that satisfied the state has put there: a value, an exception or, with a null
  \<open>exception_ptr\<close>, nothing at all. And the outcome of an operation from then on.\<close>

fun content :: "'r ss_op \<Rightarrow> (exn + 'r) option" where
  "content (Set_value value) = Some (Inr value)"
| "content (Set_exception except) = map_option Inl except"
| "content _ = Some (Inl (Fut broken_promise))"

fun outcome :: "(exn + 'r) option \<Rightarrow> 'r ss_op \<Rightarrow> 'r ss_result" where
  "outcome x (Set_value value) = Thrown (Fut promise_already_satisfied)"
| "outcome x (Set_exception except) = Thrown (Fut promise_already_satisfied)"
| "outcome x Owner_destroyed = Nothing"
| "outcome x Get_exception_ptr = Pointer (case x of Some (Inl e) \<Rightarrow> Some e | _ \<Rightarrow> None)"
| "outcome x Get_exception_ptr_waited = Pointer (case x of Some (Inl e) \<Rightarrow> Some e | _ \<Rightarrow> None)"
| "outcome x Wait_ready = Nothing"
| "outcome x Wait_ready_waited = Nothing"
| "outcome x Wait_ready_until = Fut_status fut_ready"
| "outcome x Wait_ready_until_waited = Fut_status fut_ready"
| "outcome x _ = (case x of None \<Rightarrow> Garbage | Some (Inl e) \<Rightarrow> Thrown e | Some (Inr value) \<Rightarrow> Got value)"

fun is_setter :: "'r ss_op \<Rightarrow> bool" where
  "is_setter (Set_value value) = True"
| "is_setter (Set_exception except) = True"
| "is_setter Owner_destroyed = True"
| "is_setter _ = False"

text \<open>All that can be over before the state is ready: a wait with a deadline that has passed.\<close>

definition waits_out :: "'r ss_op \<times> 'r ss_result \<Rightarrow> bool" where
  "waits_out e \<longleftrightarrow> (fst e = Wait_ready_until \<or> fst e = Wait_ready_until_waited) \<and> snd e = Fut_status fut_timeout"

definition contains :: "(exn + 'r) option \<Rightarrow> 'r shared_state \<Rightarrow> bool" where
  "contains x d \<longleftrightarrow> ss_except d = (case x of Some (Inl e) \<Rightarrow> Some e | _ \<Rightarrow> None) \<and>
     ss_storage d = (case x of Some (Inr value) \<Rightarrow> Some value | _ \<Rightarrow> None)"

text \<open>The operations that are over, in the order of their critical sections, when \<open>op\<close> has satisfied the state.\<close>

definition settled :: "'r ss_op \<Rightarrow> ('r ss_op \<times> 'r ss_result) list \<Rightarrow> bool" where
  "settled op log \<longleftrightarrow> is_setter op \<and>
     (\<exists>before since. log = before @ (op, Satisfied) # since \<and> (\<forall>e \<in> set before. waits_out e) \<and>
        (\<forall>(op', r) \<in> set since. r = outcome (content op) op'))"

definition ss_good :: "'r shared_state \<Rightarrow> ('r ss_op \<times> 'r ss_result) list \<Rightarrow> bool" where
  "ss_good d log \<longleftrightarrow>
     (if ss_ready d then \<exists>op. settled op log \<and> contains (content op) d
      else ss_except d = None \<and> ss_storage d = None \<and> (\<forall>e \<in> set log. waits_out e))"

text \<open>The three things a critical section can do.\<close>

definition stored :: "'r ss_op \<Rightarrow> 'r shared_state \<Rightarrow> 'r shared_state" where
  "stored op d = (case op of
     Set_value value \<Rightarrow> d\<lparr>ss_storage := Some value, ss_ready := True\<rparr>
   | Set_exception except \<Rightarrow> d\<lparr>ss_except := except, ss_ready := True\<rparr>
   | _ \<Rightarrow> d\<lparr>ss_except := Some (Fut broken_promise), ss_ready := True\<rparr>)"

definition answer :: "'r ss_op \<Rightarrow> 'r shared_state \<Rightarrow> 'r ss_result" where
  "answer op d = (case op of
     Set_value value \<Rightarrow> Thrown (Fut promise_already_satisfied)
   | Set_exception except \<Rightarrow> Thrown (Fut promise_already_satisfied)
   | Owner_destroyed \<Rightarrow> Nothing
   | Get_exception_ptr \<Rightarrow> Pointer (ss_except d)
   | Get_exception_ptr_waited \<Rightarrow> Pointer (ss_except d)
   | Wait_ready \<Rightarrow> Nothing
   | Wait_ready_waited \<Rightarrow> Nothing
   | Wait_ready_until \<Rightarrow> Fut_status fut_ready
   | Wait_ready_until_waited \<Rightarrow> Fut_status fut_ready
   | _ \<Rightarrow> (case ss_except d of Some e \<Rightarrow> Thrown e
             | None \<Rightarrow> (case ss_storage d of Some value \<Rightarrow> Got value | None \<Rightarrow> Garbage)))"

lemma ss_body_ready: "ss_ready d \<Longrightarrow> ss_body op st d = (d, Leave [] (answer op d))"
  by (cases op)
    (simp_all add: answer_def ss_set_value_def ss_set_exception_def ss_owner_destroyed_def ss_get_def
      ss_get_exception_ptr_def ss_wait_def ss_wait_until_def)

lemma ss_body_unready:
  assumes "\<not> ss_ready d"
  shows "is_setter op \<and> ss_body op st d = (stored op d, Leave [Notify_all waiters_cond] Satisfied) \<or>
    \<not> is_setter op \<and> (\<exists>b op'. ss_body op st d = (d, Wait_on waiters_cond b op')) \<or>
    waits_out (op, Fut_status fut_timeout) \<and> ss_body op st d = (d, Leave [] (Fut_status fut_timeout))"
  using assms
  by (cases op)
    (auto simp: stored_def ss_set_value_def ss_set_exception_def ss_owner_destroyed_def ss_get_def waits_out_def
      mark_ready_and_notify_def ss_get_exception_ptr_def ss_wait_def ss_wait_until_def)

lemma answer_told: "contains x d \<Longrightarrow> answer op d = outcome x op"
  by (cases op) (auto simp: contains_def answer_def split: option.splits sum.splits)

lemma ss_good_ready:
  assumes g: "ss_good d log" and r: "ss_ready d"
  shows "ss_good d (log @ [(op, answer op d)])"
proof -
  obtain op' where o: "settled op' log" "contains (content op') d" using g r by (auto simp: ss_good_def)
  then obtain before since where l: "is_setter op'" "log = before @ (op', Satisfied) # since"
    "\<forall>e \<in> set before. waits_out e" "\<forall>(o1, r) \<in> set since. r = outcome (content op') o1"
    by (auto simp: settled_def)
  have "log @ [(op, answer op d)] = before @ (op', Satisfied) # (since @ [(op, answer op d)])" using l(2) by simp
  moreover have "\<forall>(o1, r) \<in> set (since @ [(op, answer op d)]). r = outcome (content op') o1"
    using l(4) answer_told [OF o(2)] by auto
  ultimately have "settled op' (log @ [(op, answer op d)])" unfolding settled_def using l(1,3) by blast
  with o(2) r show ?thesis by (auto simp: ss_good_def)
qed

lemma ss_good_store:
  assumes g: "ss_good d log" and r: "\<not> ss_ready d" and o: "is_setter op"
  shows "ss_good (stored op d) (log @ [(op, Satisfied)])"
proof -
  have l: "ss_except d = None" "ss_storage d = None" "\<forall>e \<in> set log. waits_out e"
    using g r by (auto simp: ss_good_def)
  then have "settled op (log @ [(op, Satisfied)])" using o by (fastforce simp: settled_def)
  moreover have "contains (content op) (stored op d)" "ss_ready (stored op d)"
    using l o by (cases op; auto simp: contains_def stored_def split: option.split)+
  ultimately show ?thesis by (auto simp: ss_good_def)
qed

lemma ss_leave:
  assumes g: "ss_good d log" and b: "ss_body op st d = (d', Leave ns r)"
  shows "ss_good d' (log @ [(op, r)])" "\<not> ss_ready d \<Longrightarrow> \<not> ss_ready d' \<or> Notify_all waiters_cond \<in> set ns"
proof -
  show "ss_good d' (log @ [(op, r)])"
  proof (cases "ss_ready d")
    case True
    with ss_good_ready [OF g True, of op] b ss_body_ready [OF True, of op st] show ?thesis by auto
  next
    case False
    from ss_body_unready [OF False, of op st] b
    have "(is_setter op \<and> d' = stored op d \<and> r = Satisfied) \<or> (d' = d \<and> waits_out (op, r))"
      by auto
    then show ?thesis
    proof
      assume "is_setter op \<and> d' = stored op d \<and> r = Satisfied"
      with ss_good_store [OF g False, of op] show ?thesis by simp
    next
      assume "d' = d \<and> waits_out (op, r)"
      with g False show ?thesis by (simp add: ss_good_def)
    qed
  qed
  show "\<not> ss_ready d' \<or> Notify_all waiters_cond \<in> set ns" if "\<not> ss_ready d"
    using ss_body_unready [OF that, of op st] b that by auto
qed

lemma ss_wait_only:
  assumes w: "ss_body op st d = (d', Wait_on k b op')"
  shows "d' = d \<and> \<not> ss_ready d \<and> k = waiters_cond"
proof (cases "ss_ready d")
  case True
  with ss_body_ready [OF True, of op st] w show ?thesis by simp
next
  case False
  with ss_body_unready [OF False, of op st] w show ?thesis by auto
qed

interpretation ss: broadcast ss_body shared_state_new ss_good waiters_cond "\<lambda>d. \<not> ss_ready d"
proof
  show "ss_good shared_state_new []" by (simp add: ss_good_def shared_state_new_def)
next
  fix d d' :: "'r shared_state" and log op st b op' j k ns r
  assume g: "ss_good d log"
  show "ss_good d' (log @ [(op, r)])" if "ss_body op st d = (d', Leave ns r)"
    by (rule ss_leave(1) [OF g that])
  show "ss_good d' log" if "ss_body op st d = (d', Wait_on k b op')"
    using ss_wait_only [OF that] g by simp
  show "\<not> ss_ready d'" if "ss_body op st d = (d', Wait_on waiters_cond b op')"
    using ss_wait_only [OF that] by simp
  show "\<not> ss_ready d'" if "ss_body op st d = (d', Wait_on j b op')" "\<not> ss_ready d"
    using ss_wait_only [OF that(1)] by simp
  show "\<not> ss_ready d' \<or> Notify_all waiters_cond \<in> set ns"
    if "ss_body op st d = (d', Leave ns r)" "\<not> ss_ready d"
    by (rule ss_leave(2) [OF g that])
qed

text \<open>C36: A shared state is set once and everybody sees the same. Whatever fibers set, get, wait and give up: until a
  setter satisfies the state nothing is over but waits with a deadline that has passed. From then on each operation has
  exactly one outcome, fixed by that setter: a \<open>get\<close> returns its value or throws its exception (\<open>broken_promise\<close> when
  it was the owner's destructor), \<open>get_exception_ptr\<close> returns that exception or null, every further setter throws
  \<open>promise_already_satisfied\<close>, a destructor does nothing, waits are over. Only if the setter was \<open>set_exception\<close> with a null
  pointer does \<open>get\<close> read storage that has no value.\<close>

theorem shared_state_agreement:
  assumes "mreach ss_body shared_state_new s"
  shows "(\<forall>e \<in> set (mo_log s). waits_out e) \<or>
    (\<exists>setter before since. is_setter setter \<and> mo_log s = before @ (setter, Satisfied) # since \<and>
       (\<forall>e \<in> set before. waits_out e) \<and> (\<forall>(op, r) \<in> set since. r = outcome (content setter) op))"
proof (cases "ss_ready (mo_data s)")
  case True
  with ss.always_good [OF assms] show ?thesis by (simp add: ss_good_def settled_def) blast
next
  case False
  with ss.always_good [OF assms] show ?thesis by (simp add: ss_good_def)
qed

text \<open>Two fibers get, one sets the value and another tries to.\<close>

definition ss_demo :: "nat ss_op event list" where
  "ss_demo = enters 1 Get @ enters 2 (Set_value 7) @ enters 3 (Set_value 8) @ [Notify 2] @ goes_on 1"

lemma ss_demo_run: "mrun ss_body ss_demo (monitor_new shared_state_new) \<noteq> None"
  "mo_log (mafter ss_body shared_state_new ss_demo) =
    [(Set_value 7, Satisfied), (Set_value 8, Thrown (Fut promise_already_satisfied)), (Get_waited, Got 7)]"
  by code_simp+

lemma shared_state_agreement_witness:
  "\<exists>setter before since. mo_log (mafter ss_body shared_state_new ss_demo) = before @ (setter, Satisfied) # since \<and>
    (\<forall>(op, r) \<in> set since. r = outcome (content setter) op)"
proof -
  have "\<not> (\<forall>e \<in> set (mo_log (mafter ss_body shared_state_new ss_demo)). waits_out e)"
    by (simp add: ss_demo_run(2) waits_out_def)
  with shared_state_agreement [OF mafter_reach [OF ss_demo_run(1)]] show ?thesis by blast
qed

text \<open>No waiter of a shared state is forgotten: while a fiber sleeps in \<open>get\<close> or \<open>wait\<close>, the
  state is not ready, or the fiber that made it ready is about to wake all of them; once the
  state is ready nobody goes to sleep again.\<close>

theorem shared_state_wakes_waiters:
  assumes "mreach ss_body shared_state_new s" "ss_ready (mo_data s)"
  shows "(mo_cond s waiters_cond = [] \<or> will_wake_all waiters_cond s) \<and>
    (\<forall>op st. \<exists>r. ss_body op st (mo_data s) = (mo_data s, Leave [] r))"
  using ss.sleepers_blocked [OF assms(1)] assms(2) ss_body_ready [OF assms(2)] by blast

lemma shared_state_wakes_waiters_witness:
  "mo_cond (mafter ss_body shared_state_new (enters 1 Get @ enters 2 (Set_value (7::nat)))) waiters_cond = [1] \<and>
   will_wake_all waiters_cond (mafter ss_body shared_state_new (enters 1 Get @ enters 2 (Set_value (7::nat))))"
proof -
  have r: "mrun ss_body (enters 1 Get @ enters 2 (Set_value (7::nat))) (monitor_new shared_state_new) \<noteq> None"
    "ss_ready (mo_data (mafter ss_body shared_state_new (enters 1 Get @ enters 2 (Set_value (7::nat)))))"
    "mo_cond (mafter ss_body shared_state_new (enters 1 Get @ enters 2 (Set_value (7::nat)))) waiters_cond = [1]"
    by code_simp+
  with shared_state_wakes_waiters [OF mafter_reach [OF r(1)] r(2)] show ?thesis by simp
qed

end
