(* ===== verification/Futures.thy ===== *)
theory Futures
  imports Shared_State
begin

text \<open>
  The handles of the futures (\<open>fiber/future/future.hpp\<close>, \<open>promise.hpp\<close>, \<open>packaged_task.hpp\<close>,
  \<open>async.hpp\<close>, \<open>detail/task_object.hpp\<close>): objects that share states by counted pointers. An object
  is named by a number, a state by its address; what a handle does to its state is the critical
  section of \<open>Shared_State\<close>. Everything that is undefined in C++ is a fault: using a state that has
  been freed, a count below zero, destroying a value that is not there, calling a function that
  has been moved away, and, for the caller to avoid, using an object that does not exist.
\<close>

datatype fault = No_object | Freed | Underflow | No_value | Moved_fn

fun and_then :: "'e + 'a \<Rightarrow> ('a \<Rightarrow> 'e + 'b) \<Rightarrow> 'e + 'b" where
  "and_then (Inl e) f = Inl e"
| "and_then (Inr x) f = f x"

type_synonym ptr = "nat option"

record ('a, 'r) node =
  nd_count :: nat
  nd_state :: "'r shared_state"
  nd_fn :: "('a \<Rightarrow> exn + 'r) option"

datatype fu_obj = Future_obj ptr | Promise_obj bool ptr | Task_obj bool ptr

record ('a, 'r) futures =
  fu_heap :: "nat \<Rightarrow> ('a, 'r) node option"
  fu_next :: nat
  fu_obj :: "nat \<Rightarrow> fu_obj option"

datatype 'r fu_result = Ret "'r ss_result" | Valid bool | Done | Blocks

definition futures_empty :: "('a, 'r) futures" where
  "futures_empty = \<lparr>fu_heap = (\<lambda>_. None), fu_next = 0, fu_obj = (\<lambda>_. None)\<rparr>"

subsection \<open>Counted pointers\<close>

definition ss_add_ref :: "ptr \<Rightarrow> ('a, 'r) futures \<Rightarrow> fault + ('a, 'r) futures" where
  "ss_add_ref p w =
     (case p of
        None \<Rightarrow> Inr w
      | Some a \<Rightarrow>
          (case fu_heap w a of
             None \<Rightarrow> Inl Freed
           | Some n \<Rightarrow> Inr (w\<lparr>fu_heap := (fu_heap w)(a \<mapsto> n\<lparr>nd_count := nd_count n + 1\<rparr>)\<rparr>)))"

text \<open>The destructor of the state and the release of its storage.\<close>

definition deallocate_future :: "nat \<Rightarrow> ('a, 'r) node \<Rightarrow> ('a, 'r) futures \<Rightarrow> fault + ('a, 'r) futures" where
  "deallocate_future a n w =
     (case shared_state_delete (nd_state n) of
        None \<Rightarrow> Inl No_value
      | Some d \<Rightarrow> Inr (w\<lparr>fu_heap := (fu_heap w)(a := None)\<rparr>))"

definition ss_release :: "ptr \<Rightarrow> ('a, 'r) futures \<Rightarrow> fault + ('a, 'r) futures" where
  "ss_release p w =
     (case p of
        None \<Rightarrow> Inr w
      | Some a \<Rightarrow>
          (case fu_heap w a of
             None \<Rightarrow> Inl Freed
           | Some n \<Rightarrow>
               if nd_count n = 0 then Inl Underflow
               else if nd_count n - 1 = 0 then deallocate_future a n w
               else Inr (w\<lparr>fu_heap := (fu_heap w)(a \<mapsto> n\<lparr>nd_count := nd_count n - 1\<rparr>)\<rparr>)))"

text \<open>A new state (with the function of a task): its address.\<close>

definition ss_alloc :: "('a \<Rightarrow> exn + 'r) option \<Rightarrow> ('a, 'r) futures \<Rightarrow> ('a, 'r) futures \<times> nat" where
  "ss_alloc fn w =
     (w\<lparr>fu_heap := (fu_heap w)(fu_next w \<mapsto> \<lparr>nd_count = 0, nd_state = shared_state_new, nd_fn = fn\<rparr>),
        fu_next := fu_next w + 1\<rparr>, fu_next w)"

text \<open>An operation of the state that \<open>a\<close> points to.\<close>

definition ss_call ::
  "nat \<Rightarrow> ('r shared_state \<Rightarrow> 'r ss_section) \<Rightarrow> ('a, 'r) futures \<Rightarrow> fault + (('a, 'r) futures \<times> 'r fu_result)" where
  "ss_call a body w =
     (case fu_heap w a of
        None \<Rightarrow> Inl Freed
      | Some n \<Rightarrow>
          (case body (nd_state n) of
             (d, Leave ns r) \<Rightarrow> Inr (w\<lparr>fu_heap := (fu_heap w)(a \<mapsto> n\<lparr>nd_state := d\<rparr>)\<rparr>, Ret r)
           | (d, Wait_on k b op) \<Rightarrow> Inr (w, Blocks)))"

subsection \<open>Objects\<close>

definition put :: "nat \<Rightarrow> fu_obj option \<Rightarrow> ('a, 'r) futures \<Rightarrow> ('a, 'r) futures" where
  "put x v w = w\<lparr>fu_obj := (fu_obj w)(x := v)\<rparr>"

definition as_future :: "nat \<Rightarrow> (ptr \<Rightarrow> fault + 'b) \<Rightarrow> ('a, 'r) futures \<Rightarrow> fault + 'b" where
  "as_future x f w = (case fu_obj w x of Some (Future_obj p) \<Rightarrow> f p | _ \<Rightarrow> Inl No_object)"

definition as_promise :: "nat \<Rightarrow> (bool \<Rightarrow> ptr \<Rightarrow> fault + 'b) \<Rightarrow> ('a, 'r) futures \<Rightarrow> fault + 'b" where
  "as_promise x f w = (case fu_obj w x of Some (Promise_obj b p) \<Rightarrow> f b p | _ \<Rightarrow> Inl No_object)"

definition as_task :: "nat \<Rightarrow> (bool \<Rightarrow> ptr \<Rightarrow> fault + 'b) \<Rightarrow> ('a, 'r) futures \<Rightarrow> fault + 'b" where
  "as_task x f w = (case fu_obj w x of Some (Task_obj b p) \<Rightarrow> f b p | _ \<Rightarrow> Inl No_object)"

definition unused :: "nat \<Rightarrow> (fault + 'b) \<Rightarrow> ('a, 'r) futures \<Rightarrow> fault + 'b" where
  "unused x m w = (if fu_obj w x = None then m else Inl No_object)"

type_synonym ('a, 'r) fu_action = "('a, 'r) futures \<Rightarrow> fault + (('a, 'r) futures \<times> 'r fu_result)"

subsection \<open>\<open>future_base\<close>\<close>

definition future_new :: "nat \<Rightarrow> ('a, 'r) fu_action" where
  "future_new x w = unused x (Inr (put x (Some (Future_obj None)) w, Done)) w"

definition future_delete :: "nat \<Rightarrow> ('a, 'r) fu_action" where
  "future_delete x w = as_future x (\<lambda>p.
     and_then (ss_release p (put x None w)) (\<lambda>w. Inr (w, Done))) w"

definition future_copy :: "nat \<Rightarrow> nat \<Rightarrow> ('a, 'r) fu_action" where
  "future_copy x other w = unused x (as_future other (\<lambda>p.
     and_then (ss_add_ref p w) (\<lambda>w. Inr (put x (Some (Future_obj p)) w, Done))) w) w"

definition future_move :: "nat \<Rightarrow> nat \<Rightarrow> ('a, 'r) fu_action" where
  "future_move x other w = unused x (as_future other (\<lambda>p.
     and_then (ss_add_ref p w) (\<lambda>w.
     let w = put x (Some (Future_obj p)) w in
     and_then (ss_release p (put other (Some (Future_obj None)) w)) (\<lambda>w. Inr (w, Done)))) w) w"

definition future_copy_assign :: "nat \<Rightarrow> nat \<Rightarrow> ('a, 'r) fu_action" where
  "future_copy_assign x other w = as_future x (\<lambda>old. as_future other (\<lambda>p.
     if x = other then Inr (w, Done)
     else and_then (ss_add_ref p w) (\<lambda>w.
          and_then (ss_release old (put x (Some (Future_obj p)) w)) (\<lambda>w. Inr (w, Done)))) w) w"

definition future_move_assign :: "nat \<Rightarrow> nat \<Rightarrow> ('a, 'r) fu_action" where
  "future_move_assign x other w = as_future x (\<lambda>old. as_future other (\<lambda>p.
     if x = other then Inr (w, Done)
     else and_then (ss_add_ref p w) (\<lambda>w.
          and_then (ss_release old (put x (Some (Future_obj p)) w)) (\<lambda>w.
          and_then (ss_release p (put other (Some (Future_obj None)) w)) (\<lambda>w. Inr (w, Done))))) w) w"

definition future_valid :: "nat \<Rightarrow> ('a, 'r) fu_action" where
  "future_valid x w = as_future x (\<lambda>p. Inr (w, Valid (p \<noteq> None))) w"

text \<open>The operations that throw when there is no state.\<close>

definition with_state ::
  "future_exception \<Rightarrow> ptr \<Rightarrow> (nat \<Rightarrow> ('a, 'r) fu_action) \<Rightarrow> ('a, 'r) fu_action" where
  "with_state e p f w = (case p of None \<Rightarrow> Inr (w, Ret (Thrown (Fut e))) | Some a \<Rightarrow> f a w)"

definition future_get_exception_ptr :: "nat \<Rightarrow> ('a, 'r) fu_action" where
  "future_get_exception_ptr x w = as_future x (\<lambda>p.
     with_state future_uninitialized p (\<lambda>a. ss_call a ss_get_exception_ptr) w) w"

definition future_wait :: "nat \<Rightarrow> ('a, 'r) fu_action" where
  "future_wait x w = as_future x (\<lambda>p.
     with_state future_uninitialized p (\<lambda>a. ss_call a (ss_wait Wait_ready_waited (\<lambda>d. (d, Leave [] Nothing)))) w) w"

definition future_wait_until :: "cv_status \<Rightarrow> nat \<Rightarrow> ('a, 'r) fu_action" where
  "future_wait_until status x w = as_future x (\<lambda>p.
     with_state future_uninitialized p (\<lambda>a. ss_call a (ss_wait_until status)) w) w"

subsection \<open>\<open>future\<close> and \<open>shared_future\<close>\<close>

text \<open>\<open>get\<close> gives the state to a temporary, which is released at the end. A \<open>get\<close> that has to wait
  is the call that has not been made yet. The value a \<open>future\<close> moves out of the state is left there:
  no other handle can read it again.\<close>

definition get_from ::
  "('r shared_state \<Rightarrow> 'r ss_section) \<Rightarrow> nat \<Rightarrow> ('a, 'r) fu_action" where
  "get_from body x w = as_future x (\<lambda>p.
     with_state future_uninitialized p (\<lambda>a w.
       and_then (ss_call a body (put x (Some (Future_obj None)) w)) (\<lambda>(w', r).
         if r = Blocks then Inr (w, Blocks)
         else and_then (ss_release p w') (\<lambda>w. Inr (w, r)))) w) w"

definition future_get :: "nat \<Rightarrow> ('a, 'r) fu_action" where "future_get = get_from ss_get"
definition future_get_ref :: "nat \<Rightarrow> ('a, nat) fu_action" where "future_get_ref = get_from ss_get_ref"
definition future_get_void :: "nat \<Rightarrow> ('a, unit) fu_action" where "future_get_void = get_from ss_get_void"

definition future_share :: "nat \<Rightarrow> nat \<Rightarrow> ('a, 'r) fu_action" where
  "future_share x other w = as_future other (\<lambda>p.
     with_state future_uninitialized p (\<lambda>a. future_move x other) w) w"

definition shared_get_from ::
  "('r shared_state \<Rightarrow> 'r ss_section) \<Rightarrow> nat \<Rightarrow> ('a, 'r) fu_action" where
  "shared_get_from body x w = as_future x (\<lambda>p.
     with_state future_uninitialized p (\<lambda>a. ss_call a body) w) w"

definition shared_future_get :: "nat \<Rightarrow> ('a, 'r) fu_action" where
  "shared_future_get = shared_get_from ss_get"
definition shared_future_get_ref :: "nat \<Rightarrow> ('a, nat) fu_action" where
  "shared_future_get_ref = shared_get_from ss_get_ref"
definition shared_future_get_void :: "nat \<Rightarrow> ('a, unit) fu_action" where
  "shared_future_get_void = shared_get_from ss_get_void"

subsection \<open>\<open>promise\<close>\<close>

definition promise_new :: "nat \<Rightarrow> ('a, 'r) fu_action" where
  "promise_new x w = unused x (
     let (w, a) = ss_alloc None w in
     and_then (ss_add_ref (Some a) w) (\<lambda>w. Inr (put x (Some (Promise_obj False (Some a))) w, Done))) w"

text \<open>The destructor of an owner tells the state, then its pointer is released.\<close>

definition disown :: "ptr \<Rightarrow> ('a, 'r) fu_action" where
  "disown p w =
     and_then (case p of None \<Rightarrow> Inr (w, Done) | Some a \<Rightarrow> ss_call a ss_owner_destroyed w) (\<lambda>(w, r).
     and_then (ss_release p w) (\<lambda>w. Inr (w, Done)))"

definition promise_delete :: "nat \<Rightarrow> ('a, 'r) fu_action" where
  "promise_delete x w = as_promise x (\<lambda>obtained p. disown p (put x None w)) w"

definition promise_move :: "nat \<Rightarrow> nat \<Rightarrow> ('a, 'r) fu_action" where
  "promise_move x other w = unused x (as_promise other (\<lambda>obtained p.
     Inr (put other (Some (Promise_obj False None)) (put x (Some (Promise_obj obtained p)) w), Done)) w) w"

text \<open>The assignment swaps with a temporary that takes \<open>other\<close>; the temporary is destroyed.\<close>

definition promise_move_assign :: "nat \<Rightarrow> nat \<Rightarrow> ('a, 'r) fu_action" where
  "promise_move_assign x other w = as_promise x (\<lambda>obtained0 p0. as_promise other (\<lambda>obtained p.
     if x = other then Inr (w, Done)
     else disown p0 (put x (Some (Promise_obj obtained p)) (put other (Some (Promise_obj False None)) w))) w) w"

definition promise_swap :: "nat \<Rightarrow> nat \<Rightarrow> ('a, 'r) fu_action" where
  "promise_swap x other w = as_promise x (\<lambda>obtained0 p0. as_promise other (\<lambda>obtained p.
     Inr (put other (Some (Promise_obj obtained0 p0)) (put x (Some (Promise_obj obtained p)) w), Done)) w) w"

definition promise_get_future :: "nat \<Rightarrow> nat \<Rightarrow> ('a, 'r) fu_action" where
  "promise_get_future x f w = unused f (as_promise x (\<lambda>obtained p.
     if obtained then Inr (w, Ret (Thrown (Fut future_already_retrieved)))
     else with_state promise_uninitialized p (\<lambda>a w.
       and_then (ss_add_ref p (put x (Some (Promise_obj True p)) w)) (\<lambda>w.
         Inr (put f (Some (Future_obj p)) w, Done))) w) w) w"

definition promise_set_exception :: "nat \<Rightarrow> exn option \<Rightarrow> ('a, 'r) fu_action" where
  "promise_set_exception x e w = as_promise x (\<lambda>obtained p.
     with_state promise_uninitialized p (\<lambda>a. ss_call a (ss_set_exception e)) w) w"

definition promise_set_value :: "nat \<Rightarrow> 'r \<Rightarrow> ('a, 'r) fu_action" where
  "promise_set_value x value w = as_promise x (\<lambda>obtained p.
     with_state promise_uninitialized p (\<lambda>a. ss_call a (ss_set_value value)) w) w"

definition promise_set_value_ref :: "nat \<Rightarrow> nat \<Rightarrow> ('a, nat) fu_action" where
  "promise_set_value_ref x address w = as_promise x (\<lambda>obtained p.
     with_state promise_uninitialized p (\<lambda>a. ss_call a (ss_set_value_ref address)) w) w"

definition promise_set_value_void :: "nat \<Rightarrow> ('a, unit) fu_action" where
  "promise_set_value_void x w = as_promise x (\<lambda>obtained p.
     with_state promise_uninitialized p (\<lambda>a. ss_call a ss_set_value_void) w) w"

subsection \<open>\<open>packaged_task\<close>\<close>

definition task_none :: "nat \<Rightarrow> ('a, 'r) fu_action" where
  "task_none x w = unused x (Inr (put x (Some (Task_obj False None)) w, Done)) w"

definition task_new :: "nat \<Rightarrow> ('a \<Rightarrow> exn + 'r) \<Rightarrow> ('a, 'r) fu_action" where
  "task_new x fn w = unused x (
     let (w, a) = ss_alloc (Some fn) w in
     and_then (ss_add_ref (Some a) w) (\<lambda>w. Inr (put x (Some (Task_obj False (Some a))) w, Done))) w"

definition task_delete :: "nat \<Rightarrow> ('a, 'r) fu_action" where
  "task_delete x w = as_task x (\<lambda>obtained p. disown p (put x None w)) w"

definition task_move :: "nat \<Rightarrow> nat \<Rightarrow> ('a, 'r) fu_action" where
  "task_move x other w = unused x (as_task other (\<lambda>obtained p.
     Inr (put other (Some (Task_obj False None)) (put x (Some (Task_obj obtained p)) w), Done)) w) w"

definition task_move_assign :: "nat \<Rightarrow> nat \<Rightarrow> ('a, 'r) fu_action" where
  "task_move_assign x other w = as_task x (\<lambda>obtained0 p0. as_task other (\<lambda>obtained p.
     if x = other then Inr (w, Done)
     else disown p0 (put x (Some (Task_obj obtained p)) (put other (Some (Task_obj False None)) w))) w) w"

definition task_swap :: "nat \<Rightarrow> nat \<Rightarrow> ('a, 'r) fu_action" where
  "task_swap x other w = as_task x (\<lambda>obtained0 p0. as_task other (\<lambda>obtained p.
     Inr (put other (Some (Task_obj obtained0 p0)) (put x (Some (Task_obj obtained p)) w), Done)) w) w"

definition task_valid :: "nat \<Rightarrow> ('a, 'r) fu_action" where
  "task_valid x w = as_task x (\<lambda>obtained p. Inr (w, Valid (p \<noteq> None))) w"

definition task_get_future :: "nat \<Rightarrow> nat \<Rightarrow> ('a, 'r) fu_action" where
  "task_get_future x f w = unused f (as_task x (\<lambda>obtained p.
     if obtained then Inr (w, Ret (Thrown (Fut future_already_retrieved)))
     else with_state packaged_task_uninitialized p (\<lambda>a w.
       and_then (ss_add_ref p (put x (Some (Task_obj True p)) w)) (\<lambda>w.
         Inr (put f (Some (Future_obj p)) w, Done))) w) w) w"

text \<open>\<open>task_object::run\<close>: what the function throws, and what \<open>set_value\<close> throws, is caught and set.\<close>

definition task_object_run :: "nat \<Rightarrow> 'a \<Rightarrow> ('a, 'r) fu_action" where
  "task_object_run a args w =
     (case fu_heap w a of
        None \<Rightarrow> Inl Freed
      | Some n \<Rightarrow>
          (case nd_fn n of
             None \<Rightarrow> Inl Moved_fn
           | Some fn \<Rightarrow>
               (case fn args of
                  Inr value \<Rightarrow>
                    and_then (ss_call a (ss_set_value value) w) (\<lambda>(w, r).
                      case r of Ret (Thrown e) \<Rightarrow> ss_call a (ss_set_exception (Some e)) w | _ \<Rightarrow> Inr (w, r))
                | Inl e \<Rightarrow> ss_call a (ss_set_exception (Some e)) w)))"

definition task_object_run_void :: "nat \<Rightarrow> 'a \<Rightarrow> ('a, unit) fu_action" where
  "task_object_run_void a args w =
     (case fu_heap w a of
        None \<Rightarrow> Inl Freed
      | Some n \<Rightarrow>
          (case nd_fn n of
             None \<Rightarrow> Inl Moved_fn
           | Some fn \<Rightarrow>
               (case fn args of
                  Inr value \<Rightarrow>
                    and_then (ss_call a ss_set_value_void w) (\<lambda>(w, r).
                      case r of Ret (Thrown e) \<Rightarrow> ss_call a (ss_set_exception (Some e)) w | _ \<Rightarrow> Inr (w, r))
                | Inl e \<Rightarrow> ss_call a (ss_set_exception (Some e)) w)))"

text \<open>\<open>task_object::reset\<close>: a new state that takes the function.\<close>

definition task_object_reset :: "nat \<Rightarrow> ('a, 'r) futures \<Rightarrow> fault + (('a, 'r) futures \<times> nat)" where
  "task_object_reset a w =
     (case fu_heap w a of
        None \<Rightarrow> Inl Freed
      | Some n \<Rightarrow>
          let (w, b) = ss_alloc (nd_fn n) (w\<lparr>fu_heap := (fu_heap w)(a \<mapsto> n\<lparr>nd_fn := None\<rparr>)\<rparr>)
          in and_then (ss_add_ref (Some b) w) (\<lambda>w. Inr (w, b)))"

definition task_call :: "nat \<Rightarrow> 'a \<Rightarrow> ('a, 'r) fu_action" where
  "task_call x args w = as_task x (\<lambda>obtained p.
     with_state packaged_task_uninitialized p (\<lambda>a. task_object_run a args) w) w"

definition task_reset :: "nat \<Rightarrow> ('a, 'r) fu_action" where
  "task_reset x w = as_task x (\<lambda>obtained p.
     with_state packaged_task_uninitialized p (\<lambda>a w.
       and_then (ss_add_ref p w) (\<lambda>w.
       and_then (task_object_reset a w) (\<lambda>(w, b).
       and_then (ss_release p (put x (Some (Task_obj False (Some b))) w)) (\<lambda>w.
       disown p w)))) w) w"

text \<open>\<open>async\<close>: the task \<open>t\<close> of the fiber and the future \<open>f\<close> that is returned; \<open>tmp\<close> is the local task.
  The fiber calls its task, which is destroyed with the fiber.\<close>

definition async :: "nat \<Rightarrow> nat \<Rightarrow> nat \<Rightarrow> ('a \<Rightarrow> exn + 'r) \<Rightarrow> ('a, 'r) fu_action" where
  "async tmp f t fn w =
     and_then (task_new tmp fn w) (\<lambda>(w, r).
     and_then (task_get_future tmp f w) (\<lambda>(w, r).
     and_then (task_move t tmp w) (\<lambda>(w, r). task_delete tmp w)))"

definition async_fiber :: "nat \<Rightarrow> 'a \<Rightarrow> ('a, 'r) fu_action" where
  "async_fiber t args w =
     and_then (task_call t args w) (\<lambda>(w, r).
     and_then (task_delete t w) (\<lambda>(w, r'). Inr (w, r)))"

end
