(* ===== verification/Future_Counting.thy ===== *)
theory Future_Counting
  imports Futures
begin

text \<open>
  The handles of the futures never use a state that has been freed, and free each exactly when its
  last handle is gone: the count of a state is the number of its handles. During an operation the
  pointers in local variables count too, so the invariant has a list of these; with each it says
  whether it is the pointer of a \<open>promise\<close> or \<open>packaged_task\<close> (an owner), of which a state has one.
  And only a null exception pointer makes a state ready that holds nothing.
\<close>

subsection \<open>Counting\<close>

type_synonym local_ptr = "bool \<times> ptr"

definition own :: "fu_obj option \<Rightarrow> local_ptr" where
  "own v = (case v of
     None \<Rightarrow> (False, None)
   | Some (Future_obj p) \<Rightarrow> (False, p)
   | Some (Promise_obj b p) \<Rightarrow> (True, p)
   | Some (Task_obj b p) \<Rightarrow> (True, p))"

lemma own_simps [simp]:
  "own None = (False, None)" "own (Some (Future_obj p)) = (False, p)"
  "own (Some (Promise_obj b p)) = (True, p)" "own (Some (Task_obj b p)) = (True, p)"
  by (simp_all add: own_def)

fun points :: "nat \<Rightarrow> local_ptr \<Rightarrow> bool" where "points a (b, p) \<longleftrightarrow> p = Some a"
fun owns :: "nat \<Rightarrow> local_ptr \<Rightarrow> bool" where "owns a (b, p) \<longleftrightarrow> b \<and> p = Some a"

definition those :: "(local_ptr \<Rightarrow> bool) \<Rightarrow> local_ptr list \<Rightarrow> ('a, 'r) futures \<Rightarrow> nat" where
  "those P L w = card {x. P (own (fu_obj w x))} + length (filter P L)"

definition state_ok :: "'r shared_state \<Rightarrow> bool" where
  "state_ok d \<longleftrightarrow> (\<not> ss_ready d \<longrightarrow> ss_except d = None \<and> ss_storage d = None)"

definition fu_ok :: "local_ptr list \<Rightarrow> ('a, 'r) futures \<Rightarrow> bool" where
  "fu_ok L w \<longleftrightarrow>
     finite {x. fu_obj w x \<noteq> None} \<and>
     (\<forall>a. case fu_heap w a of
        None \<Rightarrow> those (points a) L w = 0
      | Some n \<Rightarrow> nd_count n = those (points a) L w \<and> 0 < nd_count n \<and> state_ok (nd_state n)) \<and>
     (\<forall>a \<ge> fu_next w. fu_heap w a = None) \<and>
     (\<forall>a. those (owns a) L w \<le> 1) \<and>
     (\<forall>x b a n. fu_obj w x = Some (Task_obj b (Some a)) \<longrightarrow> fu_heap w a = Some n \<longrightarrow> nd_fn n \<noteq> None)"

lemma fu_ok_at:
  "fu_ok L w \<Longrightarrow> case fu_heap w a of
     None \<Rightarrow> those (points a) L w = 0
   | Some n \<Rightarrow> nd_count n = those (points a) L w \<and> 0 < nd_count n \<and> state_ok (nd_state n)"
  unfolding fu_ok_def by blast

lemma fu_ok_fn:
  "fu_ok L w \<Longrightarrow> fu_obj w x = Some (Task_obj b (Some a)) \<Longrightarrow> fu_heap w a = Some n \<Longrightarrow> nd_fn n \<noteq> None"
  unfolding fu_ok_def by blast

text \<open>A state that is ready keeps what it holds for as long as it lives.\<close>

definition kept :: "('a, 'r) futures \<Rightarrow> ('a, 'r) futures \<Rightarrow> bool" where
  "kept w w' \<longleftrightarrow> fu_next w \<le> fu_next w' \<and>
     (\<forall>a n'. fu_heap w' a = Some n' \<longrightarrow> a < fu_next w \<longrightarrow>
        (\<exists>n. fu_heap w a = Some n \<and> (ss_ready (nd_state n) \<longrightarrow> nd_state n' = nd_state n)))"

lemma kept_refl [simp]: "kept w w"
  by (simp add: kept_def)

lemma kept_trans: 
  assumes k: "kept w1 w2" "kept w2 w3"
  shows "kept w1 w3"
  unfolding kept_def
proof (intro conjI allI impI)
  show "fu_next w1 \<le> fu_next w3" using k by (auto simp: kept_def)
  fix a n3 assume a: "fu_heap w3 a = Some n3" "a < fu_next w1"
  with k obtain n2 where n2: "fu_heap w2 a = Some n2" "ss_ready (nd_state n2) \<longrightarrow> nd_state n3 = nd_state n2"
    unfolding kept_def by (meson less_le_trans)
  with k(1) a(2) obtain n1 where "fu_heap w1 a = Some n1" "ss_ready (nd_state n1) \<longrightarrow> nd_state n2 = nd_state n1"
    unfolding kept_def by blast
  with n2(2) show "\<exists>n. fu_heap w1 a = Some n \<and> (ss_ready (nd_state n) \<longrightarrow> nd_state n3 = nd_state n)"
    by auto
qed

lemma kept_put [simp]: "kept w (put x v w') = kept w w'" "kept (put x v w) w' = kept w w'"
  by (simp_all add: kept_def put_def)

lemma put_simps [simp]:
  "fu_heap (put x v w) = fu_heap w" "fu_next (put x v w) = fu_next w" "fu_obj (put x v w) = (fu_obj w)(x := v)"
  "put x v (put x u w) = put x v w"
  by (simp_all add: put_def)

definition okay :: "('b \<Rightarrow> bool) \<Rightarrow> fault + 'b \<Rightarrow> bool" where
  "okay Q m \<longleftrightarrow> (case m of Inl f \<Rightarrow> f = No_object \<or> f = No_value | Inr x \<Rightarrow> Q x)"

lemma okay_simps [simp]: "okay Q (Inl f) = (f = No_object \<or> f = No_value)" "okay Q (Inr x) = Q x"
  by (simp_all add: okay_def)

lemma okay_bind: "okay P m \<Longrightarrow> (\<And>x. P x \<Longrightarrow> okay Q (f x)) \<Longrightarrow> okay Q (and_then m f)"
  by (cases m) simp_all

lemma okay_mono: "okay P m \<Longrightarrow> (\<And>x. P x \<Longrightarrow> Q x) \<Longrightarrow> okay Q m"
  by (cases m) simp_all

lemma okay_unused: "(fu_obj w x = None \<Longrightarrow> okay Q m) \<Longrightarrow> okay Q (unused x m w)"
  by (simp add: unused_def)

lemma okay_as_future: "(\<And>p. fu_obj w x = Some (Future_obj p) \<Longrightarrow> okay Q (f p)) \<Longrightarrow> okay Q (as_future x f w)"
  by (simp add: as_future_def split: option.split fu_obj.split)

lemma okay_as_promise:
  "(\<And>b p. fu_obj w x = Some (Promise_obj b p) \<Longrightarrow> okay Q (f b p)) \<Longrightarrow> okay Q (as_promise x f w)"
  by (simp add: as_promise_def split: option.split fu_obj.split)

lemma okay_as_task: "(\<And>b p. fu_obj w x = Some (Task_obj b p) \<Longrightarrow> okay Q (f b p)) \<Longrightarrow> okay Q (as_task x f w)"
  by (simp add: as_task_def split: option.split fu_obj.split)

subsection \<open>Local pointers\<close>

lemma card_upd:
  assumes "finite {y. P (g y)}"
  shows "card {y. P ((g(x := v)) y)} + of_bool (P (g x)) = card {y. P (g y)} + of_bool (P v)"
proof -
  define S where "S = {y. P (g y)} - {x}"
  have f: "finite S" "x \<notin> S" using assms by (simp_all add: S_def)
  have "{y. P ((g(x := v)) y)} = (if P v then insert x S else S)"
    "{y. P (g y)} = (if P (g x) then insert x S else S)"
    by (auto simp: S_def)
  then show ?thesis using f by simp
qed

text \<open>Storing a local pointer in an object gives the object's old pointer.\<close>

lemma finite_own:
  assumes "finite {x. fu_obj w x \<noteq> None}" "\<not> P (False, None)"
  shows "finite {y. P (own (fu_obj w y))}"
proof -
  have "{y. P (own (fu_obj w y))} \<subseteq> {x. fu_obj w x \<noteq> None}"
  proof
    fix y assume "y \<in> {y. P (own (fu_obj w y))}"
    with assms(2) show "y \<in> {x. fu_obj w x \<noteq> None}" by (cases "fu_obj w y") simp_all
  qed
  then show ?thesis using assms(1) by (rule finite_subset)
qed

lemma those_put:
  assumes "finite {x. fu_obj w x \<noteq> None}" "\<not> P (False, None)"
  shows "those P (own (fu_obj w x) # L) (put x v w) = those P (own v # L) w"
  using card_upd [of "\<lambda>v. P (own v)", OF finite_own [where P = P, OF assms], of x v]
  by (cases "P (own v)"; cases "P (own (fu_obj w x))") (simp_all del: fun_upd_apply add: those_def)

lemma fu_ok_put:
  assumes ok: "fu_ok (own v # L) w"
    and fn: "\<And>b a n. v = Some (Task_obj b (Some a)) \<Longrightarrow> fu_heap w a = Some n \<Longrightarrow> nd_fn n \<noteq> None"
  shows "fu_ok (own (fu_obj w x) # L) (put x v w)"
proof -
  have f: "finite {x. fu_obj w x \<noteq> None}" using ok by (simp add: fu_ok_def)
  have "{y. fu_obj (put x v w) y \<noteq> None} \<subseteq> insert x {y. fu_obj w y \<noteq> None}" by auto
  with f have "finite {y. fu_obj (put x v w) y \<noteq> None}" by (meson finite_insert finite_subset)
  moreover have e: "those (points a) (own (fu_obj w x) # L) (put x v w) = those (points a) (own v # L) w"
    "those (owns a) (own (fu_obj w x) # L) (put x v w) = those (owns a) (own v # L) w" for a
    by (simp_all add: those_put [OF f])
  moreover have "nd_fn n \<noteq> None"
    if "fu_obj (put x v w) y = Some (Task_obj b (Some a))" "fu_heap w a = Some n" for y b a n
    using that fn ok unfolding fu_ok_def by (cases "y = x") auto
  ultimately show ?thesis using ok unfolding fu_ok_def e put_simps(1,2) by blast
qed

lemma fu_ok_locals:
  "fu_ok ((b, None) # L) w = fu_ok L w"
  "fu_ok (l # l' # L) w = fu_ok (l' # l # L) w"
  "fu_ok ((True, p) # L) w \<Longrightarrow> fu_ok ((False, p) # L) w"
proof -
  have e: "those (points a) ((b, None) # L) w = those (points a) L w" "those (owns a) ((b, None) # L) w = those (owns a) L w" for a
    by (simp_all add: those_def)
  show "fu_ok ((b, None) # L) w = fu_ok L w" unfolding fu_ok_def e ..
  have "those P (l # l' # L) w = those P (l' # l # L) w" for P by (simp add: those_def)
  then show "fu_ok (l # l' # L) w = fu_ok (l' # l # L) w" unfolding fu_ok_def by presburger
  have e: "those (points a) ((True, p) # L) w = those (points a) ((False, p) # L) w" for a
    by (simp add: those_def)
  have o: "those (owns a) ((False, p) # L) w \<le> those (owns a) ((True, p) # L) w" for a
    by (simp add: those_def)
  show "fu_ok ((False, p) # L) w" if "fu_ok ((True, p) # L) w"
  proof -
    have "those (owns a) ((False, p) # L) w \<le> 1" for a
      using that o [of a] unfolding fu_ok_def by (meson le_trans)
    with that show ?thesis unfolding fu_ok_def e by blast
  qed
qed

lemma fu_ok_alive:
  assumes ok: "fu_ok L w" and "0 < those (points a) L w"
  shows "\<exists>n. fu_heap w a = Some n"
proof (cases "fu_heap w a")
  case None
  with fu_ok_at [OF ok, of a] assms(2) show ?thesis by simp
qed simp

lemma those_local: "P l \<Longrightarrow> 0 < those P (l # L) w"
  by (simp add: those_def)

lemma fu_ok_local_alive: "fu_ok ((b, Some a) # L) w \<Longrightarrow> \<exists>n. fu_heap w a = Some n"
  by (erule fu_ok_alive) (simp add: those_local)

lemma those_obj:
  assumes "finite {x. fu_obj w x \<noteq> None}" "\<not> P (False, None)" "P (own (fu_obj w x))"
  shows "0 < those P L w"
  using finite_own [where P = P, OF assms(1,2)] assms(3) by (auto simp: those_def card_gt_0_iff)

lemma fu_ok_obj_alive:
  assumes ok: "fu_ok L w" and o: "own (fu_obj w x) = (b, Some a)"
  shows "\<exists>n. fu_heap w a = Some n"
  by (rule fu_ok_alive [OF ok], rule those_obj [where x = x]) (use ok o in \<open>simp_all add: fu_ok_def\<close>)

text \<open>Changing the node at one address.\<close>

lemma fu_ok_node:
  assumes ok: "fu_ok L w" and n: "fu_heap w a = Some n" and w': "w' = w\<lparr>fu_heap := (fu_heap w)(a := v)\<rparr>"
    and v: "case v of None \<Rightarrow> those (points a) L' w = 0
      | Some m \<Rightarrow> nd_count m = those (points a) L' w \<and> 0 < nd_count m \<and> state_ok (nd_state m) \<and> nd_fn m = nd_fn n"
    and L: "\<And>b. b \<noteq> a \<Longrightarrow> those (points b) L' w = those (points b) L w"
    and O: "\<And>b. those (owns b) L' w \<le> those (owns b) L w"
  shows "fu_ok L' w'"
proof -
  have t: "those P M w' = those P M w" for P M by (simp add: those_def w')
  have h: "fu_heap w' b = (if b = a then v else fu_heap w b)" for b by (simp add: w')
  have r: "fu_next w' = fu_next w" "fu_obj w' = fu_obj w" by (simp_all add: w')
  have c: "case fu_heap w' b of None \<Rightarrow> those (points b) L' w' = 0
      | Some n \<Rightarrow> nd_count n = those (points b) L' w' \<and> 0 < nd_count n \<and> state_ok (nd_state n)" for b
    using fu_ok_at [OF ok, of b] v L [of b] unfolding t h by (cases "b = a") (auto split: option.splits)
  have "\<not> fu_next w \<le> a" using ok n by (auto simp: fu_ok_def)
  then have x: "\<forall>b \<ge> fu_next w'. fu_heap w' b = None" using ok unfolding h r fu_ok_def by auto
  have o: "those (owns b) L' w' \<le> 1" for b
    using ok O [of b] unfolding t fu_ok_def by (meson le_trans)
  have "nd_fn m \<noteq> None" if "fu_obj w' x = Some (Task_obj k (Some b))" "fu_heap w' b = Some m" for x k b m
  proof (cases "b = a")
    case True
    with that v n have "nd_fn m = nd_fn n" by (simp add: h)
    with fu_ok_fn [OF ok, of x k a n] n that True show ?thesis by (simp add: r)
  next
    case False
    with fu_ok_fn [OF ok, of x k b m] that show ?thesis by (simp add: r h)
  qed
  with ok c x o show ?thesis unfolding fu_ok_def r by blast
qed

definition quiet :: "('a, 'r) futures \<Rightarrow> ('a, 'r) futures \<Rightarrow> bool" where
  "quiet w w' \<longleftrightarrow> fu_obj w' = fu_obj w \<and> kept w w' \<and>
     (\<forall>a n'. fu_heap w' a = Some n' \<longrightarrow> (\<exists>n. fu_heap w a = Some n \<and> nd_fn n' = nd_fn n))"

lemma quietD:
  assumes "quiet w w'"
  shows "fu_obj w' = fu_obj w" "kept w w'"
    "fu_heap w' a = Some n' \<Longrightarrow> \<exists>n. fu_heap w a = Some n \<and> nd_fn n' = nd_fn n"
  using assms by (auto simp: quiet_def)

lemma quiet_refl [simp]: "quiet w w"
  by (simp add: quiet_def)

definition live :: "ptr \<Rightarrow> ('a, 'r) futures \<Rightarrow> bool" where
  "live p w \<longleftrightarrow> (\<forall>a. p = Some a \<longrightarrow> (\<exists>n. fu_heap w a = Some n))"

lemma live_put [simp]: "live p (put x v w) = live p w"
  by (simp add: live_def)

lemma live_local: "fu_ok ((b, p) # L) w \<Longrightarrow> live p w"
  using fu_ok_local_alive by (auto simp: live_def)

lemma live_obj: "fu_ok L w \<Longrightarrow> own (fu_obj w x) = (b, p) \<Longrightarrow> live p w"
  using fu_ok_obj_alive by (auto simp: live_def)

lemma quiet_node:
  assumes "fu_heap w a = Some n" "w' = w\<lparr>fu_heap := (fu_heap w)(a := v)\<rparr>"
    and "\<And>m. v = Some m \<Longrightarrow> (ss_ready (nd_state n) \<longrightarrow> nd_state m = nd_state n) \<and> nd_fn m = nd_fn n"
  shows "quiet w w'"
  using assms by (auto simp: quiet_def kept_def)

lemma okay_add_ref:
  assumes ok: "fu_ok L w" and l: "live p w"
  shows "okay (\<lambda>w'. fu_ok ((False, p) # L) w' \<and> quiet w w') (ss_add_ref p w)"
proof (cases p)
  case None
  with ok show ?thesis by (simp add: ss_add_ref_def fu_ok_locals)
next
  case (Some a)
  with l obtain n where n: "fu_heap w a = Some n" by (auto simp: live_def)
  let ?w = "w\<lparr>fu_heap := (fu_heap w)(a \<mapsto> n\<lparr>nd_count := nd_count n + 1\<rparr>)\<rparr>"
  have "fu_ok ((False, p) # L) ?w"
    by (rule fu_ok_node [OF ok n refl]) (use fu_ok_at [OF ok, of a] n Some in \<open>simp_all add: those_def\<close>)
  moreover have "quiet w ?w" by (rule quiet_node [OF n refl]) auto
  ultimately show ?thesis using n Some by (simp add: ss_add_ref_def)
qed

lemma okay_release:
  assumes ok: "fu_ok ((b, p) # L) w"
  shows "okay (\<lambda>w'. fu_ok L w' \<and> quiet w w') (ss_release p w)"
proof (cases p)
  case None
  with ok show ?thesis by (simp add: ss_release_def fu_ok_locals)
next
  case (Some a)
  with live_local [OF ok] obtain n where n: "fu_heap w a = Some n" by (auto simp: live_def)
  have c: "nd_count n = those (points a) L w + 1" "state_ok (nd_state n)"
    using fu_ok_at [OF ok, of a] n Some by (simp_all add: those_def)
  have o: "those (points c) ((b, p) # L) w = those (points c) L w" if "c \<noteq> a" for c
    using that Some by (simp add: those_def)
  have q: "those (owns c) L w \<le> those (owns c) ((b, p) # L) w" for c by (simp add: those_def)
  have k: "fu_ok L (w\<lparr>fu_heap := (fu_heap w)(a := v)\<rparr>)" "quiet w (w\<lparr>fu_heap := (fu_heap w)(a := v)\<rparr>)"
    if v: "v = (if nd_count n - 1 = 0 then None else Some (n\<lparr>nd_count := nd_count n - 1\<rparr>))" for v
  proof -
    show "fu_ok L (w\<lparr>fu_heap := (fu_heap w)(a := v)\<rparr>)"
      by (rule fu_ok_node [OF ok n refl _ _ q]) (use v c o in simp_all)
    show "quiet w (w\<lparr>fu_heap := (fu_heap w)(a := v)\<rparr>)"
      by (rule quiet_node [OF n refl]) (use v in \<open>auto split: if_splits\<close>)
  qed
  show ?thesis using k [OF refl] c(1) n Some
    by (cases "those (points a) L w = 0") (simp_all add: ss_release_def deallocate_future_def split: option.split)
qed

definition body_ok :: "('r shared_state \<Rightarrow> 'r ss_section) \<Rightarrow> bool" where
  "body_ok body \<longleftrightarrow> (\<forall>d d' ns r. state_ok d \<longrightarrow> body d = (d', Leave ns r) \<longrightarrow>
     state_ok d' \<and> (ss_ready d \<longrightarrow> d' = d))"

lemma okay_call:
  assumes ok: "fu_ok L w" and l: "live (Some a) w" and b: "body_ok body"
  shows "okay (\<lambda>(w', r). fu_ok L w' \<and> quiet w w') (ss_call a body w)"
proof -
  from l obtain n where n: "fu_heap w a = Some n" by (auto simp: live_def)
  obtain d v where v: "body (nd_state n) = (d, v)" by fastforce
  have s: "nd_count n = those (points a) L w" "0 < nd_count n" "state_ok (nd_state n)"
    using fu_ok_at [OF ok, of a] n by simp_all
  show ?thesis
  proof (cases v)
    case (Leave ns r)
    with b v s(3) have d: "state_ok d" "ss_ready (nd_state n) \<longrightarrow> d = nd_state n"
      unfolding body_ok_def by blast+
    let ?w = "w\<lparr>fu_heap := (fu_heap w)(a \<mapsto> n\<lparr>nd_state := d\<rparr>)\<rparr>"
    have "fu_ok L ?w" by (rule fu_ok_node [OF ok n refl]) (use s d in simp_all)
    moreover have "quiet w ?w" by (rule quiet_node [OF n refl]) (use d in auto)
    ultimately show ?thesis using n v Leave by (simp add: ss_call_def)
  next
    case (Wait_on k b op)
    with n v ok show ?thesis by (simp add: ss_call_def)
  qed
qed

lemma body_ok_all [simp]:
  "body_ok (ss_set_value v)" "body_ok (ss_set_exception e)" "body_ok ss_owner_destroyed"
  "body_ok ss_get" "body_ok ss_get_exception_ptr" "body_ok (ss_wait_until st)"
  "body_ok (ss_wait op (\<lambda>d. (d, Leave [] r)))"
  by (auto simp: body_ok_def state_ok_def ss_set_value_def ss_set_exception_def ss_owner_destroyed_def
      ss_get_def ss_get_exception_ptr_def ss_wait_def ss_wait_until_def mark_ready_and_notify_def split: if_splits)

text \<open>A new state is owned by the object being constructed.\<close>

lemma those_none:
  assumes ok: "fu_ok L w" and "fu_heap w a = None"
  shows "those (points a) L w = 0" "those (owns a) L w = 0"
proof -
  show 1: "those (points a) L w = 0" using fu_ok_at [OF ok, of a] assms(2) by simp
  have "finite {y. points a (own (fu_obj w y))}" by (rule finite_own) (use ok in \<open>simp_all add: fu_ok_def\<close>)
  with 1 have "{y. points a (own (fu_obj w y))} = {}" "filter (points a) L = []"
    by (simp_all add: those_def)
  moreover have "owns a l \<Longrightarrow> points a l" for l by (cases l) simp
  ultimately have "{y. owns a (own (fu_obj w y))} = {}" "filter (owns a) L = []"
    unfolding filter_empty_conv by blast+
  then show "those (owns a) L w = 0" by (simp add: those_def)
qed

lemma okay_alloc:
  assumes ok: "fu_ok L w" and al: "ss_alloc fn w = (w1, a)"
  shows "okay (\<lambda>w'. fu_ok ((True, Some a) # L) w' \<and> kept w w' \<and> fu_obj w' = fu_obj w \<and>
    (\<exists>n. fu_heap w' a = Some n \<and> nd_fn n = fn)) (ss_add_ref (Some a) w1)"
proof -
  let ?n = "\<lparr>nd_count = 1, nd_state = shared_state_new, nd_fn = fn\<rparr>"
  let ?w = "w\<lparr>fu_heap := (fu_heap w)(a \<mapsto> ?n), fu_next := fu_next w + 1\<rparr>"
  have a: "a = fu_next w" "fu_heap w a = None" using al ok by (auto simp: ss_alloc_def fu_ok_def)
  note z = those_none [OF ok a(2)]
  have r: "ss_add_ref (Some a) w1 = Inr ?w" using al a by (auto simp: ss_alloc_def ss_add_ref_def)
  have t: "those (points c) ((True, Some a) # L) ?w = those (points c) L w + of_bool (c = a)"
    "those (owns c) ((True, Some a) # L) ?w = those (owns c) L w + of_bool (c = a)" for c
    by (auto simp: those_def)
  have "case fu_heap ?w c of None \<Rightarrow> those (points c) ((True, Some a) # L) ?w = 0
    | Some n \<Rightarrow> nd_count n = those (points c) ((True, Some a) # L) ?w \<and> 0 < nd_count n \<and> state_ok (nd_state n)" for c
    using fu_ok_at [OF ok, of c] z unfolding t by (cases "c = a") (auto simp: state_ok_def shared_state_new_def split: option.splits)
  moreover have "those (owns c) ((True, Some a) # L) ?w \<le> 1" for c
    using ok z unfolding t fu_ok_def by (cases "c = a") auto
  moreover have "nd_fn n \<noteq> None" if "fu_obj ?w x = Some (Task_obj b (Some c))" "fu_heap ?w c = Some n" for x b c n
  proof -
    have "c \<noteq> a" using live_obj [OF ok, of x True "Some c"] that(1) a(2) by (auto simp: live_def)
    with fu_ok_fn [OF ok, of x b c n] that show ?thesis by simp
  qed
  moreover have "finite {x. fu_obj ?w x \<noteq> None}" "\<forall>c \<ge> fu_next ?w. fu_heap ?w c = None"
    using ok a unfolding fu_ok_def by auto
  ultimately have "fu_ok ((True, Some a) # L) ?w" unfolding fu_ok_def by blast
  with r a show ?thesis by (auto simp: kept_def)
qed

subsection \<open>The operations\<close>

definition fine :: "('a, 'r) futures \<Rightarrow> fault + (('a, 'r) futures \<times> 'r fu_result) \<Rightarrow> bool" where
  "fine w m \<longleftrightarrow> okay (\<lambda>(w', r). fu_ok [] w' \<and> kept w w') m"

lemma fine_simps [simp]: "fine w (Inl f) = (f = No_object \<or> f = No_value)" "fine w (Inr (w', r)) = (fu_ok [] w' \<and> kept w w')"
  by (simp_all add: fine_def)

lemma fine_bind: "okay P m \<Longrightarrow> (\<And>x. P x \<Longrightarrow> fine w (f x)) \<Longrightarrow> fine w (and_then m f)"
  unfolding fine_def by (rule okay_bind)

lemma fine_kept: "kept w w' \<Longrightarrow> fine w' m \<Longrightarrow> fine w m"
  unfolding fine_def by (erule okay_mono) (auto intro: kept_trans)

lemma fine_with_state:
  "fu_ok [] w \<Longrightarrow> (\<And>a. p = Some a \<Longrightarrow> fine w (f a w)) \<Longrightarrow> fine w (with_state e p f w)"
  by (cases p) (simp_all add: with_state_def)

lemma fine_call:
  assumes "fu_ok [] w" "own (fu_obj w x) = (b, Some a)" "body_ok body"
  shows "fine w (ss_call a body w)"
proof -
  have "okay (\<lambda>(w', r). fu_ok [] w' \<and> quiet w w') (ss_call a body w)"
    by (rule okay_call [OF assms(1) live_obj [OF assms(1,2)] assms(3)])
  then show ?thesis unfolding fine_def by (rule okay_mono) (auto dest: quietD(2))
qed

text \<open>What each kind of object needs: the pointer is put into the object, the old one comes out.\<close>

lemma fu_ok_future:
  "fu_ok ((False, p) # L) w \<Longrightarrow> fu_ok (own (fu_obj w x) # L) (put x (Some (Future_obj p)) w)"
  "fu_ok L w \<Longrightarrow> fu_ok (own (fu_obj w x) # L) (put x (Some (Future_obj None)) w)"
  "fu_ok L w \<Longrightarrow> fu_ok (own (fu_obj w x) # L) (put x None w)"
  using fu_ok_put [of "Some (Future_obj p)" L w x] fu_ok_put [of "Some (Future_obj None)" L w x]
    fu_ok_put [of None L w x] by (simp_all add: fu_ok_locals)

lemma fu_ok_owner:
  "fu_ok ((True, p) # L) w \<Longrightarrow> fu_ok (own (fu_obj w x) # L) (put x (Some (Promise_obj b p)) w)"
  "fu_ok ((True, p) # L) w \<Longrightarrow> (\<And>a n. p = Some a \<Longrightarrow> fu_heap w a = Some n \<Longrightarrow> nd_fn n \<noteq> None) \<Longrightarrow>
    fu_ok (own (fu_obj w x) # L) (put x (Some (Task_obj b p)) w)"
  using fu_ok_put [of "Some (Promise_obj b p)" L w x] fu_ok_put [of "Some (Task_obj b p)" L w x] by simp_all

lemma fine_release:
  assumes "fu_ok ((b, p) # L) w1" "kept w w1"
    and "\<And>w2. fu_ok L w2 \<Longrightarrow> kept w w2 \<Longrightarrow> fu_obj w2 = fu_obj w1 \<Longrightarrow> quiet w1 w2 \<Longrightarrow> fine w (f w2)"
  shows "fine w (and_then (ss_release p w1) f)"
  by (rule fine_bind [OF okay_release [OF assms(1)]], rule assms(3))
    (use assms(2) in \<open>auto dest: quietD intro: kept_trans\<close>)

lemma fine_add_ref:
  assumes "fu_ok L w1" "live p w1" "kept w w1"
    and "\<And>w2. fu_ok ((False, p) # L) w2 \<Longrightarrow> kept w w2 \<Longrightarrow> fu_obj w2 = fu_obj w1 \<Longrightarrow> quiet w1 w2 \<Longrightarrow> fine w (f w2)"
  shows "fine w (and_then (ss_add_ref p w1) f)"
  by (rule fine_bind [OF okay_add_ref [OF assms(1,2)]], rule assms(4))
    (use assms(3) in \<open>auto dest: quietD intro: kept_trans\<close>)

lemma fine_unused: "(fu_obj w x = None \<Longrightarrow> fine w m) \<Longrightarrow> fine w (unused x m w)"
  by (simp add: unused_def)

lemma fine_as:
  "(\<And>p. fu_obj w x = Some (Future_obj p) \<Longrightarrow> fine w (f p)) \<Longrightarrow> fine w (as_future x f w)"
  "(\<And>b p. fu_obj w x = Some (Promise_obj b p) \<Longrightarrow> fine w (g b p)) \<Longrightarrow> fine w (as_promise x g w)"
  "(\<And>b p. fu_obj w x = Some (Task_obj b p) \<Longrightarrow> fine w (g b p)) \<Longrightarrow> fine w (as_task x g w)"
  unfolding fine_def by (rule okay_as_future okay_as_promise okay_as_task; blast)+

text \<open>A copy of \<open>p\<close> goes into \<open>x\<close>, the pointer that was there is released.\<close>

lemma fine_future_store:
  assumes "fu_ok L w1" "live p w1" "kept w w1" "own (fu_obj w1 x) = (False, old)"
    and "\<And>w2. fu_ok L w2 \<Longrightarrow> kept w w2 \<Longrightarrow> fu_obj w2 = (fu_obj w1)(x := Some (Future_obj p)) \<Longrightarrow> fine w (f w2)"
  shows "fine w (and_then (ss_add_ref p w1) (\<lambda>w. and_then (ss_release old (put x (Some (Future_obj p)) w)) f))"
proof (rule fine_add_ref [OF assms(1-3)])
  fix w2 assume w2: "fu_ok ((False, p) # L) w2" "kept w w2" "fu_obj w2 = fu_obj w1"
  show "fine w (and_then (ss_release old (put x (Some (Future_obj p)) w2)) f)"
    by (rule fine_release [where b = False]) (use fu_ok_future(1) [OF w2(1), of x] w2 assms(4,5) in simp_all)
qed

text \<open>A future is emptied.\<close>

lemma fine_future_clear:
  assumes "fu_ok L w1" "kept w w1" "fu_obj w1 x = Some (Future_obj p)"
    and "\<And>w2. fu_ok L w2 \<Longrightarrow> kept w w2 \<Longrightarrow> fine w (f w2)"
  shows "fine w (and_then (ss_release p (put x (Some (Future_obj None)) w1)) f)"
  by (rule fine_release [where b = False]) (use fu_ok_future(2) [OF assms(1), of x] assms in simp_all)

lemma future_base_fine:
  assumes ok: "fu_ok [] w"
  shows "fine w (future_new x w)" "fine w (future_delete x w)" "fine w (future_copy x y w)"
    "fine w (future_move x y w)" "fine w (future_copy_assign x y w)" "fine w (future_move_assign x y w)"
    "fine w (future_valid x w)"
proof -
  have l: "live p w" if "fu_obj w y = Some (Future_obj p)" for y p
    using live_obj [OF ok, of y False p] that by simp
  show "fine w (future_new x w)" unfolding future_new_def
    by (rule fine_unused) (use fu_ok_future(2) [OF ok, of x] in \<open>simp add: fu_ok_locals\<close>)
  show "fine w (future_delete x w)" unfolding future_delete_def
    by (intro fine_as fine_release [where b = False and L = "[]"])
      (use fu_ok_future(3) [OF ok, of x] in simp_all)
  show "fine w (future_valid x w)" unfolding future_valid_def by (rule fine_as) (simp add: ok)
  show "fine w (future_copy x y w)" unfolding future_copy_def
  proof (intro fine_unused fine_as fine_add_ref [OF ok l])
    fix p w2 assume "fu_ok [(False, p)] w2" "fu_obj w2 = fu_obj w" "fu_obj w x = None" "kept w w2"
    with fu_ok_future(1) [OF this(1), of x] show "fine w (Inr (put x (Some (Future_obj p)) w2, Done))"
      by (simp add: fu_ok_locals)
  qed simp_all
  show "fine w (future_move x y w)" unfolding future_move_def Let_def
  proof (intro fine_unused fine_as fine_add_ref [OF ok l] fine_future_clear [where L = "[]"])
    fix p w2 assume w2: "fu_ok [(False, p)] w2" "fu_obj w2 = fu_obj w" "kept w w2"
      and x: "fu_obj w x = None" "fu_obj w y = Some (Future_obj p)"
    show "fu_ok [] (put x (Some (Future_obj p)) w2)" "kept w (put x (Some (Future_obj p)) w2)"
      "fu_obj (put x (Some (Future_obj p)) w2) y = Some (Future_obj p)"
      using fu_ok_future(1) [OF w2(1), of x] x w2 by (auto simp: fu_ok_locals)
  qed simp_all
  show "fine w (future_copy_assign x y w)" unfolding future_copy_assign_def
  proof (intro fine_as)
    fix old p assume x: "fu_obj w x = Some (Future_obj old)" "fu_obj w y = Some (Future_obj p)"
    show "fine w (if x = y then Inr (w, Done)
      else and_then (ss_add_ref p w) (\<lambda>w. and_then (ss_release old (put x (Some (Future_obj p)) w)) (\<lambda>w. Inr (w, Done))))"
      by (simp add: ok) (intro impI fine_future_store [OF ok l [OF x(2)]]; simp add: x)
  qed
  show "fine w (future_move_assign x y w)" unfolding future_move_assign_def
  proof (intro fine_as)
    fix old p assume x: "fu_obj w x = Some (Future_obj old)" "fu_obj w y = Some (Future_obj p)"
    show "fine w (if x = y then Inr (w, Done)
      else and_then (ss_add_ref p w) (\<lambda>w. and_then (ss_release old (put x (Some (Future_obj p)) w)) (\<lambda>w.
        and_then (ss_release p (put y (Some (Future_obj None)) w)) (\<lambda>w. Inr (w, Done)))))"
      by (simp add: ok)
        (intro impI fine_future_store [OF ok l [OF x(2)]] fine_future_clear [where L = "[]"]; simp add: x)
  qed
qed

lemma future_use_fine:
  assumes ok: "fu_ok [] w"
  shows "fine w (future_get_exception_ptr x w)" "fine w (future_wait x w)" "fine w (future_wait_until st x w)"
    "fine w (shared_future_get x w)" "fine w (future_share y x w)"
proof -
  have c: "fine w (as_future x (\<lambda>p. with_state e p (\<lambda>a. ss_call a body) w) w)" if "body_ok body" for body e
    by (intro fine_as fine_with_state [OF ok] fine_call [OF ok, where x = x and b = False])
      (use that in simp_all)
  show "fine w (future_get_exception_ptr x w)" "fine w (future_wait x w)" "fine w (future_wait_until st x w)"
    "fine w (shared_future_get x w)"
    unfolding future_get_exception_ptr_def future_wait_def future_wait_until_def shared_future_get_def
      shared_get_from_def by (rule c; simp)+
  show "fine w (future_share y x w)" unfolding future_share_def
    by (intro fine_as fine_with_state [OF ok] future_base_fine [OF ok])
qed

lemma future_get_fine:
  assumes ok: "fu_ok [] w"
  shows "fine w (future_get x w)"
  unfolding future_get_def get_from_def
proof (intro fine_as fine_with_state [OF ok])
  fix p a assume x: "fu_obj w x = Some (Future_obj p)" "p = Some a"
  have u: "fu_ok [(False, p)] (put x (Some (Future_obj None)) w)" using fu_ok_future(2) [OF ok, of x] x by simp
  show "fine w (and_then (ss_call a ss_get (put x (Some (Future_obj None)) w))
      (\<lambda>(w', r). if r = Blocks then Inr (w, Blocks) else and_then (ss_release p w') (\<lambda>w. Inr (w, r))))"
  proof (rule fine_bind [OF okay_call [OF u live_local [OF u, unfolded x(2)]]])
    fix z :: "('a, 'b) futures \<times> 'b fu_result"
    assume z: "case z of (w', r) \<Rightarrow> fu_ok [(False, p)] w' \<and> quiet (put x (Some (Future_obj None)) w) w'"
    obtain w' r where w': "z = (w', r)" by fastforce
    have k: "kept w w'" "fu_ok [(False, p)] w'" using z w' quietD(2) by fastforce+
    show "fine w (case z of (w', r) \<Rightarrow> if r = Blocks then Inr (w, Blocks)
        else and_then (ss_release p w') (\<lambda>w. Inr (w, r)))"
      unfolding w' by (simp add: ok) (intro impI fine_release [OF k(2,1)]; simp)
  qed simp
qed

lemma fine_disown:
  assumes ok: "fu_ok [(b, p)] w1" and k: "kept w w1"
  shows "fine w (disown p w1)"
proof -
  have m: "okay (\<lambda>(w', r). fu_ok [(b, p)] w' \<and> kept w w')
      (case p of None \<Rightarrow> Inr (w1, Done) | Some a \<Rightarrow> ss_call a ss_owner_destroyed w1)"
  proof (cases p)
    case (Some a)
    have "okay (\<lambda>(w', r). fu_ok [(b, p)] w' \<and> quiet w1 w') (ss_call a ss_owner_destroyed w1)"
      using okay_call [OF ok, of a] live_local [OF ok] Some by simp
    then show ?thesis unfolding Some option.case by (rule okay_mono) (use k in \<open>auto dest: quietD(2) intro: kept_trans\<close>)
  qed (use ok k in simp)
  show ?thesis unfolding disown_def
  proof (rule fine_bind [OF m])
    fix z :: "('a, 'b) futures \<times> 'b fu_result"
    assume z: "case z of (w', r) \<Rightarrow> fu_ok [(b, p)] w' \<and> kept w w'"
    obtain w' r where w': "z = (w', r)" by fastforce
    show "fine w (case z of (w, r) \<Rightarrow> and_then (ss_release p w) (\<lambda>w. Inr (w, Done)))"
      using z unfolding w' by (auto intro: fine_release)
  qed
qed

lemma put_commute: "x \<noteq> y \<Longrightarrow> put x v (put y u w) = put y u (put x v w)"
  by (simp add: put_def fun_upd_twist)

text \<open>Moving the pointer of an owner: it is taken from \<open>y\<close> and put into \<open>x\<close>.\<close>

definition owner_like :: "(bool \<Rightarrow> ptr \<Rightarrow> fu_obj) \<Rightarrow> bool" where
  "owner_like C \<longleftrightarrow> C = Promise_obj \<or> C = Task_obj"

lemma owner_like_own: "owner_like C \<Longrightarrow> own (Some (C b p)) = (True, p)"
  by (auto simp: owner_like_def)

lemma fu_ok_own_put:
  assumes "owner_like C" "fu_ok ((True, p) # L) w"
    and "\<And>a n. C = Task_obj \<Longrightarrow> p = Some a \<Longrightarrow> fu_heap w a = Some n \<Longrightarrow> nd_fn n \<noteq> None"
  shows "fu_ok (own (fu_obj w x) # L) (put x (Some (C b p)) w)"
  using fu_ok_put [of "Some (C b p)" L w x] assms by (auto simp: owner_like_def)

lemma fu_ok_take:
  assumes ok: "fu_ok L w" and C: "owner_like C" and y: "fu_obj w y = Some (C b p)"
  shows "fu_ok ((True, p) # L) (put y (Some (C b' None)) w)"
    and "C = Task_obj \<Longrightarrow> p = Some a \<Longrightarrow> fu_heap w a = Some n \<Longrightarrow> nd_fn n \<noteq> None"
proof -
  show "fu_ok ((True, p) # L) (put y (Some (C b' None)) w)"
    using fu_ok_own_put [OF C, of None L w y b'] ok owner_like_own [OF C] y by (simp add: fu_ok_locals)
  show "nd_fn n \<noteq> None" if "C = Task_obj" "p = Some a" "fu_heap w a = Some n"
    using fu_ok_fn [OF ok, of y b a n] y that by simp
qed

lemma fu_ok_moved:
  assumes ok: "fu_ok [] w" and C: "owner_like C" and y: "fu_obj w y = Some (C b p)" and xy: "x \<noteq> y"
  shows "fu_ok [own (fu_obj w x)] (put x (Some (C b p)) (put y (Some (C b' None)) w))"
  using fu_ok_own_put [OF C fu_ok_take(1) [OF ok C y], of b' x b] fu_ok_take(2) [OF ok C y] xy by simp

lemma fu_ok_swapped:
  assumes ok: "fu_ok [] w" and C: "owner_like C" and x: "fu_obj w x = Some (C b p)" and y: "fu_obj w y = Some (C d q)"
  shows "fu_ok [] (put y (Some (C b p)) (put x (Some (C d q)) w))"
proof (cases "x = y")
  case True
  with x y have "put y (Some (C b p)) (put x (Some (C d q)) w) = w" by (simp add: put_def fun_upd_idem)
  with ok show ?thesis by simp
next
  case False
  let ?w = "put x (Some (C d q)) (put y (Some (C d None)) w)"
  have m: "fu_ok [(True, p)] ?w"
    using fu_ok_moved [OF ok C y False, of d] owner_like_own [OF C] x by simp
  have "fu_ok [own (fu_obj ?w y)] (put y (Some (C b p)) ?w)"
    by (rule fu_ok_own_put [OF C m]) (use fu_ok_take(2) [OF ok C x] in simp)
  then have "fu_ok [] (put y (Some (C b p)) ?w)"
    using False owner_like_own [OF C] by (simp add: fu_ok_locals)
  with False show ?thesis by (simp add: put_commute [of x y])
qed

lemma owner_likes [simp]: "owner_like Promise_obj" "owner_like Task_obj"
  by (simp_all add: owner_like_def)

lemma promise_not_task [simp]: "Promise_obj \<noteq> Task_obj" "Task_obj \<noteq> Promise_obj"
  by (metis fu_obj.distinct(5))+

lemma fine_alloc:
  assumes ok: "fu_ok L w" and x: "own (fu_obj w x) = (b, None)" and C: "owner_like C"
    and fn: "C = Task_obj \<Longrightarrow> fn \<noteq> None"
    and f: "\<And>w2 a. fu_ok L w2 \<Longrightarrow> kept w w2 \<Longrightarrow> fine w (f w2)"
  shows "fine w (let (w, a) = ss_alloc fn w in
    and_then (ss_add_ref (Some a) w) (\<lambda>w. f (put x (Some (C d (Some a))) w)))"
proof -
  obtain w1 a where al: "ss_alloc fn w = (w1, a)" by fastforce
  show ?thesis unfolding al Let_def prod.case
  proof (rule fine_bind [OF okay_alloc [OF ok al]])
    fix w2 assume w2: "fu_ok ((True, Some a) # L) w2 \<and> kept w w2 \<and> fu_obj w2 = fu_obj w \<and>
      (\<exists>n. fu_heap w2 a = Some n \<and> nd_fn n = fn)"
    then have "fu_ok (own (fu_obj w2 x) # L) (put x (Some (C d (Some a))) w2)"
      using fn by (intro fu_ok_own_put [OF C]) auto
    with w2 x show "fine w (f (put x (Some (C d (Some a))) w2))" by (intro f) (simp_all add: fu_ok_locals)
  qed
qed

lemma fine_owner_new:
  assumes ok: "fu_ok [] w" and C: "owner_like C" and fn: "C = Task_obj \<Longrightarrow> fn \<noteq> None"
  shows "fine w (unused x (let (w, a) = ss_alloc fn w in
    and_then (ss_add_ref (Some a) w) (\<lambda>w. Inr (put x (Some (C d (Some a))) w, r))) w)"
proof (rule fine_unused)
  assume x: "fu_obj w x = None"
  show "fine w (let (w, a) = ss_alloc fn w in
    and_then (ss_add_ref (Some a) w) (\<lambda>w. Inr (put x (Some (C d (Some a))) w, r)))"
    by (rule fine_alloc [OF ok _ C fn, where b = False and f = "\<lambda>w. Inr (w, r)"]) (simp_all add: x)
qed

text \<open>\<open>get_future\<close>: another pointer to the owner's state.\<close>

lemma fine_get_future:
  assumes ok: "fu_ok [] w" and C: "owner_like C" and x: "fu_obj w x = Some (C b p)" and f: "fu_obj w f = None"
  shows "fine w (and_then (ss_add_ref p (put x (Some (C d p)) w)) (\<lambda>w. Inr (put f (Some (Future_obj p)) w, r)))"
proof (rule fine_add_ref)
  have "fu_ok [own (fu_obj (put x (Some (C d None)) w) x)] (put x (Some (C d p)) (put x (Some (C d None)) w))"
    by (rule fu_ok_own_put [OF C fu_ok_take(1) [OF ok C x]]) (use fu_ok_take(2) [OF ok C x] in simp)
  then show ok': "fu_ok [] (put x (Some (C d p)) w)" using owner_like_own [OF C] by (simp add: fu_ok_locals)
  show "live p (put x (Some (C d p)) w)" using live_obj [OF ok, of x True p] x owner_like_own [OF C] by simp
  show "kept w (put x (Some (C d p)) w)" by simp
  fix w2 assume w2: "fu_ok [(False, p)] w2" "kept w w2" "fu_obj w2 = fu_obj (put x (Some (C d p)) w)"
  then have "own (fu_obj w2 f) = (False, None)" using f x by auto
  with fu_ok_future(1) [OF w2(1), of f] w2(2) show "fine w (Inr (put f (Some (Future_obj p)) w2, r))"
    by (simp add: fu_ok_locals)
qed

lemma promise_fine:
  assumes ok: "fu_ok [] w"
  shows "fine w (promise_new x w)" "fine w (promise_delete x w)" "fine w (promise_move x y w)"
    "fine w (promise_move_assign x y w)" "fine w (promise_swap x y w)" "fine w (promise_get_future x f w)"
    "fine w (promise_set_exception x e w)" "fine w (promise_set_value x v w)"
proof -
  note P = owner_likes(1)
  show "fine w (promise_new x w)" unfolding promise_new_def by (rule fine_owner_new [OF ok P]) simp
  show "fine w (promise_delete x w)" unfolding promise_delete_def
  proof (intro fine_as fine_disown)
    fix b p assume "fu_obj w x = Some (Promise_obj b p)"
    with fu_ok_future(3) [OF ok, of x] show "fu_ok [(True, p)] (put x None w)" by simp
  qed simp
  show "fine w (promise_move x y w)" unfolding promise_move_def
  proof (intro fine_unused fine_as)
    fix b p assume x: "fu_obj w x = None" "fu_obj w y = Some (Promise_obj b p)"
    then have "x \<noteq> y" by auto
    with fu_ok_moved [OF ok P x(2) this, of False] x(1)
    show "fine w (Inr (put y (Some (Promise_obj False None)) (put x (Some (Promise_obj b p)) w), Done))"
      by (simp add: put_commute fu_ok_locals)
  qed
  show "fine w (promise_move_assign x y w)" unfolding promise_move_assign_def
  proof (intro fine_as)
    fix b p d q assume x: "fu_obj w x = Some (Promise_obj b p)" "fu_obj w y = Some (Promise_obj d q)"
    show "fine w (if x = y then Inr (w, Done)
      else disown p (put x (Some (Promise_obj d q)) (put y (Some (Promise_obj False None)) w)))"
      using fu_ok_moved [OF ok P x(2), of x False] x(1) ok by (auto intro!: fine_disown [where b = True])
  qed
  show "fine w (promise_swap x y w)" unfolding promise_swap_def
    by (intro fine_as) (simp add: fu_ok_swapped [OF ok P])
  show "fine w (promise_get_future x f w)" unfolding promise_get_future_def
    by (intro fine_unused fine_as) (auto simp: ok intro!: fine_with_state [OF ok] fine_get_future [OF ok P])
  show "fine w (promise_set_exception x e w)" "fine w (promise_set_value x v w)"
    unfolding promise_set_exception_def promise_set_value_def
    by (intro fine_as fine_with_state [OF ok] fine_call [OF ok, where x = x and b = True]; simp)+
qed

lemma task_call_fine:
  assumes ok: "fu_ok [] w"
  shows "fine w (task_call x args w)"
  unfolding task_call_def
proof (intro fine_as fine_with_state [OF ok])
  fix b p a assume x: "fu_obj w x = Some (Task_obj b p)" "p = Some a"
  obtain n where n: "fu_heap w a = Some n" using live_obj [OF ok, of x True p] x by (auto simp: live_def)
  obtain fn where fn: "nd_fn n = Some fn" using fu_ok_fn [OF ok, of x b a n] x n by auto
  have o: "own (fu_obj w x) = (True, Some a)" using x by simp
  have l: "live (Some a) w" by (rule live_obj [OF ok o])
  have s: "fine w (ss_call a body w)" if "body_ok body" for body by (rule fine_call [OF ok o that])
  show "fine w (task_object_run a args w)"
  proof (cases "fn args")
    case (Inl e)
    with s [of "ss_set_exception (Some e)"] n fn show ?thesis by (simp add: task_object_run_def)
  next
    case (Inr v)
    have "fine w (and_then (ss_call a (ss_set_value v) w) (\<lambda>(w, r).
        case r of Ret (Thrown e) \<Rightarrow> ss_call a (ss_set_exception (Some e)) w | _ \<Rightarrow> Inr (w, r)))"
    proof (rule fine_bind [OF okay_call [OF ok l]])
      fix z :: "('a, 'b) futures \<times> 'b fu_result"
      assume z: "case z of (w', r) \<Rightarrow> fu_ok [] w' \<and> quiet w w'"
      obtain w' r where w': "z = (w', r)" by fastforce
      have k: "fu_ok [] w'" "kept w w'" "fu_obj w' = fu_obj w" using z w' by (auto dest: quietD)
      have "fine w (ss_call a (ss_set_exception (Some e)) w')" for e
        by (rule fine_kept [OF k(2) fine_call [OF k(1), of x True]]) (use k(3) o in simp_all)
      with k show "fine w (case z of (w, r) \<Rightarrow>
          case r of Ret (Thrown e) \<Rightarrow> ss_call a (ss_set_exception (Some e)) w | _ \<Rightarrow> Inr (w, r))"
        unfolding w' by (simp split: fu_result.split ss_result.split)
    qed simp
    with n fn Inr show ?thesis by (simp add: task_object_run_def)
  qed
qed

text \<open>While the state's only owner is a local pointer, its function may be taken.\<close>

lemma fu_ok_take_fn:
  assumes ok: "fu_ok ((True, Some a) # L) w" and n: "fu_heap w a = Some n"
  shows "fu_ok ((True, Some a) # L) (w\<lparr>fu_heap := (fu_heap w)(a \<mapsto> n\<lparr>nd_fn := None\<rparr>)\<rparr>)" (is "fu_ok ?L ?w")
proof -
  have f: "finite {x. fu_obj w x \<noteq> None}" using ok by (simp add: fu_ok_def)
  have no: "fu_obj w x \<noteq> Some (Task_obj b (Some a))" for x b
  proof
    assume "fu_obj w x = Some (Task_obj b (Some a))"
    then have "0 < those (owns a) L w" by (intro those_obj [OF f, of _ x]) simp_all
    then have "those (owns a) ?L w > 1" by (simp add: those_def)
    moreover have "those (owns a) ?L w \<le> 1" using ok unfolding fu_ok_def by blast
    ultimately show False by simp
  qed
  have t: "those P M ?w = those P M w" for P M by (simp add: those_def)
  have "case fu_heap ?w c of None \<Rightarrow> those (points c) ?L ?w = 0
    | Some n \<Rightarrow> nd_count n = those (points c) ?L ?w \<and> 0 < nd_count n \<and> state_ok (nd_state n)" for c
    using fu_ok_at [OF ok, of c] n unfolding t by (auto split: option.splits)
  moreover have "nd_fn m \<noteq> None" if "fu_obj ?w x = Some (Task_obj b (Some c))" "fu_heap ?w c = Some m" for x b c m
    using fu_ok_fn [OF ok, of x b c m] no that by (auto split: if_splits)
  moreover have "\<forall>c \<ge> fu_next ?w. fu_heap ?w c = None" "those (owns c) ?L ?w \<le> 1" for c
    using ok n unfolding t fu_ok_def by auto
  ultimately show ?thesis using f unfolding fu_ok_def by simp
qed

lemma okay_object_reset:
  assumes ok: "fu_ok ((True, Some a) # L) w" and n: "fu_heap w a = Some n" "nd_fn n \<noteq> None"
  shows "okay (\<lambda>(w', b). fu_ok ((True, Some b) # (True, Some a) # L) w' \<and> kept w w' \<and> fu_obj w' = fu_obj w \<and>
    (\<exists>n. fu_heap w' b = Some n \<and> nd_fn n \<noteq> None)) (task_object_reset a w)"
proof -
  let ?w = "w\<lparr>fu_heap := (fu_heap w)(a \<mapsto> n\<lparr>nd_fn := None\<rparr>)\<rparr>"
  have k: "kept w ?w" using n by (auto simp: kept_def)
  obtain w1 b where al: "ss_alloc (nd_fn n) ?w = (w1, b)" by fastforce
  have "okay (\<lambda>(w', b). fu_ok ((True, Some b) # (True, Some a) # L) w' \<and> kept w w' \<and> fu_obj w' = fu_obj w \<and>
      (\<exists>n. fu_heap w' b = Some n \<and> nd_fn n \<noteq> None)) (and_then (ss_add_ref (Some b) w1) (\<lambda>w. Inr (w, b)))"
    by (rule okay_bind [OF okay_alloc [OF fu_ok_take_fn [OF ok n(1)] al]])
      (use n(2) kept_trans [OF k] in auto)
  with n(1) al show ?thesis by (simp add: task_object_reset_def)
qed

text \<open>What happens to states does not look at the objects.\<close>

lemma and_then_put:
  "and_then (ss_add_ref p (put x v w)) f = and_then (ss_add_ref p w) (\<lambda>w. f (put x v w))"
  "and_then (task_object_reset a (put x v w)) g = and_then (task_object_reset a w) (\<lambda>(w, b). g (put x v w, b))"
  by (cases w, simp add: ss_add_ref_def task_object_reset_def ss_alloc_def put_def split: option.split)+

lemma task_reset_fine:
  assumes ok: "fu_ok [] w"
  shows "fine w (task_reset x w)"
  unfolding task_reset_def
proof (intro fine_as fine_with_state [OF ok])
  fix b p a assume x: "fu_obj w x = Some (Task_obj b p)" and p: "p = Some a"
  let ?rest = "\<lambda>w b. and_then (ss_release p (put x (Some (Task_obj False (Some b))) w)) (disown p)"
  let ?w = "put x (Some (Task_obj b None)) w"
  have ok0: "fu_ok [(True, p)] ?w" by (rule fu_ok_take(1) [OF ok owner_likes(2) x])
  obtain n where n: "fu_heap ?w a = Some n" "nd_fn n \<noteq> None"
    using live_obj [OF ok, of x True p] fu_ok_fn [OF ok, of x b a] x p by (auto simp: live_def)
  have "fine w (and_then (ss_add_ref p ?w) (\<lambda>w. and_then (task_object_reset a w) (\<lambda>(w, b). ?rest w b)))"
  proof (rule fine_add_ref [OF ok0 live_local [OF ok0]])
    fix w1 assume w1: "fu_ok [(False, p), (True, p)] w1" "kept w w1" "fu_obj w1 = fu_obj ?w" "quiet ?w w1"
    have ok1: "fu_ok [(True, Some a), (False, p)] w1" using w1(1) p fu_ok_locals(2) by metis
    obtain n1 where n1: "fu_heap w1 a = Some n1" "nd_fn n1 \<noteq> None"
      using live_local [OF ok1] quietD(3) [OF w1(4), of a] n by (auto simp: live_def)
    show "fine w (and_then (task_object_reset a w1) (\<lambda>(w, b). ?rest w b))"
    proof (rule fine_bind [OF okay_object_reset [OF ok1 n1]])
      fix z :: "('a, 'b) futures \<times> nat"
      assume z: "case z of (w', b) \<Rightarrow> fu_ok [(True, Some b), (True, Some a), (False, p)] w' \<and> kept w1 w' \<and>
        fu_obj w' = fu_obj w1 \<and> (\<exists>n. fu_heap w' b = Some n \<and> nd_fn n \<noteq> None)"
      obtain w2 c where w2: "z = (w2, c)" by fastforce
      have k: "kept w w2" using z w2 w1(2) kept_trans by auto
      have "fu_ok (own (fu_obj w2 x) # [(True, Some a), (False, p)]) (put x (Some (Task_obj False (Some c))) w2)"
        by (rule fu_ok_own_put) (use z w2 in auto)
      moreover have "own (fu_obj w2 x) = (True, None)" using z w2 w1(3) by simp
      ultimately have ok2: "fu_ok [(True, p), (False, p)] (put x (Some (Task_obj False (Some c))) w2)"
        by (simp add: fu_ok_locals p)
      show "fine w (case z of (w, b) \<Rightarrow> ?rest w b)"
        unfolding w2 prod.case by (rule fine_release [OF ok2]) (use k in \<open>auto intro: fine_disown\<close>)
    qed
  qed simp
  then show "fine w (and_then (ss_add_ref p w) (\<lambda>w. and_then (task_object_reset a w) (\<lambda>(w, b). ?rest w b)))"
    by (simp add: and_then_put case_prod_beta)
qed

lemma task_fine:
  assumes ok: "fu_ok [] w"
  shows "fine w (task_none x w)" "fine w (task_new x fn w)" "fine w (task_delete x w)" "fine w (task_move x y w)"
    "fine w (task_move_assign x y w)" "fine w (task_swap x y w)" "fine w (task_valid x w)"
    "fine w (task_get_future x f w)"
proof -
  note T = owner_likes(2)
  show "fine w (task_none x w)" unfolding task_none_def
  proof (rule fine_unused)
    assume "fu_obj w x = None"
    with fu_ok_own_put [OF T, of None "[]" w x False] ok
    show "fine w (Inr (put x (Some (Task_obj False None)) w, Done))" by (simp add: fu_ok_locals)
  qed
  show "fine w (task_new x fn w)" unfolding task_new_def by (rule fine_owner_new [OF ok T]) simp
  show "fine w (task_delete x w)" unfolding task_delete_def
  proof (intro fine_as fine_disown)
    fix b p assume "fu_obj w x = Some (Task_obj b p)"
    with fu_ok_future(3) [OF ok, of x] show "fu_ok [(True, p)] (put x None w)" by simp
  qed simp
  show "fine w (task_move x y w)" unfolding task_move_def
  proof (intro fine_unused fine_as)
    fix b p assume x: "fu_obj w x = None" "fu_obj w y = Some (Task_obj b p)"
    then have "x \<noteq> y" by auto
    with fu_ok_moved [OF ok T x(2) this, of False] x(1)
    show "fine w (Inr (put y (Some (Task_obj False None)) (put x (Some (Task_obj b p)) w), Done))"
      by (simp add: put_commute fu_ok_locals)
  qed
  show "fine w (task_move_assign x y w)" unfolding task_move_assign_def
  proof (intro fine_as)
    fix b p d q assume x: "fu_obj w x = Some (Task_obj b p)" "fu_obj w y = Some (Task_obj d q)"
    show "fine w (if x = y then Inr (w, Done)
      else disown p (put x (Some (Task_obj d q)) (put y (Some (Task_obj False None)) w)))"
      using fu_ok_moved [OF ok T x(2), of x False] x(1) ok by (auto intro!: fine_disown [where b = True])
  qed
  show "fine w (task_swap x y w)" unfolding task_swap_def
    by (intro fine_as) (simp add: fu_ok_swapped [OF ok T])
  show "fine w (task_valid x w)" unfolding task_valid_def by (rule fine_as) (simp add: ok)
  show "fine w (task_get_future x f w)" unfolding task_get_future_def
    by (intro fine_unused fine_as) (auto simp: ok intro!: fine_with_state [OF ok] fine_get_future [OF ok T])
qed

subsection \<open>Values that are missing\<close>

text \<open>A state that can be destroyed: if it is ready it holds an exception or a value. Only a null exception pointer
  breaks this.\<close>

definition filled :: "'r shared_state \<Rightarrow> bool" where
  "filled d \<longleftrightarrow> shared_state_delete d \<noteq> None"

lemma filled_iff: "filled d \<longleftrightarrow> (ss_ready d \<longrightarrow> ss_except d \<noteq> None \<or> ss_storage d \<noteq> None)"
  by (auto simp: filled_def shared_state_delete_def split: option.split)

definition all_filled :: "('a, 'r) futures \<Rightarrow> bool" where
  "all_filled w \<longleftrightarrow> (\<forall>a n. fu_heap w a = Some n \<longrightarrow> filled (nd_state n))"

definition sound :: "('b \<Rightarrow> bool) \<Rightarrow> fault + 'b \<Rightarrow> bool" where
  "sound Q m \<longleftrightarrow> (case m of Inl f \<Rightarrow> f \<noteq> No_value | Inr x \<Rightarrow> Q x)"

lemma sound_simps [simp]: "sound Q (Inl f) = (f \<noteq> No_value)" "sound Q (Inr x) = Q x"
  by (simp_all add: sound_def)

text \<open>An operation that leaves no state empty and reads no storage without a value.\<close>

abbreviation sound_op :: "fault + (('a, 'r) futures \<times> 'r fu_result) \<Rightarrow> bool" where
  "sound_op \<equiv> sound (\<lambda>(w, r). all_filled w \<and> r \<noteq> Ret Garbage)"

lemma sound_bind: "sound P m \<Longrightarrow> (\<And>x. P x \<Longrightarrow> sound Q (f x)) \<Longrightarrow> sound Q (and_then m f)"
  by (cases m) simp_all

lemma all_filled_put [simp]: "all_filled (put x v w) = all_filled w"
  by (simp add: all_filled_def)

lemma all_filled_node: "all_filled w \<Longrightarrow> filled (nd_state m) \<Longrightarrow> all_filled (w\<lparr>fu_heap := (fu_heap w)(a \<mapsto> m)\<rparr>)"
  by (simp add: all_filled_def)

lemma sound_add_ref: "all_filled w \<Longrightarrow> sound all_filled (ss_add_ref p w)"
  by (auto simp: ss_add_ref_def intro!: all_filled_node split: option.split) (simp add: all_filled_def)

lemma sound_release: "all_filled w \<Longrightarrow> sound all_filled (ss_release p w)"
  by (auto simp: ss_release_def deallocate_future_def filled_def all_filled_def split: option.split) force

definition fills :: "('r shared_state \<Rightarrow> 'r ss_section) \<Rightarrow> bool" where
  "fills body \<longleftrightarrow> (\<forall>d d' ns r. filled d \<longrightarrow> body d = (d', Leave ns r) \<longrightarrow> filled d' \<and> r \<noteq> Garbage)"

lemma fills_all [simp]:
  "fills (ss_set_value v)" "fills (ss_set_exception (Some e))" "fills ss_owner_destroyed"
  "fills ss_get" "fills ss_get_exception_ptr" "fills (ss_wait_until st)" "r \<noteq> Garbage \<Longrightarrow> fills (ss_wait op (\<lambda>d. (d, Leave [] r)))"
  by (auto simp: fills_def filled_iff ss_set_value_def ss_set_exception_def ss_owner_destroyed_def
      ss_get_def ss_get_exception_ptr_def ss_wait_def ss_wait_until_def mark_ready_and_notify_def
      split: if_splits option.splits)

lemma sound_call:
  assumes "all_filled w" "fills body"
  shows "sound_op (ss_call a body w)"
proof (cases "fu_heap w a")
  case (Some n)
  then have n: "filled (nd_state n)" using assms(1) by (simp add: all_filled_def)
  obtain d v where v: "body (nd_state n) = (d, v)" by fastforce
  have "filled d \<and> r \<noteq> Garbage" if "v = Leave ns r" for ns r using assms(2) n v that unfolding fills_def by blast
  with Some v assms(1) show ?thesis by (cases v) (auto simp: ss_call_def intro!: all_filled_node)
qed (simp add: ss_call_def)

lemma sound_alloc: "all_filled w \<Longrightarrow> all_filled (fst (ss_alloc fn w))"
  by (simp add: ss_alloc_def all_filled_def filled_iff shared_state_new_def)

lemma sound_as:
  "(\<And>p. sound Q (f p)) \<Longrightarrow> sound Q (as_future x f w)"
  "(\<And>b p. sound Q (g b p)) \<Longrightarrow> sound Q (as_promise x g w)"
  "(\<And>b p. sound Q (g b p)) \<Longrightarrow> sound Q (as_task x g w)"
  "sound Q m \<Longrightarrow> sound Q (unused x m w)"
  by (simp_all add: as_future_def as_promise_def as_task_def unused_def split: option.split fu_obj.split)

lemma sound_with_state: "all_filled w \<Longrightarrow> (\<And>a. sound_op (f a w)) \<Longrightarrow> sound_op (with_state e p f w)"
  by (simp add: with_state_def split: option.split)

lemma sound_add_ref_then:
  "all_filled w \<Longrightarrow> (\<And>w'. all_filled w' \<Longrightarrow> sound Q (f w')) \<Longrightarrow> sound Q (and_then (ss_add_ref p w) f)"
  by (rule sound_bind [OF sound_add_ref])

lemma sound_release_then:
  "all_filled w \<Longrightarrow> (\<And>w'. all_filled w' \<Longrightarrow> sound Q (f w')) \<Longrightarrow> sound Q (and_then (ss_release p w) f)"
  by (rule sound_bind [OF sound_release])

lemma sound_call_then:
  assumes "all_filled w" "fills body" "\<And>w' r. all_filled w' \<Longrightarrow> r \<noteq> Ret Garbage \<Longrightarrow> sound Q (f (w', r))"
  shows "sound Q (and_then (ss_call a body w) f)"
  by (rule sound_bind [OF sound_call [OF assms(1,2)]]) (use assms(3) in auto)

lemmas sound_intros = sound_as sound_with_state sound_add_ref_then sound_release_then sound_call_then sound_call

lemma sound_disown: "all_filled w \<Longrightarrow> sound_op (disown p w)"
  by (cases p) (auto simp: disown_def intro!: sound_intros)

lemma sound_new:
  "all_filled w \<Longrightarrow> r \<noteq> Ret Garbage \<Longrightarrow> sound_op (case ss_alloc fn w of (w, a) \<Rightarrow> and_then (ss_add_ref (Some a) w) (\<lambda>w. Inr (put x (v a) w, r)))"
  using sound_alloc [of w fn] by (auto simp: case_prod_beta Let_def intro!: sound_intros)

lemma sound_future:
  assumes "all_filled w"
  shows "sound_op (future_new x w)" "sound_op (future_delete x w)" "sound_op (future_copy x y w)"
    "sound_op (future_move x y w)" "sound_op (future_copy_assign x y w)" "sound_op (future_move_assign x y w)"
    "sound_op (future_valid x w)" "sound_op (future_get_exception_ptr x w)" "sound_op (future_wait x w)"
    "sound_op (future_wait_until st x w)" "sound_op (shared_future_get x w)"
  unfolding future_new_def future_delete_def future_copy_def future_move_def future_copy_assign_def future_move_assign_def
    future_valid_def future_get_exception_ptr_def future_wait_def future_wait_until_def shared_future_get_def
    shared_get_from_def Let_def
  by (auto simp: assms intro!: sound_intros)

lemma sound_future_get: "all_filled w \<Longrightarrow> sound_op (future_get x w)"
  unfolding future_get_def get_from_def by (auto intro!: sound_intros)

lemma sound_future_share: "all_filled w \<Longrightarrow> sound_op (future_share x y w)"
  unfolding future_share_def by (auto intro!: sound_intros sound_future)

lemma sound_promise:
  assumes "all_filled w"
  shows "sound_op (promise_new x w)" "sound_op (promise_delete x w)" "sound_op (promise_move x y w)"
    "sound_op (promise_move_assign x y w)" "sound_op (promise_swap x y w)" "sound_op (promise_get_future x f w)"
    "sound_op (promise_set_exception x (Some e) w)" "sound_op (promise_set_value x v w)"
  unfolding promise_new_def promise_delete_def promise_move_def promise_move_assign_def promise_swap_def
    promise_get_future_def promise_set_exception_def promise_set_value_def
  by (auto simp: assms intro!: sound_intros sound_disown sound_new)

lemma sound_task_object_run: "all_filled w \<Longrightarrow> sound_op (task_object_run a args w)"
  unfolding task_object_run_def
  by (auto intro!: sound_intros split: option.split sum.split fu_result.split ss_result.split)

lemma sound_task_object_reset: "all_filled w \<Longrightarrow> sound (\<lambda>(w, b). all_filled w) (task_object_reset a w)"
  unfolding task_object_reset_def Let_def case_prod_beta
  by (auto intro!: sound_intros sound_alloc all_filled_node split: option.split) (simp add: all_filled_def)

lemma sound_task:
  assumes "all_filled w"
  shows "sound_op (task_none x w)" "sound_op (task_new x fn w)" "sound_op (task_delete x w)" "sound_op (task_move x y w)"
    "sound_op (task_move_assign x y w)" "sound_op (task_swap x y w)" "sound_op (task_valid x w)"
    "sound_op (task_get_future x f w)" "sound_op (task_call x args w)"
  unfolding task_none_def task_new_def task_delete_def task_move_def task_move_assign_def task_swap_def
    task_valid_def task_get_future_def task_call_def
  by (auto simp: assms intro!: sound_intros sound_disown sound_new sound_task_object_run)

lemma sound_task_reset:
  assumes "all_filled w"
  shows "sound_op (task_reset x w)"
  unfolding task_reset_def
proof (intro sound_as sound_with_state sound_add_ref_then assms)
  fix a p and w' :: "('a, 'b) futures"
  assume w': "all_filled w'"
  show "sound_op (and_then (task_object_reset a w') (\<lambda>(w, b).
      and_then (ss_release p (put x (Some (Task_obj False (Some b))) w)) (disown p)))"
    by (rule sound_bind [OF sound_task_object_reset [OF w']]) (auto intro!: sound_release_then sound_disown)
qed

end
