(* ===== verification/Future_Properties.thy ===== *)
theory Future_Properties
  imports Future_Counting
begin

text \<open>
  Programs over promises, futures, shared futures and packaged tasks: any sequence of operations on
  any number of objects. What they can rely on.
\<close>

datatype ('a, 'r) fu_op =
    F_new nat | F_delete nat | F_copy nat nat | F_move nat nat | F_copy_assign nat nat | F_move_assign nat nat
  | F_valid nat | F_get_exception_ptr nat | F_wait nat | F_wait_until cv_status nat
  | F_get nat | F_share nat nat | F_shared_get nat
  | P_new nat | P_delete nat | P_move nat nat | P_move_assign nat nat | P_swap nat nat
  | P_get_future nat nat | P_set_exception nat "exn option" | P_set_value nat 'r
  | T_none nat | T_new nat "'a \<Rightarrow> exn + 'r" | T_delete nat | T_move nat nat | T_move_assign nat nat | T_swap nat nat
  | T_valid nat | T_get_future nat nat | T_call nat 'a | T_reset nat

fun fu_exec :: "('a, 'r) fu_op \<Rightarrow> ('a, 'r) fu_action" where
  "fu_exec (F_new x) = future_new x"
| "fu_exec (F_delete x) = future_delete x"
| "fu_exec (F_copy x y) = future_copy x y"
| "fu_exec (F_move x y) = future_move x y"
| "fu_exec (F_copy_assign x y) = future_copy_assign x y"
| "fu_exec (F_move_assign x y) = future_move_assign x y"
| "fu_exec (F_valid x) = future_valid x"
| "fu_exec (F_get_exception_ptr x) = future_get_exception_ptr x"
| "fu_exec (F_wait x) = future_wait x"
| "fu_exec (F_wait_until status x) = future_wait_until status x"
| "fu_exec (F_get x) = future_get x"
| "fu_exec (F_share x y) = future_share x y"
| "fu_exec (F_shared_get x) = shared_future_get x"
| "fu_exec (P_new x) = promise_new x"
| "fu_exec (P_delete x) = promise_delete x"
| "fu_exec (P_move x y) = promise_move x y"
| "fu_exec (P_move_assign x y) = promise_move_assign x y"
| "fu_exec (P_swap x y) = promise_swap x y"
| "fu_exec (P_get_future x f) = promise_get_future x f"
| "fu_exec (P_set_exception x e) = promise_set_exception x e"
| "fu_exec (P_set_value x value) = promise_set_value x value"
| "fu_exec (T_none x) = task_none x"
| "fu_exec (T_new x fn) = task_new x fn"
| "fu_exec (T_delete x) = task_delete x"
| "fu_exec (T_move x y) = task_move x y"
| "fu_exec (T_move_assign x y) = task_move_assign x y"
| "fu_exec (T_swap x y) = task_swap x y"
| "fu_exec (T_valid x) = task_valid x"
| "fu_exec (T_get_future x f) = task_get_future x f"
| "fu_exec (T_call x args) = task_call x args"
| "fu_exec (T_reset x) = task_reset x"

fun fu_run :: "('a, 'r) fu_op list \<Rightarrow> ('a, 'r) futures \<Rightarrow> fault + ('a, 'r) futures" where
  "fu_run [] w = Inr w"
| "fu_run (op # ops) w = and_then (fu_exec op w) (\<lambda>(w, r). fu_run ops w)"

lemma fu_run_append: "fu_run (ops @ ops') w = and_then (fu_run ops w) (fu_run ops')"
proof (induction ops arbitrary: w)
  case (Cons op ops)
  then show ?case by (cases "fu_exec op w") auto
qed simp

lemma and_then_Inr: "and_then m f = Inr y \<longleftrightarrow> (\<exists>x. m = Inr x \<and> f x = Inr y)"
  by (cases m) simp_all

lemma fu_ok_below: "fu_ok L w \<Longrightarrow> fu_heap w a = Some n \<Longrightarrow> a < fu_next w"
proof (rule ccontr)
  assume "fu_ok L w" "fu_heap w a = Some n" "\<not> a < fu_next w"
  then show False unfolding fu_ok_def by (simp add: not_less)
qed

lemma exec_fine: "fu_ok [] w \<Longrightarrow> fine w (fu_exec op w)"
  by (cases op) (simp_all add: future_base_fine future_use_fine future_get_fine promise_fine task_fine
      task_call_fine task_reset_fine)

lemma run_fine: "fu_ok [] w \<Longrightarrow> okay (\<lambda>w'. fu_ok [] w' \<and> kept w w') (fu_run ops w)"
proof (induction ops arbitrary: w)
  case (Cons op ops)
  have "okay (\<lambda>(w', r). fu_ok [] w' \<and> kept w w') (fu_exec op w)"
    using exec_fine [OF Cons.prems] by (simp add: fine_def)
  then show ?case unfolding fu_run.simps
    by (rule okay_bind) (auto intro!: okay_mono [OF Cons.IH] intro: kept_trans)
qed simp

lemma empty_ok: "fu_ok [] futures_empty"
  by (simp add: fu_ok_def futures_empty_def those_def)

lemma run_ok:
  assumes "fu_run ops futures_empty = Inr w"
  shows "fu_ok [] w"
  using run_fine [OF empty_ok, of ops] assms by simp

definition handles :: "nat \<Rightarrow> ('a, 'r) futures \<Rightarrow> nat set" where
  "handles a w = {x. snd (own (fu_obj w x)) = Some a}"

lemma those_handles: "those (points a) [] w = card (handles a w)"
proof -
  have "points a l \<longleftrightarrow> snd l = Some a" for l by (cases l) simp
  then show ?thesis by (simp add: those_def handles_def)
qed

text \<open>Without null exceptions every state that is ready holds something.\<close>

lemma exec_sound:
  assumes "all_filled w" "\<And>x. op \<noteq> P_set_exception x None"
  shows "sound_op (fu_exec op w)"
proof (cases op)
  case (P_set_exception x e)
  with assms sound_promise(7) [of w x] show ?thesis by (cases e) auto
qed (simp_all add: assms(1) sound_future sound_future_get sound_future_share sound_promise sound_task sound_task_reset)

lemma empty_filled: "all_filled futures_empty"
  by (simp add: all_filled_def futures_empty_def)

lemma run_sound: "all_filled w \<Longrightarrow> (\<And>x. P_set_exception x None \<notin> set ops) \<Longrightarrow> sound all_filled (fu_run ops w)"
proof (induction ops arbitrary: w)
  case (Cons op ops)
  have "sound_op (fu_exec op w)" by (rule exec_sound [OF Cons.prems(1)]) (use Cons.prems(2) in auto)
  then show ?case unfolding fu_run.simps
    by (rule sound_bind) (use Cons.prems(2) in \<open>auto intro!: Cons.IH\<close>)
qed simp

text \<open>C33: Futures are memory safe and do not leak. Whatever a program does with promises, futures,
  shared futures and packaged tasks, no state is used after it was freed, no count drops below zero and
  no moved function is called; it can go wrong in two ways only: it uses an object that does not exist, or
  a value that is missing is destroyed or read, and that only if it has called \<open>set_exception\<close> with a null pointer. And
  a state exists exactly as long as some object refers to it, its count being the number of these.\<close>

theorem futures_memory_safe:
  "(case fu_run ops futures_empty of
      Inl fault \<Rightarrow> fault = No_object \<or> fault = No_value \<and> (\<exists>x. P_set_exception x None \<in> set ops)
    | Inr w \<Rightarrow> (fu_heap w a = None \<and> handles a w = {} \<or>
        (\<exists>n. fu_heap w a = Some n \<and> nd_count n = card (handles a w) \<and> handles a w \<noteq> {})) \<and>
        ((\<exists>x. P_set_exception x None \<in> set (op # ops)) \<or> (\<nexists>w'. fu_exec op w = Inr (w', Ret Garbage))))"
proof (cases "fu_run ops futures_empty")
  case (Inl f)
  have "f \<noteq> No_value" if "\<And>x. P_set_exception x None \<notin> set ops" using run_sound [OF empty_filled that] Inl by simp
  with Inl run_fine [OF empty_ok, of ops] show ?thesis by auto
next
  case (Inr w)
  have ok: "fu_ok [] w" by (rule run_ok [OF Inr])
  have "finite {x. fu_obj w x \<noteq> None}" using ok by (simp add: fu_ok_def)
  then have f: "finite (handles a w)" unfolding handles_def
    using finite_own [of w "\<lambda>l. snd l = Some a"] by simp
  from fu_ok_at [OF ok, of a] f have "fu_heap w a = None \<and> handles a w = {} \<or>
        (\<exists>n. fu_heap w a = Some n \<and> nd_count n = card (handles a w) \<and> handles a w \<noteq> {})"
    unfolding those_handles by (auto split: option.splits)
  moreover have "fu_exec op w \<noteq> Inr (w', Ret Garbage)" if n: "\<And>x. P_set_exception x None \<notin> set (op # ops)" for w'
  proof -
    have "all_filled w" using run_sound [OF empty_filled, of ops] n Inr by simp
    then have "sound_op (fu_exec op w)" by (rule exec_sound) (use n in auto)
    then show ?thesis by auto
  qed
  ultimately show ?thesis unfolding Inr sum.case by blast
qed

theorem futures_memory_safe_witness:
  "\<exists>w n. fu_run [P_new 0, P_get_future 0 1, P_set_value 0 7] (futures_empty :: (nat, nat) futures) = Inr w \<and>
     fu_heap w 0 = Some n \<and> nd_count n = card (handles 0 w) \<and> (\<nexists>w'. fu_exec (F_get 1) w = Inr (w', Ret Garbage))"
proof -
  let ?ops = "[P_new 0, P_get_future 0 1, P_set_value 0 7] :: (nat, nat) fu_op list"
  let ?n = "\<lparr>nd_count = 2, nd_state = \<lparr>ss_ready = True, ss_except = None, ss_storage = Some 7\<rparr>, nd_fn = None\<rparr> :: (nat, nat) node"
  let ?w = "\<lparr>fu_heap = [0 \<mapsto> ?n], fu_next = 1, fu_obj = [0 \<mapsto> Promise_obj True (Some 0), 1 \<mapsto> Future_obj (Some 0)]\<rparr>"
  have run: "fu_run ?ops futures_empty = Inr ?w"
    by (simp add: futures_empty_def promise_new_def unused_def ss_alloc_def ss_add_ref_def put_def
      promise_get_future_def as_promise_def with_state_def promise_set_value_def ss_call_def ss_set_value_def
      mark_ready_and_notify_def shared_state_new_def numeral_2_eq_2)
  have "nd_count ?n = card (handles 0 ?w) \<and> (\<nexists>w'. fu_exec (F_get 1) ?w = Inr (w', Ret Garbage))"
    using futures_memory_safe [of ?ops 0 "F_get 1"] unfolding run by (auto simp del: fu_exec.simps)
  with run show ?thesis by (intro exI [of _ ?w] exI [of _ ?n]) simp
qed

text \<open>A null pointer does it: the state is ready, and holds nothing. Its future reads storage that has no value; when
  the last handle goes, the destructor destroys that value.\<close>

theorem null_exception_faults:
  "\<exists>w. fu_run [P_new 0, P_get_future 0 1, P_set_exception 0 None, P_delete 0] (futures_empty :: (nat, nat) futures) = Inr w \<and>
     shared_future_get 1 w = Inr (w, Ret Garbage) \<and> future_get 1 w = Inl No_value \<and> future_delete 1 w = Inl No_value"
proof -
  let ?d = "\<lparr>ss_ready = True, ss_except = None, ss_storage = None\<rparr> :: nat shared_state"
  let ?w = "\<lparr>fu_heap = [0 \<mapsto> \<lparr>nd_count = 1, nd_state = ?d, nd_fn = None\<rparr>], fu_next = 1,
    fu_obj = [1 \<mapsto> Future_obj (Some 0)]\<rparr> :: (nat, nat) futures"
  have "fu_run [P_new 0, P_get_future 0 1, P_set_exception 0 None, P_delete 0] (futures_empty :: (nat, nat) futures) = Inr ?w"
    by (simp add: futures_empty_def promise_new_def unused_def ss_alloc_def ss_add_ref_def put_def
      promise_get_future_def as_promise_def with_state_def promise_set_exception_def ss_call_def ss_set_exception_def
      mark_ready_and_notify_def shared_state_new_def promise_delete_def disown_def ss_owner_destroyed_def ss_release_def
      fun_upd_twist)
  moreover have "shared_future_get 1 ?w = Inr (?w, Ret Garbage)"
    by (simp add: shared_future_get_def shared_get_from_def as_future_def with_state_def ss_call_def ss_get_def ss_wait_def)
  moreover have "future_get 1 ?w = Inl No_value" "future_delete 1 ?w = Inl No_value"
    by (simp_all add: future_get_def get_from_def future_delete_def as_future_def with_state_def ss_call_def ss_get_def ss_wait_def
      put_def ss_release_def deallocate_future_def shared_state_delete_def)
  ultimately show ?thesis by blast
qed

subsection \<open>What the handles deliver\<close>

text \<open>The operations of a promise that make its state ready, and what a \<open>get\<close> gives then.\<close>

fun delivers :: "('a, 'r) fu_op \<Rightarrow> nat \<Rightarrow> 'r ss_result \<Rightarrow> bool" where
  "delivers (P_set_value x value) y r \<longleftrightarrow> y = x \<and> r = Got value"
| "delivers (P_set_exception x (Some e)) y r \<longleftrightarrow> y = x \<and> r = Thrown e"
| "delivers (P_delete x) y r \<longleftrightarrow> y = x \<and> r = Thrown (Fut broken_promise)"
| "delivers _ y r \<longleftrightarrow> False"

lemma delivers_something: "delivers op x r \<Longrightarrow> r \<noteq> Garbage"
  by (induction op x r rule: delivers.induct) auto

lemma release_inr:
  assumes "fu_ok ((b, p) # L) w" "\<And>a n. p = Some a \<Longrightarrow> fu_heap w a = Some n \<Longrightarrow> filled (nd_state n)"
  obtains w' where "ss_release p w = Inr w'" "fu_ok L w'" "quiet w w'"
proof -
  have "ss_release p w \<noteq> Inl No_object"
    by (simp add: ss_release_def deallocate_future_def split: option.split)
  moreover have "ss_release p w \<noteq> Inl No_value"
  proof
    assume "ss_release p w = Inl No_value"
    then obtain a n where "p = Some a" "fu_heap w a = Some n" "\<not> filled (nd_state n)"
      by (auto simp: ss_release_def deallocate_future_def filled_def split: option.splits if_splits)
    with assms(2) show False by blast
  qed
  ultimately show thesis using okay_release [OF assms(1)] that by (cases "ss_release p w") auto
qed

lemma ready_get:
  assumes "ss_ready d"
  shows "ss_get d = (d, Leave [] (answer Get d))"
  using ss_body_ready [OF assms, of Get no_timeout] by simp

text \<open>\<open>get\<close> on a ready state.\<close>

lemma future_get_ready:
  assumes ok: "fu_ok [] w" and y: "fu_obj w y = Some (Future_obj (Some a))"
    and n: "fu_heap w a = Some n" "ss_ready (nd_state n)" "answer Get (nd_state n) \<noteq> Garbage"
  shows "\<exists>w'. future_get y w = Inr (w', Ret (answer Get (nd_state n))) \<and> fu_obj w' y = Some (Future_obj None)"
    and "shared_future_get y w = Inr (w, Ret (answer Get (nd_state n)))"
proof -
  let ?u = "put y (Some (Future_obj None)) w"
  have u: "fu_ok [(False, Some a)] ?u" using fu_ok_future(2) [OF ok, of y] y by simp
  have call: "ss_call a ss_get w' = Inr (w', Ret (answer Get (nd_state n)))" if "fu_heap w' = fu_heap w" for w' :: "('a, 'b) futures"
    using that n ready_get [OF n(2)] by (simp add: ss_call_def fun_upd_idem)
  have "filled (nd_state n)" using n(2,3) by (auto simp: filled_iff answer_def split: option.splits)
  with n(1) obtain w' where w': "ss_release (Some a) ?u = Inr w'" "quiet ?u w'" by (auto intro: release_inr [OF u])
  then show "\<exists>w'. future_get y w = Inr (w', Ret (answer Get (nd_state n))) \<and> fu_obj w' y = Some (Future_obj None)"
    using y call [of ?u] quietD(1) [OF w'(2)] by (simp add: future_get_def get_from_def as_future_def with_state_def)
  show "shared_future_get y w = Inr (w, Ret (answer Get (nd_state n)))"
    using y call [of w] by (simp add: shared_future_get_def shared_get_from_def as_future_def with_state_def)
qed

lemma deliver_state:
  assumes ok: "fu_ok [] w" and x: "fu_obj w x = Some (Promise_obj b (Some a))"
    and n: "fu_heap w a = Some n" "\<not> ss_ready (nd_state n)"
    and d: "delivers op x r" and e: "fu_exec op w = Inr (w1, r1)" and n1: "fu_heap w1 a = Some n1"
  shows "ss_ready (nd_state n1)" "answer Get (nd_state n1) = r"
proof -
  have e0: "ss_except (nd_state n) = None" "ss_storage (nd_state n) = None"
    using fu_ok_at [OF ok, of a] n by (auto simp: state_ok_def)
  have "ss_ready (nd_state n1) \<and> answer Get (nd_state n1) = r"
  proof (cases op)
    case (P_delete x')
    with d have x': "x' = x" "r = Thrown (Fut broken_promise)" by simp_all
    let ?m = "n\<lparr>nd_state := (nd_state n)\<lparr>ss_except := Some (Fut broken_promise), ss_ready := True\<rparr>\<rparr>"
    let ?u = "(put x None w)\<lparr>fu_heap := (fu_heap w)(a \<mapsto> ?m)\<rparr>"
    have "fu_ok [(True, Some a)] (put x None w)" using fu_ok_future(3) [OF ok, of x] x by simp
    from okay_call [OF this live_local [OF this]]
    have "okay (\<lambda>(w', r). fu_ok [(True, Some a)] w' \<and> quiet (put x None w) w')
        (ss_call a ss_owner_destroyed (put x None w))" by simp
    moreover have c: "ss_call a ss_owner_destroyed (put x None w) = Inr (?u, Ret Satisfied)"
      using n by (simp add: ss_call_def ss_owner_destroyed_def ss_set_exception_def mark_ready_and_notify_def)
    ultimately have "fu_ok [(True, Some a)] ?u" by simp
    then obtain w' where w': "ss_release (Some a) ?u = Inr w'" "quiet ?u w'" by (rule release_inr) (auto simp: filled_iff)
    then have "w1 = w'" using e c x P_delete x'(1)
      by (simp add: promise_delete_def as_promise_def disown_def)
    moreover have "nd_state n' = nd_state ?m" if "fu_heap w' a = Some n'" for n'
      using w'(1) that by (auto simp: ss_release_def deallocate_future_def split: if_splits option.splits)
    ultimately show ?thesis using n1 x'(2) by (simp add: answer_def)
  next
    case (P_set_exception x' p)
    with d show ?thesis
      using assms e0 by (cases p) (auto simp: promise_set_exception_def as_promise_def with_state_def
        ss_call_def ss_set_exception_def mark_ready_and_notify_def answer_def)
  qed (use assms e0 in \<open>auto simp: promise_set_value_def promise_set_exception_def as_promise_def with_state_def
      ss_call_def ss_set_value_def ss_set_exception_def mark_ready_and_notify_def answer_def\<close>)
  then show "ss_ready (nd_state n1)" "answer Get (nd_state n1) = r" by simp_all
qed

text \<open>C34: A promise keeps its word. When a promise whose state is not ready yet sets a value or an
  exception (not a null pointer), or is destroyed, then every future that still refers to the state, however it came by
  it and whatever else has happened in the meantime, gets just that: the value, the exception,
  or \<open>broken_promise\<close>. A \<open>future\<close> has no state afterwards, a \<open>shared_future\<close> keeps it.\<close>

theorem promise_delivers:
  assumes "fu_run ops futures_empty = Inr w" "fu_obj w x = Some (Promise_obj b (Some a))"
    and "fu_heap w a = Some n" "\<not> ss_ready (nd_state n)"
    and "delivers op x r" "fu_exec op w = Inr (w1, r1)" "fu_run ops' w1 = Inr w2"
    and "fu_obj w2 y = Some (Future_obj (Some a))"
  shows "(\<exists>w3. future_get y w2 = Inr (w3, Ret r) \<and> fu_obj w3 y = Some (Future_obj None)) \<and>
    shared_future_get y w2 = Inr (w2, Ret r)"
proof -
  have ok: "fu_ok [] w" by (rule run_ok [OF assms(1)])
  have ok1: "fu_ok [] w1" "kept w w1" using exec_fine [OF ok, of op] assms(6) by simp_all
  have ok2: "fu_ok [] w2" "kept w1 w2" using run_fine [OF ok1(1), of ops'] assms(7) by simp_all
  have "a < fu_next w" by (rule fu_ok_below [OF ok assms(3)])
  then have a: "a < fu_next w1" using ok1(2) by (simp add: kept_def)
  obtain n2 where n2: "fu_heap w2 a = Some n2" using live_obj [OF ok2(1), of y False "Some a"] assms(8)
    by (auto simp: live_def)
  with ok2(2) a obtain n1 where n1: "fu_heap w1 a = Some n1" "ss_ready (nd_state n1) \<longrightarrow> nd_state n2 = nd_state n1"
    unfolding kept_def by blast
  note d = deliver_state [OF ok assms(2-6) n1(1)]
  with n1(2) have r: "ss_ready (nd_state n2)" "answer Get (nd_state n2) = r" by simp_all
  with future_get_ready [OF ok2(1) assms(8) n2 r(1)] delivers_something [OF assms(5)] show ?thesis by simp
qed

lemma promise_delivers_witness:
  "\<exists>w2. fu_run [P_new 0, P_get_future 0 1, P_set_value 0 7, P_delete 0, F_share 2 1]
      (futures_empty :: (nat, nat) futures) = Inr w2 \<and> shared_future_get 2 w2 = Inr (w2, Ret (Got 7))"
proof -
  let ?set = "\<lparr>ss_ready = True, ss_except = None, ss_storage = Some (7::nat)\<rparr>"
  let ?w = "\<lparr>fu_heap = [0 \<mapsto> \<lparr>nd_count = 2, nd_state = shared_state_new, nd_fn = None\<rparr>], fu_next = 1,
    fu_obj = [0 \<mapsto> Promise_obj True (Some 0), 1 \<mapsto> Future_obj (Some 0)]\<rparr> :: (nat, nat) futures"
  let ?w1 = "\<lparr>fu_heap = [0 \<mapsto> \<lparr>nd_count = 2, nd_state = ?set, nd_fn = None\<rparr>], fu_next = 1,
    fu_obj = [0 \<mapsto> Promise_obj True (Some 0), 1 \<mapsto> Future_obj (Some 0)]\<rparr> :: (nat, nat) futures"
  let ?w2 = "\<lparr>fu_heap = [0 \<mapsto> \<lparr>nd_count = 1, nd_state = ?set, nd_fn = None\<rparr>], fu_next = 1,
    fu_obj = [1 \<mapsto> Future_obj None, 2 \<mapsto> Future_obj (Some 0)]\<rparr> :: (nat, nat) futures"
  have 1: "fu_run [P_new 0, P_get_future 0 1] (futures_empty :: (nat, nat) futures) = Inr ?w"
    by (simp add: futures_empty_def promise_new_def unused_def ss_alloc_def ss_add_ref_def put_def
      promise_get_future_def as_promise_def with_state_def numeral_2_eq_2)
  have 2: "fu_exec (P_set_value 0 7) ?w = Inr (?w1, Ret Satisfied)"
    by (simp add: promise_set_value_def as_promise_def with_state_def ss_call_def ss_set_value_def
      mark_ready_and_notify_def shared_state_new_def)
  have 3: "fu_run [P_delete 0, F_share 2 1] ?w1 = Inr ?w2"
    by (simp add: promise_delete_def as_promise_def disown_def ss_call_def ss_owner_destroyed_def put_def
      ss_release_def future_share_def as_future_def with_state_def future_move_def unused_def ss_add_ref_def
      fun_upd_twist)
  have "shared_future_get 2 ?w2 = Inr (?w2, Ret (Got 7))"
    using promise_delivers [OF 1 _ _ _ _ 2 3, of 0 True 0 _ "Got 7" 2] by (simp add: shared_state_new_def)
  moreover have "fu_run [P_new 0, P_get_future 0 1, P_set_value 0 7, P_delete 0, F_share 2 1]
      (futures_empty :: (nat, nat) futures) = Inr ?w2"
    using fu_run_append [of "[P_new 0, P_get_future 0 1]" "P_set_value 0 7 # [P_delete 0, F_share 2 1]" "futures_empty :: (nat, nat) futures"]
    by (simp only: 1 2 3 append.simps and_then.simps fu_run.simps(2) [of "P_set_value 0 7"] prod.case)
  ultimately show ?thesis by blast
qed

text \<open>C35: \<open>async\<close> returns the result of the function. The returned future blocks until the fiber has
  called its task; from then on, with the task gone with its fiber and whatever the program does,
  as long as the future has its state it gets the value the function returned or the exception it
  threw.\<close>

theorem async_result:
  assumes w: "fu_run ops futures_empty = Inr w"
    and new: "fu_obj w tmp = None" "fu_obj w f = None" "fu_obj w t = None" "distinct [tmp, f, t]"
  shows "\<exists>w1 w2 a. async tmp f t fn w = Inr (w1, Done) \<and> fu_obj w1 f = Some (Future_obj (Some a)) \<and>
    future_get f w1 = Inr (w1, Blocks) \<and>
    async_fiber t args w1 = Inr (w2, Ret Satisfied) \<and> fu_obj w2 f = Some (Future_obj (Some a)) \<and>
    (\<forall>ops' w3. fu_run ops' w2 = Inr w3 \<and> fu_obj w3 f = Some (Future_obj (Some a)) \<longrightarrow>
       (\<exists>w4. future_get f w3 = Inr (w4, Ret (case fn args of Inr value \<Rightarrow> Got value | Inl e \<Rightarrow> Thrown e))))"
proof -
  have ok: "fu_ok [] w" by (rule run_ok [OF w])
  let ?a = "fu_next w"
  let ?n = "\<lparr>nd_count = 2, nd_state = shared_state_new, nd_fn = Some fn\<rparr>"
  define d where "d = (case fn args of Inr v \<Rightarrow> shared_state_new\<lparr>ss_storage := Some v, ss_ready := True\<rparr>
    | Inl e \<Rightarrow> shared_state_new\<lparr>ss_except := Some e, ss_ready := True\<rparr>)"
  obtain w1 where w1: "async tmp f t fn w = Inr (w1, Done)" "fu_heap w1 = (fu_heap w)(?a \<mapsto> ?n)"
    "fu_obj w1 = (fu_obj w)(f := Some (Future_obj (Some ?a)), t := Some (Task_obj True (Some ?a)), tmp := None)"
    using new by (auto simp: async_def task_new_def unused_def ss_alloc_def Let_def ss_add_ref_def put_def
        task_get_future_def as_task_def with_state_def task_move_def task_delete_def disown_def ss_release_def
        fun_eq_iff)
  have "fu_run [T_new tmp fn, T_get_future tmp f, T_move t tmp, T_delete tmp] w = Inr w1"
    using w1(1) by (auto simp: async_def and_then_Inr)
  with run_fine [OF ok] have ok1: "fu_ok [] w1" by (metis okay_simps(2))
  have r: "ss_ready d" "answer Get d = (case fn args of Inr value \<Rightarrow> Got value | Inl e \<Rightarrow> Thrown e)"
    by (simp_all add: d_def answer_def shared_state_new_def split: sum.split)
  have a1: "fu_heap w1 ?a = Some ?n" "fu_obj w1 t = Some (Task_obj True (Some ?a))" using w1 new by auto
  let ?u = "w1\<lparr>fu_heap := (fu_heap w1)(?a \<mapsto> ?n\<lparr>nd_state := d\<rparr>)\<rparr>"
  have "task_object_run ?a args w1 = Inr (?u, Ret Satisfied)"
    using a1(1) by (cases "fn args") (simp_all add: task_object_run_def ss_call_def ss_set_value_def
      ss_set_exception_def mark_ready_and_notify_def shared_state_new_def d_def)
  with a1(2) have call: "task_call t args w1 = Inr (?u, Ret Satisfied)"
    by (simp add: task_call_def as_task_def with_state_def)
  let ?m = "?n\<lparr>nd_count := 1, nd_state := d\<rparr>"
  obtain w2 where w2: "async_fiber t args w1 = Inr (w2, Ret Satisfied)" "fu_heap w2 = (fu_heap w1)(?a \<mapsto> ?m)"
    "fu_next w2 = fu_next w1" "fu_obj w2 f = fu_obj w1 f"
    using call a1(2) new(4) r(1) by (simp add: async_fiber_def task_delete_def as_task_def disown_def put_def ss_call_def
        ss_owner_destroyed_def ss_release_def)
  have "fu_run [T_call t args, T_delete t] w1 = Inr w2"
    using w2(1) by (auto simp: async_fiber_def and_then_Inr)
  with run_fine [OF ok1] have ok2: "fu_ok [] w2" by (metis okay_simps(2))
  have blocks: "future_get f w1 = Inr (w1, Blocks)"
    using w1 new by (simp add: future_get_def get_from_def as_future_def with_state_def ss_call_def ss_get_def
        ss_wait_def shared_state_new_def)
  have a2: "?a < fu_next w2" using fu_ok_below [OF ok2, of ?a] w2(2) by simp
  have "\<exists>w4. future_get f w3 = Inr (w4, Ret (case fn args of Inr value \<Rightarrow> Got value | Inl e \<Rightarrow> Thrown e))"
    if w3: "fu_run ops' w2 = Inr w3" "fu_obj w3 f = Some (Future_obj (Some ?a))" for ops' w3
  proof -
    have ok3: "fu_ok [] w3" "kept w2 w3" using run_fine [OF ok2, of ops'] w3(1) by simp_all
    obtain n where n: "fu_heap w3 ?a = Some n" using live_obj [OF ok3(1), of f False "Some ?a"] w3(2)
      by (auto simp: live_def)
    with ok3(2) a2 w2(2) r(1) have "nd_state n = d" unfolding kept_def by fastforce
    moreover have "answer Get d \<noteq> Garbage" by (simp add: r(2) split: sum.split)
    ultimately show ?thesis using future_get_ready(1) [OF ok3(1) w3(2) n] r by auto
  qed
  with w1 new w2(1,4) blocks show ?thesis by (intro exI [of _ w1] exI [of _ w2] exI [of _ ?a]) auto
qed

lemma async_result_witness:
  "\<exists>w1 w2. async 2 1 0 (\<lambda>n. if n = 0 then Inl (User 3) else Inr (n + 1)) (futures_empty :: (nat, nat) futures) = Inr (w1, Done) \<and>
    async_fiber 0 4 w1 = Inr (w2, Ret Satisfied) \<and> (\<exists>w3. future_get 1 w2 = Inr (w3, Ret (Got 5)))"
proof -
  have "fu_run [] (futures_empty :: (nat, nat) futures) = Inr futures_empty" by simp
  from async_result [OF this, of 2 1 0 "\<lambda>n. if n = 0 then Inl (User 3) else Inr (n + 1)" 4]
  obtain w1 w2 a where w: "async 2 1 0 (\<lambda>n. if n = 0 then Inl (User 3) else Inr (n + 1)) (futures_empty :: (nat, nat) futures) = Inr (w1, Done)"
    "fu_obj w1 1 = Some (Future_obj (Some a))" "async_fiber 0 4 w1 = Inr (w2, Ret Satisfied)" "fu_obj w2 1 = Some (Future_obj (Some a))"
    and g: "\<And>ops' w3. fu_run ops' w2 = Inr w3 \<and> fu_obj w3 1 = Some (Future_obj (Some a)) \<Longrightarrow>
      \<exists>w4. future_get 1 w3 = Inr (w4, Ret (Got 5))"
    by (auto simp: futures_empty_def)
  show ?thesis
    by (intro exI [of _ w1] exI [of _ w2]) (use w g [of "[]" w2] in auto)
qed

end
