(* ===== verification/Buffered_Channel.thy ===== *)
theory Buffered_Channel
  imports Bounded_Channel
begin

text \<open>
  \<open>buffered_channel\<close> (\<open>fiber/buffered_channel.hpp\<close>): a ring of slots with cycle counters in which
  producers and consumers claim places by compare-and-swap. Every load, store and swap of shared
  memory is a step of its own, so that fibers of any number of threads interleave in all ways; the
  memory is sequentially consistent. Only what runs under the spinlock without looking at the ring
  is one step. A woken fiber leaves its queue and starts its loop again; a deadline may pass at any
  time. The counters are natural numbers: the code converts them to \<open>intptr_t\<close>, so it has its meaning
  only below \<open>2 ^ 63\<close>, where they are these.
\<close>

record 'a slot =
  sl_cycle :: nat
  sl_storage :: "'a option"

record 'a buffered_channel =
  bf_producer_idx :: nat
  bf_consumer_idx :: nat
  bf_closed :: bool
  bf_producers :: "ctx list"
  bf_consumers :: "ctx list"
  bf_slots :: "nat \<Rightarrow> 'a slot"
  bf_capacity :: nat

definition buffered_channel_new :: "nat \<Rightarrow> fiber_errc + 'a buffered_channel" where
  "buffered_channel_new capacity =
     (if 0 = capacity \<or> 0 \<noteq> capacity AND (capacity - 1) then Inl invalid_argument
      else Inr \<lparr>bf_producer_idx = 0, bf_consumer_idx = 0, bf_closed = False, bf_producers = [],
        bf_consumers = [], bf_slots = (\<lambda>i. \<lparr>sl_cycle = i, sl_storage = None\<rparr>), bf_capacity = capacity\<rparr>)"

definition bf_is_closed :: "'a buffered_channel \<Rightarrow> bool" where
  "bf_is_closed ch = bf_closed ch"

definition slot_of :: "'a buffered_channel \<Rightarrow> nat \<Rightarrow> nat" where
  "slot_of ch idx = idx AND (bf_capacity ch - 1)"

definition cycle_of :: "'a buffered_channel \<Rightarrow> nat \<Rightarrow> nat" where
  "cycle_of ch idx = sl_cycle (bf_slots ch (slot_of ch idx))"

definition set_cycle :: "nat \<Rightarrow> nat \<Rightarrow> 'a buffered_channel \<Rightarrow> 'a buffered_channel" where
  "set_cycle idx cycle ch =
     ch\<lparr>bf_slots := (bf_slots ch)(slot_of ch idx := (bf_slots ch (slot_of ch idx))\<lparr>sl_cycle := cycle\<rparr>)\<rparr>"

definition set_storage :: "nat \<Rightarrow> 'a option \<Rightarrow> 'a buffered_channel \<Rightarrow> 'a buffered_channel" where
  "set_storage idx v ch =
     ch\<lparr>bf_slots := (bf_slots ch)(slot_of ch idx := (bf_slots ch (slot_of ch idx))\<lparr>sl_storage := v\<rparr>)\<rparr>"

text \<open>The tests, after the index has been loaded.\<close>

definition bf_is_full :: "nat \<Rightarrow> 'a buffered_channel \<Rightarrow> bool" where
  "bf_is_full idx ch \<longleftrightarrow> 0 > int (cycle_of ch idx) - int idx"

definition bf_is_empty :: "nat \<Rightarrow> 'a buffered_channel \<Rightarrow> bool" where
  "bf_is_empty idx ch \<longleftrightarrow> 0 > int (cycle_of ch idx) - int (idx + 1)"

subsection \<open>The ring\<close>

text \<open>Where a fiber is in \<open>try_push_\<close>, \<open>try_value_pop_\<close> and \<open>try_pop_\<close>; \<open>weak\<close> is a spurious failure of
  \<open>compare_exchange_weak\<close>. A value that is moved out is gone; reading what is not there is garbage.\<close>

datatype push_pc =
    Pu_start | Pu_cycle nat | Pu_cas nat | Pu_write nat | Pu_publish nat | Pu_return channel_op_status

datatype 'a pop_pc =
    Po_start | Po_cycle nat | Po_cas nat | Po_claimed nat | Po_moved nat 'a | Po_garbage
  | Po_value 'a | Po_return channel_op_status

fun try_push_step ::
  "bool \<Rightarrow> 'a \<Rightarrow> push_pc \<Rightarrow> 'a buffered_channel \<Rightarrow> push_pc \<times> 'a buffered_channel" where
  "try_push_step weak value Pu_start ch = (Pu_cycle (bf_producer_idx ch), ch)"
| "try_push_step weak value (Pu_cycle idx) ch =
     (let diff = int (cycle_of ch idx) - int idx in
      (if 0 = diff then Pu_cas idx else if 0 > diff then Pu_return op_full else Pu_start, ch))"
| "try_push_step weak value (Pu_cas idx) ch =
     (if bf_producer_idx ch = idx \<and> \<not> weak then (Pu_write idx, ch\<lparr>bf_producer_idx := idx + 1\<rparr>)
      else (Pu_cycle (bf_producer_idx ch), ch))"
| "try_push_step weak value (Pu_write idx) ch = (Pu_publish idx, set_storage idx (Some value) ch)"
| "try_push_step weak value (Pu_publish idx) ch = (Pu_return op_success, set_cycle idx (idx + 1) ch)"
| "try_push_step weak value (Pu_return status) ch = (Pu_return status, ch)"

fun try_value_pop_step ::
  "bool \<Rightarrow> 'a pop_pc \<Rightarrow> 'a buffered_channel \<Rightarrow> 'a pop_pc \<times> 'a buffered_channel" where
  "try_value_pop_step weak Po_start ch = (Po_cycle (bf_consumer_idx ch), ch)"
| "try_value_pop_step weak (Po_cycle idx) ch =
     (let diff = int (cycle_of ch idx) - int (idx + 1) in
      (if 0 = diff then Po_cas idx else if 0 > diff then Po_return op_empty else Po_start, ch))"
| "try_value_pop_step weak (Po_cas idx) ch =
     (if bf_consumer_idx ch = idx \<and> \<not> weak then (Po_claimed idx, ch\<lparr>bf_consumer_idx := idx + 1\<rparr>)
      else (Po_cycle (bf_consumer_idx ch), ch))"
| "try_value_pop_step weak pc ch = (pc, ch)"

definition try_pop_step ::
  "bool \<Rightarrow> 'a pop_pc \<Rightarrow> 'a buffered_channel \<Rightarrow> 'a pop_pc \<times> 'a buffered_channel" where
  "try_pop_step weak pc ch =
     (case pc of
        Po_claimed idx \<Rightarrow>
          (case sl_storage (bf_slots ch (slot_of ch idx)) of
             Some value \<Rightarrow> (Po_moved idx value, set_storage idx None ch)
           | None \<Rightarrow> (Po_garbage, ch))
      | Po_moved idx value \<Rightarrow> (Po_value value, set_cycle idx (idx + bf_capacity ch) ch)
      | _ \<Rightarrow> try_value_pop_step weak pc ch)"

subsection \<open>The operations\<close>

datatype 'a bf_op =
    Bf_push 'a | Bf_push_until 'a | Bf_try_push 'a
  | Bf_pop | Bf_value_pop | Bf_pop_until | Bf_try_pop
  | Bf_close

text \<open>Outside the ring: at the head of the loop, done with the ring, holding the spinlock to look
  whether the channel is still full (empty), asleep, timed out, or back.\<close>

datatype 'a bf_pc =
    Loop "'a bf_op"
  | Pushing "'a bf_op" push_pc
  | Popping "'a bf_op" "'a pop_pc"
  | Pop_failed "'a bf_op" channel_op_status
  | Won "'a bf_op" "'a channel_result"
  | Failed "'a bf_op"
  | Check "'a bf_op"
  | Check_at "'a bf_op" nat
  | Asleep "'a bf_op"
  | Expired "'a bf_op"
  | Returned "'a channel_result"

record 'a bf_system =
  bs_chan :: "'a buffered_channel"
  bs_splk :: "ctx option"
  bs_pc :: "ctx \<Rightarrow> 'a bf_pc"
  bs_in :: "'a list"
  bs_out :: "(nat \<times> 'a) list"

text \<open>The lists are for the properties: the values in the order of the claimed places, and for
  each value that was read the place it was read from.\<close>

definition bf_go :: "ctx \<Rightarrow> 'a bf_pc \<Rightarrow> 'a bf_system \<Rightarrow> 'a bf_system" where
  "bf_go c p s = s\<lparr>bs_pc := (bs_pc s)(c := p)\<rparr>"

definition bf_wake :: "ctx \<Rightarrow> (ctx \<Rightarrow> 'a bf_pc) \<Rightarrow> ctx \<Rightarrow> 'a bf_pc" where
  "bf_wake c pc = (case pc c of Asleep op \<Rightarrow> pc(c := Loop op) | _ \<Rightarrow> pc)"

definition locked :: "'a bf_system \<Rightarrow> 'a bf_system \<Rightarrow> 'a bf_system option" where
  "locked s t = (if bs_splk s = None then Some t else None)"

text \<open>One waiting consumer is notified, and \<open>r\<close> returned.\<close>

definition notify_consumer :: "ctx \<Rightarrow> 'a channel_result \<Rightarrow> 'a bf_system \<Rightarrow> 'a bf_system option" where
  "notify_consumer c r s = locked s (bf_go c (Returned r)
     (case bf_consumers (bs_chan s) of
        [] \<Rightarrow> s
      | d # ds \<Rightarrow> s\<lparr>bs_chan := (bs_chan s)\<lparr>bf_consumers := ds\<rparr>, bs_pc := bf_wake d (bs_pc s)\<rparr>))"

definition notify_producer :: "ctx \<Rightarrow> 'a channel_result \<Rightarrow> 'a bf_system \<Rightarrow> 'a bf_system option" where
  "notify_producer c r s = locked s (bf_go c (Returned r)
     (case bf_producers (bs_chan s) of
        [] \<Rightarrow> s
      | d # ds \<Rightarrow> s\<lparr>bs_chan := (bs_chan s)\<lparr>bf_producers := ds\<rparr>, bs_pc := bf_wake d (bs_pc s)\<rparr>))"

definition buffered_close :: "ctx \<Rightarrow> 'a bf_system \<Rightarrow> 'a bf_system option" where
  "buffered_close c s = locked s (bf_go c (Returned Void)
     (s\<lparr>bs_chan := (bs_chan s)\<lparr>bf_closed := True, bf_producers := [], bf_consumers := []\<rparr>,
        bs_pc := fold bf_wake (bf_producers (bs_chan s) @ bf_consumers (bs_chan s)) (bs_pc s)\<rparr>))"

text \<open>A step in the ring. The value of a claimed place and of a read one are noted.\<close>

definition ring_push :: "bool \<Rightarrow> ctx \<Rightarrow> 'a bf_op \<Rightarrow> 'a \<Rightarrow> push_pc \<Rightarrow> 'a bf_system \<Rightarrow> 'a bf_system" where
  "ring_push weak c op value p s =
     (case try_push_step weak value p (bs_chan s) of (p', ch) \<Rightarrow>
        s\<lparr>bs_chan := ch, bs_pc := (bs_pc s)(c := Pushing op p'),
          bs_in := (if bf_producer_idx ch = bf_producer_idx (bs_chan s) then bs_in s else bs_in s @ [value])\<rparr>)"

definition ring_pop :: "bool \<Rightarrow> ctx \<Rightarrow> 'a bf_op \<Rightarrow> 'a pop_pc \<Rightarrow> 'a bf_system \<Rightarrow> 'a bf_system" where
  "ring_pop weak c op p s =
     (case try_pop_step weak p (bs_chan s) of (p', ch) \<Rightarrow>
        s\<lparr>bs_chan := ch, bs_pc := (bs_pc s)(c := Popping op p'),
          bs_out := (case (p, p') of (Po_claimed idx, Po_moved idx' value) \<Rightarrow> bs_out s @ [(idx, value)] | _ \<Rightarrow> bs_out s)\<rparr>)"

definition buffered_push :: "bool \<Rightarrow> ctx \<Rightarrow> 'a bf_op \<Rightarrow> 'a \<Rightarrow> 'a bf_system \<Rightarrow> 'a bf_system option" where
  "buffered_push weak c op value s =
     (let ch = bs_chan s in
      case bs_pc s c of
        Loop _ \<Rightarrow>
          Some (bf_go c (if bf_is_closed ch then Returned (Status op_closed) else Pushing op Pu_start) s)
      | Pushing _ (Pu_return status) \<Rightarrow>
          Some (bf_go c (if status = op_success then Won op (Status status)
            else if status = op_full then Failed op else Returned (Status status)) s)
      | Pushing _ p \<Rightarrow> Some (ring_push weak c op value p s)
      | Won _ r \<Rightarrow> notify_consumer c r s
      | Failed _ \<Rightarrow>
          locked s (if bf_is_closed ch then bf_go c (Returned (Status op_closed)) s
            else bf_go c (Check op) (s\<lparr>bs_splk := Some c\<rparr>))
      | Check _ \<Rightarrow> Some (bf_go c (Check_at op (bf_producer_idx ch)) s)
      | Check_at _ idx \<Rightarrow>
          Some (if \<not> bf_is_full idx ch then bf_go c (Loop op) (s\<lparr>bs_splk := None\<rparr>)
            else bf_go c (Asleep op)
              (s\<lparr>bs_splk := None, bs_chan := ch\<lparr>bf_producers := bf_producers ch @ [c]\<rparr>\<rparr>))
      | _ \<Rightarrow> None)"

definition buffered_push_until :: "bool \<Rightarrow> ctx \<Rightarrow> 'a bf_op \<Rightarrow> 'a \<Rightarrow> 'a bf_system \<Rightarrow> 'a bf_system option" where
  "buffered_push_until weak c op value s =
     (case bs_pc s c of
        Expired _ \<Rightarrow>
          locked s (bf_go c (Returned (Status op_timeout))
            (s\<lparr>bs_chan := (bs_chan s)\<lparr>bf_producers := remove1 c (bf_producers (bs_chan s))\<rparr>\<rparr>))
      | _ \<Rightarrow> buffered_push weak c op value s)"

definition buffered_try_push :: "bool \<Rightarrow> ctx \<Rightarrow> 'a bf_op \<Rightarrow> 'a \<Rightarrow> 'a bf_system \<Rightarrow> 'a bf_system option" where
  "buffered_try_push weak c op value s =
     (case bs_pc s c of
        Loop _ \<Rightarrow>
          Some (bf_go c (if bf_is_closed (bs_chan s) then Returned (Status op_closed) else Pushing op Pu_start) s)
      | Pushing _ (Pu_return status) \<Rightarrow> Some (bf_go c (Returned (Status status)) s)
      | Pushing _ p \<Rightarrow> Some (ring_push weak c op value p s)
      | _ \<Rightarrow> None)"

text \<open>The overloads for rvalues take the same steps; the value is moved where it is written.\<close>

definition buffered_push_move :: "bool \<Rightarrow> ctx \<Rightarrow> 'a bf_op \<Rightarrow> 'a \<Rightarrow> 'a bf_system \<Rightarrow> 'a bf_system option" where
  "buffered_push_move = buffered_push"

definition buffered_push_until_move :: "bool \<Rightarrow> ctx \<Rightarrow> 'a bf_op \<Rightarrow> 'a \<Rightarrow> 'a bf_system \<Rightarrow> 'a bf_system option" where
  "buffered_push_until_move = buffered_push_until"

definition buffered_try_push_move :: "bool \<Rightarrow> ctx \<Rightarrow> 'a bf_op \<Rightarrow> 'a \<Rightarrow> 'a bf_system \<Rightarrow> 'a bf_system option" where
  "buffered_try_push_move = buffered_try_push"

text \<open>\<open>pop\<close>; \<open>if_closed\<close> is what a closed channel answers: \<open>value_pop\<close> throws instead.\<close>

definition pop_loop :: "'a channel_result \<Rightarrow> bool \<Rightarrow> ctx \<Rightarrow> 'a bf_op \<Rightarrow> 'a bf_system \<Rightarrow> 'a bf_system option" where
  "pop_loop if_closed weak c op s =
     (let ch = bs_chan s in
      case bs_pc s c of
        Loop _ \<Rightarrow> Some (bf_go c (Popping op Po_start) s)
      | Popping _ (Po_value value) \<Rightarrow> Some (bf_go c (Won op (Popped value)) s)
      | Popping _ (Po_return status) \<Rightarrow>
          Some (bf_go c (if status = op_empty then Failed op else Returned if_closed) s)
      | Popping _ Po_garbage \<Rightarrow> Some (bf_go c (Returned Broken) s)
      | Popping _ p \<Rightarrow> Some (ring_pop weak c op p s)
      | Won _ r \<Rightarrow> notify_producer c r s
      | Failed _ \<Rightarrow>
          locked s (if bf_is_closed ch then bf_go c (Returned if_closed) s
            else bf_go c (Check op) (s\<lparr>bs_splk := Some c\<rparr>))
      | Check _ \<Rightarrow> Some (bf_go c (Check_at op (bf_consumer_idx ch)) s)
      | Check_at _ idx \<Rightarrow>
          Some (if \<not> bf_is_empty idx ch then bf_go c (Loop op) (s\<lparr>bs_splk := None\<rparr>)
            else bf_go c (Asleep op)
              (s\<lparr>bs_splk := None, bs_chan := ch\<lparr>bf_consumers := bf_consumers ch @ [c]\<rparr>\<rparr>))
      | _ \<Rightarrow> None)"

definition buffered_pop :: "bool \<Rightarrow> ctx \<Rightarrow> 'a bf_op \<Rightarrow> 'a bf_system \<Rightarrow> 'a bf_system option" where
  "buffered_pop = pop_loop (Status op_closed)"

definition buffered_value_pop :: "bool \<Rightarrow> ctx \<Rightarrow> 'a bf_op \<Rightarrow> 'a bf_system \<Rightarrow> 'a bf_system option" where
  "buffered_value_pop = pop_loop (Threw operation_not_permitted)"

definition buffered_pop_until :: "bool \<Rightarrow> ctx \<Rightarrow> 'a bf_op \<Rightarrow> 'a bf_system \<Rightarrow> 'a bf_system option" where
  "buffered_pop_until weak c op s =
     (case bs_pc s c of
        Expired _ \<Rightarrow>
          locked s (bf_go c (Returned (Status op_timeout))
            (s\<lparr>bs_chan := (bs_chan s)\<lparr>bf_consumers := remove1 c (bf_consumers (bs_chan s))\<rparr>\<rparr>))
      | _ \<Rightarrow> buffered_pop weak c op s)"

definition buffered_try_pop :: "bool \<Rightarrow> ctx \<Rightarrow> 'a bf_op \<Rightarrow> 'a bf_system \<Rightarrow> 'a bf_system option" where
  "buffered_try_pop weak c op s =
     (case bs_pc s c of
        Loop _ \<Rightarrow> Some (bf_go c (Popping op Po_start) s)
      | Popping _ (Po_value value) \<Rightarrow> Some (bf_go c (Returned (Popped value)) s)
      | Popping _ (Po_return status) \<Rightarrow> Some (bf_go c (Pop_failed op status) s)
      | Popping _ Po_garbage \<Rightarrow> Some (bf_go c (Returned Broken) s)
      | Popping _ p \<Rightarrow> Some (ring_pop weak c op p s)
      | Pop_failed _ status \<Rightarrow>
          Some (bf_go c (Returned (Status (if bf_is_closed (bs_chan s) then op_closed else status))) s)
      | _ \<Rightarrow> None)"

text \<open>The destructor, which runs alone: what is left in the ring is popped and destroyed; \<open>vs\<close>
  collects it. \<open>None\<close> is a loop that never ends, or the destruction of what is not there.\<close>

partial_function (option) destroy_values ::
  "'a buffered_channel \<Rightarrow> 'a list \<Rightarrow> ('a list \<times> 'a buffered_channel) option" where
  "destroy_values ch vs =
     (let idx = bf_consumer_idx ch; diff = int (cycle_of ch idx) - int (idx + 1) in
      if 0 = diff then
        (case sl_storage (bf_slots ch (slot_of ch idx)) of
           None \<Rightarrow> None
         | Some value \<Rightarrow>
             destroy_values
               (set_cycle idx (idx + bf_capacity ch) (set_storage idx None (ch\<lparr>bf_consumer_idx := idx + 1\<rparr>)))
               (vs @ [value]))
      else if 0 > diff then Some (vs, ch)
      else destroy_values ch vs)"

definition buffered_channel_delete :: "'a buffered_channel \<Rightarrow> ('a list \<times> 'a buffered_channel) option" where
  "buffered_channel_delete ch =
     destroy_values (ch\<lparr>bf_closed := True, bf_producers := [], bf_consumers := []\<rparr>) []"

text \<open>The iterator holds the channel and the value it has popped; the end has no channel. It is given
  what \<open>value_pop\<close> returned or threw.\<close>

record 'a bf_iterator =
  it_chan :: bool
  it_value :: "'a option"

definition iterator_increment :: "'a channel_result \<Rightarrow> 'a bf_iterator \<Rightarrow> 'a bf_iterator option" where
  "iterator_increment popped it =
     (if \<not> it_chan it then None
      else case popped of
          Popped value \<Rightarrow> Some (it\<lparr>it_value := Some value\<rparr>)
        | Threw e \<Rightarrow> Some (it\<lparr>it_chan := False\<rparr>)
        | _ \<Rightarrow> None)"

definition iterator_begin :: "'a channel_result \<Rightarrow> 'a bf_iterator option" where
  "iterator_begin popped = iterator_increment popped \<lparr>it_chan = True, it_value = None\<rparr>"

definition iterator_end :: "'a bf_iterator" where
  "iterator_end = \<lparr>it_chan = False, it_value = None\<rparr>"

definition iterator_eq :: "'a bf_iterator \<Rightarrow> 'a bf_iterator \<Rightarrow> bool" where
  "iterator_eq it other \<longleftrightarrow> it_chan other = it_chan it"

text \<open>The operation a fiber is in.\<close>

fun bf_op_of :: "'a bf_pc \<Rightarrow> 'a bf_op option" where
  "bf_op_of (Returned r) = None"
| "bf_op_of (Loop op) = Some op"
| "bf_op_of (Pushing op p) = Some op"
| "bf_op_of (Popping op p) = Some op"
| "bf_op_of (Pop_failed op st) = Some op"
| "bf_op_of (Won op r) = Some op"
| "bf_op_of (Failed op) = Some op"
| "bf_op_of (Check op) = Some op"
| "bf_op_of (Check_at op idx) = Some op"
| "bf_op_of (Asleep op) = Some op"
| "bf_op_of (Expired op) = Some op"

definition bf_step :: "bool \<Rightarrow> ctx \<Rightarrow> 'a bf_system \<Rightarrow> 'a bf_system option" where
  "bf_step weak c s =
     (case bf_op_of (bs_pc s c) of
        None \<Rightarrow> None
      | Some op \<Rightarrow>
          (case op of
             Bf_push value \<Rightarrow> buffered_push weak c op value s
           | Bf_push_until value \<Rightarrow> buffered_push_until weak c op value s
           | Bf_try_push value \<Rightarrow> buffered_try_push weak c op value s
           | Bf_pop \<Rightarrow> buffered_pop weak c op s
           | Bf_value_pop \<Rightarrow> buffered_value_pop weak c op s
           | Bf_pop_until \<Rightarrow> buffered_pop_until weak c op s
           | Bf_try_pop \<Rightarrow> buffered_try_pop weak c op s
           | Bf_close \<Rightarrow> (case bs_pc s c of Loop _ \<Rightarrow> buffered_close c s | _ \<Rightarrow> None)))"

datatype 'a bf_event = Bf_call ctx "'a bf_op" | Bf_step ctx | Bf_weak ctx | Bf_expire ctx

fun bf_next :: "'a bf_event \<Rightarrow> 'a bf_system \<Rightarrow> 'a bf_system option" where
  "bf_next (Bf_call c op) s =
     (case bs_pc s c of Returned r \<Rightarrow> Some (bf_go c (Loop op) s) | _ \<Rightarrow> None)"
| "bf_next (Bf_step c) s = bf_step False c s"
| "bf_next (Bf_weak c) s = bf_step True c s"
| "bf_next (Bf_expire c) s =
     (case bs_pc s c of
        Asleep op \<Rightarrow>
          (case op of
             Bf_push_until value \<Rightarrow> Some (bf_go c (Expired op) s)
           | Bf_pop_until \<Rightarrow> Some (bf_go c (Expired op) s)
           | _ \<Rightarrow> None)
      | _ \<Rightarrow> None)"

definition bf_start :: "'a buffered_channel \<Rightarrow> 'a bf_system" where
  "bf_start ch = \<lparr>bs_chan = ch, bs_splk = None, bs_pc = (\<lambda>_. Returned Void), bs_in = [], bs_out = []\<rparr>"

inductive bf_reach :: "nat \<Rightarrow> 'a bf_system \<Rightarrow> bool" for capacity where
  start: "buffered_channel_new capacity = Inr ch \<Longrightarrow> bf_reach capacity (bf_start ch)"
| step: "bf_reach capacity s \<Longrightarrow> bf_next e s = Some t \<Longrightarrow> bf_reach capacity t"

fun bf_run :: "'a bf_event list \<Rightarrow> 'a bf_system \<Rightarrow> 'a bf_system option" where
  "bf_run [] s = Some s"
| "bf_run (e # es) s = Option.bind (bf_next e s) (bf_run es)"

lemma bf_run_reach: "bf_reach capacity s \<Longrightarrow> bf_run es s = Some t \<Longrightarrow> bf_reach capacity t"
  by (induction es arbitrary: s) (auto intro: bf_reach.step split: Option.bind_splits)

end
