(* ===== verification/Buffered_Ring.thy ===== *)
theory Buffered_Ring
  imports Buffered_Channel
begin

text \<open>
  The ring of \<open>buffered_channel\<close> is a FIFO when it has at least two slots: no slot is overwritten
  before its value has been read, none is read before its value has been written, and the value
  read from a place is the one written there.
\<close>

subsection \<open>The invariant\<close>

text \<open>The place a fiber writes to, or reads from.\<close>

fun wr :: "'a bf_pc \<Rightarrow> nat option" where
  "wr (Pushing op (Pu_write i)) = Some i"
| "wr (Pushing op (Pu_publish i)) = Some i"
| "wr _ = None"

fun rd :: "'a bf_pc \<Rightarrow> nat option" where
  "rd (Popping op (Po_claimed i)) = Some i"
| "rd (Popping op (Po_moved i v)) = Some i"
| "rd _ = None"

fun pushed_value :: "'a bf_op \<Rightarrow> 'a option" where
  "pushed_value (Bf_push v) = Some v"
| "pushed_value (Bf_push_until v) = Some v"
| "pushed_value (Bf_try_push v) = Some v"
| "pushed_value _ = None"

text \<open>What a fiber that has not claimed a place yet knows: of the cycle it has seen, and that the
  counters only grow.\<close>

fun looks :: "nat \<Rightarrow> nat \<Rightarrow> (nat \<Rightarrow> nat) \<Rightarrow> 'a bf_pc \<Rightarrow> bool" where
  "looks C P cyc (Pushing op (Pu_cycle i)) \<longleftrightarrow> i \<le> P"
| "looks C P cyc (Pushing op (Pu_cas i)) \<longleftrightarrow> i \<le> P \<and> (cyc i = i \<or> i < P)"
| "looks C P cyc (Popping op (Po_cycle i)) \<longleftrightarrow> i \<le> C"
| "looks C P cyc (Popping op (Po_cas i)) \<longleftrightarrow> i \<le> C \<and> (cyc i = i + 1 \<or> i < C)"
| "looks C P cyc _ \<longleftrightarrow> True"

text \<open>\<open>C\<close> and \<open>P\<close> are the counters, \<open>cyc\<close> and \<open>sto\<close> the cycle and the storage of a place's slot.\<close>

definition ring_ok ::
  "nat \<Rightarrow> nat \<Rightarrow> nat \<Rightarrow> (nat \<Rightarrow> nat) \<Rightarrow> (nat \<Rightarrow> 'a option) \<Rightarrow> (ctx \<Rightarrow> 'a bf_pc) \<Rightarrow> 'a list \<Rightarrow> (nat \<times> 'a) list \<Rightarrow> bool" where
  "ring_ok n C P cyc sto pc ins outs \<longleftrightarrow>
     2 \<le> n \<and> C \<le> P \<and> P \<le> C + n \<and> length ins = P \<and>
     (\<forall>c i. wr (pc c) = Some i \<longrightarrow> C \<le> i \<and> i < P \<and> cyc i = i) \<and>
     (\<forall>c op i. pc c = Pushing op (Pu_write i) \<longrightarrow> pushed_value op = Some (ins ! i)) \<and>
     (\<forall>c op i. pc c = Pushing op (Pu_publish i) \<longrightarrow> sto i = Some (ins ! i)) \<and>
     (\<forall>c d i. wr (pc c) = Some i \<longrightarrow> wr (pc d) = Some i \<longrightarrow> c = d) \<and>
     (\<forall>i. C \<le> i \<longrightarrow> i < P \<longrightarrow> (\<forall>c. wr (pc c) \<noteq> Some i) \<longrightarrow> cyc i = i + 1 \<and> sto i = Some (ins ! i)) \<and>
     (\<forall>c i. rd (pc c) = Some i \<longrightarrow> i < C \<and> P \<le> i + n \<and> cyc i = i + 1) \<and>
     (\<forall>c op i. pc c = Popping op (Po_claimed i) \<longrightarrow> sto i = Some (ins ! i) \<and> i \<notin> fst ` set outs) \<and>
     (\<forall>c d i. rd (pc c) = Some i \<longrightarrow> rd (pc d) = Some i \<longrightarrow> c = d) \<and>
     (\<forall>j. P \<le> j \<longrightarrow> j < P + n \<longrightarrow> j < n \<or> (j < C + n \<and> (\<forall>c. rd (pc c) \<noteq> Some (j - n))) \<longrightarrow> cyc j = j) \<and>
     (\<forall>c. looks C P cyc (pc c)) \<and>
     distinct (map fst outs) \<and> (\<forall>(i, v) \<in> set outs. i < C \<and> v = ins ! i)"

lemma ring_okD:
  assumes "ring_ok n C P cyc sto pc ins outs"
  shows "2 \<le> n" "C \<le> P" "P \<le> C + n" "length ins = P"
    and "wr (pc c) = Some i \<Longrightarrow> C \<le> i \<and> i < P \<and> cyc i = i"
    and "pc c = Pushing op (Pu_write i) \<Longrightarrow> pushed_value op = Some (ins ! i)"
    and "pc c = Pushing op (Pu_publish i) \<Longrightarrow> sto i = Some (ins ! i)"
    and "wr (pc c) = Some i \<Longrightarrow> wr (pc d) = Some i \<Longrightarrow> c = d"
    and "C \<le> i \<Longrightarrow> i < P \<Longrightarrow> (\<And>c. wr (pc c) \<noteq> Some i) \<Longrightarrow> cyc i = i + 1 \<and> sto i = Some (ins ! i)"
    and "rd (pc c) = Some i \<Longrightarrow> i < C \<and> P \<le> i + n \<and> cyc i = i + 1"
    and "pc c = Popping op (Po_claimed i) \<Longrightarrow> sto i = Some (ins ! i) \<and> i \<notin> fst ` set outs"
    and "rd (pc c) = Some i \<Longrightarrow> rd (pc d) = Some i \<Longrightarrow> c = d"
    and "P \<le> j \<Longrightarrow> j < P + n \<Longrightarrow> j < n \<or> (j < C + n \<and> (\<forall>c. rd (pc c) \<noteq> Some (j - n))) \<Longrightarrow> cyc j = j"
    and "looks C P cyc (pc c)"
    and "distinct (map fst outs)" "(i, v) \<in> set outs \<Longrightarrow> i < C \<and> v = ins ! i"
proof -
  note a = assms [unfolded ring_ok_def]
  show "2 \<le> n" "C \<le> P" "P \<le> C + n" "length ins = P" "looks C P cyc (pc c)" "distinct (map fst outs)"
    using a by simp_all
  show "C \<le> i \<and> i < P \<and> cyc i = i" if "wr (pc c) = Some i" using a that by simp
  show "pushed_value op = Some (ins ! i)" if "pc c = Pushing op (Pu_write i)" using a that by simp
  show "sto i = Some (ins ! i)" if "pc c = Pushing op (Pu_publish i)" using a that by simp
  show "c = d" if "wr (pc c) = Some i" "wr (pc d) = Some i" using a that by meson
  show "cyc i = i + 1 \<and> sto i = Some (ins ! i)" if "C \<le> i" "i < P" "\<And>c. wr (pc c) \<noteq> Some i"
    using a that by simp
  show "i < C \<and> P \<le> i + n \<and> cyc i = i + 1" if "rd (pc c) = Some i" using a that by simp
  show "sto i = Some (ins ! i) \<and> i \<notin> fst ` set outs" if "pc c = Popping op (Po_claimed i)"
    using a that by (elim conjE) blast
  show "c = d" if "rd (pc c) = Some i" "rd (pc d) = Some i" using a that by meson
  show "cyc j = j" if "P \<le> j" "j < P + n" "j < n \<or> (j < C + n \<and> (\<forall>c. rd (pc c) \<noteq> Some (j - n)))"
    using a that by (elim conjE) blast
  from a have "\<forall>(i, v) \<in> set outs. i < C \<and> v = ins ! i" by (elim conjE)
  then show "i < C \<and> v = ins ! i" if "(i, v) \<in> set outs" using that by auto
qed

text \<open>Steps that neither claim nor release a place.\<close>

lemma ring_ok_look:
  assumes ok: "ring_ok n C P cyc sto pc ins outs"
    and d: "\<And>d. pc' d = pc d \<or> wr (pc d) = None \<and> rd (pc d) = None \<and> wr (pc' d) = None \<and> rd (pc' d) = None \<and>
      looks C P cyc (pc' d)"
  shows "ring_ok n C P cyc sto pc' ins outs"
proof -
  have w: "wr (pc' d) = wr (pc d)" "rd (pc' d) = rd (pc d)" "looks C P cyc (pc' d)" for d
    using d [of d] ring_okD(14) [OF ok] by metis+
  have p: "pc d = pc' d" if "wr (pc' d) \<noteq> None \<or> rd (pc' d) \<noteq> None" for d using d [of d] that by auto
  have "\<forall>c op i. pc' c = Pushing op (Pu_write i) \<longrightarrow> pushed_value op = Some (ins ! i)"
    "\<forall>c op i. pc' c = Pushing op (Pu_publish i) \<longrightarrow> sto i = Some (ins ! i)"
    "\<forall>c op i. pc' c = Popping op (Po_claimed i) \<longrightarrow> sto i = Some (ins ! i) \<and> i \<notin> fst ` set outs"
    using p ring_okD(6,7,11) [OF ok] by (metis option.distinct(1) wr.simps(1,2) rd.simps(1))+
  with ok w(3) show ?thesis unfolding ring_ok_def w(1,2) by (elim conjE) (intro conjI; assumption?; simp)
qed

lemma ring_okI:
  assumes "2 \<le> n" "C \<le> P" "P \<le> C + n" "length ins = P"
    and "\<And>c i. wr (pc c) = Some i \<Longrightarrow> C \<le> i \<and> i < P \<and> cyc i = i"
    and "\<And>c op i. pc c = Pushing op (Pu_write i) \<Longrightarrow> pushed_value op = Some (ins ! i)"
    and "\<And>c op i. pc c = Pushing op (Pu_publish i) \<Longrightarrow> sto i = Some (ins ! i)"
    and "\<And>c d i. wr (pc c) = Some i \<Longrightarrow> wr (pc d) = Some i \<Longrightarrow> c = d"
    and "\<And>i. C \<le> i \<Longrightarrow> i < P \<Longrightarrow> \<forall>c. wr (pc c) \<noteq> Some i \<Longrightarrow> cyc i = i + 1 \<and> sto i = Some (ins ! i)"
    and "\<And>c i. rd (pc c) = Some i \<Longrightarrow> i < C \<and> P \<le> i + n \<and> cyc i = i + 1"
    and "\<And>c op i. pc c = Popping op (Po_claimed i) \<Longrightarrow> sto i = Some (ins ! i) \<and> i \<notin> fst ` set outs"
    and "\<And>c d i. rd (pc c) = Some i \<Longrightarrow> rd (pc d) = Some i \<Longrightarrow> c = d"
    and "\<And>j. P \<le> j \<Longrightarrow> j < P + n \<Longrightarrow> j < n \<or> (j < C + n \<and> (\<forall>c. rd (pc c) \<noteq> Some (j - n))) \<Longrightarrow> cyc j = j"
    and "\<And>c. looks C P cyc (pc c)"
    and "distinct (map fst outs)" "\<And>i v. (i, v) \<in> set outs \<Longrightarrow> i < C \<and> v = ins ! i"
  shows "ring_ok n C P cyc sto pc ins outs"
  unfolding ring_ok_def
proof (intro conjI)
  show "\<forall>c i. wr (pc c) = Some i \<longrightarrow> C \<le> i \<and> i < P \<and> cyc i = i" using assms(5) by blast
  show "\<forall>c op i. pc c = Pushing op (Pu_write i) \<longrightarrow> pushed_value op = Some (ins ! i)" using assms(6) by blast
  show "\<forall>c op i. pc c = Pushing op (Pu_publish i) \<longrightarrow> sto i = Some (ins ! i)" using assms(7) by blast
  show "\<forall>c d i. wr (pc c) = Some i \<longrightarrow> wr (pc d) = Some i \<longrightarrow> c = d" using assms(8) by blast
  show "\<forall>i \<ge> C. i < P \<longrightarrow> (\<forall>c. wr (pc c) \<noteq> Some i) \<longrightarrow> cyc i = i + 1 \<and> sto i = Some (ins ! i)"
    using assms(9) by blast
  show "\<forall>c i. rd (pc c) = Some i \<longrightarrow> i < C \<and> P \<le> i + n \<and> cyc i = i + 1" using assms(10) by blast
  show "\<forall>c op i. pc c = Popping op (Po_claimed i) \<longrightarrow> sto i = Some (ins ! i) \<and> i \<notin> fst ` set outs"
    using assms(11) by blast
  show "\<forall>c d i. rd (pc c) = Some i \<longrightarrow> rd (pc d) = Some i \<longrightarrow> c = d" using assms(12) by blast
  show "\<forall>j \<ge> P. j < P + n \<longrightarrow> j < n \<or> j < C + n \<and> (\<forall>c. rd (pc c) \<noteq> Some (j - n)) \<longrightarrow> cyc j = j"
    using assms(13) by blast
  show "\<forall>(i, v) \<in> set outs. i < C \<and> v = ins ! i" using assms(16) by blast
qed (use assms(1-4,14,15) in blast)+

text \<open>Places that share a slot.\<close>

definition same :: "nat \<Rightarrow> nat \<Rightarrow> nat \<Rightarrow> bool" where
  "same n i j \<longleftrightarrow> i mod n = j mod n"

lemma same_refl [simp]: "same n i i" and same_sym: "same n i j = same n j i"
  and same_next [simp]: "same n (i + n) i" "same n i (i + n)"
  by (auto simp: same_def)

lemma same_window:
  assumes "same n i j" "i \<le> j" "j < i + n"
  shows "j = i"
proof -
  have "int j mod int n = int i mod int n" using assms(1) by (simp add: same_def flip: of_nat_mod)
  from mod_window_inj [OF this, of "int i - 1"] assms(2,3) show ?thesis by simp
qed

lemma same_succ: "2 \<le> n \<Longrightarrow> \<not> same n i (i + 1)"
  using same_window [of n i "i + 1"] by auto

definition periodic :: "nat \<Rightarrow> (nat \<Rightarrow> 'b) \<Rightarrow> bool" where
  "periodic n f \<longleftrightarrow> (\<forall>i j. same n i j \<longrightarrow> f i = f j)"

text \<open>A producer claims the place \<open>P\<close>.\<close>

lemma ring_ok_claim_push:
  assumes ok: "ring_ok n C P cyc sto pc ins outs" and per: "periodic n cyc"
    and c: "pc c = Pushing op (Pu_cas P)" and v: "pushed_value op = Some v"
  shows "ring_ok n C (P + 1) cyc sto (pc(c := Pushing op (Pu_write P))) (ins @ [v]) outs"
proof -
  note D = ring_okD [OF ok]
  have cP: "cyc P = P" using D(14) [of c] c by simp
  have prev: "cyc (P - n) = P" if "n \<le> P"
    using per that cP same_next(1) [of n "P - n"] unfolding periodic_def by (metis le_add_diff_inverse2)
  have nr: "rd (pc d) \<noteq> Some (P - n)" if "n \<le> P" for d
    using D(10) [of d "P - n"] D(1) prev that by auto
  have room: "P < C + n"
  proof (rule ccontr)
    assume "\<not> P < C + n"
    then have P: "n \<le> P" "C \<le> P - n" "P - n < P" using D(1) by auto
    from D(5) [of _ "P - n"] D(9) [OF P(2,3)] prev [OF P(1)] P(1) D(1) show False by fastforce
  qed
  have wc: "wr (pc c) = None" "rd (pc c) = None" using c by simp_all
  show ?thesis
  proof (rule ring_okI)
    fix d i assume i: "wr ((pc(c := Pushing op (Pu_write P))) d) = Some i"
    show "C \<le> i \<and> i < P + 1 \<and> cyc i = i" using i D(2) D(5) [of d i] cP by (cases "d = c") auto
  next
    fix d op' i assume "(pc(c := Pushing op (Pu_write P))) d = Pushing op' (Pu_write i)"
    then show "pushed_value op' = Some ((ins @ [v]) ! i)"
      using D(4) D(5) [of d i] D(6) [of d op' i] v by (cases "d = c") (auto simp: nth_append)
  next
    fix d op' i assume "(pc(c := Pushing op (Pu_write P))) d = Pushing op' (Pu_publish i)"
    then show "sto i = Some ((ins @ [v]) ! i)"
      using D(4) D(5) [of d i] D(7) [of d op' i] by (cases "d = c") (auto simp: nth_append)
  next
    fix d e i
    assume "wr ((pc(c := Pushing op (Pu_write P))) d) = Some i" "wr ((pc(c := Pushing op (Pu_write P))) e) = Some i"
    then show "d = e" using D(8) [of d i e] D(5) [of d i] D(5) [of e i] by (auto split: if_splits)
  next
    fix i assume i: "C \<le> i" "i < P + 1" "\<forall>d. wr ((pc(c := Pushing op (Pu_write P))) d) \<noteq> Some i"
    have "i \<noteq> P" using spec [OF i(3), of c] by simp
    moreover have "wr (pc d) \<noteq> Some i" for d using spec [OF i(3), of d] wc by (cases "d = c") simp_all
    ultimately show "cyc i = i + 1 \<and> sto i = Some ((ins @ [v]) ! i)"
      using i(1,2) D(9) [of i] D(4) by (simp add: nth_append)
  next
    fix d i assume i: "rd ((pc(c := Pushing op (Pu_write P))) d) = Some i"
    then have d: "rd (pc d) = Some i" by (auto split: if_splits)
    have "P \<noteq> i + n" using nr [of d] d by auto
    with D(10) [OF d] show "i < C \<and> P + 1 \<le> i + n \<and> cyc i = i + 1" by simp
  next
    fix d op' i assume "(pc(c := Pushing op (Pu_write P))) d = Popping op' (Po_claimed i)"
    then have "pc d = Popping op' (Po_claimed i)" by (auto split: if_splits)
    with D(11) [OF this] D(10) [of d i] D(2,4) show "sto i = Some ((ins @ [v]) ! i) \<and> i \<notin> fst ` set outs"
      by (simp add: nth_append)
  next
    fix d e i
    assume "rd ((pc(c := Pushing op (Pu_write P))) d) = Some i" "rd ((pc(c := Pushing op (Pu_write P))) e) = Some i"
    then show "d = e" using D(12) [of d i e] by (auto split: if_splits)
  next
    fix j assume j: "P + 1 \<le> j" "j < P + 1 + n"
      "j < n \<or> (j < C + n \<and> (\<forall>d. rd ((pc(c := Pushing op (Pu_write P))) d) \<noteq> Some (j - n)))"
    have "rd (pc d) \<noteq> Some k" if "rd ((pc(c := Pushing op (Pu_write P))) d) \<noteq> Some k" for d k
      using that wc by (cases "d = c") simp_all
    with j(3) have "j < n \<or> (j < C + n \<and> (\<forall>d. rd (pc d) \<noteq> Some (j - n)))" by blast
    moreover have "j < P + n" if "j < n \<or> j < C + n" using that D(2) by auto
    ultimately show "cyc j = j" using j(1) D(13) [of j] by auto
  next
    fix d show "looks C (P + 1) cyc ((pc(c := Pushing op (Pu_write P))) d)"
      using D(14) [of d] by (cases "(C, P, cyc, pc d)" rule: looks.cases) auto
  next
    fix i w assume "(i, w) \<in> set outs"
    with D(16) [of i w] D(2,4) show "i < C \<and> w = (ins @ [v]) ! i" by (simp add: nth_append)
  qed (use D(1-4,15) room in simp_all)
qed

lemma same_next_window: "same n i j \<Longrightarrow> i < j \<Longrightarrow> j < i + 2 * n \<Longrightarrow> j = i + n"
proof -
  assume a: "same n i j" "i < j" "j < i + 2 * n"
  have "i + n \<le> j" using same_window [OF a(1)] a(2) by (cases "j < i + n") auto
  moreover have "same n (i + n) j" using a(1) by (simp add: same_def)
  ultimately show "j = i + n" using same_window [of n "i + n" j] a(3) by simp
qed

lemma apart:
  assumes "lo \<le> i" "lo \<le> k" "i < lo + n" "k < lo + n" "i \<noteq> k"
  shows "\<not> same n i k"
proof
  assume s: "same n i k"
  show False
  proof (cases "i \<le> k")
    case True
    with same_window [OF s] assms show False by simp
  next
    case False
    with same_window [of n k i] s assms same_sym [of n i k] show False by simp
  qed
qed

text \<open>The places written and read in slots of their own.\<close>

lemma ring_ok_apart:
  assumes ok: "ring_ok n C P cyc sto pc ins outs"
  shows "C \<le> i \<Longrightarrow> i < P \<Longrightarrow> C \<le> k \<Longrightarrow> k < P \<Longrightarrow> i \<noteq> k \<Longrightarrow> \<not> same n i k"
    and "C \<le> i \<Longrightarrow> i < P \<Longrightarrow> k < C \<Longrightarrow> P \<le> k + n \<Longrightarrow> \<not> same n i k"
    and "i < C \<Longrightarrow> P \<le> i + n \<Longrightarrow> C \<le> k \<Longrightarrow> k < P \<Longrightarrow> \<not> same n i k"
    and "i < C \<Longrightarrow> P \<le> i + n \<Longrightarrow> k < C \<Longrightarrow> P \<le> k + n \<Longrightarrow> i \<noteq> k \<Longrightarrow> \<not> same n i k"
  using ring_okD(2,3) [OF ok] apart [of C i k n] apart [of k i k n] apart [of i i k n] apart [of "min i k" i k n]
  by auto

lemma ring_ok_write:
  assumes ok: "ring_ok n C P cyc sto pc ins outs" and c: "pc c = Pushing op (Pu_write i)"
  shows "ring_ok n C P cyc (\<lambda>j. if same n i j then pushed_value op else sto j)
    (pc(c := Pushing op (Pu_publish i))) ins outs" (is "ring_ok n C P cyc ?sto ?pc ins outs")
proof -
  note D = ring_okD [OF ok]
  note A = ring_ok_apart [OF ok]
  have w: "wr (?pc d) = wr (pc d)" "rd (?pc d) = rd (pc d)" "looks C P cyc (?pc d)" for d
    using c D(14) [of d] by simp_all
  have i: "C \<le> i" "i < P" using D(5) [of c i] c by simp_all
  show ?thesis
  proof (rule ring_okI)
    fix d op' k assume "?pc d = Pushing op' (Pu_write k)"
    then show "pushed_value op' = Some (ins ! k)" using D(6) [of d op' k] by (auto split: if_splits)
  next
    fix d op' k assume a: "?pc d = Pushing op' (Pu_publish k)"
    show "?sto k = Some (ins ! k)"
    proof (cases "d = c")
      case True
      with a D(6) [OF c] show ?thesis by simp
    next
      case False
      with a have d: "pc d = Pushing op' (Pu_publish k)" by simp
      then have "C \<le> k" "k < P" "k \<noteq> i" using D(5) [of d k] D(8) [of d k c] c False by auto
      with A(1) [of i k] i D(7) [OF d] show ?thesis by simp
    qed
  next
    fix k assume k: "C \<le> k" "k < P" "\<forall>d. wr (?pc d) \<noteq> Some k"
    then have "wr (pc d) \<noteq> Some k" for d using w(1) by metis
    moreover from this [of c] have "i \<noteq> k" using c by auto
    ultimately show "cyc k = k + 1 \<and> ?sto k = Some (ins ! k)" using D(9) [of k] A(1) [of i k] k i by simp
  next
    fix d op' k assume "?pc d = Popping op' (Po_claimed k)"
    then have d: "pc d = Popping op' (Po_claimed k)" by (auto split: if_splits)
    with D(10) [of d k] have "k < C" "P \<le> k + n" by simp_all
    with A(2) [of i k] i D(11) [OF d] show "?sto k = Some (ins ! k) \<and> k \<notin> fst ` set outs" by simp
  qed (use D w in \<open>auto\<close>)
qed

lemma ring_ok_publish:
  assumes ok: "ring_ok n C P cyc sto pc ins outs" and per: "periodic n cyc" and c: "pc c = Pushing op (Pu_publish i)"
  shows "ring_ok n C P (\<lambda>j. if same n i j then i + 1 else cyc j) sto
    (pc(c := Pushing op (Pu_return st))) ins outs" (is "ring_ok n C P ?cyc sto ?pc ins outs")
proof -
  note D = ring_okD [OF ok]
  note A = ring_ok_apart [OF ok]
  have i: "C \<le> i" "i < P" using D(5) [of c i] c by simp_all
  have w: "wr (?pc d) = (if d = c then None else wr (pc d))" "rd (?pc d) = rd (pc d)" for d
    using c by simp_all
  have wi: "wr (pc d) = Some k \<Longrightarrow> d \<noteq> c \<Longrightarrow> k \<noteq> i" for d k using D(8) [of d k c] c by auto
  show ?thesis
  proof (rule ring_okI)
    fix d k assume k: "wr (?pc d) = Some k"
    then have "wr (pc d) = Some k" "d \<noteq> c" by (auto simp: w split: if_splits)
    with wi [of d k] D(5) [of d k] A(1) [of i k] i show "C \<le> k \<and> k < P \<and> ?cyc k = k" by auto
  next
    fix d op' k assume "?pc d = Pushing op' (Pu_write k)"
    then show "pushed_value op' = Some (ins ! k)" using D(6) [of d op' k] by (auto split: if_splits)
  next
    fix d op' k assume "?pc d = Pushing op' (Pu_publish k)"
    then show "sto k = Some (ins ! k)" using D(7) [of d op' k] by (auto split: if_splits)
  next
    fix d e k assume "wr (?pc d) = Some k" "wr (?pc e) = Some k"
    then show "d = e" using D(8) [of d k e] by (auto split: if_splits)
  next
    fix k assume k: "C \<le> k" "k < P" "\<forall>d. wr (?pc d) \<noteq> Some k"
    show "?cyc k = k + 1 \<and> sto k = Some (ins ! k)"
    proof (cases "k = i")
      case True
      with D(7) [OF c] show ?thesis by simp
    next
      case False
      have "wr (pc d) \<noteq> Some k" for d using spec [OF k(3), of d] c False by (cases "d = c") auto
      with D(9) [of k] A(1) [of i k] k i False show ?thesis by simp
    qed
  next
    fix d k assume k: "rd (?pc d) = Some k"
    with D(10) [of d k] w(2) [of d] A(2) [of i k] i show "k < C \<and> P \<le> k + n \<and> ?cyc k = k + 1" by simp
  next
    fix d op' k assume "?pc d = Popping op' (Po_claimed k)"
    then show "sto k = Some (ins ! k) \<and> k \<notin> fst ` set outs" using D(11) [of d op' k] by (auto split: if_splits)
  next
    fix d e k assume "rd (?pc d) = Some k" "rd (?pc e) = Some k"
    then show "d = e" using D(12) [of d k e] w(2) by simp
  next
    fix j assume j: "P \<le> j" "j < P + n" "j < n \<or> (j < C + n \<and> (\<forall>d. rd (?pc d) \<noteq> Some (j - n)))"
    have "\<not> same n i j"
    proof
      assume "same n i j"
      from same_next_window [OF this] j(1,2) i D(3) have "j = i + n" by simp
      with j(3) i show False by simp
    qed
    with D(13) [of j] j w(2) show "?cyc j = j" by simp
  next
    fix d
    have ci: "cyc i = i" using D(5) [of c i] c by simp
    have "k = i" if "same n i k" "cyc k = k" for k using per that ci unfolding periodic_def by metis
    moreover have "\<not> cyc k = Suc k" if "same n i k" for k
      using per that ci same_succ [OF D(1), of k] same_sym [of n i k] unfolding periodic_def by (metis Suc_eq_plus1)
    ultimately show "looks C P ?cyc (?pc d)"
      using D(14) [of d] i by (cases "(C, P, cyc, pc d)" rule: looks.cases) auto
  qed (use D in simp_all)
qed

lemma ring_ok_claim_pop:
  assumes ok: "ring_ok n C P cyc sto pc ins outs" and per: "periodic n cyc"
    and c: "pc c = Popping op (Po_cas C)"
  shows "ring_ok n (C + 1) P cyc sto (pc(c := Popping op (Po_claimed C))) ins outs"
    (is "ring_ok n (C + 1) P cyc sto ?pc ins outs")
proof -
  note D = ring_okD [OF ok]
  have cC: "cyc C = C + 1" using D(14) [of c] c by simp
  have lt: "C < P"
  proof (rule ccontr)
    assume "\<not> C < P"
    then have P: "P = C" using D(2) by simp
    have n: "cyc P \<noteq> P" "P < P + n" "P < C + n" using D(1) cC P by simp_all
    have nP: "n \<le> P" using D(13) [of P] n by (cases "P < n") auto
    have "\<exists>d. rd (pc d) = Some (P - n)" using D(13) [OF le_refl n(2)] n(1,3) by blast
    then obtain d where "rd (pc d) = Some (P - n)" by blast
    from D(10) [OF this] have "cyc (P - n) = P - n + 1" by simp
    moreover have "cyc (P - n) = cyc P" using per same_next(1) [of n "P - n"] nP
      unfolding periodic_def by (metis le_add_diff_inverse2)
    ultimately show False using cC P D(1) nP by simp
  qed
  have nw: "wr (pc d) \<noteq> Some C" for d using D(5) [of d C] cC by auto
  have sC: "sto C = Some (ins ! C)" using D(9) [of C] nw lt by simp
  have w: "wr (?pc d) = wr (pc d)" "rd (?pc d) = (if d = c then Some C else rd (pc d))" for d
    using c by simp_all
  have rC: "rd (pc d) \<noteq> Some C" for d using D(10) [of d C] by auto
  show ?thesis
  proof (rule ring_okI)
    fix d i assume i: "wr (?pc d) = Some i"
    then have "i \<noteq> C" using nw [of d] w(1) by auto
    with i D(5) [of d i] w(1) [of d] show "C + 1 \<le> i \<and> i < P \<and> cyc i = i" by simp
  next
    fix d op' k assume "?pc d = Pushing op' (Pu_write k)"
    then show "pushed_value op' = Some (ins ! k)" using D(6) [of d op' k] by (auto split: if_splits)
  next
    fix d op' k assume "?pc d = Pushing op' (Pu_publish k)"
    then show "sto k = Some (ins ! k)" using D(7) [of d op' k] by (auto split: if_splits)
  next
    fix i assume "C + 1 \<le> i" "i < P" "\<forall>d. wr (?pc d) \<noteq> Some i"
    with D(9) [of i] w(1) show "cyc i = i + 1 \<and> sto i = Some (ins ! i)" by simp
  next
    fix d i assume i: "rd (?pc d) = Some i"
    show "i < C + 1 \<and> P \<le> i + n \<and> cyc i = i + 1"
      using i D(10) [of d i] D(3) cC by (cases "d = c") auto
  next
    fix d op' i assume i: "?pc d = Popping op' (Po_claimed i)"
    show "sto i = Some (ins ! i) \<and> i \<notin> fst ` set outs"
      using i D(11) [of d op' i] D(16) sC by (cases "d = c") fastforce+
  next
    fix d e i assume "rd (?pc d) = Some i" "rd (?pc e) = Some i"
    then show "d = e" using D(12) [of d i e] rC [of d] rC [of e] w(2) by (auto split: if_splits)
  next
    fix j assume j: "P \<le> j" "j < P + n" "j < n \<or> (j < C + 1 + n \<and> (\<forall>d. rd (?pc d) \<noteq> Some (j - n)))"
    have "rd (pc d) \<noteq> Some k" if "rd (?pc d) \<noteq> Some k" for d k using that c by (cases "d = c") auto
    moreover have "j \<noteq> C + n" if "\<forall>d. rd (?pc d) \<noteq> Some (j - n)" using spec [OF that, of c] by auto
    ultimately have "j < n \<or> (j < C + n \<and> (\<forall>d. rd (pc d) \<noteq> Some (j - n)))" using j(3) by auto
    with D(13) [OF j(1,2)] show "cyc j = j" .
  next
    fix d show "looks (C + 1) P cyc (?pc d)"
      using D(14) [of d] by (cases "(C, P, cyc, pc d)" rule: looks.cases) auto
  next
    fix i v assume "(i, v) \<in> set outs"
    with D(16) [of i v] show "i < C + 1 \<and> v = ins ! i" by simp
  qed (use D lt w in \<open>auto\<close>)
qed

lemma ring_ok_read:
  assumes ok: "ring_ok n C P cyc sto pc ins outs" and c: "pc c = Popping op (Po_claimed i)"
  shows "ring_ok n C P cyc (\<lambda>j. if same n i j then None else sto j)
    (pc(c := Popping op (Po_moved i v))) ins (outs @ [(i, ins ! i)])"
    (is "ring_ok n C P cyc ?sto ?pc ins ?outs")
proof -
  note D = ring_okD [OF ok]
  note A = ring_ok_apart [OF ok]
  have i: "i < C" "P \<le> i + n" using D(10) [of c i] c by simp_all
  have w: "wr (?pc d) = wr (pc d)" "rd (?pc d) = rd (pc d)" for d using c by simp_all
  show ?thesis
  proof (rule ring_okI)
    fix d op' k assume "?pc d = Pushing op' (Pu_write k)"
    then show "pushed_value op' = Some (ins ! k)" using D(6) [of d op' k] by (auto split: if_splits)
  next
    fix d op' k assume "?pc d = Pushing op' (Pu_publish k)"
    then have d: "pc d = Pushing op' (Pu_publish k)" by (auto split: if_splits)
    with D(5) [of d k] A(3) [of i k] i D(7) [OF d] show "?sto k = Some (ins ! k)" by simp
  next
    fix k assume "C \<le> k" "k < P" "\<forall>d. wr (?pc d) \<noteq> Some k"
    with D(9) [of k] A(3) [of i k] i w(1) show "cyc k = k + 1 \<and> ?sto k = Some (ins ! k)" by simp
  next
    fix d op' k assume "?pc d = Popping op' (Po_claimed k)"
    then have d: "pc d = Popping op' (Po_claimed k)" "d \<noteq> c" by (auto split: if_splits)
    have "k \<noteq> i" using D(12) [of d k c] d c by auto
    with D(10) [of d k] d(1) A(4) [of i k] i D(11) [OF d(1)] show "?sto k = Some (ins ! k) \<and> k \<notin> fst ` set ?outs"
      by simp
  next
    fix d show "looks C P cyc (?pc d)" using D(14) [of d] by simp
  next
    show "distinct (map fst ?outs)" using D(11) [OF c] D(15) by simp
  next
    fix k u assume "(k, u) \<in> set ?outs"
    then show "k < C \<and> u = ins ! k" using D(16) [of k u] i by auto
  qed (use D w in \<open>auto\<close>)
qed

lemma ring_ok_release:
  assumes ok: "ring_ok n C P cyc sto pc ins outs" and per: "periodic n cyc"
    and c: "pc c = Popping op (Po_moved i v)"
  shows "ring_ok n C P (\<lambda>j. if same n i j then i + n else cyc j) sto
    (pc(c := Popping op (Po_value u))) ins outs" (is "ring_ok n C P ?cyc sto ?pc ins outs")
proof -
  note D = ring_okD [OF ok]
  note A = ring_ok_apart [OF ok]
  have i: "i < C" "P \<le> i + n" "cyc i = i + 1" using D(10) [of c i] c by simp_all
  have w: "wr (?pc d) = wr (pc d)" "rd (?pc d) = (if d = c then None else rd (pc d))" for d using c by simp_all
  show ?thesis
  proof (rule ring_okI)
    fix d k assume "wr (?pc d) = Some k"
    with D(5) [of d k] w(1) [of d] A(3) [of i k] i show "C \<le> k \<and> k < P \<and> ?cyc k = k" by simp
  next
    fix d op' k assume "?pc d = Pushing op' (Pu_write k)"
    then show "pushed_value op' = Some (ins ! k)" using D(6) [of d op' k] by (auto split: if_splits)
  next
    fix d op' k assume "?pc d = Pushing op' (Pu_publish k)"
    then show "sto k = Some (ins ! k)" using D(7) [of d op' k] by (auto split: if_splits)
  next
    fix k assume "C \<le> k" "k < P" "\<forall>d. wr (?pc d) \<noteq> Some k"
    with D(9) [of k] A(3) [of i k] i w(1) show "?cyc k = k + 1 \<and> sto k = Some (ins ! k)" by simp
  next
    fix d k assume "rd (?pc d) = Some k"
    then have d: "rd (pc d) = Some k" "d \<noteq> c" by (auto split: if_splits)
    then have "k \<noteq> i" using D(12) [of d k c] c by auto
    with D(10) [OF d(1)] A(4) [of i k] i show "k < C \<and> P \<le> k + n \<and> ?cyc k = k + 1" by simp
  next
    fix d op' k assume "?pc d = Popping op' (Po_claimed k)"
    then show "sto k = Some (ins ! k) \<and> k \<notin> fst ` set outs" using D(11) [of d op' k] by (auto split: if_splits)
  next
    fix d e k assume "rd (?pc d) = Some k" "rd (?pc e) = Some k"
    then show "d = e" using D(12) [of d k e] by (auto split: if_splits)
  next
    fix j assume j: "P \<le> j" "j < P + n" "j < n \<or> (j < C + n \<and> (\<forall>d. rd (?pc d) \<noteq> Some (j - n)))"
    show "?cyc j = j"
    proof (cases "same n i j")
      case True
      with same_next_window [OF True] j i D(2) show ?thesis by simp
    next
      case False
      have "rd (pc d) \<noteq> Some (j - n)" if "n \<le> j" "rd (?pc d) \<noteq> Some (j - n)" for d
        using that False c same_next(2) [of n "j - n"] by (cases "d = c") auto
      with j(3) D(13) [OF j(1,2)] False show ?thesis by (cases "j < n") auto
    qed
  next
    fix d
    have ci: "cyc k = i + 1" if "same n i k" for k using per that i(3) unfolding periodic_def by metis
    then have "cyc k \<noteq> k" "cyc k = k + 1 \<Longrightarrow> k = i" if "same n i k" for k
      using that same_succ [OF D(1), of i] by auto
    then show "looks C P ?cyc (?pc d)"
      using D(14) [of d] i(1) by (cases "(C, P, cyc, pc d)" rule: looks.cases) auto
  qed (use D w in \<open>auto\<close>)
qed

end
