(* ===== verification/Buffered_Fifo.thy ===== *)
theory Buffered_Fifo
  imports Buffered_Ring
begin

text \<open>
  The properties of \<open>buffered_channel\<close>: first in, first out for any interleaving of any number of
  fibers when the capacity is at least two; nobody sleeps on a closed channel; and the ways in
  which it does not do what it should.
\<close>

subsection \<open>The steps of a fiber\<close>

fun calm :: "'a bf_pc \<Rightarrow> bool" where
  "calm (Pushing op Pu_start) = True"
| "calm (Pushing op (Pu_return st)) = True"
| "calm (Pushing op p) = False"
| "calm (Popping op Po_start) = True"
| "calm (Popping op (Po_value v)) = True"
| "calm (Popping op Po_garbage) = True"
| "calm (Popping op (Po_return st)) = True"
| "calm (Popping op p) = False"
| "calm _ = True"

lemma calm_looks: "calm p \<Longrightarrow> wr p = None \<and> rd p = None \<and> looks C P cyc p"
  by (cases p rule: calm.cases) auto

definition same_ring :: "'a bf_system \<Rightarrow> 'a bf_system \<Rightarrow> bool" where
  "same_ring s t \<longleftrightarrow> bs_in t = bs_in s \<and> bs_out t = bs_out s \<and>
     bf_producer_idx (bs_chan t) = bf_producer_idx (bs_chan s) \<and>
     bf_consumer_idx (bs_chan t) = bf_consumer_idx (bs_chan s) \<and>
     bf_slots (bs_chan t) = bf_slots (bs_chan s) \<and> bf_capacity (bs_chan t) = bf_capacity (bs_chan s)"

definition calm_step :: "'a bf_system \<Rightarrow> 'a bf_system \<Rightarrow> bool" where
  "calm_step s t \<longleftrightarrow> same_ring s t \<and>
     (\<forall>d. bs_pc t d = bs_pc s d \<or> calm (bs_pc s d) \<and> calm (bs_pc t d))"

definition ring_step :: "'a bf_system \<Rightarrow> 'a bf_system \<Rightarrow> bool" where
  "ring_step s t \<longleftrightarrow>
     (\<exists>weak c op v p. bs_pc s c = Pushing op p \<and> pushed_value op = Some v \<and> t = ring_push weak c op v p s) \<or>
     (\<exists>weak c op p. bs_pc s c = Popping op p \<and> t = ring_pop weak c op p s)"

lemma wake_calm: "fold bf_wake ds pc d = pc d \<or> calm (pc d) \<and> calm (fold bf_wake ds pc d)"
proof (induction ds arbitrary: pc)
  case (Cons x ds)
  have "bf_wake x pc d = pc d \<or> calm (pc d) \<and> calm (bf_wake x pc d)"
    by (auto simp: bf_wake_def split: bf_pc.split)
  with Cons [of "bf_wake x pc"] show ?case by auto
qed simp

lemma bf_wake_calm: "bf_wake x pc d = pc d \<or> calm (pc d) \<and> calm (bf_wake x pc d)"
  using wake_calm [of "[x]"] by simp

lemma go_calm:
  "calm (bs_pc s c) \<Longrightarrow> calm p \<Longrightarrow> calm_step s t \<Longrightarrow> calm_step s (bf_go c p t)"
  by (auto simp: calm_step_def same_ring_def bf_go_def)

lemma calm_step_simps [simp]: "calm_step s s"
  "calm_step s (s\<lparr>bs_splk := l\<rparr>)"
  "calm_step s (s\<lparr>bs_chan := (bs_chan s)\<lparr>bf_producers := ps\<rparr>\<rparr>)"
  "calm_step s (s\<lparr>bs_chan := (bs_chan s)\<lparr>bf_consumers := ps\<rparr>\<rparr>)"
  "calm_step s (s\<lparr>bs_splk := l, bs_chan := (bs_chan s)\<lparr>bf_producers := ps\<rparr>\<rparr>)"
  "calm_step s (s\<lparr>bs_splk := l, bs_chan := (bs_chan s)\<lparr>bf_consumers := ps\<rparr>\<rparr>)"
  by (simp_all add: calm_step_def same_ring_def)

lemma notify_calm:
  assumes "calm (bs_pc s c)"
  shows "notify_consumer c r s = Some t \<Longrightarrow> calm_step s t" "notify_producer c r s = Some t \<Longrightarrow> calm_step s t"
    "buffered_close c s = Some t \<Longrightarrow> calm_step s t"
proof -
  show "calm_step s t" if "notify_consumer c r s = Some t"
  proof (cases "bf_consumers (bs_chan s)")
    case Nil
    with that go_calm [OF assms, of "Returned r" s] show ?thesis
      by (auto simp: notify_consumer_def locked_def split: if_splits)
  next
    case (Cons d ds)
    have "calm_step s (s\<lparr>bs_chan := (bs_chan s)\<lparr>bf_consumers := ds\<rparr>, bs_pc := bf_wake d (bs_pc s)\<rparr>)"
      using bf_wake_calm by (auto simp: calm_step_def same_ring_def)
    from go_calm [OF assms _ this, of "Returned r"] that Cons show ?thesis
      by (auto simp: notify_consumer_def locked_def split: if_splits)
  qed
  show "calm_step s t" if "notify_producer c r s = Some t"
  proof (cases "bf_producers (bs_chan s)")
    case Nil
    with that go_calm [OF assms, of "Returned r" s] show ?thesis
      by (auto simp: notify_producer_def locked_def split: if_splits)
  next
    case (Cons d ds)
    have "calm_step s (s\<lparr>bs_chan := (bs_chan s)\<lparr>bf_producers := ds\<rparr>, bs_pc := bf_wake d (bs_pc s)\<rparr>)"
      using bf_wake_calm by (auto simp: calm_step_def same_ring_def)
    from go_calm [OF assms _ this, of "Returned r"] that Cons show ?thesis
      by (auto simp: notify_producer_def locked_def split: if_splits)
  qed
  show "calm_step s t" if "buffered_close c s = Some t"
  proof -
    have "calm_step s (s\<lparr>bs_chan := (bs_chan s)\<lparr>bf_closed := True, bf_producers := [], bf_consumers := []\<rparr>,
        bs_pc := fold bf_wake (bf_producers (bs_chan s) @ bf_consumers (bs_chan s)) (bs_pc s)\<rparr>)"
      using wake_calm by (auto simp: calm_step_def same_ring_def simp del: fold_append)
    from go_calm [OF assms _ this, of "Returned Void"] that show ?thesis
      by (auto simp: buffered_close_def locked_def simp del: fold_append split: if_splits)
  qed
qed

lemma push_step_cases:
  assumes "buffered_push weak c op v s = Some t" "bf_op_of (bs_pc s c) = Some op" "pushed_value op = Some v"
  shows "calm_step s t \<or> ring_step s t"
proof (cases "bs_pc s c")
  case (Pushing op' p)
  then have o: "op' = op" using assms(2) by simp
  show ?thesis
  proof (cases p)
    case (Pu_return st)
    with Pushing assms show ?thesis by (auto simp: buffered_push_def Let_def intro!: go_calm)
  qed (use Pushing o assms in \<open>auto simp: buffered_push_def Let_def intro!: go_calm;
        unfold ring_step_def; blast\<close>)+
next
  case (Won op' r)
  then have "notify_consumer c r s = Some t" using assms by (simp add: buffered_push_def)
  with notify_calm(1) [of s c r t] Won show ?thesis by simp
qed (use assms in \<open>auto simp: buffered_push_def Let_def locked_def intro!: go_calm split: if_splits\<close>)

lemma try_push_step_cases:
  assumes "buffered_try_push weak c op v s = Some t" "bf_op_of (bs_pc s c) = Some op" "pushed_value op = Some v"
  shows "calm_step s t \<or> ring_step s t"
proof (cases "bs_pc s c")
  case (Pushing op' p)
  then have o: "op' = op" using assms(2) by simp
  show ?thesis
  proof (cases p)
    case (Pu_return st)
    with Pushing assms show ?thesis by (auto simp: buffered_try_push_def intro!: go_calm)
  qed (use Pushing o assms in \<open>auto simp: buffered_try_push_def intro!: go_calm; unfold ring_step_def; blast\<close>)+
qed (use assms in \<open>auto simp: buffered_try_push_def intro!: go_calm split: if_splits\<close>)

lemma pop_step_cases:
  assumes "pop_loop r weak c op s = Some t" "bf_op_of (bs_pc s c) = Some op"
  shows "calm_step s t \<or> ring_step s t"
proof (cases "bs_pc s c")
  case (Popping op' p)
  then have o: "op' = op" using assms(2) by simp
  show ?thesis
    by (cases p) (use Popping o assms in \<open>auto simp: pop_loop_def Let_def intro!: go_calm;
        unfold ring_step_def; blast\<close>)+
next
  case (Won op' r)
  then have "notify_producer c r s = Some t" using assms by (simp add: pop_loop_def)
  with notify_calm(2) [of s c r t] Won show ?thesis by simp
qed (use assms in \<open>auto simp: pop_loop_def Let_def locked_def intro!: go_calm split: if_splits\<close>)

lemma try_pop_step_cases:
  assumes "buffered_try_pop weak c op s = Some t" "bf_op_of (bs_pc s c) = Some op"
  shows "calm_step s t \<or> ring_step s t"
proof (cases "bs_pc s c")
  case (Popping op' p)
  then have o: "op' = op" using assms(2) by simp
  show ?thesis
    by (cases p) (use Popping o assms in \<open>auto simp: buffered_try_pop_def intro!: go_calm;
        unfold ring_step_def; blast\<close>)+
qed (use assms in \<open>auto simp: buffered_try_pop_def intro!: go_calm split: if_splits\<close>)

lemma until_step_cases:
  "buffered_push_until weak c op v s = Some t \<Longrightarrow> bf_op_of (bs_pc s c) = Some op \<Longrightarrow> pushed_value op = Some v \<Longrightarrow>
    calm_step s t \<or> ring_step s t"
  "buffered_pop_until weak c op s = Some t \<Longrightarrow> bf_op_of (bs_pc s c) = Some op \<Longrightarrow>
    calm_step s t \<or> ring_step s t"
  using push_step_cases [of weak c op v s t] pop_step_cases [of "Status op_closed" weak c op s t]
  by (cases "bs_pc s c"; auto simp: buffered_push_until_def buffered_pop_until_def buffered_pop_def locked_def
      intro!: go_calm split: if_splits)+

lemma bf_next_cases:
  assumes "bf_next e s = Some t"
  shows "calm_step s t \<or> ring_step s t"
proof -
  have step: "calm_step s t \<or> ring_step s t" if st: "bf_step weak c s = Some t" for weak c
  proof -
    obtain op where op: "bf_op_of (bs_pc s c) = Some op" using st by (auto simp: bf_step_def split: option.splits)
    show ?thesis
    proof (cases op)
      case (Bf_push v)
      with st op push_step_cases [of weak c op v s t] show ?thesis by (simp add: bf_step_def)
    next
      case (Bf_push_until v)
      with st op until_step_cases(1) [of weak c op v s t] show ?thesis by (simp add: bf_step_def)
    next
      case (Bf_try_push v)
      with st op try_push_step_cases [of weak c op v s t] show ?thesis by (simp add: bf_step_def)
    next
      case Bf_pop
      with st op pop_step_cases [of "Status op_closed" weak c op s t] show ?thesis
        by (simp add: bf_step_def buffered_pop_def)
    next
      case Bf_value_pop
      with st op pop_step_cases [of "Threw operation_not_permitted" weak c op s t] show ?thesis
        by (simp add: bf_step_def buffered_value_pop_def)
    next
      case Bf_pop_until
      with st op until_step_cases(2) [of weak c op s t] show ?thesis by (simp add: bf_step_def)
    next
      case Bf_try_pop
      with st op try_pop_step_cases [of weak c op s t] show ?thesis by (simp add: bf_step_def)
    next
      case Bf_close
      with st op obtain op' where "bs_pc s c = Loop op'" "buffered_close c s = Some t"
        by (auto simp: bf_step_def split: bf_pc.splits)
      with notify_calm(3) [of s c t] show ?thesis by simp
    qed
  qed
  show ?thesis
  proof (cases e)
    case (Bf_call c op)
    with assms show ?thesis by (auto split: bf_pc.splits intro!: go_calm)
  next
    case (Bf_expire c)
    with assms show ?thesis by (auto split: bf_pc.splits bf_op.splits intro!: go_calm)
  qed (use assms step in auto)
qed

subsection \<open>First in, first out\<close>

definition storage_of :: "'a buffered_channel \<Rightarrow> nat \<Rightarrow> 'a option" where
  "storage_of ch idx = sl_storage (bf_slots ch (slot_of ch idx))"

definition bf_ring :: "nat \<Rightarrow> 'a bf_system \<Rightarrow> bool" where
  "bf_ring n s \<longleftrightarrow> bf_capacity (bs_chan s) = n \<and>
     ring_ok n (bf_consumer_idx (bs_chan s)) (bf_producer_idx (bs_chan s)) (cycle_of (bs_chan s))
       (storage_of (bs_chan s)) (bs_pc s) (bs_in s) (bs_out s)"

lemma slot_of_mod:
  assumes "pow2 (int (bf_capacity ch))"
  shows "slot_of ch idx = idx mod bf_capacity ch"
proof -
  have "0 < bf_capacity ch" using pow2_pos [OF assms] by simp
  then have "int (bf_capacity ch - 1) = int (bf_capacity ch) - 1" by (simp add: of_nat_diff)
  then have "int (slot_of ch idx) = int idx AND (int (bf_capacity ch) - 1)"
    by (simp add: slot_of_def of_nat_and_eq)
  also have "\<dots> = int (idx mod bf_capacity ch)" using and_mask_pow2 [OF assms] by (simp add: of_nat_mod)
  finally show ?thesis by (simp only: of_nat_eq_iff)
qed

lemma slot_same:
  assumes "pow2 (int n)" "bf_capacity ch = n"
  shows "slot_of ch i = slot_of ch j \<longleftrightarrow> same n i j"
  using assms slot_of_mod [of ch] by (simp add: same_def)

lemma cycle_periodic:
  "pow2 (int n) \<Longrightarrow> bf_capacity ch = n \<Longrightarrow> periodic n (cycle_of ch)"
  unfolding periodic_def cycle_of_def using slot_same [of n ch] by metis

lemma set_simps:
  assumes "pow2 (int n)" "bf_capacity ch = n"
  shows "cycle_of (set_cycle i k ch) = (\<lambda>j. if same n i j then k else cycle_of ch j)"
    "storage_of (set_cycle i k ch) = storage_of ch"
    "cycle_of (set_storage i v ch) = cycle_of ch"
    "storage_of (set_storage i v ch) = (\<lambda>j. if same n i j then v else storage_of ch j)"
proof -
  have e: "slot_of (set_cycle i k ch) j = slot_of ch j" "slot_of (set_storage i v ch) j = slot_of ch j" for j
    by (simp_all add: slot_of_def set_cycle_def set_storage_def)
  have f: "bf_slots (set_cycle i k ch) = (bf_slots ch)(slot_of ch i := (bf_slots ch (slot_of ch i))\<lparr>sl_cycle := k\<rparr>)"
    "bf_slots (set_storage i v ch) = (bf_slots ch)(slot_of ch i := (bf_slots ch (slot_of ch i))\<lparr>sl_storage := v\<rparr>)"
    by (simp_all add: set_cycle_def set_storage_def)
  have sl: "same n i j = (slot_of ch i = slot_of ch j)" for j by (rule slot_same [OF assms, symmetric])
  show "cycle_of (set_cycle i k ch) = (\<lambda>j. if same n i j then k else cycle_of ch j)"
    "storage_of (set_cycle i k ch) = storage_of ch"
    "cycle_of (set_storage i v ch) = cycle_of ch"
    "storage_of (set_storage i v ch) = (\<lambda>j. if same n i j then v else storage_of ch j)"
    by (auto simp: fun_eq_iff cycle_of_def storage_of_def e f sl)
qed

lemma set_fields [simp]:
  "bf_producer_idx (set_cycle i k ch) = bf_producer_idx ch" "bf_consumer_idx (set_cycle i k ch) = bf_consumer_idx ch"
  "bf_producer_idx (set_storage i v ch) = bf_producer_idx ch" "bf_consumer_idx (set_storage i v ch) = bf_consumer_idx ch"
  "bf_capacity (set_cycle i k ch) = bf_capacity ch" "bf_capacity (set_storage i v ch) = bf_capacity ch"
  by (simp_all add: set_cycle_def set_storage_def)

lemma ring_push_ok:
  assumes R: "bf_ring n s" and n: "pow2 (int n)" and c: "bs_pc s c = Pushing op p" and v: "pushed_value op = Some v"
  shows "bf_ring n (ring_push weak c op v p s)"
proof -
  let ?ch = "bs_chan s"
  have cap: "bf_capacity ?ch = n" using R by (simp add: bf_ring_def)
  have ok: "ring_ok n (bf_consumer_idx ?ch) (bf_producer_idx ?ch) (cycle_of ?ch) (storage_of ?ch) (bs_pc s) (bs_in s) (bs_out s)"
    using R by (simp add: bf_ring_def)
  note per = cycle_periodic [OF n cap]
  note S = set_simps [OF n cap]
  have look: "ring_ok n (bf_consumer_idx ?ch) (bf_producer_idx ?ch) (cycle_of ?ch) (storage_of ?ch)
      ((bs_pc s)(c := Pushing op q)) (bs_in s) (bs_out s)"
    if "wr (Pushing op q) = None" "wr (Pushing op p) = None"
      "looks (bf_consumer_idx ?ch) (bf_producer_idx ?ch) (cycle_of ?ch) (Pushing op q)" for q
    by (rule ring_ok_look [OF ok]) (use that c in auto)
  show ?thesis
  proof (cases p)
    case Pu_start
    with look [of "Pu_cycle (bf_producer_idx ?ch)"] cap show ?thesis by (simp add: ring_push_def bf_ring_def)
  next
    case (Pu_cycle i)
    have "i \<le> bf_producer_idx ?ch" using ring_okD(14) [OF ok, of c] c Pu_cycle by simp
    then show ?thesis
      using look [of "Pu_cas i"] look [of "Pu_return op_full"] look [of Pu_start] cap Pu_cycle
      by (simp add: ring_push_def bf_ring_def Let_def)
  next
    case (Pu_cas i)
    show ?thesis
    proof (cases "bf_producer_idx ?ch = i \<and> \<not> weak")
      case True
      have e: "cycle_of (?ch\<lparr>bf_producer_idx := Suc i\<rparr>) = cycle_of ?ch"
        "storage_of (?ch\<lparr>bf_producer_idx := Suc i\<rparr>) = storage_of ?ch"
        by (simp_all add: fun_eq_iff cycle_of_def storage_of_def slot_of_def)
      from True Pu_cas ring_ok_claim_push [OF ok per _ v, of c] c cap show ?thesis
        by (simp add: ring_push_def bf_ring_def e)
    next
      case False
      with Pu_cas look [of "Pu_cycle (bf_producer_idx ?ch)"] cap show ?thesis
        by (auto simp: ring_push_def bf_ring_def)
    qed
  next
    case (Pu_write i)
    with ring_ok_write [OF ok, of c op i, unfolded v] c cap show ?thesis by (simp add: ring_push_def bf_ring_def S)
  next
    case (Pu_publish i)
    with ring_ok_publish [OF ok per, of c op i op_success, unfolded Suc_eq_plus1 [symmetric]] c cap show ?thesis
      by (simp add: ring_push_def bf_ring_def S)
  next
    case (Pu_return st)
    with look [of p] cap show ?thesis by (simp add: ring_push_def bf_ring_def)
  qed
qed

lemma ring_pop_ok:
  assumes R: "bf_ring n s" and n: "pow2 (int n)" and c: "bs_pc s c = Popping op p"
  shows "bf_ring n (ring_pop weak c op p s)"
proof -
  let ?ch = "bs_chan s"
  have cap: "bf_capacity ?ch = n" using R by (simp add: bf_ring_def)
  have ok: "ring_ok n (bf_consumer_idx ?ch) (bf_producer_idx ?ch) (cycle_of ?ch) (storage_of ?ch) (bs_pc s) (bs_in s) (bs_out s)"
    using R by (simp add: bf_ring_def)
  note per = cycle_periodic [OF n cap]
  note S = set_simps [OF n cap]
  have look: "ring_ok n (bf_consumer_idx ?ch) (bf_producer_idx ?ch) (cycle_of ?ch) (storage_of ?ch)
      ((bs_pc s)(c := Popping op q)) (bs_in s) (bs_out s)"
    if "rd (Popping op q) = None" "rd (Popping op p) = None"
      "looks (bf_consumer_idx ?ch) (bf_producer_idx ?ch) (cycle_of ?ch) (Popping op q)" for q
    by (rule ring_ok_look [OF ok]) (use that c in auto)
  show ?thesis
  proof (cases p)
    case Po_start
    with look [of "Po_cycle (bf_consumer_idx ?ch)"] cap show ?thesis
      by (simp add: ring_pop_def try_pop_step_def bf_ring_def)
  next
    case (Po_cycle i)
    have "i \<le> bf_consumer_idx ?ch" using ring_okD(14) [OF ok, of c] c Po_cycle by simp
    then show ?thesis
      using look [of "Po_cas i"] look [of "Po_return op_empty"] look [of Po_start] cap Po_cycle
      by (simp add: ring_pop_def try_pop_step_def bf_ring_def Let_def)
  next
    case (Po_cas i)
    show ?thesis
    proof (cases "bf_consumer_idx ?ch = i \<and> \<not> weak")
      case True
      have e: "cycle_of (?ch\<lparr>bf_consumer_idx := Suc i\<rparr>) = cycle_of ?ch"
        "storage_of (?ch\<lparr>bf_consumer_idx := Suc i\<rparr>) = storage_of ?ch"
        by (simp_all add: fun_eq_iff cycle_of_def storage_of_def slot_of_def)
      from True Po_cas ring_ok_claim_pop [OF ok per, of c] c cap show ?thesis
        by (simp add: ring_pop_def try_pop_step_def bf_ring_def e)
    next
      case False
      with Po_cas look [of "Po_cycle (bf_consumer_idx ?ch)"] cap show ?thesis
        by (auto simp: ring_pop_def try_pop_step_def bf_ring_def)
    qed
  next
    case (Po_claimed i)
    have "sl_storage (bf_slots ?ch (slot_of ?ch i)) = Some (bs_in s ! i)"
      using ring_okD(11) [OF ok, of c op i] c Po_claimed by (simp add: storage_of_def)
    with Po_claimed ring_ok_read [OF ok, of c op i] c cap show ?thesis
      by (simp add: ring_pop_def try_pop_step_def bf_ring_def S)
  next
    case (Po_moved i v)
    with ring_ok_release [OF ok per, of c op i v v] c cap show ?thesis
      by (simp add: ring_pop_def try_pop_step_def bf_ring_def S)
  qed (use look [of p] cap in \<open>simp_all add: ring_pop_def try_pop_step_def bf_ring_def\<close>)
qed

lemma bf_reach_ring:
  assumes "bf_reach n s" "2 \<le> n"
  shows "pow2 (int n) \<and> bf_ring n s"
  using assms(1)
proof (induction rule: bf_reach.induct)
  case (start ch)
  then have ch: "0 < n" "n AND (n - 1) = 0" "ch = \<lparr>bf_producer_idx = 0, bf_consumer_idx = 0, bf_closed = False,
      bf_producers = [], bf_consumers = [], bf_slots = (\<lambda>i. \<lparr>sl_cycle = i, sl_storage = None\<rparr>), bf_capacity = n\<rparr>"
    by (auto simp: buffered_channel_new_def split: if_splits)
  have "int n AND (int n - 1) = int (n AND (n - 1))" using ch(1) by (simp add: of_nat_and_eq of_nat_diff)
  with ch(1,2) have p: "pow2 (int n)" using and_pred_eq_0_iff [of "int n"] by simp
  have "cycle_of ch j = j mod n" "storage_of ch j = None" for j
    using slot_of_mod [of ch j] p ch(3) by (simp_all add: cycle_of_def storage_of_def)
  then have "ring_ok n 0 0 (cycle_of ch) (storage_of ch) (\<lambda>_. Returned Void) [] []"
    using assms(2) by (intro ring_okI) auto
  with p ch(3) show ?case by (simp add: bf_ring_def bf_start_def)
next
  case (step s e t)
  then have p: "pow2 (int n)" and R: "bf_ring n s" by simp_all
  from bf_next_cases [OF step.hyps(2)] show ?case
  proof
    assume "ring_step s t"
    with p R show ?thesis by (auto simp: ring_step_def ring_push_ok ring_pop_ok)
  next
    assume c: "calm_step s t"
    then have e: "cycle_of (bs_chan t) = cycle_of (bs_chan s)" "storage_of (bs_chan t) = storage_of (bs_chan s)"
      by (simp_all add: calm_step_def same_ring_def fun_eq_iff cycle_of_def storage_of_def slot_of_def)
    have ok: "ring_ok n (bf_consumer_idx (bs_chan s)) (bf_producer_idx (bs_chan s)) (cycle_of (bs_chan s))
        (storage_of (bs_chan s)) (bs_pc t) (bs_in s) (bs_out s)"
      by (rule ring_ok_look) (use R c calm_looks in \<open>fastforce simp: bf_ring_def calm_step_def\<close>)+
    with c R p show ?thesis by (simp add: bf_ring_def e) (simp add: calm_step_def same_ring_def)
  qed
qed

text \<open>C29: A buffered channel with a capacity of at least two is a FIFO, however its fibers
  interleave: there are never more values in it than it has slots, every place is read at most
  once, what is read from a place is the value pushed into it, and a consumer that has claimed a
  place finds that value there. The places are handed out in order, to producers and to
  consumers.\<close>

theorem buffered_channel_fifo:
  assumes "bf_reach capacity s" "2 \<le> capacity"
  shows "length (bs_in s) = bf_producer_idx (bs_chan s) \<and>
    bf_consumer_idx (bs_chan s) \<le> bf_producer_idx (bs_chan s) \<and>
    bf_producer_idx (bs_chan s) \<le> bf_consumer_idx (bs_chan s) + capacity \<and>
    distinct (map fst (bs_out s)) \<and>
    (\<forall>i v. (i, v) \<in> set (bs_out s) \<longrightarrow> i < bf_consumer_idx (bs_chan s) \<and> v = bs_in s ! i) \<and>
    (\<forall>c op i. bs_pc s c = Popping op (Po_claimed i) \<longrightarrow> storage_of (bs_chan s) i = Some (bs_in s ! i))"
proof -
  have "ring_ok capacity (bf_consumer_idx (bs_chan s)) (bf_producer_idx (bs_chan s)) (cycle_of (bs_chan s))
       (storage_of (bs_chan s)) (bs_pc s) (bs_in s) (bs_out s)"
    using bf_reach_ring [OF assms] by (simp add: bf_ring_def)
  note D = ring_okD [OF this]
  show ?thesis using D(2-4,11,15,16) by blast
qed

text \<open>Two producers and a consumer, the pushes overlapping.\<close>

definition bf_new :: "nat \<Rightarrow> 'a buffered_channel" where
  "bf_new capacity = projr (buffered_channel_new capacity)"

definition bf_after :: "nat \<Rightarrow> 'a bf_event list \<Rightarrow> 'a bf_system" where
  "bf_after capacity es = the (bf_run es (bf_start (bf_new capacity)))"

definition bf_does :: "nat \<Rightarrow> ctx \<Rightarrow> 'a bf_event list" where
  "bf_does k c = replicate k (Bf_step c)"

lemma bf_after_reach:
  assumes "bf_run es (bf_start (bf_new capacity)) \<noteq> None" "\<not> isl (buffered_channel_new capacity :: fiber_errc + 'a buffered_channel)"
  shows "bf_reach capacity (bf_after capacity es :: 'a bf_system)"
proof -
  have "bf_reach capacity (bf_start (bf_new capacity) :: 'a bf_system)"
    using assms(2) by (intro bf_reach.start) (auto simp: bf_new_def)
  with assms(1) show ?thesis by (auto simp: bf_after_def intro: bf_run_reach)
qed

definition bf_demo :: "nat bf_event list" where
  "bf_demo = Bf_call 1 (Bf_push 7) # bf_does 4 1 @ Bf_call 2 (Bf_push 8) # bf_does 8 2 @ bf_does 2 1 @
     Bf_call 3 Bf_pop # bf_does 5 3"

lemma buffered_channel_fifo_witness:
  "bs_in (bf_after 2 bf_demo) = [7, 8] \<and> bs_out (bf_after 2 bf_demo) = [(0, 7)] \<and>
    length (bs_in (bf_after 2 bf_demo)) = bf_producer_idx (bs_chan (bf_after 2 bf_demo))"
proof -
  have r: "bf_run bf_demo (bf_start (bf_new 2)) \<noteq> None" "\<not> isl (buffered_channel_new 2 :: fiber_errc + nat buffered_channel)"
    "bs_in (bf_after 2 bf_demo) = [7, 8]" "bs_out (bf_after 2 bf_demo) = [(0, 7)]"
    by code_simp+
  with buffered_channel_fifo [OF bf_after_reach [OF r(1,2)]] show ?thesis by simp
qed

definition bf_overwrite :: "nat bf_event list" where
  "bf_overwrite = Bf_call 1 (Bf_push 7) # bf_does 8 1 @ Bf_call 2 (Bf_push 8) # bf_does 8 2 @
     Bf_call 3 Bf_pop # bf_does 1 3"

text \<open>A buffered channel of capacity one, which the constructor accepts, is broken. A published
  value has the same cycle as a free slot: a second push overwrites the first value, both with
  success, and a consumer that looks then finds a cycle ahead of its index and starts again for
  ever.\<close>

theorem buffered_capacity_one:
  "\<not> isl (buffered_channel_new 1 :: fiber_errc + nat buffered_channel) \<and>
   bf_run bf_overwrite (bf_start (bf_new 1)) \<noteq> None \<and>
   bs_pc (bf_after 1 bf_overwrite) 1 = Returned (Status op_success) \<and>
   bs_pc (bf_after 1 bf_overwrite) 2 = Returned (Status op_success) \<and>
   bs_out (bf_after 1 bf_overwrite) = [] \<and> storage_of (bs_chan (bf_after 1 bf_overwrite)) 0 = Some 8 \<and>
   bs_pc (bf_after 1 bf_overwrite) 3 = Popping Bf_pop Po_start \<and>
   bs_pc (bf_after 1 (bf_overwrite @ bf_does 1 3)) 3 = Popping Bf_pop (Po_cycle 0) \<and>
   bs_pc (bf_after 1 (bf_overwrite @ bf_does 2 3)) 3 = Popping Bf_pop Po_start"
  by code_simp

definition bf_unnoticed :: "nat bf_event list" where
  "bf_unnoticed = Bf_call 1 Bf_pop # bf_does 7 1 @ Bf_call 2 (Bf_try_push 7) # bf_does 7 2"

text \<open>\<open>try_push\<close> wakes nobody. A consumer that sleeps on an empty buffered channel goes on
  sleeping when a value is pushed with \<open>try_push\<close>, although the channel is not empty any more and
  nobody is left to wake it.\<close>

theorem buffered_try_push_strands_consumer:
  "bf_run bf_unnoticed (bf_start (bf_new 2)) \<noteq> None \<and>
   bs_pc (bf_after 2 bf_unnoticed) 1 = Asleep Bf_pop \<and>
   bs_pc (bf_after 2 bf_unnoticed) 2 = Returned (Status op_success) \<and>
   \<not> bf_is_empty (bf_consumer_idx (bs_chan (bf_after 2 bf_unnoticed))) (bs_chan (bf_after 2 bf_unnoticed))"
  by code_simp

definition bf_missed :: "nat bf_event list" where
  "bf_missed = Bf_call 1 Bf_pop # bf_does 4 1 @ Bf_call 2 (Bf_push 7) # bf_does 8 2 @
     Bf_call 3 Bf_close # bf_does 1 3 @ bf_does 1 1"

text \<open>\<open>pop\<close> can miss a value for good. A consumer that has found the channel empty and then finds
  it closed returns \<open>closed\<close>, although a value was pushed, successfully, between the two: it looks at
  the ring only once.\<close>

theorem buffered_pop_misses_value:
  "bf_run bf_missed (bf_start (bf_new 2)) \<noteq> None \<and>
   bs_pc (bf_after 2 bf_missed) 2 = Returned (Status op_success) \<and>
   bs_pc (bf_after 2 bf_missed) 1 = Returned (Status op_closed) \<and>
   storage_of (bs_chan (bf_after 2 bf_missed)) 0 = Some 7 \<and> bf_consumer_idx (bs_chan (bf_after 2 bf_missed)) = 0"
  by code_simp

subsection \<open>The destructor\<close>

lemma pop_alone:
  assumes ok: "ring_ok n C P (cycle_of ch) (storage_of ch) pc ins outs" and n: "pow2 (int n)" "bf_capacity ch = n"
    and calm: "\<And>c. calm (pc c)" and lt: "C < P"
  shows "cycle_of ch C = C + 1" "storage_of ch C = Some (ins ! C)"
    and "ring_ok n (C + 1) P (cycle_of (set_cycle C (C + n) (set_storage C None ch)))
      (storage_of (set_cycle C (C + n) (set_storage C None ch))) pc ins (outs @ [(C, ins ! C)])"
proof -
  show c: "cycle_of ch C = C + 1" and "storage_of ch C = Some (ins ! C)"
    using ring_okD(9) [OF ok, of C] calm_looks [OF calm] lt by simp_all
  have 1: "ring_ok n C P (cycle_of ch) (storage_of ch) (pc(0 := Popping Bf_pop (Po_cas C))) ins outs"
    by (rule ring_ok_look [OF ok]) (use calm_looks [OF calm] c in simp)
  have 2: "ring_ok n (C + 1) P (cycle_of ch) (storage_of ch) (pc(0 := Popping Bf_pop (Po_claimed C))) ins outs"
    using ring_ok_claim_pop [OF 1 cycle_periodic [OF n], of 0 Bf_pop] by simp
  have 3: "ring_ok n (C + 1) P (cycle_of ch) (\<lambda>j. if same n C j then None else storage_of ch j)
      (pc(0 := Popping Bf_pop (Po_moved C (ins ! C)))) ins (outs @ [(C, ins ! C)])"
    using ring_ok_read [OF 2, of 0 Bf_pop C "ins ! C"] by simp
  have 4: "ring_ok n (C + 1) P (\<lambda>j. if same n C j then C + n else cycle_of ch j) (\<lambda>j. if same n C j then None else storage_of ch j)
      (pc(0 := Popping Bf_pop (Po_value (ins ! C)))) ins (outs @ [(C, ins ! C)])"
    using ring_ok_release [OF 3 cycle_periodic [OF n], of 0 Bf_pop C "ins ! C" "ins ! C"] by simp
  have n': "bf_capacity (set_storage C None ch) = n" using n(2) by simp
  show "ring_ok n (C + 1) P (cycle_of (set_cycle C (C + n) (set_storage C None ch)))
      (storage_of (set_cycle C (C + n) (set_storage C None ch))) pc ins (outs @ [(C, ins ! C)])"
    unfolding set_simps(1,2) [OF n(1) n'] set_simps(3,4) [OF n]
    by (rule ring_ok_look [OF 4]) (use calm_looks [OF calm] in simp)
qed

lemma destroys_all:
  assumes "ring_ok n (bf_consumer_idx ch) P (cycle_of ch) (storage_of ch) pc ins outs" "pow2 (int n)" "bf_capacity ch = n"
    and "\<And>c. calm (pc c)"
  shows "\<exists>ch'. destroy_values ch vs = Some (vs @ drop (bf_consumer_idx ch) ins, ch')"
  using assms
proof (induction "P - bf_consumer_idx ch" arbitrary: ch vs outs)
  case 0
  note D = ring_okD [OF 0(2)]
  have C: "bf_consumer_idx ch = P" using 0(1) D(2) by simp
  have "cycle_of ch P = P" using D(13) [of P] calm_looks [OF 0(5)] D(1) C by auto
  then show ?case using C D(4) by (subst destroy_values.simps) (simp add: Let_def)
next
  case (Suc k)
  let ?C = "bf_consumer_idx ch"
  let ?ch = "set_cycle ?C (?C + n) (set_storage ?C None (ch\<lparr>bf_consumer_idx := ?C + 1\<rparr>))"
  have lt: "?C < P" using Suc(2) by simp
  note alone = pop_alone [OF Suc(3-6) lt]
  have e: "cycle_of (ch\<lparr>bf_consumer_idx := i\<rparr>) = cycle_of ch" "storage_of (ch\<lparr>bf_consumer_idx := i\<rparr>) = storage_of ch"
    "bf_capacity (ch\<lparr>bf_consumer_idx := i\<rparr>) = n" for i
    using Suc(5) by (simp_all add: fun_eq_iff cycle_of_def storage_of_def slot_of_def)
  have "cycle_of ?ch = cycle_of (set_cycle ?C (?C + n) (set_storage ?C None ch))"
    "storage_of ?ch = storage_of (set_cycle ?C (?C + n) (set_storage ?C None ch))"
    by (simp_all add: set_simps [OF Suc(4)] Suc(5) e cong del: if_weak_cong)
  with alone(3) have ok': "ring_ok n (bf_consumer_idx ?ch) P (cycle_of ?ch) (storage_of ?ch) pc ins (outs @ [(?C, ins ! ?C)])"
    by simp
  have "\<exists>ch'. destroy_values ?ch (vs @ [ins ! ?C]) = Some ((vs @ [ins ! ?C]) @ drop (bf_consumer_idx ?ch) ins, ch')"
    by (rule Suc(1) [OF _ ok' Suc(4) _ Suc(6)]) (use Suc(2,5) in simp_all)
  then
  obtain ch' where "destroy_values ?ch (vs @ [ins ! ?C]) = Some (vs @ ins ! ?C # drop (?C + 1) ins, ch')"
    by auto
  moreover have "ins ! ?C # drop (?C + 1) ins = drop ?C ins"
    using lt ring_okD(4) [OF Suc(3)] by (simp add: Cons_nth_drop_Suc)
  moreover have "destroy_values ch vs = destroy_values ?ch (vs @ [ins ! ?C])"
    using alone(1,2) Suc(5) by (subst destroy_values.simps) (simp add: Let_def storage_of_def)
  ultimately show ?case by simp
qed

text \<open>C30: The destructor of a buffered channel ends, whatever has been pushed and popped before, if
  no fiber is using the channel any more and its capacity is at least two: it destroys the values
  that were pushed and not popped, each once and in their order, and nothing else.\<close>

theorem buffered_delete_ends:
  assumes "bf_reach capacity s" "2 \<le> capacity" "\<And>c. \<exists>r. bs_pc s c = Returned r"
  shows "\<exists>ch. buffered_channel_delete (bs_chan s) = Some (drop (bf_consumer_idx (bs_chan s)) (bs_in s), ch)"
proof -
  let ?ch = "(bs_chan s)\<lparr>bf_closed := True, bf_producers := [], bf_consumers := []\<rparr>"
  have R: "pow2 (int capacity)" "bf_ring capacity s" using bf_reach_ring [OF assms(1,2)] by simp_all
  have e: "cycle_of ?ch = cycle_of (bs_chan s)" "storage_of ?ch = storage_of (bs_chan s)"
    by (simp_all add: fun_eq_iff cycle_of_def storage_of_def slot_of_def)
  have calm: "calm (bs_pc s c)" for c using assms(3) [of c] by auto
  have "ring_ok capacity (bf_consumer_idx ?ch) (bf_producer_idx (bs_chan s)) (cycle_of ?ch) (storage_of ?ch)
      (bs_pc s) (bs_in s) (bs_out s)" "bf_capacity ?ch = capacity"
    using R(2) by (simp_all add: bf_ring_def e)
  from destroys_all [OF this(1) R(1) this(2) calm, of "[]"] show ?thesis
    by (simp add: buffered_channel_delete_def)
qed

lemma buffered_delete_ends_witness:
  "\<exists>ch. buffered_channel_delete (bs_chan (bf_after 2 (Bf_call 1 (Bf_push 7) # bf_does 8 1))) = Some ([7 :: nat], ch)"
proof -
  let ?es = "Bf_call 1 (Bf_push 7) # bf_does 8 1 :: nat bf_event list"
  have r: "bf_run ?es (bf_start (bf_new 2)) \<noteq> None" "\<not> isl (buffered_channel_new 2 :: fiber_errc + nat buffered_channel)"
    "bs_pc (bf_after 2 ?es) 1 = Returned (Status op_success)" "bs_in (bf_after 2 ?es) = [7]"
    "bf_consumer_idx (bs_chan (bf_after 2 ?es)) = 0"
    by code_simp+
  have "bf_does 8 1 = [Bf_step 1, Bf_step 1, Bf_step 1, Bf_step 1, Bf_step 1, Bf_step 1, Bf_step 1, Bf_step 1 :: nat bf_event]"
    by code_simp
  then have "bs_pc (bf_after 2 ?es) = (\<lambda>_. Returned Void)(1 := Returned (Status op_success))"
    by (simp add: bf_after_def bf_new_def buffered_channel_new_def bf_start_def
        bf_step_def buffered_push_def Let_def bf_go_def ring_push_def bf_is_closed_def cycle_of_def slot_of_def
        set_storage_def set_cycle_def notify_consumer_def locked_def)
  then have "\<exists>r. bs_pc (bf_after 2 ?es) c = Returned r" for c by (simp add: fun_upd_def)
  from buffered_delete_ends [OF bf_after_reach [OF r(1,2)] _ this] r(4,5) show ?thesis by simp
qed

subsection \<open>Closing\<close>

definition holds_splk :: "'a bf_pc \<Rightarrow> bool" where
  "holds_splk p = (case p of Check op \<Rightarrow> True | Check_at op i \<Rightarrow> True | _ \<Rightarrow> False)"

definition bf_queues :: "'a bf_system \<Rightarrow> bool" where
  "bf_queues s \<longleftrightarrow>
     (\<forall>c op. bs_pc s c = Asleep op \<longrightarrow> c \<in> set (bf_producers (bs_chan s)) \<union> set (bf_consumers (bs_chan s))) \<and>
     (bf_closed (bs_chan s) \<longrightarrow> bf_producers (bs_chan s) = [] \<and> bf_consumers (bs_chan s) = []) \<and>
     (\<forall>c. holds_splk (bs_pc s c) \<longrightarrow> bs_splk s = Some c) \<and>
     (bs_splk s \<noteq> None \<longrightarrow> \<not> bf_closed (bs_chan s))"

definition awake :: "'a bf_pc \<Rightarrow> bool" where
  "awake p \<longleftrightarrow> \<not> holds_splk p \<and> (\<forall>op. p \<noteq> Asleep op)"

lemma awake_simps [simp]: "awake (Loop op)" "awake (Pushing op p)" "awake (Popping op q)" "awake (Pop_failed op st)"
  "awake (Won op r)" "awake (Failed op)" "awake (Expired op)" "awake (Returned r)"
  by (simp_all add: awake_def holds_splk_def)

lemma holds_simps [simp]: "holds_splk (Check op)" "holds_splk (Check_at op i)" "\<not> holds_splk (Asleep op)"
  "\<not> holds_splk (Loop op)"
  by (simp_all add: holds_splk_def)

lemma queues_go: "bf_queues s \<Longrightarrow> awake p \<Longrightarrow> bf_queues (bf_go c p s)"
  unfolding bf_queues_def bf_go_def awake_def by auto

text \<open>Steps that change the places of fibers that stay awake, and the ring.\<close>

lemma queues_same:
  assumes "bf_queues s" "bf_producers (bs_chan t) = bf_producers (bs_chan s)"
    "bf_consumers (bs_chan t) = bf_consumers (bs_chan s)" "bf_closed (bs_chan t) = bf_closed (bs_chan s)"
    "bs_splk t = bs_splk s" "\<And>d. bs_pc t d = bs_pc s d \<or> awake (bs_pc t d)"
  shows "bf_queues t"
proof -
  have "bs_pc t d = p \<Longrightarrow> \<not> awake p \<Longrightarrow> bs_pc s d = p" for d p using assms(6) [of d] by auto
  with assms show ?thesis unfolding bf_queues_def awake_def by metis
qed

lemma try_step_queues:
  "bf_producers (snd (try_push_step weak v p ch)) = bf_producers ch"
  "bf_consumers (snd (try_push_step weak v p ch)) = bf_consumers ch"
  "bf_closed (snd (try_push_step weak v p ch)) = bf_closed ch"
  "bf_producers (snd (try_pop_step weak q ch)) = bf_producers ch"
  "bf_consumers (snd (try_pop_step weak q ch)) = bf_consumers ch"
  "bf_closed (snd (try_pop_step weak q ch)) = bf_closed ch"
  by (cases p; simp add: set_cycle_def set_storage_def Let_def)+
    (cases q; simp add: try_pop_step_def set_cycle_def set_storage_def Let_def split: option.split)+

lemma queues_ring:
  assumes "bf_queues s"
  shows "bf_queues (ring_push weak c op v p s)" "bf_queues (ring_pop weak c op q s)"
  using try_step_queues(1-3) [of weak v p "bs_chan s"] try_step_queues(4-6) [of weak q "bs_chan s"]
  by (auto intro!: queues_same [OF assms] simp: ring_push_def ring_pop_def split: prod.split)

lemma wake_spec: "fold bf_wake ds pc c =
  (case pc c of Asleep op \<Rightarrow> if c \<in> set ds then Loop op else Asleep op | p \<Rightarrow> p)"
proof (induction ds arbitrary: pc)
  case Nil
  then show ?case by (simp split: bf_pc.split)
next
  case (Cons d ds)
  have "bf_wake d pc c = (if c = d then (case pc c of Asleep op \<Rightarrow> Loop op | p \<Rightarrow> p) else pc c)"
    by (auto simp: bf_wake_def split: bf_pc.split)
  with Cons [of "bf_wake d pc"] show ?case by (auto split: bf_pc.split)
qed

lemma queues_notify:
  assumes q: "bf_queues s"
  shows "notify_consumer c r s = Some t \<Longrightarrow> bf_queues t" "notify_producer c r s = Some t \<Longrightarrow> bf_queues t"
    "buffered_close c s = Some t \<Longrightarrow> bf_queues t"
proof -
  have w: "bf_wake d pc c = (case pc c of Asleep op \<Rightarrow> if c = d then Loop op else Asleep op | p \<Rightarrow> p)" for d pc c
    using wake_spec [of "[d]" pc c] by (simp split: bf_pc.splits)
  show "bf_queues t" if "notify_consumer c r s = Some t"
    using that q unfolding notify_consumer_def locked_def
    by (auto simp: bf_queues_def w holds_splk_def bf_go_def split: if_splits list.splits bf_pc.splits; metis)
  show "bf_queues t" if "notify_producer c r s = Some t"
    using that q unfolding notify_producer_def locked_def
    by (auto simp: bf_queues_def w holds_splk_def bf_go_def split: if_splits list.splits bf_pc.splits; metis)
  show "bf_queues t" if "buffered_close c s = Some t"
    using that q unfolding buffered_close_def locked_def
    by (auto simp: bf_queues_def wake_spec holds_splk_def bf_go_def simp del: fold_append split: if_splits bf_pc.splits)
qed

text \<open>Locking, looking again, and linking into a queue.\<close>

lemma queues_check:
  assumes q: "bf_queues s" and c: "bs_pc s c = Failed op"
  shows "bs_splk s = None \<Longrightarrow> \<not> bf_closed (bs_chan s) \<Longrightarrow> bf_queues (bf_go c (Check op') (s\<lparr>bs_splk := Some c\<rparr>))"
  using assms unfolding bf_queues_def bf_go_def by auto

lemma queues_checking:
  assumes q: "bf_queues s" and c: "holds_splk (bs_pc s c)"
  shows "bf_queues (bf_go c (Check_at op i) s)" "bf_queues (bf_go c (Loop op) (s\<lparr>bs_splk := None\<rparr>))"
    "bf_queues (bf_go c (Asleep op) (s\<lparr>bs_splk := None, bs_chan := (bs_chan s)\<lparr>bf_producers := bf_producers (bs_chan s) @ [c]\<rparr>\<rparr>))"
    "bf_queues (bf_go c (Asleep op) (s\<lparr>bs_splk := None, bs_chan := (bs_chan s)\<lparr>bf_consumers := bf_consumers (bs_chan s) @ [c]\<rparr>\<rparr>))"
proof -
  have l: "bs_splk s = Some d" if "holds_splk (bs_pc s d)" for d using q that unfolding bf_queues_def by blast
  have o: "bs_splk s = Some c" "\<not> bf_closed (bs_chan s)" using l [OF c] q unfolding bf_queues_def by auto
  have u: "d = c" if "holds_splk (bs_pc s d)" for d using l [OF that] o(1) by simp
  show "bf_queues (bf_go c (Check_at op i) s)" using q o u unfolding bf_queues_def bf_go_def by auto
  show "bf_queues (bf_go c (Loop op) (s\<lparr>bs_splk := None\<rparr>))"
    using q o u unfolding bf_queues_def bf_go_def by auto
  show "bf_queues (bf_go c (Asleep op) (s\<lparr>bs_splk := None, bs_chan := (bs_chan s)\<lparr>bf_producers := bf_producers (bs_chan s) @ [c]\<rparr>\<rparr>))"
    using q o u unfolding bf_queues_def bf_go_def by auto
  show "bf_queues (bf_go c (Asleep op) (s\<lparr>bs_splk := None, bs_chan := (bs_chan s)\<lparr>bf_consumers := bf_consumers (bs_chan s) @ [c]\<rparr>\<rparr>))"
    using q o u unfolding bf_queues_def bf_go_def by auto
qed

lemma queues_unlink:
  assumes "bf_queues s"
  shows "bf_queues (bf_go c (Returned r) (s\<lparr>bs_chan := (bs_chan s)\<lparr>bf_producers := remove1 c (bf_producers (bs_chan s))\<rparr>\<rparr>))"
    "bf_queues (bf_go c (Returned r) (s\<lparr>bs_chan := (bs_chan s)\<lparr>bf_consumers := remove1 c (bf_consumers (bs_chan s))\<rparr>\<rparr>))"
  using assms unfolding bf_queues_def bf_go_def by (auto simp: holds_splk_def)

lemma queues_push:
  assumes q: "bf_queues s" and st: "buffered_push weak c op v s = Some t"
  shows "bf_queues t"
proof (cases "bs_pc s c")
  case (Pushing op' p)
  then show ?thesis using st queues_ring(1) [OF q] by (cases p) (auto simp: buffered_push_def Let_def intro: queues_go [OF q])
next
  case (Won op' r)
  with st queues_notify(1) [OF q] show ?thesis by (simp add: buffered_push_def)
next
  case (Failed op')
  with st queues_check [OF q Failed] show ?thesis
    by (auto simp: buffered_push_def Let_def locked_def bf_is_closed_def intro: queues_go [OF q] split: if_splits)
next
  case (Check op')
  with st queues_checking(1) [OF q, of c] show ?thesis by (auto simp: buffered_push_def Let_def)
next
  case (Check_at op' i)
  with st queues_checking(2,3) [OF q, of c] show ?thesis by (auto simp: buffered_push_def Let_def split: if_splits)
qed (use st in \<open>auto simp: buffered_push_def Let_def intro: queues_go [OF q]\<close>)

lemma queues_pop:
  assumes q: "bf_queues s" and st: "pop_loop r weak c op s = Some t"
  shows "bf_queues t"
proof (cases "bs_pc s c")
  case (Popping op' p)
  then show ?thesis using st queues_ring(2) [OF q] by (cases p) (auto simp: pop_loop_def Let_def intro: queues_go [OF q])
next
  case (Won op' r)
  with st queues_notify(2) [OF q] show ?thesis by (simp add: pop_loop_def)
next
  case (Failed op')
  with st queues_check [OF q Failed] show ?thesis
    by (auto simp: pop_loop_def Let_def locked_def bf_is_closed_def intro: queues_go [OF q] split: if_splits)
next
  case (Check op')
  with st queues_checking(1) [OF q, of c] show ?thesis by (auto simp: pop_loop_def Let_def)
next
  case (Check_at op' i)
  with st queues_checking(2,4) [OF q, of c] show ?thesis by (auto simp: pop_loop_def Let_def split: if_splits)
qed (use st in \<open>auto simp: pop_loop_def Let_def intro: queues_go [OF q]\<close>)

lemma queues_try:
  assumes q: "bf_queues s"
  shows "buffered_try_push weak c op v s = Some t \<Longrightarrow> bf_queues t" "buffered_try_pop weak c op s = Some t \<Longrightarrow> bf_queues t"
proof -
  show "bf_queues t" if "buffered_try_push weak c op v s = Some t"
  proof (cases "bs_pc s c")
    case (Pushing op' p)
    then show ?thesis using that queues_ring(1) [OF q] by (cases p) (auto simp: buffered_try_push_def intro: queues_go [OF q])
  qed (use that in \<open>auto simp: buffered_try_push_def intro: queues_go [OF q]\<close>)
  show "bf_queues t" if "buffered_try_pop weak c op s = Some t"
  proof (cases "bs_pc s c")
    case (Popping op' p)
    then show ?thesis using that queues_ring(2) [OF q] by (cases p) (auto simp: buffered_try_pop_def intro: queues_go [OF q])
  qed (use that in \<open>auto simp: buffered_try_pop_def intro: queues_go [OF q]\<close>)
qed

lemma queues_until:
  assumes q: "bf_queues s"
  shows "buffered_push_until weak c op v s = Some t \<Longrightarrow> bf_queues t" "buffered_pop_until weak c op s = Some t \<Longrightarrow> bf_queues t"
  using queues_push [OF q, of weak c op v t] queues_pop [OF q, of "Status op_closed" weak c op t] queues_unlink [OF q, of c]
  by (auto simp: buffered_push_until_def buffered_pop_until_def buffered_pop_def locked_def split: bf_pc.splits if_splits)

lemma bf_reach_queues: "bf_reach n s \<Longrightarrow> bf_queues s"
proof (induction rule: bf_reach.induct)
  case (start ch)
  then show ?case by (auto simp: bf_queues_def bf_start_def holds_splk_def buffered_channel_new_def split: if_splits)
next
  case (step s e t)
  note q = step.IH
  have st: "bf_queues t" if "bf_step weak c s = Some t" for weak c
    using that queues_push [OF q] queues_pop [OF q] queues_try [OF q] queues_until [OF q] queues_notify(3) [OF q]
    by (auto simp: bf_step_def buffered_pop_def buffered_value_pop_def split: option.splits bf_op.splits bf_pc.splits)
  show ?case
  proof (cases e)
    case (Bf_call c op)
    with step.hyps(2) queues_go [OF q] show ?thesis by (auto split: bf_pc.splits)
  next
    case (Bf_expire c)
    with step.hyps(2) queues_go [OF q] show ?thesis by (auto split: bf_pc.splits bf_op.splits)
  qed (use step.hyps(2) st in auto)
qed

text \<open>C31: Nobody sleeps on a closed buffered channel: \<open>close\<close> wakes all producers and consumers, and
  none goes to sleep afterwards, because the flag is looked at under the spinlock.\<close>

theorem buffered_close_releases:
  assumes "bf_reach capacity s" "bf_closed (bs_chan s)"
  shows "bs_pc s c \<noteq> Asleep op \<and> bf_producers (bs_chan s) = [] \<and> bf_consumers (bs_chan s) = []"
proof -
  note q = bf_reach_queues [OF assms(1), unfolded bf_queues_def]
  from q assms(2) have e: "bf_producers (bs_chan s) = []" "bf_consumers (bs_chan s) = []" by simp_all
  with q show ?thesis by auto
qed

lemma buffered_close_releases_witness:
  "bs_pc (bf_after 2 (Bf_call 1 Bf_pop # bf_does 7 1)) 1 = Asleep (Bf_pop :: nat bf_op) \<and>
   bs_pc (bf_after 2 (Bf_call 1 Bf_pop # bf_does 7 1 @ Bf_call 2 Bf_close # bf_does 1 2)) 1 \<noteq> Asleep (Bf_pop :: nat bf_op)"
proof -
  have r: "bf_run (Bf_call 1 Bf_pop # bf_does 7 1 @ Bf_call 2 Bf_close # bf_does 1 2) (bf_start (bf_new 2) :: nat bf_system) \<noteq> None"
    "\<not> isl (buffered_channel_new 2 :: fiber_errc + nat buffered_channel)"
    "bf_closed (bs_chan (bf_after 2 (Bf_call 1 Bf_pop # bf_does 7 1 @ Bf_call 2 Bf_close # bf_does 1 2) :: nat bf_system))"
    "bs_pc (bf_after 2 (Bf_call 1 Bf_pop # bf_does 7 1)) 1 = Asleep (Bf_pop :: nat bf_op)"
    by code_simp+
  with buffered_close_releases [OF bf_after_reach [OF r(1,2)] r(3)] show ?thesis by blast
qed

end
