(* ===== verification/Unbuffered_Channel.thy ===== *)
theory Unbuffered_Channel
  imports Buffered_Channel
begin

text \<open>
  \<open>unbuffered_channel\<close> (\<open>fiber/unbuffered_channel.hpp\<close>): a producer posts the address of a slot in its
  stack frame and sleeps until a consumer has taken the value. Modelled for the fibers of one
  scheduler, as \<open>context::set_ready\<close> asserts: a fiber runs from one suspension to the next without
  another one in between, so that a step is such a stretch. The slot of a fiber is named by the
  fiber; its frame holds the value while the call lasts. The deadline of a timed call passes at any
  time, also after the fiber has been woken and before it runs.
\<close>

record unbuffered_channel =
  ub_slot :: "ctx option"
  ub_closed :: bool
  ub_producers :: "ctx list"
  ub_consumers :: "ctx list"

definition unbuffered_channel_new :: unbuffered_channel where
  "unbuffered_channel_new = \<lparr>ub_slot = None, ub_closed = False, ub_producers = [], ub_consumers = []\<rparr>"

definition ub_is_empty :: "unbuffered_channel \<Rightarrow> bool" where
  "ub_is_empty ch \<longleftrightarrow> None = ub_slot ch"

definition ub_try_push :: "ctx \<Rightarrow> unbuffered_channel \<Rightarrow> bool \<times> unbuffered_channel" where
  "ub_try_push own_slot ch =
     (case ub_slot ch of None \<Rightarrow> (True, ch\<lparr>ub_slot := Some own_slot\<rparr>) | Some s \<Rightarrow> (False, ch))"

definition ub_try_pop :: "unbuffered_channel \<Rightarrow> ctx option \<times> unbuffered_channel" where
  "ub_try_pop ch =
     (case ub_slot ch of None \<Rightarrow> (None, ch) | Some s \<Rightarrow> (Some s, ch\<lparr>ub_slot := None\<rparr>))"

definition ub_is_closed :: "unbuffered_channel \<Rightarrow> bool" where
  "ub_is_closed ch = ub_closed ch"

datatype 'a ub_op =
    Ub_push 'a | Ub_push_until 'a | Ub_pop | Ub_value_pop | Ub_pop_until | Ub_close

text \<open>Suspended in a queue, suspended with a posted value; ready to go on after either (the flag:
  the deadline has passed); or back.\<close>

datatype 'a ub_pc =
    U_asleep "'a ub_op" | U_posted "'a ub_op"
  | U_again "'a ub_op" bool | U_resumed "'a ub_op" bool
  | U_back "'a channel_result"

record 'a ub_system =
  us_chan :: unbuffered_channel
  us_frame :: "ctx \<Rightarrow> 'a option"
  us_pc :: "ctx \<Rightarrow> 'a ub_pc"
  us_in :: "'a list"
  us_key :: "ctx \<Rightarrow> nat"
  us_out :: "(nat \<times> 'a) list"
  us_acked :: "nat list"

text \<open>For the properties: the values in the order in which they were posted, the number of each
  fiber's last one, the values that were taken with their numbers, and the numbers of the pushes
  that returned \<open>success\<close>.\<close>

definition ub_return :: "ctx \<Rightarrow> 'a channel_result \<Rightarrow> 'a ub_system \<Rightarrow> 'a ub_system" where
  "ub_return c r s = s\<lparr>us_pc := (us_pc s)(c := U_back r), us_frame := (us_frame s)(c := None)\<rparr>"

definition ub_ack :: "ctx \<Rightarrow> 'a ub_system \<Rightarrow> 'a ub_system" where
  "ub_ack c s = ub_return c (Status op_success) (s\<lparr>us_acked := us_acked s @ [us_key s c]\<rparr>)"

definition ub_set_ready :: "ctx \<Rightarrow> (ctx \<Rightarrow> 'a ub_pc) \<Rightarrow> ctx \<Rightarrow> 'a ub_pc" where
  "ub_set_ready c pc =
     (case pc c of
        U_asleep op \<Rightarrow> pc(c := U_again op False)
      | U_posted op \<Rightarrow> pc(c := U_resumed op False)
      | _ \<Rightarrow> pc)"

definition ub_notify_consumer :: "'a ub_system \<Rightarrow> 'a ub_system" where
  "ub_notify_consumer s =
     (case ub_consumers (us_chan s) of
        [] \<Rightarrow> s
      | d # ds \<Rightarrow> s\<lparr>us_chan := (us_chan s)\<lparr>ub_consumers := ds\<rparr>, us_pc := ub_set_ready d (us_pc s)\<rparr>)"

definition ub_notify_producer :: "'a ub_system \<Rightarrow> 'a ub_system" where
  "ub_notify_producer s =
     (case ub_producers (us_chan s) of
        [] \<Rightarrow> s
      | d # ds \<Rightarrow> s\<lparr>us_chan := (us_chan s)\<lparr>ub_producers := ds\<rparr>, us_pc := ub_set_ready d (us_pc s)\<rparr>)"

definition ub_wake_all :: "'a ub_system \<Rightarrow> 'a ub_system" where
  "ub_wake_all s = s\<lparr>us_chan := (us_chan s)\<lparr>ub_closed := True, ub_producers := [], ub_consumers := []\<rparr>,
     us_pc := fold ub_set_ready (ub_producers (us_chan s) @ ub_consumers (us_chan s)) (us_pc s)\<rparr>"

definition unbuffered_close :: "ctx \<Rightarrow> 'a ub_system \<Rightarrow> 'a ub_system" where
  "unbuffered_close c s = ub_return c Void (ub_wake_all s)"

text \<open>The destructor: a producer whose value nobody has taken is resumed.\<close>

definition unbuffered_channel_delete :: "'a ub_system \<Rightarrow> 'a ub_system" where
  "unbuffered_channel_delete s =
     (let s = ub_wake_all s in
      case ub_try_pop (us_chan s) of
        (None, ch) \<Rightarrow> s
      | (Some a, ch) \<Rightarrow> s\<lparr>us_chan := ch, us_pc := ub_set_ready a (us_pc s)\<rparr>)"

text \<open>From the head of the loop of a push to its next suspension.\<close>

definition push_stretch :: "ctx \<Rightarrow> 'a ub_op \<Rightarrow> 'a \<Rightarrow> 'a ub_system \<Rightarrow> 'a ub_system" where
  "push_stretch c op value s =
     (if ub_is_closed (us_chan s) then ub_return c (Status op_closed) s
      else case ub_try_push c (us_chan s) of
          (True, ch) \<Rightarrow>
            let s = ub_notify_consumer (s\<lparr>us_chan := ch, us_in := us_in s @ [value],
                  us_key := (us_key s)(c := length (us_in s))\<rparr>)
            in s\<lparr>us_pc := (us_pc s)(c := U_posted op)\<rparr>
        | (False, ch) \<Rightarrow>
            if ub_is_closed ch then ub_return c (Status op_closed) s
            else if ub_is_empty ch then s\<lparr>us_pc := (us_pc s)(c := U_again op False)\<rparr>
            else s\<lparr>us_chan := ch\<lparr>ub_producers := ub_producers ch @ [c]\<rparr>, us_pc := (us_pc s)(c := U_asleep op)\<rparr>)"

definition unbuffered_push :: "ctx \<Rightarrow> 'a ub_op \<Rightarrow> 'a \<Rightarrow> 'a ub_system \<Rightarrow> 'a ub_system option" where
  "unbuffered_push c op value s =
     (case us_pc s c of
        U_back r \<Rightarrow> Some (push_stretch c op value (s\<lparr>us_frame := (us_frame s)(c \<mapsto> value)\<rparr>))
      | U_resumed _ late \<Rightarrow> Some (ub_ack c s)
      | U_again _ late \<Rightarrow> Some (push_stretch c op value s)
      | _ \<Rightarrow> None)"

definition ub_unlink_producer :: "ctx \<Rightarrow> 'a ub_system \<Rightarrow> 'a ub_system" where
  "ub_unlink_producer c s = s\<lparr>us_chan := (us_chan s)\<lparr>ub_producers := remove1 c (ub_producers (us_chan s))\<rparr>\<rparr>"

definition unbuffered_push_until :: "ctx \<Rightarrow> 'a ub_op \<Rightarrow> 'a \<Rightarrow> 'a ub_system \<Rightarrow> 'a ub_system option" where
  "unbuffered_push_until c op value s =
     (case us_pc s c of
        U_back r \<Rightarrow> Some (push_stretch c op value (s\<lparr>us_frame := (us_frame s)(c \<mapsto> value)\<rparr>))
      | U_resumed _ late \<Rightarrow>
          Some (if late
            then ub_return c (Status op_timeout) (ub_unlink_producer c
              (if ub_slot (us_chan s) = Some c then s\<lparr>us_chan := (us_chan s)\<lparr>ub_slot := None\<rparr>\<rparr> else s))
            else ub_ack c s)
      | U_again _ late \<Rightarrow>
          Some (if late then ub_return c (Status op_timeout) (ub_unlink_producer c s) else push_stretch c op value s)
      | _ \<Rightarrow> None)"

text \<open>The overloads for rvalues put the moved value into the frame.\<close>

definition unbuffered_push_move :: "ctx \<Rightarrow> 'a ub_op \<Rightarrow> 'a \<Rightarrow> 'a ub_system \<Rightarrow> 'a ub_system option" where
  "unbuffered_push_move = unbuffered_push"

definition unbuffered_push_until_move :: "ctx \<Rightarrow> 'a ub_op \<Rightarrow> 'a \<Rightarrow> 'a ub_system \<Rightarrow> 'a ub_system option" where
  "unbuffered_push_until_move = unbuffered_push_until"

text \<open>A pop; a value read from a frame that is gone is \<open>Broken\<close>.\<close>

definition pop_stretch :: "'a channel_result \<Rightarrow> ctx \<Rightarrow> 'a ub_op \<Rightarrow> 'a ub_system \<Rightarrow> 'a ub_system" where
  "pop_stretch if_closed c op s =
     (case ub_try_pop (us_chan s) of
        (Some a, ch) \<Rightarrow>
          let s = ub_notify_producer (s\<lparr>us_chan := ch\<rparr>) in
          (case us_frame s a of
             None \<Rightarrow> ub_return c Broken s
           | Some value \<Rightarrow>
               ub_return c (Popped value)
                 (s\<lparr>us_out := us_out s @ [(us_key s a, value)], us_pc := ub_set_ready a (us_pc s)\<rparr>))
      | (None, ch) \<Rightarrow>
          if ub_is_closed ch then ub_return c if_closed s
          else if \<not> ub_is_empty ch then s\<lparr>us_pc := (us_pc s)(c := U_again op False)\<rparr>
          else s\<lparr>us_chan := ch\<lparr>ub_consumers := ub_consumers ch @ [c]\<rparr>, us_pc := (us_pc s)(c := U_asleep op)\<rparr>)"

definition unbuffered_pop :: "ctx \<Rightarrow> 'a ub_op \<Rightarrow> 'a ub_system \<Rightarrow> 'a ub_system option" where
  "unbuffered_pop c op s =
     (case us_pc s c of
        U_back r \<Rightarrow> Some (pop_stretch (Status op_closed) c op s)
      | U_again _ late \<Rightarrow> Some (pop_stretch (Status op_closed) c op s)
      | _ \<Rightarrow> None)"

definition unbuffered_value_pop :: "ctx \<Rightarrow> 'a ub_op \<Rightarrow> 'a ub_system \<Rightarrow> 'a ub_system option" where
  "unbuffered_value_pop c op s =
     (case us_pc s c of
        U_back r \<Rightarrow> Some (pop_stretch (Threw operation_not_permitted) c op s)
      | U_again _ late \<Rightarrow> Some (pop_stretch (Threw operation_not_permitted) c op s)
      | _ \<Rightarrow> None)"

definition unbuffered_pop_until :: "ctx \<Rightarrow> 'a ub_op \<Rightarrow> 'a ub_system \<Rightarrow> 'a ub_system option" where
  "unbuffered_pop_until c op s =
     (case us_pc s c of
        U_back r \<Rightarrow> Some (pop_stretch (Status op_closed) c op s)
      | U_again _ late \<Rightarrow>
          Some (if late
            then ub_return c (Status op_timeout)
              (s\<lparr>us_chan := (us_chan s)\<lparr>ub_consumers := remove1 c (ub_consumers (us_chan s))\<rparr>\<rparr>)
            else pop_stretch (Status op_closed) c op s)
      | _ \<Rightarrow> None)"

definition ub_run_op :: "ctx \<Rightarrow> 'a ub_op \<Rightarrow> 'a ub_system \<Rightarrow> 'a ub_system option" where
  "ub_run_op c op s =
     (case op of
        Ub_push value \<Rightarrow> unbuffered_push c op value s
      | Ub_push_until value \<Rightarrow> unbuffered_push_until c op value s
      | Ub_pop \<Rightarrow> unbuffered_pop c op s
      | Ub_value_pop \<Rightarrow> unbuffered_value_pop c op s
      | Ub_pop_until \<Rightarrow> unbuffered_pop_until c op s
      | Ub_close \<Rightarrow> (case us_pc s c of U_back r \<Rightarrow> Some (unbuffered_close c s) | _ \<Rightarrow> None))"

datatype 'a ub_event = Ub_call ctx "'a ub_op" | Ub_resume ctx | Ub_expire ctx

fun ub_timed :: "'a ub_op \<Rightarrow> bool" where
  "ub_timed (Ub_push_until value) = True"
| "ub_timed Ub_pop_until = True"
| "ub_timed _ = False"

fun ub_next :: "'a ub_event \<Rightarrow> 'a ub_system \<Rightarrow> 'a ub_system option" where
  "ub_next (Ub_call c op) s = (case us_pc s c of U_back r \<Rightarrow> ub_run_op c op s | _ \<Rightarrow> None)"
| "ub_next (Ub_resume c) s =
     (case us_pc s c of
        U_again op late \<Rightarrow> ub_run_op c op s
      | U_resumed op late \<Rightarrow> ub_run_op c op s
      | _ \<Rightarrow> None)"
| "ub_next (Ub_expire c) s =
     (case us_pc s c of
        U_asleep op \<Rightarrow> if ub_timed op then Some (s\<lparr>us_pc := (us_pc s)(c := U_again op True)\<rparr>) else None
      | U_posted op \<Rightarrow> if ub_timed op then Some (s\<lparr>us_pc := (us_pc s)(c := U_resumed op True)\<rparr>) else None
      | U_again op late \<Rightarrow> if ub_timed op then Some (s\<lparr>us_pc := (us_pc s)(c := U_again op True)\<rparr>) else None
      | U_resumed op late \<Rightarrow> if ub_timed op then Some (s\<lparr>us_pc := (us_pc s)(c := U_resumed op True)\<rparr>) else None
      | U_back r \<Rightarrow> None)"

definition ub_start :: "'a ub_system" where
  "ub_start = \<lparr>us_chan = unbuffered_channel_new, us_frame = (\<lambda>_. None), us_pc = (\<lambda>_. U_back Void), us_in = [],
     us_key = (\<lambda>_. 0), us_out = [], us_acked = []\<rparr>"

inductive ub_reach :: "'a ub_system \<Rightarrow> bool" where
  start: "ub_reach ub_start"
| step: "ub_reach s \<Longrightarrow> ub_next e s = Some t \<Longrightarrow> ub_reach t"

fun ub_run :: "'a ub_event list \<Rightarrow> 'a ub_system \<Rightarrow> 'a ub_system option" where
  "ub_run [] s = Some s"
| "ub_run (e # es) s = Option.bind (ub_next e s) (ub_run es)"

lemma ub_run_reach: "ub_reach s \<Longrightarrow> ub_run es s = Some t \<Longrightarrow> ub_reach t"
  by (induction es arbitrary: s) (auto intro: ub_reach.step split: Option.bind_splits)

end
