(* ===== verification/Unbuffered_Rendezvous.thy ===== *)
theory Unbuffered_Rendezvous
  imports Unbuffered_Channel
begin

text \<open>
  The unbuffered channel is a rendezvous: a value is taken at most once, from a frame that still
  exists, and a push that reports success has been taken. What a timed push reports is another
  matter.
\<close>

subsection \<open>The invariant\<close>

fun ub_value :: "'a ub_op \<Rightarrow> 'a option" where
  "ub_value (Ub_push v) = Some v"
| "ub_value (Ub_push_until v) = Some v"
| "ub_value _ = None"

fun ub_op_of :: "'a ub_pc \<Rightarrow> 'a ub_op option" where
  "ub_op_of (U_asleep op) = Some op"
| "ub_op_of (U_posted op) = Some op"
| "ub_op_of (U_again op late) = Some op"
| "ub_op_of (U_resumed op late) = Some op"
| "ub_op_of (U_back r) = None"

definition taken :: "'a ub_system \<Rightarrow> nat set" where
  "taken s = fst ` set (us_out s)"

text \<open>A fiber in a queue: still asleep, or its deadline has passed and it has not run yet.\<close>

definition queued :: "'a ub_pc \<Rightarrow> bool \<Rightarrow> bool" where
  "queued p pushes \<longleftrightarrow> (\<exists>op. (p = U_asleep op \<or> p = U_again op True) \<and> (ub_value op \<noteq> None) = pushes)"

definition ub_inv :: "'a ub_system \<Rightarrow> bool" where
  "ub_inv s \<longleftrightarrow>
     (\<forall>a. ub_slot (us_chan s) = Some a \<longrightarrow>
        (\<exists>op. us_pc s a = U_posted op \<or> us_pc s a = U_resumed op True) \<and>
        Suc (us_key s a) = length (us_in s) \<and> us_frame s a = Some (us_in s ! us_key s a) \<and> us_key s a \<notin> taken s) \<and>
     (\<forall>a op. us_pc s a = U_posted op \<longrightarrow> ub_slot (us_chan s) = Some a) \<and>
     (\<forall>a op. us_pc s a = U_resumed op True \<longrightarrow> ub_timed op) \<and>
     (\<forall>a op. us_pc s a = U_resumed op False \<longrightarrow> us_key s a \<in> taken s) \<and>
     (\<forall>c op v. ub_op_of (us_pc s c) = Some op \<longrightarrow> ub_value op = Some v \<longrightarrow> us_frame s c = Some v) \<and>
     sorted_wrt (<) (map fst (us_out s)) \<and> (\<forall>(k, v) \<in> set (us_out s). k < length (us_in s) \<and> v = us_in s ! k) \<and>
     set (us_acked s) \<subseteq> taken s \<and>
     distinct (ub_producers (us_chan s)) \<and> distinct (ub_consumers (us_chan s)) \<and>
     (\<forall>d \<in> set (ub_producers (us_chan s)). queued (us_pc s d) True) \<and>
     (\<forall>d \<in> set (ub_consumers (us_chan s)). queued (us_pc s d) False) \<and>
     (\<forall>a op. us_pc s a = U_again op True \<longrightarrow> ub_timed op)"

lemma ub_invD:
  assumes "ub_inv s"
  shows "ub_slot (us_chan s) = Some a \<Longrightarrow> (\<exists>op. us_pc s a = U_posted op \<or> us_pc s a = U_resumed op True) \<and>
        Suc (us_key s a) = length (us_in s) \<and> us_frame s a = Some (us_in s ! us_key s a) \<and> us_key s a \<notin> taken s"
    and "us_pc s a = U_posted op \<Longrightarrow> ub_slot (us_chan s) = Some a"
    and "us_pc s a = U_resumed op late \<Longrightarrow> if late then ub_timed op else us_key s a \<in> taken s"
    and "ub_op_of (us_pc s c) = Some op \<Longrightarrow> ub_value op = Some v \<Longrightarrow> us_frame s c = Some v"
    and "sorted_wrt (<) (map fst (us_out s))" and "(k, v) \<in> set (us_out s) \<Longrightarrow> k < length (us_in s) \<and> v = us_in s ! k"
    and "set (us_acked s) \<subseteq> taken s"
    and "distinct (ub_producers (us_chan s))" "distinct (ub_consumers (us_chan s))"
    and "d \<in> set (ub_producers (us_chan s)) \<Longrightarrow> queued (us_pc s d) True"
    and "d \<in> set (ub_consumers (us_chan s)) \<Longrightarrow> queued (us_pc s d) False"
    and "us_pc s a = U_again op True \<Longrightarrow> ub_timed op"
  using assms unfolding ub_inv_def by (simp_all, (cases late; simp), blast+)

lemma queued_simps [simp]: "\<not> queued (U_posted op) b" "\<not> queued (U_resumed op l) b" "\<not> queued (U_back r) b"
  "\<not> queued (U_again op False) b" "queued (U_asleep op) b \<longleftrightarrow> (ub_value op \<noteq> None) = b"
  "queued (U_again op True) b \<longleftrightarrow> (ub_value op \<noteq> None) = b"
  by (simp_all add: queued_def)

text \<open>Waking a fiber that has been taken from its queue.\<close>

lemma wakes_queued:
  assumes "queued (pc d) b"
  shows "ub_set_ready d pc = (case pc d of U_asleep op \<Rightarrow> pc(d := U_again op False) | _ \<Rightarrow> pc)"
  using assms by (auto simp: ub_set_ready_def queued_def split: ub_pc.split)

lemma ub_inv_wake:
  assumes I: "ub_inv s" and q: "queued (us_pc s d) b"
    and ch: "ub_slot ch = ub_slot (us_chan s)" "distinct (ub_producers ch)" "distinct (ub_consumers ch)"
      "set (ub_producers ch) \<subseteq> set (ub_producers (us_chan s)) - {d}"
      "set (ub_consumers ch) \<subseteq> set (ub_consumers (us_chan s)) - {d}"
  shows "ub_inv (s\<lparr>us_chan := ch, us_pc := ub_set_ready d (us_pc s)\<rparr>)"
proof -
  note D = ub_invD [OF I]
  have pc: "ub_set_ready d (us_pc s) e = us_pc s e \<or>
    (\<exists>op. e = d \<and> us_pc s d = U_asleep op \<and> ub_set_ready d (us_pc s) e = U_again op False)" for e
    using wakes_queued [of "us_pc s" d b, OF q] by (cases "us_pc s d") auto
  have same: "ub_set_ready d (us_pc s) e = us_pc s e" if "e \<noteq> d" for e using pc [of e] that by blast
  have nd: "us_pc s d \<noteq> U_posted op" "us_pc s d \<noteq> U_resumed op l" for op l using q by auto
  show ?thesis unfolding ub_inv_def taken_def
  proof (intro conjI allI impI; simp add: ch(1))
    fix a assume a: "ub_slot (us_chan s) = Some a"
    with D(1) [OF a] nd have "a \<noteq> d" by auto
    with same [of a] D(1) [OF a] show "\<exists>op. ub_set_ready d (us_pc s) a = U_posted op \<or> ub_set_ready d (us_pc s) a = U_resumed op True"
      by simp
    show "Suc (us_key s a) = length (us_in s)" "us_frame s a = Some (us_in s ! us_key s a)" "us_key s a \<notin> fst ` set (us_out s)"
      using D(1) [OF a] by (simp_all add: taken_def)
  next
    fix a op assume "ub_set_ready d (us_pc s) a = U_posted op"
    then have "us_pc s a = U_posted op" using pc [of a] by (elim disjE) auto
    then show "ub_slot (us_chan s) = Some a" by (rule D(2))
  next
    fix a op assume "ub_set_ready d (us_pc s) a = U_resumed op True"
    then have "us_pc s a = U_resumed op True" using pc [of a] by (elim disjE) auto
    from D(3) [OF this] show "ub_timed op" by simp
  next
    fix a op assume "ub_set_ready d (us_pc s) a = U_resumed op False"
    then have "us_pc s a = U_resumed op False" using pc [of a] by (elim disjE) auto
    from D(3) [OF this] show "us_key s a \<in> fst ` set (us_out s)" by (simp add: taken_def)
  next
    fix c op v assume "ub_op_of (ub_set_ready d (us_pc s) c) = Some op" "ub_value op = Some v"
    then have "ub_op_of (us_pc s c) = Some op" using pc [of c] by (elim disjE) auto
    with D(4) \<open>ub_value op = Some v\<close> show "us_frame s c = Some v" by blast
  next
    show "sorted_wrt (<) (map fst (us_out s))" by (rule D(5))
    show "\<forall>(k, v) \<in> set (us_out s). k < length (us_in s) \<and> v = us_in s ! k" using D(6) by blast
    show "set (us_acked s) \<subseteq> fst ` set (us_out s)" using D(7) by (simp add: taken_def)
    show "distinct (ub_producers ch)" "distinct (ub_consumers ch)" by (rule ch)+
    have "queued (ub_set_ready d (us_pc s) e) True" if "e \<in> set (ub_producers ch)" for e
      using D(10) [of e] same [of e] subsetD [OF ch(4) that] by simp
    then show "\<forall>e \<in> set (ub_producers ch). queued (ub_set_ready d (us_pc s) e) True" ..
    have "queued (ub_set_ready d (us_pc s) e) False" if "e \<in> set (ub_consumers ch)" for e
      using D(11) [of e] same [of e] subsetD [OF ch(5) that] by simp
    then show "\<forall>e \<in> set (ub_consumers ch). queued (ub_set_ready d (us_pc s) e) False" ..
  next
    fix a op assume "ub_set_ready d (us_pc s) a = U_again op True"
    then have "us_pc s a = U_again op True" using pc [of a] by (elim disjE) auto
    then show "ub_timed op" by (rule D(12))
  qed
qed

lemma ub_inv_notify:
  assumes I: "ub_inv s"
  shows "ub_inv (ub_notify_consumer s)" "ub_inv (ub_notify_producer s)"
proof -
  note D = ub_invD [OF I]
  show "ub_inv (ub_notify_consumer s)"
  proof (cases "ub_consumers (us_chan s)")
    case (Cons d ds)
    have "ub_inv (s\<lparr>us_chan := (us_chan s)\<lparr>ub_consumers := ds\<rparr>, us_pc := ub_set_ready d (us_pc s)\<rparr>)"
    proof (rule ub_inv_wake [OF I])
      show q: "queued (us_pc s d) False" using D(11) [of d] Cons by simp
      have "d \<notin> set (ub_producers (us_chan s))" using D(10) [of d] q by (auto simp: queued_def)
      then show "set (ub_producers ((us_chan s)\<lparr>ub_consumers := ds\<rparr>)) \<subseteq> set (ub_producers (us_chan s)) - {d}" by auto
    qed (use D(8,9) Cons in auto)
    with Cons show ?thesis by (simp add: ub_notify_consumer_def)
  qed (simp add: ub_notify_consumer_def I)
  show "ub_inv (ub_notify_producer s)"
  proof (cases "ub_producers (us_chan s)")
    case (Cons d ds)
    have "ub_inv (s\<lparr>us_chan := (us_chan s)\<lparr>ub_producers := ds\<rparr>, us_pc := ub_set_ready d (us_pc s)\<rparr>)"
    proof (rule ub_inv_wake [OF I])
      show q: "queued (us_pc s d) True" using D(10) [of d] Cons by simp
      have "d \<notin> set (ub_consumers (us_chan s))" using D(11) [of d] q by (auto simp: queued_def)
      then show "set (ub_consumers ((us_chan s)\<lparr>ub_producers := ds\<rparr>)) \<subseteq> set (ub_consumers (us_chan s)) - {d}" by auto
    qed (use D(8,9) Cons in auto)
    with Cons show ?thesis by (simp add: ub_notify_producer_def)
  qed (simp add: ub_notify_producer_def I)
qed

text \<open>What a notification leaves alone.\<close>

lemma notify_simps [simp]:
  "ub_slot (us_chan (ub_notify_consumer s)) = ub_slot (us_chan s)" "us_frame (ub_notify_consumer s) = us_frame s"
  "us_in (ub_notify_consumer s) = us_in s" "us_out (ub_notify_consumer s) = us_out s"
  "us_key (ub_notify_consumer s) = us_key s" "us_acked (ub_notify_consumer s) = us_acked s"
  "ub_slot (us_chan (ub_notify_producer s)) = ub_slot (us_chan s)" "us_frame (ub_notify_producer s) = us_frame s"
  "us_in (ub_notify_producer s) = us_in s" "us_out (ub_notify_producer s) = us_out s"
  "us_key (ub_notify_producer s) = us_key s" "us_acked (ub_notify_producer s) = us_acked s"
  "ub_producers (us_chan (ub_notify_consumer s)) = ub_producers (us_chan s)"
  by (simp_all add: ub_notify_consumer_def ub_notify_producer_def split: list.split)

lemma wake_producers_inv:
  "ub_inv s \<Longrightarrow> ub_inv (s\<lparr>us_chan := (us_chan s)\<lparr>ub_producers := []\<rparr>,
     us_pc := fold ub_set_ready (ub_producers (us_chan s)) (us_pc s)\<rparr>)"
proof (induction "ub_producers (us_chan s)" arbitrary: s)
  case Nil
  then show ?case by (cases s; cases "us_chan s") simp
next
  case (Cons d ds)
  have "ub_notify_producer s = s\<lparr>us_chan := (us_chan s)\<lparr>ub_producers := ds\<rparr>, us_pc := ub_set_ready d (us_pc s)\<rparr>"
    by (simp add: ub_notify_producer_def Cons(2) [symmetric])
  with Cons(1) [of "ub_notify_producer s"] ub_inv_notify(2) [OF Cons(3)] show ?case
    by (simp add: Cons(2) [symmetric])
qed

lemma wake_consumers_inv:
  "ub_inv s \<Longrightarrow> ub_inv (s\<lparr>us_chan := (us_chan s)\<lparr>ub_consumers := []\<rparr>,
     us_pc := fold ub_set_ready (ub_consumers (us_chan s)) (us_pc s)\<rparr>)"
proof (induction "ub_consumers (us_chan s)" arbitrary: s)
  case Nil
  then show ?case by (cases s; cases "us_chan s") simp
next
  case (Cons d ds)
  have "ub_notify_consumer s = s\<lparr>us_chan := (us_chan s)\<lparr>ub_consumers := ds\<rparr>, us_pc := ub_set_ready d (us_pc s)\<rparr>"
    by (simp add: ub_notify_consumer_def Cons(2) [symmetric])
  with Cons(1) [of "ub_notify_consumer s"] ub_inv_notify(1) [OF Cons(3)] show ?case
    by (simp add: Cons(2) [symmetric])
qed

lemma ub_inv_closed: "ub_inv (s\<lparr>us_chan := (us_chan s)\<lparr>ub_closed := b\<rparr>\<rparr>) = ub_inv s"
  by (simp add: ub_inv_def taken_def)

lemma wake_all_inv:
  assumes "ub_inv s"
  shows "ub_inv (ub_wake_all s)"
  using iffD2 [OF ub_inv_closed [where b = True] wake_consumers_inv [OF wake_producers_inv [OF assms]]]
  by (cases s; cases "us_chan s") (simp add: ub_wake_all_def)

text \<open>Returning: a fiber that has no posted value and is in no queue.\<close>

lemma return_inv:
  assumes I: "ub_inv s" and c: "\<not> queued (us_pc s c) True \<or> c \<notin> set (ub_producers (us_chan s))"
    "\<not> queued (us_pc s c) False \<or> c \<notin> set (ub_consumers (us_chan s))" "ub_slot (us_chan s) \<noteq> Some c"
  shows "ub_inv (ub_return c r s)"
proof -
  note D = ub_invD [OF I]
  have n: "\<forall>d \<in> set (ub_producers (us_chan s)). d \<noteq> c" "\<forall>d \<in> set (ub_consumers (us_chan s)). d \<noteq> c"
    using c(1,2) D(10,11) by blast+
  have "a \<noteq> c" if "ub_slot (us_chan s) = Some a" for a using that c(3) by auto
  with I n show ?thesis unfolding ub_inv_def ub_return_def taken_def by simp
qed

text \<open>Suspending in a queue, or starting again at the head of the loop.\<close>

lemma suspend_inv:
  assumes I: "ub_inv s" and c: "\<not> queued (us_pc s c) True" "\<not> queued (us_pc s c) False" "ub_slot (us_chan s) \<noteq> Some c"
    and v: "\<And>v. ub_value op = Some v \<Longrightarrow> us_frame s c = Some v"
  shows "ub_inv (s\<lparr>us_pc := (us_pc s)(c := U_again op False)\<rparr>)"
    "ub_value op \<noteq> None \<Longrightarrow> ub_inv (s\<lparr>us_chan := (us_chan s)\<lparr>ub_producers := ub_producers (us_chan s) @ [c]\<rparr>,
      us_pc := (us_pc s)(c := U_asleep op)\<rparr>)"
    "ub_value op = None \<Longrightarrow> ub_inv (s\<lparr>us_chan := (us_chan s)\<lparr>ub_consumers := ub_consumers (us_chan s) @ [c]\<rparr>,
      us_pc := (us_pc s)(c := U_asleep op)\<rparr>)"
proof -
  note D = ub_invD [OF I]
  have n: "\<forall>d \<in> set (ub_producers (us_chan s)). d \<noteq> c" "\<forall>d \<in> set (ub_consumers (us_chan s)). d \<noteq> c"
    "c \<notin> set (ub_producers (us_chan s))" "c \<notin> set (ub_consumers (us_chan s))"
    using c D(10,11) by blast+
  have "a \<noteq> c" if "ub_slot (us_chan s) = Some a" for a using that c(3) by auto
  with I n v show "ub_inv (s\<lparr>us_pc := (us_pc s)(c := U_again op False)\<rparr>)"
    "ub_value op \<noteq> None \<Longrightarrow> ub_inv (s\<lparr>us_chan := (us_chan s)\<lparr>ub_producers := ub_producers (us_chan s) @ [c]\<rparr>,
      us_pc := (us_pc s)(c := U_asleep op)\<rparr>)"
    "ub_value op = None \<Longrightarrow> ub_inv (s\<lparr>us_chan := (us_chan s)\<lparr>ub_consumers := ub_consumers (us_chan s) @ [c]\<rparr>,
      us_pc := (us_pc s)(c := U_asleep op)\<rparr>)"
    unfolding ub_inv_def taken_def by simp_all
qed

lemma set_ready_other: "c \<noteq> d \<Longrightarrow> ub_set_ready d pc c = pc c"
  by (simp add: ub_set_ready_def split: ub_pc.split)

lemma notify_other:
  assumes "ub_inv s"
  shows "\<not> queued (us_pc s c) False \<Longrightarrow> us_pc (ub_notify_consumer s) c = us_pc s c"
    "\<not> queued (us_pc s c) True \<Longrightarrow> us_pc (ub_notify_producer s) c = us_pc s c"
proof -
  note D = ub_invD [OF assms]
  show "us_pc (ub_notify_consumer s) c = us_pc s c" if "\<not> queued (us_pc s c) False"
  proof (cases "ub_consumers (us_chan s)")
    case (Cons d ds)
    with D(11) [of d] that have "c \<noteq> d" by auto
    with Cons show ?thesis by (simp add: ub_notify_consumer_def set_ready_other)
  qed (simp add: ub_notify_consumer_def)
  show "us_pc (ub_notify_producer s) c = us_pc s c" if "\<not> queued (us_pc s c) True"
  proof (cases "ub_producers (us_chan s)")
    case (Cons d ds)
    with D(10) [of d] that have "c \<noteq> d" by auto
    with Cons show ?thesis by (simp add: ub_notify_producer_def set_ready_other)
  qed (simp add: ub_notify_producer_def)
qed

text \<open>A producer posts its value.\<close>

lemma post_inv:
  assumes I: "ub_inv s" and c: "\<not> queued (us_pc s c) True" "\<not> queued (us_pc s c) False"
    and none: "ub_slot (us_chan s) = None" and v: "ub_value op = Some v" "us_frame s c = Some v"
  shows "ub_inv (s\<lparr>us_chan := (us_chan s)\<lparr>ub_slot := Some c\<rparr>, us_in := us_in s @ [v],
    us_key := (us_key s)(c := length (us_in s)), us_pc := (us_pc s)(c := U_posted op)\<rparr>)"
proof -
  note D = ub_invD [OF I]
  have n: "\<forall>d \<in> set (ub_producers (us_chan s)). d \<noteq> c" "\<forall>d \<in> set (ub_consumers (us_chan s)). d \<noteq> c"
    using c D(10,11) by blast+
  have np: "us_pc s a \<noteq> U_posted op'" for a op' using D(2) [of a op'] none by auto
  have k: "length (us_in s) \<notin> taken s" using D(6) by (fastforce simp: taken_def)
  have o: "\<forall>(k, w) \<in> set (us_out s). k < Suc (length (us_in s)) \<and> w = (us_in s @ [v]) ! k"
    using D(6) by (fastforce simp: nth_append)
  from I n np k o v show ?thesis unfolding ub_inv_def taken_def by simp
qed

lemma push_stretch_inv:
  assumes I: "ub_inv s" and c: "\<not> queued (us_pc s c) True" "\<not> queued (us_pc s c) False" "ub_slot (us_chan s) \<noteq> Some c"
    and v: "ub_value op = Some v" "us_frame s c = Some v"
  shows "ub_inv (push_stretch c op v s)"
proof (cases "ub_is_closed (us_chan s)")
  case True
  with return_inv [OF I] c show ?thesis by (simp add: push_stretch_def)
next
  case False
  show ?thesis
  proof (cases "ub_slot (us_chan s)")
    case (Some a)
    with suspend_inv [OF I c, of op] v False show ?thesis
      by (simp add: push_stretch_def ub_try_push_def ub_is_empty_def)
  next
    case None
    let ?s = "ub_notify_consumer s"
    have "us_pc ?s c = us_pc s c" by (rule notify_other(1) [OF I c(2)])
    with post_inv [OF ub_inv_notify(1) [OF I], of c op v] c None v
    have "ub_inv (?s\<lparr>us_chan := (us_chan ?s)\<lparr>ub_slot := Some c\<rparr>, us_in := us_in ?s @ [v],
      us_key := (us_key ?s)(c := length (us_in ?s)), us_pc := (us_pc ?s)(c := U_posted op)\<rparr>)" by simp
    moreover have "push_stretch c op v s = ?s\<lparr>us_chan := (us_chan ?s)\<lparr>ub_slot := Some c\<rparr>, us_in := us_in ?s @ [v],
      us_key := (us_key ?s)(c := length (us_in ?s)), us_pc := (us_pc ?s)(c := U_posted op)\<rparr>"
      using False None
      by (cases s; cases "us_chan s")
        (simp add: push_stretch_def ub_try_push_def ub_notify_consumer_def Let_def split: list.split)
    ultimately show ?thesis by simp
  qed
qed

text \<open>A consumer takes the posted value: it is read and its producer woken.\<close>

lemma take_inv:
  assumes I: "ub_inv s" and a: "ub_slot (us_chan s) = Some a" and v: "us_frame s a = Some v"
  shows "ub_inv (s\<lparr>us_chan := (us_chan s)\<lparr>ub_slot := None\<rparr>, us_out := us_out s @ [(us_key s a, v)],
    us_pc := ub_set_ready a (us_pc s)\<rparr>)"
proof -
  note D = ub_invD [OF I]
  have k: "us_key s a < length (us_in s)" "v = us_in s ! us_key s a" "us_key s a \<notin> fst ` set (us_out s)"
    using D(1) [OF a] v by (auto simp: taken_def)
  have "k < us_key s a" if "(k, w) \<in> set (us_out s)" for k w
    using D(6) [OF that] D(1) [OF a] that by (cases "k = us_key s a") (force simp: taken_def)+
  then have last: "\<forall>k \<in> fst ` set (us_out s). k < us_key s a" by auto
  have np: "us_pc s b = U_posted op \<Longrightarrow> b = a" for b op using D(2) [of b op] a by simp
  have n: "\<forall>d \<in> set (ub_producers (us_chan s)). d \<noteq> a" "\<forall>d \<in> set (ub_consumers (us_chan s)). d \<noteq> a"
    using D(1) [OF a] D(10) [of a] D(11) [of a] by auto
  obtain op l where r: "ub_set_ready a (us_pc s) = (us_pc s)(a := U_resumed op l)"
    "l \<Longrightarrow> ub_timed op" "ub_op_of (us_pc s a) = Some op"
  proof -
    obtain op where "us_pc s a = U_posted op \<or> us_pc s a = U_resumed op True" using D(1) [OF a] by blast
    then show thesis
    proof
      assume p: "us_pc s a = U_posted op"
      then have "ub_set_ready a (us_pc s) = (us_pc s)(a := U_resumed op False)" by (simp add: ub_set_ready_def)
      from that [OF this] p show thesis by simp
    next
      assume p: "us_pc s a = U_resumed op True"
      then have "ub_set_ready a (us_pc s) = (us_pc s)(a := U_resumed op True)" by (simp add: ub_set_ready_def fun_upd_idem)
      from that [OF this] p D(3) [OF p] show thesis by simp
    qed
  qed
  have fr: "us_frame s c = Some w" if "ub_op_of (if c = a then U_resumed op l else us_pc s c) = Some op'" "ub_value op' = Some w" for c op' w
    using that r(3) D(4) [of c op' w] by (cases "c = a") auto
  show ?thesis unfolding ub_inv_def taken_def r(1)
  proof (intro conjI allI impI; simp split del: if_split)
    fix b op' assume "(if b = a then U_resumed op l else us_pc s b) = U_posted op'"
    then show False using np [of b op'] by (cases "b = a") auto
  next
    fix b op' assume "(if b = a then U_resumed op l else us_pc s b) = U_resumed op' True"
    then show "ub_timed op'" using r(2) D(3) [of b op' True] by (cases "b = a") auto
  next
    fix b op' assume "(if b = a then U_resumed op l else us_pc s b) = U_resumed op' False"
    then show "us_key s b = us_key s a \<or> us_key s b \<in> fst ` set (us_out s)"
      using D(3) [of b op' False] by (cases "b = a") (auto simp: taken_def)
  next
    fix c op' w assume "ub_op_of (if c = a then U_resumed op l else us_pc s c) = Some op'" "ub_value op' = Some w"
    then show "us_frame s c = Some w" by (rule fr)
  next
    show "sorted_wrt (<) (map fst (us_out s) @ [us_key s a])" using D(5) last by (simp add: sorted_wrt_append)
    show "us_key s a < length (us_in s) \<and> v = us_in s ! us_key s a \<and> (\<forall>(k, v) \<in> set (us_out s). k < length (us_in s) \<and> v = us_in s ! k)"
      using D(6) k(1,2) by blast
    show "set (us_acked s) \<subseteq> insert (us_key s a) (fst ` set (us_out s))" using D(7) by (auto simp: taken_def)
    show "distinct (ub_producers (us_chan s))" "distinct (ub_consumers (us_chan s))" by (rule D)+
    show "\<forall>d \<in> set (ub_producers (us_chan s)). queued (if d = a then U_resumed op l else us_pc s d) True" using D(10) n(1) by simp
    show "\<forall>d \<in> set (ub_consumers (us_chan s)). queued (if d = a then U_resumed op l else us_pc s d) False" using D(11) n(2) by simp
  next
    fix b op' assume "(if b = a then U_resumed op l else us_pc s b) = U_again op' True"
    then show "ub_timed op'" using D(12) [of b op'] by (cases "b = a") auto
  qed
qed

lemma pop_stretch_inv:
  assumes I: "ub_inv s" and c: "\<not> queued (us_pc s c) True" "\<not> queued (us_pc s c) False" "ub_slot (us_chan s) \<noteq> Some c"
    and v: "ub_value op = None"
  shows "ub_inv (pop_stretch r c op s)"
proof (cases "ub_slot (us_chan s)")
  case None
  with suspend_inv [OF I c, of op] return_inv [OF I, of c r] c v show ?thesis
    by (simp add: pop_stretch_def ub_try_pop_def ub_is_empty_def)
next
  case (Some a)
  let ?s = "ub_notify_producer s"
  have I': "ub_inv ?s" by (rule ub_inv_notify(2) [OF I])
  obtain w where w: "us_frame s a = Some w" using ub_invD(1) [OF I Some] by blast
  let ?t = "?s\<lparr>us_chan := (us_chan ?s)\<lparr>ub_slot := None\<rparr>, us_out := us_out ?s @ [(us_key ?s a, w)],
    us_pc := ub_set_ready a (us_pc ?s)\<rparr>"
  have t: "ub_inv ?t" by (rule take_inv [OF I']) (use Some w in simp_all)
  have "us_pc ?s c = us_pc s c" by (rule notify_other(2) [OF I c(1)])
  with Some c(3) have "us_pc ?t c = us_pc s c" by (simp add: set_ready_other)
  with return_inv [OF t, of c "Popped w"] c have "ub_inv (ub_return c (Popped w) ?t)" by simp
  moreover have "pop_stretch r c op s = ub_return c (Popped w) ?t"
    using Some w by (cases s; cases "us_chan s")
      (simp add: pop_stretch_def ub_try_pop_def ub_notify_producer_def Let_def ub_return_def split: list.split)
  ultimately show ?thesis by simp
qed

subsection \<open>Every step keeps it\<close>

lemma call_frame_inv:
  assumes "ub_inv s" "us_pc s c = U_back r"
  shows "ub_inv (s\<lparr>us_frame := (us_frame s)(c \<mapsto> v)\<rparr>)"
proof -
  note D = ub_invD [OF assms(1)]
  have "a \<noteq> c" if "ub_slot (us_chan s) = Some a" for a using D(1) [OF that] assms(2) by auto
  moreover have "us_pc s a \<noteq> us_pc s c" if "ub_op_of (us_pc s a) = Some op" for a op using that assms(2) by auto
  ultimately show ?thesis using assms unfolding ub_inv_def taken_def by auto
qed

lemma slot_posted: "ub_inv s \<Longrightarrow> ub_slot (us_chan s) = Some c \<Longrightarrow> \<exists>op. us_pc s c = U_posted op \<or> us_pc s c = U_resumed op True"
  using ub_invD(1) by blast

lemma ack_inv:
  assumes I: "ub_inv s" and p: "us_pc s c = U_resumed op False"
  shows "ub_inv (ub_ack c s)"
proof -
  have "ub_inv (s\<lparr>us_acked := us_acked s @ [us_key s c]\<rparr>)"
    using I ub_invD(3) [OF I p] unfolding ub_inv_def taken_def by simp
  from return_inv [OF this, of c] p slot_posted [OF I, of c] show ?thesis by (auto simp: ub_ack_def)
qed

text \<open>Giving up: the fiber leaves its queue and takes its posted value back.\<close>

lemma unlink_inv:
  assumes I: "ub_inv s"
  shows "ub_inv (ub_unlink_producer c s)"
    "ub_inv (s\<lparr>us_chan := (us_chan s)\<lparr>ub_consumers := remove1 c (ub_consumers (us_chan s))\<rparr>\<rparr>)"
  using I notin_set_remove1 unfolding ub_inv_def taken_def ub_unlink_producer_def by auto

lemma withdraw_inv:
  assumes I: "ub_inv s" and a: "ub_slot (us_chan s) = Some c" "us_pc s c = U_resumed op True"
  shows "ub_inv (s\<lparr>us_chan := (us_chan s)\<lparr>ub_slot := None\<rparr>\<rparr>)"
proof -
  have "us_pc s b \<noteq> U_posted op'" for b op' using ub_invD(2) [OF I, of b op'] a by auto
  with I show ?thesis unfolding ub_inv_def taken_def by simp
qed

lemma give_up_inv:
  assumes I: "ub_inv s"
  shows "us_pc s c = U_resumed op True \<Longrightarrow> ub_inv (ub_return c r (ub_unlink_producer c
      (if ub_slot (us_chan s) = Some c then s\<lparr>us_chan := (us_chan s)\<lparr>ub_slot := None\<rparr>\<rparr> else s)))"
    "us_pc s c = U_again op True \<Longrightarrow> ub_value op \<noteq> None \<Longrightarrow> ub_inv (ub_return c r (ub_unlink_producer c s))"
    "us_pc s c = U_again op True \<Longrightarrow> ub_value op = None \<Longrightarrow>
       ub_inv (ub_return c r (s\<lparr>us_chan := (us_chan s)\<lparr>ub_consumers := remove1 c (ub_consumers (us_chan s))\<rparr>\<rparr>))"
proof -
  assume p: "us_pc s c = U_resumed op True"
  let ?s = "if ub_slot (us_chan s) = Some c then s\<lparr>us_chan := (us_chan s)\<lparr>ub_slot := None\<rparr>\<rparr> else s"
  have "ub_inv ?s" using I withdraw_inv [OF I _ p] by simp
  from unlink_inv(1) [OF this, of c] p show "ub_inv (ub_return c r (ub_unlink_producer c ?s))"
    by (intro return_inv) (auto simp: ub_unlink_producer_def)
next
  assume p: "us_pc s c = U_again op True" "ub_value op \<noteq> None"
  with slot_posted [OF I, of c] have "ub_slot (us_chan s) \<noteq> Some c" by auto
  with unlink_inv(1) [OF I, of c] p show "ub_inv (ub_return c r (ub_unlink_producer c s))"
    using ub_invD(8) [OF I] by (intro return_inv) (auto simp: ub_unlink_producer_def)
next
  assume p: "us_pc s c = U_again op True" "ub_value op = None"
  with slot_posted [OF I, of c] have "ub_slot (us_chan s) \<noteq> Some c" by auto
  with unlink_inv(2) [OF I, of c] p show "ub_inv (ub_return c r
      (s\<lparr>us_chan := (us_chan s)\<lparr>ub_consumers := remove1 c (ub_consumers (us_chan s))\<rparr>\<rparr>))"
    using ub_invD(9) [OF I] by (intro return_inv) auto
qed

text \<open>Running an operation from its start, or from one of its suspensions.\<close>

lemma start_inv:
  assumes I: "ub_inv s" and b: "us_pc s c = U_back r" and t: "ub_run_op c op s = Some t"
  shows "ub_inv t"
proof -
  have n: "ub_slot (us_chan s) \<noteq> Some c" using slot_posted [OF I, of c] b by auto
  have push: "ub_inv (push_stretch c op v (s\<lparr>us_frame := (us_frame s)(c \<mapsto> v)\<rparr>))" if "ub_value op = Some v" for v
    by (rule push_stretch_inv [OF call_frame_inv [OF I b]]) (use n b that in simp_all)
  have pop: "ub_inv (pop_stretch r' c op s)" if "ub_value op = None" for r'
    by (rule pop_stretch_inv [OF I]) (use n b that in simp_all)
  have close: "ub_inv (unbuffered_close c s)" unfolding unbuffered_close_def
  proof (rule return_inv [OF wake_all_inv [OF I]])
  qed (use n in \<open>simp_all add: ub_wake_all_def\<close>)
  show ?thesis using t push pop close b
    by (cases op) (auto simp: ub_run_op_def unbuffered_push_def unbuffered_push_until_def unbuffered_pop_def
      unbuffered_value_pop_def unbuffered_pop_until_def)
qed

lemma again_inv:
  assumes I: "ub_inv s" and b: "us_pc s c = U_again op late" and t: "ub_run_op c op s = Some t"
  shows "ub_inv t"
proof -
  have n: "ub_slot (us_chan s) \<noteq> Some c" using slot_posted [OF I, of c] b by auto
  have l: "late \<Longrightarrow> ub_timed op" using ub_invD(12) [OF I, of c op] b by simp
  have push: "ub_inv (push_stretch c op v s)" if "ub_value op = Some v" "\<not> late" for v
    by (rule push_stretch_inv [OF I]) (use n b that ub_invD(4) [OF I, of c op v] in simp_all)
  have pop: "ub_inv (pop_stretch r' c op s)" if "ub_value op = None" "\<not> late" for r'
    by (rule pop_stretch_inv [OF I]) (use n b that in simp_all)
  show ?thesis using t push pop l b give_up_inv(2,3) [OF I, of c op]
    by (cases op) (auto simp: ub_run_op_def unbuffered_push_def unbuffered_push_until_def unbuffered_pop_def
      unbuffered_value_pop_def unbuffered_pop_until_def split: if_splits)
qed

lemma resumed_inv:
  assumes I: "ub_inv s" and b: "us_pc s c = U_resumed op late" and t: "ub_run_op c op s = Some t"
  shows "ub_inv t"
proof -
  have l: "late \<Longrightarrow> ub_timed op" using ub_invD(3) [OF I, of c op] b by (cases late) auto
  have push: "ub_inv (ub_ack c s)" if "\<not> late" using ack_inv [OF I, of c op] b that by simp
  show ?thesis using t push l b give_up_inv(1) [OF I, of c op]
    by (cases op) (auto simp: ub_run_op_def unbuffered_push_def unbuffered_push_until_def unbuffered_pop_def
      unbuffered_value_pop_def unbuffered_pop_until_def split: if_splits)
qed

text \<open>The deadline passes.\<close>

lemma late_inv:
  assumes I: "ub_inv s" and o: "ub_timed op"
    and p: "p = U_resumed op True \<and> (us_pc s c = U_posted op \<or> us_pc s c = U_resumed op l)
      \<or> p = U_again op True \<and> (us_pc s c = U_asleep op \<or> us_pc s c = U_again op l)"
  shows "ub_inv (s\<lparr>us_pc := (us_pc s)(c := p)\<rparr>)"
proof -
  note D = ub_invD [OF I]
  have q: "queued (us_pc s c) b \<Longrightarrow> queued p b" for b using p by (auto simp: queued_def)
  have fr: "us_frame s d = Some w" if "ub_op_of (if d = c then p else us_pc s d) = Some op'" "ub_value op' = Some w" for d op' w
    using that p D(4) [of d op' w] by (cases "d = c") auto
  show ?thesis unfolding ub_inv_def taken_def
  proof (intro conjI allI impI; simp split del: if_split)
    fix a assume a: "ub_slot (us_chan s) = Some a"
    show "\<exists>op. (if a = c then p else us_pc s a) = U_posted op \<or> (if a = c then p else us_pc s a) = U_resumed op True"
      using D(1) [OF a] p by (cases "a = c") auto
    show "Suc (us_key s a) = length (us_in s)" "us_frame s a = Some (us_in s ! us_key s a)" "us_key s a \<notin> fst ` set (us_out s)"
      using D(1) [OF a] by (simp_all add: taken_def)
  next
    fix a op' assume "(if a = c then p else us_pc s a) = U_posted op'"
    then show "ub_slot (us_chan s) = Some a" using D(2) [of a op'] p by (cases "a = c") auto
  next
    fix a op' assume "(if a = c then p else us_pc s a) = U_resumed op' True"
    then show "ub_timed op'" using D(3) [of a op' True] p o by (cases "a = c") auto
  next
    fix a op' assume "(if a = c then p else us_pc s a) = U_resumed op' False"
    then show "us_key s a \<in> fst ` set (us_out s)" using D(3) [of a op' False] p by (cases "a = c") (auto simp: taken_def)
  next
    fix a op' assume "(if a = c then p else us_pc s a) = U_again op' True"
    then show "ub_timed op'" using D(12) [of a op'] p o by (cases "a = c") auto
  next
    fix d op' w assume "ub_op_of (if d = c then p else us_pc s d) = Some op'" "ub_value op' = Some w"
    then show "us_frame s d = Some w" by (rule fr)
  next
    show "sorted_wrt (<) (map fst (us_out s))" by (rule D)
    show "\<forall>(k, v) \<in> set (us_out s). k < length (us_in s) \<and> v = us_in s ! k" using D(6) by blast
    show "set (us_acked s) \<subseteq> fst ` set (us_out s)" using D(7) by (simp add: taken_def)
    show "distinct (ub_producers (us_chan s))" "distinct (ub_consumers (us_chan s))" by (rule D)+
    show "\<forall>d \<in> set (ub_producers (us_chan s)). queued (if d = c then p else us_pc s d) True" using D(10) q by auto
    show "\<forall>d \<in> set (ub_consumers (us_chan s)). queued (if d = c then p else us_pc s d) False" using D(11) q by auto
  qed
qed

lemma expire_inv:
  assumes I: "ub_inv s" and t: "ub_next (Ub_expire c) s = Some t"
  shows "ub_inv t"
  using t by (cases "us_pc s c") (auto intro!: late_inv [OF I] split: if_splits)

theorem ub_reach_inv: "ub_reach s \<Longrightarrow> ub_inv s"
proof (induction rule: ub_reach.induct)
  case start
  show ?case by (simp add: ub_inv_def ub_start_def unbuffered_channel_new_def taken_def)
next
  case (step s e t)
  then show ?case
    by (cases e) (auto simp del: ub_next.simps(3) split: ub_pc.splits intro: start_inv again_inv resumed_inv expire_inv)
qed

subsection \<open>Nobody sleeps outside the queues, and nobody reads a frame that is gone\<close>

definition ub_listed :: "'a ub_system \<Rightarrow> bool" where
  "ub_listed s \<longleftrightarrow> (\<forall>c op. us_pc s c = U_asleep op \<longrightarrow>
     c \<in> set (ub_producers (us_chan s)) \<union> set (ub_consumers (us_chan s)))"

definition unbroken :: "(ctx \<Rightarrow> 'a ub_pc) \<Rightarrow> bool" where
  "unbroken pc \<longleftrightarrow> (\<forall>c. pc c \<noteq> U_back Broken)"

lemma unbroken_simps [simp]:
  "unbroken pc \<Longrightarrow> unbroken (pc(c := p)) \<longleftrightarrow> p \<noteq> U_back Broken"
  "unbroken pc \<Longrightarrow> unbroken (ub_set_ready d pc)"
  by (auto simp: unbroken_def ub_set_ready_def split: ub_pc.split)

lemma unbroken_fold [simp]: "unbroken pc \<Longrightarrow> unbroken (fold ub_set_ready ds pc)"
  by (induction ds arbitrary: pc) simp_all

lemma unbroken_notify [simp]:
  "unbroken (us_pc s) \<Longrightarrow> unbroken (us_pc (ub_notify_consumer s))"
  "unbroken (us_pc s) \<Longrightarrow> unbroken (us_pc (ub_notify_producer s))"
  by (simp_all add: ub_notify_consumer_def ub_notify_producer_def split: list.split)

lemma unbroken_stretch:
  assumes "unbroken (us_pc s)"
  shows "unbroken (us_pc (push_stretch c op v s))"
    and "ub_inv s \<Longrightarrow> r \<noteq> Broken \<Longrightarrow> unbroken (us_pc (pop_stretch r c op s))"
proof -
  show "unbroken (us_pc (push_stretch c op v s))"
    using assms by (simp add: push_stretch_def ub_return_def ub_try_push_def Let_def split: option.split)
  assume I: "ub_inv s" and r: "r \<noteq> Broken"
  show "unbroken (us_pc (pop_stretch r c op s))"
  proof (cases "ub_slot (us_chan s)")
    case None
    with assms r show ?thesis by (simp add: pop_stretch_def ub_return_def ub_try_pop_def)
  next
    case (Some a)
    moreover obtain w where "us_frame s a = Some w" using ub_invD(1) [OF I Some] by blast
    ultimately show ?thesis using assms by (simp add: pop_stretch_def ub_return_def ub_try_pop_def Let_def)
  qed
qed

lemma unbroken_step:
  assumes I: "ub_inv s" and u: "unbroken (us_pc s)" and t: "ub_run_op c op s = Some t"
  shows "unbroken (us_pc t)"
proof -
  have push: "unbroken (us_pc (push_stretch c op v s))" "unbroken (us_pc (push_stretch c op v (s\<lparr>us_frame := f\<rparr>)))" for v f
    using u by (simp_all add: unbroken_stretch(1))
  have pop: "unbroken (us_pc (pop_stretch r c op s))" if "r \<noteq> Broken" for r by (rule unbroken_stretch(2) [OF u I that])
  show ?thesis using t push pop u
    by (cases op) (auto simp: ub_run_op_def unbuffered_push_def unbuffered_push_until_def unbuffered_pop_def
      unbuffered_value_pop_def unbuffered_pop_until_def unbuffered_close_def ub_wake_all_def ub_ack_def ub_return_def
      ub_unlink_producer_def split: ub_pc.splits if_splits)
qed

lemma ub_reach_unbroken: "ub_reach s \<Longrightarrow> unbroken (us_pc s)"
proof (induction rule: ub_reach.induct)
  case start
  show ?case by (simp add: ub_start_def unbroken_def)
next
  case (step s e t)
  then show ?case using ub_reach_inv
    by (cases e) (auto simp del: fun_upd_apply split: ub_pc.splits if_splits intro: unbroken_step)
qed

lemma set_ready_asleep: "ub_set_ready d pc c = U_asleep op \<longleftrightarrow> pc c = U_asleep op \<and> c \<noteq> d"
  by (auto simp: ub_set_ready_def split: ub_pc.split)

lemma fold_asleep: "fold ub_set_ready ds pc c = U_asleep op \<longleftrightarrow> pc c = U_asleep op \<and> c \<notin> set ds"
  by (induction ds arbitrary: pc) (auto simp: set_ready_asleep)

lemma listed_notify:
  "ub_listed s \<Longrightarrow> ub_listed (ub_notify_consumer s)" "ub_listed s \<Longrightarrow> ub_listed (ub_notify_producer s)"
  by (auto simp: ub_listed_def ub_notify_consumer_def ub_notify_producer_def set_ready_asleep split: list.split)

lemma listed_simps [simp]:
  "ub_listed (s\<lparr>us_frame := f\<rparr>) = ub_listed s" "ub_listed (s\<lparr>us_in := i\<rparr>) = ub_listed s"
  "ub_listed (s\<lparr>us_key := k\<rparr>) = ub_listed s" "ub_listed (s\<lparr>us_out := out\<rparr>) = ub_listed s"
  "ub_listed (s\<lparr>us_acked := ack\<rparr>) = ub_listed s"
  "ub_listed (s\<lparr>us_chan := (us_chan s)\<lparr>ub_slot := a\<rparr>\<rparr>) = ub_listed s"
  by (simp_all add: ub_listed_def)

lemma listed_goes_on:
  assumes "ub_listed s" and "\<And>op. p \<noteq> U_asleep op"
  shows "ub_listed (s\<lparr>us_pc := (us_pc s)(c := p)\<rparr>)"
  using assms by (simp add: ub_listed_def)

lemma listed_return [simp]: "ub_listed s \<Longrightarrow> ub_listed (ub_return c r s)"
  by (simp add: ub_return_def ub_listed_def)

lemma listed_stretch:
  assumes "ub_listed s"
  shows "ub_listed (push_stretch c op v s)" "ub_listed (pop_stretch r c op s)"
proof -
  have post: "ub_listed (ub_notify_consumer (s\<lparr>us_chan := (us_chan s)\<lparr>ub_slot := Some c\<rparr>, us_in := i, us_key := k\<rparr>))" for i k
    by (rule listed_notify(1)) (use assms in \<open>simp add: ub_listed_def\<close>)
  have take: "ub_listed (ub_notify_producer (s\<lparr>us_chan := (us_chan s)\<lparr>ub_slot := None\<rparr>\<rparr>))"
    by (rule listed_notify(2)) (use assms in \<open>simp add: ub_listed_def\<close>)
  have wake: "ub_listed (t\<lparr>us_out := out, us_pc := ub_set_ready a (us_pc t)\<rparr>)" if "ub_listed t" for t :: "'a ub_system" and out a
    using that by (auto simp: ub_listed_def set_ready_asleep)
  have sleep: "ub_listed (s\<lparr>us_chan := (us_chan s)\<lparr>ub_producers := ub_producers (us_chan s) @ [c]\<rparr>,
      us_pc := (us_pc s)(c := U_asleep op)\<rparr>)" "ub_listed (s\<lparr>us_chan := (us_chan s)\<lparr>ub_consumers := ub_consumers (us_chan s) @ [c]\<rparr>,
      us_pc := (us_pc s)(c := U_asleep op)\<rparr>)"
    using assms by (auto simp: ub_listed_def)
  show "ub_listed (push_stretch c op v s)"
    using assms sleep post by (auto simp: push_stretch_def ub_try_push_def Let_def intro: listed_goes_on split: option.split)
  show "ub_listed (pop_stretch r c op s)"
    using assms sleep take by (auto simp: pop_stretch_def ub_try_pop_def Let_def intro!: listed_goes_on listed_return wake split: option.split)
qed

lemma listed_wake_all [simp]: "ub_listed s \<Longrightarrow> ub_listed (ub_wake_all s)"
  by (auto simp: ub_listed_def ub_wake_all_def fold_asleep)

text \<open>Leaving a queue and returning.\<close>

lemma listed_unlink:
  "ub_listed s \<Longrightarrow> ub_listed (ub_return c r (ub_unlink_producer c s))"
  "ub_listed s \<Longrightarrow> ub_listed (ub_return c r (s\<lparr>us_chan := (us_chan s)\<lparr>ub_consumers := remove1 c (ub_consumers (us_chan s))\<rparr>\<rparr>))"
  by (auto simp: ub_listed_def ub_return_def ub_unlink_producer_def in_set_remove1)

lemma listed_step:
  assumes u: "ub_listed s" and t: "ub_run_op c op s = Some t"
  shows "ub_listed t"
  using t u
  by (cases op) (auto simp: ub_run_op_def unbuffered_push_def unbuffered_push_until_def unbuffered_pop_def
    unbuffered_value_pop_def unbuffered_pop_until_def unbuffered_close_def ub_ack_def listed_stretch listed_unlink
    split: ub_pc.splits if_splits)

lemma ub_reach_listed: "ub_reach s \<Longrightarrow> ub_listed s"
proof (induction rule: ub_reach.induct)
  case start
  show ?case by (simp add: ub_start_def ub_listed_def)
next
  case (step s e t)
  then show ?case
    by (cases e) (auto simp del: fun_upd_apply split: ub_pc.splits if_splits intro: listed_step listed_goes_on)
qed

subsection \<open>The channel's guarantees\<close>

lemma some_the: "\<not> Option.is_none x \<Longrightarrow> x = Some (the x)"
  by (cases x) simp_all

text \<open>C32: the unbuffered channel is a rendezvous: however the calls, suspensions and deadlines of
  the fibers of a scheduler follow each other, the values taken are values that were posted, each
  taken at most once and in the order they were posted; every push that reported success has had
  its value taken; and no consumer reads the value from a frame whose call has returned.\<close>

theorem unbuffered_rendezvous:
  assumes "ub_run es ub_start = Some s"
  shows "sorted_wrt (<) (map fst (us_out s)) \<and> set (map fst (us_out s)) \<subseteq> {..<length (us_in s)} \<and>
    map snd (us_out s) = map ((!) (us_in s)) (map fst (us_out s)) \<and>
    set (us_acked s) \<subseteq> set (map fst (us_out s)) \<and> us_pc s c \<noteq> U_back Broken"
proof -
  have r: "ub_reach s" by (rule ub_run_reach [OF ub_reach.start assms])
  note D = ub_invD [OF ub_reach_inv [OF r]]
  have "map snd (us_out s) = map ((!) (us_in s)) (map fst (us_out s))" using D(6) by auto
  moreover have "set (map fst (us_out s)) \<subseteq> {..<length (us_in s)}" using D(6) by auto
  ultimately show ?thesis using D(5,7) ub_reach_unbroken [OF r] by (simp add: taken_def unbroken_def)
qed

lemma unbuffered_rendezvous_witness:
  "let s = the (ub_run [Ub_call 1 (Ub_push ''a''), Ub_call 2 Ub_pop, Ub_resume 1] ub_start) in
     set (us_acked s) \<subseteq> set (map fst (us_out s)) \<and> us_out s = [(0, ''a'')] \<and> us_acked s = [0]"
proof -
  have "\<not> Option.is_none (ub_run [Ub_call 1 (Ub_push ''a''), Ub_call 2 Ub_pop, Ub_resume 1] ub_start)"
    by code_simp
  note run = some_the [OF this]
  from unbuffered_rendezvous [OF run] show ?thesis unfolding Let_def by (intro conjI; (elim conjE; assumption | code_simp))
qed

text \<open>Closing the channel leaves nobody asleep in its queues: in every state the fibers can reach,
  after \<open>close\<close> each fiber that waited for a value, or for the slot, is ready to go on, the calls
  that follow are refused, and a value already posted can still be taken.\<close>

theorem unbuffered_close_releases:
  assumes "ub_run es ub_start = Some s"
  shows "us_pc (unbuffered_close c s) d \<noteq> U_asleep op \<and> ub_slot (us_chan (unbuffered_close c s)) = ub_slot (us_chan s) \<and>
    us_pc (push_stretch e o' v (unbuffered_close c s)) e = U_back (Status op_closed)"
proof -
  have r: "ub_listed s" by (rule ub_reach_listed [OF ub_run_reach [OF ub_reach.start assms]])
  then have "us_pc (ub_wake_all s) d \<noteq> U_asleep op"
    by (auto simp: ub_listed_def ub_wake_all_def fold_asleep)
  then show ?thesis
    by (simp add: unbuffered_close_def ub_return_def push_stretch_def ub_is_closed_def ub_wake_all_def)
qed

lemma unbuffered_close_releases_witness:
  "let s = the (ub_run [Ub_call 1 Ub_pop] (ub_start :: string ub_system)) in
     us_pc s 1 = U_asleep Ub_pop \<and> us_pc (unbuffered_close 2 s) 1 \<noteq> U_asleep Ub_pop"
proof -
  have "\<not> Option.is_none (ub_run [Ub_call 1 Ub_pop] (ub_start :: string ub_system))" by code_simp
  note run = some_the [OF this]
  from unbuffered_close_releases [OF run, of 2 1 Ub_pop] show ?thesis
    unfolding Let_def by (intro conjI; (elim conjE; assumption | code_simp))
qed

text \<open>A timed push can report \<open>timeout\<close> although its value has been taken: the consumer takes it
  and wakes the producer, whose deadline passes before it runs.\<close>

theorem unbuffered_late_timeout:
  "let s = the (ub_run [Ub_call 1 (Ub_push_until ''a''), Ub_call 2 Ub_pop, Ub_expire 1, Ub_resume 1] ub_start) in
     us_pc s 2 = U_back (Popped ''a'') \<and> us_pc s 1 = U_back (Status op_timeout)"
  by code_simp

text \<open>A producer that gives up takes its value back without waking a producer that waits for the
  slot: that one sleeps on although the slot is free, and no consumer is left to wake it.\<close>

theorem unbuffered_timeout_strands_producer:
  "let s = the (ub_run [Ub_call 1 (Ub_push_until ''a''), Ub_call 2 (Ub_push ''b''), Ub_expire 1, Ub_resume 1] ub_start) in
     us_pc s 1 = U_back (Status op_timeout) \<and> ub_is_empty (us_chan s) \<and> us_pc s 2 = U_asleep (Ub_push ''b'')"
  by code_simp

text \<open>The destructor resumes a producer whose value nobody has taken as if it had been taken: its push
  reports success.\<close>

theorem unbuffered_delete_reports_success:
  "let s = unbuffered_channel_delete (the (ub_run [Ub_call 1 (Ub_push ''a'')] ub_start));
       t = the (ub_next (Ub_resume 1) s) in
     us_pc t 1 = U_back (Status op_success) \<and> us_out t = []"
  by code_simp

end
