(* ===== verification/Reactor_Messages.thy ===== *)
theory Reactor_Messages
  imports Dumbo_Prelude
begin

text \<open>
  The messages of the reactors: the classes under \<open>reactor/message\<close>, the inboxes of \<open>smp_base.hpp\<close>,
  and \<open>run_at\<close>, \<open>run_at_async\<close> and \<open>event_loop\<close> of \<open>reactor.hpp\<close> and \<open>reactor.cpp\<close>, with
  \<open>run\<close> and \<open>shutdown\<close> of \<open>application.hpp\<close>. An inbox is a bounded FIFO, which is what the properties
  of \<open>MPSC_Concurrent\<close> give; \<open>send\<close> waits while it is full, and with it the reactor.
\<close>

subsection \<open>The messages\<close>

text \<open>The class of a message; \<open>FiberLambdaMessage\<close> knows the fiber that waits for it.\<close>

datatype message_class =
    FiberLambdaMessage nat | OneWayLambdaMessage | OneWayFunctionMessage | AppLambdaMessage

record ('f, 'e, 'v) message =
  msg_class :: message_class
  msg_cpu :: nat
  msg_one_way :: bool
  msg_return :: bool
  msg_exception :: "'e option"
  msg_fn :: 'f
  msg_result :: "'v option"

definition Message_new :: "message_class \<Rightarrow> nat \<Rightarrow> bool \<Rightarrow> 'f \<Rightarrow> ('f, 'e, 'v) message" where
  "Message_new c cpu one_way fn = \<lparr>msg_class = c, msg_cpu = cpu, msg_one_way = one_way, msg_return = False,
     msg_exception = None, msg_fn = fn, msg_result = None\<rparr>"

definition make_fiber_lambda_message :: "nat \<Rightarrow> nat \<Rightarrow> 'f \<Rightarrow> ('f, 'e, 'v) message" where
  "make_fiber_lambda_message cpu context fn = Message_new (FiberLambdaMessage context) cpu False fn"

definition make_one_way_lambda_message :: "nat \<Rightarrow> 'f \<Rightarrow> ('f, 'e, 'v) message" where
  "make_one_way_lambda_message cpu fn = Message_new OneWayLambdaMessage cpu True fn"

definition make_special_one_way_lambda_message :: "nat \<Rightarrow> 'f \<Rightarrow> ('f, 'e, 'v) message" where
  "make_special_one_way_lambda_message cpu fn = Message_new AppLambdaMessage cpu True fn"

definition OneWayFunctionMessage_new :: "nat \<Rightarrow> 'f \<Rightarrow> ('f, 'e, 'v) message" where
  "OneWayFunctionMessage_new cpu fn = Message_new OneWayFunctionMessage cpu True fn"

text \<open>\<open>process\<close>, given how the function ends: with an exception or a value.\<close>

definition LambdaMessage_process :: "'e + 'v \<Rightarrow> ('f, 'e, 'v) message \<Rightarrow> ('f, 'e, 'v) message" where
  "LambdaMessage_process ended m =
     (case ended of Inl e \<Rightarrow> m\<lparr>msg_exception := Some e\<rparr> | Inr v \<Rightarrow> m\<lparr>msg_result := Some v\<rparr>)\<lparr>msg_return := True\<rparr>"

definition FiberLambdaMessage_process :: "'e + 'v \<Rightarrow> ('f, 'e, 'v) message \<Rightarrow> ('f, 'e, 'v) message" where
  "FiberLambdaMessage_process ended m =
     (case ended of Inl e \<Rightarrow> m\<lparr>msg_exception := Some e\<rparr> | Inr v \<Rightarrow> m\<lparr>msg_result := Some v\<rparr>)\<lparr>msg_return := True\<rparr>"

definition OneWayFunctionMessage_process :: "'e + 'v \<Rightarrow> ('f, 'e, 'v) message \<Rightarrow> ('f, 'e, 'v) message" where
  "OneWayFunctionMessage_process ended m = (case ended of Inl e \<Rightarrow> m\<lparr>msg_exception := Some e\<rparr> | Inr v \<Rightarrow> m)"

definition message_process :: "'e + 'v \<Rightarrow> ('f, 'e, 'v) message \<Rightarrow> ('f, 'e, 'v) message" where
  "message_process ended m =
     (case msg_class m of
        FiberLambdaMessage f \<Rightarrow> FiberLambdaMessage_process ended m
      | OneWayLambdaMessage \<Rightarrow> LambdaMessage_process ended m
      | OneWayFunctionMessage \<Rightarrow> OneWayFunctionMessage_process ended m
      | AppLambdaMessage \<Rightarrow> LambdaMessage_process ended m)"

text \<open>\<open>finish\<close>: what it does to the fiber that waits or to the message itself.\<close>

datatype finish_effect = Resume nat | Delete_this | Rethrow | No_effect

definition FiberMessage_finish :: "nat \<Rightarrow> finish_effect" where
  "FiberMessage_finish fiber_context = Resume fiber_context"

definition OneWayLambdaMessage_finish :: "('f, 'e, 'v) message \<Rightarrow> finish_effect" where
  "OneWayLambdaMessage_finish m = (if msg_exception m \<noteq> None then Rethrow else Delete_this)"

definition OneWayFunctionMessage_finish :: "('f, 'e, 'v) message \<Rightarrow> finish_effect" where
  "OneWayFunctionMessage_finish m = (if msg_exception m \<noteq> None then Rethrow else Delete_this)"

definition AppLambdaMessage_finish :: finish_effect where
  "AppLambdaMessage_finish = No_effect"

definition message_finish :: "('f, 'e, 'v) message \<Rightarrow> finish_effect" where
  "message_finish m =
     (case msg_class m of
        FiberLambdaMessage f \<Rightarrow> FiberMessage_finish f
      | OneWayLambdaMessage \<Rightarrow> OneWayLambdaMessage_finish m
      | OneWayFunctionMessage \<Rightarrow> OneWayFunctionMessage_finish m
      | AppLambdaMessage \<Rightarrow> AppLambdaMessage_finish)"

text \<open>\<open>result\<close>: the exception is thrown again; \<open>Inr None\<close> is a \<open>result_\<close> that was never assigned.\<close>

definition message_result :: "('f, 'e, 'v) message \<Rightarrow> 'e + 'v option" where
  "message_result m = (case msg_exception m of Some e \<Rightarrow> Inl e | None \<Rightarrow> Inr (msg_result m))"

subsection \<open>The reactors\<close>

text \<open>A fiber of a reactor and the message it handles, if any. \<open>Sending\<close> is a call of \<open>submit_to\<close> with
  what follows it.\<close>

datatype then_do = Then_wait | Then_go_on | Then_end | Then_shutdown nat

datatype fiber_pc =
    Looping | Loop_finished
  | Starting nat | Running "nat option" | Shutting_down nat "nat option"
  | Sending nat nat then_do "nat option"
  | Waiting nat "nat option" | Woken nat "nat option"
  | Ended | Gone

text \<open>Fiber \<open>r\<close> is the event loop of reactor \<open>r\<close>. For the properties: the reactor each message was
  first sent to, how the functions ended and where, and what the calls of \<open>run_at\<close> returned.\<close>

record ('f, 'e, 'v) application =
  ap_cpus :: nat
  ap_capacity :: nat
  ap_hook :: 'f
  ap_heap :: "nat \<Rightarrow> ('f, 'e, 'v) message option"
  ap_next :: nat
  ap_inbox :: "nat \<Rightarrow> nat list"
  ap_pc :: "nat \<Rightarrow> fiber_pc"
  ap_home :: "nat \<Rightarrow> nat"
  ap_fibers :: nat
  ap_active :: "nat \<Rightarrow> nat"
  ap_ready :: "nat \<Rightarrow> nat list"
  ap_running :: "nat \<Rightarrow> bool"
  ap_target :: "nat \<Rightarrow> nat"
  ap_ran :: "(nat \<times> nat \<times> ('e + 'v)) list"
  ap_got :: "(nat \<times> nat \<times> ('e + 'v option)) list"

datatype ap_fault = Message_freed | Not_waiting | Terminated | Invalid_cpu

abbreviation at_pc :: "nat \<Rightarrow> fiber_pc \<Rightarrow> ('f, 'e, 'v) application \<Rightarrow> ('f, 'e, 'v) application" where
  "at_pc f p s \<equiv> s\<lparr>ap_pc := (ap_pc s)(f := p)\<rparr>"

text \<open>\<open>Scheduler\<close>: the algorithm of a reactor's fibers.\<close>

definition rs_awakened :: "nat \<Rightarrow> ('f, 'e, 'v) application \<Rightarrow> ('f, 'e, 'v) application" where
  "rs_awakened f s = s\<lparr>ap_ready := (ap_ready s)(ap_home s f := ap_ready s (ap_home s f) @ [f])\<rparr>"

definition rs_pick_next :: "nat \<Rightarrow> ('f, 'e, 'v) application \<Rightarrow> ('f, 'e, 'v) application" where
  "rs_pick_next r s =
     (case ap_ready s r of
        [] \<Rightarrow> s
      | f # fs \<Rightarrow> s\<lparr>ap_ready := (ap_ready s)(r := fs), ap_active := (ap_active s)(r := f)\<rparr>)"

definition rs_suspend :: "nat \<Rightarrow> fiber_pc \<Rightarrow> ('f, 'e, 'v) application \<Rightarrow> ('f, 'e, 'v) application" where
  "rs_suspend r p s = rs_pick_next r (at_pc (ap_active s r) p s)"

definition rs_resume :: "nat \<Rightarrow> ('f, 'e, 'v) application \<Rightarrow> ap_fault + ('f, 'e, 'v) application" where
  "rs_resume f s =
     (case ap_pc s f of
        Waiting a w \<Rightarrow> Inr (rs_awakened f (at_pc f (Woken a w) s))
      | _ \<Rightarrow> Inl Not_waiting)"

definition rs_yield :: "nat \<Rightarrow> ('f, 'e, 'v) application \<Rightarrow> ('f, 'e, 'v) application" where
  "rs_yield r s = rs_pick_next r (rs_awakened (ap_active s r) s)"

text \<open>A fiber with \<open>launch::post\<close>, and the contexts of a reactor: its main and dispatcher context and
  those not yet destroyed.\<close>

definition new_fiber :: "nat \<Rightarrow> fiber_pc \<Rightarrow> ('f, 'e, 'v) application \<Rightarrow> ('f, 'e, 'v) application" where
  "new_fiber r p s =
     rs_awakened (ap_fibers s)
       (s\<lparr>ap_fibers := Suc (ap_fibers s), ap_home := (ap_home s)(ap_fibers s := r), ap_pc := (ap_pc s)(ap_fibers s := p)\<rparr>)"

definition ap_contexts :: "nat \<Rightarrow> ('f, 'e, 'v) application \<Rightarrow> nat" where
  "ap_contexts r s =
     2 + length (filter (\<lambda>f. ap_home s f = r \<and> ap_pc s f \<noteq> Gone) [ap_cpus s..<ap_fibers s])"

definition new_message ::
  "nat \<Rightarrow> ('f, 'e, 'v) message \<Rightarrow> ('f, 'e, 'v) application \<Rightarrow> ('f, 'e, 'v) application" where
  "new_message target m s = s\<lparr>ap_heap := (ap_heap s)(ap_next s \<mapsto> m), ap_next := Suc (ap_next s),
     ap_target := (ap_target s)(ap_next s := target)\<rparr>"

text \<open>\<open>submit_to\<close>; \<open>None\<close>: the inbox is full and the caller spins.\<close>

definition submit_to :: "nat \<Rightarrow> nat \<Rightarrow> ('f, 'e, 'v) application \<Rightarrow> ('f, 'e, 'v) application option" where
  "submit_to cpu a s =
     (if length (ap_inbox s cpu) < ap_capacity s
      then Some (s\<lparr>ap_inbox := (ap_inbox s)(cpu := ap_inbox s cpu @ [a])\<rparr>) else None)"

definition finish_message :: "nat \<Rightarrow> ('f, 'e, 'v) application \<Rightarrow> ap_fault + ('f, 'e, 'v) application" where
  "finish_message a s =
     (case ap_heap s a of
        None \<Rightarrow> Inl Message_freed
      | Some m \<Rightarrow>
          (case message_finish m of
             Resume f \<Rightarrow> rs_resume f s
           | Delete_this \<Rightarrow> Inr (s\<lparr>ap_heap := (ap_heap s)(a := None)\<rparr>)
           | Rethrow \<Rightarrow> Inl Terminated
           | No_effect \<Rightarrow> Inr s))"

text \<open>The body of the event loop: \<open>process_fn\<close> on every message of the inbox.\<close>

definition process_fn :: "nat \<Rightarrow> nat \<Rightarrow> ('f, 'e, 'v) application \<Rightarrow> ap_fault + ('f, 'e, 'v) application" where
  "process_fn r a s =
     (case ap_heap s a of
        None \<Rightarrow> Inl Message_freed
      | Some m \<Rightarrow> if msg_return m then finish_message a s else Inr (new_fiber r (Starting a) s))"

fun process_all :: "nat \<Rightarrow> nat list \<Rightarrow> ('f, 'e, 'v) application \<Rightarrow> ap_fault + ('f, 'e, 'v) application" where
  "process_all r [] s = Inr s"
| "process_all r (a # as) s = (case process_fn r a s of Inl e \<Rightarrow> Inl e | Inr s \<Rightarrow> process_all r as s)"

definition receive_all :: "nat \<Rightarrow> ('f, 'e, 'v) application \<Rightarrow> ap_fault + ('f, 'e, 'v) application" where
  "receive_all r s = process_all r (ap_inbox s r) (s\<lparr>ap_inbox := (ap_inbox s)(r := [])\<rparr>)"

text \<open>One round of the loop of \<open>event_loop\<close>.\<close>

definition event_loop_round :: "nat \<Rightarrow> ('f, 'e, 'v) application \<Rightarrow> ap_fault + ('f, 'e, 'v) application" where
  "event_loop_round r s =
     (if ap_running s r \<or> ap_contexts r s > 2
      then (case receive_all r s of Inl e \<Rightarrow> Inl e | Inr s \<Rightarrow> Inr (rs_yield r s))
      else Inr (at_pc (ap_active s r) Loop_finished s))"

text \<open>The calls an application function makes, each up to its \<open>submit_to\<close>.\<close>

definition run_at :: "nat \<Rightarrow> nat \<Rightarrow> 'f \<Rightarrow> nat option \<Rightarrow> ('f, 'e, 'v) application \<Rightarrow> ap_fault + ('f, 'e, 'v) application" where
  "run_at r target_cpu task w s =
     (if target_cpu < ap_cpus s
      then Inr (at_pc (ap_active s r) (Sending target_cpu (ap_next s) Then_wait w)
        (new_message target_cpu (make_fiber_lambda_message r (ap_active s r) task) s))
      else Inl Invalid_cpu)"

definition run_at_async :: "nat \<Rightarrow> nat \<Rightarrow> 'f \<Rightarrow> nat option \<Rightarrow> ('f, 'e, 'v) application \<Rightarrow> ap_fault + ('f, 'e, 'v) application" where
  "run_at_async r target_cpu task w s =
     (if target_cpu < ap_cpus s
      then Inr (at_pc (ap_active s r) (Sending target_cpu (ap_next s) Then_go_on w)
        (new_message target_cpu (make_one_way_lambda_message r task) s))
      else Inl Invalid_cpu)"

definition reactor_stop :: "nat \<Rightarrow> ('f, 'e, 'v) application \<Rightarrow> ('f, 'e, 'v) application" where
  "reactor_stop r s = s\<lparr>ap_running := (ap_running s)(r := False)\<rparr>"

text \<open>\<open>shutdown\<close>: the message for the next reactor.\<close>

definition shutdown_next :: "nat \<Rightarrow> nat \<Rightarrow> nat option \<Rightarrow> ('f, 'e, 'v) application \<Rightarrow> ('f, 'e, 'v) application" where
  "shutdown_next r c w s =
     (if c < ap_cpus s
      then at_pc (ap_active s r) (Sending c (ap_next s) (Then_shutdown (Suc c)) w)
        (new_message c (OneWayFunctionMessage_new c (ap_hook s)) s)
      else at_pc (ap_active s r) (Running w) s)"

text \<open>The function of a fiber is over: the rest of what \<open>process_fn\<close> started.\<close>

definition end_fiber :: "nat \<Rightarrow> ('f, 'e, 'v) application \<Rightarrow> ('f, 'e, 'v) application" where
  "end_fiber r s = rs_suspend r Ended s"

definition function_returns ::
  "nat \<Rightarrow> nat \<Rightarrow> 'e + 'v \<Rightarrow> ('f, 'e, 'v) application \<Rightarrow> ap_fault + ('f, 'e, 'v) application" where
  "function_returns r a ended s =
     (case ap_heap s a of
        None \<Rightarrow> Inl Message_freed
      | Some m \<Rightarrow>
          (let s = s\<lparr>ap_heap := (ap_heap s)(a \<mapsto> message_process ended m), ap_ran := ap_ran s @ [(a, r, ended)]\<rparr> in
           if \<not> msg_one_way m then Inr (at_pc (ap_active s r) (Sending (msg_cpu m) a Then_end None) s)
           else (case finish_message a s of Inl e \<Rightarrow> Inl e | Inr s \<Rightarrow> Inr (end_fiber r s))))"

text \<open>The rest of \<open>run_at\<close> after its fiber has been resumed: the result, and the message is deleted.\<close>

definition run_at_resumed :: "nat \<Rightarrow> nat \<Rightarrow> nat option \<Rightarrow> ('f, 'e, 'v) application \<Rightarrow> ap_fault + ('f, 'e, 'v) application" where
  "run_at_resumed r a w s =
     (case ap_heap s a of
        None \<Rightarrow> Inl Message_freed
      | Some m \<Rightarrow> Inr (at_pc (ap_active s r) (Running w)
          (s\<lparr>ap_got := ap_got s @ [(ap_active s r, a, message_result m)], ap_heap := (ap_heap s)(a := None)\<rparr>)))"

definition sent :: "nat \<Rightarrow> nat \<Rightarrow> then_do \<Rightarrow> nat option \<Rightarrow> ('f, 'e, 'v) application \<Rightarrow> ('f, 'e, 'v) application" where
  "sent r a k w s =
     (case k of
        Then_wait \<Rightarrow> rs_suspend r (Waiting a w) s
      | Then_go_on \<Rightarrow> at_pc (ap_active s r) (Running w) s
      | Then_end \<Rightarrow> end_fiber r s
      | Then_shutdown c \<Rightarrow> at_pc (ap_active s r) (Shutting_down c w) s)"

text \<open>What the active fiber of a reactor does on its own.\<close>

definition go_on :: "nat \<Rightarrow> ('f, 'e, 'v) application \<Rightarrow> (ap_fault + ('f, 'e, 'v) application) option" where
  "go_on r s =
     (case ap_pc s (ap_active s r) of
        Looping \<Rightarrow> Some (event_loop_round r s)
      | Starting a \<Rightarrow> Some (Inr (at_pc (ap_active s r) (Running (Some a)) s))
      | Shutting_down c w \<Rightarrow> Some (Inr (shutdown_next r c w s))
      | Sending cpu a k w \<Rightarrow> map_option (\<lambda>s. Inr (sent r a k w s)) (submit_to cpu a s)
      | Woken a w \<Rightarrow> Some (run_at_resumed r a w s)
      | _ \<Rightarrow> None)"

text \<open>What may happen: the active fiber of a reactor goes on, or its function makes a call or returns;
  or the dispatcher destroys the context of a fiber that has ended.\<close>

datatype ('f, 'e, 'v) ap_event =
    Go_on nat | Run_at nat nat 'f | Run_at_async nat nat 'f | Shutdown nat | Stop nat | Launch nat | Yield nat
  | Returns nat "'e + 'v" | Destroy nat

fun reactor_of :: "('f, 'e, 'v) ap_event \<Rightarrow> nat option" where
  "reactor_of (Go_on r) = Some r" | "reactor_of (Run_at r t fn) = Some r" | "reactor_of (Run_at_async r t fn) = Some r"
| "reactor_of (Shutdown r) = Some r" | "reactor_of (Stop r) = Some r" | "reactor_of (Launch r) = Some r"
| "reactor_of (Yield r) = Some r" | "reactor_of (Returns r e) = Some r" | "reactor_of (Destroy f) = None"

definition call :: "nat \<Rightarrow> ('f, 'e, 'v) ap_event \<Rightarrow> nat option \<Rightarrow> ('f, 'e, 'v) application \<Rightarrow>
    (ap_fault + ('f, 'e, 'v) application) option" where
  "call r e w s =
     (case e of
        Run_at r t fn \<Rightarrow> Some (run_at r t fn w s)
      | Run_at_async r t fn \<Rightarrow> Some (run_at_async r t fn w s)
      | Shutdown r \<Rightarrow> Some (Inr (at_pc (ap_active s r) (Shutting_down 0 w) s))
      | Stop r \<Rightarrow> Some (Inr (reactor_stop r s))
      | Launch r \<Rightarrow> Some (Inr (new_fiber r (Running None) s))
      | Yield r \<Rightarrow> Some (Inr (rs_yield r s))
      | Returns r ended \<Rightarrow> Some (case w of
             None \<Rightarrow> (case ended of Inl e \<Rightarrow> Inl Terminated | Inr v \<Rightarrow> Inr (end_fiber r s))
           | Some a \<Rightarrow> function_returns r a ended s)
      | _ \<Rightarrow> None)"

definition ap_step :: "('f, 'e, 'v) ap_event \<Rightarrow> ('f, 'e, 'v) application \<Rightarrow> (ap_fault + ('f, 'e, 'v) application) option" where
  "ap_step e s =
     (case reactor_of e of
        None \<Rightarrow> (case e of Destroy f \<Rightarrow> if ap_pc s f = Ended then Some (Inr (at_pc f Gone s)) else None | _ \<Rightarrow> None)
      | Some r \<Rightarrow>
          if r < ap_cpus s then
            (case e of
               Go_on _ \<Rightarrow> go_on r s
             | _ \<Rightarrow> (case ap_pc s (ap_active s r) of Running w \<Rightarrow> call r e w s | _ \<Rightarrow> None))
          else None)"

text \<open>The application after its constructor and the submission of \<open>run\<close>'s function to reactor 0: each reactor is at
  its event loop.\<close>

definition application_run :: "nat \<Rightarrow> nat \<Rightarrow> 'f \<Rightarrow> 'f \<Rightarrow> ('f, 'e, 'v) application" where
  "application_run cpus capacity hook fn = \<lparr>ap_cpus = cpus, ap_capacity = capacity, ap_hook = hook,
     ap_heap = [0 \<mapsto> make_special_one_way_lambda_message 0 fn], ap_next = 1,
     ap_inbox = (\<lambda>_. [])(0 := [0]), ap_pc = (\<lambda>f. if f < cpus then Looping else Gone), ap_home = id,
     ap_fibers = cpus, ap_active = id, ap_ready = (\<lambda>_. []), ap_running = (\<lambda>_. True), ap_target = (\<lambda>_. 0),
     ap_ran = [], ap_got = []\<rparr>"

inductive ap_reach :: "nat \<Rightarrow> nat \<Rightarrow> 'f \<Rightarrow> 'f \<Rightarrow> ('f, 'e, 'v) application \<Rightarrow> bool" for cpus capacity hook fn where
  start: "ap_reach cpus capacity hook fn (application_run cpus capacity hook fn)"
| step: "ap_reach cpus capacity hook fn s \<Longrightarrow> ap_step e s = Some (Inr t) \<Longrightarrow> ap_reach cpus capacity hook fn t"

fun ap_run :: "('f, 'e, 'v) ap_event list \<Rightarrow> ('f, 'e, 'v) application \<Rightarrow> (ap_fault + ('f, 'e, 'v) application) option" where
  "ap_run [] s = Some (Inr s)"
| "ap_run (e # es) s = (case ap_step e s of Some (Inr t) \<Rightarrow> ap_run es t | r \<Rightarrow> r)"

lemma ap_run_reach: "ap_reach n c h fn s \<Longrightarrow> ap_run es s = Some (Inr t) \<Longrightarrow> ap_reach n c h fn t"
  by (induction es arbitrary: s) (auto intro: ap_reach.step split: option.splits sum.splits)

end
