(* ===== verification/Reactor_Delivery.thy ===== *)
theory Reactor_Delivery
  imports Reactor_Messages
begin

text \<open>
  What the messages of the reactors guarantee: no message is used after it has been deleted, a call of
  \<open>run_at\<close> returns what its function returned, run once and on the reactor it was sent to, and every
  message that somebody waits for is somewhere.
\<close>

subsection \<open>Where a message is\<close>

text \<open>Each message is in one inbox, with one fiber that sends or handles it, or nowhere: it is over.\<close>

datatype place = Nowhere | In_inbox nat | At_fiber nat

fun work :: "fiber_pc \<Rightarrow> nat option" where
  "work (Starting a) = Some a"
| "work (Running w) = w"
| "work (Shutting_down c w) = w"
| "work (Sending t a k w) = w"
| "work (Waiting a w) = w"
| "work (Woken a w) = w"
| "work _ = None"

fun sends :: "fiber_pc \<Rightarrow> nat option" where
  "sends (Sending t a k w) = Some a"
| "sends _ = None"

text \<open>The message of the call of \<open>run_at\<close> the fiber is in.\<close>

fun awaited :: "fiber_pc \<Rightarrow> nat option" where
  "awaited (Sending t a Then_wait w) = Some a"
| "awaited (Waiting a w) = Some a"
| "awaited (Woken a w) = Some a"
| "awaited _ = None"

definition requests :: "(nat \<Rightarrow> ('f, 'e, 'v) message option) \<Rightarrow> nat \<Rightarrow> bool" where
  "requests H a \<longleftrightarrow> (\<exists>m. H a = Some m \<and> \<not> msg_return m)"

definition replies :: "(nat \<Rightarrow> ('f, 'e, 'v) message option) \<Rightarrow> nat \<Rightarrow> bool" where
  "replies H a \<longleftrightarrow> (\<exists>m. H a = Some m \<and> msg_return m \<and> \<not> msg_one_way m)"

lemma requests_simps [simp]:
  "requests (H(a \<mapsto> m)) b \<longleftrightarrow> (if b = a then \<not> msg_return m else requests H b)"
  "replies (H(a \<mapsto> m)) b \<longleftrightarrow> (if b = a then msg_return m \<and> \<not> msg_one_way m else replies H b)"
  "requests (H(a := None)) b \<longleftrightarrow> b \<noteq> a \<and> requests H b" "replies (H(a := None)) b \<longleftrightarrow> b \<noteq> a \<and> replies H b"
  by (auto simp: requests_def replies_def)

text \<open>A fiber: what it handles is a request for its reactor; what it sends first is one for the
  target, what it sends last the reply.\<close>

definition fiber_ok :: "(nat \<Rightarrow> place) \<Rightarrow> ('f, 'e, 'v) application \<Rightarrow> nat \<Rightarrow> bool" where
  "fiber_ok loc s f \<longleftrightarrow>
     (\<forall>a. work (ap_pc s f) = Some a \<longrightarrow> loc a = At_fiber f \<and> requests (ap_heap s) a \<and> ap_target s a = ap_home s f \<and> sends (ap_pc s f) \<noteq> Some a) \<and>
     (\<forall>t a k w. ap_pc s f = Sending t a k w \<longrightarrow> loc a = At_fiber f \<and>
        (if k = Then_end then w = None \<and> replies (ap_heap s) a \<and> map_option msg_cpu (ap_heap s a) = Some t
         else requests (ap_heap s) a \<and> t = ap_target s a)) \<and>
     (\<forall>a. awaited (ap_pc s f) = Some a \<longrightarrow> map_option msg_class (ap_heap s a) = Some (FiberLambdaMessage f)) \<and>
     (\<forall>a w. ap_pc s f = Waiting a w \<longrightarrow> loc a \<noteq> Nowhere) \<and>
     (\<forall>a w. ap_pc s f = Woken a w \<longrightarrow> loc a = Nowhere \<and> replies (ap_heap s) a)"

definition ended_as :: "'e + 'v \<Rightarrow> 'e + 'v option \<Rightarrow> bool" where
  "ended_as ended res \<longleftrightarrow> res = (case ended of Inl e \<Rightarrow> Inl e | Inr v \<Rightarrow> Inr (Some v))"

text \<open>A message.\<close>

definition content_ok :: "place \<Rightarrow> ('f, 'e, 'v) application \<Rightarrow> nat \<Rightarrow> ('f, 'e, 'v) message \<Rightarrow> bool" where
  "content_ok l s a m \<longleftrightarrow>
     (\<forall>f. msg_class m = FiberLambdaMessage f \<longrightarrow>
        \<not> msg_one_way m \<and> msg_cpu m = ap_home s f \<and> awaited (ap_pc s f) = Some a) \<and>
     ((\<forall>f. msg_class m \<noteq> FiberLambdaMessage f) \<longrightarrow> msg_one_way m \<and> (msg_return m \<longrightarrow> l = Nowhere)) \<and>
     (\<forall>r. l = In_inbox r \<longrightarrow> r = (if msg_return m then msg_cpu m else ap_target s a)) \<and>
     (\<not> msg_return m \<longrightarrow> msg_exception m = None) \<and>
     (msg_return m \<longrightarrow> (\<exists>r ended. (a, r, ended) \<in> set (ap_ran s) \<and> ended_as ended (message_result m)))"

definition message_ok :: "(nat \<Rightarrow> place) \<Rightarrow> ('f, 'e, 'v) application \<Rightarrow> nat \<Rightarrow> bool" where
  "message_ok loc s a \<longleftrightarrow>
     (\<forall>r. a \<in> set (ap_inbox s r) \<longleftrightarrow> loc a = In_inbox r) \<and>
     (\<forall>f. loc a = At_fiber f \<longrightarrow> work (ap_pc s f) = Some a \<or> sends (ap_pc s f) = Some a) \<and>
     (loc a \<noteq> Nowhere \<longrightarrow> ap_heap s a \<noteq> None) \<and> (ap_heap s a \<noteq> None \<longrightarrow> a < ap_next s) \<and>
     (\<forall>m. ap_heap s a = Some m \<longrightarrow> content_ok (loc a) s a m)"

definition logs_ok :: "('f, 'e, 'v) application \<Rightarrow> bool" where
  "logs_ok s \<longleftrightarrow>
     distinct (map fst (ap_ran s)) \<and>
     (\<forall>(a, r, ended) \<in> set (ap_ran s). a < ap_next s \<and> r = ap_target s a \<and> \<not> requests (ap_heap s) a) \<and>
     (\<forall>(f, a, res) \<in> set (ap_got s). a < ap_next s \<and> (\<exists>r ended. (a, r, ended) \<in> set (ap_ran s) \<and> ended_as ended res))"

definition delivery :: "(nat \<Rightarrow> place) \<Rightarrow> ('f, 'e, 'v) application \<Rightarrow> bool" where
  "delivery loc s \<longleftrightarrow> (\<forall>f. fiber_ok loc s f) \<and> (\<forall>a. message_ok loc s a) \<and> (\<forall>r. distinct (ap_inbox s r)) \<and> logs_ok s"

lemma deliveryD:
  assumes "delivery loc s"
  shows "work (ap_pc s f) = Some a \<Longrightarrow> loc a = At_fiber f \<and> requests (ap_heap s) a \<and> ap_target s a = ap_home s f \<and> sends (ap_pc s f) \<noteq> Some a"
    and "ap_pc s f = Sending t a k w \<Longrightarrow> loc a = At_fiber f"
    and "ap_pc s f = Sending t a k w \<Longrightarrow> k = Then_end \<Longrightarrow> w = None \<and> replies (ap_heap s) a \<and> map_option msg_cpu (ap_heap s a) = Some t"
    and "ap_pc s f = Sending t a k w \<Longrightarrow> k \<noteq> Then_end \<Longrightarrow> requests (ap_heap s) a \<and> t = ap_target s a"
    and "awaited (ap_pc s f) = Some a \<Longrightarrow> map_option msg_class (ap_heap s a) = Some (FiberLambdaMessage f)"
    and "ap_pc s f = Waiting a w \<Longrightarrow> loc a \<noteq> Nowhere"
    and "ap_pc s f = Woken a w \<Longrightarrow> loc a = Nowhere \<and> replies (ap_heap s) a"
    and "a \<in> set (ap_inbox s r) \<longleftrightarrow> loc a = In_inbox r"
    and "loc a = At_fiber f \<Longrightarrow> work (ap_pc s f) = Some a \<or> sends (ap_pc s f) = Some a"
    and "loc a \<noteq> Nowhere \<Longrightarrow> ap_heap s a \<noteq> None" and "ap_heap s a = Some m \<Longrightarrow> a < ap_next s"
    and "ap_heap s a = Some m \<Longrightarrow> msg_class m = FiberLambdaMessage f \<Longrightarrow>
      \<not> msg_one_way m \<and> msg_cpu m = ap_home s f \<and> awaited (ap_pc s f) = Some a"
    and "ap_heap s a = Some m \<Longrightarrow> (\<And>f. msg_class m \<noteq> FiberLambdaMessage f) \<Longrightarrow> msg_one_way m \<and> (msg_return m \<longrightarrow> loc a = Nowhere)"
    and "ap_heap s a = Some m \<Longrightarrow> loc a = In_inbox r \<Longrightarrow> r = (if msg_return m then msg_cpu m else ap_target s a)"
    and "ap_heap s a = Some m \<Longrightarrow> \<not> msg_return m \<Longrightarrow> msg_exception m = None"
    and "ap_heap s a = Some m \<Longrightarrow> msg_return m \<Longrightarrow> \<exists>r ended. (a, r, ended) \<in> set (ap_ran s) \<and> ended_as ended (message_result m)"
    and "distinct (ap_inbox s r)" "logs_ok s"
proof -
  have F: "fiber_ok loc s f" and A: "message_ok loc s a" and I: "distinct (ap_inbox s r)" "logs_ok s"
    using assms by (simp_all add: delivery_def)
  show "work (ap_pc s f) = Some a \<Longrightarrow> loc a = At_fiber f \<and> requests (ap_heap s) a \<and> ap_target s a = ap_home s f \<and> sends (ap_pc s f) \<noteq> Some a"
    using F by (simp add: fiber_ok_def)
  show "ap_pc s f = Sending t a k w \<Longrightarrow> loc a = At_fiber f" using F by (simp add: fiber_ok_def)
  show "ap_pc s f = Sending t a k w \<Longrightarrow> k = Then_end \<Longrightarrow> w = None \<and> replies (ap_heap s) a \<and> map_option msg_cpu (ap_heap s a) = Some t"
    using F by (simp add: fiber_ok_def)
  show "ap_pc s f = Sending t a k w \<Longrightarrow> k \<noteq> Then_end \<Longrightarrow> requests (ap_heap s) a \<and> t = ap_target s a"
    using F by (simp add: fiber_ok_def)
  show "awaited (ap_pc s f) = Some a \<Longrightarrow> map_option msg_class (ap_heap s a) = Some (FiberLambdaMessage f)"
    using F by (simp add: fiber_ok_def)
  show "ap_pc s f = Waiting a w \<Longrightarrow> loc a \<noteq> Nowhere" "ap_pc s f = Woken a w \<Longrightarrow> loc a = Nowhere \<and> replies (ap_heap s) a"
    using F by (simp_all add: fiber_ok_def)
  show "a \<in> set (ap_inbox s r) \<longleftrightarrow> loc a = In_inbox r" using A by (simp add: message_ok_def content_ok_def)
  show "loc a = At_fiber f \<Longrightarrow> work (ap_pc s f) = Some a \<or> sends (ap_pc s f) = Some a" using A by (simp add: message_ok_def content_ok_def)
  show "loc a \<noteq> Nowhere \<Longrightarrow> ap_heap s a \<noteq> None" "ap_heap s a = Some m \<Longrightarrow> a < ap_next s"
    using A by (simp_all add: message_ok_def content_ok_def)
  show "ap_heap s a = Some m \<Longrightarrow> msg_class m = FiberLambdaMessage f \<Longrightarrow>
      \<not> msg_one_way m \<and> msg_cpu m = ap_home s f \<and> awaited (ap_pc s f) = Some a" using A by (simp add: message_ok_def content_ok_def)
  show "ap_heap s a = Some m \<Longrightarrow> (\<And>f. msg_class m \<noteq> FiberLambdaMessage f) \<Longrightarrow> msg_one_way m \<and> (msg_return m \<longrightarrow> loc a = Nowhere)"
    using A by (simp add: message_ok_def content_ok_def)
  show "ap_heap s a = Some m \<Longrightarrow> loc a = In_inbox r \<Longrightarrow> r = (if msg_return m then msg_cpu m else ap_target s a)"
    using A by (simp add: message_ok_def content_ok_def)
  show "ap_heap s a = Some m \<Longrightarrow> \<not> msg_return m \<Longrightarrow> msg_exception m = None" using A by (simp add: message_ok_def content_ok_def)
  show "ap_heap s a = Some m \<Longrightarrow> msg_return m \<Longrightarrow> \<exists>r ended. (a, r, ended) \<in> set (ap_ran s) \<and> ended_as ended (message_result m)"
    using A by (simp add: message_ok_def content_ok_def)
qed (use assms in \<open>simp_all add: delivery_def\<close>)

text \<open>The queues of the scheduler and the flags do not matter.\<close>

lemma delivery_sched [simp]:
  "delivery loc (s\<lparr>ap_ready := q\<rparr>) = delivery loc s" "delivery loc (s\<lparr>ap_active := act\<rparr>) = delivery loc s"
  "delivery loc (s\<lparr>ap_running := b\<rparr>) = delivery loc s" "delivery loc (s\<lparr>ap_fibers := n\<rparr>) = delivery loc s"
  by (simp_all add: delivery_def fiber_ok_def message_ok_def content_ok_def logs_ok_def requests_def replies_def)

lemma delivery_switch [simp]:
  "delivery loc (rs_awakened f s) = delivery loc s" "delivery loc (rs_pick_next r s) = delivery loc s"
  "delivery loc (rs_yield r s) = delivery loc s"
  by (simp_all add: rs_yield_def rs_awakened_def rs_pick_next_def split: list.split)

subsection \<open>The moves of a message\<close>

text \<open>A fiber goes on with the same message.\<close>

lemma delivery_same:
  assumes "delivery loc s" and "work p = work (ap_pc s f)" "sends p = None" "sends (ap_pc s f) = None"
    "awaited p = None" "awaited (ap_pc s f) = None"
  shows "delivery loc (at_pc f p s)"
proof -
  have n: "p \<noteq> Sending t a k w" "p \<noteq> Waiting a w" "p \<noteq> Woken a w" for t a k w using assms(3,5) by auto
  have "fiber_ok loc (at_pc f p s) g" for g
    using assms(1) [unfolded delivery_def, THEN conjunct1, rule_format, of g] assms(2-) n
    by (cases "g = f") (simp_all add: fiber_ok_def)
  moreover have "message_ok loc (at_pc f p s) a" for a
    using assms(1) [unfolded delivery_def, THEN conjunct2, THEN conjunct1, rule_format, of a] assms(2-)
    unfolding message_ok_def content_ok_def by (auto)
  moreover have "logs_ok (at_pc f p s)" using deliveryD(18) [OF assms(1)] by (simp add: logs_ok_def)
  ultimately show ?thesis using assms(1) by (simp add: delivery_def)
qed

lemmas delivery_defs = fiber_ok_def message_ok_def content_ok_def requests_def replies_def

text \<open>A new message: its fiber is about to send it.\<close>

lemma delivery_alloc:
  assumes d: "delivery loc s" and p: "work (ap_pc s f) = w" "sends (ap_pc s f) = None" "awaited (ap_pc s f) = None"
    and m: "\<not> msg_return m" "msg_exception m = None" "k \<noteq> Then_end"
    and c: "if k = Then_wait then msg_class m = FiberLambdaMessage f \<and> \<not> msg_one_way m \<and> msg_cpu m = ap_home s f
      else msg_one_way m \<and> (\<forall>f. msg_class m \<noteq> FiberLambdaMessage f)"
  shows "delivery (loc(ap_next s := At_fiber f)) (at_pc f (Sending t (ap_next s) k w) (new_message t m s))"
    (is "delivery ?loc ?s")
proof -
  note D = deliveryD [OF d]
  let ?a = "ap_next s"
  have free: "ap_heap s ?a = None" using D(11) [of ?a] by (cases "ap_heap s ?a") auto
  have nl: "loc ?a = Nowhere" using D(10) [of ?a] free by auto
  have nr: "\<not> requests (ap_heap s) ?a" "\<not> replies (ap_heap s) ?a" using free by (simp_all add: requests_def replies_def)
  have wn: "w \<noteq> Some ?a" using D(1) [of f ?a] nl p(1) by auto
  have fib: "fiber_ok ?loc ?s g" for g
  proof (cases "g = f")
    case True
    have "loc a = At_fiber f \<and> requests (ap_heap s) a \<and> ap_target s a = ap_home s f" if "w = Some a" for a
      using D(1) [of f a] that p(1) by simp
    with True wn m c free nr show ?thesis
      by (cases k) (auto simp: fiber_ok_def new_message_def)
  next
    case False
    have "work (ap_pc s g) \<noteq> Some ?a" using D(1) [of g ?a] nl by auto
    moreover have "ap_pc s g \<noteq> Sending t' ?a k' w'" for t' k' w' using D(2) [of g t' ?a k' w'] nl by auto
    moreover have "awaited (ap_pc s g) \<noteq> Some ?a" using D(5) [of g ?a] free by auto
    ultimately show ?thesis
      using False d [unfolded delivery_def, THEN conjunct1, rule_format, of g]
      by (auto simp: fiber_ok_def new_message_def split: if_splits)
  qed
  have msg: "message_ok ?loc ?s b" for b
  proof (cases "b = ?a")
    case True
    with m c D(8) [of b] nl show ?thesis
      by (cases k) (auto simp: message_ok_def content_ok_def new_message_def split: if_splits)
  next
    case False
    have "awaited (ap_pc s f) \<noteq> Some b" using p by simp
    with False p d [unfolded delivery_def, THEN conjunct2, THEN conjunct1, rule_format, of b] show ?thesis
      unfolding message_ok_def content_ok_def new_message_def by (auto split: if_splits)
  qed
  have "logs_ok ?s" using D(18) unfolding logs_ok_def by (fastforce simp: new_message_def)
  with fib msg D(17) show ?thesis by (simp add: delivery_def new_message_def)
qed

text \<open>A message is sent.\<close>

lemma delivery_send:
  assumes d: "delivery loc s" and p: "ap_pc s f = Sending t a k w"
    and p': "work p = w" "sends p = None" "awaited p = (if k = Then_wait then Some a else None)"
      "\<And>b v. p \<noteq> Woken b v" "\<And>c v. p = Waiting c v \<Longrightarrow> c = a"
  shows "delivery (loc(a := In_inbox t)) (at_pc f p (s\<lparr>ap_inbox := (ap_inbox s)(t := ap_inbox s t @ [a])\<rparr>))"
    (is "delivery ?loc ?s")
proof -
  note D = deliveryD [OF d]
  have l: "loc a = At_fiber f" by (rule D(2) [OF p])
  have aw: "awaited (ap_pc s f) = (if k = Then_wait then Some a else None)" using p by (cases k) auto
  have na: "w \<noteq> Some a" using D(1) [of f a] p by auto
  have fib: "fiber_ok ?loc ?s g" for g
  proof (cases "g = f")
    case True
    have "loc b = At_fiber f \<and> requests (ap_heap s) b \<and> ap_target s b = ap_home s f" if "w = Some b" for b
      using D(1) [of f b] that p by simp
    moreover have "map_option msg_class (ap_heap s b) = Some (FiberLambdaMessage f)" if "awaited p = Some b" for b
      using D(5) [of f b] that p'(3) aw by simp
    ultimately show ?thesis using True na p' by (auto simp: fiber_ok_def)
  next
    case False
    then have "work (ap_pc s g) \<noteq> Some a" using D(1) [of g a] l by auto
    moreover have "ap_pc s g \<noteq> Sending t' a k' w'" for t' k' w' using D(2) [of g t' a k' w'] l False by auto
    moreover have "ap_pc s g \<noteq> Woken a w'" for w' using D(7) [of g a w'] l by auto
    ultimately show ?thesis
      using False d [unfolded delivery_def, THEN conjunct1, rule_format, of g] by (auto simp: fiber_ok_def)
  qed
  have msg: "message_ok ?loc ?s b" for b
  proof (cases "b = a")
    case True
    have "t = (if msg_return m then msg_cpu m else ap_target s a)" if "ap_heap s a = Some m" for m
      using D(3,4) [OF p] that by (cases "k = Then_end") (auto simp: requests_def replies_def)
    moreover have "\<not> msg_return m" if "ap_heap s a = Some m" "\<forall>f. msg_class m \<noteq> FiberLambdaMessage f" for m
      using D(13) [of a m] that l by auto
    moreover have "awaited (ap_pc s g) = Some a \<Longrightarrow> g = f \<Longrightarrow> awaited p = Some a" for g using aw p'(3) by simp
    ultimately show ?thesis
      using True l D(8) [of a] d [unfolded delivery_def, THEN conjunct2, THEN conjunct1, rule_format, of b]
      unfolding message_ok_def content_ok_def by (auto split: if_splits)
  next
    case False
    have "work p = Some b \<or> sends p = Some b" if "loc b = At_fiber f" using D(9) [OF that] p p' False by auto
    moreover have "awaited (ap_pc s f) \<noteq> Some b" "awaited p \<noteq> Some b" using False p'(3) aw by auto
    ultimately show ?thesis
      using False p'(2) d [unfolded delivery_def, THEN conjunct2, THEN conjunct1, rule_format, of b]
      unfolding message_ok_def content_ok_def by auto
  qed
  have "distinct (ap_inbox ?s r)" for r using D(17) [of r] D(8) [of a t] l by auto
  moreover have "logs_ok ?s" using D(18) by (simp add: logs_ok_def)
  ultimately show ?thesis using fib msg by (simp add: delivery_def)
qed

text \<open>The next message of an inbox is a request: a fiber is started for it.\<close>

lemma delivery_start:
  assumes d: "delivery loc s" and i: "ap_inbox s r = a # as" and m: "ap_heap s a = Some m" "\<not> msg_return m"
    and g: "ap_pc s g = Gone"
  shows "delivery (loc(a := At_fiber g)) (s\<lparr>ap_inbox := (ap_inbox s)(r := as), ap_home := (ap_home s)(g := r),
    ap_pc := (ap_pc s)(g := Starting a)\<rparr>)" (is "delivery ?loc ?s")
proof -
  note D = deliveryD [OF d]
  have l: "loc a = In_inbox r" using D(8) [of a r] i by simp
  have as: "a \<notin> set as" "distinct as" using D(17) [of r] i by simp_all
  have t: "ap_target s a = r" using D(14) [OF m(1) l] m(2) by simp
  have fib: "fiber_ok ?loc ?s f" for f
  proof (cases "f = g")
    case True
    with m t show ?thesis by (simp add: fiber_ok_def requests_def)
  next
    case False
    have "work (ap_pc s f) \<noteq> Some a" using D(1) [of f a] l by auto
    moreover have "ap_pc s f \<noteq> Sending t' a k' w'" for t' k' w' using D(2) [of f t' a k' w'] l by auto
    moreover have "ap_pc s f \<noteq> Woken a w'" for w' using D(7) [of f a w'] l by auto
    ultimately show ?thesis
      using False d [unfolded delivery_def, THEN conjunct1, rule_format, of f] by (auto simp: fiber_ok_def)
  qed
  have msg: "message_ok ?loc ?s b" for b
  proof (cases "b = a")
    case True
    with as D(8) [of a] l m d [unfolded delivery_def, THEN conjunct2, THEN conjunct1, rule_format, of b] g show ?thesis
      unfolding message_ok_def content_ok_def by auto
  next
    case False
    have "loc b \<noteq> At_fiber g" using D(9) [of b g] g by auto
    moreover have "awaited (ap_pc s g) \<noteq> Some b" using g by simp
    moreover have "b \<in> set as \<longleftrightarrow> b \<in> set (ap_inbox s r)" using False i by simp
    ultimately show ?thesis
      using False d [unfolded delivery_def, THEN conjunct2, THEN conjunct1, rule_format, of b] g
      unfolding message_ok_def content_ok_def by auto
  qed
  have "distinct (ap_inbox ?s q)" for q using D(17) [of q] as by simp
  moreover have "logs_ok ?s" using D(18) by (simp add: logs_ok_def)
  ultimately show ?thesis using fib msg by (simp add: delivery_def)
qed

text \<open>It is a reply: the fiber that waits for it is resumed.\<close>

lemma delivery_reply:
  assumes d: "delivery loc s" and i: "ap_inbox s r = a # as" and m: "ap_heap s a = Some m" "msg_return m"
  obtains f w where "msg_class m = FiberLambdaMessage f" "ap_pc s f = Waiting a w"
    "delivery (loc(a := Nowhere)) (s\<lparr>ap_inbox := (ap_inbox s)(r := as), ap_pc := (ap_pc s)(f := Woken a w)\<rparr>)"
proof -
  note D = deliveryD [OF d]
  have l: "loc a = In_inbox r" using D(8) [of a r] i by simp
  have as: "a \<notin> set as" "distinct as" using D(17) [of r] i by simp_all
  obtain f where f: "msg_class m = FiberLambdaMessage f" using D(13) [OF m(1)] m(2) l by (cases "msg_class m") auto
  note F = D(12) [OF m(1) f]
  have nl: "ap_pc s g \<noteq> Sending t a k w" "ap_pc s g \<noteq> Woken a w" "work (ap_pc s g) \<noteq> Some a" for g t k w
    using D(2) [of g t a k w] D(7) [of g a w] D(1) [of g a] l by auto
  obtain w where p: "ap_pc s f = Waiting a w"
  proof (cases "ap_pc s f")
    case (Sending t b k v)
    with F nl(1) [of f t k v] show thesis by (cases k) auto
  qed (use F nl in auto)
  let ?loc = "loc(a := Nowhere)"
  let ?s = "s\<lparr>ap_inbox := (ap_inbox s)(r := as), ap_pc := (ap_pc s)(f := Woken a w)\<rparr>"
  have fib: "fiber_ok ?loc ?s g" for g
  proof (cases "g = f")
    case True
    have "loc b = At_fiber f \<and> requests (ap_heap s) b \<and> ap_target s b = ap_home s f" if "w = Some b" for b
      using D(1) [of f b] that p by simp
    moreover have "w \<noteq> Some a" using nl(3) [of f] p by simp
    ultimately show ?thesis using True m f F by (simp add: fiber_ok_def replies_def)
  next
    case False
    have "ap_pc s g \<noteq> Waiting a v" for v using D(5) [of g a] m(1) f False by auto
    with nl False d [unfolded delivery_def, THEN conjunct1, rule_format, of g] show ?thesis
      by (auto simp: fiber_ok_def)
  qed
  have msg: "message_ok ?loc ?s b" for b
  proof (cases "b = a")
    case True
    with as D(8) [of a] l m f F d [unfolded delivery_def, THEN conjunct2, THEN conjunct1, rule_format, of b] show ?thesis
      unfolding message_ok_def content_ok_def by auto
  next
    case False
    have "b \<in> set as \<longleftrightarrow> b \<in> set (ap_inbox s r)" using False i by simp
    with False p d [unfolded delivery_def, THEN conjunct2, THEN conjunct1, rule_format, of b] show ?thesis
      unfolding message_ok_def content_ok_def by auto
  qed
  have "distinct (ap_inbox ?s q)" for q using D(17) [of q] as by simp
  moreover have "logs_ok ?s" using D(18) by (simp add: logs_ok_def)
  ultimately have "delivery ?loc ?s" using fib msg by (simp add: delivery_def)
  with f p show thesis by (rule that)
qed

text \<open>A fiber of the application is started.\<close>

lemma delivery_launch:
  assumes d: "delivery loc s" and g: "ap_pc s g = Gone"
  shows "delivery loc (s\<lparr>ap_home := (ap_home s)(g := r), ap_pc := (ap_pc s)(g := Running None)\<rparr>)" (is "delivery loc ?s")
proof -
  note D = deliveryD [OF d]
  have "fiber_ok loc ?s f" for f
    using d [unfolded delivery_def, THEN conjunct1, rule_format, of f] by (cases "f = g") (auto simp: fiber_ok_def)
  moreover have "message_ok loc ?s b" for b
    using g D(9) [of b g] d [unfolded delivery_def, THEN conjunct2, THEN conjunct1, rule_format, of b]
    unfolding message_ok_def content_ok_def by auto
  moreover have "logs_ok ?s" using D(18) by (simp add: logs_ok_def)
  ultimately show ?thesis using D(17) by (simp add: delivery_def)
qed

text \<open>The function of a message has ended.\<close>

lemmas process_defs = message_process_def FiberLambdaMessage_process_def LambdaMessage_process_def OneWayFunctionMessage_process_def

lemma process_simps [simp]:
  "msg_class (message_process ended m) = msg_class m" "msg_cpu (message_process ended m) = msg_cpu m"
  "msg_one_way (message_process ended m) = msg_one_way m"
  "msg_return (message_process ended m) = (msg_return m \<or> msg_class m \<noteq> OneWayFunctionMessage)"
  by (simp_all add: process_defs split: message_class.split sum.split)

lemma process_result:
  "msg_exception m = None \<Longrightarrow> msg_class m \<noteq> OneWayFunctionMessage \<Longrightarrow> ended_as ended (message_result (message_process ended m))"
  by (simp add: process_defs message_result_def ended_as_def split: message_class.split sum.split)

lemma logs_ran:
  assumes "logs_ok s" "requests (ap_heap s) a" "a < ap_next s" "\<not> requests H a"
    "\<And>b. b \<noteq> a \<Longrightarrow> requests H b \<Longrightarrow> requests (ap_heap s) b"
  shows "logs_ok (s\<lparr>ap_heap := H, ap_pc := P, ap_ran := ap_ran s @ [(a, ap_target s a, ended)]\<rparr>)"
proof -
  have "a \<notin> fst ` set (ap_ran s)" using assms(1,2) by (fastforce simp: logs_ok_def)
  moreover have "\<not> requests H b" if "(b, q, e) \<in> set (ap_ran s)" for b q e
    using assms that by (cases "b = a") (auto simp: logs_ok_def)
  ultimately show ?thesis using assms unfolding logs_ok_def by (auto; blast)
qed

lemma delivery_returns:
  assumes d: "delivery loc s" and p: "ap_pc s f = Running (Some a)" and m: "ap_heap s a = Some m"
    and out: "\<not> msg_one_way m \<and> l' = loc a \<and> H = (ap_heap s)(a \<mapsto> message_process ended m) \<and> p' = Sending (msg_cpu m) a Then_end None
      \<or> msg_one_way m \<and> l' = Nowhere \<and> (H = (ap_heap s)(a := None) \<or>
          msg_class m \<noteq> OneWayFunctionMessage \<and> H = (ap_heap s)(a \<mapsto> message_process ended m)) \<and> p' = Ended"
  shows "delivery (loc(a := l')) (s\<lparr>ap_heap := H, ap_pc := (ap_pc s)(f := p'), ap_ran := ap_ran s @ [(a, ap_target s a, ended)]\<rparr>)"
    (is "delivery ?loc ?s")
proof -
  note D = deliveryD [OF d]
  have l: "loc a = At_fiber f" "requests (ap_heap s) a" using D(1) [of f a] p by simp_all
  then have nr: "\<not> msg_return m" using m by (simp add: requests_def)
  have cl: "\<not> msg_one_way m \<longleftrightarrow> (\<exists>g. msg_class m = FiberLambdaMessage g)" using D(12,13) [OF m] by blast
  have H: "H b = ap_heap s b" if "b \<noteq> a" for b using out that by auto
  have oth: "work (ap_pc s g) \<noteq> Some a \<and> sends (ap_pc s g) \<noteq> Some a" if "g \<noteq> f" for g
  proof -
    have "sends (ap_pc s g) \<noteq> Some a" using D(2) [of g _ a] l that by (cases "ap_pc s g") auto
    with D(1) [of g a] l that show ?thesis by auto
  qed
  have wk: "ap_pc s g \<noteq> Woken a w" for g w using D(7) [of g a w] l by auto
  have aw: "g \<noteq> f \<and> \<not> msg_one_way m" if "awaited (ap_pc s g) = Some a" for g
    using D(5) [OF that] m cl that p by auto
  have q: "requests H b = requests (ap_heap s) b" "replies H b = replies (ap_heap s) b" if "b \<noteq> a" for b
    using H [OF that] by (simp_all add: requests_def replies_def)
  have fib: "fiber_ok ?loc ?s g" for g
  proof (cases "g = f")
    case True
    with out p m l nr cl show ?thesis by (auto simp: fiber_ok_def)
  next
    case False
    have a2: "map_option msg_class (H b) = map_option msg_class (ap_heap s b)" if "awaited (ap_pc s g) = Some b" for b
      using aw [of g] that H [of b] out m by (cases "b = a") auto
    have wt: "l' \<noteq> Nowhere" if "ap_pc s g = Waiting a w" for w
      using aw [of g] that out l by auto
    have sd: "b \<noteq> a" if "ap_pc s g = Sending t b k w" for t b k w using oth [OF False] that by auto
    have wr: "b \<noteq> a" if "work (ap_pc s g) = Some b" for b using oth [OF False] that by auto
    have wo: "b \<noteq> a" if "ap_pc s g = Woken b w" for b w using wk [of g w] that by auto
    show ?thesis
      using False d [unfolded delivery_def, THEN conjunct1, rule_format, of g] a2 wt sd wr wo
      by (auto simp: fiber_ok_def q H)
  qed
  have msg: "message_ok ?loc ?s b" for b
  proof (cases "b = a")
    case True
    have "H a = Some m' \<Longrightarrow> ended_as ended (message_result m')" for m'
      using out process_result [of m ended] D(15) [OF m nr] cl by auto
    note R = this
    have i: "a \<in> set (ap_inbox s r) \<longleftrightarrow> l' = In_inbox r" for r using D(8) [of a r] l out by auto
    have at: "l' = At_fiber g \<Longrightarrow> g = f \<and> sends p' = Some a" for g using out l by auto
    have h: "l' \<noteq> Nowhere \<Longrightarrow> H a \<noteq> None" "a < ap_next s" "l' \<noteq> In_inbox r" for r using out l D(11) [OF m] by auto
    have m': "m' = message_process ended m \<and> msg_class m \<noteq> OneWayFunctionMessage" if "H a = Some m'" for m'
      using out that cl by auto
    have g: "awaited (ap_pc s g) = Some a \<and> g \<noteq> f \<and> msg_cpu m = ap_home s g \<and> \<not> msg_one_way m"
      if "msg_class m = FiberLambdaMessage g" for g using D(12) [OF m that] p by auto
    have o: "msg_one_way m \<and> l' = Nowhere" if "\<forall>g. msg_class m \<noteq> FiberLambdaMessage g" using out that cl by blast
    show ?thesis unfolding message_ok_def True
    proof (intro conjI allI)
      fix r show "(a \<in> set (ap_inbox ?s r)) = (?loc a = In_inbox r)" using i by simp
    next
      fix g show "?loc a = At_fiber g \<longrightarrow> work (ap_pc ?s g) = Some a \<or> sends (ap_pc ?s g) = Some a" using at [of g] by simp
    next
      show "?loc a \<noteq> Nowhere \<longrightarrow> ap_heap ?s a \<noteq> None" "ap_heap ?s a \<noteq> None \<longrightarrow> a < ap_next ?s" using h by simp_all
    next
      fix m2
      show "ap_heap ?s a = Some m2 \<longrightarrow> content_ok (?loc a) ?s a m2"
      proof
        assume "ap_heap ?s a = Some m2"
        then have H2: "H a = Some m2" by simp
        have c: "msg_class m2 = msg_class m" "msg_cpu m2 = msg_cpu m" "msg_one_way m2 = msg_one_way m" "msg_return m2"
          using m' [OF H2] by simp_all
        have "ended_as ended (message_result m2)" by (rule R [OF H2])
        with c g o h(3) show "content_ok (?loc a) ?s a m2" unfolding content_ok_def by auto
      qed
    qed
  next
    case False
    have "awaited p' = None" using out by auto
    with False p out H [of b] d [unfolded delivery_def, THEN conjunct2, THEN conjunct1, rule_format, of b] show ?thesis
      unfolding message_ok_def content_ok_def by auto
  qed
  have "\<not> requests H a" using out nr cl m by auto
  then have "logs_ok ?s" using logs_ran [where H = H and P = "(ap_pc s)(f := p')" and ended = ended, OF D(18) l(2) D(11) [OF m]] q by simp
  with fib msg D(17) show ?thesis by (simp add: delivery_def)
qed

text \<open>A call of \<open>run_at\<close> returns.\<close>

lemma delivery_result:
  assumes d: "delivery loc s" and p: "ap_pc s f = Woken a w" and m: "ap_heap s a = Some m"
  shows "delivery loc (s\<lparr>ap_heap := (ap_heap s)(a := None), ap_pc := (ap_pc s)(f := Running w),
    ap_got := ap_got s @ [(f, a, message_result m)]\<rparr>)" (is "delivery loc ?s")
proof -
  note D = deliveryD [OF d]
  have l: "loc a = Nowhere" "msg_return m" using D(7) [OF p] m by (auto simp: replies_def)
  have oth: "work (ap_pc s g) \<noteq> Some a" "ap_pc s g \<noteq> Sending t a k v" for g t k v
    using D(1) [of g a] D(2) [of g t a k v] l by auto
  have aw: "g = f" if "awaited (ap_pc s g) = Some a" for g
    using D(5) [OF that] D(5) [of f a] p by simp
  have fib: "fiber_ok loc ?s g" for g
  proof (cases "g = f")
    case True
    with d [unfolded delivery_def, THEN conjunct1, rule_format, of f] p oth(1) [of f] show ?thesis
      by (auto simp: fiber_ok_def)
  next
    case False
    then have "awaited (ap_pc s g) \<noteq> Some a" using aw [of g] by auto
    with oth False d [unfolded delivery_def, THEN conjunct1, rule_format, of g] show ?thesis
      by (auto simp: fiber_ok_def)
  qed
  have msg: "message_ok loc ?s b" for b
    using d [unfolded delivery_def, THEN conjunct2, THEN conjunct1, rule_format, of b] p l
    unfolding message_ok_def content_ok_def by (cases "b = a") auto
  have "logs_ok ?s" using D(18) D(16) [OF m l(2)] D(11) [OF m] unfolding logs_ok_def by auto
  with fib msg D(17) show ?thesis by (simp add: delivery_def)
qed

subsection \<open>The queues of the reactors\<close>

fun runnable :: "fiber_pc \<Rightarrow> bool" where
  "runnable (Waiting a w) = False"
| "runnable Ended = False"
| "runnable Gone = False"
| "runnable _ = True"

fun loops :: "fiber_pc \<Rightarrow> bool" where
  "loops Looping = True"
| "loops Loop_finished = True"
| "loops _ = False"

text \<open>Every fiber that can run is the active one of its reactor or once in its ready queue.\<close>

definition fibers_ok :: "('f, 'e, 'v) application \<Rightarrow> bool" where
  "fibers_ok s \<longleftrightarrow>
     ap_cpus s \<le> ap_fibers s \<and> (\<forall>f \<ge> ap_fibers s. ap_pc s f = Gone) \<and>
     (\<forall>r < ap_cpus s. ap_home s r = r) \<and> (\<forall>f. loops (ap_pc s f) \<longleftrightarrow> f < ap_cpus s) \<and>
     (\<forall>f < ap_fibers s. ap_home s f < ap_cpus s)"

definition queue_ok :: "('f, 'e, 'v) application \<Rightarrow> nat \<Rightarrow> nat list \<Rightarrow> bool" where
  "queue_ok s r q \<longleftrightarrow> distinct q \<and> (\<forall>f. f \<in> set q \<longleftrightarrow> f < ap_fibers s \<and> ap_home s f = r \<and> runnable (ap_pc s f))"

definition sched :: "('f, 'e, 'v) application \<Rightarrow> bool" where
  "sched s \<longleftrightarrow> fibers_ok s \<and> (\<forall>r < ap_cpus s. queue_ok s r (ap_active s r # ap_ready s r))"

lemma queue_ok_other [simp]:
  "queue_ok (s\<lparr>ap_ready := a\<rparr>) r q = queue_ok s r q" "queue_ok (s\<lparr>ap_active := b\<rparr>) r q = queue_ok s r q"
  "fibers_ok (s\<lparr>ap_ready := a\<rparr>) = fibers_ok s" "fibers_ok (s\<lparr>ap_active := b\<rparr>) = fibers_ok s"
  by (simp_all add: queue_ok_def fibers_ok_def)

lemma loops_runnable: "loops p \<Longrightarrow> runnable p"
  by (cases p) simp_all

lemma sched_active:
  assumes "sched s" "r < ap_cpus s"
  shows "ap_active s r < ap_fibers s" "ap_home s (ap_active s r) = r" "runnable (ap_pc s (ap_active s r))"
  using assms by (auto simp: sched_def queue_ok_def)

lemma sched_gone: "sched s \<Longrightarrow> ap_pc s (ap_fibers s) = Gone"
  by (simp add: sched_def fibers_ok_def)

lemma fibers_below: "fibers_ok s \<Longrightarrow> ap_pc s f \<noteq> Gone \<Longrightarrow> f < ap_fibers s"
  by (auto simp: fibers_ok_def not_less [symmetric])

lemma sched_other [simp]:
  "sched (s\<lparr>ap_heap := h\<rparr>) = sched s" "sched (s\<lparr>ap_next := n\<rparr>) = sched s" "sched (s\<lparr>ap_inbox := i\<rparr>) = sched s"
  "sched (s\<lparr>ap_running := b\<rparr>) = sched s" "sched (s\<lparr>ap_target := tg\<rparr>) = sched s" "sched (s\<lparr>ap_ran := l\<rparr>) = sched s"
  "sched (s\<lparr>ap_got := g\<rparr>) = sched s" "sched (new_message t m s) = sched s"
  by (simp_all add: sched_def fibers_ok_def queue_ok_def new_message_def)

lemma fibers_ok_at:
  "fibers_ok s \<Longrightarrow> loops p = loops (ap_pc s f) \<Longrightarrow> f < ap_fibers s \<Longrightarrow> fibers_ok (at_pc f p s)"
  by (auto simp: fibers_ok_def)

lemma sched_at:
  assumes "sched s" "loops p = loops (ap_pc s f)" "runnable p = runnable (ap_pc s f)" "f < ap_fibers s"
  shows "sched (at_pc f p s)"
proof -
  have "queue_ok s r q \<Longrightarrow> queue_ok (at_pc f p s) r q" for r q using assms(3) by (simp add: queue_ok_def)
  with assms fibers_ok_at [of s p f] show ?thesis by (simp add: sched_def)
qed

lemma sched_gone_at:
  assumes s: "sched s" and p: "ap_pc s f = Ended"
  shows "sched (at_pc f Gone s)"
  by (rule sched_at [OF s]) (use s p fibers_below [of s f] in \<open>simp_all add: sched_def\<close>)

text \<open>The active fiber stops and the next one runs; the event loop always is there.\<close>

lemma sched_suspend:
  assumes s: "sched s" and r: "r < ap_cpus s" and n: "\<not> loops (ap_pc s (ap_active s r))" and p: "\<not> runnable p" "\<not> loops p"
  shows "sched (rs_suspend r p s)"
proof -
  let ?a = "ap_active s r" and ?t = "at_pc (ap_active s r) p s"
  have F: "fibers_ok s" and q: "queue_ok s r (?a # ap_ready s r)" using s r by (simp_all add: sched_def)
  have "loops (ap_pc s r)" "ap_home s r = r" "r < ap_fibers s" using F r by (auto simp: fibers_ok_def)
  then have "r \<in> set (?a # ap_ready s r)" using q loops_runnable unfolding queue_ok_def by blast
  moreover have "?a \<noteq> r" using n \<open>loops (ap_pc s r)\<close> by auto
  ultimately obtain f fs where e: "ap_ready s r = f # fs" by (cases "ap_ready s r") auto
  have t: "fibers_ok ?t" by (rule fibers_ok_at [OF F]) (use n p sched_active [OF s r] in simp_all)
  have "queue_ok ?t r (f # fs)" using q p unfolding queue_ok_def e by auto
  moreover have "queue_ok ?t x (ap_active s x # ap_ready s x)" if "x < ap_cpus s" "x \<noteq> r" for x
  proof -
    have "queue_ok s x (ap_active s x # ap_ready s x)" using s that by (simp add: sched_def)
    moreover have "ap_home s ?a \<noteq> x" using sched_active [OF s r] that by simp
    ultimately show ?thesis unfolding queue_ok_def by auto
  qed
  ultimately show ?thesis using t e by (simp add: sched_def rs_suspend_def rs_pick_next_def)
qed

lemma sched_yield:
  assumes s: "sched s" and r: "r < ap_cpus s"
  shows "sched (rs_yield r s)"
proof -
  let ?a = "ap_active s r"
  have a: "ap_home s ?a = r" using sched_active [OF s r] by simp
  obtain f fs where e: "ap_ready s r @ [?a] = f # fs" by (cases "ap_ready s r") auto
  have "queue_ok s r (?a # ap_ready s r)" using s r by (simp add: sched_def)
  moreover have "set (f # fs) = set (?a # ap_ready s r)" "distinct (f # fs) = distinct (?a # ap_ready s r)"
    unfolding e [symmetric] by auto
  ultimately have "queue_ok s r (f # fs)" unfolding queue_ok_def by metis
  with s a e show ?thesis by (simp add: sched_def rs_yield_def rs_awakened_def rs_pick_next_def)
qed

lemma queue_ok_snoc:
  assumes "queue_ok s r q"
    and "\<And>f. f \<noteq> g \<Longrightarrow> (f < ap_fibers t \<and> ap_home t f = r \<and> runnable (ap_pc t f)) \<longleftrightarrow>
      (f < ap_fibers s \<and> ap_home s f = r \<and> runnable (ap_pc s f))"
    and "g < ap_fibers t" "ap_home t g = r" "runnable (ap_pc t g)" "\<not> (g < ap_fibers s \<and> runnable (ap_pc s g))"
  shows "queue_ok t r (q @ [g])"
proof -
  have m: "f \<in> set q \<longleftrightarrow> f < ap_fibers s \<and> ap_home s f = r \<and> runnable (ap_pc s f)" for f
    using assms(1) by (simp add: queue_ok_def)
  have "f \<in> set (q @ [g]) \<longleftrightarrow> f < ap_fibers t \<and> ap_home t f = r \<and> runnable (ap_pc t f)" for f
    using m [of f] assms(2) [of f] assms(3-) by (cases "f = g") simp_all
  moreover have "g \<notin> set q" using m [of g] assms(6) by blast
  ultimately show ?thesis using assms(1) by (simp add: queue_ok_def)
qed

lemma sched_new:
  assumes s: "sched s" and r: "r < ap_cpus s" and p: "runnable p" "\<not> loops p"
  shows "sched (new_fiber r p s)"
proof -
  let ?g = "ap_fibers s"
  let ?t = "s\<lparr>ap_fibers := Suc ?g, ap_home := (ap_home s)(?g := r), ap_pc := (ap_pc s)(?g := p)\<rparr>"
  have F: "fibers_ok s" using s by (simp add: sched_def)
  with r p have t: "fibers_ok ?t" by (auto simp: fibers_ok_def less_Suc_eq)
  have q: "queue_ok s x (ap_active s x # ap_ready s x)" if "x < ap_cpus s" for x using s that by (simp add: sched_def)
  have "queue_ok ?t x (ap_active s x # ap_ready s x)" if "x < ap_cpus s" "x \<noteq> r" for x
    using q [OF that(1)] that(2) by (auto simp: queue_ok_def less_Suc_eq)
  moreover have "queue_ok ?t r ((ap_active s r # ap_ready s r) @ [?g])"
    by (rule queue_ok_snoc [OF q [OF r]]) (use p in \<open>auto simp: less_Suc_eq\<close>)
  ultimately show ?thesis using t by (simp add: sched_def new_fiber_def rs_awakened_def)
qed

lemma sched_resume:
  assumes s: "sched s" and f: "ap_pc s f = Waiting a w"
  shows "sched (rs_awakened f (at_pc f (Woken a w) s))"
proof -
  let ?t = "at_pc f (Woken a w) s"
  have F: "fibers_ok s" using s by (simp add: sched_def)
  have b: "f < ap_fibers s" using fibers_below [OF F, of f] f by simp
  have t: "fibers_ok ?t" by (rule fibers_ok_at [OF F]) (use f b in simp_all)
  have q: "queue_ok s x (ap_active s x # ap_ready s x)" if "x < ap_cpus s" for x using s that by (simp add: sched_def)
  have h: "ap_home s f < ap_cpus s" using F b by (simp add: fibers_ok_def)
  have "queue_ok ?t x (ap_active s x # ap_ready s x)" if "x < ap_cpus s" "x \<noteq> ap_home s f" for x
    using q [OF that(1)] that(2) by (auto simp: queue_ok_def)
  moreover have "queue_ok ?t (ap_home s f) ((ap_active s (ap_home s f) # ap_ready s (ap_home s f)) @ [f])"
    by (rule queue_ok_snoc [OF q [OF h]]) (use f b in simp_all)
  ultimately show ?thesis using t by (simp add: sched_def rs_awakened_def)
qed

subsection \<open>Every step keeps the invariant\<close>

definition ap_ok :: "('f, 'e, 'v) application \<Rightarrow> bool" where
  "ap_ok s \<longleftrightarrow> (\<exists>loc. delivery loc s) \<and> sched s"

lemma ap_okI: "delivery loc s \<Longrightarrow> sched s \<Longrightarrow> ap_ok s"
  by (auto simp: ap_ok_def)

lemma delivery_cong:
  assumes "delivery loc s" and "ap_heap t = ap_heap s" "ap_next t = ap_next s" "ap_inbox t = ap_inbox s" "ap_pc t = ap_pc s"
    "ap_home t = ap_home s" "ap_target t = ap_target s" "ap_ran t = ap_ran s" "ap_got t = ap_got s"
  shows "delivery loc t"
  using assms(1) unfolding delivery_def fiber_ok_def message_ok_def content_ok_def logs_ok_def assms(2-) .

text \<open>One message of a batch.\<close>

lemma process_fn_ok:
  assumes d: "delivery loc (s\<lparr>ap_inbox := (ap_inbox s)(r := a # as)\<rparr>)" and s: "sched s" and r: "r < ap_cpus s"
  obtains t loc' where "process_fn r a s = Inr t" "delivery loc' (t\<lparr>ap_inbox := (ap_inbox t)(r := as)\<rparr>)" "sched t"
    "ap_cpus t = ap_cpus s"
proof -
  let ?u = "s\<lparr>ap_inbox := (ap_inbox s)(r := a # as)\<rparr>"
  note D = deliveryD [OF d]
  have "loc a = In_inbox r" using D(8) [of a r] by simp
  then obtain m where m: "ap_heap s a = Some m" using D(10) [of a] by auto
  show thesis
  proof (cases "msg_return m")
    case True
    obtain f w where f: "msg_class m = FiberLambdaMessage f" "ap_pc s f = Waiting a w"
      and d': "delivery (loc(a := Nowhere)) (?u\<lparr>ap_inbox := (ap_inbox ?u)(r := as), ap_pc := (ap_pc ?u)(f := Woken a w)\<rparr>)"
      by (rule delivery_reply [OF d, of r a as m]) (use m True in simp_all)
    let ?t = "rs_awakened f (at_pc f (Woken a w) s)"
    have "process_fn r a s = Inr ?t"
      using m True f by (simp add: process_fn_def finish_message_def message_finish_def FiberMessage_finish_def rs_resume_def)
    moreover have "delivery (loc(a := Nowhere)) (?t\<lparr>ap_inbox := (ap_inbox ?t)(r := as)\<rparr>)"
      by (rule delivery_cong [OF d']) (simp_all add: rs_awakened_def)
    ultimately show thesis using sched_resume [OF s f(2)] that by (simp add: rs_awakened_def)
  next
    case False
    let ?g = "ap_fibers s" and ?t = "new_fiber r (Starting a) s"
    have d': "delivery (loc(a := At_fiber ?g)) (?u\<lparr>ap_inbox := (ap_inbox ?u)(r := as), ap_home := (ap_home ?u)(?g := r),
        ap_pc := (ap_pc ?u)(?g := Starting a)\<rparr>)"
      by (rule delivery_start [OF d, of r a as m]) (use m False sched_gone [OF s] in simp_all)
    have "delivery (loc(a := At_fiber ?g)) (?t\<lparr>ap_inbox := (ap_inbox ?t)(r := as)\<rparr>)"
      by (rule delivery_cong [OF d']) (simp_all add: new_fiber_def rs_awakened_def)
    moreover have "process_fn r a s = Inr ?t" using m False by (simp add: process_fn_def)
    moreover have "sched ?t" by (rule sched_new [OF s r]) simp_all
    ultimately show thesis using that by (simp add: new_fiber_def rs_awakened_def)
  qed
qed

lemma process_all_ok:
  assumes "delivery loc (s\<lparr>ap_inbox := (ap_inbox s)(r := as)\<rparr>)" "sched s" "r < ap_cpus s" "ap_inbox s r = []"
  shows "\<exists>t. process_all r as s = Inr t \<and> ap_ok t \<and> ap_cpus t = ap_cpus s"
  using assms
proof (induction as arbitrary: s loc)
  case Nil
  have "delivery loc s" by (rule delivery_cong [OF Nil(1)]) (use Nil(4) in \<open>simp_all add: fun_upd_idem\<close>)
  with Nil show ?case by (auto simp: ap_ok_def)
next
  case (Cons a as)
  obtain t loc' where t: "process_fn r a s = Inr t" "delivery loc' (t\<lparr>ap_inbox := (ap_inbox t)(r := as)\<rparr>)" "sched t"
    "ap_cpus t = ap_cpus s"
    by (rule process_fn_ok [OF Cons.prems(1-3)])
  have "ap_inbox t r = []"
    using t(1) Cons.prems(4)
    by (auto simp: process_fn_def finish_message_def rs_resume_def new_fiber_def rs_awakened_def
      split: option.splits if_splits finish_effect.splits fiber_pc.splits)
  with Cons.IH [OF t(2,3)] Cons.prems(3) t show ?case by simp
qed

lemma event_loop_round_ok:
  assumes ok: "ap_ok s" and r: "r < ap_cpus s" and p: "ap_pc s (ap_active s r) = Looping"
  shows "\<exists>t. event_loop_round r s = Inr t \<and> ap_ok t"
proof -
  obtain loc where d: "delivery loc s" and s: "sched s" using ok by (auto simp: ap_ok_def)
  show ?thesis
  proof (cases "ap_running s r \<or> ap_contexts r s > 2")
    case True
    have "delivery loc (s\<lparr>ap_inbox := (ap_inbox s)(r := [])\<rparr>\<lparr>ap_inbox := (ap_inbox (s\<lparr>ap_inbox := (ap_inbox s)(r := [])\<rparr>))(r := ap_inbox s r)\<rparr>)"
      by (rule delivery_cong [OF d]) simp_all
    from process_all_ok [OF this] s r obtain t where t: "receive_all r s = Inr t" "ap_ok t" "ap_cpus t = ap_cpus s"
      unfolding receive_all_def by auto
    with r sched_yield [of t r] have "ap_ok (rs_yield r t)" by (auto simp: ap_ok_def)
    with True t show ?thesis by (simp add: event_loop_round_def)
  next
    case False
    have "delivery loc (at_pc (ap_active s r) Loop_finished s)" by (rule delivery_same [OF d]) (simp_all add: p)
    moreover have "sched (at_pc (ap_active s r) Loop_finished s)"
      by (rule sched_at [OF s]) (use p sched_active [OF s r] in simp_all)
    ultimately show ?thesis using False by (auto simp: event_loop_round_def ap_ok_def)
  qed
qed

text \<open>The other steps.\<close>

lemma sent_ok:
  assumes ok: "ap_ok s" and r: "r < ap_cpus s" and p: "ap_pc s (ap_active s r) = Sending t a k w"
  shows "ap_ok (sent r a k w (s\<lparr>ap_inbox := (ap_inbox s)(t := ap_inbox s t @ [a])\<rparr>))"
proof -
  obtain loc where d: "delivery loc s" and s: "sched s" using ok by (auto simp: ap_ok_def)
  let ?f = "ap_active s r" and ?u = "s\<lparr>ap_inbox := (ap_inbox s)(t := ap_inbox s t @ [a])\<rparr>"
  note A = sched_active [OF s r]
  have u: "sched ?u" "r < ap_cpus ?u" "ap_active ?u r = ?f" using s r by simp_all
  have go: "delivery (loc(a := In_inbox t)) (at_pc ?f p' ?u)"
    if "work p' = w" "sends p' = None" "awaited p' = (if k = Then_wait then Some a else None)"
      "\<And>b v. p' \<noteq> Woken b v" "\<And>c v. p' = Waiting c v \<Longrightarrow> c = a" for p'
    by (rule delivery_send [OF d p that])
  show ?thesis
  proof (cases k)
    case Then_wait
    have "delivery (loc(a := In_inbox t)) (at_pc ?f (Waiting a w) ?u)" by (rule go) (simp_all add: Then_wait)
    moreover have "sched (rs_suspend r (Waiting a w) ?u)" by (rule sched_suspend [OF u(1,2)]) (simp_all add: p)
    ultimately show ?thesis by (intro ap_okI [of "loc(a := In_inbox t)"]) (simp_all add: sent_def Then_wait rs_suspend_def)
  next
    case Then_go_on
    have "delivery (loc(a := In_inbox t)) (at_pc ?f (Running w) ?u)" by (rule go) (simp_all add: Then_go_on)
    moreover have "sched (at_pc ?f (Running w) ?u)" by (rule sched_at [OF u(1)]) (simp_all add: p A)
    ultimately show ?thesis by (intro ap_okI [of "loc(a := In_inbox t)"]) (simp_all add: sent_def Then_go_on)
  next
    case Then_end
    have "w = None" using deliveryD(3) [OF d p Then_end] by simp
    then have "delivery (loc(a := In_inbox t)) (at_pc ?f Ended ?u)" by (intro go) (simp_all add: Then_end)
    moreover have "sched (rs_suspend r Ended ?u)" by (rule sched_suspend [OF u(1,2)]) (simp_all add: p)
    ultimately show ?thesis
      by (intro ap_okI [of "loc(a := In_inbox t)"]) (simp_all add: sent_def Then_end end_fiber_def rs_suspend_def)
  next
    case (Then_shutdown c)
    have "delivery (loc(a := In_inbox t)) (at_pc ?f (Shutting_down c w) ?u)" by (rule go) (simp_all add: Then_shutdown)
    moreover have "sched (at_pc ?f (Shutting_down c w) ?u)" by (rule sched_at [OF u(1)]) (simp_all add: p A)
    ultimately show ?thesis by (intro ap_okI [of "loc(a := In_inbox t)"]) (simp_all add: sent_def Then_shutdown)
  qed
qed

lemma alloc_ok:
  assumes ok: "ap_ok s" and r: "r < ap_cpus s" and p: "ap_pc s (ap_active s r) = Running w \<or> (\<exists>c. ap_pc s (ap_active s r) = Shutting_down c w)"
    and m: "\<not> msg_return m" "msg_exception m = None" "k \<noteq> Then_end"
    and c: "if k = Then_wait then msg_class m = FiberLambdaMessage (ap_active s r) \<and> \<not> msg_one_way m \<and> msg_cpu m = r
      else msg_one_way m \<and> (\<forall>f. msg_class m \<noteq> FiberLambdaMessage f)"
  shows "ap_ok (at_pc (ap_active s r) (Sending t (ap_next s) k w) (new_message t m s))"
proof -
  obtain loc where d: "delivery loc s" and s: "sched s" using ok by (auto simp: ap_ok_def)
  note A = sched_active [OF s r]
  have "delivery (loc(ap_next s := At_fiber (ap_active s r))) (at_pc (ap_active s r) (Sending t (ap_next s) k w) (new_message t m s))"
    by (rule delivery_alloc [OF d]) (use p m c A in auto)
  moreover have "sched (at_pc (ap_active s r) (Sending t (ap_next s) k w) (new_message t m s))"
    by (rule sched_at) (use s p A in \<open>auto simp: new_message_def\<close>)
  ultimately show ?thesis by (rule ap_okI)
qed

lemma same_ok:
  assumes ok: "ap_ok s" and r: "r < ap_cpus s"
    and p: "work p = work (ap_pc s (ap_active s r))" "sends p = None" "sends (ap_pc s (ap_active s r)) = None"
      "awaited p = None" "awaited (ap_pc s (ap_active s r)) = None" "loops p = loops (ap_pc s (ap_active s r))" "runnable p"
  shows "ap_ok (at_pc (ap_active s r) p s)"
proof -
  obtain loc where d: "delivery loc s" and s: "sched s" using ok by (auto simp: ap_ok_def)
  have "delivery loc (at_pc (ap_active s r) p s)" by (rule delivery_same [OF d p(1-5)])
  moreover have "sched (at_pc (ap_active s r) p s)" by (rule sched_at [OF s]) (use p sched_active [OF s r] in simp_all)
  ultimately show ?thesis by (rule ap_okI)
qed

definition goes_well :: "ap_fault + ('f, 'e, 'v) application \<Rightarrow> bool" where
  "goes_well res \<longleftrightarrow> (case res of Inl e \<Rightarrow> e = Terminated \<or> e = Invalid_cpu | Inr t \<Rightarrow> ap_ok t)"

lemma goes_well_simps [simp]:
  "goes_well (Inr t) = ap_ok t" "goes_well (Inl Terminated)" "goes_well (Inl Invalid_cpu)"
  by (simp_all add: goes_well_def)

lemma function_returns_ok:
  assumes ok: "ap_ok s" and r: "r < ap_cpus s" and p: "ap_pc s (ap_active s r) = Running (Some a)"
  shows "goes_well (function_returns r a ended s)"
proof -
  obtain loc where d: "delivery loc s" and s: "sched s" using ok by (auto simp: ap_ok_def)
  note D = deliveryD [OF d] and A = sched_active [OF s r]
  let ?f = "ap_active s r" and ?l = "ap_ran s @ [(a, r, ended)]"
  obtain m where m: "ap_heap s a = Some m" and tg: "ap_target s a = r"
    using D(1) [of ?f a] p A by (auto simp: requests_def)
  let ?H = "(ap_heap s)(a \<mapsto> message_process ended m)"
  note R = delivery_returns [OF d p m, where ended = ended, unfolded tg]
  have cl: "msg_one_way m \<longleftrightarrow> (\<forall>g. msg_class m \<noteq> FiberLambdaMessage g)" using D(12,13) [OF m] by blast
  show ?thesis
  proof (cases "msg_one_way m")
    case False
    let ?p = "Sending (msg_cpu m) a Then_end None"
    have "delivery (loc(a := loc a)) (s\<lparr>ap_heap := ?H, ap_pc := (ap_pc s)(?f := ?p), ap_ran := ?l\<rparr>)"
      by (rule R) (use False in simp)
    then have "delivery (loc(a := loc a)) (at_pc ?f ?p (s\<lparr>ap_heap := ?H, ap_ran := ?l\<rparr>))"
      by (rule delivery_cong) simp_all
    moreover have "sched (at_pc ?f ?p (s\<lparr>ap_heap := ?H, ap_ran := ?l\<rparr>))" by (rule sched_at) (use s p A in simp_all)
    ultimately show ?thesis using m False by (auto simp: function_returns_def intro: ap_okI)
  next
    case True
    have e: "ap_ok (end_fiber r (s\<lparr>ap_heap := H, ap_ran := ?l\<rparr>))"
      if H: "H = (ap_heap s)(a := None) \<or> msg_class m \<noteq> OneWayFunctionMessage \<and> H = ?H" for H
    proof -
      have "delivery (loc(a := Nowhere)) (s\<lparr>ap_heap := H, ap_pc := (ap_pc s)(?f := Ended), ap_ran := ?l\<rparr>)"
        by (rule R) (use True H in auto)
      then have "delivery (loc(a := Nowhere)) (at_pc ?f Ended (s\<lparr>ap_heap := H, ap_ran := ?l\<rparr>))"
        by (rule delivery_cong) simp_all
      moreover have "sched (rs_suspend r Ended (s\<lparr>ap_heap := H, ap_ran := ?l\<rparr>))"
        by (rule sched_suspend) (use s r p in simp_all)
      ultimately show ?thesis by (auto simp: end_fiber_def rs_suspend_def intro!: ap_okI)
    qed
    have eq: "s\<lparr>ap_ran := ?l, ap_heap := (ap_heap s)(a := None)\<rparr> = s\<lparr>ap_heap := (ap_heap s)(a := None), ap_ran := ?l\<rparr>" by simp
    have "ap_ok (end_fiber r (s\<lparr>ap_ran := ?l, ap_heap := (ap_heap s)(a := None)\<rparr>))"
      unfolding eq by (rule e) simp
    with e [of ?H] m True cl show ?thesis
      by (cases "msg_class m") (simp_all add: function_returns_def finish_message_def message_finish_def Let_def
        OneWayLambdaMessage_finish_def OneWayFunctionMessage_finish_def AppLambdaMessage_finish_def)
  qed
qed

lemma run_at_resumed_ok:
  assumes ok: "ap_ok s" and r: "r < ap_cpus s" and p: "ap_pc s (ap_active s r) = Woken a w"
  shows "goes_well (run_at_resumed r a w s)"
proof -
  obtain loc where d: "delivery loc s" and s: "sched s" using ok by (auto simp: ap_ok_def)
  let ?f = "ap_active s r"
  obtain m where m: "ap_heap s a = Some m" using deliveryD(7) [OF d p] by (auto simp: replies_def)
  let ?t = "at_pc ?f (Running w) (s\<lparr>ap_got := ap_got s @ [(?f, a, message_result m)], ap_heap := (ap_heap s)(a := None)\<rparr>)"
  have "delivery loc ?t" by (rule delivery_cong [OF delivery_result [OF d p m]]) simp_all
  moreover have "sched ?t" by (rule sched_at) (use s p sched_active [OF s r] in simp_all)
  ultimately show ?thesis using m by (auto simp: run_at_resumed_def intro: ap_okI)
qed

lemma launch_ok:
  assumes ok: "ap_ok s" and r: "r < ap_cpus s"
  shows "ap_ok (new_fiber r (Running None) s)"
proof -
  obtain loc where d: "delivery loc s" and s: "sched s" using ok by (auto simp: ap_ok_def)
  have "delivery loc (new_fiber r (Running None) s)"
    by (rule delivery_cong [OF delivery_launch [OF d sched_gone [OF s], of r]]) (simp_all add: new_fiber_def rs_awakened_def)
  moreover have "sched (new_fiber r (Running None) s)" by (rule sched_new [OF s r]) simp_all
  ultimately show ?thesis by (rule ap_okI)
qed

lemma over_ok:
  assumes ok: "ap_ok s" and r: "r < ap_cpus s" and p: "ap_pc s (ap_active s r) = Running None"
  shows "ap_ok (end_fiber r s)"
proof -
  obtain loc where d: "delivery loc s" and s: "sched s" using ok by (auto simp: ap_ok_def)
  have "delivery loc (at_pc (ap_active s r) Ended s)" by (rule delivery_same [OF d]) (simp_all add: p)
  moreover have "sched (rs_suspend r Ended s)" by (rule sched_suspend [OF s r]) (simp_all add: p)
  ultimately show ?thesis by (auto simp: end_fiber_def rs_suspend_def intro!: ap_okI)
qed

lemma call_ok:
  assumes ok: "ap_ok s" and r: "r < ap_cpus s" and p: "ap_pc s (ap_active s r) = Running w"
    and e: "reactor_of e = Some r" "call r e w s = Some res"
  shows "goes_well res"
proof -
  have at: "ap_ok (run_state)" if "run_state = at_pc (ap_active s r) (Shutting_down 0 w) s" for run_state
    unfolding that by (rule same_ok [OF ok r]) (simp_all add: p)
  have "ap_ok (rs_yield r s)" "ap_ok (reactor_stop r s)"
    using ok r sched_yield [of s r] by (auto simp: ap_ok_def reactor_stop_def)
  with at launch_ok [OF ok r] over_ok [OF ok r] function_returns_ok [OF ok r] alloc_ok [OF ok r disjI1 [OF p]] e p show ?thesis
    by (cases e) (auto simp: call_def run_at_def run_at_async_def make_fiber_lambda_message_def make_one_way_lambda_message_def
      Message_new_def split: if_splits option.splits sum.splits)
qed

lemma go_on_ok:
  assumes ok: "ap_ok s" and r: "r < ap_cpus s" and e: "go_on r s = Some res"
  shows "goes_well res"
proof (cases "ap_pc s (ap_active s r)")
  case Looping
  with event_loop_round_ok [OF ok r] e show ?thesis by (auto simp: go_on_def)
next
  case (Starting a)
  have "ap_ok (at_pc (ap_active s r) (Running (Some a)) s)" by (rule same_ok [OF ok r]) (simp_all add: Starting)
  with Starting e show ?thesis by (auto simp: go_on_def)
next
  case (Shutting_down c w)
  have "ap_ok (at_pc (ap_active s r) (Running w) s)" by (rule same_ok [OF ok r]) (simp_all add: Shutting_down)
  moreover have "ap_ok (at_pc (ap_active s r) (Sending c (ap_next s) (Then_shutdown (Suc c)) w)
      (new_message c (OneWayFunctionMessage_new c (ap_hook s)) s))"
    by (rule alloc_ok [OF ok r]) (use Shutting_down in \<open>auto simp: OneWayFunctionMessage_new_def Message_new_def\<close>)
  ultimately show ?thesis using Shutting_down e by (auto simp: go_on_def shutdown_next_def)
next
  case (Sending t a k w)
  with sent_ok [OF ok r Sending] e show ?thesis by (auto simp: go_on_def submit_to_def split: if_splits)
next
  case (Woken a w)
  with run_at_resumed_ok [OF ok r Woken] e show ?thesis by (auto simp: go_on_def)
qed (use e in \<open>simp_all add: go_on_def\<close>)

theorem ap_step_ok:
  assumes ok: "ap_ok s" and e: "ap_step e s = Some res"
  shows "goes_well res"
proof (cases "reactor_of e")
  case None
  then obtain f where f: "e = Destroy f" by (cases e) auto
  with e have p: "ap_pc s f = Ended" and res: "res = Inr (at_pc f Gone s)" by (auto simp: ap_step_def split: if_splits)
  obtain loc where d: "delivery loc s" and s: "sched s" using ok by (auto simp: ap_ok_def)
  have "delivery loc (at_pc f Gone s)" by (rule delivery_same [OF d]) (simp_all add: p)
  with sched_gone_at [OF s p] res show ?thesis by (auto intro: ap_okI)
next
  case (Some r)
  show ?thesis
  proof (cases "\<exists>q. e = Go_on q")
    case True
    with e Some go_on_ok [OF ok, of r] show ?thesis by (auto simp: ap_step_def split: if_splits)
  next
    case False
    with e Some obtain w where "r < ap_cpus s" "ap_pc s (ap_active s r) = Running w" "call r e w s = Some res"
      by (cases e) (auto simp: ap_step_def split: if_splits fiber_pc.splits)
    with call_ok [OF ok] Some show ?thesis by blast
  qed
qed

lemma start_ok: "0 < n \<Longrightarrow> ap_ok (application_run n c h fn)"
proof (rule ap_okI)
  show "delivery (\<lambda>a. if a = 0 then In_inbox 0 else Nowhere) (application_run n c h fn)"
    by (auto simp: application_run_def delivery_def fiber_ok_def message_ok_def content_ok_def logs_ok_def
      make_special_one_way_lambda_message_def Message_new_def)
  show "sched (application_run n c h fn)" if "0 < n"
    using that by (auto simp: application_run_def sched_def fibers_ok_def queue_ok_def)
qed

theorem ap_reach_ok: "ap_reach n c h fn s \<Longrightarrow> 0 < n \<Longrightarrow> ap_ok s"
proof (induction rule: ap_reach.induct)
  case (step s e t)
  then show ?case using ap_step_ok [of s e "Inr t"] by simp
qed (rule start_ok)

end
