(* ===== verification/Reactor_Properties.thy ===== *)
theory Reactor_Properties
  imports Reactor_Delivery
begin

text \<open>What the users of \<open>run_at\<close>, \<open>run_at_async\<close> and \<open>shutdown\<close> can rely on, and what they cannot.\<close>

subsection \<open>Safety and results\<close>

lemma ap_run_ok: "ap_run es s = Some res \<Longrightarrow> ap_ok s \<Longrightarrow> goes_well res"
proof (induction es arbitrary: s)
  case (Cons e es)
  show ?case
  proof (cases "ap_step e s")
    case (Some x)
    with ap_step_ok [OF Cons.prems(2)] have "goes_well x" by blast
    with Some Cons show ?thesis by (cases x) auto
  qed (use Cons.prems in simp)
qed auto

lemma ap_run_start: "ap_run es (application_run (Suc n) c h fn) = Some res \<Longrightarrow> goes_well res"
  by (erule ap_run_ok) (rule start_ok, simp)

text \<open>C1: in an application of any number of reactors, whatever the functions do and however the
  reactors interleave, no message is used after it has been deleted and \<open>Scheduler::resume\<close> is only called for a
  fiber that is suspended.\<close>

theorem messages_memory_safe:
  "ap_run es (application_run (Suc n) capacity hook fn) \<noteq> Some (Inl Message_freed) \<and>
   ap_run es (application_run (Suc n) capacity hook fn) \<noteq> Some (Inl Not_waiting)"
  using ap_run_start [of es n capacity hook fn] by (auto simp: goes_well_def)

text \<open>C2: what a call of \<open>run_at\<close> returns, or throws, is what its function returned or threw; the
  function was run exactly once, on the reactor the call named.\<close>

theorem run_at_returns_result:
  assumes "ap_run es (application_run (Suc n) capacity hook fn) = Some (Inr s)" and "(f, a, res) \<in> set (ap_got s)"
  shows "\<exists>ended. filter (\<lambda>x. fst x = a) (ap_ran s) = [(a, ap_target s a, ended)] \<and>
    res = (case ended of Inl e \<Rightarrow> Inl e | Inr v \<Rightarrow> Inr (Some v))"
proof -
  obtain loc where d: "delivery loc s" using ap_run_start [OF assms(1)] by (auto simp: ap_ok_def)
  note L = deliveryD(18) [OF d, unfolded logs_ok_def]
  obtain r ended where r: "(a, r, ended) \<in> set (ap_ran s)" "ended_as ended res" using L assms(2) by blast
  have "r = ap_target s a" using L r(1) by blast
  moreover have "filter (\<lambda>x. fst x = a) xs = [(a, r, ended)]" if "(a, r, ended) \<in> set xs" "distinct (map fst xs)" for xs :: "(nat \<times> nat \<times> ('b + 'c)) list"
    using that by (induction xs) (auto simp: filter_empty_conv rev_image_eqI)
  ultimately show ?thesis using L r by (auto simp: ended_as_def)
qed

text \<open>Concrete runs.\<close>

definition ran_well :: "(ap_fault + 's) option \<Rightarrow> bool" where
  "ran_well res = (case res of Some (Inr s) \<Rightarrow> True | _ \<Rightarrow> False)"

definition run_state :: "(ap_fault + 's) option \<Rightarrow> 's" where
  "run_state res = (case res of Some (Inr s) \<Rightarrow> s)"

lemma ran_well: "ran_well res \<Longrightarrow> res = Some (Inr (run_state res))"
  by (simp add: ran_well_def run_state_def split: option.splits sum.splits)

lemma run_at_returns_result_witness:
  "let s = run_state (ap_run [Go_on 0, Go_on 0, Run_at 0 1 ''f'', Go_on 0, Go_on 1, Go_on 1, Returns 1 (Inr 7), Go_on 1,
        Go_on 0, Go_on 0] (application_run 2 1024 ''stop'' ''main'' :: (string, string, int) application)) in
     (2, 1, Inr (Some 7)) \<in> set (ap_got s) \<and> (\<exists>ended. filter (\<lambda>x. fst x = 1) (ap_ran s) = [(1, ap_target s 1, ended)] \<and>
       (Inr (Some 7) :: string + int option) = (case ended of Inl e \<Rightarrow> Inl e | Inr v \<Rightarrow> Inr (Some v)))"
proof -
  let ?res = "ap_run [Go_on 0, Go_on 0, Run_at 0 1 ''f'', Go_on 0, Go_on 1, Go_on 1, Returns 1 (Inr 7), Go_on 1, Go_on 0, Go_on 0]
    (application_run (Suc 1) 1024 ''stop'' ''main'' :: (string, string, int) application)"
  have "ran_well ?res" by code_simp
  note run = ran_well [OF this]
  have got: "(2, 1, Inr (Some 7)) \<in> set (ap_got (run_state ?res))" by code_simp
  show ?thesis using got run_at_returns_result [OF run got] by (simp add: numeral_2_eq_2 del: ap_run.simps)
qed

lemma count_distinct: "distinct xs \<Longrightarrow> x \<in> set xs \<Longrightarrow> count_list xs x = 1"
  by (induction xs) auto

text \<open>C3: no fiber and no call is lost: in every reachable state a fiber is suspended in \<open>run_at\<close>, with
  its message in an inbox or in the hands of a fiber that handles or sends it; or it has ended; or it is once in
  its reactor's ready queue, or active.\<close>

theorem no_call_lost:
  assumes "ap_run es (application_run (Suc n) capacity hook fn) = Some (Inr s)"
  shows "(case ap_pc s f of
      Waiting a w \<Rightarrow> (\<exists>r. a \<in> set (ap_inbox s r)) \<or> (\<exists>g. work (ap_pc s g) = Some a \<or> sends (ap_pc s g) = Some a)
    | Ended \<Rightarrow> True
    | Gone \<Rightarrow> True
    | _ \<Rightarrow> count_list (ap_active s (ap_home s f) # ap_ready s (ap_home s f)) f = 1)"
proof -
  obtain loc where d: "delivery loc s" and s: "sched s" using ap_run_start [OF assms] by (auto simp: ap_ok_def)
  note D = deliveryD [OF d]
  have q: "count_list (ap_active s (ap_home s f) # ap_ready s (ap_home s f)) f = 1" if p: "runnable (ap_pc s f)"
  proof -
    have F: "fibers_ok s" using s by (simp add: sched_def)
    have f: "f < ap_fibers s" using fibers_below [OF F, of f] p by (cases "ap_pc s f") auto
    with F have "ap_home s f < ap_cpus s" by (simp add: fibers_ok_def)
    with s have "queue_ok s (ap_home s f) (ap_active s (ap_home s f) # ap_ready s (ap_home s f))" by (simp add: sched_def)
    moreover have "count_list q f = 1" if "queue_ok s (ap_home s f) q" for q
      using that f p by (simp add: queue_ok_def count_distinct)
    ultimately show ?thesis by blast
  qed
  show ?thesis
  proof (cases "ap_pc s f")
    case (Waiting a w)
    then have "loc a \<noteq> Nowhere" by (rule D(6))
    with D(8) [of a] D(9) [of a] Waiting show ?thesis by (cases "loc a") auto
  qed (use q in simp_all)
qed

lemma no_call_lost_witness:
  "let s = run_state (ap_run [Go_on 0, Go_on 0, Run_at 0 1 ''f'', Go_on 0]
        (application_run 2 1024 ''stop'' ''main'' :: (string, string, int) application)) in
     ap_pc s 2 = Waiting 1 (Some 0) \<and>
     ((\<exists>r. 1 \<in> set (ap_inbox s r)) \<or> (\<exists>g. work (ap_pc s g) = Some 1 \<or> sends (ap_pc s g) = Some 1))"
proof -
  let ?res = "ap_run [Go_on 0, Go_on 0, Run_at 0 1 ''f'', Go_on 0]
    (application_run (Suc 1) 1024 ''stop'' ''main'' :: (string, string, int) application)"
  have "ran_well ?res" by code_simp
  note run = ran_well [OF this]
  have p: "ap_pc (run_state ?res) 2 = Waiting 1 (Some 0)" by code_simp
  show ?thesis using p no_call_lost [OF run, of 2] by (simp add: numeral_2_eq_2 del: ap_run.simps)
qed

subsection \<open>A full inbox\<close>

text \<open>What the other reactors leave alone: the active fiber of a reactor that is sending, and the messages of
  its inbox.\<close>

definition stuck :: "nat \<Rightarrow> nat \<Rightarrow> then_do \<Rightarrow> nat option \<Rightarrow> ('f, 'e, 'v) application \<Rightarrow> bool" where
  "stuck r a k w s \<longleftrightarrow> r < ap_cpus s \<and> ap_active s r < ap_fibers s \<and> ap_pc s (ap_active s r) = Sending r a k w \<and> ap_capacity s \<le> length (ap_inbox s r)"

lemma stuck_upd:
  "stuck r a k w s \<Longrightarrow> f \<noteq> ap_active s r \<Longrightarrow> stuck r a k w (at_pc f p s)"
  by (simp add: stuck_def)

lemma stuck_sched [simp]:
  "stuck r a k w (rs_awakened f s) = stuck r a k w s" "q \<noteq> r \<Longrightarrow> stuck r a k w (rs_pick_next q s) = stuck r a k w s"
  "q \<noteq> r \<Longrightarrow> stuck r a k w (rs_yield q s) = stuck r a k w s" "stuck r a k w (s\<lparr>ap_heap := h\<rparr>) = stuck r a k w s"
  "stuck r a k w (s\<lparr>ap_ran := l\<rparr>) = stuck r a k w s" "stuck r a k w (s\<lparr>ap_got := g\<rparr>) = stuck r a k w s"
  "stuck r a k w (new_message t m s) = stuck r a k w s" "stuck r a k w (reactor_stop q s) = stuck r a k w s"
  by (simp_all add: stuck_def rs_awakened_def rs_pick_next_def rs_yield_def new_message_def reactor_stop_def split: list.split)

lemma stuck_resume:
  "rs_resume f s = Inr t \<Longrightarrow> stuck r a k w s \<Longrightarrow> stuck r a k w t"
  by (auto simp: rs_resume_def stuck_def rs_awakened_def split: fiber_pc.splits)

lemma stuck_finish: "finish_message b s = Inr t \<Longrightarrow> stuck r a k w s \<Longrightarrow> stuck r a k w t"
  by (auto simp: finish_message_def dest: stuck_resume split: option.splits finish_effect.splits)

lemma stuck_new_fiber: "stuck r a k w s \<Longrightarrow> stuck r a k w (new_fiber q p s)"
  by (auto simp: new_fiber_def stuck_def rs_awakened_def)

lemma stuck_process: "process_fn q b s = Inr t \<Longrightarrow> stuck r a k w s \<Longrightarrow> stuck r a k w t"
  by (auto simp: process_fn_def intro: stuck_finish stuck_new_fiber split: option.splits if_splits)

lemma stuck_process_all: "process_all q bs s = Inr t \<Longrightarrow> stuck r a k w s \<Longrightarrow> stuck r a k w t"
  by (induction bs arbitrary: s) (auto dest: stuck_process split: sum.splits)

lemma stuck_inbox:
  "q \<noteq> r \<Longrightarrow> stuck r a k w s \<Longrightarrow> stuck r a k w (s\<lparr>ap_inbox := (ap_inbox s)(q := i)\<rparr>)"
  "stuck r a k w s \<Longrightarrow> stuck r a k w (s\<lparr>ap_inbox := (ap_inbox s)(q := ap_inbox s q @ [b])\<rparr>)"
  by (auto simp: stuck_def)

lemma stuck_suspend:
  "q \<noteq> r \<Longrightarrow> ap_active s q \<noteq> ap_active s r \<Longrightarrow> stuck r a k w s \<Longrightarrow> stuck r a k w (rs_suspend q p s)"
  by (simp add: rs_suspend_def stuck_upd)

lemma stuck_sent:
  "stuck r a k w s \<Longrightarrow> q \<noteq> r \<Longrightarrow> ap_active s q \<noteq> ap_active s r \<Longrightarrow> stuck r a k w (sent q b l v s)"
  by (cases l) (auto simp: sent_def end_fiber_def intro: stuck_suspend stuck_upd)

lemma stuck_send:
  "stuck r a k w s \<Longrightarrow> f \<noteq> ap_active s r \<Longrightarrow> stuck r a k w (at_pc f p (new_message t m s))"
  by (simp add: stuck_def new_message_def)

lemma stuck_go_on:
  assumes q: "q \<noteq> r" "ap_active s q \<noteq> ap_active s r" and st: "stuck r a k w s" and t: "go_on q s = Some (Inr t)"
  shows "stuck r a k w t"
proof -
  note up = stuck_upd [OF st q(2)] and su = stuck_suspend [OF q st]
  show ?thesis
  proof (cases "ap_pc s (ap_active s q)")
    case Looping
    have "stuck r a k w (s\<lparr>ap_inbox := (ap_inbox s)(q := [])\<rparr>)" by (rule stuck_inbox(1) [OF q(1) st])
    then have "receive_all q s = Inr u \<Longrightarrow> stuck r a k w u" for u
      unfolding receive_all_def by (rule stuck_process_all [rotated])
    with Looping t up q(1) show ?thesis by (auto simp: go_on_def event_loop_round_def split: if_splits sum.splits)
  next
    case (Shutting_down c v)
    with t up stuck_send [OF st q(2)] show ?thesis by (auto simp: go_on_def shutdown_next_def split: if_splits)
  next
    case (Sending x b l v)
    have "stuck r a k w (s\<lparr>ap_inbox := (ap_inbox s)(x := ap_inbox s x @ [b])\<rparr>)" by (rule stuck_inbox(2) [OF st])
    then have "stuck r a k w (sent q b l v (s\<lparr>ap_inbox := (ap_inbox s)(x := ap_inbox s x @ [b])\<rparr>))"
      by (rule stuck_sent) (simp_all add: q)
    with Sending t show ?thesis by (auto simp: go_on_def submit_to_def split: if_splits)
  next
    case (Woken b v)
    with t up q(2) st show ?thesis by (auto simp: go_on_def run_at_resumed_def stuck_def split: option.splits)
  qed (use t up in \<open>auto simp: go_on_def\<close>)
qed

lemma stuck_call:
  assumes q: "q \<noteq> r" "ap_active s q \<noteq> ap_active s r" and st: "stuck r a k w s" and e: "reactor_of e = Some q"
    and t: "call q e v s = Some (Inr t)"
  shows "stuck r a k w t"
proof -
  note up = stuck_upd [OF st q(2)]
  have su: "stuck r a k w u \<Longrightarrow> ap_active u q \<noteq> ap_active u r \<Longrightarrow> stuck r a k w (end_fiber q u)" for u
    unfolding end_fiber_def by (rule stuck_suspend [OF q(1)])
  have fr: "stuck r a k w (end_fiber q u)" if "finish_message b (s\<lparr>ap_heap := h, ap_ran := l\<rparr>) = Inr u" for b h l u
  proof (rule su)
    show "stuck r a k w u" by (rule stuck_finish [OF that]) (simp add: st)
    show "ap_active u q \<noteq> ap_active u r"
      using that q(2) by (auto simp: finish_message_def rs_resume_def rs_awakened_def
        split: option.splits finish_effect.splits fiber_pc.splits)
  qed
  show ?thesis
  proof (cases e)
    case (Returns q' ended)
    with e t su [OF st q(2)] fr up q(2) st show ?thesis
      by (auto simp: call_def function_returns_def Let_def stuck_def split: option.splits sum.splits if_splits)
  qed (use e t up q st stuck_send [OF st q(2)] stuck_new_fiber [OF st] in
    \<open>auto simp: call_def run_at_def run_at_async_def split: if_splits\<close>)
qed

lemma stuck_step:
  assumes s: "sched s" and st: "stuck r a k w s" and t: "ap_step e s = Some (Inr t)"
  shows "stuck r a k w t"
proof (cases "reactor_of e")
  case None
  with t st show ?thesis by (cases e) (auto simp: ap_step_def stuck_def split: if_splits)
next
  case (Some q)
  with t have q: "q < ap_cpus s" by (auto simp: ap_step_def split: if_splits)
  show ?thesis
  proof (cases "q = r")
    case True
    with Some t st show ?thesis by (cases e) (auto simp: ap_step_def stuck_def go_on_def submit_to_def split: if_splits)
  next
    case False
    have r: "r < ap_cpus s" using st by (simp add: stuck_def)
    have n: "ap_active s q \<noteq> ap_active s r" using sched_active(2) [OF s q] sched_active(2) [OF s r] False by auto
    show ?thesis
    proof (cases "\<exists>x. e = Go_on x")
      case True
      with Some t q stuck_go_on [OF False n st] show ?thesis by (auto simp: ap_step_def)
    next
      case nog: False
      with Some t q obtain v where "call q e v s = Some (Inr t)"
        by (cases e) (auto simp: ap_step_def split: fiber_pc.splits)
      with stuck_call [OF False n st Some] show ?thesis by blast
    qed
  qed
qed

lemma stuck_run:
  "ap_run es s = Some (Inr t) \<Longrightarrow> ap_ok s \<Longrightarrow> stuck r a k w s \<Longrightarrow> stuck r a k w t"
proof (induction es arbitrary: s)
  case (Cons e es)
  from Cons.prems(1) obtain u where u: "ap_step e s = Some (Inr u)" "ap_run es u = Some (Inr t)"
    by (auto split: option.splits sum.splits)
  have "ap_ok u" using ap_step_ok [OF Cons.prems(2) u(1)] by simp
  moreover have "stuck r a k w u" using stuck_step [OF _ Cons.prems(3) u(1)] Cons.prems(2) by (simp add: ap_ok_def)
  ultimately show ?case using Cons.IH [OF u(2)] by blast
qed simp

text \<open>C4: a reactor whose active fiber sends a message to the reactor's own inbox while that is full
  never goes on: only its event loop empties the inbox, and that cannot run while the sender spins.\<close>

theorem full_inbox_blocks_reactor:
  assumes "ap_run es (application_run (Suc n) capacity hook fn) = Some (Inr s)" and "r < ap_cpus s"
    and "ap_pc s (ap_active s r) = Sending r a k w" and "ap_capacity s \<le> length (ap_inbox s r)"
    and "ap_run es' s = Some (Inr t)"
  shows "ap_pc t (ap_active t r) = Sending r a k w"
proof -
  have ok: "ap_ok s" using ap_run_start [OF assms(1)] by simp
  then have "ap_active s r < ap_fibers s" using sched_active(1) [OF _ assms(2)] by (simp add: ap_ok_def)
  with assms have "stuck r a k w s" by (simp add: stuck_def)
  from stuck_run [OF assms(5) ok this] show ?thesis by (simp add: stuck_def)
qed

lemma full_inbox_blocks_reactor_witness:
  "let s = run_state (ap_run [Go_on 0, Go_on 0, Run_at_async 0 0 ''f'', Go_on 0, Run_at_async 0 0 ''g'']
        (application_run 2 1 ''stop'' ''main'' :: (string, string, int) application));
       t = run_state (ap_run [Go_on 1, Go_on 1] s) in
     ap_pc t (ap_active t 0) = Sending 0 2 Then_go_on (Some 0)"
proof -
  let ?res = "ap_run [Go_on 0, Go_on 0, Run_at_async 0 0 ''f'', Go_on 0, Run_at_async 0 0 ''g'']
    (application_run (Suc 1) 1 ''stop'' ''main'' :: (string, string, int) application)"
  let ?res' = "ap_run [Go_on 1, Go_on 1] (run_state ?res)"
  have "ran_well ?res" by code_simp
  note run = ran_well [OF this]
  have "ran_well ?res'" by code_simp
  note run' = ran_well [OF this]
  have s: "0 < ap_cpus (run_state ?res)" "ap_pc (run_state ?res) (ap_active (run_state ?res) 0) = Sending 0 2 Then_go_on (Some 0)"
    "ap_capacity (run_state ?res) \<le> length (ap_inbox (run_state ?res) 0)" by code_simp+
  show ?thesis using full_inbox_blocks_reactor [OF run s run'] by (simp add: numeral_2_eq_2 del: ap_run.simps)
qed

subsection \<open>Shutting down\<close>

text \<open>A message sent while the reactors shut down can be lost: the event loop ends as soon as no context is
  left, whatever is in its inbox.\<close>

theorem shutdown_loses_message:
  "let s = run_state (ap_run [Go_on 0, Go_on 0, Stop 0, Run_at_async 0 0 ''f'', Go_on 0, Returns 0 (Inr 7), Destroy 1, Go_on 0]
        (application_run 1 1024 ''stop'' ''main'' :: (string, string, int) application)) in
     ap_pc s 0 = Loop_finished \<and> ap_inbox s 0 = [1] \<and> map_option msg_fn (ap_heap s 1) = Some ''f''"
  by code_simp

end
