(* ===== verification/Thread_Pool.thy ===== *)
theory Thread_Pool
  imports Dumbo_Prelude
begin

text \<open>
  The thread pool (\<open>reactor/thread_pool.hpp\<close>, \<open>thread_pool.cpp\<close>): workers that run one task at a time
  for the reactor that owns the pool. A worker's thread and the pool's owner share the worker's members under its
  mutex; a step is what one of them does between two releases of that mutex. The memory of a
  worker is named by a number.
\<close>

subsection \<open>The workers\<close>

text \<open>The thread of a worker: started, not yet at its loop; waiting for \<open>ready_\<close>; processing a task; over.\<close>

datatype worker_pc = W_started | W_waiting | W_processing nat | W_over

record worker =
  wk_task :: "nat option"
  wk_stop :: bool
  wk_finished :: bool
  wk_ready :: bool
  wk_joinable :: bool
  wk_pc :: worker_pc

definition Worker_new :: worker where
  "Worker_new = \<lparr>wk_task = None, wk_stop = False, wk_finished = False, wk_ready = False, wk_joinable = True, wk_pc = W_started\<rparr>"

text \<open>The thread: \<open>ready_ = false\<close> at the head of its loop, the wait, and the task. \<open>None\<close>: it waits. The result names the
  task to hand back to the owner's reactor.\<close>

definition worker_thread :: "worker \<Rightarrow> (worker \<times> nat option) option" where
  "worker_thread k =
     (case wk_pc k of
        W_started \<Rightarrow> Some (k\<lparr>wk_ready := False, wk_pc := W_waiting\<rparr>, None)
      | W_waiting \<Rightarrow>
          if \<not> wk_ready k then None
          else if \<not> wk_stop k
          then (case wk_task k of
                  None \<Rightarrow> None
                | Some task \<Rightarrow> Some (k\<lparr>wk_pc := W_processing task\<rparr>, None))
          else Some (k\<lparr>wk_finished := True, wk_pc := W_over\<rparr>, None)
      | W_processing task \<Rightarrow> Some (k\<lparr>wk_ready := False, wk_pc := W_waiting\<rparr>, Some task)
      | W_over \<Rightarrow> None)"

text \<open>\<open>stop\<close> up to the join, and \<open>run\<close>. The mutex is held by the thread while it processes a task, so that
  the owner waits then: \<open>None\<close>.\<close>

definition mutex_free :: "worker \<Rightarrow> bool" where
  "mutex_free k = (case wk_pc k of W_processing task \<Rightarrow> False | _ \<Rightarrow> True)"

definition Worker_stop :: "worker \<Rightarrow> worker option" where
  "Worker_stop k = (if mutex_free k then Some (k\<lparr>wk_stop := True, wk_ready := True, wk_task := None\<rparr>) else None)"

definition Worker_is_finished :: "worker \<Rightarrow> bool option" where
  "Worker_is_finished k = (if mutex_free k then Some (wk_finished k) else None)"

definition Worker_run :: "nat \<Rightarrow> worker \<Rightarrow> worker option" where
  "Worker_run task k = (if mutex_free k then Some (k\<lparr>wk_task := Some task, wk_ready := True\<rparr>) else None)"

subsection \<open>The pool\<close>

record thread_pool =
  tp_min_size :: nat
  tp_max_size :: nat
  tp_free_workers :: "nat list"
  tp_busy_workers :: "nat list"
  tp_worker :: "nat \<Rightarrow> worker option"
  tp_next :: nat
  tp_data :: "nat \<Rightarrow> nat option"

definition new_worker :: "thread_pool \<Rightarrow> nat \<times> thread_pool" where
  "new_worker p = (tp_next p, p\<lparr>tp_worker := (tp_worker p)(tp_next p \<mapsto> Worker_new), tp_next := Suc (tp_next p)\<rparr>)"

fun add_workers :: "nat \<Rightarrow> thread_pool \<Rightarrow> thread_pool" where
  "add_workers 0 p = p"
| "add_workers (Suc n) p =
     (let (k, p) = new_worker p in add_workers n (p\<lparr>tp_free_workers := tp_free_workers p @ [k]\<rparr>))"

definition ThreadPool_new :: "nat \<Rightarrow> nat \<Rightarrow> thread_pool" where
  "ThreadPool_new min_size max_size = add_workers min_size
     \<lparr>tp_min_size = min_size, tp_max_size = max_size, tp_free_workers = [], tp_busy_workers = [],
      tp_worker = (\<lambda>_. None), tp_next = 0, tp_data = (\<lambda>_. None)\<rparr>"

definition acquire_worker :: "thread_pool \<Rightarrow> nat \<times> thread_pool" where
  "acquire_worker p =
     (let (k, p) = (if length (tp_free_workers p) > 0
            then (last (tp_free_workers p), p\<lparr>tp_free_workers := butlast (tp_free_workers p)\<rparr>)
            else new_worker p)
      in (k, p\<lparr>tp_busy_workers := tp_busy_workers p @ [k]\<rparr>))"

text \<open>\<open>try_run\<close>. \<open>None\<close>: the owner waits for the worker's mutex.\<close>

definition try_run :: "nat \<Rightarrow> thread_pool \<Rightarrow> (bool \<times> thread_pool) option" where
  "try_run task p =
     (if length (tp_busy_workers p) < tp_max_size p
      then (let (k, p) = acquire_worker p in
            case tp_worker p k of
              None \<Rightarrow> None
            | Some wk \<Rightarrow> map_option (\<lambda>wk. (True, p\<lparr>tp_worker := (tp_worker p)(k \<mapsto> wk)\<rparr>)) (Worker_run task wk))
      else Some (False, p))"

text \<open>What the owner does: nothing; it is in \<open>stop\<close>, waiting for the end of a worker's thread, with what
  follows; or the pool has been stopped.\<close>

datatype owner_pc = O_idle | O_stopping nat then_pool | O_stopped
and then_pool = Then_delete | Then_stop "nat list"

text \<open>The pool with the reactor's messages that come back. For the properties: the tasks given to the pool and the
  tasks processed, with their workers.\<close>

record pool_system =
  ps_pool :: thread_pool
  ps_owner :: owner_pc
  ps_joining :: bool
  ps_returned :: "nat list"
  ps_tried :: "nat list"
  ps_processed :: "(nat \<times> nat) list"

text \<open>\<open>release\<close>, with the worker in the task's \<open>data\<close>.\<close>

definition release :: "nat \<Rightarrow> pool_system \<Rightarrow> pool_system option" where
  "release task s =
     (let p = ps_pool s in
      case tp_data p task of
        None \<Rightarrow> None
      | Some k \<Rightarrow>
          (let p = p\<lparr>tp_busy_workers := remove1 k (tp_busy_workers p)\<rparr> in
           if length (tp_free_workers p) < tp_min_size p
           then Some (s\<lparr>ps_pool := p\<lparr>tp_free_workers := tp_free_workers p @ [k]\<rparr>\<rparr>)
           else Some (s\<lparr>ps_pool := p, ps_owner := O_stopping k Then_delete\<rparr>)))"

text \<open>\<open>stop_workers\<close>: the free workers one after the other.\<close>

definition stop_next :: "nat list \<Rightarrow> owner_pc" where
  "stop_next ks = (case ks of [] \<Rightarrow> O_stopped | k # ks \<Rightarrow> O_stopping k (Then_stop ks))"

definition stop_workers :: "pool_system \<Rightarrow> pool_system" where
  "stop_workers s = s\<lparr>ps_owner := stop_next (tp_free_workers (ps_pool s))\<rparr>"

text \<open>The owner goes on in \<open>stop\<close>: it sets the flags, then joins the thread; a worker that was released is then
  deleted.\<close>

definition stop_returns :: "nat \<Rightarrow> then_pool \<Rightarrow> worker \<Rightarrow> pool_system \<Rightarrow> pool_system" where
  "stop_returns k what wk s =
     (case what of
        Then_delete \<Rightarrow> s\<lparr>ps_pool := (ps_pool s)\<lparr>tp_worker := (tp_worker (ps_pool s))(k := None)\<rparr>,
          ps_owner := O_idle, ps_joining := False\<rparr>
      | Then_stop ks \<Rightarrow> s\<lparr>ps_pool := (ps_pool s)\<lparr>tp_worker := (tp_worker (ps_pool s))(k \<mapsto> wk)\<rparr>,
          ps_owner := stop_next ks, ps_joining := False\<rparr>)"

definition owner_goes_on :: "pool_system \<Rightarrow> pool_system option" where
  "owner_goes_on s =
     (case ps_owner s of
        O_stopping k what \<Rightarrow>
          (case tp_worker (ps_pool s) k of
             None \<Rightarrow> None
           | Some wk \<Rightarrow>
               if \<not> wk_joinable wk then Some (stop_returns k what wk s)
               else if \<not> ps_joining s
               then map_option (\<lambda>wk. s\<lparr>ps_pool := (ps_pool s)\<lparr>tp_worker := (tp_worker (ps_pool s))(k \<mapsto> wk)\<rparr>, ps_joining := True\<rparr>)
                 (Worker_stop wk)
               else if wk_pc wk = W_over
               then Some (stop_returns k what (wk\<lparr>wk_joinable := False\<rparr>) s)
               else None)
      | _ \<Rightarrow> None)"

definition thread_step :: "nat \<Rightarrow> pool_system \<Rightarrow> pool_system option" where
  "thread_step k s =
     (case tp_worker (ps_pool s) k of
        None \<Rightarrow> None
      | Some wk \<Rightarrow>
          (case worker_thread wk of
             None \<Rightarrow> None
           | Some (wk, handed) \<Rightarrow>
               (let p = (ps_pool s)\<lparr>tp_worker := (tp_worker (ps_pool s))(k \<mapsto> wk)\<rparr> in
                case handed of
                  None \<Rightarrow> Some (s\<lparr>ps_pool := p\<rparr>)
                | Some task \<Rightarrow> Some (s\<lparr>ps_pool := p\<lparr>tp_data := (tp_data p)(task \<mapsto> k)\<rparr>,
                    ps_returned := ps_returned s @ [task], ps_processed := ps_processed s @ [(task, k)]\<rparr>))))"

text \<open>The events: the reactor gives a task to the pool or gets one back, stops the pool, or goes on; a thread
  runs. A task is a message of its own.\<close>

datatype pool_event = Try_run nat | Release | Stop_workers | Owner | Thread nat

definition ps_step :: "pool_event \<Rightarrow> pool_system \<Rightarrow> pool_system option" where
  "ps_step e s =
     (case e of
        Try_run task \<Rightarrow>
          if ps_owner s = O_idle \<and> task \<notin> set (ps_tried s)
          then map_option (\<lambda>(b, p). s\<lparr>ps_pool := p, ps_tried := (if b then ps_tried s @ [task] else ps_tried s)\<rparr>)
            (try_run task (ps_pool s))
          else None
      | Release \<Rightarrow>
          (case ps_returned s of
             [] \<Rightarrow> None
           | task # tasks \<Rightarrow> if ps_owner s = O_idle then release task (s\<lparr>ps_returned := tasks\<rparr>) else None)
      | Stop_workers \<Rightarrow> if ps_owner s = O_idle then Some (stop_workers s) else None
      | Owner \<Rightarrow> owner_goes_on s
      | Thread k \<Rightarrow> thread_step k s)"

definition ps_start :: "nat \<Rightarrow> nat \<Rightarrow> pool_system" where
  "ps_start min_size max_size = \<lparr>ps_pool = ThreadPool_new min_size max_size, ps_owner = O_idle, ps_joining = False,
     ps_returned = [], ps_tried = [], ps_processed = []\<rparr>"

fun ps_run :: "pool_event list \<Rightarrow> pool_system \<Rightarrow> pool_system option" where
  "ps_run [] s = Some s"
| "ps_run (e # es) s = (case ps_step e s of None \<Rightarrow> None | Some t \<Rightarrow> ps_run es t)"

text \<open>The destructor deletes the free workers; the destructor of a joinable thread terminates the program.\<close>

definition ThreadPool_delete :: "thread_pool \<Rightarrow> thread_pool option" where
  "ThreadPool_delete p =
     (if list_all (\<lambda>k. case tp_worker p k of Some wk \<Rightarrow> \<not> wk_joinable wk | None \<Rightarrow> False) (tp_free_workers p)
      then Some (p\<lparr>tp_worker := (\<lambda>k. if k \<in> set (tp_free_workers p) then None else tp_worker p k), tp_free_workers := []\<rparr>)
      else None)"

definition wait_for_termination :: "thread_pool \<Rightarrow> bool" where
  "wait_for_termination p =
     list_all (\<lambda>k. case tp_worker p k of Some wk \<Rightarrow> Worker_is_finished wk = Some True | None \<Rightarrow> False) (tp_free_workers p)"

subsection \<open>The invariant\<close>

text \<open>A busy worker has its task before it, in its hands or behind it.\<close>

definition idle :: "worker \<Rightarrow> bool" where
  "idle wk \<longleftrightarrow> \<not> wk_ready wk \<and> (wk_pc wk = W_waiting \<or> wk_pc wk = W_started)"

definition carries :: "worker \<Rightarrow> nat \<Rightarrow> bool" where
  "carries wk task \<longleftrightarrow> wk_pc wk = W_processing task \<or> (wk_task wk = Some task \<and> wk_ready wk \<and> (wk_pc wk = W_waiting \<or> wk_pc wk = W_started))"

definition stopped :: "owner_pc \<Rightarrow> bool" where
  "stopped o' = (case o' of O_idle \<Rightarrow> False | O_stopping k what \<Rightarrow> what \<noteq> Then_delete | O_stopped \<Rightarrow> True)"

text \<open>The lists.\<close>

definition lists_ok :: "thread_pool \<Rightarrow> owner_pc \<Rightarrow> bool" where
  "lists_ok p o' \<longleftrightarrow>
     distinct (tp_free_workers p @ tp_busy_workers p) \<and>
     (\<forall>k \<in> set (tp_free_workers p @ tp_busy_workers p). tp_worker p k \<noteq> None) \<and>
     (\<forall>k. tp_worker p k \<noteq> None \<longrightarrow> k < tp_next p) \<and>
     length (tp_free_workers p) \<le> tp_min_size p \<and> length (tp_busy_workers p) \<le> tp_max_size p \<and>
     (\<forall>k. o' = O_stopping k Then_delete \<longrightarrow> k \<notin> set (tp_free_workers p @ tp_busy_workers p)) \<and>
     (\<forall>k ks. o' = O_stopping k (Then_stop ks) \<longrightarrow> set (k # ks) \<subseteq> set (tp_free_workers p))"

text \<open>A worker that is not stopped, and its tasks.\<close>

definition worker_ok :: "pool_system \<Rightarrow> nat \<Rightarrow> worker \<Rightarrow> bool" where
  "worker_ok s k wk \<longleftrightarrow>
     (k \<in> set (tp_free_workers (ps_pool s)) \<longrightarrow> \<not> stopped (ps_owner s) \<longrightarrow> idle wk) \<and>
     (\<forall>t. carries wk t \<longrightarrow> k \<in> set (tp_busy_workers (ps_pool s)) \<and> t \<in> set (ps_tried s) \<and> t \<notin> fst ` set (ps_processed s))"

definition returned_ok :: "pool_system \<Rightarrow> nat \<Rightarrow> bool" where
  "returned_ok s t \<longleftrightarrow> t \<in> fst ` set (ps_processed s) \<and>
     (\<exists>k wk. tp_data (ps_pool s) t = Some k \<and> tp_worker (ps_pool s) k = Some wk \<and>
        k \<in> set (tp_busy_workers (ps_pool s)) \<and> idle wk)"

definition one_worker_per_task :: "(nat \<Rightarrow> worker option) \<Rightarrow> bool" where
  "one_worker_per_task W \<longleftrightarrow> (\<forall>k l wk vk t. W k = Some wk \<longrightarrow> W l = Some vk \<longrightarrow> carries wk t \<longrightarrow> carries vk t \<longrightarrow> k = l)"

definition pool_ok :: "pool_system \<Rightarrow> bool" where
  "pool_ok s \<longleftrightarrow> lists_ok (ps_pool s) (ps_owner s) \<and>
     (\<forall>k wk. tp_worker (ps_pool s) k = Some wk \<longrightarrow> worker_ok s k wk) \<and>
     one_worker_per_task (tp_worker (ps_pool s)) \<and>
     (\<forall>t \<in> set (ps_returned s). returned_ok s t) \<and> distinct (map (tp_data (ps_pool s)) (ps_returned s)) \<and>
     distinct (map fst (ps_processed s)) \<and> fst ` set (ps_processed s) \<subseteq> set (ps_tried s)"

lemma lists_okD:
  assumes "lists_ok p o'"
  shows "distinct (tp_free_workers p)" "distinct (tp_busy_workers p)" "set (tp_free_workers p) \<inter> set (tp_busy_workers p) = {}"
    and "k \<in> set (tp_free_workers p) \<Longrightarrow> tp_worker p k \<noteq> None" "k \<in> set (tp_busy_workers p) \<Longrightarrow> tp_worker p k \<noteq> None"
    and "tp_worker p k \<noteq> None \<Longrightarrow> k < tp_next p"
    and "length (tp_free_workers p) \<le> tp_min_size p" "length (tp_busy_workers p) \<le> tp_max_size p"
  using assms by (simp_all add: lists_ok_def)

lemma pool_okD:
  assumes "pool_ok s"
  shows "lists_ok (ps_pool s) (ps_owner s)" and "tp_worker (ps_pool s) k = Some wk \<Longrightarrow> worker_ok s k wk"
    and "tp_worker (ps_pool s) k = Some wk \<Longrightarrow> tp_worker (ps_pool s) l = Some vk \<Longrightarrow> carries wk t \<Longrightarrow> carries vk t \<Longrightarrow> k = l"
    and "t \<in> set (ps_returned s) \<Longrightarrow> returned_ok s t" and "distinct (map (tp_data (ps_pool s)) (ps_returned s))"
    and "distinct (map fst (ps_processed s))" "fst ` set (ps_processed s) \<subseteq> set (ps_tried s)"
proof -
  have U: "one_worker_per_task (tp_worker (ps_pool s))" using assms by (simp add: pool_ok_def)
  show "tp_worker (ps_pool s) k = Some wk \<Longrightarrow> tp_worker (ps_pool s) l = Some vk \<Longrightarrow> carries wk t \<Longrightarrow> carries vk t \<Longrightarrow> k = l"
    by (rule U [unfolded one_worker_per_task_def, rule_format])
qed (use assms in \<open>simp_all add: pool_ok_def\<close>)

lemma idle_carries [simp]: "idle wk \<Longrightarrow> \<not> carries wk t"
  by (auto simp: idle_def carries_def)

lemma carries_unique: "carries wk t \<Longrightarrow> carries wk u \<Longrightarrow> t = u"
  by (auto simp: carries_def)

text \<open>A step of a worker's thread that hands nothing back leaves it with the same task, or none.\<close>

lemma worker_thread_None:
  assumes "worker_thread wk = Some (vk, None)"
  shows "carries vk t \<Longrightarrow> carries wk t" "idle wk \<Longrightarrow> idle vk"
  using assms by (auto simp: worker_thread_def carries_def idle_def split: worker_pc.splits if_splits option.splits)

lemma worker_thread_Some:
  assumes "worker_thread wk = Some (vk, Some t)"
  shows "carries wk t" "idle vk"
  using assms by (auto simp: worker_thread_def carries_def idle_def split: worker_pc.splits if_splits option.splits)

lemma lists_ok_worker:
  "lists_ok p o' \<Longrightarrow> tp_worker p k \<noteq> None \<Longrightarrow> lists_ok (p\<lparr>tp_worker := (tp_worker p)(k \<mapsto> wk)\<rparr>) o'"
  by (auto simp: lists_ok_def)

lemma lists_ok_data [simp]: "lists_ok (p\<lparr>tp_data := d\<rparr>) o' = lists_ok p o'"
  by (simp add: lists_ok_def)

lemma thread_step_ok:
  assumes I: "pool_ok s" and t: "thread_step k s = Some u"
  shows "pool_ok u"
proof -
  obtain wk vk handed where wk: "tp_worker (ps_pool s) k = Some wk" and st: "worker_thread wk = Some (vk, handed)"
    using t by (auto simp: thread_step_def split: option.splits)
  have L: "lists_ok ((ps_pool s)\<lparr>tp_worker := (tp_worker (ps_pool s))(k \<mapsto> vk)\<rparr>) (ps_owner s)"
    using I wk by (intro lists_ok_worker) (simp_all add: pool_ok_def)
  show ?thesis
  proof (cases handed)
    case None
    note N = worker_thread_None [OF st [unfolded None]]
    have u: "u = s\<lparr>ps_pool := (ps_pool s)\<lparr>tp_worker := (tp_worker (ps_pool s))(k \<mapsto> vk)\<rparr>\<rparr>"
      using t wk st None by (simp add: thread_step_def)
    have "worker_ok u l xk" if "tp_worker (ps_pool u) l = Some xk" for l xk
    proof (cases "l = k")
      case True
      with I wk N that show ?thesis unfolding pool_ok_def worker_ok_def u by auto
    next
      case False
      with I that show ?thesis unfolding pool_ok_def worker_ok_def u by auto
    qed
    moreover have "returned_ok u x" if "x \<in> set (ps_returned u)" for x
      using I that wk N(2) unfolding pool_ok_def returned_ok_def u by (auto; metis option.inject)
    ultimately show ?thesis
      using I L wk N(1) unfolding pool_ok_def one_worker_per_task_def u by auto
  next
    case (Some x)
    note S = worker_thread_Some [OF st [unfolded Some]]
    have u: "u = s\<lparr>ps_pool := (ps_pool s)\<lparr>tp_worker := (tp_worker (ps_pool s))(k \<mapsto> vk), tp_data := (tp_data (ps_pool s))(x \<mapsto> k)\<rparr>,
        ps_returned := ps_returned s @ [x], ps_processed := ps_processed s @ [(x, k)]\<rparr>"
      using t wk st Some by (simp add: thread_step_def)
    have b: "k \<in> set (tp_busy_workers (ps_pool s))" "x \<in> set (ps_tried s)" "x \<notin> fst ` set (ps_processed s)"
    proof -
      have "worker_ok s k wk" using I wk by (simp add: pool_ok_def)
      with S(1) show "k \<in> set (tp_busy_workers (ps_pool s))" "x \<in> set (ps_tried s)" "x \<notin> fst ` set (ps_processed s)"
        unfolding worker_ok_def by blast+
    qed
    have f: "k \<notin> set (tp_free_workers (ps_pool s))" using I b(1) unfolding pool_ok_def lists_ok_def by auto
    have r: "y \<noteq> x \<and> tp_data (ps_pool s) y \<noteq> Some k" if "y \<in> set (ps_returned s)" for y
    proof -
      have ret: "returned_ok s y" using I that by (simp add: pool_ok_def)
      then have "y \<noteq> x" using b(3) by (auto simp: returned_ok_def)
      moreover have "\<not> idle wk" using S(1) idle_carries by blast
      ultimately show ?thesis using ret wk by (auto simp: returned_ok_def)
    qed
    have "worker_ok u l xk" if "tp_worker (ps_pool u) l = Some xk" for l xk
    proof (cases "l = k")
      case True
      with that f S(2) show ?thesis unfolding worker_ok_def u by auto
    next
      case False
      with I that have "worker_ok s l xk" by (simp add: pool_ok_def u)
      moreover have "\<not> carries xk x" using I False that wk S(1) unfolding pool_ok_def one_worker_per_task_def u by auto
      ultimately show ?thesis unfolding worker_ok_def u by auto
    qed
    moreover have "returned_ok u y" if "y \<in> set (ps_returned u)" for y
    proof (cases "y = x")
      case True
      with b S(2) show ?thesis by (simp add: returned_ok_def u)
    next
      case False
      with that have "y \<in> set (ps_returned s)" by (simp add: u)
      then have "returned_ok s y" and r': "y \<noteq> x" "tp_data (ps_pool s) y \<noteq> Some k" using I r [of y] by (simp_all add: pool_ok_def)
      then obtain l xk where "tp_data (ps_pool s) y = Some l" "tp_worker (ps_pool s) l = Some xk"
        "l \<in> set (tp_busy_workers (ps_pool s))" "idle xk" "y \<in> fst ` set (ps_processed s)"
        by (auto simp: returned_ok_def)
      with r' show ?thesis by (auto simp: returned_ok_def u)
    qed
    moreover have "distinct (map (tp_data (ps_pool u)) (ps_returned u))"
    proof -
      have "map (tp_data (ps_pool u)) (ps_returned u) = map (tp_data (ps_pool s)) (ps_returned s) @ [Some k]"
        using r by (simp add: u)
      moreover have "Some k \<notin> tp_data (ps_pool s) ` set (ps_returned s)" using r by (metis imageE)
      ultimately show ?thesis using pool_okD(5) [OF I] by simp
    qed
    moreover have "one_worker_per_task (tp_worker (ps_pool u))"
      using I S(2) unfolding pool_ok_def one_worker_per_task_def u by (auto split: if_splits)
    moreover have "lists_ok (ps_pool u) (ps_owner u)" using L by (simp add: u)
    moreover have "distinct (map fst (ps_processed u))" "fst ` set (ps_processed u) \<subseteq> set (ps_tried u)"
      using I b by (auto simp: pool_ok_def u)
    ultimately show ?thesis unfolding pool_ok_def by blast
  qed
qed

text \<open>The owner's steps.\<close>

lemma Worker_run_carries:
  assumes "Worker_run task wk = Some vk" "idle wk"
  shows "carries vk t \<longleftrightarrow> t = task"
  using assms by (auto simp: Worker_run_def carries_def idle_def split: if_splits)

lemma acquire_worker_ok:
  assumes L: "lists_ok p o'" and m: "length (tp_busy_workers p) < tp_max_size p" and o: "o' = O_idle"
    and free: "\<And>k wk. k \<in> set (tp_free_workers p) \<Longrightarrow> tp_worker p k = Some wk \<Longrightarrow> idle wk"
    and a: "acquire_worker p = (k, q)"
  obtains wk where "tp_worker q = (tp_worker p)(k \<mapsto> wk)" "idle wk" "lists_ok q o'" "tp_data q = tp_data p"
    "tp_busy_workers q = tp_busy_workers p @ [k]" "k \<notin> set (tp_free_workers q)" "set (tp_free_workers q) \<subseteq> set (tp_free_workers p)"
    "k \<notin> set (tp_busy_workers p)"
proof (cases "tp_free_workers p")
  case Nil
  let ?k = "tp_next p"
  have n: "tp_worker p ?k = None" using L unfolding lists_ok_def by (metis less_irrefl)
  have q: "k = ?k" "q = p\<lparr>tp_worker := (tp_worker p)(?k \<mapsto> Worker_new), tp_next := Suc ?k, tp_busy_workers := tp_busy_workers p @ [?k]\<rparr>"
    using a Nil by (auto simp: acquire_worker_def new_worker_def)
  have nb: "?k \<notin> set (tp_busy_workers p)" using L n Nil unfolding lists_ok_def by auto
  show thesis
  proof (rule that [of Worker_new])
    show "lists_ok q o'" using L m o n nb Nil unfolding lists_ok_def q
      by (auto simp: less_Suc_eq)
  qed (use q nb Nil in \<open>simp_all add: idle_def Worker_new_def\<close>)
next
  case (Cons x xs)
  then have ne: "tp_free_workers p \<noteq> []" by simp
  let ?k = "last (tp_free_workers p)"
  have f: "tp_free_workers p = butlast (tp_free_workers p) @ [?k]" using ne by simp
  have kf: "?k \<in> set (tp_free_workers p)" using ne by simp
  obtain wk where wk: "tp_worker p ?k = Some wk" using lists_okD(4) [OF L kf] by auto
  have q: "k = ?k" "q = p\<lparr>tp_free_workers := butlast (tp_free_workers p), tp_busy_workers := tp_busy_workers p @ [?k]\<rparr>"
    using a ne by (auto simp: acquire_worker_def)
  have d: "distinct (butlast (tp_free_workers p) @ [?k] @ tp_busy_workers p)" using L f unfolding lists_ok_def by (metis append.assoc)
  show thesis
  proof (rule that [of wk])
    show "idle wk" by (rule free [OF kf wk])
    show "lists_ok q o'" using L m o d wk kf unfolding lists_ok_def q
      by (auto dest: in_set_butlastD)
    show "tp_worker q = (tp_worker p)(k \<mapsto> wk)" using q wk by auto
  qed (use q d in \<open>auto dest: in_set_butlastD\<close>)
qed

lemma try_run_ok:
  assumes I: "pool_ok s" and o: "ps_owner s = O_idle" and new: "task \<notin> set (ps_tried s)"
    and t: "try_run task (ps_pool s) = Some (b, q)"
  shows "pool_ok (s\<lparr>ps_pool := q, ps_tried := (if b then ps_tried s @ [task] else ps_tried s)\<rparr>)"
proof (cases "length (tp_busy_workers (ps_pool s)) < tp_max_size (ps_pool s)")
  case False
  with t have "b = False" "s\<lparr>ps_pool := q\<rparr> = s" by (auto simp: try_run_def)
  with I show ?thesis by simp
next
  case True
  obtain k p where a: "acquire_worker (ps_pool s) = (k, p)" by force
  have L: "lists_ok (ps_pool s) (ps_owner s)" using I by (simp add: pool_ok_def)
  have fr: "idle wk" if "j \<in> set (tp_free_workers (ps_pool s))" "tp_worker (ps_pool s) j = Some wk" for j wk
  proof -
    have "worker_ok s j wk" using I that by (simp add: pool_ok_def)
    with that o show ?thesis by (simp add: worker_ok_def stopped_def)
  qed
  obtain wk where p: "tp_worker p = (tp_worker (ps_pool s))(k \<mapsto> wk)" "idle wk" "lists_ok p (ps_owner s)" "tp_data p = tp_data (ps_pool s)"
    "tp_busy_workers p = tp_busy_workers (ps_pool s) @ [k]" "k \<notin> set (tp_free_workers p)"
    "set (tp_free_workers p) \<subseteq> set (tp_free_workers (ps_pool s))" "k \<notin> set (tp_busy_workers (ps_pool s))"
    by (rule acquire_worker_ok [OF L True o fr a])
  from t True a p(1) obtain vk where vk: "Worker_run task wk = Some vk" and q: "b" "q = p\<lparr>tp_worker := (tp_worker p)(k \<mapsto> vk)\<rparr>"
    by (auto simp: try_run_def split: if_splits)
  note C = Worker_run_carries [OF vk p(2)]
  let ?u = "s\<lparr>ps_pool := q, ps_tried := ps_tried s @ [task]\<rparr>"
  have new': "\<not> carries xk task" if "tp_worker (ps_pool s) l = Some xk" for l xk
  proof -
    have "worker_ok s l xk" using I that by (simp add: pool_ok_def)
    with new show ?thesis by (auto simp: worker_ok_def)
  qed
  have np: "task \<notin> fst ` set (ps_processed s)" using I new by (auto simp: pool_ok_def)
  have w: "worker_ok ?u l xk" if "tp_worker q l = Some xk" for l xk
  proof (cases "l = k")
    case True
    with that C p q np show ?thesis by (auto simp: worker_ok_def)
  next
    case False
    with that p(1) q have "worker_ok s l xk" using I by (simp add: pool_ok_def)
    with p q False show ?thesis by (auto simp: worker_ok_def)
  qed
  have rt: "returned_ok ?u y" if "y \<in> set (ps_returned s)" for y
  proof -
    have "returned_ok s y" using I that by (simp add: pool_ok_def)
    then obtain l xk where "tp_data (ps_pool s) y = Some l" "tp_worker (ps_pool s) l = Some xk"
      "l \<in> set (tp_busy_workers (ps_pool s))" "idle xk" "y \<in> fst ` set (ps_processed s)"
      by (auto simp: returned_ok_def)
    with p q show ?thesis by (auto simp: returned_ok_def)
  qed
  have un: "one_worker_per_task (tp_worker q)" unfolding one_worker_per_task_def
  proof (intro allI impI)
    fix j l xk yk t assume *: "tp_worker q j = Some xk" "tp_worker q l = Some yk" "carries xk t" "carries yk t"
    have at: "(i = k \<and> zk = vk) \<or> (i \<noteq> k \<and> tp_worker (ps_pool s) i = Some zk)" if "tp_worker q i = Some zk" for i zk
      using that p(1) q(2) by (auto split: if_splits)
    show "j = l"
    proof (cases "j = k \<or> l = k")
      case True
      then have "t = task" using at [OF *(1)] at [OF *(2)] *(3,4) C by auto
      with at [OF *(1)] at [OF *(2)] *(3,4) new' show ?thesis by blast
    next
      case False
      with at [OF *(1)] at [OF *(2)] have "tp_worker (ps_pool s) j = Some xk" "tp_worker (ps_pool s) l = Some yk" by auto
      from pool_okD(3) [OF I this *(3,4)] show ?thesis .
    qed
  qed
  have "lists_ok q (ps_owner s)" unfolding q(2) by (rule lists_ok_worker [OF p(3)]) (simp add: p(1))
  with w rt un I p q show ?thesis by (auto simp: pool_ok_def)
qed

lemma release_ok:
  assumes I: "pool_ok s" and o: "ps_owner s = O_idle" and r: "ps_returned s = task # tasks"
  obtains u where "release task (s\<lparr>ps_returned := tasks\<rparr>) = Some u" "pool_ok u"
proof -
  have "returned_ok s task" using I r by (simp add: pool_ok_def)
  then obtain k wk where k: "tp_data (ps_pool s) task = Some k" "tp_worker (ps_pool s) k = Some wk"
    "k \<in> set (tp_busy_workers (ps_pool s))" "idle wk" by (auto simp: returned_ok_def)
  let ?p = "(ps_pool s)\<lparr>tp_busy_workers := remove1 k (tp_busy_workers (ps_pool s))\<rparr>"
  note L = lists_okD [OF pool_okD(1) [OF I]]
  have d: "distinct (tp_busy_workers (ps_pool s))" "k \<notin> set (tp_free_workers (ps_pool s))"
    using L(2,3) k(3) by auto
  have len: "length (remove1 k (tp_busy_workers (ps_pool s))) \<le> tp_max_size (ps_pool s)"
  proof -
    show ?thesis using k(3) L(8) by (simp add: length_remove1)
  qed
  have oth: "tp_data (ps_pool s) y \<noteq> Some k" if "y \<in> set tasks" for y
  proof -
    have "tp_data (ps_pool s) task \<notin> tp_data (ps_pool s) ` set tasks" using pool_okD(5) [OF I] r by simp
    with that k(1) show ?thesis by (metis imageI)
  qed
  have rt: "returned_ok u y" if "y \<in> set tasks" "tp_data (ps_pool u) = tp_data (ps_pool s)" "tp_worker (ps_pool u) = tp_worker (ps_pool s)"
    "ps_processed u = ps_processed s" "tp_busy_workers (ps_pool u) = remove1 k (tp_busy_workers (ps_pool s))" for u y
  proof -
    have "returned_ok s y" using I that(1) r by (simp add: pool_ok_def)
    with oth [OF that(1)] that d(1) show ?thesis by (auto simp: returned_ok_def)
  qed
  have w: "worker_ok u l xk" if "tp_worker (ps_pool s) l = Some xk" "ps_tried u = ps_tried s" "ps_processed u = ps_processed s"
    "tp_busy_workers (ps_pool u) = remove1 k (tp_busy_workers (ps_pool s))"
    "set (tp_free_workers (ps_pool u)) \<subseteq> insert k (set (tp_free_workers (ps_pool s)))" for u l xk
  proof -
    have "worker_ok s l xk" using I that(1) by (simp add: pool_ok_def)
    with that d o k(2,4) show ?thesis by (auto simp: worker_ok_def stopped_def)
  qed
  show thesis
  proof (cases "length (tp_free_workers (ps_pool s)) < tp_min_size (ps_pool s)")
    case True
    let ?u = "s\<lparr>ps_returned := tasks, ps_pool := ?p\<lparr>tp_free_workers := tp_free_workers ?p @ [k]\<rparr>\<rparr>"
    have "lists_ok (ps_pool ?u) (ps_owner ?u)" using I d k len True o by (auto simp: pool_ok_def lists_ok_def)
    moreover have "release task (s\<lparr>ps_returned := tasks\<rparr>) = Some ?u" using k True by (simp add: release_def Let_def)
    ultimately show thesis using I r w [of _ _ ?u] rt [of _ ?u] by (intro that [of ?u]) (auto simp: pool_ok_def)
  next
    case False
    let ?u = "s\<lparr>ps_returned := tasks, ps_pool := ?p, ps_owner := O_stopping k Then_delete\<rparr>"
    have "lists_ok (ps_pool ?u) (ps_owner ?u)" using I d k len False by (auto simp: pool_ok_def lists_ok_def)
    moreover have "release task (s\<lparr>ps_returned := tasks\<rparr>) = Some ?u" using k False by (simp add: release_def Let_def)
    ultimately show thesis using I r w [of _ _ ?u] rt [of _ ?u] by (intro that [of ?u]) (auto simp: pool_ok_def)
  qed
qed

lemma Worker_stop_idle: "Worker_stop wk = Some vk \<Longrightarrow> \<not> carries vk t"
  by (auto simp: Worker_stop_def carries_def mutex_free_def split: if_splits)

lemma owner_goes_on_ok:
  assumes I: "pool_ok s" and t: "owner_goes_on s = Some u"
  shows "pool_ok u"
proof -
  obtain k what wk where o: "ps_owner s = O_stopping k what" and wk: "tp_worker (ps_pool s) k = Some wk"
    using t by (auto simp: owner_goes_on_def split: owner_pc.splits option.splits)
  note D = pool_okD [OF I]
  have nb: "k \<notin> set (tp_busy_workers (ps_pool s))" and nf: "what = Then_delete \<Longrightarrow> k \<notin> set (tp_free_workers (ps_pool s))"
    using D(1) o by (cases what; auto simp: lists_ok_def)+
  have ret: "\<exists>l xk. tp_data (ps_pool s) y = Some l \<and> tp_worker (ps_pool s) l = Some xk \<and> l \<noteq> k \<and>
      l \<in> set (tp_busy_workers (ps_pool s)) \<and> idle xk \<and> y \<in> fst ` set (ps_processed s)" if "y \<in> set (ps_returned s)" for y
    using D(4) [OF that] nb by (auto simp: returned_ok_def)
  have fin: "pool_ok (stop_returns k what vk s)" if vk: "\<And>t. carries vk t \<longleftrightarrow> carries wk t" "idle vk = idle wk" for vk
  proof (cases what)
    case Then_delete
    obtain u where u0: "stop_returns k what vk s = u" and u: "u = s\<lparr>ps_pool := (ps_pool s)\<lparr>tp_worker := (tp_worker (ps_pool s))(k := None)\<rparr>, ps_owner := O_idle, ps_joining := False\<rparr>"
      by (simp add: stop_returns_def Then_delete)
    have L: "lists_ok (ps_pool u) (ps_owner u)" using D(1) nb nf [OF Then_delete] by (auto simp: lists_ok_def u)
    have w: "worker_ok u l xk" if "tp_worker (ps_pool u) l = Some xk" for l xk
      using that D(2) [of l xk] o Then_delete by (auto simp: worker_ok_def u stopped_def split: if_splits)
    have r: "returned_ok u y" if "y \<in> set (ps_returned u)" for y
      using ret [of y] that by (auto simp: returned_ok_def u)
    have "one_worker_per_task (tp_worker (ps_pool u))"
      using D(3) unfolding one_worker_per_task_def u by (auto split: if_splits)
    with L w r D(5-7) show ?thesis unfolding u0 by (simp add: pool_ok_def u)
  next
    case (Then_stop ks)
    obtain u where u0: "stop_returns k what vk s = u" and u: "u = s\<lparr>ps_pool := (ps_pool s)\<lparr>tp_worker := (tp_worker (ps_pool s))(k \<mapsto> vk)\<rparr>, ps_owner := stop_next ks, ps_joining := False\<rparr>"
      by (simp add: stop_returns_def Then_stop)
    have st: "stopped (stop_next ks)" by (simp add: stop_next_def stopped_def split: list.split)
    have "lists_ok ((ps_pool s)\<lparr>tp_worker := (tp_worker (ps_pool s))(k \<mapsto> vk)\<rparr>) (ps_owner s)"
      by (rule lists_ok_worker [OF D(1)]) (simp add: wk)
    then have L: "lists_ok (ps_pool u) (ps_owner u)"
      using o Then_stop by (auto simp: lists_ok_def u stop_next_def split: list.splits)
    have w: "worker_ok u l xk" if "tp_worker (ps_pool u) l = Some xk" for l xk
    proof (cases "l = k")
      case True
      with that D(2) [OF wk] st vk show ?thesis by (simp add: worker_ok_def u)
    next
      case False
      with that D(2) [of l xk] st show ?thesis by (simp add: worker_ok_def u)
    qed
    have r: "returned_ok u y" if "y \<in> set (ps_returned u)" for y
      using ret [of y] that by (auto simp: returned_ok_def u)
    have "one_worker_per_task (tp_worker (ps_pool u))"
      using D(3) wk vk(1) unfolding one_worker_per_task_def u by (auto split: if_splits)
    with L w r D(5-7) show ?thesis unfolding u0 by (simp add: pool_ok_def u)
  qed
  show ?thesis
  proof (cases "wk_joinable wk \<and> \<not> ps_joining s")
    case True
    then obtain vk where vk: "Worker_stop wk = Some vk"
      and u: "u = s\<lparr>ps_pool := (ps_pool s)\<lparr>tp_worker := (tp_worker (ps_pool s))(k \<mapsto> vk)\<rparr>, ps_joining := True\<rparr>"
      using t o wk by (auto simp: owner_goes_on_def)
    have L: "lists_ok (ps_pool u) (ps_owner u)" unfolding u using lists_ok_worker [OF D(1), of k vk] wk by simp
    have w: "worker_ok u l xk" if "tp_worker (ps_pool u) l = Some xk" for l xk
    proof (cases "l = k")
      case True
      with that Worker_stop_idle [OF vk] nf o show ?thesis
        by (cases what) (auto simp: worker_ok_def u stopped_def)
    next
      case False
      with that D(2) [of l xk] show ?thesis by (simp add: worker_ok_def u)
    qed
    have r: "returned_ok u y" if "y \<in> set (ps_returned u)" for y
      using ret [of y] that by (auto simp: returned_ok_def u)
    have "one_worker_per_task (tp_worker (ps_pool u))"
      using D(3) Worker_stop_idle [OF vk] unfolding one_worker_per_task_def u by (auto split: if_splits)
    with L w r D(5-7) show ?thesis by (simp add: pool_ok_def u)
  next
    case False
    with t o wk obtain vk where "u = stop_returns k what vk s" "vk = wk \<or> vk = wk\<lparr>wk_joinable := False\<rparr>"
      by (auto simp: owner_goes_on_def split: if_splits)
    with fin [of vk] show ?thesis by (auto simp: carries_def idle_def)
  qed
qed

lemma stop_workers_ok:
  assumes I: "pool_ok s"
  shows "pool_ok (stop_workers s)"
proof -
  note D = pool_okD [OF I]
  have st: "stopped (stop_next ks)" for ks by (simp add: stop_next_def stopped_def split: list.split)
  have "lists_ok (ps_pool s) (stop_next (tp_free_workers (ps_pool s)))"
    using D(1) by (auto simp: lists_ok_def stop_next_def split: list.splits)
  moreover have "worker_ok (stop_workers s) l xk" if "tp_worker (ps_pool s) l = Some xk" for l xk
    using D(2) [OF that] st by (simp add: worker_ok_def stop_workers_def)
  ultimately show ?thesis using I D(4) by (simp add: pool_ok_def stop_workers_def returned_ok_def)
qed

lemma ps_step_ok:
  assumes I: "pool_ok s" and t: "ps_step e s = Some u"
  shows "pool_ok u"
proof (cases e)
  case (Try_run task)
  with t obtain b q where o: "ps_owner s = O_idle" "task \<notin> set (ps_tried s)" and q: "try_run task (ps_pool s) = Some (b, q)"
    and u: "u = s\<lparr>ps_pool := q, ps_tried := (if b then ps_tried s @ [task] else ps_tried s)\<rparr>"
    by (auto simp: ps_step_def split: if_split_asm)
  show ?thesis unfolding u by (rule try_run_ok [OF I o q])
next
  case Release
  with t obtain task tasks where "ps_returned s = task # tasks" "ps_owner s = O_idle" "release task (s\<lparr>ps_returned := tasks\<rparr>) = Some u"
    by (auto simp: ps_step_def split: list.splits if_splits)
  with release_ok [OF I] show ?thesis by (metis option.inject)
next
  case Stop_workers
  with t stop_workers_ok [OF I] show ?thesis by (auto simp: ps_step_def split: if_splits)
next
  case Owner
  with t owner_goes_on_ok [OF I] show ?thesis by (simp add: ps_step_def)
next
  case (Thread k)
  with t thread_step_ok [OF I] show ?thesis by (simp add: ps_step_def)
qed

lemma ps_run_ok: "pool_ok s \<Longrightarrow> ps_run es s = Some t \<Longrightarrow> pool_ok t"
  by (induction es arbitrary: s) (auto intro: ps_step_ok split: option.splits)

lemma add_workers_ok:
  "lists_ok p O_idle \<Longrightarrow> tp_busy_workers p = [] \<Longrightarrow> (\<forall>k wk. tp_worker p k = Some wk \<longrightarrow> idle wk) \<Longrightarrow>
   length (tp_free_workers p) + n \<le> tp_min_size p \<Longrightarrow>
   lists_ok (add_workers n p) O_idle \<and> tp_busy_workers (add_workers n p) = [] \<and>
   (\<forall>k wk. tp_worker (add_workers n p) k = Some wk \<longrightarrow> idle wk)"
proof (induction n arbitrary: p)
  case (Suc n)
  let ?q = "p\<lparr>tp_worker := (tp_worker p)(tp_next p \<mapsto> Worker_new), tp_next := Suc (tp_next p),
    tp_free_workers := tp_free_workers p @ [tp_next p]\<rparr>"
  have "tp_next p \<notin> set (tp_free_workers p)" using lists_okD(4,6) [OF Suc.prems(1), of "tp_next p"] by auto
  then have "lists_ok ?q O_idle" using Suc.prems(1,2,4) unfolding lists_ok_def by (auto simp: less_Suc_eq)
  moreover have "\<forall>k wk. tp_worker ?q k = Some wk \<longrightarrow> idle wk"
    using Suc.prems(3) by (auto simp: idle_def Worker_new_def)
  moreover have "length (tp_free_workers ?q) + n \<le> tp_min_size ?q" "tp_busy_workers ?q = []" using Suc.prems(2,4) by simp_all
  ultimately have IH: "lists_ok (add_workers n ?q) O_idle \<and> tp_busy_workers (add_workers n ?q) = [] \<and>
      (\<forall>k wk. tp_worker (add_workers n ?q) k = Some wk \<longrightarrow> idle wk)" by (intro Suc.IH)
  have E: "add_workers (Suc n) p = add_workers n ?q" by (simp add: new_worker_def)
  show ?case unfolding E by (rule IH)
qed simp

lemma ps_start_ok: "pool_ok (ps_start min_size max_size)"
proof -
  let ?p = "\<lparr>tp_min_size = min_size, tp_max_size = max_size, tp_free_workers = [], tp_busy_workers = [],
      tp_worker = (\<lambda>_. None), tp_next = 0, tp_data = (\<lambda>_. None)\<rparr>"
  have A: "lists_ok (add_workers min_size ?p) O_idle \<and> tp_busy_workers (add_workers min_size ?p) = [] \<and>
   (\<forall>k wk. tp_worker (add_workers min_size ?p) k = Some wk \<longrightarrow> idle wk)"
    by (rule add_workers_ok) (simp_all add: lists_ok_def)
  then have "worker_ok (ps_start min_size max_size) k wk" if "tp_worker (ThreadPool_new min_size max_size) k = Some wk" for k wk
    using that by (simp add: worker_ok_def ThreadPool_new_def)
  moreover have "one_worker_per_task (tp_worker (ThreadPool_new min_size max_size))"
    using A idle_carries by (simp add: one_worker_per_task_def ThreadPool_new_def)
  ultimately show ?thesis using A by (simp add: pool_ok_def ps_start_def ThreadPool_new_def)
qed

subsection \<open>What the pool guarantees\<close>

text \<open>C12: the pool never has more than \<open>max_size\<close> busy and \<open>min_size\<close> free workers, whatever order the
  reactor and the threads run in; each task is processed at most once, and only if it was given to the pool; and
  when a task comes back, \<open>release\<close> finds its worker among the busy ones.\<close>

theorem thread_pool_tasks_once:
  assumes "ps_run es (ps_start min_size max_size) = Some s"
  shows "length (tp_busy_workers (ps_pool s)) \<le> tp_max_size (ps_pool s) \<and>
    length (tp_free_workers (ps_pool s)) \<le> tp_min_size (ps_pool s) \<and>
    distinct (map fst (ps_processed s)) \<and> set (map fst (ps_processed s)) \<subseteq> set (ps_tried s) \<and>
    set (map (tp_data (ps_pool s)) (ps_returned s)) \<subseteq> Some ` set (tp_busy_workers (ps_pool s)) \<and>
    distinct (map (tp_data (ps_pool s)) (ps_returned s))"
proof -
  have I: "pool_ok s" by (rule ps_run_ok [OF ps_start_ok assms])
  note D = pool_okD [OF I]
  have "tp_data (ps_pool s) y \<in> Some ` set (tp_busy_workers (ps_pool s))" if "y \<in> set (ps_returned s)" for y
    using D(4) [OF that] by (auto simp: returned_ok_def)
  with D(5-7) lists_okD(7,8) [OF D(1)] show ?thesis by auto
qed

lemma thread_pool_tasks_once_witness:
  "let s = the (ps_run [Thread 0, Try_run 7, Thread 0, Thread 0] (ps_start 1 10)) in
     ps_processed s = [(7, 0)] \<and> ps_returned s = [7] \<and> distinct (map fst (ps_processed s))"
proof -
  have "\<not> Option.is_none (map_option (\<lambda>s. ()) (ps_run [Thread 0, Try_run 7, Thread 0, Thread 0] (ps_start 1 10)))" by code_simp
  then have run: "ps_run [Thread 0, Try_run 7, Thread 0, Thread 0] (ps_start 1 10)
    = Some (the (ps_run [Thread 0, Try_run 7, Thread 0, Thread 0] (ps_start 1 10)))"
    by (simp add: Option.is_none_def del: ps_run.simps)
  have "ps_processed (the (ps_run [Thread 0, Try_run 7, Thread 0, Thread 0] (ps_start 1 10))) = [(7, 0)]"
    "ps_returned (the (ps_run [Thread 0, Try_run 7, Thread 0, Thread 0] (ps_start 1 10))) = [7]" by code_simp+
  with thread_pool_tasks_once [OF run] show ?thesis unfolding Let_def by blast
qed

text \<open>A worker that got its task before its thread had come to its wait: the thread is yet to clear \<open>ready_\<close>, or has
  done so and waits. The task is nobody else's and is not on the way back.\<close>

definition given_early :: "worker_pc \<Rightarrow> nat \<Rightarrow> nat \<Rightarrow> pool_system \<Rightarrow> bool" where
  "given_early pc k task s \<longleftrightarrow> k \<in> set (tp_busy_workers (ps_pool s)) \<and>
     (\<exists>wk. tp_worker (ps_pool s) k = Some wk \<and> wk_pc wk = pc \<and> (pc = W_started \<or> pc = W_waiting \<and> \<not> wk_ready wk)) \<and>
     (\<forall>t \<in> set (ps_returned s). tp_data (ps_pool s) t \<noteq> Some k) \<and>
     task \<in> set (ps_tried s) \<and> task \<notin> fst ` set (ps_processed s) \<and>
     (\<forall>l wk. tp_worker (ps_pool s) l = Some wk \<longrightarrow> carries wk task \<longrightarrow> l = k)"

text \<open>What \<open>try_run\<close> does when it gives the task to a worker.\<close>

lemma try_run_given:
  assumes L: "lists_ok (ps_pool s) o'" and t: "try_run task (ps_pool s) = Some (True, q)"
  obtains j wk where "tp_busy_workers q = tp_busy_workers (ps_pool s) @ [j]" "j \<notin> set (tp_busy_workers (ps_pool s))"
    "tp_worker q j = Some (wk\<lparr>wk_task := Some task, wk_ready := True\<rparr>)" "mutex_free wk"
    "\<And>l. l \<noteq> j \<Longrightarrow> tp_worker q l = tp_worker (ps_pool s) l" "tp_data q = tp_data (ps_pool s)"
proof -
  obtain j p where a: "acquire_worker (ps_pool s) = (j, p)" by force
  have p: "tp_busy_workers p = tp_busy_workers (ps_pool s) @ [j]" "tp_data p = tp_data (ps_pool s)"
    "\<And>l. l \<noteq> j \<Longrightarrow> tp_worker p l = tp_worker (ps_pool s) l"
    using a by (auto simp: acquire_worker_def new_worker_def split: if_splits)
  have "j \<in> set (tp_free_workers (ps_pool s)) \<or> j = tp_next (ps_pool s)"
    using a by (auto simp: acquire_worker_def new_worker_def split: if_splits)
  then have j: "j \<notin> set (tp_busy_workers (ps_pool s))"
    using lists_okD(3) [OF L] lists_okD(5,6) [OF L, of j] by auto
  from t a obtain wk where w: "tp_worker p j = Some wk" "mutex_free wk"
    "q = p\<lparr>tp_worker := (tp_worker p)(j \<mapsto> wk\<lparr>wk_task := Some task, wk_ready := True\<rparr>)\<rparr>"
    by (auto simp: try_run_def Worker_run_def split: if_splits option.splits)
  from that [of j wk] p j w show thesis by simp
qed

lemma given_early_new:
  assumes I: "pool_ok s" and t: "ps_step (Try_run task) s = Some u"
    and k: "k \<in> set (tp_busy_workers (ps_pool u)) - set (tp_busy_workers (ps_pool s))"
    and pc: "tp_worker (ps_pool u) k = Some wk" "wk_pc wk = W_started"
  shows "given_early W_started k task u"
proof -
  note D = pool_okD [OF I]
  from t obtain b q where fresh: "task \<notin> set (ps_tried s)" and q: "try_run task (ps_pool s) = Some (b, q)"
    and u: "u = s\<lparr>ps_pool := q, ps_tried := (if b then ps_tried s @ [task] else ps_tried s)\<rparr>"
    by (auto simp: ps_step_def split: if_split_asm)
  have b using q k u by (auto simp: try_run_def Let_def split: if_splits option.splits prod.splits)
  with q have "try_run task (ps_pool s) = Some (True, q)" by simp
  from try_run_given [OF D(1) this] obtain j vk where j: "tp_busy_workers q = tp_busy_workers (ps_pool s) @ [j]"
    "\<And>l. l \<noteq> j \<Longrightarrow> tp_worker q l = tp_worker (ps_pool s) l" "tp_data q = tp_data (ps_pool s)" by metis
  with k u have kj: "k = j" "k \<notin> set (tp_busy_workers (ps_pool s))" by auto
  have "tp_data (ps_pool s) t \<noteq> Some k" if "t \<in> set (ps_returned s)" for t
    using D(4) [OF that] kj(2) by (auto simp: returned_ok_def)
  moreover have "\<not> carries wk task" if "l \<noteq> k" "tp_worker q l = Some wk" for l wk
    using D(2) [of l wk] j(2) [of l] that kj(1) fresh by (auto simp: worker_ok_def)
  moreover have "task \<notin> fst ` set (ps_processed s)" using D(7) fresh by auto
  ultimately show ?thesis using pc k j(3) \<open>b\<close> unfolding given_early_def u by auto
qed

text \<open>A step that changes one other worker, and gives it no task.\<close>

lemma given_early_other:
  assumes k: "given_early pc k task s" and j: "j \<noteq> k" and W: "tp_worker (ps_pool u) = (tp_worker (ps_pool s))(j := x)"
    and x: "\<And>wk. x = Some wk \<Longrightarrow> \<not> carries wk task"
    and same: "tp_busy_workers (ps_pool u) = tp_busy_workers (ps_pool s)" "ps_tried u = ps_tried s"
    and new: "task \<notin> fst ` set (ps_processed u)" "\<And>t. t \<in> set (ps_returned u) \<Longrightarrow> tp_data (ps_pool u) t \<noteq> Some k"
  shows "given_early pc k task u"
proof -
  have "l = k" if "tp_worker (ps_pool u) l = Some wk" "carries wk task" for l wk
    using that x [of wk] k by (cases "l = j") (auto simp: given_early_def W)
  then show ?thesis using k j new unfolding given_early_def same W by auto
qed

text \<open>No step of the owner or of another thread gets the worker out of there.\<close>

lemma given_early_try_run:
  assumes I: "pool_ok s" and k: "given_early pc k task s" and t: "ps_step (Try_run task') s = Some u"
  shows "given_early pc k task u"
proof -
  from t obtain b q where fresh: "task' \<notin> set (ps_tried s)" and q: "try_run task' (ps_pool s) = Some (b, q)"
    and u: "u = s\<lparr>ps_pool := q, ps_tried := (if b then ps_tried s @ [task'] else ps_tried s)\<rparr>"
    by (auto simp: ps_step_def split: if_split_asm)
  show ?thesis
  proof (cases b)
    case False
    with q have "q = ps_pool s" by (auto simp: try_run_def Let_def split: if_splits option.splits prod.splits)
    with False u k show ?thesis by (simp add: given_early_def)
  next
    case True
    with q have "try_run task' (ps_pool s) = Some (True, q)" by simp
    from try_run_given [OF pool_okD(1) [OF I] this] obtain j wk where j:
      "tp_busy_workers q = tp_busy_workers (ps_pool s) @ [j]" "j \<notin> set (tp_busy_workers (ps_pool s))"
      "tp_worker q j = Some (wk\<lparr>wk_task := Some task', wk_ready := True\<rparr>)" "mutex_free wk"
      "\<And>l. l \<noteq> j \<Longrightarrow> tp_worker q l = tp_worker (ps_pool s) l" "tp_data q = tp_data (ps_pool s)" by metis
    have "j \<noteq> k" "task' \<noteq> task" using k j(2) fresh by (auto simp: given_early_def)
    moreover have "l = k" if "tp_worker q l = Some vk" "carries vk task" for l vk
    proof (cases "l = j")
      case True
      with that j(3,4) \<open>task' \<noteq> task\<close> show ?thesis by (auto simp: carries_def mutex_free_def)
    next
      case False
      with that k j(5) show ?thesis by (auto simp: given_early_def)
    qed
    ultimately show ?thesis using k True j(1,6) j(5) [of k] unfolding given_early_def u by auto
  qed
qed

lemma owner_goes_on_worker:
  assumes "owner_goes_on s = Some u" "ps_owner s = O_stopping j what"
  obtains x where "tp_worker (ps_pool u) = (tp_worker (ps_pool s))(j := x)"
    "\<And>wk. x = Some wk \<Longrightarrow> carries wk t \<Longrightarrow> \<exists>vk. tp_worker (ps_pool s) j = Some vk \<and> carries vk t"
    "tp_busy_workers (ps_pool u) = tp_busy_workers (ps_pool s)" "tp_data (ps_pool u) = tp_data (ps_pool s)"
    "ps_tried u = ps_tried s" "ps_processed u = ps_processed s" "ps_returned u = ps_returned s"
proof -
  obtain wk where wk: "tp_worker (ps_pool s) j = Some wk" using assms by (auto simp: owner_goes_on_def split: option.splits)
  have stop: "carries vk t \<Longrightarrow> carries wk t" if "Worker_stop wk = Some vk" for vk
    using that by (auto simp: Worker_stop_def carries_def split: if_splits)
  show thesis
  proof (rule that [of "tp_worker (ps_pool u) j"])
    show "\<exists>vk. tp_worker (ps_pool s) j = Some vk \<and> carries vk t" if "tp_worker (ps_pool u) j = Some vk" "carries vk t" for vk
      using assms wk that stop
      by (auto simp: owner_goes_on_def stop_returns_def carries_def split: if_splits then_pool.splits)
  qed (use assms wk in \<open>auto simp: owner_goes_on_def stop_returns_def fun_upd_idem split: if_splits then_pool.splits\<close>)
qed

lemma given_early_owner:
  assumes I: "pool_ok s" and k: "given_early pc k task s" and t: "owner_goes_on s = Some u"
  shows "given_early pc k task u"
proof -
  obtain j what where o: "ps_owner s = O_stopping j what" using t by (auto simp: owner_goes_on_def split: owner_pc.splits)
  have "j \<notin> set (tp_busy_workers (ps_pool s))"
    using pool_okD(1) [OF I] o by (cases what) (auto simp: lists_ok_def)
  then have j: "j \<noteq> k" using k by (auto simp: given_early_def)
  obtain x where x: "tp_worker (ps_pool u) = (tp_worker (ps_pool s))(j := x)"
    "\<And>wk. x = Some wk \<Longrightarrow> carries wk task \<Longrightarrow> \<exists>vk. tp_worker (ps_pool s) j = Some vk \<and> carries vk task"
    "tp_busy_workers (ps_pool u) = tp_busy_workers (ps_pool s)" "tp_data (ps_pool u) = tp_data (ps_pool s)"
    "ps_tried u = ps_tried s" "ps_processed u = ps_processed s" "ps_returned u = ps_returned s"
    by (rule owner_goes_on_worker [OF t o, where t = task]) (rule that)
  show ?thesis
  proof (rule given_early_other [OF k j x(1) _ x(3,5)])
    show "\<not> carries wk task" if "x = Some wk" for wk using x(2) [OF that] k j by (auto simp: given_early_def)
  qed (use k x in \<open>auto simp: given_early_def\<close>)
qed

lemma given_early_thread:
  assumes k: "given_early pc k task s" and t: "thread_step j s = Some u"
  shows "given_early (if j = k then W_waiting else pc) k task u"
proof -
  obtain wk vk handed where wk: "tp_worker (ps_pool s) j = Some wk" and st: "worker_thread wk = Some (vk, handed)"
    using t by (auto simp: thread_step_def split: option.splits)
  show ?thesis
  proof (cases "j = k")
    case True
    with k wk st have vk: "handed = None" "wk_pc vk = W_waiting" "\<not> wk_ready vk"
      by (auto simp: given_early_def worker_thread_def)
    have u: "u = s\<lparr>ps_pool := (ps_pool s)\<lparr>tp_worker := (tp_worker (ps_pool s))(k \<mapsto> vk)\<rparr>\<rparr>"
      using t wk st vk(1) True by (simp add: thread_step_def)
    have "l = k" if "tp_worker (ps_pool u) l = Some xk" "carries xk task" for l xk
      using that k by (cases "l = k") (auto simp: given_early_def u)
    moreover have "tp_worker (ps_pool u) k = Some vk" by (simp add: u)
    moreover have "k \<in> set (tp_busy_workers (ps_pool u))" "task \<in> set (ps_tried u)" "task \<notin> fst ` set (ps_processed u)"
      "\<forall>y \<in> set (ps_returned u). tp_data (ps_pool u) y \<noteq> Some k"
      using k by (simp_all add: given_early_def u)
    ultimately show ?thesis using vk(2,3) True unfolding given_early_def by auto
  next
    case False
    have "\<not> carries wk task" using k wk False by (auto simp: given_early_def)
    then have c: "\<not> carries vk task" "handed \<noteq> Some task"
      using worker_thread_None(1) [of wk vk task] worker_thread_Some [of wk vk] st by (cases handed; auto)+
    have W: "tp_worker (ps_pool u) = (tp_worker (ps_pool s))(j \<mapsto> vk)" "tp_busy_workers (ps_pool u) = tp_busy_workers (ps_pool s)"
      "ps_tried u = ps_tried s"
      using t wk st by (auto simp: thread_step_def Let_def split: option.splits)
    have "given_early pc k task u"
    proof (rule given_early_other [OF k False W(1) _ W(2,3)])
      show "task \<notin> fst ` set (ps_processed u)"
        using t wk st k c(2) by (cases handed) (auto simp: thread_step_def given_early_def)
      show "tp_data (ps_pool u) y \<noteq> Some k" if "y \<in> set (ps_returned u)" for y
        using t wk st k False that by (cases handed) (auto simp: thread_step_def given_early_def split: if_splits)
    qed (use c(1) in simp)
    with False show ?thesis by simp
  qed
qed

lemma given_early_step:
  assumes I: "pool_ok s" and k: "given_early pc k task s" and t: "ps_step e s = Some u"
  shows "given_early (if e = Thread k then W_waiting else pc) k task u"
proof (cases e)
  case (Try_run task')
  with given_early_try_run [OF I k] t show ?thesis by simp
next
  case Release
  with t k show ?thesis
    by (auto simp: ps_step_def release_def Let_def given_early_def split: list.splits if_splits option.splits)
next
  case Stop_workers
  with t k show ?thesis by (auto simp: ps_step_def stop_workers_def given_early_def split: if_splits)
next
  case Owner
  with t given_early_owner [OF I k] show ?thesis by (simp add: ps_step_def)
next
  case (Thread j)
  with t given_early_thread [OF k] show ?thesis by (simp add: ps_step_def)
qed

lemma given_early_run:
  assumes "pool_ok s" "given_early pc k task s" "ps_run es s = Some t"
  shows "given_early (if Thread k \<in> set es then W_waiting else pc) k task t"
  using assms
proof (induction es arbitrary: s pc)
  case (Cons e es)
  from Cons.prems(3) obtain u where u: "ps_step e s = Some u" "ps_run es u = Some t" by (auto split: option.splits)
  from Cons.IH [OF ps_step_ok [OF Cons.prems(1) u(1)] given_early_step [OF Cons.prems(1,2) u(1)] u(2)]
  show ?case by (auto split: if_splits)
qed simp

text \<open>C13: a task that the pool gives to a worker whose thread has not yet come to its wait - a worker that
  \<open>try_run\<close> has just created, say - is lost. Whatever the reactor and the threads do afterwards, and in whatever order,
  the task is never processed, and its worker stays busy; once the worker's thread has come to its loop, it has cleared
  \<open>ready_\<close> and waits for ever.\<close>

theorem new_worker_is_lost:
  assumes "ps_run es (ps_start min_size max_size) = Some s" and "ps_step (Try_run task) s = Some u"
    and "k \<in> set (tp_busy_workers (ps_pool u)) - set (tp_busy_workers (ps_pool s))"
    and "tp_worker (ps_pool u) k = Some wk" "wk_pc wk = W_started" and "ps_run es' u = Some t"
  shows "task \<in> set (ps_tried t) \<and> task \<notin> fst ` set (ps_processed t) \<and> k \<in> set (tp_busy_workers (ps_pool t)) \<and>
    (Thread k \<in> set es' \<longrightarrow> 
      (\<exists>wk. tp_worker (ps_pool t) k = Some wk \<and> wk_pc wk = W_waiting \<and> \<not> wk_ready wk))"
proof -
  have I: "pool_ok s" by (rule ps_run_ok [OF ps_start_ok assms(1)])
  note u = ps_step_ok [OF I assms(2)] given_early_new [OF I assms(2-5)]
  from given_early_run [OF u assms(6)] show ?thesis by (auto simp: given_early_def)
qed

text \<open>The worker of task 7 gets its task before its thread runs; the worker of task 8 is in time.\<close>

theorem new_worker_is_lost_witness:
  "\<exists>s u t. ps_run [] (ps_start 0 10) = Some s \<and> ps_step (Try_run 7) s = Some u \<and>
     ps_run [Thread 0, Try_run 8, Thread 1] u = Some t \<and> 7 \<in> set (ps_tried t) \<and> 7 \<notin> fst ` set (ps_processed t) \<and>
     (\<exists>wk. tp_worker (ps_pool t) 0 = Some wk \<and> wk_pc wk = W_waiting \<and> \<not> wk_ready wk)"
proof -
  let ?s = "ps_start 0 10"
  let ?u = "the (ps_step (Try_run 7) ?s)"
  let ?b = "ps_run [Thread 0, Try_run 8, Thread 1] ?u"
  have n: "\<not> Option.is_none (map_option (\<lambda>s. ()) (ps_step (Try_run 7) ?s))" "\<not> Option.is_none (map_option (\<lambda>s. ()) ?b)"
    by code_simp+
  have u: "ps_step (Try_run 7) ?s = Some ?u" using n(1) by (simp add: Option.is_none_def)
  have b: "?b = Some (the ?b)" using n(2) by (simp add: Option.is_none_def del: ps_run.simps)
  have w: "tp_busy_workers (ps_pool ?u) = [0]" "tp_busy_workers (ps_pool ?s) = []"
    "map_option wk_pc (tp_worker (ps_pool ?u) 0) = Some W_started" by code_simp+
  then obtain wk where wk: "tp_worker (ps_pool ?u) 0 = Some wk" "wk_pc wk = W_started" by auto
  have "0 \<in> set (tp_busy_workers (ps_pool ?u)) - set (tp_busy_workers (ps_pool ?s))" using w by simp
  from new_worker_is_lost [OF ps_run.simps(1) u this wk b]
  have "7 \<in> set (ps_tried (the ?b))" "7 \<notin> fst ` set (ps_processed (the ?b))"
    "\<exists>wk. tp_worker (ps_pool (the ?b)) 0 = Some wk \<and> wk_pc wk = W_waiting \<and> \<not> wk_ready wk"
    by (simp_all del: ps_run.simps(2))
  with u b ps_run.simps(1) show ?thesis by blast
qed

end
