(* ===== verification/File_Batch.thy ===== *)
theory File_Batch
  imports Dumbo_Prelude
begin

text \<open>
  Batches of file operations, \<open>reactor/linux/buffer_vec.hpp\<close>: a vector of control blocks, which are
  the kernel's \<open>iocb\<close> with two more members, and a vector of pointers to them for \<open>io_submit\<close>. An
  address is a number, 0 the null pointer. A pointer into \<open>blocks_\<close> is its index.
\<close>

datatype aio_opcode = IOCB_CMD_PREAD | IOCB_CMD_PWRITE

record iocb =
  aio_data :: nat
  aio_lio_opcode :: aio_opcode
  aio_reqprio :: int
  aio_fildes :: int
  aio_buf :: nat
  aio_nbytes :: int
  aio_offset :: int
  aio_flags :: int
  aio_resfd :: int

record ExtendedIOCB = iocb +
  processed :: int
  status :: int

definition IOCB_FLAG_RESFD :: int where
  "IOCB_FLAG_RESFD = 1"

definition zeroed_ExtendedIOCB :: ExtendedIOCB where
  "zeroed_ExtendedIOCB = \<lparr>aio_data = 0, aio_lio_opcode = IOCB_CMD_PREAD, aio_reqprio = 0, aio_fildes = 0, aio_buf = 0,
     aio_nbytes = 0, aio_offset = 0, aio_flags = 0, aio_resfd = 0, processed = 0, status = 0\<rparr>"

definition ExtendedIOCB_configure :: "nat \<Rightarrow> int \<Rightarrow> int \<Rightarrow> aio_opcode \<Rightarrow> ExtendedIOCB \<Rightarrow> ExtendedIOCB" where
  "ExtendedIOCB_configure data offset sz command b =
     b\<lparr>aio_lio_opcode := command, aio_reqprio := 0, aio_buf := data, aio_nbytes := u64 sz, aio_offset := offset,
       aio_flags := IOCB_FLAG_RESFD\<rparr>"

record FileIOBatch =
  fb_blocks :: "ExtendedIOCB list"
  fb_pblocks :: "nat option list"
  fb_submited :: int

definition FileIOBatch_new :: FileIOBatch where
  "FileIOBatch_new = \<lparr>fb_blocks = [], fb_pblocks = [], fb_submited = 0\<rparr>"

definition add_read :: "nat \<Rightarrow> int \<Rightarrow> int \<Rightarrow> FileIOBatch \<Rightarrow> FileIOBatch" where
  "add_read data offset sz b =
     b\<lparr>fb_blocks := fb_blocks b @ [ExtendedIOCB_configure data offset sz IOCB_CMD_PREAD zeroed_ExtendedIOCB],
       fb_pblocks := fb_pblocks b @ [None]\<rparr>"

definition add_write :: "nat \<Rightarrow> int \<Rightarrow> int \<Rightarrow> FileIOBatch \<Rightarrow> FileIOBatch" where
  "add_write data offset sz b =
     b\<lparr>fb_blocks := fb_blocks b @ [ExtendedIOCB_configure data offset sz IOCB_CMD_PWRITE zeroed_ExtendedIOCB],
       fb_pblocks := fb_pblocks b @ [None]\<rparr>"

text \<open>\<open>blocks\<close> fills the vector of pointers and returns its tail from \<open>from\<close> on.\<close>

definition batch_fill :: "FileIOBatch \<Rightarrow> FileIOBatch" where
  "batch_fill b = b\<lparr>fb_pblocks := map Some [0..<length (fb_blocks b)] @ drop (length (fb_blocks b)) (fb_pblocks b)\<rparr>"

definition batch_blocks :: "nat \<Rightarrow> FileIOBatch \<Rightarrow> nat option list \<times> FileIOBatch" where
  "batch_blocks start b = (drop start (fb_pblocks (batch_fill b)), batch_fill b)"

definition nblocks :: "FileIOBatch \<Rightarrow> nat" where
  "nblocks b = length (fb_pblocks b)"

definition set_submited :: "int \<Rightarrow> FileIOBatch \<Rightarrow> FileIOBatch" where
  "set_submited num b = b\<lparr>fb_submited := num\<rparr>"

definition batch_configure :: "int \<Rightarrow> int \<Rightarrow> nat \<Rightarrow> FileIOBatch \<Rightarrow> FileIOBatch" where
  "batch_configure fd event_fd message b =
     b\<lparr>fb_blocks := map (\<lambda>k. k\<lparr>aio_data := message, aio_fildes := fd, aio_resfd := event_fd\<rparr>) (fb_blocks b)\<rparr>"

text \<open>What a completed operation leaves in its block: the kernel's \<open>res2\<close> is signed, \<open>status\<close> is not.
  No such block is \<open>None\<close>.\<close>

definition batch_report :: "nat \<Rightarrow> int \<Rightarrow> int \<Rightarrow> FileIOBatch \<Rightarrow> FileIOBatch option" where
  "batch_report k res res2 b =
     (if k < length (fb_blocks b)
      then Some (b\<lparr>fb_blocks := (fb_blocks b)[k := (fb_blocks b ! k)\<lparr>processed := res, status := u64 res2\<rparr>]\<rparr>)
      else None)"

text \<open>An exception of \<open>rise_perror\<close> is the error number it describes.\<close>

definition check_status_at :: "nat \<Rightarrow> FileIOBatch \<Rightarrow> int + unit" where
  "check_status_at idx b = (if processed (fb_blocks b ! idx) < 0 then Inl (- processed (fb_blocks b ! idx)) else Inr ())"

fun check_status_from :: "nat list \<Rightarrow> FileIOBatch \<Rightarrow> int + unit" where
  "check_status_from [] b = Inr ()"
| "check_status_from (c # cs) b = (case check_status_at c b of Inl e \<Rightarrow> Inl e | Inr u \<Rightarrow> check_status_from cs b)"

definition check_status :: "FileIOBatch \<Rightarrow> int + unit" where
  "check_status b = check_status_from [0..<length (fb_blocks b)] b"

subsection \<open>A batch built by its operations\<close>

text \<open>The two vectors keep the same length, so the pointers given to the kernel are the blocks.\<close>

definition batch_ok :: "FileIOBatch \<Rightarrow> bool" where
  "batch_ok b \<longleftrightarrow> length (fb_pblocks b) = length (fb_blocks b)"

lemma batch_ok_ops [simp]:
  "batch_ok FileIOBatch_new"
  "batch_ok (add_read d off sz b) = batch_ok b"
  "batch_ok (add_write d off sz b) = batch_ok b"
  "batch_ok b \<Longrightarrow> batch_ok (batch_fill b)"
  "batch_ok (set_submited n b) = batch_ok b"
  "batch_ok (batch_configure fd ev m b) = batch_ok b"
  by (auto simp: batch_ok_def FileIOBatch_new_def add_read_def add_write_def batch_fill_def set_submited_def
      batch_configure_def)

lemma batch_report_ok: "batch_report k res res2 b = Some c \<Longrightarrow> batch_ok c = batch_ok b"
  by (auto simp: batch_report_def batch_ok_def split: if_splits)

lemma batch_blocks_fst: "batch_ok b \<Longrightarrow> fst (batch_blocks start b) = map Some [start..<length (fb_blocks b)]"
  by (simp add: batch_blocks_def batch_fill_def batch_ok_def drop_map)

lemma batch_fill_simps [simp]:
  "fb_blocks (batch_fill b) = fb_blocks b" "batch_ok b \<Longrightarrow> nblocks (batch_fill b) = length (fb_blocks b)"
  by (simp_all add: batch_fill_def nblocks_def batch_ok_def)

lemma batch_blocks_eq: "batch_ok b \<Longrightarrow> batch_blocks start b = (map Some [start..<length (fb_blocks b)], batch_fill b)"
  using batch_blocks_fst [of b start] by (simp add: batch_blocks_def)

lemma nblocks_eq: "batch_ok b \<Longrightarrow> nblocks b = length (fb_blocks b)"
  by (simp add: nblocks_def batch_ok_def)

text \<open>What is left of the blocks by an operation of the batch but \<open>report\<close>: their results.\<close>

definition results_of :: "FileIOBatch \<Rightarrow> (int \<times> int) list" where
  "results_of b = map (\<lambda>k. (processed k, status k)) (fb_blocks b)"

text \<open>The part of a kernel event that a block holds.\<close>

definition event_result :: "int \<times> int \<Rightarrow> int \<times> int" where
  "event_result x = (fst x, u64 (snd x))"

lemma results_of_ops [simp]:
  "results_of (batch_fill b) = results_of b"
  "results_of (set_submited n b) = results_of b"
  "results_of (batch_configure fd ev m b) = results_of b"
  by (auto simp: results_of_def batch_fill_def set_submited_def batch_configure_def)

lemma length_results_of [simp]: "length (results_of b) = length (fb_blocks b)"
  by (simp add: results_of_def)

lemma batch_reportD:
  assumes "batch_report k res res2 b = Some c"
  shows "k < length (fb_blocks b)" "results_of c = (results_of b)[k := event_result (res, res2)]"
    "length (fb_blocks c) = length (fb_blocks b)" "length (fb_pblocks c) = length (fb_pblocks b)"
    "map aio_data (fb_blocks c) = map aio_data (fb_blocks b)"
  using assms by (auto simp: batch_report_def results_of_def event_result_def map_update nth_list_update intro!: nth_equalityI split: if_splits)

text \<open>\<open>check_status\<close> throws the error of the first block that has one.\<close>

lemma check_status_from_eq:
  "check_status_from cs b =
     (case filter (\<lambda>c. processed (fb_blocks b ! c) < 0) cs of [] \<Rightarrow> Inr () | c # _ \<Rightarrow> Inl (- processed (fb_blocks b ! c)))"
  by (induction cs) (auto simp: check_status_at_def)

lemma first_failed:
  assumes "filter (\<lambda>c. processed (fb_blocks b ! c) < 0) [0..<length (fb_blocks b)] = c # cs"
  shows "results_of b ! c \<in> set (results_of b)" "fst (results_of b ! c) = processed (fb_blocks b ! c)"
    "processed (fb_blocks b ! c) < 0"
proof -
  have c: "c < length (fb_blocks b) \<and> processed (fb_blocks b ! c) < 0"
    using arg_cong [OF assms, of set] by (auto simp: set_eq_iff)
  then show "results_of b ! c \<in> set (results_of b)" "fst (results_of b ! c) = processed (fb_blocks b ! c)"
    "processed (fb_blocks b ! c) < 0" by (auto simp: results_of_def)
qed

lemma check_status_error: "check_status b = Inl e \<Longrightarrow> \<exists>r \<in> set (results_of b). fst r < 0 \<and> e = - fst r"
proof -
  assume e: "check_status b = Inl e"
  then obtain c cs where f: "filter (\<lambda>c. processed (fb_blocks b ! c) < 0) [0..<length (fb_blocks b)] = c # cs"
    by (auto simp: check_status_def check_status_from_eq split: list.splits)
  with e have "e = - processed (fb_blocks b ! c)" by (simp add: check_status_def check_status_from_eq)
  with first_failed [OF f] show ?thesis by (intro bexI [of _ "results_of b ! c"]) auto
qed

lemma check_status_ok: "check_status b = Inr () \<longleftrightarrow> (\<forall>r \<in> set (results_of b). 0 \<le> fst r)"
proof (cases "check_status b")
  case (Inl e)
  with check_status_error [OF Inl] show ?thesis by force
next
  case (Inr u)
  then have "\<forall>c < length (fb_blocks b). 0 \<le> processed (fb_blocks b ! c)"
    by (auto simp: check_status_def check_status_from_eq filter_empty_conv not_less split: list.splits)
  with Inr show ?thesis by (auto simp: results_of_def in_set_conv_nth)
qed

end
