(* ===== verification/Linux_Poller.thy ===== *)
theory Linux_Poller
  imports Reactor_Ring File_Batch
begin

text \<open>
  Completed I/O on Linux: \<open>reactor/linux/io_poller.cpp\<close> takes events from the kernel and puts
  their messages into the reactor's ring; the event loop (\<open>reactor.cpp\<close>) takes them out and finishes
  them, which resumes the fibers that wait. The messages are the classes of
  \<open>fiber_io_message.hpp\<close>, \<open>message.cpp\<close> and \<open>file_impl.cpp\<close>. What a system call returns is an
  argument; a message is named by its address.
\<close>

subsection \<open>The messages\<close>

text \<open>Each with the fiber that waits and \<open>return_\<close>; then \<open>block_\<close>, \<open>size_\<close> and \<open>status_\<close> of a
  single operation, the batch and \<open>remaining_\<close> of a batch, \<open>count_\<close> of a socket's message. The batch
  stands for the reference \<open>batch_\<close>: nobody else uses it during the call.\<close>

datatype io_message =
    FileSingleIOMessage nat bool iocb int int
  | FileMultiIOMessage nat bool FileIOBatch int
  | FiberIOMessage nat bool int

definition FileSingleIOMessage_new ::
  "nat \<Rightarrow> nat \<Rightarrow> int \<Rightarrow> int \<Rightarrow> nat \<Rightarrow> int \<Rightarrow> int \<Rightarrow> aio_opcode \<Rightarrow> io_message" where
  "FileSingleIOMessage_new active this fd eventfd buffer offset sz command =
     FileSingleIOMessage active False
       \<lparr>aio_data = this, aio_lio_opcode = command, aio_reqprio = 0, aio_fildes = fd, aio_buf = buffer,
        aio_nbytes = u64 sz, aio_offset = offset, aio_flags = IOCB_FLAG_RESFD, aio_resfd = eventfd\<rparr> 0 0"

definition FileMultiIOMessage_new :: "nat \<Rightarrow> nat \<Rightarrow> int \<Rightarrow> int \<Rightarrow> FileIOBatch \<Rightarrow> io_message" where
  "FileMultiIOMessage_new active this fd event_fd batch =
     FileMultiIOMessage active True (batch_configure fd event_fd this batch) (int (nblocks batch))"

definition FiberIOMessage_new :: "nat \<Rightarrow> nat \<Rightarrow> io_message" where
  "FiberIOMessage_new active count = FiberIOMessage active True (int count)"

definition add_submited :: "nat \<Rightarrow> io_message \<Rightarrow> io_message" where
  "add_submited num m =
     (case m of FileMultiIOMessage f ret b remaining \<Rightarrow>
        FileMultiIOMessage f ret (set_submited (u64 (fb_submited b + int num)) b) (int num) | _ \<Rightarrow> m)"

fun io_is_return :: "io_message \<Rightarrow> bool" where
  "io_is_return (FileSingleIOMessage f ret block sz st) = ret"
| "io_is_return (FileMultiIOMessage f ret b remaining) = ret"
| "io_is_return (FiberIOMessage f ret count) = ret"

fun io_process :: "io_message \<Rightarrow> io_message" where
  "io_process (FileSingleIOMessage f ret block sz st) = FileSingleIOMessage f True block sz st"
| "io_process (FileMultiIOMessage f ret b remaining) = FileMultiIOMessage f ret b remaining"
| "io_process (FiberIOMessage f ret count) = FiberIOMessage f ret count"

text \<open>\<open>report\<close> of a kernel event: the number of the block (for a batch), \<open>res\<close> and \<open>res2\<close>. It is
  \<open>None\<close> for a block the batch does not have, and for a message that is no \<open>FileIOMessage\<close>.\<close>

fun io_report :: "nat \<Rightarrow> int \<Rightarrow> int \<Rightarrow> io_message \<Rightarrow> io_message option" where
  "io_report k res res2 (FileSingleIOMessage f ret block sz st) = Some (FileSingleIOMessage f ret block res (u64 res2))"
| "io_report k res res2 (FileMultiIOMessage f ret b remaining) =
     map_option (\<lambda>b. FileMultiIOMessage f ret b remaining) (batch_report k res res2 b)"
| "io_report k res res2 (FiberIOMessage f ret count) = None"

text \<open>\<open>finish\<close>: the message after it, and the fiber it resumes. The counters are \<open>size_t\<close>.\<close>

fun io_finish :: "io_message \<Rightarrow> io_message \<times> nat option" where
  "io_finish (FileSingleIOMessage f ret block sz st) = (FileSingleIOMessage f ret block sz st, Some f)"
| "io_finish (FileMultiIOMessage f ret b remaining) =
     (FileMultiIOMessage f ret b (u64 (remaining - 1)), if u64 (remaining - 1) = 0 then Some f else None)"
| "io_finish (FiberIOMessage f ret count) =
     (FiberIOMessage f ret (u64 (count - 1)), if u64 (count - 1) = 0 then Some f else None)"

subsection \<open>The reactor's side\<close>

text \<open>The wait-queue has the fibers in \<open>wait_for\<close>, the ready-queue those resumed. For the properties: the
  blocks the kernel has been given and not reported, and what it has reported.\<close>

record io_reactor =
  io_ring :: "nat ReactorRing"
  io_messages :: "nat \<Rightarrow> io_message option"
  io_wait :: "nat list"
  io_ready :: "nat list"
  io_flight :: "(nat \<times> nat) list"
  io_log :: "(nat \<times> nat \<times> int \<times> int) list"

datatype io_fault = Io_freed | Io_not_waiting | Io_ring_full | Io_ring_empty | Io_not_return | Io_stray_block | Io_terminated

definition io_wait_for :: "nat \<Rightarrow> io_reactor \<Rightarrow> io_reactor" where
  "io_wait_for f s = s\<lparr>io_wait := io_wait s @ [f]\<rparr>"

definition io_resume :: "nat \<Rightarrow> io_reactor \<Rightarrow> io_fault + io_reactor" where
  "io_resume f s =
     (if f \<in> set (io_wait s) then Inr (s\<lparr>io_wait := remove1 f (io_wait s), io_ready := io_ready s @ [f]\<rparr>)
      else Inl Io_not_waiting)"

definition io_push :: "nat \<Rightarrow> io_reactor \<Rightarrow> io_fault + io_reactor" where
  "io_push a s = (case rr_push_front (io_ring s) a of None \<Rightarrow> Inl Io_ring_full | Some q \<Rightarrow> Inr (s\<lparr>io_ring := q\<rparr>))"

text \<open>\<open>poll_file_events\<close>: the kernel's events are a message, the block and two results. The loop over
  them; then the call, which gives the kernel the number of events wanted. \<open>None\<close> is the \<open>-1\<close> of a failed
  system call, which terminates the program.\<close>

fun file_events :: "(nat \<times> nat \<times> int \<times> int) list \<Rightarrow> io_reactor \<Rightarrow> io_fault + io_reactor" where
  "file_events [] s = Inr s"
| "file_events ((a, k, res, res2) # evs) s =
     (case io_messages s a of
        None \<Rightarrow> Inl Io_freed
      | Some m \<Rightarrow>
          (case io_report k res res2 (io_process m) of
             None \<Rightarrow> Inl Io_stray_block
           | Some m' \<Rightarrow>
               (case io_push a (s\<lparr>io_messages := (io_messages s)(a \<mapsto> m'), io_flight := remove1 (a, k) (io_flight s),
                    io_log := io_log s @ [(a, k, res, res2)]\<rparr>) of
                  Inl e \<Rightarrow> Inl e
                | Inr s \<Rightarrow> file_events evs s)))"

definition BATCH_SIZE :: int where
  "BATCH_SIZE = 512"

definition rr_capacity_i :: "'a ReactorRing \<Rightarrow> int" where
  "rr_capacity_i q = (rr_capacity q + 2 ^ 31) mod 2 ^ 32 - 2 ^ 31"

type_synonym getevents = "int \<Rightarrow> (nat \<times> nat \<times> int \<times> int) list option"

definition poll_file_events :: "getevents \<Rightarrow> int \<Rightarrow> int \<Rightarrow> io_reactor \<Rightarrow> io_fault + io_reactor" where
  "poll_file_events io_getevents buffer_capacity other_events s =
     (case io_getevents (min (buffer_capacity - other_events) BATCH_SIZE) of
        None \<Rightarrow> Inl Io_terminated
      | Some evs \<Rightarrow> file_events evs s)"

text \<open>An epoll event carries the address of the event descriptor, a message, or null.\<close>

datatype epoll_data = Event_fd | Epoll_message nat | Epoll_null

fun epoll_events :: "getevents \<Rightarrow> int \<Rightarrow> int \<Rightarrow> epoll_data list \<Rightarrow> io_reactor \<Rightarrow> io_fault + io_reactor" where
  "epoll_events getevents cap n [] s = Inr s"
| "epoll_events getevents cap n (d # ds) s =
     (case (case d of
              Event_fd \<Rightarrow> poll_file_events getevents cap (n - 1) s
            | Epoll_message a \<Rightarrow> io_push a s
            | Epoll_null \<Rightarrow> Inr s) of
        Inl e \<Rightarrow> Inl e
      | Inr s \<Rightarrow> epoll_events getevents cap n ds s)"

definition IOPoller_poll :: "(int \<Rightarrow> epoll_data list option) \<Rightarrow> getevents \<Rightarrow> io_reactor \<Rightarrow> io_fault + io_reactor" where
  "IOPoller_poll epoll_pwait io_getevents s =
     (let buffer_capacity = rr_capacity_i (io_ring s) in
      if buffer_capacity > 0
      then (case epoll_pwait (min buffer_capacity BATCH_SIZE) of
              None \<Rightarrow> Inl Io_terminated
            | Some eevents \<Rightarrow> epoll_events io_getevents buffer_capacity (int (length eevents)) eevents s)
      else Inr s)"

text \<open>The loop of \<open>event_loop\<close> over the ring: \<open>process_fn\<close> finishes a message that returns. It does not
  push, so the loop takes as many turns as there are messages.\<close>

definition io_process_fn :: "nat \<Rightarrow> io_reactor \<Rightarrow> io_fault + io_reactor" where
  "io_process_fn a s =
     (case io_messages s a of
        None \<Rightarrow> Inl Io_freed
      | Some m \<Rightarrow>
          if \<not> io_is_return m then Inl Io_not_return
          else (case io_finish m of
                  (m, None) \<Rightarrow> Inr (s\<lparr>io_messages := (io_messages s)(a \<mapsto> m)\<rparr>)
                | (m, Some f) \<Rightarrow> io_resume f (s\<lparr>io_messages := (io_messages s)(a \<mapsto> m)\<rparr>)))"

fun drain_turns :: "nat \<Rightarrow> io_reactor \<Rightarrow> io_fault + io_reactor" where
  "drain_turns 0 s = Inr s"
| "drain_turns (Suc n) s =
     (if rr_available (io_ring s) = 0 then Inr s
      else (case rr_pop_back (io_ring s) of
              None \<Rightarrow> Inl Io_ring_empty
            | Some (a, q) \<Rightarrow>
                (case io_process_fn a (s\<lparr>io_ring := q\<rparr>) of Inl e \<Rightarrow> Inl e | Inr s \<Rightarrow> drain_turns n s)))"

definition drain_ring :: "io_reactor \<Rightarrow> io_fault + io_reactor" where
  "drain_ring s = drain_turns (nat (rr_available (io_ring s))) s"

subsection \<open>The poller never overflows the ring\<close>

definition io_accepts :: "nat \<Rightarrow> io_message \<Rightarrow> bool" where
  "io_accepts k m = (case m of FileSingleIOMessage _ _ _ _ _ \<Rightarrow> True
     | FileMultiIOMessage _ _ b _ \<Rightarrow> k < length (fb_blocks b) | FiberIOMessage _ _ _ \<Rightarrow> False)"

lemma io_report_accepted:
  assumes "io_accepts k m"
  obtains m' where "io_report k x y (io_process m) = Some m'" "\<And>j. io_accepts j m' = io_accepts j m"
  using assms by (cases m) (auto simp: io_accepts_def batch_report_def)

definition accepted_in :: "io_reactor \<Rightarrow> (nat \<times> nat \<times> int \<times> int) list \<Rightarrow> bool" where
  "accepted_in s evs \<longleftrightarrow> (\<forall>(a, k, r, r2) \<in> set evs. \<exists>m. io_messages s a = Some m \<and> io_accepts k m)"

definition ring_fits :: "io_reactor \<Rightarrow> nat \<Rightarrow> bool" where
  "ring_fits s n \<longleftrightarrow> rr_inv (io_ring s) \<and> n \<le> rr_life (io_ring s) \<and>
     length (rr_contents (io_ring s)) + n \<le> length (rr_buffer (io_ring s))"

lemma io_push_fits:
  assumes "ring_fits s (Suc n)"
  obtains q where "io_push a s = Inr (s\<lparr>io_ring := q\<rparr>)" "ring_fits (s\<lparr>io_ring := q\<rparr>) n"
    "rr_contents q = rr_contents (io_ring s) @ [a]" "length (rr_buffer q) = length (rr_buffer (io_ring s))"
    "rr_life (io_ring s) \<le> Suc (rr_life q)"
proof -
  have inv: "rr_inv (io_ring s)" and l: "0 < rr_life (io_ring s)"
    and room: "length (rr_contents (io_ring s)) \<noteq> length (rr_buffer (io_ring s))"
    using assms by (auto simp: ring_fits_def)
  obtain q where q: "rr_push_front (io_ring s) a = Some q" using rr.push_None [OF inv] room by blast
  from rr.push_Some [OF inv l q] assms q show thesis
    by (intro that [of q]) (auto simp: io_push_def ring_fits_def)
qed

lemma accepted_in_update:
  assumes "accepted_in s evs" "io_messages s a = Some m" "\<And>j. io_accepts j m' = io_accepts j m"
    "io_messages t = (io_messages s)(a \<mapsto> m')"
  shows "accepted_in t evs"
  using assms unfolding accepted_in_def by fastforce

lemma file_events_fit:
  assumes "ring_fits s (length evs + n)" "accepted_in s evs" "accepted_in s evs2"
  shows "\<exists>t. file_events evs s = Inr t \<and> ring_fits t n \<and> accepted_in t evs2 \<and>
    rr_contents (io_ring t) = rr_contents (io_ring s) @ map fst evs \<and>
    length (rr_buffer (io_ring t)) = length (rr_buffer (io_ring s))"
  using assms
proof (induction evs arbitrary: s)
  case (Cons ev evs)
  obtain a k r r2 where ev: "ev = (a, k, r, r2)" by (cases ev) auto
  with Cons.prems obtain m where m: "io_messages s a = Some m" "io_accepts k m" by (auto simp: accepted_in_def)
  obtain m' where m': "io_report k r r2 (io_process m) = Some m'" "\<And>j. io_accepts j m' = io_accepts j m"
    by (rule io_report_accepted [OF m(2), where x = r and y = r2]) auto
  let ?s = "s\<lparr>io_messages := (io_messages s)(a \<mapsto> m'), io_flight := remove1 (a, k) (io_flight s),
     io_log := io_log s @ [(a, k, r, r2)]\<rparr>"
  have "ring_fits ?s (Suc (length evs + n))" using Cons.prems(1) by (simp add: ring_fits_def)
  then obtain q where q: "io_push a ?s = Inr (?s\<lparr>io_ring := q\<rparr>)" "ring_fits (?s\<lparr>io_ring := q\<rparr>) (length evs + n)"
    "rr_contents q = rr_contents (io_ring s) @ [a]" "length (rr_buffer q) = length (rr_buffer (io_ring s))"
    by (rule io_push_fits) auto
  have "accepted_in s evs" using Cons.prems(2) by (simp add: accepted_in_def)
  then have "accepted_in (?s\<lparr>io_ring := q\<rparr>) evs" "accepted_in (?s\<lparr>io_ring := q\<rparr>) evs2"
    using accepted_in_update [OF _ m(1) m'(2)] Cons.prems(3) by simp_all
  from Cons.IH [OF q(2) this] ev m m' q show ?case by auto
qed simp

text \<open>The messages the poller pushes.\<close>

fun pushed_by :: "nat list \<Rightarrow> epoll_data list \<Rightarrow> nat list" where
  "pushed_by evs [] = []"
| "pushed_by evs (Event_fd # ds) = evs @ pushed_by evs ds"
| "pushed_by evs (Epoll_message a # ds) = a # pushed_by evs ds"
| "pushed_by evs (Epoll_null # ds) = pushed_by evs ds"

lemma epoll_events_fit:
  assumes "ring_fits s (length (pushed_by (map fst evs) ds))"
    and "getevents (min (cap - (n - 1)) BATCH_SIZE) = Some evs" "accepted_in s evs"
  shows "\<exists>t. epoll_events getevents cap n ds s = Inr t \<and>
    rr_contents (io_ring t) = rr_contents (io_ring s) @ pushed_by (map fst evs) ds"
  using assms
proof (induction ds arbitrary: s)
  case (Cons d ds)
  show ?case
  proof (cases d)
    case Event_fd
    have "ring_fits s (length evs + length (pushed_by (map fst evs) ds))" using Cons.prems(1) Event_fd by simp
    from file_events_fit [OF this Cons.prems(3) Cons.prems(3)] obtain t where t: "file_events evs s = Inr t"
      "ring_fits t (length (pushed_by (map fst evs) ds))" "accepted_in t evs"
      "rr_contents (io_ring t) = rr_contents (io_ring s) @ map fst evs" by blast
    from Cons.IH [OF t(2) Cons.prems(2) t(3)] t(1,4) Event_fd Cons.prems(2) show ?thesis
      by (auto simp: poll_file_events_def)
  next
    case (Epoll_message a)
    then have "ring_fits s (Suc (length (pushed_by (map fst evs) ds)))" using Cons.prems(1) by simp
    then obtain q where q: "io_push a s = Inr (s\<lparr>io_ring := q\<rparr>)"
      "ring_fits (s\<lparr>io_ring := q\<rparr>) (length (pushed_by (map fst evs) ds))"
      "rr_contents q = rr_contents (io_ring s) @ [a]" by (rule io_push_fits) auto
    have "accepted_in (s\<lparr>io_ring := q\<rparr>) evs" using Cons.prems(3) by (simp add: accepted_in_def)
    from Cons.IH [OF q(2) Cons.prems(2) this] q Epoll_message show ?thesis by auto
  next
    case Epoll_null
    with Cons show ?thesis by simp
  qed
qed simp

lemma pushed_by_length:
  "length (filter (\<lambda>d. d = Event_fd) ds) \<le> 1 \<Longrightarrow>
   length (pushed_by evs ds) \<le> (if Event_fd \<in> set ds then length evs + (length ds - 1) else length ds)"
proof (induction ds)
  case (Cons d ds)
  show ?case
  proof (cases d)
    case Event_fd
    then have "Event_fd \<notin> set ds" using Cons.prems by (auto simp: filter_empty_conv)
    with Cons Event_fd show ?thesis by simp
  next
    case (Epoll_message a)
    with Cons show ?thesis by (cases ds) auto
  next
    case Epoll_null
    with Cons show ?thesis by (cases ds) auto
  qed
qed simp

text \<open>The room the poller counts on: the ring's free slots.\<close>

lemma rr_capacity_i_eq:
  assumes "rr_inv q" "rr_ring_size q < 2 ^ 31"
  shows "rr_capacity_i q = int (length (rr_buffer q) - length (rr_contents q))"
proof -
  have le: "length (rr_contents q) \<le> length (rr_buffer q)" by (rule rr.within_cap [OF assms(1)])
  have av: "rr_available q = int (length (rr_contents q))"
    using assms(1) by (simp add: rr_available_eq rr_length_contents rr_inv_def)
  have "rr_capacity q = int (length (rr_buffer q) - length (rr_contents q))"
    using le assms by (simp add: rr_capacity_def av rr_ring_size_def of_nat_diff rr_inv_def)
  with assms(2) show ?thesis by (simp add: rr_capacity_i_def rr_ring_size_def)
qed

lemma poll_pushes:
  assumes ring: "rr_inv (io_ring s)" "rr_ring_size (io_ring s) < 2 ^ 31" "1024 \<le> rr_life (io_ring s)"
    and cap: "cap = rr_capacity_i (io_ring s)" "0 < cap"
    and ds: "int (length ds) \<le> min cap BATCH_SIZE" "length (filter (\<lambda>d. d = Event_fd) ds) \<le> 1"
    and evs: "getevents (min (cap - (int (length ds) - 1)) BATCH_SIZE) = Some evs"
      "int (length evs) \<le> min (cap - (int (length ds) - 1)) BATCH_SIZE" "accepted_in s evs"
  shows "\<exists>t. epoll_events getevents cap (int (length ds)) ds s = Inr t \<and>
    rr_contents (io_ring t) = rr_contents (io_ring s) @ pushed_by (map fst evs) ds \<and>
    length (rr_contents (io_ring t)) \<le> length (rr_buffer (io_ring s))"
proof -
  let ?n = "length (pushed_by (map fst evs) ds)"
  have le: "length (rr_contents (io_ring s)) \<le> length (rr_buffer (io_ring s))" by (rule rr.within_cap [OF ring(1)])
  have n: "?n \<le> (if Event_fd \<in> set ds then length evs + (length ds - 1) else length ds)"
    using pushed_by_length [OF ds(2), of "map fst evs"] by (simp only: length_map)
  have "Event_fd \<in> set ds \<Longrightarrow> 0 < length ds" by (cases ds) auto
  moreover have "int (length ds) \<le> cap" "length ds \<le> 512" "int (length evs) \<le> cap - (int (length ds) - 1)" "length evs \<le> 512"
    using ds(1) evs(2) by (auto simp: BATCH_SIZE_def)
  ultimately have n: "int ?n \<le> cap" "?n \<le> 1024" using n by (cases "Event_fd \<in> set ds"; simp; linarith)+
  from le ring cap n have "ring_fits s ?n" by (simp add: ring_fits_def rr_capacity_i_eq)
  from epoll_events_fit [of s evs ds getevents cap "int (length ds)", OF this evs(1,3)] this show ?thesis
    by (auto simp: ring_fits_def)
qed

text \<open>C9: the poller never overflows the reactor's ring. It asks epoll for as many events as there are free slots,
  at most 512, and the file interface for what those leave free. If the kernel returns no more than
  it is asked for, the event descriptor at most once, and for each file event the message of an operation whose
  block is there, then no \<open>push_front\<close> fails its assertion, and the messages in the ring are those that were there,
  then those of the events, in their order.\<close>

theorem poll_fits_ring:
  assumes "rr_inv (io_ring s)" "rr_ring_size (io_ring s) < 2 ^ 31" "1024 \<le> rr_life (io_ring s)"
    and "\<And>n. 0 < n \<Longrightarrow> \<exists>ds. epoll n = Some ds \<and> int (length ds) \<le> n \<and> length (filter (\<lambda>d. d = Event_fd) ds) \<le> 1"
    and "\<And>n. 0 < n \<Longrightarrow> \<exists>evs. getevents n = Some evs \<and> int (length evs) \<le> n \<and> accepted_in s evs"
  obtains t ds evs where "IOPoller_poll epoll getevents s = Inr t"
    "rr_contents (io_ring t) = rr_contents (io_ring s) @ pushed_by (map fst evs) ds"
    "length (rr_contents (io_ring t)) \<le> length (rr_buffer (io_ring s))"
    "if 0 < rr_capacity_i (io_ring s)
     then epoll (min (rr_capacity_i (io_ring s)) 512) = Some ds \<and>
       getevents (min (rr_capacity_i (io_ring s) - (int (length ds) - 1)) 512) = Some evs
     else ds = []"
proof (cases "0 < rr_capacity_i (io_ring s)")
  case False
  with that [of s "[]" "[]"] show thesis by (simp add: IOPoller_poll_def rr.within_cap [OF assms(1)])
next
  case True
  let ?cap = "rr_capacity_i (io_ring s)"
  from True assms(4) [of "min ?cap BATCH_SIZE"] obtain ds where ds: "epoll (min ?cap BATCH_SIZE) = Some ds"
    "int (length ds) \<le> min ?cap BATCH_SIZE" "length (filter (\<lambda>d. d = Event_fd) ds) \<le> 1" by (auto simp: BATCH_SIZE_def)
  have "0 < min (?cap - (int (length ds) - 1)) BATCH_SIZE" using ds(2) True by (auto simp: BATCH_SIZE_def)
  from assms(5) [OF this] obtain evs where evs: "getevents (min (?cap - (int (length ds) - 1)) BATCH_SIZE) = Some evs"
    "int (length evs) \<le> min (?cap - (int (length ds) - 1)) BATCH_SIZE" "accepted_in s evs" by blast
  from poll_pushes [where s = s and cap = ?cap and ds = ds and evs = evs and getevents = getevents, OF assms(1-3) refl True ds(2,3) evs] obtain t where
    t: "epoll_events getevents ?cap (int (length ds)) ds s = Inr t"
    "rr_contents (io_ring t) = rr_contents (io_ring s) @ pushed_by (map fst evs) ds"
    "length (rr_contents (io_ring t)) \<le> length (rr_buffer (io_ring s))" by blast
  from ds(1) evs(1) t show thesis by (intro that [of t evs ds]) (simp_all add: IOPoller_poll_def True BATCH_SIZE_def)
qed

text \<open>A ring of four with one message in it; the event descriptor and a connection are ready, and three file
  events wait, of which the poller takes the two that fit.\<close>

definition poll_example :: io_reactor where
  "poll_example = \<lparr>io_ring = \<lparr>rr_buffer = [7, 0, 0, 0], rr_tail = 0, rr_head = 1\<rparr>,
     io_messages = [1 \<mapsto> FileSingleIOMessage_new 1 1 0 0 0 0 0 IOCB_CMD_PREAD, 7 \<mapsto> FiberIOMessage_new 2 1],
     io_wait = [1, 2], io_ready = [], io_flight = [(1, 0), (1, 0), (1, 0)], io_log = []\<rparr>"

definition poll_example_epoll :: "int \<Rightarrow> epoll_data list option" where
  "poll_example_epoll n = Some (take (nat n) [Epoll_message 7, Event_fd])"

definition poll_example_getevents :: getevents where
  "poll_example_getevents n = Some (take (nat n) [(1, 0, 512, 0), (1, 0, 512, 0), (1, 0, 512, 0)])"

theorem poll_fits_ring_witness:
  "\<exists>t. IOPoller_poll poll_example_epoll poll_example_getevents poll_example = Inr t \<and>
     rr_contents (io_ring t) = [7, 7, 1, 1]"
proof -
  have c: "rr_contents (io_ring poll_example) = [7]"
    by (simp add: poll_example_def rr_contents_def rr_ring_size_def)
  have cap: "rr_capacity_i (io_ring poll_example) = 3"
    by (simp add: poll_example_def rr_capacity_i_def rr_capacity_def rr_ring_size_def rr_available_def u64_def i64_def)
  show ?thesis
  proof (rule poll_fits_ring [of poll_example poll_example_epoll poll_example_getevents])
    have "pow2 4" unfolding pow2_def by (rule exI [of _ 2]) simp
    then show "rr_inv (io_ring poll_example)" by (simp add: poll_example_def rr_inv_def rr_ring_size_def)
    show "rr_ring_size (io_ring poll_example) < 2 ^ 31" "1024 \<le> rr_life (io_ring poll_example)"
      by (simp_all add: poll_example_def rr_ring_size_def rr_life_def)
    fix n :: int assume n: "0 < n"
    show "\<exists>ds. poll_example_epoll n = Some ds \<and> int (length ds) \<le> n \<and> length (filter (\<lambda>d. d = Event_fd) ds) \<le> 1"
      using n by (cases "nat n = 1"; cases "nat n = 0")
        (auto simp: poll_example_epoll_def take_Cons' min_def split: if_splits)
    have "accepted_in poll_example (take (nat n) [(1, 0, 512, 0), (1, 0, 512, 0), (1, 0, 512, 0)])"
      unfolding accepted_in_def
      by (auto dest!: in_set_takeD simp: poll_example_def FileSingleIOMessage_new_def io_accepts_def)
    then show "\<exists>evs. poll_example_getevents n = Some evs \<and> int (length evs) \<le> n \<and> accepted_in poll_example evs"
      using n by (auto simp: poll_example_getevents_def min_def)
  next
    fix t ds and evs :: "(nat \<times> nat \<times> int \<times> int) list"
    assume t: "IOPoller_poll poll_example_epoll poll_example_getevents poll_example = Inr t"
      "rr_contents (io_ring t) = rr_contents (io_ring poll_example) @ pushed_by (map fst evs) ds"
    assume "if 0 < rr_capacity_i (io_ring poll_example)
      then poll_example_epoll (min (rr_capacity_i (io_ring poll_example)) 512) = Some ds \<and>
        poll_example_getevents (min (rr_capacity_i (io_ring poll_example) - (int (length ds) - 1)) 512) = Some evs
      else ds = []"
    then have "ds = [Epoll_message 7, Event_fd] \<and> map fst evs = [1, 1]"
      by (auto simp: cap poll_example_epoll_def poll_example_getevents_def eval_nat_numeral)
    with c t show ?thesis by simp
  qed
qed

end
