(* ===== verification/Linux_File.thy ===== *)
theory Linux_File
  imports Linux_Poller
begin

text \<open>
  Files on Linux, \<open>reactor/linux/file_impl.cpp\<close>: the fibers of a reactor read and write files, one
  block at a time (\<open>process_single_io\<close>) or in batches (\<open>process_batch\<close>). A call makes a message in its
  frame, gives its control blocks to the kernel and waits until the event loop resumes it. A step of
  the system is what a fiber does up to a system call or a suspension, or a turn of the event loop; what the kernel
  does is part of the action.
\<close>

subsection \<open>The calls\<close>

text \<open>Where a fiber is: before \<open>io_submit\<close> or waiting. The message is named by its address; a batch has
  \<open>total\<close> and \<open>done\<close>, and the number of blocks submitted last.\<close>

datatype file_pc =
    F_idle
  | Submit_single nat | Wait_single nat
  | Submit_batch nat nat nat | Wait_batch nat nat nat nat

text \<open>The state of a reactor's files. For the properties: what the calls have returned or thrown, with
  the message each had; an exception is the error number it describes.\<close>

record file_system =
  fs_io :: io_reactor
  fs_event_fd :: int
  fs_pc :: "nat \<Rightarrow> file_pc"
  fs_next :: nat
  fs_single :: "(nat \<times> nat \<times> (int + int)) list"
  fs_batch :: "(nat \<times> nat \<times> FileIOBatch \<times> (int + nat)) list"

definition file_system_new :: "nat \<Rightarrow> int \<Rightarrow> file_system" where
  "file_system_new n event_fd = \<lparr>fs_io = \<lparr>io_ring = ReactorRing_new 0 n, io_messages = Map.empty, io_wait = [],
     io_ready = [], io_flight = [], io_log = []\<rparr>, fs_event_fd = event_fd, fs_pc = (\<lambda>f. F_idle), fs_next = 1,
     fs_single = [], fs_batch = []\<rparr>"

abbreviation file_pc_at :: "nat \<Rightarrow> file_pc \<Rightarrow> file_system \<Rightarrow> file_system" where
  "file_pc_at f p s \<equiv> s\<lparr>fs_pc := (fs_pc s)(f := p)\<rparr>"

text \<open>A new message, in the frame of the call; and its end with the call.\<close>

definition frame_enter :: "nat \<Rightarrow> io_message \<Rightarrow> file_pc \<Rightarrow> file_system \<Rightarrow> file_system" where
  "frame_enter f m p s = s\<lparr>fs_io := (fs_io s)\<lparr>io_messages := (io_messages (fs_io s))(fs_next s \<mapsto> m)\<rparr>,
     fs_next := Suc (fs_next s), fs_pc := (fs_pc s)(f := p)\<rparr>"

definition frame_leave :: "nat \<Rightarrow> nat \<Rightarrow> file_system \<Rightarrow> file_system" where
  "frame_leave f a s = s\<lparr>fs_io := (fs_io s)\<lparr>io_messages := (io_messages (fs_io s))(a := None)\<rparr>,
     fs_pc := (fs_pc s)(f := F_idle)\<rparr>"

definition return_single :: "nat \<Rightarrow> nat \<Rightarrow> int + int \<Rightarrow> file_system \<Rightarrow> file_system" where
  "return_single f a r s = frame_leave f a (s\<lparr>fs_single := fs_single s @ [(f, a, r)]\<rparr>)"

definition return_batch :: "nat \<Rightarrow> nat \<Rightarrow> FileIOBatch \<Rightarrow> int + nat \<Rightarrow> file_system \<Rightarrow> file_system" where
  "return_batch f a b r s = frame_leave f a (s\<lparr>fs_batch := fs_batch s @ [(f, a, b, r)]\<rparr>)"

text \<open>\<open>process_single_io\<close> up to its loop. \<open>File_read\<close> and \<open>File_write\<close> call it.\<close>

definition process_single_io :: "nat \<Rightarrow> int \<Rightarrow> nat \<Rightarrow> int \<Rightarrow> int \<Rightarrow> aio_opcode \<Rightarrow> file_system \<Rightarrow> file_system" where
  "process_single_io f fd buffer offset sz command s =
     frame_enter f (FileSingleIOMessage_new f (fs_next s) fd (fs_event_fd s) buffer offset sz command)
       (Submit_single (fs_next s)) s"

definition File_read :: "nat \<Rightarrow> int \<Rightarrow> nat \<Rightarrow> int \<Rightarrow> int \<Rightarrow> file_system \<Rightarrow> file_system" where
  "File_read f fd buffer offset sz = process_single_io f fd buffer offset sz IOCB_CMD_PREAD"

definition File_write :: "nat \<Rightarrow> int \<Rightarrow> nat \<Rightarrow> int \<Rightarrow> int \<Rightarrow> file_system \<Rightarrow> file_system" where
  "File_write f fd buffer offset sz = process_single_io f fd buffer offset sz IOCB_CMD_PWRITE"

text \<open>What the kernel takes: it keeps the address in \<open>aio_data\<close> for the event.\<close>

definition kernel_takes :: "(nat \<times> nat) list \<Rightarrow> io_reactor \<Rightarrow> io_reactor" where
  "kernel_takes bs s = s\<lparr>io_flight := io_flight s @ bs\<rparr>"

text \<open>A turn of the loop of \<open>process_single_io\<close>: \<open>res\<close> is what \<open>io_submit\<close> returned, \<open>errno\<close> its error.\<close>

definition single_submit :: "nat \<Rightarrow> nat \<Rightarrow> int \<Rightarrow> int \<Rightarrow> file_system \<Rightarrow> io_fault + file_system" where
  "single_submit f a res errno s =
     (case io_messages (fs_io s) a of
        Some (FileSingleIOMessage f' ret block sz st) \<Rightarrow>
          if res > 0
          then Inr (file_pc_at f (Wait_single a)
                 (s\<lparr>fs_io := io_wait_for f' (kernel_takes [(aio_data block, 0)] (fs_io s))\<rparr>))
          else if res < 0 then Inr (return_single f a (Inl errno) s)
          else Inr s
      | _ \<Rightarrow> Inl Io_freed)"

definition single_resumed :: "nat \<Rightarrow> nat \<Rightarrow> file_system \<Rightarrow> io_fault + file_system" where
  "single_resumed f a s =
     (case io_messages (fs_io s) a of
        Some (FileSingleIOMessage f' ret block sz st) \<Rightarrow>
          Inr (return_single f a (if sz < 0 then Inl (- sz) else Inr sz) s)
      | _ \<Rightarrow> Inl Io_freed)"

text \<open>\<open>process_batch\<close>: its head, the test of the loop, a turn up to the wait and what follows it. The
  number of blocks is converted to \<open>int\<close>.\<close>

definition batch_loop :: "nat \<Rightarrow> nat \<Rightarrow> nat \<Rightarrow> nat \<Rightarrow> file_system \<Rightarrow> io_fault + file_system" where
  "batch_loop f a tot d s =
     (case io_messages (fs_io s) a of
        Some (FileMultiIOMessage f' ret b remaining) \<Rightarrow>
          if d < tot then Inr (file_pc_at f (Submit_batch a tot d) s)
          else Inr (return_batch f a b (Inr d) s)
      | _ \<Rightarrow> Inl Io_freed)"

definition process_batch :: "nat \<Rightarrow> int \<Rightarrow> FileIOBatch \<Rightarrow> file_system \<Rightarrow> io_fault + file_system" where
  "process_batch f fd b s =
     batch_loop f (fs_next s) (nblocks b) 0
       (frame_enter f (FileMultiIOMessage_new f (fs_next s) fd (fs_event_fd s) b) F_idle s)"

definition i32 :: "int \<Rightarrow> int" where
  "i32 x = (x + 2 ^ 31) mod 2 ^ 32 - 2 ^ 31"

definition batch_submit :: "nat \<Rightarrow> nat \<Rightarrow> nat \<Rightarrow> nat \<Rightarrow> int \<Rightarrow> int \<Rightarrow> file_system \<Rightarrow> io_fault + file_system" where
  "batch_submit f a tot d res errno s =
     (case io_messages (fs_io s) a of
        Some (FileMultiIOMessage f' ret b remaining) \<Rightarrow>
          (case batch_blocks d b of (pblock, b) \<Rightarrow>
             if res > 0
             then if None \<in> set (take (nat res) pblock) then Inl Io_stray_block
               else (let ks = map the (take (nat res) pblock);
                         m = add_submited (nat res) (FileMultiIOMessage f' ret b remaining);
                         r = kernel_takes (map (\<lambda>k. (aio_data (fb_blocks b ! k), k)) ks) (fs_io s) in
                     Inr (file_pc_at f (Wait_batch a tot d (nat res))
                       (s\<lparr>fs_io := io_wait_for f' (r\<lparr>io_messages := (io_messages r)(a \<mapsto> m)\<rparr>)\<rparr>)))
             else if res < 0 then Inr (return_batch f a b (Inl errno) s)
             else Inr (return_batch f a b (Inr 0) s))
      | _ \<Rightarrow> Inl Io_freed)"

subsection \<open>The system\<close>

text \<open>A turn of the event loop: the poller, then the messages in the ring. The event descriptor is always
  ready to be written, so epoll always reports it.\<close>

definition event_loop_turn :: "(nat \<times> nat \<times> int \<times> int) list \<Rightarrow> io_reactor \<Rightarrow> io_fault + io_reactor" where
  "event_loop_turn evs s =
     (case IOPoller_poll (\<lambda>n. Some [Event_fd]) (\<lambda>n. Some evs) s of Inl e \<Rightarrow> Inl e | Inr s \<Rightarrow> drain_ring s)"

datatype file_action =
    Call_read nat int nat int int | Call_write nat int nat int int
  | Call_batch nat int FileIOBatch
  | Io_submit nat int int
  | Event_loop "(nat \<times> nat \<times> int \<times> int) list"
  | Run_resumed nat

text \<open>What the kernel may do, by its documentation: it takes at most the blocks it is given and reports a block
  it has taken, once, and at most as many as it is asked for.\<close>

abbreviation event_key :: "nat \<times> nat \<times> int \<times> int \<Rightarrow> nat \<times> nat" where
  "event_key e \<equiv> (fst e, fst (snd e))"

definition kernel_reports :: "io_reactor \<Rightarrow> (nat \<times> nat \<times> int \<times> int) list \<Rightarrow> bool" where
  "kernel_reports s evs \<longleftrightarrow> distinct (map event_key evs) \<and>
     set (map event_key evs) \<subseteq> set (io_flight s) \<and>
     int (length evs) \<le> min (rr_capacity_i (io_ring s)) BATCH_SIZE"

text \<open>An action that is not possible leaves the state alone.\<close>

fun file_step :: "file_action \<Rightarrow> file_system \<Rightarrow> io_fault + file_system" where
  "file_step (Call_read f fd buffer offset sz) s =
     (if fs_pc s f = F_idle then Inr (File_read f fd buffer offset sz s) else Inr s)"
| "file_step (Call_write f fd buffer offset sz) s =
     (if fs_pc s f = F_idle then Inr (File_write f fd buffer offset sz s) else Inr s)"
| "file_step (Call_batch f fd b) s = (if fs_pc s f = F_idle \<and> batch_ok b then process_batch f fd b s else Inr s)"
| "file_step (Io_submit f res errno) s =
     (case fs_pc s f of
        Submit_single a \<Rightarrow> if res \<le> 1 then single_submit f a res errno s else Inr s
      | Submit_batch a tot d \<Rightarrow>
          if res \<le> max 0 (i32 (int tot - int d)) then batch_submit f a tot d res errno s else Inr s
      | _ \<Rightarrow> Inr s)"
| "file_step (Event_loop evs) s =
     (if kernel_reports (fs_io s) evs
      then map_sum id (\<lambda>r. s\<lparr>fs_io := r\<rparr>) (event_loop_turn evs (fs_io s)) else Inr s)"
| "file_step (Run_resumed f) s =
     (if f \<in> set (io_ready (fs_io s))
      then (let s = s\<lparr>fs_io := (fs_io s)\<lparr>io_ready := remove1 f (io_ready (fs_io s))\<rparr>\<rparr> in
            case fs_pc s f of
              Wait_single a \<Rightarrow> single_resumed f a s
            | Wait_batch a tot d res \<Rightarrow> batch_loop f a tot (d + res) s
            | _ \<Rightarrow> Inr s)
      else Inr s)"

fun file_run :: "file_action list \<Rightarrow> file_system \<Rightarrow> io_fault + file_system" where
  "file_run [] s = Inr s"
| "file_run (act # acts) s = (case file_step act s of Inl e \<Rightarrow> Inl e | Inr s \<Rightarrow> file_run acts s)"

end
