(* ===== verification/Linux_File_Calls.thy ===== *)
theory Linux_File_Calls
  imports Linux_File "HOL-Library.Multiset"
begin

text \<open>
  The invariant of the calls of \<open>Linux_File\<close>: every block given to the kernel is in one place, in flight or
  reported, every message has one call, and a call that waits counts exactly the blocks that are still in flight or
  in the ring.
\<close>

subsection \<open>What belongs to a message\<close>

definition flight_of :: "nat \<Rightarrow> io_reactor \<Rightarrow> nat list" where
  "flight_of a r = map snd (filter (\<lambda>e. fst e = a) (io_flight r))"

definition reported_of :: "nat \<Rightarrow> io_reactor \<Rightarrow> (nat \<times> int \<times> int) list" where
  "reported_of a r = map snd (filter (\<lambda>e. fst e = a) (io_log r))"

definition ring_of :: "nat \<Rightarrow> io_reactor \<Rightarrow> nat" where
  "ring_of a r = count_list (rr_contents (io_ring r)) a"

definition pending :: "nat \<Rightarrow> io_reactor \<Rightarrow> nat" where
  "pending a r = length (flight_of a r) + ring_of a r"

fun io_fiber :: "io_message \<Rightarrow> nat" where
  "io_fiber (FileSingleIOMessage f ret block sz st) = f"
| "io_fiber (FileMultiIOMessage f ret b remaining) = f"
| "io_fiber (FiberIOMessage f ret c) = f"

text \<open>How many more times \<open>finish\<close> has to be called for the fiber to be resumed, and the result of a block.\<close>

fun io_left :: "io_message \<Rightarrow> int" where
  "io_left (FileSingleIOMessage f ret block sz st) = 1"
| "io_left (FileMultiIOMessage f ret b remaining) = remaining"
| "io_left (FiberIOMessage f ret c) = c"

fun has_result :: "io_message \<Rightarrow> nat \<Rightarrow> int \<times> int \<Rightarrow> bool" where
  "has_result (FileSingleIOMessage f ret block sz st) k x = (event_result x = (sz, st))"
| "has_result (FileMultiIOMessage f ret b remaining) k x = (k < length (fb_blocks b) \<and> results_of b ! k = event_result x)"
| "has_result (FiberIOMessage f ret c) k x = False"

text \<open>What no event changes in a message.\<close>

fun io_shape :: "io_message \<Rightarrow> nat \<times> bool \<times> nat list \<times> nat" where
  "io_shape (FileSingleIOMessage f ret block sz st) = (f, False, [aio_data block], 0)"
| "io_shape (FileMultiIOMessage f ret b remaining) = (f, ret, map aio_data (fb_blocks b), length (fb_pblocks b))"
| "io_shape (FiberIOMessage f ret c) = (f, ret, [], 0)"

definition is_file_message :: "io_message \<Rightarrow> bool" where
  "is_file_message m = (case m of FileSingleIOMessage _ _ _ _ _ \<Rightarrow> True | FileMultiIOMessage _ ret _ _ \<Rightarrow> ret | FiberIOMessage _ _ _ \<Rightarrow> False)"

definition io_single :: "io_message \<Rightarrow> bool" where
  "io_single m = (case m of FileSingleIOMessage _ _ _ _ _ \<Rightarrow> True | _ \<Rightarrow> False)"

text \<open>The call of a fiber at \<open>a\<close>, that has given \<open>n\<close> blocks to the kernel, and waits or not.\<close>

definition call_ok :: "nat \<Rightarrow> nat \<Rightarrow> nat \<Rightarrow> bool \<Rightarrow> io_reactor \<Rightarrow> bool" where
  "call_ok f a n waits r \<longleftrightarrow> (\<exists>m. io_messages r a = Some m \<and> io_fiber m = f \<and> is_file_message m \<and> (io_single m \<longrightarrow> n \<le> 1) \<and>
     mset (flight_of a r) + mset (map fst (reported_of a r)) = mset [0..<n] \<and>
     (\<forall>(k, x) \<in> set (reported_of a r). has_result m k x) \<and>
     (\<forall>k \<in> set (flight_of a r). io_accepts k m) \<and>
     (0 < ring_of a r \<longrightarrow> io_is_return m) \<and>
     (0 < pending a r \<longrightarrow> waits \<and> f \<in> set (io_wait r) \<and> io_left m = int (pending a r) \<and> io_left m < 2 ^ 64) \<and>
     (f \<in> set (io_wait r) \<longrightarrow> 0 < pending a r))"

definition calls_ok :: "(nat \<Rightarrow> (nat \<times> nat \<times> bool) option) \<Rightarrow> io_reactor \<Rightarrow> bool" where
  "calls_ok calls r \<longleftrightarrow>
     (\<forall>f a n w. calls f = Some (a, n, w) \<longrightarrow> call_ok f a n w r) \<and>
     (\<forall>f g a n w n' w'. calls f = Some (a, n, w) \<and> calls g = Some (a, n', w') \<longrightarrow> f = g) \<and>
     (\<forall>a. 0 < pending a r \<longrightarrow> (\<exists>f n w. calls f = Some (a, n, w))) \<and>
     distinct (io_wait r) \<and> distinct (io_ready r) \<and> set (io_wait r) \<inter> set (io_ready r) = {} \<and>
     set (io_wait r) \<union> set (io_ready r) = {f. \<exists>a n. calls f = Some (a, n, True)}"

lemma calls_okD:
  assumes "calls_ok calls r"
  shows "calls f = Some (a, n, w) \<Longrightarrow> call_ok f a n w r"
    and "calls f = Some (a, n, w) \<Longrightarrow> calls g = Some (a, n', w') \<Longrightarrow> f = g"
    and "0 < pending a r \<Longrightarrow> \<exists>f n w. calls f = Some (a, n, w)"
    and "distinct (io_wait r)" "distinct (io_ready r)" "set (io_wait r) \<inter> set (io_ready r) = {}"
    and "set (io_wait r) \<union> set (io_ready r) = {f. \<exists>a n. calls f = Some (a, n, True)}"
  using assms unfolding calls_ok_def by blast+

lemma calls_okI:
  assumes "\<And>f a n w. calls f = Some (a, n, w) \<Longrightarrow> call_ok f a n w r"
    and "\<And>f g a n w n' w'. calls f = Some (a, n, w) \<Longrightarrow> calls g = Some (a, n', w') \<Longrightarrow> f = g"
    and "\<And>a. 0 < pending a r \<Longrightarrow> \<exists>f n w. calls f = Some (a, n, w)"
    and "distinct (io_wait r)" "distinct (io_ready r)" "set (io_wait r) \<inter> set (io_ready r) = {}"
    and "set (io_wait r) \<union> set (io_ready r) = {f. \<exists>a n. calls f = Some (a, n, True)}"
  shows "calls_ok calls r"
  using assms unfolding calls_ok_def by blast

text \<open>A change that leaves a call alone.\<close>

definition same_call :: "nat \<Rightarrow> nat \<Rightarrow> io_reactor \<Rightarrow> io_reactor \<Rightarrow> bool" where
  "same_call f a r t \<longleftrightarrow> io_messages t a = io_messages r a \<and> flight_of a t = flight_of a r \<and>
     reported_of a t = reported_of a r \<and> ring_of a t = ring_of a r \<and> (f \<in> set (io_wait t) \<longleftrightarrow> f \<in> set (io_wait r))"

lemma same_call_ok: "same_call f a r t \<Longrightarrow> call_ok f a n w t = call_ok f a n w r"
  by (simp add: same_call_def call_ok_def pending_def)

subsection \<open>An event of the kernel\<close>

definition take_event :: "nat \<Rightarrow> nat \<Rightarrow> int \<times> int \<Rightarrow> io_message \<Rightarrow> nat ReactorRing \<Rightarrow> io_reactor \<Rightarrow> io_reactor" where
  "take_event a k x m q r = r\<lparr>io_messages := (io_messages r)(a \<mapsto> m), io_flight := remove1 (a, k) (io_flight r),
     io_log := io_log r @ [(a, k, x)], io_ring := q\<rparr>"

lemma flight_of_remove1:
  "flight_of b (take_event a k x m q r) = (if b = a then remove1 k (flight_of a r) else flight_of b r)"
proof -
  have "map snd (filter (\<lambda>e. fst e = b) (remove1 (a, k) es)) =
    (if b = a then remove1 k (map snd (filter (\<lambda>e. fst e = a) es)) else map snd (filter (\<lambda>e. fst e = b) es))"
    for es :: "(nat \<times> nat) list" by (induction es) auto
  then show ?thesis by (simp add: flight_of_def take_event_def)
qed

lemma take_event_simps:
  assumes "rr_contents q = rr_contents (io_ring r) @ [a]"
  shows "reported_of b (take_event a k x m q r) = (if b = a then reported_of a r @ [(k, x)] else reported_of b r)"
    and "ring_of b (take_event a k x m q r) = (if b = a then Suc (ring_of a r) else ring_of b r)"
    and "io_wait (take_event a k x m q r) = io_wait r" "io_ready (take_event a k x m q r) = io_ready r"
    and "io_messages (take_event a k x m q r) b = (if b = a then Some m else io_messages r b)"
  using assms by (auto simp: reported_of_def take_event_def ring_of_def)

lemma pending_event:
  assumes "rr_contents q = rr_contents (io_ring r) @ [a]" "k \<in> set (flight_of a r)"
  shows "pending b (take_event a k x m q r) = pending b r"
proof -
  have "0 < length (flight_of a r)" using assms(2) by auto
  with assms show ?thesis
    by (simp add: pending_def flight_of_remove1 take_event_simps length_remove1 del: length_greater_0_conv)
qed

lemma report_props:
  assumes "io_report k (fst x) (snd x) (io_process m) = Some m'" "is_file_message m"
  shows "io_fiber m' = io_fiber m" "is_file_message m'" "io_is_return m'" "io_left m' = io_left m"
    "io_shape m' = io_shape m" "has_result m' k x" "io_accepts j m' = io_accepts j m" "io_single m' = io_single m"
  using assms by (cases m; auto simp: is_file_message_def io_accepts_def io_single_def event_result_def batch_reportD dest: batch_reportD)+

lemma report_other:
  assumes "io_report k (fst x) (snd x) (io_process m) = Some m'" "has_result m j y" "j \<noteq> k" "\<not> io_single m"
  shows "has_result m' j y"
  using assms by (cases m) (auto simp: io_single_def batch_reportD)

text \<open>The event moves a block of the call from in flight to reported.\<close>

lemma call_ok_event:
  assumes ok: "call_ok f a n w r" and k: "(a, k) \<in> set (io_flight r)" and m: "io_messages r a = Some m"
    and m': "io_report k (fst x) (snd x) (io_process m) = Some m'"
    and q: "rr_contents q = rr_contents (io_ring r) @ [a]"
  shows "call_ok f a n w (take_event a k x m' q r)"
proof -
  let ?t = "take_event a k x m' q r"
  have k': "k \<in> set (flight_of a r)" using k by (force simp: flight_of_def)
  note simps = take_event_simps [OF q] flight_of_remove1 pending_event [OF q k']
  from ok m have f: "io_fiber m = f" "is_file_message m" "io_single m \<longrightarrow> n \<le> 1"
    and part: "mset (flight_of a r) + mset (map fst (reported_of a r)) = mset [0..<n]"
    and res: "\<And>j y. (j, y) \<in> set (reported_of a r) \<Longrightarrow> has_result m j y"
    and acc: "\<And>j. j \<in> set (flight_of a r) \<Longrightarrow> io_accepts j m"
    and rest: "0 < pending a r \<longrightarrow> w \<and> f \<in> set (io_wait r) \<and> io_left m = int (pending a r) \<and> io_left m < 2 ^ 64"
      "f \<in> set (io_wait r) \<longrightarrow> 0 < pending a r" by (auto simp: call_ok_def)
  note props = report_props [OF m' f(2)]
  have part': "mset (remove1 k (flight_of a r)) + mset (map fst (reported_of a r @ [(k, x)])) = mset [0..<n]"
    using part k' by (simp add: multiset_eq_iff)
  have "distinct (flight_of a r @ map fst (reported_of a r))"
    by (rule mset_eq_imp_distinct_iff [THEN iffD2, of _ "[0..<n]"]) (use part in simp_all)
  then have k_new: "k \<notin> fst ` set (reported_of a r)" using k' by auto
  have "reported_of a r = []" if "io_single m"
  proof -
    have "length (flight_of a r) + length (reported_of a r) = n" using arg_cong [OF part, of size] by simp
    with that f(3) k' show ?thesis by (cases "flight_of a r"; cases "reported_of a r") auto
  qed
  then have "has_result m' j y" if "(j, y) \<in> set (reported_of a r @ [(k, x)])" for j y
    using that res [of j y] props(6) report_other [OF m', of j y] k_new by (cases "io_single m") (auto simp: image_iff)
  moreover have "io_accepts j m'" if "j \<in> set (remove1 k (flight_of a r))" for j
    using that acc props(7) by (meson in_mono set_remove1_subset)
  ultimately show ?thesis
    using f props part' rest by (auto simp: call_ok_def simps)
qed

lemma call_ok_event_other:
  assumes "b \<noteq> a" "rr_contents q = rr_contents (io_ring r) @ [a]"
  shows "call_ok f b n w (take_event a k x m q r) = call_ok f b n w r"
  by (rule same_call_ok) (use assms in \<open>simp add: same_call_def take_event_simps flight_of_remove1\<close>)

lemma calls_ok_event:
  assumes ok: "calls_ok calls r" and k: "(a, k) \<in> set (io_flight r)" and m: "io_messages r a = Some m"
    and m': "io_report k (fst x) (snd x) (io_process m) = Some m'"
    and q: "rr_contents q = rr_contents (io_ring r) @ [a]"
  shows "calls_ok calls (take_event a k x m' q r)"
proof -
  have k': "k \<in> set (flight_of a r)" using k by (force simp: flight_of_def)
  have "call_ok f b n w (take_event a k x m' q r)" if "calls f = Some (b, n, w)" for f b n w
    using calls_okD(1) [OF ok that] call_ok_event [OF _ k m m' q] call_ok_event_other [OF _ q] by (cases "b = a") auto
  with ok show ?thesis unfolding calls_ok_def take_event_simps(3,4) [OF q] pending_event [OF q k'] by blast
qed

text \<open>A block in flight belongs to a call that waits, and its message takes the report.\<close>

lemma flight_accepted:
  assumes "calls_ok calls r" "(a, k) \<in> set (io_flight r)"
  obtains m m' where "io_messages r a = Some m" "io_report k (fst x) (snd x) (io_process m) = Some m'"
    "io_shape m' = io_shape m"
proof -
  have k: "k \<in> set (flight_of a r)" using assms(2) by (force simp: flight_of_def)
  then have "0 < pending a r" by (auto simp: pending_def)
  from calls_okD(3) [OF assms(1) this] obtain f n w where "calls f = Some (a, n, w)" by blast
  from calls_okD(1) [OF assms(1) this] k obtain m where m: "io_messages r a = Some m" "is_file_message m" "io_accepts k m"
    unfolding call_ok_def by blast
  obtain m' where m': "io_report k (fst x) (snd x) (io_process m) = Some m'" "\<And>j. io_accepts j m' = io_accepts j m"
    by (rule io_report_accepted [OF m(3), where x = "fst x" and y = "snd x"]) blast
  from m(1) m'(1) report_props(5) [OF m'(1) m(2)] show thesis by (rule that)
qed

definition same_frames :: "io_reactor \<Rightarrow> io_reactor \<Rightarrow> bool" where
  "same_frames r t \<longleftrightarrow> (\<forall>a. map_option io_shape (io_messages t a) = map_option io_shape (io_messages r a))"

text \<open>The loop of the poller over the events: those of blocks in flight, each once.\<close>

lemma file_events_calls:
  assumes "calls_ok calls r" "ring_fits r (length evs + n)" "distinct (map event_key evs)"
    and "set (map event_key evs) \<subseteq> set (io_flight r)" "distinct (io_flight r)"
  shows "\<exists>t. file_events evs r = Inr t \<and> calls_ok calls t \<and> ring_fits t n \<and> same_frames r t \<and>
    io_log t = io_log r @ evs \<and> io_flight t = filter (\<lambda>e. e \<notin> set (map event_key evs)) (io_flight r) \<and>
    length (rr_contents (io_ring t)) = length (rr_contents (io_ring r)) + length evs \<and>
    rr_life (io_ring r) \<le> rr_life (io_ring t) + length evs \<and>
    length (rr_buffer (io_ring t)) = length (rr_buffer (io_ring r))"
  using assms
proof (induction evs arbitrary: r)
  case (Cons ev evs)
  obtain a k x where ev: "ev = (a, k, x)" by (cases ev) auto
  with Cons.prems(4) have k: "(a, k) \<in> set (io_flight r)" by simp
  obtain m m' where m: "io_messages r a = Some m" and m': "io_report k (fst x) (snd x) (io_process m) = Some m'"
    and sh: "io_shape m' = io_shape m" by (rule flight_accepted [OF Cons.prems(1) k, of x])
  let ?s = "r\<lparr>io_messages := (io_messages r)(a \<mapsto> m'), io_flight := remove1 (a, k) (io_flight r),
     io_log := io_log r @ [(a, k, x)]\<rparr>"
  have "ring_fits ?s (Suc (length evs + n))" using Cons.prems(2) by (simp add: ring_fits_def)
  then obtain q where q: "io_push a ?s = Inr (?s\<lparr>io_ring := q\<rparr>)" "ring_fits (?s\<lparr>io_ring := q\<rparr>) (length evs + n)"
    "rr_contents q = rr_contents (io_ring r) @ [a]" "length (rr_buffer q) = length (rr_buffer (io_ring r))"
    "rr_life (io_ring r) \<le> Suc (rr_life q)"
    by (rule io_push_fits) auto
  let ?t = "take_event a k x m' q r"
  have t: "?s\<lparr>io_ring := q\<rparr> = ?t" by (simp add: take_event_def)
  have step: "file_events (ev # evs) r = file_events evs ?t"
    using m m' q(1) t by (cases x) (simp add: ev)
  have fl: "io_flight ?t = filter (\<lambda>e. e \<noteq> (a, k)) (io_flight r)" "io_log ?t = io_log r @ [(a, k, x)]" "io_ring ?t = q"
    using Cons.prems(5) by (simp_all add: take_event_def distinct_remove1_removeAll removeAll_filter_not_eq eq_commute)
  have "same_frames r ?t" using m sh by (simp add: same_frames_def take_event_def)
  moreover have "set (map event_key evs) \<subseteq> set (io_flight ?t)"
    using Cons.prems(3,4) by (auto simp: ev fl(1))
  moreover have "distinct (io_flight ?t)" "distinct (map event_key evs)"
    using Cons.prems(3,5) by (simp_all add: fl(1))
  ultimately obtain t where t': "file_events evs ?t = Inr t" "calls_ok calls t" "ring_fits t n" "same_frames ?t t"
    "io_log t = io_log ?t @ evs" "io_flight t = filter (\<lambda>e. e \<notin> set (map event_key evs)) (io_flight ?t)"
    "length (rr_contents (io_ring t)) = length (rr_contents (io_ring ?t)) + length evs"
    "rr_life (io_ring ?t) \<le> rr_life (io_ring t) + length evs"
    "length (rr_buffer (io_ring t)) = length (rr_buffer (io_ring ?t))"
    using Cons.IH [OF calls_ok_event [OF Cons.prems(1) k m m' q(3)]] q(2) by (auto simp: t)
  have "filter (\<lambda>e. e \<notin> set (map event_key evs)) (io_flight ?t) =
    filter (\<lambda>e. e \<notin> set (map event_key (ev # evs))) (io_flight r)"
    by (auto simp: fl(1) ev intro!: filter_cong)
  with t' \<open>same_frames r ?t\<close> q step fl show ?case by (auto simp: same_frames_def ev)
qed (simp add: same_frames_def)

subsection \<open>A message out of the ring\<close>

lemma finish_props:
  assumes "is_file_message m" "0 < io_left m" "io_left m < 2 ^ 64"
  obtains m' where "io_finish m = (m', if io_left m = 1 then Some (io_fiber m) else None)"
    "io_fiber m' = io_fiber m" "is_file_message m'" "io_is_return m' = io_is_return m" "io_shape m' = io_shape m"
    "\<And>k x. has_result m' k x = has_result m k x" "\<And>k. io_accepts k m' = io_accepts k m" "io_single m' = io_single m"
    "io_left m \<noteq> 1 \<Longrightarrow> io_left m' = io_left m - 1"
  using assms by (cases m) (auto simp: is_file_message_def io_accepts_def io_single_def)

definition finished :: "nat \<Rightarrow> io_message \<Rightarrow> nat ReactorRing \<Rightarrow> io_reactor \<Rightarrow> io_reactor" where
  "finished a m q r = r\<lparr>io_ring := q, io_messages := (io_messages r)(a \<mapsto> m)\<rparr>"

lemma finished_simps:
  assumes "rr_contents (io_ring r) = a # rr_contents q"
  shows "flight_of b (finished a m q r) = flight_of b r" "reported_of b (finished a m q r) = reported_of b r"
    and "ring_of b (finished a m q r) = (if b = a then ring_of a r - 1 else ring_of b r)" "0 < ring_of a r"
    and "io_wait (finished a m q r) = io_wait r" "io_ready (finished a m q r) = io_ready r"
    and "io_messages (finished a m q r) b = (if b = a then Some m else io_messages r b)"
  using assms by (auto simp: flight_of_def reported_of_def ring_of_def finished_def)

lemma pending_finished:
  assumes "rr_contents (io_ring r) = a # rr_contents q"
  shows "pending b (finished a m q r) = (if b = a then pending a r - 1 else pending b r)"
  using finished_simps [OF assms] by (simp add: pending_def)

lemma process_fn_calls:
  assumes ok: "calls_ok calls r" and q: "rr_contents (io_ring r) = a # rr_contents q"
  shows "\<exists>t. io_process_fn a (r\<lparr>io_ring := q\<rparr>) = Inr t \<and> calls_ok calls t \<and> io_ring t = q \<and> same_frames r t \<and>
    io_log t = io_log r \<and> io_flight t = io_flight r"
proof -
  note fs = finished_simps [OF q] pending_finished [OF q]
  have pend: "0 < pending a r" using fs(4) by (simp add: pending_def)
  from calls_okD(3) [OF ok this] obtain f n w where c: "calls f = Some (a, n, w)" by blast
  from calls_okD(1) [OF ok c] pend fs(4) obtain m where m: "io_messages r a = Some m" "is_file_message m" "io_is_return m"
    and f: "io_fiber m = f" "f \<in> set (io_wait r)" "io_left m = int (pending a r)" "io_left m < 2 ^ 64" "w"
    unfolding call_ok_def by blast
  have "0 < io_left m" using f(3) pend by simp
  then obtain m' where m': "io_finish m = (m', if io_left m = 1 then Some (io_fiber m) else None)"
    "io_fiber m' = io_fiber m" "is_file_message m'" "io_is_return m' = io_is_return m" "io_shape m' = io_shape m"
    "\<And>k x. has_result m' k x = has_result m k x" "\<And>k. io_accepts k m' = io_accepts k m" "io_single m' = io_single m"
    "io_left m \<noteq> 1 \<Longrightarrow> io_left m' = io_left m - 1"
    using finish_props [OF m(2) _ f(4)] by metis
  let ?t = "finished a m' q r"
  have frames: "same_frames r ?t" "io_log ?t = io_log r" "io_flight ?t = io_flight r" "io_ring ?t = q"
    using m(1) m'(5) by (simp_all add: same_frames_def finished_def)
  have others: "call_ok g b n w t = call_ok g b n w r"
    if "b \<noteq> a" "io_messages t = io_messages ?t" "io_flight t = io_flight ?t" "io_log t = io_log ?t" "io_ring t = io_ring ?t"
      "g \<in> set (io_wait t) \<longleftrightarrow> g \<in> set (io_wait r)" for g b n w t
  proof (rule same_call_ok)
    have "flight_of b t = flight_of b ?t" "reported_of b t = reported_of b ?t" "ring_of b t = ring_of b ?t"
      using that by (simp_all add: flight_of_def reported_of_def ring_of_def)
    with that show "same_call g b r t" by (simp add: same_call_def fs)
  qed
  show ?thesis
  proof (cases "io_left m = 1")
    case False
    have own: "call_ok f a n w ?t"
      using calls_okD(1) [OF ok c] m(1) m' f pend False by (auto simp: call_ok_def fs)
    have "call_ok g b k v ?t" if "calls g = Some (b, k, v)" for g b k v
    proof (cases "b = a")
      case True
      with that have "g = f" using calls_okD(2) [OF ok c] by simp
      with that c True own show ?thesis by simp
    next
      case False
      then have "call_ok g b k v ?t = call_ok g b k v r" by (intro others False) (simp_all add: fs)
      with calls_okD(1) [OF ok that] show ?thesis by simp
    qed
    moreover have "pending b ?t \<le> pending b r" for b by (simp add: fs)
    ultimately have "calls_ok calls ?t" using ok unfolding calls_ok_def fs(5,6) by (meson less_le_trans)
    moreover have "io_process_fn a (r\<lparr>io_ring := q\<rparr>) = Inr ?t"
      using m m'(1) False by (simp add: io_process_fn_def finished_def)
    ultimately show ?thesis using frames by blast
  next
    case True
    let ?u = "?t\<lparr>io_wait := remove1 f (io_wait r), io_ready := io_ready r @ [f]\<rparr>"
    have one: "pending a r = 1" using True f(3) by simp
    have eqs: "flight_of b ?u = flight_of b ?t" "reported_of b ?u = reported_of b ?t" "ring_of b ?u = ring_of b ?t"
      "pending b ?u = pending b ?t" for b by (simp_all add: flight_of_def reported_of_def ring_of_def pending_def)
    have w: "set (remove1 f (io_wait r)) = set (io_wait r) - {f}" using calls_okD(4) [OF ok] by simp
    have own: "call_ok f a n w ?u"
      using calls_okD(1) [OF ok c] m(1) m' one by (auto simp: call_ok_def fs eqs w)
    have calls: "call_ok g b k v ?u" if g: "calls g = Some (b, k, v)" for g b k v
    proof (cases "b = a")
      case True
      with g have "g = f" using calls_okD(2) [OF ok c] by simp
      with g c True own show ?thesis by simp
    next
      case False
      with g c have "g \<noteq> f" by auto
      then have "call_ok g b k v ?u = call_ok g b k v r" by (intro others False) (simp_all add: w)
      with calls_okD(1) [OF ok g] show ?thesis by simp
    qed
    have "pending b ?u \<le> pending b r" for b by (simp add: fs eqs)
    then have "\<exists>f n w. calls f = Some (b, n, w)" if "0 < pending b ?u" for b
      using calls_okD(3) [OF ok, of b] that by (meson less_le_trans)
    moreover have "distinct (io_wait ?u)" "distinct (io_ready ?u)" "set (io_wait ?u) \<inter> set (io_ready ?u) = {}"
      "set (io_wait ?u) \<union> set (io_ready ?u) = {f. \<exists>a n. calls f = Some (a, n, True)}"
      using calls_okD(4-7) [OF ok] f(2) by (auto simp: w)
    ultimately have "calls_ok calls ?u" using calls calls_okD(2) [OF ok] unfolding calls_ok_def by blast
    moreover have "io_process_fn a (r\<lparr>io_ring := q\<rparr>) = Inr ?u"
      using m m'(1) True f by (simp add: io_process_fn_def finished_def io_resume_def)
    ultimately show ?thesis using frames by (intro exI [of _ ?u]) (auto simp: same_frames_def)
  qed
qed

lemma drain_turns_calls:
  assumes "calls_ok calls r" "rr_inv (io_ring r)" "length (rr_contents (io_ring r)) \<le> n"
  shows "\<exists>t. drain_turns n r = Inr t \<and> calls_ok calls t \<and> rr_inv (io_ring t) \<and> rr_contents (io_ring t) = [] \<and>
    same_frames r t \<and> io_log t = io_log r \<and> io_flight t = io_flight r \<and>
    length (rr_buffer (io_ring t)) = length (rr_buffer (io_ring r)) \<and> rr_life (io_ring r) \<le> rr_life (io_ring t)"
  using assms
proof (induction n arbitrary: r)
  case (Suc n)
  have av: "rr_available (io_ring r) = int (length (rr_contents (io_ring r)))"
    using Suc.prems(2) by (simp add: rr_available_eq rr_length_contents rr_inv_def)
  show ?case
  proof (cases "rr_contents (io_ring r)")
    case Nil
    with Suc.prems av show ?thesis by (intro exI [of _ r]) (simp add: same_frames_def)
  next
    case (Cons a cs)
    then have "rr_pop_back (io_ring r) \<noteq> None" using rr.pop_None [OF Suc.prems(2)] by simp
    then obtain a' q where p: "rr_pop_back (io_ring r) = Some (a', q)" by auto
    from rr.pop_Some [OF Suc.prems(2) p] Cons have q: "a' = a" "rr_inv q" "rr_contents (io_ring r) = a # rr_contents q"
      "length (rr_buffer q) = length (rr_buffer (io_ring r))" "rr_life (io_ring r) \<le> rr_life q" by auto
    from process_fn_calls [OF Suc.prems(1) q(3)] obtain t where t: "io_process_fn a (r\<lparr>io_ring := q\<rparr>) = Inr t"
      "calls_ok calls t" "io_ring t = q" "same_frames r t" "io_log t = io_log r" "io_flight t = io_flight r" by blast
    have "length (rr_contents (io_ring t)) \<le> n" using Suc.prems(3) q(3) t(3) by simp
    with Suc.IH [OF t(2)] q(2) t(3) obtain u where u: "drain_turns n t = Inr u" "calls_ok calls u"
      "rr_inv (io_ring u)" "rr_contents (io_ring u) = []" "same_frames t u" "io_log u = io_log t"
      "io_flight u = io_flight t" "length (rr_buffer (io_ring u)) = length (rr_buffer (io_ring t))"
      "rr_life (io_ring t) \<le> rr_life (io_ring u)" by blast
    with t q p av Cons show ?thesis by (intro exI [of _ u]) (auto simp: same_frames_def)
  qed
qed (simp add: same_frames_def)

subsection \<open>The steps on the calls\<close>

lemma not_queued:
  assumes "calls_ok calls r" "\<And>a n. calls f \<noteq> Some (a, n, True)"
  shows "f \<notin> set (io_wait r)" "f \<notin> set (io_ready r)"
proof -
  have "f \<notin> set (io_wait r) \<union> set (io_ready r)" unfolding calls_okD(7) [OF assms(1)] using assms(2) by simp
  then show "f \<notin> set (io_wait r)" "f \<notin> set (io_ready r)" by auto
qed

lemma calls_differ:
  assumes "calls_ok calls r" "calls f = Some (a, n, w)" "calls g = Some (b, k, v)" "g \<noteq> f"
  shows "b \<noteq> a"
proof
  assume "b = a"
  with assms(3) have "calls g = Some (a, k, v)" by simp
  from calls_okD(2) [OF assms(1,2) this] assms(4) show False by simp
qed

lemma pending_alive: "calls_ok calls r \<Longrightarrow> io_messages r a = None \<Longrightarrow> pending a r = 0"
  using calls_okD(1,3) [of calls r] unfolding call_ok_def by (metis gr0I option.distinct(1))

lemma calls_ok_enter:
  assumes ok: "calls_ok calls r" and f: "calls f = None" and a: "io_messages r a = None" "reported_of a r = []"
    and m: "io_fiber m = f" "is_file_message m"
    and t: "t = r\<lparr>io_messages := (io_messages r)(a \<mapsto> m)\<rparr>"
  shows "calls_ok (calls(f \<mapsto> (a, 0, False))) t"
proof -
  have p: "pending a r = 0" using pending_alive [OF ok a(1)] .
  have eqs: "flight_of b t = flight_of b r" "reported_of b t = reported_of b r" "ring_of b t = ring_of b r"
    "pending b t = pending b r" "io_wait t = io_wait r" "io_ready t = io_ready r" for b
    by (simp_all add: t flight_of_def reported_of_def ring_of_def pending_def)
  have new: "calls g \<noteq> Some (a, n, w)" for g n w
    using calls_okD(1) [OF ok, of g a n w] a(1) by (auto simp: call_ok_def)
  have "io_messages t a = Some m" by (simp add: t)
  then have "call_ok f a 0 False t"
    using not_queued [OF ok, of f] f p a(2) m by (auto simp: call_ok_def eqs pending_def)
  moreover have "call_ok g b n w t" if "calls g = Some (b, n, w)" for g b n w
  proof -
    have "same_call g b r t" using new that by (auto simp: same_call_def eqs) (auto simp: t)
    with calls_okD(1) [OF ok that] show ?thesis by (simp add: same_call_ok)
  qed
  ultimately have calls: "call_ok g b n w t" if "(calls(f \<mapsto> (a, 0, False))) g = Some (b, n, w)" for g b n w
    using that by (auto split: if_splits)
  have uniq: "g = h" if "(calls(f \<mapsto> (a, 0, False))) g = Some (b, n, w)" "(calls(f \<mapsto> (a, 0, False))) h = Some (b, n', w')"
    for g h b n w n' w' using that new calls_okD(2) [OF ok] by (auto split: if_splits)
  have owned: "\<exists>g n w. (calls(f \<mapsto> (a, 0, False))) g = Some (b, n, w)" if "0 < pending b t" for b
  proof -
    from that calls_okD(3) [OF ok, of b] obtain g n w where "calls g = Some (b, n, w)" by (auto simp: eqs)
    moreover from this f have "g \<noteq> f" by auto
    ultimately have "(calls(f \<mapsto> (a, 0, False))) g = Some (b, n, w)" by simp
    then show ?thesis by blast
  qed
  have "{g. \<exists>b n. (calls(f \<mapsto> (a, 0, False))) g = Some (b, n, True)} = {g. \<exists>b n. calls g = Some (b, n, True)}"
    using f by auto
  with calls_okD(7) [OF ok] have "set (io_wait t) \<union> set (io_ready t) = {g. \<exists>b n. (calls(f \<mapsto> (a, 0, False))) g = Some (b, n, True)}"
    by (simp add: eqs)
  then show ?thesis using calls_okD(4-6) [OF ok] by (intro calls_okI [OF calls uniq owned]) (simp_all add: eqs)
qed

text \<open>A step that changes the state of one call, its message and its place in the queues.\<close>

lemma calls_ok_change:
  assumes ok: "calls_ok calls r" and f: "calls f = Some (a, n, w)" and own: "call_ok f a n' w' t"
    and other: "\<And>g b. g \<noteq> f \<Longrightarrow> b \<noteq> a \<Longrightarrow> same_call g b r t" "\<And>b. b \<noteq> a \<Longrightarrow> pending b t = pending b r"
    and queues: "distinct (io_wait t)" "distinct (io_ready t)" "set (io_wait t) \<inter> set (io_ready t) = {}"
      "set (io_wait t) \<union> set (io_ready t) = {g. g \<noteq> f \<and> (\<exists>b k. calls g = Some (b, k, True))} \<union> (if w' then {f} else {})"
  shows "calls_ok (calls(f \<mapsto> (a, n', w'))) t"
proof -
  have neq: "b \<noteq> a" if "calls g = Some (b, k, v)" "g \<noteq> f" for g b k v
    using calls_differ [OF ok f that] .
  have calls: "call_ok g b k v t" if "(calls(f \<mapsto> (a, n', w'))) g = Some (b, k, v)" for g b k v
  proof (cases "g = f")
    case False
    with that have g: "calls g = Some (b, k, v)" by simp
    from same_call_ok [OF other(1) [OF False neq [OF g False]]] calls_okD(1) [OF ok g] show ?thesis by simp
  qed (use own that in auto)
  have owned: "\<exists>g k v. (calls(f \<mapsto> (a, n', w'))) g = Some (b, k, v)" if "0 < pending b t" for b
  proof (cases "b = a")
    case False
    with calls_okD(3) [OF ok, of b] other(2) that obtain g k v where "calls g = Some (b, k, v)" by auto
    moreover from this False f have "g \<noteq> f" by auto
    ultimately have "(calls(f \<mapsto> (a, n', w'))) g = Some (b, k, v)" by simp
    then show ?thesis by blast
  qed auto
  have uniq: "g = h" if "(calls(f \<mapsto> (a, n', w'))) g = Some (b, k, v)" "(calls(f \<mapsto> (a, n', w'))) h = Some (b, k', v')"
    for g h b k v k' v' using that calls_okD(2) [OF ok, of g b k v h] neq [of g b k v] neq [of h b k' v']
    by (auto split: if_splits)
  have "set (io_wait t) \<union> set (io_ready t) = {g. \<exists>b k. (calls(f \<mapsto> (a, n', w'))) g = Some (b, k, True)}"
    unfolding queues(4) by auto
  then show ?thesis by (intro calls_okI [OF calls uniq owned] queues(1-3))
qed

lemma calls_ok_leave:
  assumes ok: "calls_ok calls r" and f: "calls f = Some (a, n, False)"
    and t: "t = r\<lparr>io_messages := (io_messages r)(a := None)\<rparr>"
  shows "calls_ok (calls(f := None)) t"
proof -
  have p: "pending a r = 0" using calls_okD(1) [OF ok f] by (auto simp: call_ok_def)
  have eqs: "flight_of b t = flight_of b r" "reported_of b t = reported_of b r" "ring_of b t = ring_of b r"
    "pending b t = pending b r" "io_wait t = io_wait r" "io_ready t = io_ready r" for b
    by (simp_all add: t flight_of_def reported_of_def ring_of_def pending_def)
  have neq: "b \<noteq> a" if "calls g = Some (b, k, v)" "g \<noteq> f" for g b k v
    using calls_differ [OF ok f that] .
  have calls: "call_ok g b k v t" if "(calls(f := None)) g = Some (b, k, v)" for g b k v
  proof -
    from that have g: "calls g = Some (b, k, v)" "g \<noteq> f" by (auto split: if_splits)
    then have "same_call g b r t" using neq by (auto simp: same_call_def eqs) (auto simp: t)
    with calls_okD(1) [OF ok g(1)] show ?thesis by (simp add: same_call_ok)
  qed
  have owned: "\<exists>g k v. (calls(f := None)) g = Some (b, k, v)" if "0 < pending b t" for b
  proof -
    from calls_okD(3) [OF ok, of b] that obtain g k v where "calls g = Some (b, k, v)" by (auto simp: eqs)
    moreover from this that f p have "g \<noteq> f" by (auto simp: eqs)
    ultimately have "(calls(f := None)) g = Some (b, k, v)" by simp
    then show ?thesis by blast
  qed
  have uniq: "g = h" if "(calls(f := None)) g = Some (b, k, v)" "(calls(f := None)) h = Some (b, k', v')"
    for g h b k v k' v' using that calls_okD(2) [OF ok] by (auto split: if_splits)
  have "{g. \<exists>b k. (calls(f := None)) g = Some (b, k, True)} = {g. \<exists>b k. calls g = Some (b, k, True)}"
    using f by auto
  with calls_okD(7) [OF ok] have "set (io_wait t) \<union> set (io_ready t) = {g. \<exists>b k. (calls(f := None)) g = Some (b, k, True)}"
    by (simp add: eqs)
  then show ?thesis using calls_okD(4-6) [OF ok] by (intro calls_okI [OF calls uniq owned]) (simp_all add: eqs)
qed

lemma calls_ok_resumed:
  assumes ok: "calls_ok calls r" and f: "calls f = Some (a, n, True)" "f \<in> set (io_ready r)"
    and t: "t = r\<lparr>io_ready := remove1 f (io_ready r)\<rparr>"
  shows "calls_ok (calls(f \<mapsto> (a, n, False))) t"
proof (rule calls_ok_change [OF ok f(1)])
  have eqs: "flight_of b t = flight_of b r" "reported_of b t = reported_of b r" "ring_of b t = ring_of b r"
    "pending b t = pending b r" "io_wait t = io_wait r" "io_messages t = io_messages r" for b
    by (simp_all add: t flight_of_def reported_of_def ring_of_def pending_def)
  have nw: "f \<notin> set (io_wait r)" using calls_okD(6) [OF ok] f(2) by auto
  with calls_okD(1) [OF ok f(1)] show "call_ok f a n False t" by (auto simp: call_ok_def eqs)
  show "same_call g b r t" for g b by (simp add: same_call_def eqs)
  show "pending b t = pending b r" for b by (simp add: eqs)
  show "distinct (io_wait t)" "distinct (io_ready t)" using calls_okD(4,5) [OF ok] by (simp_all add: t)
  have rm: "set (io_ready t) = set (io_ready r) - {f}" using calls_okD(5) [OF ok] by (simp add: t)
  show "set (io_wait t) \<inter> set (io_ready t) = {}" using calls_okD(6) [OF ok] by (auto simp: eqs rm)
  show "set (io_wait t) \<union> set (io_ready t) = {g. g \<noteq> f \<and> (\<exists>b k. calls g = Some (b, k, True))} \<union> (if False then {f} else {})"
    using calls_okD(7) [OF ok] nw by (auto simp: eqs rm)
qed

text \<open>The next \<open>j\<close> blocks go to the kernel, and the fiber waits.\<close>

lemma calls_ok_submit:
  assumes ok: "calls_ok calls r" and f: "calls f = Some (a, n, False)" and m: "io_messages r a = Some m"
    and m': "io_fiber m' = f" "is_file_message m'" "io_single m' \<longrightarrow> n + j \<le> 1"
      "\<And>k x. has_result m' k x = has_result m k x" "\<And>k. n \<le> k \<Longrightarrow> k < n + j \<Longrightarrow> io_accepts k m'"
      "io_left m' = int j" "0 < j" "int j < 2 ^ 64"
    and t: "t = r\<lparr>io_messages := (io_messages r)(a \<mapsto> m'), io_flight := io_flight r @ map (Pair a) [n..<n + j],
      io_wait := io_wait r @ [f]\<rparr>"
  shows "calls_ok (calls(f \<mapsto> (a, n + j, True))) t" "distinct (io_flight r) \<Longrightarrow> distinct (io_flight t)"
proof -
  have p: "pending a r = 0" using calls_okD(1) [OF ok f] by (auto simp: call_ok_def)
  have fl: "flight_of b t = flight_of b r @ (if b = a then [n..<n + j] else [])" for b
    by (auto simp: t flight_of_def comp_def)
  have eqs: "reported_of b t = reported_of b r" "ring_of b t = ring_of b r" for b
    by (simp_all add: t reported_of_def ring_of_def)
  have pend: "pending b t = pending b r + (if b = a then j else 0)" for b by (simp add: pending_def fl eqs)
  have nw: "f \<notin> set (io_wait r)" "f \<notin> set (io_ready r)" using not_queued [OF ok, of f] f by auto
  have p0: "flight_of a r = []" "ring_of a r = 0" using p by (simp_all add: pending_def)
  have part: "mset (map fst (reported_of a r)) = mset [0..<n]" and res: "\<forall>(k, x) \<in> set (reported_of a r). has_result m k x"
    using calls_okD(1) [OF ok f] m p0 by (auto simp: call_ok_def)
  have "mset [n..<n + j] + mset [0..<n] = mset [0..<n + j]"
    by (simp add: upt_add_eq_append [of 0 n j] del: upt_Suc)
  with part res m' p p0 have own: "call_ok f a (n + j) True t"
    by (auto simp: call_ok_def fl eqs pend) (auto simp: t)
  show "calls_ok (calls(f \<mapsto> (a, n + j, True))) t"
  proof (rule calls_ok_change [OF ok f own])
    show "same_call g b r t" if "g \<noteq> f" "b \<noteq> a" for g b using that by (simp add: same_call_def fl eqs) (simp add: t)
    show "pending b t = pending b r" if "b \<noteq> a" for b using that by (simp add: pend)
    show "distinct (io_wait t)" "distinct (io_ready t)" "set (io_wait t) \<inter> set (io_ready t) = {}"
      using calls_okD(4-6) [OF ok] nw by (auto simp: t)
    show "set (io_wait t) \<union> set (io_ready t) = {g. g \<noteq> f \<and> (\<exists>b k. calls g = Some (b, k, True))} \<union> (if True then {f} else {})"
      using calls_okD(7) [OF ok] nw by (auto simp: t)
  qed
  have "(a, k) \<notin> set (io_flight r)" for k using p0(1) by (force simp: flight_of_def filter_empty_conv)
  then show "distinct (io_flight r) \<Longrightarrow> distinct (io_flight t)" by (auto simp: t distinct_map inj_on_def)
qed

end
