(* ===== verification/Linux_File_Properties.thy ===== *)
theory Linux_File_Properties
  imports Linux_File_Calls
begin

text \<open>
  What the fibers that use files can rely on: the invariant of \<open>Linux_File_Calls\<close> is kept by each step, so no
  step fails, and what a call returns is what the kernel has reported for its blocks.
\<close>

subsection \<open>The invariant of the system\<close>

fun pc_call :: "file_pc \<Rightarrow> (nat \<times> nat \<times> bool) option" where
  "pc_call F_idle = None"
| "pc_call (Submit_single a) = Some (a, 0, False)"
| "pc_call (Wait_single a) = Some (a, 1, True)"
| "pc_call (Submit_batch a tot d) = Some (a, d, False)"
| "pc_call (Wait_batch a tot d res) = Some (a, d + res, True)"

fun pc_shape :: "file_pc \<Rightarrow> nat \<times> bool \<times> nat list \<times> nat \<Rightarrow> bool" where
  "pc_shape F_idle (f, ret, ds, n) = True"
| "pc_shape (Submit_single a) (f, ret, ds, n) = (\<not> ret \<and> ds = [a])"
| "pc_shape (Wait_single a) (f, ret, ds, n) = (\<not> ret \<and> ds = [a])"
| "pc_shape (Submit_batch a tot d) (f, ret, ds, n) = (ret \<and> ds = replicate tot a \<and> n = tot \<and> d < tot)"
| "pc_shape (Wait_batch a tot d res) (f, ret, ds, n) = (ret \<and> ds = replicate tot a \<and> n = tot \<and> d + res \<le> tot)"

text \<open>What a call that has returned or thrown has left.\<close>

definition single_result_ok :: "io_reactor \<Rightarrow> nat \<Rightarrow> int + int \<Rightarrow> bool" where
  "single_result_ok r a res \<longleftrightarrow> io_messages r a = None \<and>
     (case reported_of a r of
        [] \<Rightarrow> isl res
      | [(k, x, y)] \<Rightarrow> res = (if x < 0 then Inl (- x) else Inr x)
      | _ \<Rightarrow> False)"

definition batch_result_ok :: "io_reactor \<Rightarrow> nat \<Rightarrow> FileIOBatch \<Rightarrow> int + nat \<Rightarrow> bool" where
  "batch_result_ok r a b res \<longleftrightarrow> io_messages r a = None \<and>
     (\<exists>d \<le> nblocks b. mset (map fst (reported_of a r)) = mset [0..<d] \<and>
        (case res of Inl e \<Rightarrow> d < nblocks b | Inr n \<Rightarrow> n = nblocks b \<and> d = n \<or> n = 0)) \<and>
     (\<forall>(k, x) \<in> set (reported_of a r). k < length (fb_blocks b) \<and> results_of b ! k = event_result x)"

definition results_ok :: "file_system \<Rightarrow> bool" where
  "results_ok s \<longleftrightarrow> (\<forall>(f, a, res) \<in> set (fs_single s). a < fs_next s \<and> single_result_ok (fs_io s) a res) \<and>
     (\<forall>(f, a, b, res) \<in> set (fs_batch s). a < fs_next s \<and> batch_result_ok (fs_io s) a b res)"

definition frames_ok :: "file_system \<Rightarrow> bool" where
  "frames_ok s \<longleftrightarrow>
     (\<forall>f a n w. pc_call (fs_pc s f) = Some (a, n, w) \<longrightarrow>
        a < fs_next s \<and> (\<exists>m. io_messages (fs_io s) a = Some m \<and> pc_shape (fs_pc s f) (io_shape m))) \<and>
     (\<forall>a \<ge> fs_next s. io_messages (fs_io s) a = None \<and> reported_of a (fs_io s) = [])"

definition ring_idle :: "nat \<Rightarrow> nat \<Rightarrow> io_reactor \<Rightarrow> bool" where
  "ring_idle N L r \<longleftrightarrow> rr_inv (io_ring r) \<and> rr_contents (io_ring r) = [] \<and> length (rr_buffer (io_ring r)) = N \<and>
     L \<le> rr_life (io_ring r)"

definition file_ok :: "nat \<Rightarrow> nat \<Rightarrow> file_system \<Rightarrow> bool" where
  "file_ok N L s \<longleftrightarrow> calls_ok (\<lambda>f. pc_call (fs_pc s f)) (fs_io s) \<and> distinct (io_flight (fs_io s)) \<and>
     ring_idle N L (fs_io s) \<and> frames_ok s \<and> results_ok s"

lemma results_kept:
  assumes "results_ok s" "fs_single t = fs_single s" "fs_batch t = fs_batch s" "fs_next s \<le> fs_next t"
    and "\<And>a. a < fs_next s \<Longrightarrow> io_messages (fs_io s) a = None \<Longrightarrow>
      io_messages (fs_io t) a = None \<and> reported_of a (fs_io t) = reported_of a (fs_io s)"
  shows "results_ok t"
  using assms unfolding results_ok_def single_result_ok_def batch_result_ok_def by fastforce

subsection \<open>A turn of the event loop\<close>

lemma event_loop_turn_ok:
  assumes ok: "calls_ok calls r" and d: "distinct (io_flight r)" and ring: "ring_idle N (L + 512) r"
    and N: "0 < N" "int N < 2 ^ 31" and k: "kernel_reports r evs"
  obtains t where "event_loop_turn evs r = Inr t" "calls_ok calls t" "distinct (io_flight t)" "ring_idle N L t"
    "same_frames r t" "io_log t = io_log r @ evs" "io_flight t = filter (\<lambda>e. e \<notin> set (map event_key evs)) (io_flight r)"
proof -
  have inv: "rr_inv (io_ring r)" "rr_contents (io_ring r) = []" "length (rr_buffer (io_ring r)) = N" "L + 512 \<le> rr_life (io_ring r)"
    using ring by (simp_all add: ring_idle_def)
  have cap: "rr_capacity_i (io_ring r) = int N"
    using N inv by (subst rr_capacity_i_eq) (simp_all add: rr_ring_size_def)
  have evs: "distinct (map event_key evs)" "set (map event_key evs) \<subseteq> set (io_flight r)"
    and len: "length evs \<le> N" "length evs \<le> 512" using k by (simp_all add: kernel_reports_def cap BATCH_SIZE_def)
  have "ring_fits r (length evs + 0)" using inv len by (simp add: ring_fits_def)
  from file_events_calls [OF ok this evs d] obtain u where u: "file_events evs r = Inr u" "calls_ok calls u"
    "ring_fits u 0" "same_frames r u" "io_log u = io_log r @ evs"
    "io_flight u = filter (\<lambda>e. e \<notin> set (map event_key evs)) (io_flight r)"
    "length (rr_buffer (io_ring u)) = length (rr_buffer (io_ring r))"
    "rr_life (io_ring r) \<le> rr_life (io_ring u) + length evs" by blast
  have poll: "IOPoller_poll (\<lambda>n. Some [Event_fd]) (\<lambda>n. Some evs) r = Inr u"
    using N u(1) by (simp add: IOPoller_poll_def cap poll_file_events_def)
  have uinv: "rr_inv (io_ring u)" using u(3) by (simp add: ring_fits_def)
  have "nat (rr_available (io_ring u)) = length (rr_contents (io_ring u))"
    using uinv by (simp add: rr_available_eq rr_length_contents)
  with drain_turns_calls [OF u(2) uinv, of "nat (rr_available (io_ring u))"] obtain t where
    t: "drain_ring u = Inr t" "calls_ok calls t" "rr_inv (io_ring t)" "rr_contents (io_ring t) = []" "same_frames u t"
    "io_log t = io_log u" "io_flight t = io_flight u" "length (rr_buffer (io_ring t)) = length (rr_buffer (io_ring u))"
    "rr_life (io_ring u) \<le> rr_life (io_ring t)" by (auto simp: drain_ring_def)
  have "L \<le> rr_life (io_ring t)" using t(9) u(8) inv(4) len(2) by linarith
  with that [of t] t u poll d inv show thesis
    by (auto simp: event_loop_turn_def ring_idle_def same_frames_def)
qed

subsection \<open>The steps of the fibers\<close>

lemma file_okD:
  assumes "file_ok N L s"
  shows "calls_ok (\<lambda>f. pc_call (fs_pc s f)) (fs_io s)" "distinct (io_flight (fs_io s))" "ring_idle N L (fs_io s)"
    "frames_ok s" "results_ok s"
  using assms by (simp_all add: file_ok_def)

lemma frames_okD:
  assumes "frames_ok s" "pc_call (fs_pc s f) = Some (a, n, w)"
  obtains m where "a < fs_next s" "io_messages (fs_io s) a = Some m" "pc_shape (fs_pc s f) (io_shape m)"
  using assms unfolding frames_ok_def by blast

lemma frames_ok_step:
  assumes ok: "frames_ok s" and t: "fs_next t = fs_next s" "same_frames (fs_io s) (fs_io t)"
      "\<And>b. fs_next s \<le> b \<Longrightarrow> reported_of b (fs_io t) = reported_of b (fs_io s)"
    and others: "\<And>g. g \<noteq> f \<Longrightarrow> fs_pc t g = fs_pc s g"
    and own: "\<And>a n w. pc_call (fs_pc t f) = Some (a, n, w) \<Longrightarrow>
      a < fs_next s \<and> (\<exists>m. io_messages (fs_io s) a = Some m \<and> pc_shape (fs_pc t f) (io_shape m))"
  shows "frames_ok t"
proof -
  have same: "map_option io_shape (io_messages (fs_io t) b) = map_option io_shape (io_messages (fs_io s) b)" for b
    using t(2) by (simp add: same_frames_def)
  have "a < fs_next t \<and> (\<exists>m. io_messages (fs_io t) a = Some m \<and> pc_shape (fs_pc t g) (io_shape m))"
    if "pc_call (fs_pc t g) = Some (a, n, w)" for g a n w
  proof -
    have "a < fs_next s \<and> (\<exists>m. io_messages (fs_io s) a = Some m \<and> pc_shape (fs_pc t g) (io_shape m))"
    proof (cases "g = f")
      case True
      with that own show ?thesis by blast
    next
      case False
      with that ok show ?thesis unfolding frames_ok_def others [OF False] by blast
    qed
    then obtain m where m: "a < fs_next s" "io_messages (fs_io s) a = Some m" "pc_shape (fs_pc t g) (io_shape m)" by blast
    with same [of a] obtain m' where "io_messages (fs_io t) a = Some m'" "io_shape m' = io_shape m" by auto
    with m t(1) show ?thesis by simp
  qed
  moreover have "io_messages (fs_io t) b = None \<and> reported_of b (fs_io t) = []" if "fs_next t \<le> b" for b
    using that ok t(1,3) same [of b] by (simp add: frames_ok_def)
  ultimately show ?thesis unfolding frames_ok_def by blast
qed

lemma file_ok_mono: "file_ok N L s \<Longrightarrow> L' \<le> L \<Longrightarrow> file_ok N L' s"
  by (auto simp: file_ok_def ring_idle_def)

lemma pc_call_upd: "(\<lambda>g. pc_call (((fs_pc s)(f := p)) g)) = (\<lambda>g. pc_call (fs_pc s g))(f := pc_call p)"
  by auto

lemma file_ok_enter:
  assumes ok: "file_ok N L s" and f: "fs_pc s f = F_idle" and m: "io_fiber m = f" "is_file_message m"
    and p: "pc_call p = Some (fs_next s, 0, False)" "pc_shape p (io_shape m)"
  shows "file_ok N L (frame_enter f m p s)"
proof -
  let ?t = "frame_enter f m p s" and ?a = "fs_next s"
  have a: "io_messages (fs_io s) ?a = None" "reported_of ?a (fs_io s) = []"
    using file_okD(4) [OF ok] by (simp_all add: frames_ok_def)
  have pc: "fs_pc ?t = (fs_pc s)(f := p)" by (simp add: frame_enter_def)
  have rep: "reported_of b (fs_io ?t) = reported_of b (fs_io s)" for b by (simp add: reported_of_def frame_enter_def)
  have "calls_ok (\<lambda>g. pc_call (fs_pc ?t g)) (fs_io ?t)"
    unfolding pc pc_call_upd p(1)
    by (rule calls_ok_enter [OF file_okD(1) [OF ok] _ a m]) (simp_all add: f frame_enter_def)
  moreover have "frames_ok ?t"
    using file_okD(4) [OF ok] p unfolding frames_ok_def rep
    by (auto simp: frame_enter_def less_Suc_eq)
  moreover have "results_ok ?t"
    by (rule results_kept [OF file_okD(5) [OF ok]]) (auto simp: rep, simp_all add: frame_enter_def)
  ultimately show ?thesis using file_okD(2,3) [OF ok] by (simp add: file_ok_def ring_idle_def frame_enter_def)
qed

text \<open>A call that ends: its fiber is not waiting any more in \<open>r\<close>.\<close>

lemma file_ok_leave:
  assumes ok: "file_ok N L s" and f: "pc_call (fs_pc s f) = Some (a, n, w)"
    and r: "calls_ok ((\<lambda>g. pc_call (fs_pc s g))(f \<mapsto> (a, n', False))) r"
      "io_messages r = io_messages (fs_io s)" "io_log r = io_log (fs_io s)" "io_flight r = io_flight (fs_io s)"
      "io_ring r = io_ring (fs_io s)"
  shows "file_ok N L (frame_leave f a (s\<lparr>fs_io := r\<rparr>))" "io_messages (fs_io (frame_leave f a (s\<lparr>fs_io := r\<rparr>))) a = None"
    "fs_next (frame_leave f a (s\<lparr>fs_io := r\<rparr>)) = fs_next s"
    "reported_of b (fs_io (frame_leave f a (s\<lparr>fs_io := r\<rparr>))) = reported_of b (fs_io s)"
proof -
  let ?t = "frame_leave f a (s\<lparr>fs_io := r\<rparr>)"
  have pc: "fs_pc ?t = (fs_pc s)(f := F_idle)" by (simp add: frame_leave_def)
  have rep: "reported_of b (fs_io ?t) = reported_of b (fs_io s)" for b by (simp add: reported_of_def frame_leave_def r)
  then show "reported_of b (fs_io ?t) = reported_of b (fs_io s)" .
  show "io_messages (fs_io ?t) a = None" "fs_next ?t = fs_next s" by (simp_all add: frame_leave_def)
  have "calls_ok (\<lambda>g. pc_call (fs_pc ?t g)) (fs_io ?t)"
    unfolding pc pc_call_upd using calls_ok_leave [OF r(1), of f a n'] by (simp add: frame_leave_def)
  moreover have "b \<noteq> a" if "pc_call (fs_pc s g) = Some (b, k, v)" "g \<noteq> f" for g b k v
    using calls_differ [OF file_okD(1) [OF ok], of f a n w g b k v] f that by simp
  then have "frames_ok ?t"
    using file_okD(4) [OF ok] unfolding frames_ok_def rep by (auto simp: frame_leave_def r)
  moreover have "results_ok ?t"
    by (rule results_kept [OF file_okD(5) [OF ok]]) (auto simp: rep, simp_all add: frame_leave_def r)
  ultimately show "file_ok N L ?t" using file_okD(2,3) [OF ok] by (simp add: file_ok_def ring_idle_def frame_leave_def r)
qed

text \<open>A call that goes on to \<open>p\<close>.\<close>

lemma file_ok_go_on:
  assumes ok: "file_ok N L s" and p: "pc_call p = Some (a, n, w)" "a < fs_next s"
      "\<And>m. io_messages (fs_io s) a = Some m \<Longrightarrow> pc_shape p (io_shape m)" "io_messages (fs_io s) a \<noteq> None"
    and r: "calls_ok ((\<lambda>g. pc_call (fs_pc s g))(f \<mapsto> (a, n, w))) r" "distinct (io_flight r)" "same_frames (fs_io s) r"
      "io_log r = io_log (fs_io s)" "io_ring r = io_ring (fs_io s)"
  shows "file_ok N L (file_pc_at f p (s\<lparr>fs_io := r\<rparr>))"
proof -
  let ?t = "file_pc_at f p (s\<lparr>fs_io := r\<rparr>)"
  have rep: "reported_of b r = reported_of b (fs_io s)" for b by (simp add: reported_of_def r)
  have dead: "io_messages r b = None \<longleftrightarrow> io_messages (fs_io s) b = None" for b
    using r(3) by (metis same_frames_def map_option_is_None)
  have pc: "fs_pc ?t = (fs_pc s)(f := p)" and io: "fs_io ?t = r" by simp_all
  have "calls_ok (\<lambda>g. pc_call (fs_pc ?t g)) (fs_io ?t)" unfolding pc io pc_call_upd p(1) by (rule r(1))
  moreover have "frames_ok ?t"
    by (rule frames_ok_step [OF file_okD(4) [OF ok], of _ f]) (use p r(3) rep in auto)
  moreover have "results_ok ?t" by (rule results_kept [OF file_okD(5) [OF ok]]) (simp_all add: rep dead)
  ultimately show ?thesis using file_okD(3) [OF ok] r by (simp add: file_ok_def ring_idle_def)
qed

lemma file_ok_append:
  assumes "file_ok N L s" "a < fs_next s"
  shows "single_result_ok (fs_io s) a x \<Longrightarrow> file_ok N L (s\<lparr>fs_single := fs_single s @ [(f, a, x)]\<rparr>)"
    and "batch_result_ok (fs_io s) a b y \<Longrightarrow> file_ok N L (s\<lparr>fs_batch := fs_batch s @ [(f, a, b, y)]\<rparr>)"
  using assms by (auto simp: file_ok_def frames_ok_def results_ok_def)

lemma return_eqs:
  "return_single f a x s = (frame_leave f a s)\<lparr>fs_single := fs_single (frame_leave f a s) @ [(f, a, x)]\<rparr>"
  "return_batch f a b y s = (frame_leave f a s)\<lparr>fs_batch := fs_batch (frame_leave f a s) @ [(f, a, b, y)]\<rparr>"
  by (simp_all add: return_single_def return_batch_def frame_leave_def)

text \<open>The message of a call, by its place.\<close>

lemma single_message:
  assumes ok: "file_ok N L s" and f: "fs_pc s f = Submit_single a \<or> fs_pc s f = Wait_single a"
  obtains ret blk sz st where "io_messages (fs_io s) a = Some (FileSingleIOMessage f ret blk sz st)" "aio_data blk = a"
    "a < fs_next s"
proof -
  from f obtain n w where c: "pc_call (fs_pc s f) = Some (a, n, w)" by (metis pc_call.simps)
  from frames_okD [OF file_okD(4) [OF ok] c] obtain m where m: "a < fs_next s" "io_messages (fs_io s) a = Some m"
    "pc_shape (fs_pc s f) (io_shape m)" .
  have "is_file_message m" "io_fiber m = f" using calls_okD(1) [OF file_okD(1) [OF ok] c] m(2) by (auto simp: call_ok_def)
  with m f that show thesis by (cases m) (auto simp: is_file_message_def)
qed

definition batch_at :: "nat \<Rightarrow> nat \<Rightarrow> FileIOBatch \<Rightarrow> bool" where
  "batch_at a tot b \<longleftrightarrow> length (fb_blocks b) = tot \<and> batch_ok b \<and> nblocks b = tot \<and> (\<forall>k < tot. aio_data (fb_blocks b ! k) = a)"

lemma batch_at_shape: "map aio_data (fb_blocks b) = replicate tot a \<Longrightarrow> length (fb_pblocks b) = tot \<Longrightarrow> batch_at a tot b"
  unfolding batch_at_def batch_ok_def nblocks_def by (metis length_map length_replicate nth_map nth_replicate)

lemma batch_message:
  assumes ok: "file_ok N L s" and f: "fs_pc s f = Submit_batch a tot d \<or> fs_pc s f = Wait_batch a tot d res"
  obtains b rem where "io_messages (fs_io s) a = Some (FileMultiIOMessage f True b rem)" "batch_at a tot b" "a < fs_next s"
    "fs_pc s f = Submit_batch a tot d \<Longrightarrow> d < tot" "fs_pc s f = Wait_batch a tot d res \<Longrightarrow> d + res \<le> tot"
proof -
  from f obtain n w where c: "pc_call (fs_pc s f) = Some (a, n, w)" by (metis pc_call.simps)
  from frames_okD [OF file_okD(4) [OF ok] c] obtain m where m: "a < fs_next s" "io_messages (fs_io s) a = Some m"
    "pc_shape (fs_pc s f) (io_shape m)" .
  have "is_file_message m" "io_fiber m = f" using calls_okD(1) [OF file_okD(1) [OF ok] c] m(2) by (auto simp: call_ok_def)
  with m f that show thesis by (cases m) (auto simp: is_file_message_def batch_at_shape)
qed

lemma call_reported:
  assumes "call_ok f a n False r" "io_messages r a = Some m"
  shows "mset (map fst (reported_of a r)) = mset [0..<n]" "\<And>k x. (k, x) \<in> set (reported_of a r) \<Longrightarrow> has_result m k x"
  using assms by (auto simp: call_ok_def pending_def)

lemma no_report: "mset (map fst (es :: (nat \<times> 'b) list)) = mset [0..<0] \<Longrightarrow> es = []"
  by simp

lemma one_report:
  assumes "mset (map fst (es :: (nat \<times> 'b) list)) = mset [0..<1]"
  obtains x where "es = [(0, x)]"
proof -
  from assms have "map fst es = [0]" using mset_single_iff [of "map fst es" 0] by simp
  then show thesis using that by (cases es) auto
qed

text \<open>Single operations.\<close>

lemma process_single_ok:
  assumes "file_ok N L s" "fs_pc s f = F_idle"
  shows "file_ok N L (process_single_io f fd buffer off sz command s)"
  unfolding process_single_io_def
  by (rule file_ok_enter [OF assms]) (simp_all add: FileSingleIOMessage_new_def is_file_message_def)

lemma call_not_waiting:
  assumes "file_ok N L s" "pc_call (fs_pc s f) = Some (a, n, False)"
  shows "(\<lambda>g. pc_call (fs_pc s g))(f \<mapsto> (a, n, False)) = (\<lambda>g. pc_call (fs_pc s g))" "call_ok f a n False (fs_io s)"
  using assms(2) calls_okD(1) [OF file_okD(1) [OF assms(1)] assms(2)] by auto

lemma single_submit_ok:
  assumes ok: "file_ok N L s" and f: "fs_pc s f = Submit_single a" and res: "res \<le> 1"
  shows "\<exists>t. single_submit f a res errno s = Inr t \<and> file_ok N L t"
proof -
  obtain ret blk sz st where m: "io_messages (fs_io s) a = Some (FileSingleIOMessage f ret blk sz st)"
    and a: "aio_data blk = a" "a < fs_next s" using single_message [OF ok] f by blast
  have c: "pc_call (fs_pc s f) = Some (a, 0, False)" using f by simp
  note same = call_not_waiting [OF ok c]
  consider "res = 1" | "res < 0" | "res = 0" using res by linarith
  then show ?thesis
  proof cases
    case 1
    let ?r = "(fs_io s)\<lparr>io_messages := (io_messages (fs_io s))(a \<mapsto> FileSingleIOMessage f ret blk sz st),
      io_flight := io_flight (fs_io s) @ map (Pair a) [0..<0 + 1], io_wait := io_wait (fs_io s) @ [f]\<rparr>"
    have r: "io_wait_for f (kernel_takes [(aio_data blk, 0)] (fs_io s)) = ?r"
      using m by (simp add: io_wait_for_def kernel_takes_def a fun_upd_idem)
    let ?t = "file_pc_at f (Wait_single a) (s\<lparr>fs_io := ?r\<rparr>)"
    have calls: "calls_ok ((\<lambda>g. pc_call (fs_pc s g))(f \<mapsto> (a, 0 + 1, True))) ?r" "distinct (io_flight ?r)"
      by (rule calls_ok_submit [OF file_okD(1) [OF ok] c m _ _ _ _ _ _ _ _ refl];
          use file_okD(2) [OF ok] in \<open>simp add: is_file_message_def io_accepts_def\<close>)+
    have "same_frames (fs_io s) ?r" using m by (simp add: same_frames_def)
    with calls m a have "file_ok N L ?t"
      by (intro file_ok_go_on [OF ok, where n = "0 + 1" and w = True]) auto
    moreover have "single_submit f a res errno s = Inr ?t" using 1 m by (simp add: single_submit_def r)
    ultimately show ?thesis by blast
  next
    case 2
    have l: "file_ok N L (frame_leave f a s)" "io_messages (fs_io (frame_leave f a s)) a = None"
      "fs_next (frame_leave f a s) = fs_next s" "reported_of a (fs_io (frame_leave f a s)) = reported_of a (fs_io s)"
      using file_ok_leave [OF ok c, of 0 "fs_io s"] same(1) file_okD(1) [OF ok] by simp_all
    have "reported_of a (fs_io s) = []" using call_reported(1) [OF same(2) m] by simp
    with l a have "file_ok N L (return_single f a (Inl errno) s)"
      unfolding return_eqs by (intro file_ok_append) (simp_all add: single_result_ok_def)
    with 2 m show ?thesis by (simp add: single_submit_def)
  next
    case 3
    with ok m show ?thesis by (simp add: single_submit_def)
  qed
qed

text \<open>A fiber that has been resumed is not waiting.\<close>

lemma resumed_call:
  assumes ok: "file_ok N L s" and f: "f \<in> set (io_ready (fs_io s))" and r: "r = (fs_io s)\<lparr>io_ready := remove1 f (io_ready (fs_io s))\<rparr>"
  obtains a n where "pc_call (fs_pc s f) = Some (a, n, True)" "calls_ok ((\<lambda>g. pc_call (fs_pc s g))(f \<mapsto> (a, n, False))) r"
    "call_ok f a n False r"
proof -
  have "f \<in> set (io_wait (fs_io s)) \<union> set (io_ready (fs_io s))" using f by simp
  then obtain a n where c: "pc_call (fs_pc s f) = Some (a, n, True)" unfolding calls_okD(7) [OF file_okD(1) [OF ok]] by auto
  from calls_ok_resumed [OF file_okD(1) [OF ok] c f r] have "calls_ok ((\<lambda>g. pc_call (fs_pc s g))(f \<mapsto> (a, n, False))) r" .
  from that [OF c this] calls_okD(1) [OF this, of f a n False] show thesis by simp
qed

lemma single_resumed_ok:
  assumes ok: "file_ok N L s" and f: "fs_pc s f = Wait_single a" and r: "f \<in> set (io_ready (fs_io s))"
  shows "\<exists>t. single_resumed f a (s\<lparr>fs_io := (fs_io s)\<lparr>io_ready := remove1 f (io_ready (fs_io s))\<rparr>\<rparr>) = Inr t \<and> file_ok N L t"
proof -
  let ?r = "(fs_io s)\<lparr>io_ready := remove1 f (io_ready (fs_io s))\<rparr>"
  obtain ret blk sz st where m: "io_messages (fs_io s) a = Some (FileSingleIOMessage f ret blk sz st)"
    and a: "aio_data blk = a" "a < fs_next s" using single_message [OF ok] f by blast
  have c: "pc_call (fs_pc s f) = Some (a, 1, True)" using f by simp
  have calls: "calls_ok ((\<lambda>g. pc_call (fs_pc s g))(f \<mapsto> (a, 1, False))) ?r" "call_ok f a 1 False ?r"
    using resumed_call [OF ok r refl] c by auto
  have "io_messages ?r a = Some (FileSingleIOMessage f ret blk sz st)" using m by simp
  note rep = call_reported [OF calls(2) this]
  obtain x where x: "reported_of a ?r = [(0, x)]" using one_report [OF rep(1)] .
  with rep(2) [of 0 x] have rep: "reported_of a ?r = [(0, sz, snd x)]" by (cases x) (simp add: event_result_def)
  have rep': "reported_of a (fs_io s) = [(0, sz, snd x)]" using rep by (simp add: reported_of_def)
  let ?s = "frame_leave f a (s\<lparr>fs_io := ?r\<rparr>)"
  have l: "file_ok N L ?s" "io_messages (fs_io ?s) a = None" "fs_next ?s = fs_next s" "reported_of a (fs_io ?s) = reported_of a (fs_io s)"
    using file_ok_leave [OF ok c calls(1)] by simp_all
  with a rep' have "file_ok N L (return_single f a (if sz < 0 then Inl (- sz) else Inr sz) (s\<lparr>fs_io := ?r\<rparr>))"
    unfolding return_eqs by (intro file_ok_append) (simp_all add: single_result_ok_def)
  with m show ?thesis by (simp add: single_resumed_def)
qed

text \<open>Batches.\<close>

lemma batch_return_ok:
  assumes ok: "file_ok N L s" and c: "pc_call (fs_pc s f) = Some (a, n, w)" and a: "a < fs_next s"
    and r: "calls_ok ((\<lambda>g. pc_call (fs_pc s g))(f \<mapsto> (a, n', False))) r" "call_ok f a n' False r"
      "io_messages r = io_messages (fs_io s)" "io_log r = io_log (fs_io s)" "io_flight r = io_flight (fs_io s)"
      "io_ring r = io_ring (fs_io s)"
    and m: "io_messages (fs_io s) a = Some (FileMultiIOMessage f True b rem)"
    and b: "results_of b' = results_of b" "n' \<le> nblocks b'"
      "case res of Inl e \<Rightarrow> n' < nblocks b' | Inr k \<Rightarrow> k = nblocks b' \<and> n' = k \<or> k = 0"
  shows "file_ok N L (return_batch f a b' res (s\<lparr>fs_io := r\<rparr>))"
proof -
  let ?s = "frame_leave f a (s\<lparr>fs_io := r\<rparr>)"
  have l: "file_ok N L ?s" "io_messages (fs_io ?s) a = None" "fs_next ?s = fs_next s" "reported_of a (fs_io ?s) = reported_of a (fs_io s)"
    using file_ok_leave [OF ok c r(1,3-6)] by simp_all
  have rep: "reported_of a r = reported_of a (fs_io s)" by (simp add: reported_of_def r)
  have "io_messages r a = Some (FileMultiIOMessage f True b rem)" using m r(3) by simp
  note reported = call_reported [OF r(2) this, unfolded rep]
  have len: "length (fb_blocks b') = length (fb_blocks b)" using arg_cong [OF b(1), of length] by simp
  have "batch_result_ok (fs_io ?s) a b' res"
    using reported b len by (auto simp: batch_result_ok_def l)
  with l a show ?thesis unfolding return_eqs by (intro file_ok_append) simp_all
qed

lemma i32_le: "0 \<le> x \<Longrightarrow> i32 x \<le> x" "i32 x < 2 ^ 31"
proof -
  show "i32 x < 2 ^ 31" by (simp add: i32_def)
  assume "0 \<le> x"
  then have "(x + 2 ^ 31) mod 2 ^ 32 \<le> x + 2 ^ 31" by (intro zmod_le_nonneg_dividend) simp
  then show "i32 x \<le> x" by (simp add: i32_def)
qed

lemma batch_submit_ok:
  assumes ok: "file_ok N L s" and f: "fs_pc s f = Submit_batch a tot d"
    and res: "res \<le> max 0 (i32 (int tot - int d))"
  shows "\<exists>t. batch_submit f a tot d res errno s = Inr t \<and> file_ok N L t"
proof -
  obtain b rem where m: "io_messages (fs_io s) a = Some (FileMultiIOMessage f True b rem)" and b: "batch_at a tot b"
    and a: "a < fs_next s" and d: "d < tot" using batch_message [OF ok] f by metis
  have c: "pc_call (fs_pc s f) = Some (a, d, False)" using f by simp
  note same = call_not_waiting [OF ok c]
  let ?b = "batch_fill b"
  have b': "nblocks ?b = tot" "results_of ?b = results_of b" "length (fb_blocks ?b) = tot"
    "batch_blocks d b = (map Some [d..<tot], ?b)"
    using b by (auto simp: batch_at_def batch_blocks_eq)
  have ret: "file_ok N L (return_batch f a ?b e s)" if "case e of Inl e \<Rightarrow> True | Inr k \<Rightarrow> k = 0" for e
    using batch_return_ok [OF ok c a _ _ refl refl refl refl m, of d ?b e] same file_okD(1) [OF ok] b' d that
    by (auto split: sum.splits)
  show ?thesis
  proof (cases "0 < res")
    case True
    then obtain j where j: "nat res = j" "res = int j" "0 < j" by (metis nat_int zero_less_imp_eq_int)
    have "i32 (int tot - int d) \<le> int tot - int d" "i32 (int tot - int d) < 2 ^ 31"
      using i32_le [of "int tot - int d"] d by simp_all
    with res j have "d + j \<le> tot" "int j < 2 ^ 31" by linarith+
    then have jd: "d + j \<le> tot" "int j < 2 ^ 64" by simp_all
    have ks: "map the (take j (map Some [d..<tot])) = [d..<d + j]" "None \<notin> set (take j (map Some [d..<tot]))"
      using jd(1) by (auto simp: take_map comp_def take_upt dest: in_set_takeD)
    have data: "map (\<lambda>k. (aio_data (fb_blocks ?b ! k), k)) [d..<d + j] = map (Pair a) [d..<d + j]"
      using b jd(1) by (auto simp: batch_at_def batch_fill_def)
    let ?m = "add_submited j (FileMultiIOMessage f True ?b rem)"
    let ?r = "(fs_io s)\<lparr>io_messages := (io_messages (fs_io s))(a \<mapsto> ?m),
      io_flight := io_flight (fs_io s) @ map (Pair a) [d..<d + j], io_wait := io_wait (fs_io s) @ [f]\<rparr>"
    let ?t = "file_pc_at f (Wait_batch a tot d j) (s\<lparr>fs_io := ?r\<rparr>)"
    have calls: "calls_ok ((\<lambda>g. pc_call (fs_pc s g))(f \<mapsto> (a, d + j, True))) ?r" "distinct (io_flight ?r)"
      by (rule calls_ok_submit [OF file_okD(1) [OF ok] c m _ _ _ _ _ _ _ _ refl];
          use file_okD(2) [OF ok] b' j jd b in
            \<open>simp add: add_submited_def is_file_message_def io_single_def io_accepts_def set_submited_def results_of_def batch_fill_def\<close>)+
    have sh: "io_shape ?m = io_shape (FileMultiIOMessage f True b rem)"
      using b by (simp add: add_submited_def set_submited_def batch_fill_def batch_at_def batch_ok_def)
    then have "same_frames (fs_io s) ?r" using m by (simp add: same_frames_def)
    moreover obtain m' where "io_messages (fs_io s) a = Some m'" "pc_shape (Submit_batch a tot d) (io_shape m')"
      using frames_okD [OF file_okD(4) [OF ok] c] unfolding f .
    ultimately have "file_ok N L ?t"
      using calls m a jd by (intro file_ok_go_on [OF ok, where n = "d + j" and w = True]) auto
    moreover have "batch_submit f a tot d res errno s = Inr (file_pc_at f (Wait_batch a tot d j) (s\<lparr>fs_io := io_wait_for f
        ((kernel_takes (map (Pair a) [d..<d + j]) (fs_io s))\<lparr>io_messages :=
          (io_messages (kernel_takes (map (Pair a) [d..<d + j]) (fs_io s)))(a \<mapsto> ?m)\<rparr>)\<rparr>))"
      unfolding batch_submit_def m option.case io_message.case b'(4) prod.case j(1) Let_def ks(1) data
      using True ks(2) by (simp only: if_True if_False)
    then have "batch_submit f a tot d res errno s = Inr ?t" by (simp add: io_wait_for_def kernel_takes_def)
    ultimately show ?thesis by blast
  next
    case False
    with m b' ret [of "Inl errno"] ret [of "Inr 0"] show ?thesis by (auto simp: batch_submit_def)
  qed
qed

lemma batch_resumed_ok:
  assumes ok: "file_ok N L s" and f: "fs_pc s f = Wait_batch a tot d res" and r: "f \<in> set (io_ready (fs_io s))"
  shows "\<exists>t. batch_loop f a tot (d + res) (s\<lparr>fs_io := (fs_io s)\<lparr>io_ready := remove1 f (io_ready (fs_io s))\<rparr>\<rparr>) = Inr t \<and>
    file_ok N L t"
proof -
  let ?r = "(fs_io s)\<lparr>io_ready := remove1 f (io_ready (fs_io s))\<rparr>"
  obtain b rem where m: "io_messages (fs_io s) a = Some (FileMultiIOMessage f True b rem)" and b: "batch_at a tot b"
    and a: "a < fs_next s" and d: "d + res \<le> tot" using batch_message [OF ok] f by metis
  have c: "pc_call (fs_pc s f) = Some (a, d + res, True)" using f by simp
  have calls: "calls_ok ((\<lambda>g. pc_call (fs_pc s g))(f \<mapsto> (a, d + res, False))) ?r" "call_ok f a (d + res) False ?r"
    using resumed_call [OF ok r refl] c by auto
  show ?thesis
  proof (cases "d + res < tot")
    case True
    obtain m' where "io_messages (fs_io s) a = Some m'" "pc_shape (Wait_batch a tot d res) (io_shape m')"
      using frames_okD [OF file_okD(4) [OF ok] c] unfolding f .
    with m True a calls(1) file_okD(2) [OF ok] have "file_ok N L (file_pc_at f (Submit_batch a tot (d + res)) (s\<lparr>fs_io := ?r\<rparr>))"
      by (intro file_ok_go_on [OF ok, where n = "d + res" and w = False]) (auto simp: same_frames_def)
    with m True show ?thesis by (simp add: batch_loop_def)
  next
    case False
    with d b have "file_ok N L (return_batch f a b (Inr (d + res)) (s\<lparr>fs_io := ?r\<rparr>))"
      by (intro batch_return_ok [OF ok c a calls _ _ _ _ m]) (simp_all add: batch_at_def)
    with m False show ?thesis by (simp add: batch_loop_def)
  qed
qed

lemma process_batch_ok:
  assumes ok: "file_ok N L s" and f: "fs_pc s f = F_idle" and b: "batch_ok b"
  shows "\<exists>t. process_batch f fd b s = Inr t \<and> file_ok N L t"
proof (cases "nblocks b = 0")
  case False
  let ?m = "FileMultiIOMessage_new f (fs_next s) fd (fs_event_fd s) b"
  have "map aio_data (fb_blocks (batch_configure fd e a b)) = replicate (nblocks b) a" for e a
    using b by (simp add: batch_configure_def nblocks_eq map_replicate_const comp_def)
  then have "file_ok N L (frame_enter f ?m (Submit_batch (fs_next s) (nblocks b) 0) s)"
    using False by (intro file_ok_enter [OF ok f])
      (simp_all add: FileMultiIOMessage_new_def is_file_message_def batch_configure_def nblocks_def)
  with False show ?thesis
    by (simp add: process_batch_def batch_loop_def frame_enter_def FileMultiIOMessage_new_def)
next
  case True
  let ?a = "fs_next s" and ?b = "batch_configure fd (fs_event_fd s) (fs_next s) b"
  have new: "io_messages (fs_io s) ?a = None" "reported_of ?a (fs_io s) = []"
    using file_okD(4) [OF ok] by (simp_all add: frames_ok_def)
  let ?t = "s\<lparr>fs_next := Suc ?a, fs_batch := fs_batch s @ [(f, ?a, ?b, Inr 0)]\<rparr>"
  have "(io_messages (fs_io s))(?a := None) = io_messages (fs_io s)" "(fs_pc s)(f := F_idle) = fs_pc s"
    using new f by (simp_all add: fun_upd_idem)
  then have "process_batch f fd b s = Inr ?t"
    using True by (simp add: process_batch_def batch_loop_def frame_enter_def frame_leave_def return_batch_def
        FileMultiIOMessage_new_def)
  moreover have "batch_result_ok (fs_io s) ?a ?b (Inr 0)" using new by (auto simp: batch_result_ok_def intro!: exI [of _ 0])
  then have "results_ok ?t" using file_okD(5) [OF ok] by (auto simp: results_ok_def)
  moreover have "frames_ok ?t" using file_okD(4) [OF ok] by (force simp: frames_ok_def)
  ultimately show ?thesis using file_okD(1-3) [OF ok] by (intro exI [of _ ?t]) (simp add: file_ok_def)
qed

subsection \<open>Every step\<close>

lemma event_loop_ok:
  assumes ok: "file_ok N (L + 512) s" and N: "0 < N" "int N < 2 ^ 31" and k: "kernel_reports (fs_io s) evs"
  shows "\<exists>r. event_loop_turn evs (fs_io s) = Inr r \<and> file_ok N L (s\<lparr>fs_io := r\<rparr>) \<and>
    io_flight r = filter (\<lambda>e. e \<notin> set (map event_key evs)) (io_flight (fs_io s))"
proof -
  obtain r where r: "event_loop_turn evs (fs_io s) = Inr r" "calls_ok (\<lambda>f. pc_call (fs_pc s f)) r" "distinct (io_flight r)"
    "ring_idle N L r" "same_frames (fs_io s) r" "io_log r = io_log (fs_io s) @ evs"
    "io_flight r = filter (\<lambda>e. e \<notin> set (map event_key evs)) (io_flight (fs_io s))"
    by (rule event_loop_turn_ok [OF file_okD(1-3) [OF ok] N k])
  have rep: "reported_of a r = reported_of a (fs_io s)" if "io_messages (fs_io s) a = None" for a
  proof -
    have "fst e \<noteq> a" if "e \<in> set evs" for e
    proof -
      have "event_key e \<in> set (io_flight (fs_io s))" using k that by (auto simp: kernel_reports_def)
      then obtain m where "io_messages (fs_io s) (fst e) = Some m" by (rule flight_accepted [OF file_okD(1) [OF ok]])
      with \<open>io_messages (fs_io s) a = None\<close> show ?thesis by auto
    qed
    then show ?thesis by (auto simp: reported_of_def r(6) filter_empty_conv)
  qed
  have dead: "io_messages r a = None \<longleftrightarrow> io_messages (fs_io s) a = None" for a
    using r(5) by (metis same_frames_def map_option_is_None)
  have new: "io_messages (fs_io s) a = None" if "fs_next s \<le> a" for a
    using that file_okD(4) [OF ok] by (simp add: frames_ok_def)
  have "frames_ok (s\<lparr>fs_io := r\<rparr>)"
  proof (rule frames_ok_step [OF file_okD(4) [OF ok], of _ 0])
    show "a < fs_next s \<and> (\<exists>m. io_messages (fs_io s) a = Some m \<and> pc_shape (fs_pc (s\<lparr>fs_io := r\<rparr>) 0) (io_shape m))"
      if "pc_call (fs_pc (s\<lparr>fs_io := r\<rparr>) 0) = Some (a, n, w)" for a n w
    proof -
      from that have "pc_call (fs_pc s 0) = Some (a, n, w)" by simp
      from frames_okD [OF file_okD(4) [OF ok] this] obtain m where "a < fs_next s" "io_messages (fs_io s) a = Some m"
        "pc_shape (fs_pc s 0) (io_shape m)" .
      then show ?thesis by simp
    qed
  qed (use r(5) rep new in simp_all)
  moreover have "results_ok (s\<lparr>fs_io := r\<rparr>)"
    by (rule results_kept [OF file_okD(5) [OF ok]]) (simp_all add: rep dead)
  ultimately show ?thesis using r by (simp add: file_ok_def)
qed

lemma file_step_ok:
  assumes ok: "file_ok N (L + 512) s" and N: "0 < N" "int N < 2 ^ 31"
  shows "\<exists>t. file_step act s = Inr t \<and> file_ok N L t"
proof -
  have ok': "file_ok N L s" using ok by (rule file_ok_mono) simp
  show ?thesis
  proof (cases act)
    case (Call_read f fd buffer off sz)
    with ok' process_single_ok [OF ok', of f] show ?thesis by (auto simp: File_read_def)
  next
    case (Call_write f fd buffer off sz)
    with ok' process_single_ok [OF ok', of f] show ?thesis by (auto simp: File_write_def)
  next
    case (Call_batch f fd b)
    with ok' process_batch_ok [OF ok', of f b fd] show ?thesis by auto
  next
    case (Io_submit f res errno)
    with ok' single_submit_ok [OF ok', of f _ res errno] batch_submit_ok [OF ok', of f _ _ _ res errno] show ?thesis
      by (auto split: file_pc.splits)
  next
    case (Event_loop evs)
    with ok' event_loop_ok [OF ok N, of evs] show ?thesis by auto
  next
    case (Run_resumed f)
    show ?thesis
    proof (cases "f \<in> set (io_ready (fs_io s))")
      case True
      obtain a n where "pc_call (fs_pc s f) = Some (a, n, True)" using resumed_call [OF ok' True refl] .
      with single_resumed_ok [OF ok' _ True] batch_resumed_ok [OF ok' _ True] True Run_resumed show ?thesis
        by (cases "fs_pc s f") (auto simp: Let_def)
    qed (use ok' Run_resumed in simp)
  qed
qed

lemma file_run_ok:
  assumes "file_ok N (L + 512 * length acts) s" "0 < N" "int N < 2 ^ 31"
  shows "\<exists>t. file_run acts s = Inr t \<and> file_ok N L t"
  using assms
proof (induction acts arbitrary: s)
  case (Cons act acts)
  have "file_ok N ((L + 512 * length acts) + 512) s" using Cons.prems(1) by (simp add: algebra_simps)
  from file_step_ok [OF this Cons.prems(2,3), of act] Cons.IH Cons.prems(2,3) show ?case by auto
qed simp

lemma file_ok_new:
  assumes "pow2 (int n)" "int n < 2 ^ 63"
  shows "file_ok n (2 ^ 63 - 1) (file_system_new n fd)"
proof -
  have "rr_inv (ReactorRing_new 0 n :: nat ReactorRing)" using assms by (rule rr_inv_new)
  moreover have "rr_contents (ReactorRing_new 0 n :: nat ReactorRing) = []" "length (rr_buffer (ReactorRing_new 0 n :: nat ReactorRing)) = n"
    "rr_life (ReactorRing_new 0 n :: nat ReactorRing) = 2 ^ 63 - 1"
    by (simp_all add: ReactorRing_new_def rr_contents_def rr_life_def)
  ultimately show ?thesis
    by (simp add: file_ok_def file_system_new_def calls_ok_def pending_def flight_of_def ring_of_def reported_of_def
        ring_idle_def frames_ok_def results_ok_def)
qed

lemma file_run_new:
  assumes "pow2 (int n)" "int n < 2 ^ 31" "512 * int (length acts + k) < 2 ^ 63"
  shows "\<exists>s. file_run acts (file_system_new n fd) = Inr s \<and> file_ok n (512 * k) s"
proof -
  have "int (512 * k + 512 * length acts) < 2 ^ 63" using assms(3) by simp
  then have "512 * k + 512 * length acts < 2 ^ 63" by (simp only: of_nat_less_numeral_power_cancel_iff)
  then have "512 * k + 512 * length acts \<le> 2 ^ 63 - 1" by simp
  then have "file_ok n (512 * k + 512 * length acts) (file_system_new n fd)"
    using assms by (intro file_ok_mono [OF file_ok_new]) simp_all
  then show ?thesis using assms(1,2) pow2_pos [OF assms(1)] by (intro file_run_ok) simp_all
qed

subsection \<open>The properties\<close>

text \<open>C5: no step of the fibers, of the poller or of the event loop fails, in whatever order they run and the
  kernel reports: no message is used after its call has ended, no fiber is resumed that does not wait, the ring
  has room for every event and a message for every turn. And when a call has ended the kernel has none of its blocks.\<close>

theorem file_io_never_fails:
  assumes "pow2 (int n)" "int n < 2 ^ 31" "512 * int (length acts) < 2 ^ 63"
  shows "\<exists>s. file_run acts (file_system_new n fd) = Inr s \<and> rr_contents (io_ring (fs_io s)) = [] \<and>
    (\<forall>(a, k) \<in> set (io_flight (fs_io s)). io_messages (fs_io s) a \<noteq> None)"
proof -
  obtain s where s: "file_run acts (file_system_new n fd) = Inr s" "file_ok n (512 * 0) s"
    using file_run_new [OF assms(1,2), of acts 0] assms(3) by auto
  have "io_messages (fs_io s) a \<noteq> None" if "(a, k) \<in> set (io_flight (fs_io s))" for a k
    using flight_accepted [OF file_okD(1) [OF s(2)] that] by (metis option.distinct(1))
  with s file_okD(3) [OF s(2)] show ?thesis by (auto simp: ring_idle_def)
qed

text \<open>Two fibers share the system: one reads, the other writes a batch of two blocks, of which the kernel
  takes one at a time.\<close>

definition batch_example :: FileIOBatch where
  "batch_example = add_write 200 512 512 (add_write 100 0 512 FileIOBatch_new)"

definition file_example :: "file_action list" where
  "file_example =
     [Call_read 1 7 300 0 512, Call_batch 2 7 batch_example, Io_submit 2 1 0, Io_submit 1 0 0, Io_submit 1 1 0,
      Event_loop [(2, 0, 512, 0), (1, 0, 512, 0)], Run_resumed 2, Io_submit 2 1 0, Run_resumed 1,
      Event_loop [(2, 1, -5, 0)]]"

lemma pow2_16: "pow2 (int 16)"
  unfolding pow2_def by (rule exI [of _ 4]) simp

theorem file_io_never_fails_witness:
  "\<exists>s. file_run file_example (file_system_new 16 3) = Inr s \<and> rr_contents (io_ring (fs_io s)) = [] \<and>
    (\<forall>(a, k) \<in> set (io_flight (fs_io s)). io_messages (fs_io s) a \<noteq> None)"
  by (rule file_io_never_fails [OF pow2_16]) (simp_all add: file_example_def)

text \<open>C7: the pointers that come back from the kernel have the types the code casts them to. The data of a block in
  flight is the address of the message of a call that waits; it is a \<open>FileSingleIOMessage\<close> and the block is its
  own, or a \<open>FileMultiIOMessage\<close> whose batch has that block.\<close>

theorem kernel_pointers_typed:
  assumes "pow2 (int n)" "int n < 2 ^ 31" "512 * int (length acts) < 2 ^ 63"
    and "file_run acts (file_system_new n fd) = Inr s" "(a, k) \<in> set (io_flight (fs_io s))"
  obtains f ret block sz st where "fs_pc s f = Wait_single a" "aio_data block = a" "k = 0" "f \<in> set (io_wait (fs_io s))"
      "io_messages (fs_io s) a = Some (FileSingleIOMessage f ret block sz st)"
  | f tot d res b remaining where "fs_pc s f = Wait_batch a tot d res" "f \<in> set (io_wait (fs_io s))"
      "io_messages (fs_io s) a = Some (FileMultiIOMessage f True b remaining)"
      "length (fb_blocks b) = tot" "k < d + res" "d + res \<le> tot" "aio_data (fb_blocks b ! k) = a"
proof -
  have ok: "file_ok n (512 * 0) s" using file_run_new [OF assms(1,2), of acts 0 fd] assms(3,4) by auto
  have k: "k \<in> set (flight_of a (fs_io s))" using assms(5) by (force simp: flight_of_def)
  then have p: "0 < pending a (fs_io s)" by (auto simp: pending_def)
  from calls_okD(3) [OF file_okD(1) [OF ok] this] obtain f m w where c: "pc_call (fs_pc s f) = Some (a, m, w)" by blast
  from calls_okD(1) [OF file_okD(1) [OF ok] c] p have own: "call_ok f a m w (fs_io s)" "w" "f \<in> set (io_wait (fs_io s))"
    by (auto simp: call_ok_def)
  then have part: "mset (flight_of a (fs_io s)) + mset (map fst (reported_of a (fs_io s))) = mset [0..<m]"
    by (auto simp: call_ok_def)
  then have "set (flight_of a (fs_io s)) \<subseteq> set [0..<m]" by (metis mset_subset_eq_add_left set_mset_mono set_mset_mset)
  then have km: "k < m" using k by auto
  show thesis
  proof (cases "fs_pc s f")
    case (Wait_single b)
    with c km have b: "fs_pc s f = Wait_single a" "m = 1" "k = 0" by auto
    obtain ret blk sz st where msg: "io_messages (fs_io s) a = Some (FileSingleIOMessage f ret blk sz st)" "aio_data blk = a"
      using single_message [OF ok] b(1) by metis
    from that(1) [OF b(1) msg(2) b(3) own(3) msg(1)] show thesis .
  next
    case (Wait_batch b tot d res)
    with c have b: "fs_pc s f = Wait_batch a tot d res" "m = d + res" by auto
    obtain bb rem where msg: "io_messages (fs_io s) a = Some (FileMultiIOMessage f True bb rem)" "batch_at a tot bb"
      "d + res \<le> tot" using batch_message [OF ok] b(1) by metis
    with that(2) [OF b(1) own(3) msg(1)] km b(2) show thesis by (simp add: batch_at_def)
  qed (use c own(2) in auto)
qed

text \<open>To run the system in the examples: the powers of two as numbers.\<close>

lemma wrap_code [code]:
  "u64 x = x mod 18446744073709551616" "i64 x = (x + 9223372036854775808) mod 18446744073709551616 - 9223372036854775808"
  "i32 x = (x + 2147483648) mod 4294967296 - 2147483648"
  "rr_capacity_i q = i32 (rr_capacity q)"
  by (simp_all add: u64_def i64_def i32_def rr_capacity_i_def)

text \<open>A run that is known to end well, and a part of its last state.\<close>

definition run_part :: "(file_system \<Rightarrow> 'b) \<Rightarrow> io_fault + file_system \<Rightarrow> 'b option" where
  "run_part g r = (case r of Inl e \<Rightarrow> None | Inr s \<Rightarrow> Some (g s))"

lemma run_partD: "run_part g r = Some x \<Longrightarrow> \<exists>s. r = Inr s \<and> g s = x"
  by (auto simp: run_part_def split: sum.splits)

theorem kernel_pointers_typed_witness:
  "\<exists>s f. file_run (take 5 file_example) (file_system_new 16 3) = Inr s \<and> (2, 0) \<in> set (io_flight (fs_io s)) \<and>
     f \<in> set (io_wait (fs_io s))"
proof -
  have "run_part (\<lambda>s. io_flight (fs_io s)) (file_run (take 5 file_example) (file_system_new 16 3)) = Some [(2, 0), (1, 0)]"
    by code_simp
  then obtain s where s: "file_run (take 5 file_example) (file_system_new 16 3) = Inr s" "io_flight (fs_io s) = [(2, 0), (1, 0)]"
    by (auto dest: run_partD)
  have mem: "(2, 0) \<in> set (io_flight (fs_io s))" by (simp add: s(2))
  have "\<exists>f. f \<in> set (io_wait (fs_io s))"
    by (rule kernel_pointers_typed [OF pow2_16 _ _ s(1) mem]) (auto simp: file_example_def)
  with s(1) mem show ?thesis by blast
qed

lemma single_result_okD:
  "single_result_ok r a res \<Longrightarrow> reported_of a r = [] \<and> isl res \<or>
    (\<exists>k x y. reported_of a r = [(k, x, y)] \<and> res = (if x < 0 then Inl (- x) else Inr x))"
proof (cases "reported_of a r")
  case (Cons e es)
  moreover obtain k x y where "e = (k, x, y)" by (cases e) auto
  moreover assume "single_result_ok r a res"
  ultimately have "reported_of a r = [(k, x, y)] \<and> res = (if x < 0 then Inl (- x) else Inr x)"
    by (cases es) (auto simp: single_result_ok_def)
  then show ?thesis by blast
qed (simp add: single_result_ok_def)

lemma batch_result_okD:
  assumes "batch_result_ok r a b res"
  shows "case res of Inl e \<Rightarrow> True | Inr k \<Rightarrow> k = 0 \<or> k = nblocks b \<and> mset (map fst (reported_of a r)) = mset [0..<k]"
    and "\<forall>(k, x) \<in> set (reported_of a r). k < length (fb_blocks b) \<and> results_of b ! k = event_result x"
  using assms by (auto simp: batch_result_ok_def split: sum.splits)

text \<open>C6: a call of \<open>read\<close> or \<open>write\<close> returns the number the kernel reported for its operation, which it did once, or
  throws the error it reported, or that of \<open>io_submit\<close>, and then the kernel was given nothing. A batch
  that returns its size has had each of its blocks reported once, and each block holds what was reported for it, the second
  number as the unsigned \<open>status\<close>; so
  \<open>check_status\<close> throws exactly when one of the operations failed.\<close>

theorem file_results:
  assumes "pow2 (int n)" "int n < 2 ^ 31" "512 * int (length acts) < 2 ^ 63"
    and "file_run acts (file_system_new n fd) = Inr s"
  shows "(\<forall>(f, a, res) \<in> set (fs_single s).
      reported_of a (fs_io s) = [] \<and> isl res \<or>
      (\<exists>k x y. reported_of a (fs_io s) = [(k, x, y)] \<and> res = (if x < 0 then Inl (- x) else Inr x))) \<and>
    (\<forall>(f, a, b, res) \<in> set (fs_batch s).
      (case res of Inl e \<Rightarrow> True | Inr k \<Rightarrow> k = 0 \<or> k = nblocks b \<and> mset (map fst (reported_of a (fs_io s))) = mset [0..<k]) \<and>
      (\<forall>(k, x) \<in> set (reported_of a (fs_io s)). k < length (fb_blocks b) \<and> results_of b ! k = event_result x))"
proof (rule conjI)
  have "file_ok n (512 * 0) s" using file_run_new [OF assms(1,2), of acts 0 fd] assms(3,4) by auto
  from file_okD(5) [OF this] have ok: "results_ok s" .
  show "\<forall>(f, a, res) \<in> set (fs_single s).
      reported_of a (fs_io s) = [] \<and> isl res \<or>
      (\<exists>k x y. reported_of a (fs_io s) = [(k, x, y)] \<and> res = (if x < 0 then Inl (- x) else Inr x))"
    using ok single_result_okD unfolding results_ok_def by blast
  show "\<forall>(f, a, b, res) \<in> set (fs_batch s).
      (case res of Inl e \<Rightarrow> True | Inr k \<Rightarrow> k = 0 \<or> k = nblocks b \<and> mset (map fst (reported_of a (fs_io s))) = mset [0..<k]) \<and>
      (\<forall>(k, x) \<in> set (reported_of a (fs_io s)). k < length (fb_blocks b) \<and> results_of b ! k = event_result x)"
  proof
    fix e assume e: "e \<in> set (fs_batch s)"
    obtain f a b res where "e = (f, a, b, res)" by (cases e) auto
    moreover from this e ok have "batch_result_ok (fs_io s) a b res" by (auto simp: results_ok_def)
    ultimately show "case e of (f, a, b, res) \<Rightarrow>
        (case res of Inl e \<Rightarrow> True | Inr k \<Rightarrow> k = 0 \<or> k = nblocks b \<and> mset (map fst (reported_of a (fs_io s))) = mset [0..<k]) \<and>
        (\<forall>(k, x) \<in> set (reported_of a (fs_io s)). k < length (fb_blocks b) \<and> results_of b ! k = event_result x)"
      using batch_result_okD by simp
  qed
qed

theorem file_results_witness:
  "\<exists>s b. file_run (file_example @ [Run_resumed 2]) (file_system_new 16 3) = Inr s \<and>
     fs_single s = [(1, 1, Inr 512)] \<and> fs_batch s = [(2, 2, b, Inr 2)] \<and> check_status b = Inl 5 \<and>
     mset (map fst (reported_of 2 (fs_io s))) = mset [0..<2]"
proof -
  have "run_part (\<lambda>s. (fs_single s, map (\<lambda>(f, a, b, res). (f, a, map processed (fb_blocks b), res)) (fs_batch s)))
      (file_run (file_example @ [Run_resumed 2]) (file_system_new 16 3)) =
    Some ([(1, 1, Inr 512)], [(2, 2, [512, -5], Inr 2)])" by code_simp
  then obtain s b where s: "file_run (file_example @ [Run_resumed 2]) (file_system_new 16 3) = Inr s"
    "fs_single s = [(1, 1, Inr 512)]" "fs_batch s = [(2, 2, b, Inr 2)]" and b: "map processed (fb_blocks b) = [512, -5]"
    by (auto dest!: run_partD simp: map_eq_Cons_conv)
  have "check_status b = Inl 5"
    using check_status_ok [of b] check_status_error [of b] b
    by (cases "check_status b") (auto simp: results_of_def map_eq_Cons_conv)
  have "512 * int (length (file_example @ [Run_resumed 2])) < 2 ^ 63" by (simp add: file_example_def)
  from file_results [OF pow2_16 _ this s(1)] s \<open>check_status b = Inl 5\<close> show ?thesis by auto
qed

lemma waiting_resumed:
  assumes "file_ok N (512 * j) s" "0 < N" "int N < 2 ^ 31" "pc_call (fs_pc s f) = Some (a, m, True)"
    and "length (flight_of a (fs_io s)) = j"
  shows "\<exists>evss t. file_run (map Event_loop evss) s = Inr t \<and> f \<in> set (io_ready (fs_io t)) \<and> fs_pc t = fs_pc s"
  using assms
proof (induction j arbitrary: s)
  case 0
  note calls = file_okD(1) [OF 0(1)]
  have "pending a (fs_io s) = 0" using 0 file_okD(3) [OF 0(1)] by (simp add: pending_def ring_of_def ring_idle_def)
  with calls_okD(1) [OF calls 0(4)] have "f \<notin> set (io_wait (fs_io s))" by (auto simp: call_ok_def)
  moreover have "f \<in> set (io_wait (fs_io s)) \<union> set (io_ready (fs_io s))" unfolding calls_okD(7) [OF calls] using 0(4) by auto
  ultimately show ?case by (intro exI [of _ "[]"] exI [of _ s]) simp
next
  case (Suc j)
  from Suc.prems(5) obtain k where "k \<in> set (flight_of a (fs_io s))" by (cases "flight_of a (fs_io s)") auto
  then have k: "(a, k) \<in> set (io_flight (fs_io s))" by (auto simp: flight_of_def)
  have ok: "file_ok N (512 * j + 512) s" using Suc.prems(1) by (simp add: algebra_simps)
  have cap: "rr_capacity_i (io_ring (fs_io s)) = int N"
    using file_okD(3) [OF ok] Suc.prems(2,3) unfolding ring_idle_def
    by (subst rr_capacity_i_eq) (auto simp: rr_ring_size_def)
  have kr: "kernel_reports (fs_io s) [(a, k, 0, 0)]" using k Suc.prems(2) by (simp add: kernel_reports_def cap BATCH_SIZE_def)
  from event_loop_ok [OF ok Suc.prems(2,3) kr] obtain r where r: "event_loop_turn [(a, k, 0, 0)] (fs_io s) = Inr r"
    "file_ok N (512 * j) (s\<lparr>fs_io := r\<rparr>)" "io_flight r = filter (\<lambda>e. e \<noteq> (a, k)) (io_flight (fs_io s))" by auto
  have step: "file_step (Event_loop [(a, k, 0, 0)]) s = Inr (s\<lparr>fs_io := r\<rparr>)" using kr r(1) by simp
  have "filter (\<lambda>e. e \<noteq> (a, k)) (io_flight (fs_io s)) = remove1 (a, k) (io_flight (fs_io s))"
    using file_okD(2) [OF ok] by (simp add: distinct_remove1_removeAll removeAll_filter_not_eq eq_commute)
  then have "flight_of a r = remove1 k (flight_of a (fs_io s))"
    using flight_of_remove1 [of a a k "(0, 0)" undefined undefined "fs_io s"] r(3) by (simp add: flight_of_def take_event_def)
  then have len: "length (flight_of a (fs_io (s\<lparr>fs_io := r\<rparr>))) = j"
    using Suc.prems(5) \<open>k \<in> set (flight_of a (fs_io s))\<close> by (simp add: length_remove1)
  have "pc_call (fs_pc (s\<lparr>fs_io := r\<rparr>) f) = Some (a, m, True)" using Suc.prems(4) by simp
  from Suc.IH [OF r(2) Suc.prems(2,3) this len] obtain evss t where
    t: "file_run (map Event_loop evss) (s\<lparr>fs_io := r\<rparr>) = Inr t" "f \<in> set (io_ready (fs_io t))" "fs_pc t = fs_pc s" by auto
  then have "file_run (map Event_loop ([(a, k, 0, 0)] # evss)) s = Inr t" using step by (simp del: file_step.simps)
  with t(2,3) show ?case by blast
qed

text \<open>No action but the one that runs a resumed fiber changes the place of a fiber that waits.\<close>

lemma leave_pc: "g \<noteq> f \<Longrightarrow> fs_pc (return_single f a res s) g = fs_pc s g"
  "g \<noteq> f \<Longrightarrow> fs_pc (return_batch f a b ret s) g = fs_pc s g"
  by (simp_all add: return_single_def return_batch_def frame_leave_def)

lemma step_pc_other:
  assumes "file_step act s = Inr t" "pc_call (fs_pc s g) = Some (a, m, True)" "act \<noteq> Run_resumed g"
  shows "fs_pc t g = fs_pc s g"
proof (cases act)
  case (Call_read f fd buffer off sz)
  with assms show ?thesis by (auto simp: File_read_def process_single_io_def frame_enter_def split: if_splits)
next
  case (Call_write f fd buffer off sz)
  with assms show ?thesis by (auto simp: File_write_def process_single_io_def frame_enter_def split: if_splits)
next
  case (Call_batch f fd b)
  show ?thesis
  proof (cases "g = f")
    case False
    with assms Call_batch show ?thesis
      by (auto simp: process_batch_def batch_loop_def frame_enter_def leave_pc split: if_splits option.splits io_message.splits)
  qed (use assms Call_batch in \<open>auto split: if_splits\<close>)
next
  case (Io_submit f res errno)
  with assms have "g \<noteq> f \<or> t = s" by (cases "fs_pc s f") auto
  with assms Io_submit show ?thesis
    by (auto simp: single_submit_def batch_submit_def Let_def leave_pc
        split: file_pc.splits if_splits option.splits io_message.splits prod.splits)
next
  case (Event_loop evs)
  with assms show ?thesis by (auto split: if_splits sum.splits simp: map_sum_def)
next
  case (Run_resumed f)
  with assms show ?thesis
    by (auto simp: Let_def single_resumed_def batch_loop_def leave_pc
        split: file_pc.splits if_splits option.splits io_message.splits)
qed

lemma run_pc_other:
  assumes "file_run acts s = Inr t" "pc_call (fs_pc s g) = Some (a, m, True)" "Run_resumed g \<notin> set acts"
  shows "fs_pc t g = fs_pc s g"
  using assms
proof (induction acts arbitrary: s)
  case (Cons act acts)
  from Cons.prems(1) obtain u where u: "file_step act s = Inr u" "file_run acts u = Inr t" by (auto split: sum.splits)
  with step_pc_other [OF u(1) Cons.prems(2)] Cons.prems(3) have "fs_pc u g = fs_pc s g" by auto
  with Cons.IH [OF u(2)] Cons.prems(2,3) show ?case by simp
qed simp

lemma file_run_append: "file_run (xs @ ys) s = (case file_run xs s of Inl e \<Rightarrow> Inl e | Inr t \<Rightarrow> file_run ys t)"
  by (induction xs arbitrary: s) (auto split: sum.splits)

text \<open>Between two turns of the event loop a fiber waits exactly while the kernel has a block of its call.\<close>

lemma waiting_iff:
  assumes ok: "file_ok N L s" and c: "pc_call (fs_pc s f) = Some (a, m, True)"
  shows "f \<in> set (io_wait (fs_io s)) \<longleftrightarrow> (\<exists>k. (a, k) \<in> set (io_flight (fs_io s)))"
    "f \<in> set (io_wait (fs_io s)) \<or> f \<in> set (io_ready (fs_io s))"
proof -
  note calls = file_okD(1) [OF ok]
  have "pending a (fs_io s) = length (flight_of a (fs_io s))"
    using file_okD(3) [OF ok] by (simp add: pending_def ring_of_def ring_idle_def)
  then have "0 < pending a (fs_io s) \<longleftrightarrow> (\<exists>k. k \<in> set (flight_of a (fs_io s)))" by (auto simp: in_set_conv_nth)
  also have "\<dots> \<longleftrightarrow> (\<exists>k. (a, k) \<in> set (io_flight (fs_io s)))" by (force simp: flight_of_def)
  finally show "f \<in> set (io_wait (fs_io s)) \<longleftrightarrow> (\<exists>k. (a, k) \<in> set (io_flight (fs_io s)))"
    using calls_okD(1) [OF calls c] by (auto simp: call_ok_def)
  have "f \<in> set (io_wait (fs_io s)) \<union> set (io_ready (fs_io s))" unfolding calls_okD(7) [OF calls] using c by auto
  then show "f \<in> set (io_wait (fs_io s)) \<or> f \<in> set (io_ready (fs_io s))" by blast
qed

text \<open>C8: no fiber that waits for a file is forgotten. A fiber in the wait-queue of a reachable state waits in one call,
  of which the kernel has blocks. Whatever happens next, in whatever order and with whatever results the kernel
  reports: as long as the fiber itself does not run, it stays where it is in that call, and it is still in the
  wait-queue exactly while the kernel has a block of the call; as soon as the last one has been reported, the turn of
  the event loop that took the report has resumed it. And the kernel can always report them.\<close>

theorem waiting_call_resumed:
  assumes "pow2 (int n)" "int n < 2 ^ 31" "file_run acts (file_system_new n fd) = Inr s"
    and "512 * int (length acts + length (io_flight (fs_io s))) < 2 ^ 63" "f \<in> set (io_wait (fs_io s))"
  shows "\<exists>a m. pc_call (fs_pc s f) = Some (a, m, True) \<and> (\<exists>k. (a, k) \<in> set (io_flight (fs_io s))) \<and>
    (\<forall>acts' t. file_run acts' s = Inr t \<and> Run_resumed f \<notin> set acts' \<and> 512 * int (length acts + length acts') < 2 ^ 63 \<longrightarrow>
       fs_pc t f = fs_pc s f \<and>
       (if \<exists>k. (a, k) \<in> set (io_flight (fs_io t)) then f \<in> set (io_wait (fs_io t)) \<and> f \<notin> set (io_ready (fs_io t))
        else f \<in> set (io_ready (fs_io t)) \<and> f \<notin> set (io_wait (fs_io t)))) \<and>
    (\<exists>evss t. file_run (map Event_loop evss) s = Inr t \<and> f \<in> set (io_ready (fs_io t)) \<and> fs_pc t = fs_pc s)"
proof -
  have ok: "file_ok n (512 * length (io_flight (fs_io s))) s"
    using file_run_new [OF assms(1,2,4), of fd] assms(3) by auto
  have "f \<in> set (io_wait (fs_io s)) \<union> set (io_ready (fs_io s))" using assms(5) by simp
  then obtain a m where c: "pc_call (fs_pc s f) = Some (a, m, True)" unfolding calls_okD(7) [OF file_okD(1) [OF ok]] by auto
  have "fs_pc t f = fs_pc s f \<and>
       (if \<exists>k. (a, k) \<in> set (io_flight (fs_io t)) then f \<in> set (io_wait (fs_io t)) \<and> f \<notin> set (io_ready (fs_io t))
        else f \<in> set (io_ready (fs_io t)) \<and> f \<notin> set (io_wait (fs_io t)))"
    if t: "file_run acts' s = Inr t" "Run_resumed f \<notin> set acts'" "512 * int (length acts + length acts') < 2 ^ 63" for acts' t
  proof -
    have pc: "fs_pc t f = fs_pc s f" using run_pc_other [OF t(1) c t(2)] .
    have "file_run (acts @ acts') (file_system_new n fd) = Inr t" using assms(3) t(1) by (simp add: file_run_append)
    with file_run_new [OF assms(1,2), of "acts @ acts'" 0 fd] t(3) have okt: "file_ok n (512 * 0) t" by auto
    have "pc_call (fs_pc t f) = Some (a, m, True)" using c pc by simp
    with waiting_iff [OF okt this] calls_okD(6) [OF file_okD(1) [OF okt]] pc show ?thesis by auto
  qed
  moreover have "length (flight_of a (fs_io s)) \<le> length (io_flight (fs_io s))" by (simp add: flight_of_def)
  then have "file_ok n (512 * length (flight_of a (fs_io s))) s" by (intro file_ok_mono [OF ok]) simp
  from waiting_resumed [OF this _ assms(2) c refl] pow2_pos [OF assms(1)]
  have "\<exists>evss t. file_run (map Event_loop evss) s = Inr t \<and> f \<in> set (io_ready (fs_io t)) \<and> fs_pc t = fs_pc s" by simp
  ultimately show ?thesis using c waiting_iff(1) [OF ok c] assms(5) by blast
qed

text \<open>In the example both fibers wait; once the first turn has taken both reports, both are resumed.\<close>

theorem waiting_call_resumed_witness:
  "\<exists>s t. file_run (take 5 file_example) (file_system_new 16 3) = Inr s \<and> 2 \<in> set (io_wait (fs_io s)) \<and>
     file_run [Event_loop [(2, 0, 512, 0), (1, 0, 512, 0)]] s = Inr t \<and> 2 \<in> set (io_ready (fs_io t))"
proof -
  let ?acts = "[Event_loop [(2, 0, 512, 0), (1, 0, 512, 0)]]"
  have "run_part (\<lambda>s. (io_flight (fs_io s), io_wait (fs_io s))) (file_run (take 5 file_example) (file_system_new 16 3)) =
    Some ([(2, 0), (1, 0)], [2, 1])"
    and "run_part (\<lambda>s. io_flight (fs_io s)) (file_run (take 5 file_example @ ?acts) (file_system_new 16 3)) = Some []"
    by code_simp+
  then obtain s t where s: "file_run (take 5 file_example) (file_system_new 16 3) = Inr s"
    "io_flight (fs_io s) = [(2, 0), (1, 0)]" "io_wait (fs_io s) = [2, 1]"
    and t: "file_run ?acts s = Inr t" "io_flight (fs_io t) = []"
    by (auto dest!: run_partD simp: file_run_append simp del: file_run.simps file_step.simps)
  have pre: "512 * int (length (take 5 file_example) + length (io_flight (fs_io s))) < 2 ^ 63" "2 \<in> set (io_wait (fs_io s))"
    by (simp_all add: s file_example_def)
  have "Run_resumed 2 \<notin> set ?acts" "512 * int (length (take 5 file_example) + length ?acts) < 2 ^ 63"
    by (simp_all add: file_example_def)
  with waiting_call_resumed [OF pow2_16 _ s(1) pre] t s(1) pre(2) show ?thesis by fastforce
qed

end
