(* ===== verification/Linux_Socket.thy ===== *)
theory Linux_Socket
  imports Linux_Poller "HOL-Library.Word"
begin

text \<open>
  Sockets on Linux: \<open>IPAddress\<close> (\<open>reactor/linux/ip_address.cpp\<close>), connections and server sockets
  (\<open>reactor/linux/socket_impl.cpp\<close>). The results of the system calls are arguments; the epoll set is part of the
  state, with what its documentation says of adding a descriptor twice.
\<close>

unbundle bit_operations_syntax

subsection \<open>Addresses\<close>

text \<open>\<open>boost::variant<in_addr, in6_addr>\<close>. \<open>boost::get\<close> of the alternative that is not there throws
  \<open>bad_get\<close>. A default-constructed variant holds the first alternative.\<close>

datatype ip_address = In_addr "32 word" | In6_addr "8 word list"

datatype ip_error = Bad_get | Conversion_failed

definition get_in_addr :: "ip_address \<Rightarrow> ip_error + 32 word" where
  "get_in_addr a = (case a of In_addr x \<Rightarrow> Inr x | In6_addr y \<Rightarrow> Inl Bad_get)"

definition get_in6_addr :: "ip_address \<Rightarrow> ip_error + 8 word list" where
  "get_in6_addr a = (case a of In_addr x \<Rightarrow> Inl Bad_get | In6_addr y \<Rightarrow> Inr y)"

definition address_init :: ip_address where
  "address_init = In_addr 0"

text \<open>An assignment through the reference that \<open>boost::get\<close> returns.\<close>

definition set_in_addr :: "32 word \<Rightarrow> ip_address \<Rightarrow> ip_error + ip_address" where
  "set_in_addr x a = (case get_in_addr a of Inl e \<Rightarrow> Inl e | Inr y \<Rightarrow> Inr (In_addr x))"

definition set_in6_addr :: "8 word list \<Rightarrow> ip_address \<Rightarrow> ip_error + ip_address" where
  "set_in6_addr x a = (case get_in6_addr a of Inl e \<Rightarrow> Inl e | Inr y \<Rightarrow> Inr (In6_addr x))"

definition INADDR_ANY :: "32 word" where
  "INADDR_ANY = 0"

definition IPAddress_default :: "ip_error + ip_address" where
  "IPAddress_default =
     (case set_in_addr 0 address_init of Inl e \<Rightarrow> Inl e | Inr a \<Rightarrow> set_in_addr INADDR_ANY a)"

text \<open>From a text: \<open>inet_pton\<close> writes the address, or leaves it alone when it fails, which the
  constructor does not notice.\<close>

definition IPAddress_string ::
  "(string \<Rightarrow> 32 word option) \<Rightarrow> (string \<Rightarrow> 8 word list option) \<Rightarrow> string \<Rightarrow> bool \<Rightarrow> ip_error + ip_address" where
  "IPAddress_string inet_pton4 inet_pton6 addr v4 =
     (if v4
      then (case get_in_addr address_init of
              Inl e \<Rightarrow> Inl e
            | Inr old \<Rightarrow> set_in_addr (case inet_pton4 addr of None \<Rightarrow> old | Some x \<Rightarrow> x) address_init)
      else (case get_in6_addr address_init of
              Inl e \<Rightarrow> Inl e
            | Inr old \<Rightarrow> set_in6_addr (case inet_pton6 addr of None \<Rightarrow> old | Some x \<Rightarrow> x) address_init))"

text \<open>From four octets, the most significant first; \<open>htonl\<close> is the system's. From an array, whose first octet
  is stored in the lowest byte.\<close>

definition IPAddress_octets ::
  "(32 word \<Rightarrow> 32 word) \<Rightarrow> 8 word \<Rightarrow> 8 word \<Rightarrow> 8 word \<Rightarrow> 8 word \<Rightarrow> ip_error + ip_address" where
  "IPAddress_octets htonl oct3 oct2 oct1 oct0 =
     (let value = push_bit 24 (ucast oct3) OR push_bit 16 (ucast oct2) OR push_bit 8 (ucast oct1) OR ucast oct0 in
      set_in_addr (htonl value) address_init)"

definition IPAddress_array :: "8 word list \<Rightarrow> bool \<Rightarrow> ip_error + ip_address" where
  "IPAddress_array octets v4 =
     (if v4
      then set_in_addr (fold (\<lambda>c s_addr. s_addr OR push_bit (c * 8) (ucast (octets ! c))) [0..<4] 0) address_init
      else set_in6_addr (map (\<lambda>c. octets ! c) [0..<16]) address_init)"

definition is_v4 :: "ip_address \<Rightarrow> bool" where
  "is_v4 a = (case a of In_addr x \<Rightarrow> True | In6_addr y \<Rightarrow> False)"

definition IPAddress_to_string ::
  "(32 word \<Rightarrow> string option) \<Rightarrow> (8 word list \<Rightarrow> string option) \<Rightarrow> ip_address \<Rightarrow> ip_error + string" where
  "IPAddress_to_string inet_ntop4 inet_ntop6 a =
     (if is_v4 a
      then (case get_in_addr a of Inl e \<Rightarrow> Inl e | Inr x \<Rightarrow>
              (case inet_ntop4 x of Some str \<Rightarrow> Inr str | None \<Rightarrow> Inl Conversion_failed))
      else (case get_in6_addr a of Inl e \<Rightarrow> Inl e | Inr y \<Rightarrow>
              (case inet_ntop6 y of Some str \<Rightarrow> Inr str | None \<Rightarrow> Inl Conversion_failed)))"

text \<open>The bytes of a word in the memory of a little-endian machine.\<close>

definition le_bytes :: "32 word \<Rightarrow> 8 word list" where
  "le_bytes w = [ucast w, ucast (drop_bit 8 w), ucast (drop_bit 16 w), ucast (drop_bit 24 w)]"

definition of_le_bytes :: "8 word \<Rightarrow> 8 word \<Rightarrow> 8 word \<Rightarrow> 8 word \<Rightarrow> 32 word" where
  "of_le_bytes a b c d = ucast a OR push_bit 8 (ucast b) OR push_bit 16 (ucast c) OR push_bit 24 (ucast d)"

lemma byte_high_bits: "8 \<le> m \<Longrightarrow> \<not> bit (x :: 8 word) (m + n)"
  using bit_imp_le_length [of x "m + n"] by auto

lemma le_bytes_of: "le_bytes (of_le_bytes a b c d) = [a, b, c, d]"
  unfolding le_bytes_def of_le_bytes_def
  by (auto intro!: bit_word_eqI simp: bit_simps byte_high_bits)

lemma of_le_bytes_le: "of_le_bytes (ucast w) (ucast (drop_bit 8 w)) (ucast (drop_bit 16 w)) (ucast (drop_bit 24 w)) = w"
proof (rule bit_word_eqI)
  fix n assume "n < LENGTH(32)"
  then consider "n < 8" | "8 \<le> n" "n < 16" | "16 \<le> n" "n < 24" | "24 \<le> n" "n < 32" by fastforce
  then show "bit (of_le_bytes (ucast w) (ucast (drop_bit 8 w)) (ucast (drop_bit 16 w)) (ucast (drop_bit 24 w))) n = bit w n"
    by cases (auto simp: of_le_bytes_def bit_simps)
qed

lemma le_bytes_inj:
  assumes "le_bytes v = le_bytes w"
  shows "v = w"
proof -
  have "of_le_bytes (ucast v) (ucast (drop_bit 8 v)) (ucast (drop_bit 16 v)) (ucast (drop_bit 24 v)) =
    of_le_bytes (ucast w) (ucast (drop_bit 8 w)) (ucast (drop_bit 16 w)) (ucast (drop_bit 24 w))"
    using assms by (simp only: le_bytes_def list.inject)
  then show ?thesis by (simp only: of_le_bytes_le)
qed

text \<open>C10: the two ways to give the octets of an address agree, and the address has them in memory in the order in which
  they are written, if \<open>htonl\<close> stores a number with its most significant byte first.\<close>

theorem IPAddress_octets_array:
  assumes "\<And>v. le_bytes (htonl v) = rev (le_bytes v)"
  shows "IPAddress_octets htonl a b c d = IPAddress_array [a, b, c, d] True \<and>
    (\<exists>x. IPAddress_octets htonl a b c d = Inr (In_addr x) \<and> le_bytes x = [a, b, c, d])"
proof (rule conjI)
  let ?v = "push_bit 24 (ucast a) OR push_bit 16 (ucast b) OR push_bit 8 (ucast c) OR ucast d :: 32 word"
  have v: "?v = of_le_bytes d c b a" by (simp add: of_le_bytes_def or.assoc or.commute or.left_commute)
  have bytes: "le_bytes (htonl ?v) = [a, b, c, d]" by (simp add: assms v le_bytes_of)
  have arr: "fold (\<lambda>k s_addr. s_addr OR push_bit (k * 8) (ucast ([a, b, c, d] ! k))) [0..<4] 0 = of_le_bytes a b c d"
    by (simp add: of_le_bytes_def upt_conv_Cons eval_nat_numeral or.assoc)
  have "htonl ?v = of_le_bytes a b c d" by (rule le_bytes_inj) (simp add: bytes le_bytes_of)
  with arr show "IPAddress_octets htonl a b c d = IPAddress_array [a, b, c, d] True"
    by (simp add: IPAddress_octets_def IPAddress_array_def)
  show "\<exists>x. IPAddress_octets htonl a b c d = Inr (In_addr x) \<and> le_bytes x = [a, b, c, d]"
    using bytes by (auto simp: IPAddress_octets_def set_in_addr_def get_in_addr_def address_init_def Let_def)
qed

definition swap_bytes :: "32 word \<Rightarrow> 32 word" where
  "swap_bytes w = of_le_bytes (ucast (drop_bit 24 w)) (ucast (drop_bit 16 w)) (ucast (drop_bit 8 w)) (ucast w)"

theorem IPAddress_octets_array_witness:
  "IPAddress_octets swap_bytes 127 0 0 1 = IPAddress_array [127, 0, 0, 1] True"
  by (rule IPAddress_octets_array [THEN conjunct1]) (simp only: swap_bytes_def le_bytes_of, simp add: le_bytes_def)

text \<open>No constructor makes an IPv6 address: the variant holds the other alternative when it is filled.\<close>

lemma IPAddress_always_v4:
  assumes "r = IPAddress_default \<or> r = IPAddress_string p4 p6 str v4 \<or> r = IPAddress_octets htonl a b c d \<or>
    r = IPAddress_array os v4"
  shows "(case r of Inl e \<Rightarrow> e = Bad_get \<and> \<not> v4 | Inr x \<Rightarrow> is_v4 x)"
  using assms
  by (auto simp: IPAddress_default_def IPAddress_string_def IPAddress_octets_def IPAddress_array_def set_in_addr_def
      set_in6_addr_def get_in_addr_def get_in6_addr_def address_init_def is_v4_def Let_def)

subsection \<open>Connections\<close>

text \<open>On Linux \<open>EAGAIN\<close> and \<open>EWOULDBLOCK\<close> are the same number.\<close>

definition EAGAIN :: int where "EAGAIN = 11"

definition EWOULDBLOCK :: int where "EWOULDBLOCK = 11"

definition EEXIST :: int where "EEXIST = 17"

text \<open>The descriptors in the epoll set with their \<open>data.ptr\<close>, the messages' next address and the descriptors
  that have been closed.\<close>

record sockets =
  sk_io :: io_reactor
  sk_epoll :: "int \<Rightarrow> nat option"
  sk_next :: nat
  sk_closed :: "int list"

text \<open>\<open>epoll_ctl\<close>: it can fail for reasons of the system, and fails for a descriptor it has.\<close>

definition epoll_add :: "int option \<Rightarrow> int \<Rightarrow> nat \<Rightarrow> sockets \<Rightarrow> int + sockets" where
  "epoll_add failure fd a s =
     (case failure of
        Some e \<Rightarrow> Inl e
      | None \<Rightarrow> if sk_epoll s fd \<noteq> None then Inl EEXIST else Inr (s\<lparr>sk_epoll := (sk_epoll s)(fd \<mapsto> a)\<rparr>))"

definition epoll_del :: "int \<Rightarrow> sockets \<Rightarrow> sockets" where
  "epoll_del fd s = s\<lparr>sk_epoll := (sk_epoll s)(fd := None)\<rparr>"

definition new_message :: "nat \<Rightarrow> sockets \<Rightarrow> nat \<times> sockets" where
  "new_message f s = (sk_next s, s\<lparr>sk_io := (sk_io s)\<lparr>io_messages := (io_messages (sk_io s))(sk_next s \<mapsto> FiberIOMessage_new f 1)\<rparr>,
     sk_next := Suc (sk_next s)\<rparr>)"

definition delete_message :: "nat \<Rightarrow> sockets \<Rightarrow> sockets" where
  "delete_message a s = s\<lparr>sk_io := (sk_io s)\<lparr>io_messages := (io_messages (sk_io s))(a := None)\<rparr>\<rparr>"

definition close_fd :: "int \<Rightarrow> sockets \<Rightarrow> sockets" where
  "close_fd fd s = s\<lparr>sk_closed := fd # sk_closed s\<rparr>"

record StreamSocketConnection =
  connection_fd :: int
  connection_message :: nat

definition StreamSocketConnection_new ::
  "nat \<Rightarrow> int \<Rightarrow> int option \<Rightarrow> sockets \<Rightarrow> (int + StreamSocketConnection) \<times> sockets" where
  "StreamSocketConnection_new f fd failure s =
     (case new_message f s of (a, s) \<Rightarrow>
        (case epoll_add failure fd a s of
           Inl e \<Rightarrow> (Inl e, delete_message a (close_fd fd s))
         | Inr s \<Rightarrow> (Inr \<lparr>connection_fd = fd, connection_message = a\<rparr>, s)))"

definition StreamSocketConnection_delete :: "StreamSocketConnection \<Rightarrow> sockets \<Rightarrow> sockets" where
  "StreamSocketConnection_delete c s =
     delete_message (connection_message c) (close_fd (connection_fd c) (epoll_del (connection_fd c) s))"

text \<open>What \<open>read\<close> and \<open>write\<close> of the system return: a number of bytes, or \<open>-1\<close> and an error. The
  loops run over the results they see; \<open>None\<close> when they still wait at the end of the list. The data are what
  is in the caller's buffer, and what the peer has received.\<close>

fun connection_read :: "(int + 8 word list) list \<Rightarrow> (int + 8 word list) option" where
  "connection_read [] = None"
| "connection_read (r # rs) =
     (let result = (case r of Inl e \<Rightarrow> -1 | Inr bs \<Rightarrow> int (length bs)) in
      if result = EAGAIN \<or> result = EWOULDBLOCK then connection_read rs
      else if result \<ge> 0 then Some r
      else Some r)"

fun connection_write :: "8 word list \<Rightarrow> (int + nat) list \<Rightarrow> 8 word list \<times> (int + nat) option" where
  "connection_write data [] = ([], None)"
| "connection_write data (r # rs) =
     (let result = (case r of Inl e \<Rightarrow> -1 | Inr n \<Rightarrow> int n);
          sent = (case r of Inl e \<Rightarrow> [] | Inr n \<Rightarrow> take n data) in
      if result = EAGAIN \<or> result = EWOULDBLOCK
      then (case connection_write data rs of (more_sent, res) \<Rightarrow> (sent @ more_sent, res))
      else if result \<ge> 0 then (sent, Some r)
      else (sent, Some r))"

subsection \<open>Server sockets\<close>

record StreamServerSocket =
  ss_address :: ip_address
  ss_port :: nat
  ss_fd :: int

text \<open>The constructor: \<open>None\<close> when its assertion fails; what \<open>socket\<close> and \<open>bind\<close> return, with
  their errors.\<close>

definition StreamServerSocket_new ::
  "ip_address \<Rightarrow> nat \<Rightarrow> int + int \<Rightarrow> (32 word \<Rightarrow> nat \<Rightarrow> int option) \<Rightarrow> sockets \<Rightarrow> ((int + StreamServerSocket) \<times> sockets) option" where
  "StreamServerSocket_new address port socket_result bind_result s =
     (if \<not> is_v4 address then None
      else Some (case socket_result of
        Inl e \<Rightarrow> (Inl e, s)
      | Inr fd \<Rightarrow>
          (case get_in_addr address of
             Inl e \<Rightarrow> (Inl 0, s)
           | Inr addr \<Rightarrow>
               (case bind_result addr port of
                  Some e \<Rightarrow> (Inl e, close_fd fd s)
                | None \<Rightarrow> (Inr \<lparr>ss_address = address, ss_port = port, ss_fd = fd\<rparr>, s)))))"

definition StreamServerSocket_delete :: "StreamServerSocket \<Rightarrow> sockets \<Rightarrow> sockets" where
  "StreamServerSocket_delete q s = close_fd (ss_fd q) (epoll_del (ss_fd q) s)"

definition StreamServerSocket_listen :: "int option \<Rightarrow> int + unit" where
  "StreamServerSocket_listen res = (case res of Some e \<Rightarrow> Inl e | None \<Rightarrow> Inr ())"

text \<open>\<open>accept\<close>: a turn of its loop ends with a connection, an exception or a wait with a message in the frame; and
  what it does when it is resumed, the end of the message's block.\<close>

datatype accept_end = Accept_returns StreamSocketConnection | Accept_throws int | Accept_waits nat

definition accept_turn :: "nat \<Rightarrow> int \<Rightarrow> int + int \<Rightarrow> int option \<Rightarrow> sockets \<Rightarrow> accept_end \<times> sockets" where
  "accept_turn f socket_fd res failure s =
     (case res of
        Inr fd \<Rightarrow>
          (case StreamSocketConnection_new f fd failure s of
             (Inl e, s) \<Rightarrow> (Accept_throws e, s)
           | (Inr c, s) \<Rightarrow> (Accept_returns c, s))
      | Inl errno \<Rightarrow>
          if errno = EAGAIN \<or> errno = EWOULDBLOCK
          then (case new_message f s of (a, s) \<Rightarrow>
            (case epoll_add failure socket_fd a s of
               Inl e \<Rightarrow> (Accept_throws e, delete_message a s)
             | Inr s \<Rightarrow> (Accept_waits a, s\<lparr>sk_io := io_wait_for f (sk_io s)\<rparr>)))
          else (Accept_throws errno, s))"

definition accept_resumed :: "nat \<Rightarrow> sockets \<Rightarrow> sockets" where
  "accept_resumed a s = delete_message a s"

text \<open>A turn of the event loop in which epoll reports a descriptor of its set.\<close>

definition descriptor_ready :: "int \<Rightarrow> sockets \<Rightarrow> io_fault + sockets" where
  "descriptor_ready fd s =
     (case sk_epoll s fd of
        None \<Rightarrow> Inr s
      | Some a \<Rightarrow>
          (case IOPoller_poll (\<lambda>n. Some [Epoll_message a]) (\<lambda>n. Some []) (sk_io s) of
             Inl e \<Rightarrow> Inl e
           | Inr r \<Rightarrow> map_sum id (\<lambda>r. s\<lparr>sk_io := r\<rparr>) (drain_ring r)))"

subsection \<open>What the loops do\<close>

text \<open>The code compares the number of bytes with \<open>EAGAIN\<close>, and not \<open>errno\<close>.\<close>

definition eleven_bytes :: "int + 'a list \<Rightarrow> bool" where
  "eleven_bytes r = (case r of Inl e \<Rightarrow> False | Inr bs \<Rightarrow> length bs = 11)"

lemma connection_read_eq:
  "connection_read rs = (case dropWhile eleven_bytes rs of [] \<Rightarrow> None | r # _ \<Rightarrow> Some r)"
  by (induction rs) (auto simp: EAGAIN_def EWOULDBLOCK_def eleven_bytes_def Let_def split: sum.splits)

text \<open>What a read of a connection returns. Data are returned as they come and errors are thrown, with two exceptions:
  a read of eleven bytes, the number of \<open>EAGAIN\<close>, is taken for a read that would block: its data are
  lost and the fiber waits; and a read that would block throws.\<close>

theorem connection_read_result:
  shows "\<forall>r \<in> set rs. eleven_bytes r \<Longrightarrow> connection_read (rs @ Inr bs # rs') = (if length bs = 11 then connection_read rs' else Some (Inr bs))"
    and "\<forall>r \<in> set rs. eleven_bytes r \<Longrightarrow> connection_read (rs @ Inl EAGAIN # rs') = Some (Inl EAGAIN)"
  by (simp_all add: connection_read_eq eleven_bytes_def)

text \<open>The first message is lost; then a read that would block throws.\<close>

theorem connection_read_result_witness:
  "connection_read [Inr (replicate 11 65), Inr [66, 67]] = Some (Inr [66, 67]) \<and>
   connection_read [Inr (replicate 11 65), Inl EAGAIN] = Some (Inl EAGAIN)"
  using connection_read_result(1) [of "[Inr (replicate 11 65)]" "[66, 67]" "[]"]
    connection_read_result(2) [of "[Inr (replicate 11 65)]" "[]"] by (simp add: eleven_bytes_def)

text \<open>A write of eleven bytes is repeated, and the peer gets the data twice.\<close>

lemma connection_write_repeats:
  "r = Inr n \<Longrightarrow> n \<noteq> 11 \<Longrightarrow> connection_write data (replicate k (Inr 11) @ [r]) =
    (concat (replicate k (take 11 data)) @ take n data, Some r)"
  by (induction k) (simp_all add: EAGAIN_def EWOULDBLOCK_def)

subsection \<open>The messages of sockets\<close>

lemma one_event:
  assumes "rr_inv (io_ring r)" "rr_contents (io_ring r) = []" "0 < length (rr_buffer (io_ring r))"
    "rr_ring_size (io_ring r) < 2 ^ 31" "0 < rr_life (io_ring r)"
  obtains q where "rr_inv q" "rr_contents q = []" "length (rr_buffer q) = length (rr_buffer (io_ring r))"
    "rr_life (io_ring r) \<le> Suc (rr_life q)"
    "(case IOPoller_poll (\<lambda>n. Some [Epoll_message a]) (\<lambda>n. Some []) r of Inl e \<Rightarrow> Inl e | Inr r \<Rightarrow> drain_ring r)
       = io_process_fn a (r\<lparr>io_ring := q\<rparr>)"
proof -
  have cap: "0 < rr_capacity_i (io_ring r)" using assms by (simp add: rr_capacity_i_eq)
  have "ring_fits r (Suc 0)" using assms by (simp add: ring_fits_def Suc_le_eq)
  then obtain p where p: "io_push a r = Inr (r\<lparr>io_ring := p\<rparr>)" "ring_fits (r\<lparr>io_ring := p\<rparr>) 0" "rr_contents p = [a]"
    "length (rr_buffer p) = length (rr_buffer (io_ring r))" "rr_life (io_ring r) \<le> Suc (rr_life p)"
    by (rule io_push_fits) (use assms(2) in simp)
  have inv: "rr_inv p" using p(2) by (simp add: ring_fits_def)
  have "rr_pop_back p \<noteq> None" using rr.pop_None [OF inv] p(3) by simp
  then obtain b q where q: "rr_pop_back p = Some (b, q)" by auto
  from rr.pop_Some [OF inv q] p(3) have q': "b = a" "rr_inv q" "rr_contents q = []"
    "length (rr_buffer q) = length (rr_buffer p)" "rr_life p \<le> rr_life q" by auto
  have av: "rr_available p = 1" using inv p(3) rr_length_contents [of p] by (simp add: rr_available_eq rr_inv_def)
  have poll: "IOPoller_poll (\<lambda>n. Some [Epoll_message a]) (\<lambda>n. Some []) r = Inr (r\<lparr>io_ring := p\<rparr>)"
    using cap p(1) by (simp add: IOPoller_poll_def)
  have "drain_ring (r\<lparr>io_ring := p\<rparr>) = io_process_fn a (r\<lparr>io_ring := q\<rparr>)"
    using q q'(1) by (simp add: drain_ring_def av numeral_eq_Suc split: sum.splits)
  with poll that [of q] q' p(4,5) show thesis by simp
qed

lemma finish_counts:
  "k < 2 ^ 64 \<Longrightarrow> ((\<lambda>m. fst (io_finish m)) ^^ k) (FiberIOMessage_new f 1) = FiberIOMessage f True (u64 (1 - int k))"
proof (induction k)
  case (Suc k)
  then show ?case by (simp add: u64_def mod_diff_left_eq algebra_simps)
qed (simp add: FiberIOMessage_new_def)

text \<open>The message of a connection resumes its fiber once: the counter then wraps around, and \<open>finish\<close> does not find it
  zero again for the next \<open>2 ^ 64 - 1\<close> events.\<close>

lemma connection_resumes_once:
  assumes "0 < k" "k < 2 ^ 64 "
  shows "snd (io_finish (FiberIOMessage_new f 1)) = Some f"
    and "snd (io_finish (((\<lambda>m. fst (io_finish m)) ^^ k) (FiberIOMessage_new f 1))) = None"
proof -
  show "snd (io_finish (FiberIOMessage_new f 1)) = Some f" by (simp add: FiberIOMessage_new_def)
  have "(1 - int k) - 1 = - int k" by simp
  then have "u64 (u64 (1 - int k) - 1) = u64 (- int k)" by (simp add: u64_def mod_diff_left_eq)
  moreover have "(- int k) mod 2 ^ 64 \<noteq> 0"
  proof
    assume "(- int k) mod 2 ^ 64 = 0"
    then have "2 ^ 64 dvd int k" by (simp only: mod_eq_0_iff_dvd dvd_minus_iff)
    from zdvd_imp_le [OF this] assms show False by simp
  qed
  ultimately show "snd (io_finish (((\<lambda>m. fst (io_finish m)) ^^ k) (FiberIOMessage_new f 1))) = None"
    unfolding finish_counts [OF assms(2)] by (simp add: u64_def)
qed

definition socket_ready_ring :: "sockets \<Rightarrow> bool" where
  "socket_ready_ring s \<longleftrightarrow> rr_inv (io_ring (sk_io s)) \<and> rr_contents (io_ring (sk_io s)) = [] \<and>
     0 < length (rr_buffer (io_ring (sk_io s))) \<and> rr_ring_size (io_ring (sk_io s)) < 2 ^ 31 \<and> 2 \<le> rr_life (io_ring (sk_io s))"

text \<open>\<open>accept\<close> can wait once per socket. The first wait works: when epoll reports the socket, the
  fiber is resumed. But the descriptor stays in the epoll set, with the address of the message in the frame of the wait that has
  ended. The next wait, in this call or a later one, finds it there: \<open>epoll_ctl\<close> fails with \<open>EEXIST\<close> and \<open>accept\<close>
  throws; and the next time the socket is ready the event loop follows the dangling pointer.\<close>

theorem accept_waits_once:
  assumes "socket_ready_ring s" "sk_epoll s fd = None" "f \<notin> set (io_wait (sk_io s))"
  obtains a s1 s2 where "accept_turn f fd (Inl EAGAIN) None s = (Accept_waits a, s1)" "f \<in> set (io_wait (sk_io s1))"
    "descriptor_ready fd s1 = Inr s2" "f \<in> set (io_ready (sk_io s2))" "f \<notin> set (io_wait (sk_io s2))"
    "fst (accept_turn f fd (Inl EAGAIN) None (accept_resumed a s2)) = Accept_throws EEXIST"
    "descriptor_ready fd (accept_resumed a s2) = Inl Io_freed"
proof -
  let ?a = "sk_next s"
  let ?r1 = "(sk_io s)\<lparr>io_messages := (io_messages (sk_io s))(?a \<mapsto> FiberIOMessage_new f 1), io_wait := io_wait (sk_io s) @ [f]\<rparr>"
  let ?s1 = "s\<lparr>sk_next := Suc ?a, sk_epoll := (sk_epoll s)(fd \<mapsto> ?a), sk_io := ?r1\<rparr>"
  have t1: "accept_turn f fd (Inl EAGAIN) None s = (Accept_waits ?a, ?s1)"
    using assms(2) by (simp add: accept_turn_def new_message_def epoll_add_def io_wait_for_def)
  have ring: "rr_inv (io_ring ?r1)" "rr_contents (io_ring ?r1) = []" "0 < length (rr_buffer (io_ring ?r1))"
    "rr_ring_size (io_ring ?r1) < 2 ^ 31" "0 < rr_life (io_ring ?r1)" "2 \<le> rr_life (io_ring ?r1)"
    using assms(1) by (simp_all add: socket_ready_ring_def)
  obtain q where q: "rr_inv q" "rr_contents q = []" "length (rr_buffer q) = length (rr_buffer (io_ring ?r1))"
    "rr_life (io_ring ?r1) \<le> Suc (rr_life q)"
    "(case IOPoller_poll (\<lambda>n. Some [Epoll_message ?a]) (\<lambda>n. Some []) ?r1 of Inl e \<Rightarrow> Inl e | Inr r \<Rightarrow> drain_ring r)
       = io_process_fn ?a (?r1\<lparr>io_ring := q\<rparr>)" by (rule one_event [OF ring(1-5), of ?a])
  obtain r2 where r2: "io_process_fn ?a (?r1\<lparr>io_ring := q\<rparr>) = Inr r2" "f \<in> set (io_ready r2)" "f \<notin> set (io_wait r2)"
    "io_ring r2 = q"
    using assms(3) by (simp add: io_process_fn_def FiberIOMessage_new_def io_resume_def remove1_append)
  let ?s2 = "?s1\<lparr>sk_io := r2\<rparr>"
  have t2: "descriptor_ready fd ?s1 = Inr ?s2"
    using q(5) r2(1) by (simp add: descriptor_ready_def split: sum.splits)
  have t3: "fst (accept_turn f fd (Inl EAGAIN) None (accept_resumed ?a ?s2)) = Accept_throws EEXIST"
    by (simp add: accept_turn_def new_message_def epoll_add_def accept_resumed_def delete_message_def)
  let ?r3 = "sk_io (accept_resumed ?a ?s2)"
  have r3: "io_ring ?r3 = q" "io_messages ?r3 ?a = None" "sk_epoll (accept_resumed ?a ?s2) fd = Some ?a"
    by (simp_all add: accept_resumed_def delete_message_def r2)
  have ring3: "rr_inv (io_ring ?r3)" "rr_contents (io_ring ?r3) = []" "0 < length (rr_buffer (io_ring ?r3))"
    "rr_ring_size (io_ring ?r3) < 2 ^ 31" "0 < rr_life (io_ring ?r3)"
    using q ring unfolding r3(1) by (simp_all add: rr_ring_size_def)
  obtain p where p: "(case IOPoller_poll (\<lambda>n. Some [Epoll_message ?a]) (\<lambda>n. Some []) ?r3 of Inl e \<Rightarrow> Inl e | Inr r \<Rightarrow> drain_ring r)
       = io_process_fn ?a (?r3\<lparr>io_ring := p\<rparr>)" by (rule one_event [OF ring3, of ?a])
  have "io_process_fn ?a (?r3\<lparr>io_ring := p\<rparr>) = Inl Io_freed" using r3(2) by (simp add: io_process_fn_def)
  with p r3(3) have t4: "descriptor_ready fd (accept_resumed ?a ?s2) = Inl Io_freed"
    by (simp add: descriptor_ready_def split: sum.splits)
  have "f \<in> set (io_wait (sk_io ?s1))" by simp
  from that [OF t1 this t2 _ _ t3 t4] r2 show thesis by simp
qed

definition sockets_example :: sockets where
  "sockets_example = \<lparr>sk_io = \<lparr>io_ring = ReactorRing_new 0 4, io_messages = Map.empty, io_wait = [], io_ready = [],
     io_flight = [], io_log = []\<rparr>, sk_epoll = Map.empty, sk_next = 1, sk_closed = []\<rparr>"

theorem accept_waits_once_witness:
  "\<exists>a s1 s2. accept_turn 5 3 (Inl EAGAIN) None sockets_example = (Accept_waits a, s1) \<and> descriptor_ready 3 s1 = Inr s2 \<and>
     5 \<in> set (io_ready (sk_io s2)) \<and> descriptor_ready 3 (accept_resumed a s2) = Inl Io_freed"
proof -
  have "pow2 (int 4)" unfolding pow2_def by (rule exI [of _ 2]) simp
  then have "rr_inv (ReactorRing_new 0 4 :: nat ReactorRing)" by (rule rr_inv_new) simp
  then have "socket_ready_ring sockets_example"
    by (simp add: socket_ready_ring_def sockets_example_def) (simp add: ReactorRing_new_def rr_contents_def rr_life_def rr_ring_size_def)
  then show ?thesis
    by (rule accept_waits_once [of sockets_example 3 5]) (auto simp: sockets_example_def)
qed

end
