(* ===== verification/Context_Queue.thy ===== *)
theory Context_Queue
  imports Dumbo_Prelude
begin

text \<open>
  \<open>fiber/detail/context_spmc_queue.hpp\<close>: the queue of ready contexts of the work-stealing scheduler. One thread
  pushes; it and the others pop. Each access to a shared variable is a step; memory is sequentially
  consistent. The counters are unbounded; a context is a number, and a slot without one is \<open>None\<close>.
\<close>

subsection \<open>The arrays\<close>

type_synonym spmc_array = "nat option list"

definition array_new :: "nat \<Rightarrow> spmc_array" where
  "array_new n = replicate n None"

definition array_push :: "nat \<Rightarrow> nat \<Rightarrow> spmc_array \<Rightarrow> spmc_array" where
  "array_push bottom ctx a = a[bottom mod length a := Some ctx]"

definition array_pop :: "nat \<Rightarrow> spmc_array \<Rightarrow> nat option" where
  "array_pop tp a = a ! (tp mod length a)"

text \<open>\<open>resize\<close> copies the slots from \<open>top\<close> to \<open>bottom\<close>.\<close>

definition array_resize :: "nat \<Rightarrow> nat \<Rightarrow> spmc_array \<Rightarrow> spmc_array" where
  "array_resize bottom tp a =
     fold (\<lambda>i b. b[i mod length b := array_pop i a]) [tp..<bottom] (array_new (2 * length a))"

subsection \<open>The queue\<close>

text \<open>Where the thread that pushes is: after its loads, after the array has room, after the slot is written. And
  where a thread that pops is, by what it has loaded.\<close>

datatype push_pc = Push_idle | Push_loaded nat nat | Push_room nat | Push_written nat

datatype pop_pc = Pop_idle | Pop_top nat | Pop_bottom nat | Pop_array nat nat | Pop_context nat nat

text \<open>\<open>array_\<close> is the last of the arrays, the others are \<open>old_arrays_\<close>. For the properties: what has been
  pushed and popped. The first array has \<open>n\<close> slots, 1024 in the code.\<close>

record context_spmc_queue =
  cq_top :: nat
  cq_bottom :: nat
  cq_arrays :: "spmc_array list"
  cq_pusher :: push_pc
  cq_poppers :: "nat \<Rightarrow> pop_pc"
  cq_pushed :: "nat list"
  cq_popped :: "nat list"

definition context_spmc_queue_new :: "nat \<Rightarrow> context_spmc_queue" where
  "context_spmc_queue_new n = \<lparr>cq_top = 0, cq_bottom = 0, cq_arrays = [array_new n], cq_pusher = Push_idle,
     cq_poppers = (\<lambda>i. Pop_idle), cq_pushed = [], cq_popped = []\<rparr>"

definition cq_empty :: "context_spmc_queue \<Rightarrow> bool" where
  "cq_empty q \<longleftrightarrow> cq_bottom q \<le> cq_top q"

text \<open>\<open>push\<close>: only its thread changes \<open>bottom_\<close> and \<open>array_\<close>, so it loads them with \<open>top_\<close>.\<close>

definition push_begin :: "nat \<Rightarrow> context_spmc_queue \<Rightarrow> context_spmc_queue" where
  "push_begin ctx q = q\<lparr>cq_pusher := Push_loaded ctx (cq_top q)\<rparr>"

definition push_step :: "context_spmc_queue \<Rightarrow> context_spmc_queue" where
  "push_step q =
     (case cq_pusher q of
        Push_idle \<Rightarrow> q
      | Push_loaded ctx tp \<Rightarrow>
          if length (last (cq_arrays q)) - 1 < cq_bottom q - tp
          then q\<lparr>cq_arrays := cq_arrays q @ [array_resize (cq_bottom q) tp (last (cq_arrays q))], cq_pusher := Push_room ctx\<rparr>
          else q\<lparr>cq_pusher := Push_room ctx\<rparr>
      | Push_room ctx \<Rightarrow>
          q\<lparr>cq_arrays := (cq_arrays q)[length (cq_arrays q) - 1 := array_push (cq_bottom q) ctx (last (cq_arrays q))],
            cq_pusher := Push_written ctx\<rparr>
      | Push_written ctx \<Rightarrow> q\<lparr>cq_bottom := cq_bottom q + 1, cq_pushed := cq_pushed q @ [ctx], cq_pusher := Push_idle\<rparr>)"

text \<open>\<open>pop\<close>: \<open>None\<close> when a null context is asked whether it is pinned. An array is named by its place.\<close>

definition pop_step :: "(nat \<Rightarrow> bool) \<Rightarrow> nat \<Rightarrow> context_spmc_queue \<Rightarrow> context_spmc_queue option" where
  "pop_step pinned i q =
     (case cq_poppers q i of
        Pop_idle \<Rightarrow> Some (q\<lparr>cq_poppers := (cq_poppers q)(i := Pop_top (cq_top q))\<rparr>)
      | Pop_top tp \<Rightarrow>
          Some (q\<lparr>cq_poppers := (cq_poppers q)(i := if tp < cq_bottom q then Pop_bottom tp else Pop_idle)\<rparr>)
      | Pop_bottom tp \<Rightarrow> Some (q\<lparr>cq_poppers := (cq_poppers q)(i := Pop_array tp (length (cq_arrays q) - 1))\<rparr>)
      | Pop_array tp a \<Rightarrow>
          (case array_pop tp (cq_arrays q ! a) of
             None \<Rightarrow> None
           | Some ctx \<Rightarrow> Some (q\<lparr>cq_poppers := (cq_poppers q)(i := if pinned ctx then Pop_idle else Pop_context tp ctx)\<rparr>))
      | Pop_context tp ctx \<Rightarrow>
          Some (if cq_top q = tp
                then q\<lparr>cq_top := tp + 1, cq_popped := cq_popped q @ [ctx], cq_poppers := (cq_poppers q)(i := Pop_idle)\<rparr>
                else q\<lparr>cq_poppers := (cq_poppers q)(i := Pop_idle)\<rparr>))"

datatype cq_action = Push_context nat | Pusher_goes | Popper_goes nat

fun cq_step :: "(nat \<Rightarrow> bool) \<Rightarrow> cq_action \<Rightarrow> context_spmc_queue \<Rightarrow> context_spmc_queue option" where
  "cq_step pinned (Push_context ctx) q = Some (if cq_pusher q = Push_idle then push_begin ctx q else q)"
| "cq_step pinned Pusher_goes q = Some (push_step q)"
| "cq_step pinned (Popper_goes i) q = pop_step pinned i q"

fun cq_run :: "(nat \<Rightarrow> bool) \<Rightarrow> cq_action list \<Rightarrow> context_spmc_queue \<Rightarrow> context_spmc_queue option" where
  "cq_run pinned [] q = Some q"
| "cq_run pinned (act # acts) q = (case cq_step pinned act q of None \<Rightarrow> None | Some q \<Rightarrow> cq_run pinned acts q)"

subsection \<open>The invariant\<close>

definition holds_window :: "nat list \<Rightarrow> nat \<Rightarrow> nat \<Rightarrow> spmc_array \<Rightarrow> bool" where
  "holds_window xs lo hi a \<longleftrightarrow> 0 < length a \<and> hi \<le> lo + length a \<and> (\<forall>i. lo \<le> i \<and> i < hi \<longrightarrow> array_pop i a = Some (xs ! i))"

fun pusher_ok :: "push_pc \<Rightarrow> context_spmc_queue \<Rightarrow> bool" where
  "pusher_ok Push_idle q = True"
| "pusher_ok (Push_loaded ctx tp) q = (tp \<le> cq_top q \<and> holds_window (cq_pushed q) tp (cq_bottom q) (last (cq_arrays q)))"
| "pusher_ok (Push_room ctx) q = (cq_bottom q < cq_top q + length (last (cq_arrays q)))"
| "pusher_ok (Push_written ctx) q =
     (cq_bottom q < cq_top q + length (last (cq_arrays q)) \<and> array_pop (cq_bottom q) (last (cq_arrays q)) = Some ctx)"

fun popper_ok :: "pop_pc \<Rightarrow> context_spmc_queue \<Rightarrow> bool" where
  "popper_ok Pop_idle q = True"
| "popper_ok (Pop_top tp) q = (tp \<le> cq_top q)"
| "popper_ok (Pop_bottom tp) q = (tp \<le> cq_top q \<and> tp < cq_bottom q)"
| "popper_ok (Pop_array tp a) q = (tp \<le> cq_top q \<and> tp < cq_bottom q \<and> a < length (cq_arrays q) \<and>
     (cq_top q = tp \<longrightarrow> array_pop tp (cq_arrays q ! a) = Some (cq_pushed q ! tp)))"
| "popper_ok (Pop_context tp ctx) q = (tp \<le> cq_top q \<and> tp < cq_bottom q \<and> (cq_top q = tp \<longrightarrow> ctx = cq_pushed q ! tp))"

definition cq_ok :: "context_spmc_queue \<Rightarrow> bool" where
  "cq_ok q \<longleftrightarrow> cq_arrays q \<noteq> [] \<and> (\<forall>a \<in> set (cq_arrays q). 0 < length a) \<and> cq_bottom q = length (cq_pushed q) \<and>
     cq_top q \<le> cq_bottom q \<and> cq_popped q = take (cq_top q) (cq_pushed q) \<and>
     holds_window (cq_pushed q) (cq_top q) (cq_bottom q) (last (cq_arrays q)) \<and>
     pusher_ok (cq_pusher q) q \<and> (\<forall>i. popper_ok (cq_poppers q i) q)"

lemma mod_window:
  assumes "i mod n = j mod n" "lo \<le> i" "lo \<le> j" "i < lo + n" "j < lo + n"
  shows "i = (j :: nat)"
proof -
  have "int i mod int n = int j mod int n" using assms(1) by (metis of_nat_mod)
  then have "int i = int j" by (rule mod_window_inj [where lo = "int lo - 1"]) (use assms in linarith)+
  then show ?thesis by simp
qed

lemma length_array_push [simp]: "length (array_push k c a) = length a"
  by (simp add: array_push_def)

lemma array_pop_push:
  assumes "0 < length a" "lo \<le> i" "i \<le> k" "k < lo + length a"
  shows "array_pop i (array_push k c a) = (if i = k then Some c else array_pop i a)"
  using assms mod_window [of i "length a" k lo] by (auto simp: array_pop_def array_push_def nth_list_update)

lemma resize_fold:
  assumes "0 < length a" "m \<le> tp + 2 * length a"
  shows "length (fold (\<lambda>i b. b[i mod length b := array_pop i a]) [tp..<m] (array_new (2 * length a))) = 2 * length a \<and>
    (\<forall>i. tp \<le> i \<and> i < m \<longrightarrow>
      array_pop i (fold (\<lambda>i b. b[i mod length b := array_pop i a]) [tp..<m] (array_new (2 * length a))) = array_pop i a)"
  using assms(2)
proof (induction m)
  case (Suc m)
  show ?case
  proof (cases "tp \<le> m")
    case True
    let ?b = "fold (\<lambda>i b. b[i mod length b := array_pop i a]) [tp..<m] (array_new (2 * length a))"
    have IH: "length ?b = 2 * length a" "\<And>i. tp \<le> i \<Longrightarrow> i < m \<Longrightarrow> array_pop i ?b = array_pop i a"
      using Suc by auto
    have eq: "fold (\<lambda>i b. b[i mod length b := array_pop i a]) [tp..<Suc m] (array_new (2 * length a)) =
      ?b[m mod (2 * length a) := array_pop m a]" using True by (simp add: IH(1))
    have pop: "array_pop i (?b[m mod (2 * length a) := array_pop m a]) = array_pop i a" if "tp \<le> i" "i < Suc m" for i
    proof (cases "i = m")
      case False
      then have "i mod (2 * length a) \<noteq> m mod (2 * length a)"
        using mod_window [of i "2 * length a" m tp] that True Suc.prems by auto
      with False that IH show ?thesis by (simp add: array_pop_def)
    qed (use IH(1) assms(1) in \<open>simp add: array_pop_def\<close>)
    show ?thesis unfolding eq using IH(1) pop by simp
  qed (auto simp: array_new_def)
qed (simp add: array_new_def)

lemma holds_resize:
  assumes "holds_window xs tp hi a"
  shows "holds_window xs tp hi (array_resize hi tp a)" "length (array_resize hi tp a) = 2 * length a"
  using assms resize_fold [of a hi tp] by (auto simp: holds_window_def array_resize_def)

lemma holds_later: "holds_window xs lo hi a \<Longrightarrow> lo \<le> lo' \<Longrightarrow> holds_window xs lo' hi a"
  by (auto simp: holds_window_def)

lemma cq_okD:
  assumes "cq_ok q"
  shows "cq_arrays q \<noteq> []" "\<forall>a \<in> set (cq_arrays q). 0 < length a" "cq_bottom q = length (cq_pushed q)"
    "cq_top q \<le> cq_bottom q" "cq_popped q = take (cq_top q) (cq_pushed q)"
    "holds_window (cq_pushed q) (cq_top q) (cq_bottom q) (last (cq_arrays q))" "pusher_ok (cq_pusher q) q"
    "popper_ok (cq_poppers q i) q"
  using assms by (auto simp: cq_ok_def)

text \<open>The thread that pushes.\<close>

lemma push_begin_ok:
  assumes "cq_ok q"
  shows "cq_ok (push_begin ctx q)"
proof -
  have "popper_ok p (push_begin ctx q) = popper_ok p q" for p by (cases p) (simp_all add: push_begin_def)
  with cq_okD [OF assms] show ?thesis by (auto simp: cq_ok_def push_begin_def)
qed

lemma popper_ok_resized:
  assumes "popper_ok p q"
  shows "popper_ok p (q\<lparr>cq_arrays := cq_arrays q @ [a], cq_pusher := pc\<rparr>)"
  using assms by (cases p) (auto simp: nth_append)

lemma popper_ok_written:
  assumes "popper_ok p q" "cq_arrays q \<noteq> []" "0 < length (last (cq_arrays q))"
    and room: "cq_bottom q < cq_top q + length (last (cq_arrays q))"
  shows "popper_ok p (q\<lparr>cq_arrays := (cq_arrays q)[length (cq_arrays q) - 1 := array_push (cq_bottom q) ctx (last (cq_arrays q))],
    cq_pusher := pc\<rparr>)"
proof (cases p)
  case (Pop_array tp a)
  have "array_pop (cq_top q) (array_push (cq_bottom q) ctx (last (cq_arrays q))) = array_pop (cq_top q) (last (cq_arrays q))"
    if "cq_top q < cq_bottom q" using array_pop_push [OF assms(3) order.refl _ room] that by simp
  with Pop_array assms(1,2) show ?thesis by (auto simp: nth_list_update last_conv_nth)
qed (use assms in auto)

lemma popper_ok_pushed:
  assumes "popper_ok p q" "cq_bottom q = length (cq_pushed q)"
  shows "popper_ok p (q\<lparr>cq_bottom := cq_bottom q + 1, cq_pushed := cq_pushed q @ [ctx], cq_pusher := pc\<rparr>)"
  using assms by (cases p) (auto simp: nth_append)

lemma push_step_ok:
  assumes ok: "cq_ok q"
  shows "cq_ok (push_step q)"
proof (cases "cq_pusher q")
  case Push_idle
  with ok show ?thesis by (simp add: push_step_def)
next
  case (Push_loaded ctx tp)
  let ?a = "last (cq_arrays q)"
  have tp: "tp \<le> cq_top q" "holds_window (cq_pushed q) tp (cq_bottom q) ?a" using cq_okD(7) [OF ok] Push_loaded by simp_all
  show ?thesis
  proof (cases "length ?a - 1 < cq_bottom q - tp")
    case True
    let ?b = "array_resize (cq_bottom q) tp ?a"
    have b: "holds_window (cq_pushed q) (cq_top q) (cq_bottom q) ?b" "length ?b = 2 * length ?a"
      using holds_resize [OF tp(2)] holds_later [OF _ tp(1)] by auto
    have L: "0 < length ?a" "cq_bottom q \<le> tp + length ?a" using tp by (auto simp: holds_window_def)
    then have "cq_bottom q < cq_top q + 2 * length ?a" using tp(1) by linarith
    moreover have "push_step q = q\<lparr>cq_arrays := cq_arrays q @ [?b], cq_pusher := Push_room ctx\<rparr>"
      using Push_loaded True by (simp add: push_step_def)
    moreover have "?b \<noteq> []" using b(2) L(1) by (metis length_0_conv mult_is_0 not_gr0 zero_neq_numeral)
    ultimately show ?thesis using cq_okD [OF ok] b popper_ok_resized L(1) by (simp add: cq_ok_def)
  next
    case False
    moreover have "0 < length ?a" using tp(2) by (simp add: holds_window_def)
    ultimately have "cq_bottom q < cq_top q + length ?a" using tp(1) by linarith
    moreover have "popper_ok p (q\<lparr>cq_pusher := Push_room ctx\<rparr>) = popper_ok p q" for p by (cases p) simp_all
    moreover have "push_step q = q\<lparr>cq_pusher := Push_room ctx\<rparr>" using Push_loaded False by (simp add: push_step_def)
    ultimately show ?thesis using cq_okD [OF ok] by (auto simp: cq_ok_def)
  qed
next
  case (Push_room ctx)
  let ?a = "last (cq_arrays q)" and ?b = "array_push (cq_bottom q) ctx (last (cq_arrays q))"
  have room: "cq_bottom q < cq_top q + length ?a" "0 < length ?a" using cq_okD [OF ok] Push_room by auto
  have pop: "array_pop i ?b = (if i = cq_bottom q then Some ctx else array_pop i ?a)" if "cq_top q \<le> i" "i \<le> cq_bottom q" for i
    using array_pop_push [OF room(2) that room(1)] .
  have "holds_window (cq_pushed q) (cq_top q) (cq_bottom q) ?b"
    using cq_okD(6) [OF ok] pop by (auto simp: holds_window_def)
  moreover have "last ((cq_arrays q)[length (cq_arrays q) - 1 := ?b]) = ?b" using cq_okD(1) [OF ok] by (simp add: last_list_update)
  moreover have "\<forall>a \<in> set ((cq_arrays q)[length (cq_arrays q) - 1 := ?b]). 0 < length a"
    using cq_okD(2) [OF ok] room(2) by (metis in_mono insert_iff length_array_push set_update_subset_insert)
  ultimately show ?thesis
    using cq_okD [OF ok] popper_ok_written [OF cq_okD(8) [OF ok] cq_okD(1) [OF ok] room(2,1)] pop room Push_room
    by (simp add: cq_ok_def push_step_def)
next
  case (Push_written ctx)
  let ?a = "last (cq_arrays q)"
  have w: "cq_bottom q < cq_top q + length ?a" "array_pop (cq_bottom q) ?a = Some ctx"
    using cq_okD(7) [OF ok] Push_written by simp_all
  have "holds_window (cq_pushed q @ [ctx]) (cq_top q) (Suc (cq_bottom q)) ?a"
    using cq_okD(3,6) [OF ok] w by (auto simp: holds_window_def nth_append less_Suc_eq)
  then show ?thesis
    using cq_okD [OF ok] popper_ok_pushed [OF cq_okD(8) [OF ok] cq_okD(3) [OF ok]] Push_written
    by (simp add: cq_ok_def push_step_def)
qed

text \<open>A thread that pops.\<close>

lemma popper_ok_frame:
  "popper_ok p (q\<lparr>cq_poppers := ps\<rparr>) = popper_ok p q" "pusher_ok p' (q\<lparr>cq_poppers := ps\<rparr>) = pusher_ok p' q"
  by (cases p; simp) (cases p'; simp)

lemma popper_set_ok:
  assumes "cq_ok q" "popper_ok p q"
  shows "cq_ok (q\<lparr>cq_poppers := (cq_poppers q)(i := p)\<rparr>)"
  using cq_okD [OF assms(1)] assms(2) by (auto simp: cq_ok_def popper_ok_frame)

lemma popped_ok:
  assumes ok: "cq_ok q" and top: "cq_top q < cq_bottom q" and ctx: "ctx = cq_pushed q ! cq_top q"
  shows "cq_ok (q\<lparr>cq_top := cq_top q + 1, cq_popped := cq_popped q @ [ctx]\<rparr>)"
proof -
  let ?q = "q\<lparr>cq_top := cq_top q + 1, cq_popped := cq_popped q @ [ctx]\<rparr>"
  have "popper_ok p q \<Longrightarrow> popper_ok p ?q" for p by (cases p) auto
  moreover have "pusher_ok p q \<Longrightarrow> pusher_ok p ?q" for p by (cases p) auto
  moreover have "take (Suc (cq_top q)) (cq_pushed q) = take (cq_top q) (cq_pushed q) @ [ctx]"
    using cq_okD(3) [OF ok] top ctx by (simp add: take_Suc_conv_app_nth)
  moreover have "holds_window (cq_pushed q) (Suc (cq_top q)) (cq_bottom q) (last (cq_arrays q))"
    by (rule holds_later [OF cq_okD(6) [OF ok]]) simp
  ultimately show ?thesis using cq_okD [OF ok] top by (simp add: cq_ok_def)
qed

lemma pop_step_ok:
  assumes ok: "cq_ok q" and q': "pop_step pinned i q = Some q'"
  shows "cq_ok q'"
proof -
  have p: "popper_ok (cq_poppers q i) q" by (rule cq_okD(8) [OF ok])
  show ?thesis
  proof (cases "cq_poppers q i")
    case Pop_idle
    with q' popper_set_ok [OF ok, of "Pop_top (cq_top q)" i] show ?thesis by (auto simp: pop_step_def)
  next
    case (Pop_top tp)
    with q' p popper_set_ok [OF ok, of _ i] show ?thesis by (auto simp: pop_step_def)
  next
    case (Pop_bottom tp)
    have "array_pop tp (last (cq_arrays q)) = Some (cq_pushed q ! tp)" if "cq_top q = tp"
      using cq_okD(6) [OF ok] p Pop_bottom that by (simp add: holds_window_def)
    with p Pop_bottom cq_okD(1) [OF ok] have "popper_ok (Pop_array tp (length (cq_arrays q) - 1)) q"
      by (simp add: last_conv_nth)
    with q' Pop_bottom popper_set_ok [OF ok, of _ i] show ?thesis by (auto simp: pop_step_def)
  next
    case (Pop_array tp a)
    with q' p popper_set_ok [OF ok, of _ i] show ?thesis by (auto simp: pop_step_def split: option.splits)
  next
    case (Pop_context tp ctx)
    show ?thesis
    proof (cases "cq_top q = tp")
      case True
      with p Pop_context have t: "cq_top q < cq_bottom q" "ctx = cq_pushed q ! cq_top q" by auto
      from popper_set_ok [OF popped_ok [OF ok t], of Pop_idle i] q' Pop_context True show ?thesis
        by (auto simp: pop_step_def)
    next
      case False
      with q' Pop_context popper_set_ok [OF ok, of Pop_idle i] show ?thesis by (auto simp: pop_step_def)
    qed
  qed
qed

lemma cq_run_ok:
  assumes "cq_ok q" "cq_run pinned acts q = Some q'"
  shows "cq_ok q'"
  using assms
proof (induction acts arbitrary: q)
  case (Cons act acts)
  from Cons.prems(2) obtain r where r: "cq_step pinned act q = Some r" "cq_run pinned acts r = Some q'"
    by (auto split: option.splits)
  have "cq_ok r"
  proof (cases act)
    case (Push_context ctx)
    with r(1) Cons.prems(1) push_begin_ok show ?thesis by (auto split: if_splits)
  next
    case Pusher_goes
    with r(1) Cons.prems(1) push_step_ok show ?thesis by auto
  next
    case (Popper_goes i)
    with r(1) Cons.prems(1) pop_step_ok show ?thesis by auto
  qed
  from Cons.IH [OF this r(2)] show ?case .
qed simp

lemma cq_ok_new: "0 < n \<Longrightarrow> cq_ok (context_spmc_queue_new n)"
  by (simp add: cq_ok_def context_spmc_queue_new_def array_new_def holds_window_def)

subsection \<open>The properties\<close>

text \<open>C14: no context is lost or handed out twice, and they leave the queue in the order they came: in whatever order the steps of
  the thread that pushes and of any number of threads that pop follow each other, also while the array is being
  replaced by a larger one, what has been popped is the first part of what has been pushed. And between two
  pushes the slots hold what is still to be popped.\<close>

theorem context_queue_fifo:
  assumes "0 < n" "cq_run pinned acts (context_spmc_queue_new n) = Some q"
  shows "cq_popped q = take (cq_top q) (cq_pushed q) \<and> cq_top q \<le> length (cq_pushed q) \<and> cq_bottom q = length (cq_pushed q) \<and>
    map (\<lambda>i. array_pop i (last (cq_arrays q))) [cq_top q..<cq_bottom q] = map Some (drop (cq_top q) (cq_pushed q))"
proof -
  note ok = cq_okD [OF cq_run_ok [OF cq_ok_new [OF assms(1)] assms(2)]]
  have "map (\<lambda>i. array_pop i (last (cq_arrays q))) [cq_top q..<cq_bottom q] = map (\<lambda>i. Some (cq_pushed q ! i)) [cq_top q..<cq_bottom q]"
    using ok(6) by (auto simp: holds_window_def)
  also have "\<dots> = map Some (drop (cq_top q) (cq_pushed q))"
    using ok(3,4) by (intro nth_equalityI) simp_all
  finally show ?thesis using ok(3-5) by simp
qed

definition pushes :: "nat \<Rightarrow> cq_action list" where
  "pushes ctx = [Push_context ctx, Pusher_goes, Pusher_goes, Pusher_goes]"

definition pops :: "nat \<Rightarrow> nat \<Rightarrow> cq_action list" where
  "pops i k = replicate k (Popper_goes i)"

text \<open>An array of two; a thief holds the first context while the array grows, and loses the race.\<close>

definition cq_example :: "cq_action list" where
  "cq_example = pushes 7 @ pushes 8 @ pops 1 4 @ pushes 9 @ pops 0 5 @ pops 1 1 @ pops 1 5"

theorem context_queue_fifo_witness:
  "\<exists>q. cq_run (\<lambda>c. False) cq_example (context_spmc_queue_new 2) = Some q \<and> cq_pushed q = [7, 8, 9] \<and>
     cq_popped q = take 2 [7, 8, 9]"
proof -
  have "map_option (\<lambda>q. (cq_pushed q, cq_top q)) (cq_run (\<lambda>c. False) cq_example (context_spmc_queue_new 2)) = Some ([7, 8, 9], 2)"
    by code_simp
  then obtain q where q: "cq_run (\<lambda>c. False) cq_example (context_spmc_queue_new 2) = Some q" "cq_pushed q = [7, 8, 9]" "cq_top q = 2"
    by auto
  from context_queue_fifo [OF _ q(1)] q show ?thesis by simp
qed

text \<open>But a thread that pops may follow a null pointer: if the others take what it has seen and the array is replaced before it
  loads the array, its slot in the new one is empty, and \<open>pop\<close> asks the null context whether it is pinned
  before it tries to advance \<open>top_\<close>.\<close>

lemma stale_pop_fails:
  "cq_run (\<lambda>c. False) (pushes 7 @ pushes 8 @ pops 1 2 @ pops 0 5 @ pushes 9 @ pushes 10 @ pops 1 2) (context_spmc_queue_new 2) = None"
  by code_simp

end
