(* ===== verification/Work_Sharing.thy ===== *)
theory Work_Sharing
  imports Context_Queue "HOL-Library.Multiset"
begin

text \<open>
  The scheduling algorithms for several threads, \<open>fiber/algo/work_stealing\<close> and \<open>fiber/algo/shared_work\<close>.
  The steps are the calls of the algorithm by a thread, the queue of \<open>Context_Queue\<close> a list of which a
  pop takes the first element, or none when it loses the race. \<open>pinned\<close> tells the contexts that must
  stay in their thread; \<open>detach\<close> and \<open>attach\<close> take a context from a scheduler and give it to another.
\<close>

subsection \<open>The contract\<close>

text \<open>What the schedulers rely on: a context made ready is handed out once, a pinned one to its own thread.
  \<open>own\<close> and \<open>shared\<close> are the ready contexts of a thread and those any thread may take; \<open>'x\<close> is what a call
  of \<open>pick_next\<close> depends on besides the state.\<close>

locale ready_algorithm =
  fixes threads :: "nat set"
    and pinned :: "nat \<Rightarrow> bool"
    and awakened :: "nat \<Rightarrow> nat \<Rightarrow> 's \<Rightarrow> 's"
    and pick_next :: "'x \<Rightarrow> nat \<Rightarrow> 's \<Rightarrow> (nat option \<times> 's) option"
    and own :: "nat \<Rightarrow> 's \<Rightarrow> nat multiset"
    and shared :: "'s \<Rightarrow> nat multiset"
  assumes awakened_own: "t \<in> threads \<Longrightarrow> own u (awakened t c s) = own u s + (if u = t \<and> pinned c then {#c#} else {#})"
    and awakened_shared: "t \<in> threads \<Longrightarrow> shared (awakened t c s) = shared s + (if pinned c then {#} else {#c#})"
    and pick_nothing: "t \<in> threads \<Longrightarrow> pick_next x t s = Some (None, s') \<Longrightarrow> own u s' = own u s \<and> shared s' = shared s"
    and pick_something: "t \<in> threads \<Longrightarrow> pick_next x t s = Some (Some c, s') \<Longrightarrow>
      own t s = own t s' + {#c#} \<and> (\<forall>u. u \<noteq> t \<longrightarrow> own u s' = own u s) \<and> shared s' = shared s \<or>
      shared s = shared s' + {#c#} \<and> (\<forall>u. own u s' = own u s)"

datatype 'x ready_action = Awakens nat nat | Picks nat 'x

fun actor :: "'x ready_action \<Rightarrow> nat" where
  "actor (Awakens t c) = t"
| "actor (Picks t x) = t"

text \<open>A run, with the contexts made ready and those handed out, each with its thread. A call that does not end is
  \<open>None\<close>.\<close>

fun ready_run ::
  "(nat \<Rightarrow> nat \<Rightarrow> 's \<Rightarrow> 's) \<Rightarrow> ('x \<Rightarrow> nat \<Rightarrow> 's \<Rightarrow> (nat option \<times> 's) option) \<Rightarrow> 'x ready_action list \<Rightarrow> 's \<Rightarrow>
    ((nat \<times> nat) list \<times> (nat \<times> nat) list \<times> 's) option" where
  "ready_run awakened pick_next [] s = Some ([], [], s)"
| "ready_run awakened pick_next (Awakens t c # acts) s =
     (case ready_run awakened pick_next acts (awakened t c s) of
        None \<Rightarrow> None | Some (made, given, r) \<Rightarrow> Some ((t, c) # made, given, r))"
| "ready_run awakened pick_next (Picks t x # acts) s =
     (case pick_next x t s of
        None \<Rightarrow> None
      | Some (None, s) \<Rightarrow> ready_run awakened pick_next acts s
      | Some (Some c, s) \<Rightarrow>
          (case ready_run awakened pick_next acts s of
             None \<Rightarrow> None | Some (made, given, r) \<Rightarrow> Some (made, (t, c) # given, r)))"

context ready_algorithm
begin

definition sorted_out :: "'s \<Rightarrow> bool" where
  "sorted_out s \<longleftrightarrow> (\<forall>u. \<forall>c \<in># own u s. pinned c) \<and> (\<forall>c \<in># shared s. \<not> pinned c)"

lemma awakened_sorted: "t \<in> threads \<Longrightarrow> sorted_out s \<Longrightarrow> sorted_out (awakened t c s)"
  by (auto simp: sorted_out_def awakened_own awakened_shared split: if_splits)

lemma pick_sorted:
  assumes "sorted_out s" "pick_next x t s = Some (r, s')" "t \<in> threads"
  shows "sorted_out s'"
proof (cases r)
  case None
  with assms pick_nothing [of t x s s'] show ?thesis by (simp add: sorted_out_def)
next
  case (Some c)
  with pick_something [of t x s c s'] assms(2,3)
  have "set_mset (own u s') \<subseteq> set_mset (own u s)" "set_mset (shared s') \<subseteq> set_mset (shared s)" for u
    by (cases "u = t"; auto)+
  with assms(1) show ?thesis unfolding sorted_out_def by blast
qed

text \<open>The pinned contexts of a thread, and all the others.\<close>

abbreviation pinned_of :: "nat \<Rightarrow> (nat \<times> nat) list \<Rightarrow> nat multiset" where
  "pinned_of u es \<equiv> mset (map snd (filter (\<lambda>e. fst e = u \<and> pinned (snd e)) es))"

abbreviation unpinned :: "(nat \<times> nat) list \<Rightarrow> nat multiset" where
  "unpinned es \<equiv> mset (map snd (filter (\<lambda>e. \<not> pinned (snd e)) es))"

lemma run_conserves:
  assumes "sorted_out s" "ready_run awakened pick_next acts s = Some (made, given, r)" "\<forall>act \<in> set acts. actor act \<in> threads"
  shows "sorted_out r \<and> own u s + pinned_of u made = pinned_of u given + own u r \<and>
    shared s + unpinned made = unpinned given + shared r"
  using assms
proof (induction acts arbitrary: s made given)
  case (Cons act acts)
  show ?case
  proof (cases act)
    case (Awakens t c)
    with Cons.prems obtain made' where run: "ready_run awakened pick_next acts (awakened t c s) = Some (made', given, r)"
      and m: "made = (t, c) # made'" by (auto split: option.splits)
    have t: "t \<in> threads" "\<forall>act \<in> set acts. actor act \<in> threads" using Cons.prems(3) Awakens by auto
    from Cons.IH [OF awakened_sorted [OF t(1) Cons.prems(1)] run t(2)] show ?thesis
      by (auto simp: m awakened_own [OF t(1)] awakened_shared [OF t(1)])
  next
    case (Picks t x)
    with Cons.prems obtain p s' where p: "pick_next x t s = Some (p, s')" by (auto split: option.splits)
    have t: "t \<in> threads" "\<forall>act \<in> set acts. actor act \<in> threads" using Cons.prems(3) Picks by auto
    note sorted = pick_sorted [OF Cons.prems(1) p t(1)]
    show ?thesis
    proof (cases p)
      case None
      with p Picks Cons.prems have "ready_run awakened pick_next acts s' = Some (made, given, r)" by simp
      with Cons.IH [OF sorted this t(2)] pick_nothing [OF t(1), of x s s'] p None show ?thesis by simp
    next
      case (Some c)
      with p Picks Cons.prems obtain given' where run: "ready_run awakened pick_next acts s' = Some (made, given', r)"
        and g: "given = (t, c) # given'" by (auto split: option.splits)
      have IH: "sorted_out r" "own u s' + pinned_of u made = pinned_of u given' + own u r"
        "shared s' + unpinned made = unpinned given' + shared r" using Cons.IH [OF sorted run t(2)] by blast+
      from pick_something [OF t(1), of x s c s'] p Some
      consider "own t s = own t s' + {#c#}" "\<forall>u. u \<noteq> t \<longrightarrow> own u s' = own u s" "shared s' = shared s"
        | "shared s = shared s' + {#c#}" "\<forall>u. own u s' = own u s" by blast
      then show ?thesis
      proof cases
        case 1
        then have "pinned c" using Cons.prems(1) by (auto simp: sorted_out_def dest!: spec [of _ t])
        with 1 IH show ?thesis by (cases "u = t") (auto simp: g)
      next
        case 2
        then have "\<not> pinned c" using Cons.prems(1) by (auto simp: sorted_out_def)
        with 2 IH show ?thesis by (auto simp: g)
      qed
    qed
  qed
qed simp

end

subsection \<open>Work stealing\<close>

record work_stealing =
  ws_rqueue :: "nat list"
  ws_lqueue :: "nat list"
  ws_flag :: bool
  ws_suspend :: bool

text \<open>The static vector of the schedulers, by their index, and the thread each context is attached to.\<close>

record work_stealing_system =
  schedulers :: "nat \<Rightarrow> work_stealing"
  ws_thread :: "nat \<Rightarrow> nat option"

definition work_stealing_new :: "bool \<Rightarrow> work_stealing" where
  "work_stealing_new suspend = \<lparr>ws_rqueue = [], ws_lqueue = [], ws_flag = False, ws_suspend = suspend\<rparr>"

definition ws_awakened :: "(nat \<Rightarrow> bool) \<Rightarrow> nat \<Rightarrow> nat \<Rightarrow> work_stealing_system \<Rightarrow> work_stealing_system" where
  "ws_awakened pinned t c s =
     (if \<not> pinned c
      then s\<lparr>ws_thread := (ws_thread s)(c := None),
             schedulers := (schedulers s)(t := (schedulers s t)\<lparr>ws_rqueue := ws_rqueue (schedulers s t) @ [c]\<rparr>)\<rparr>
      else s\<lparr>schedulers := (schedulers s)(t := (schedulers s t)\<lparr>ws_lqueue := ws_lqueue (schedulers s t) @ [c]\<rparr>)\<rparr>)"

text \<open>\<open>rqueue_.pop\<close> of a scheduler, also \<open>steal\<close>; \<open>lost\<close> when another thread was faster.\<close>

definition ws_steal :: "bool \<Rightarrow> nat \<Rightarrow> work_stealing_system \<Rightarrow> nat option \<times> work_stealing_system" where
  "ws_steal lost i s =
     (case ws_rqueue (schedulers s i) of
        [] \<Rightarrow> (None, s)
      | c # cs \<Rightarrow> if lost then (None, s)
          else (Some c, s\<lparr>schedulers := (schedulers s)(i := (schedulers s i)\<lparr>ws_rqueue := cs\<rparr>)\<rparr>))"

definition ws_attach :: "nat \<Rightarrow> nat \<Rightarrow> work_stealing_system \<Rightarrow> work_stealing_system" where
  "ws_attach t c s = s\<lparr>ws_thread := (ws_thread s)(c := Some t)\<rparr>"

text \<open>The loop that draws a victim from \<open>0\<close> to \<open>n\<close> until it is another thread; it has not ended when the
  list has.\<close>

fun draw_victim :: "nat \<Rightarrow> nat \<Rightarrow> nat list \<Rightarrow> nat option" where
  "draw_victim n t [] = None"
| "draw_victim n t (i # is) = (if i mod Suc n = t then draw_victim n t is else Some (i mod Suc n))"

definition ws_pick_next ::
  "nat \<Rightarrow> bool \<times> nat list \<times> bool \<Rightarrow> nat \<Rightarrow> work_stealing_system \<Rightarrow> (nat option \<times> work_stealing_system) option" where
  "ws_pick_next n x t s =
     (case x of (lost, drawn, lost_steal) \<Rightarrow>
        (case ws_steal lost t s of
           (Some c, s) \<Rightarrow> Some (Some c, ws_attach t c s)
         | (None, s) \<Rightarrow>
             (case ws_lqueue (schedulers s t) of
                c # cs \<Rightarrow> Some (Some c, s\<lparr>schedulers := (schedulers s)(t := (schedulers s t)\<lparr>ws_lqueue := cs\<rparr>)\<rparr>)
              | [] \<Rightarrow>
                  (case draw_victim n t drawn of
                     None \<Rightarrow> None
                   | Some i \<Rightarrow>
                       (case ws_steal lost_steal i s of
                          (Some c, s) \<Rightarrow> Some (Some c, ws_attach t c s)
                        | (None, s) \<Rightarrow> Some (None, s))))))"

definition ws_has_ready_fibers :: "nat \<Rightarrow> work_stealing_system \<Rightarrow> bool" where
  "ws_has_ready_fibers t s \<longleftrightarrow> ws_rqueue (schedulers s t) \<noteq> [] \<or> ws_lqueue (schedulers s t) \<noteq> []"

text \<open>\<open>suspend_until\<close>: whether it comes back, given that its deadline, if it has one, has passed or not.\<close>

definition ws_suspend_until :: "nat \<Rightarrow> bool option \<Rightarrow> work_stealing_system \<Rightarrow> work_stealing_system option" where
  "ws_suspend_until t deadline s =
     (let w = schedulers s t; woken = Some (s\<lparr>schedulers := (schedulers s)(t := w\<lparr>ws_flag := False\<rparr>)\<rparr>) in
      if ws_suspend w
      then (case deadline of
              None \<Rightarrow> if ws_flag w then woken else None
            | Some passed \<Rightarrow> if ws_flag w \<or> passed then woken else None)
      else Some s)"

definition ws_notify :: "nat \<Rightarrow> work_stealing_system \<Rightarrow> work_stealing_system" where
  "ws_notify t s =
     (if ws_suspend (schedulers s t)
      then s\<lparr>schedulers := (schedulers s)(t := (schedulers s t)\<lparr>ws_flag := True\<rparr>)\<rparr> else s)"

text \<open>The ready contexts: those of a thread are in its local queue, and those for all in one of the \<open>n\<close> queues.\<close>

definition ws_own :: "nat \<Rightarrow> work_stealing_system \<Rightarrow> nat multiset" where
  "ws_own t s = mset (ws_lqueue (schedulers s t))"

definition ws_shared :: "nat \<Rightarrow> work_stealing_system \<Rightarrow> nat multiset" where
  "ws_shared n s = (\<Sum>i \<le> n. mset (ws_rqueue (schedulers s i)))"

lemma ws_shared_update:
  assumes "i \<le> n"
  shows "ws_shared n (s\<lparr>schedulers := (schedulers s)(i := w)\<rparr>) + mset (ws_rqueue (schedulers s i)) =
    ws_shared n s + mset (ws_rqueue w)"
proof -
  have "ws_shared n t = mset (ws_rqueue (schedulers t i)) + (\<Sum>j \<in> {..n} - {i}. mset (ws_rqueue (schedulers t j)))" for t
    unfolding ws_shared_def using assms by (intro sum.remove) auto
  moreover have "(\<Sum>j \<in> {..n} - {i}. mset (ws_rqueue (schedulers (s\<lparr>schedulers := (schedulers s)(i := w)\<rparr>) j))) =
      (\<Sum>j \<in> {..n} - {i}. mset (ws_rqueue (schedulers s j)))" by (intro sum.cong) auto
  ultimately show ?thesis by simp
qed

lemma ws_thread_irrelevant [simp]:
  "ws_shared n (s\<lparr>ws_thread := f\<rparr>) = ws_shared n s" "ws_own t (s\<lparr>ws_thread := f\<rparr>) = ws_own t s"
  by (simp_all add: ws_shared_def ws_own_def)

lemma draw_victim_range: "draw_victim n t is = Some i \<Longrightarrow> i \<le> n \<and> i \<noteq> t"
  by (induction "is") (auto split: if_splits)

lemma ws_steal_laws:
  assumes "ws_steal lost i s = (r, s')" "i \<le> n"
  shows "ws_own u s' = ws_own u s \<and> ws_lqueue (schedulers s' u) = ws_lqueue (schedulers s u) \<and>
    ws_shared n s = ws_shared n s' + (case r of None \<Rightarrow> {#} | Some c \<Rightarrow> {#c#})"
proof (cases "ws_rqueue (schedulers s i)")
  case Nil
  with assms(1) show ?thesis by (auto simp: ws_steal_def)
next
  case (Cons c cs)
  let ?s = "s\<lparr>schedulers := (schedulers s)(i := (schedulers s i)\<lparr>ws_rqueue := cs\<rparr>)\<rparr>"
  have "ws_shared n s = ws_shared n ?s + {#c#}"
    using ws_shared_update [OF assms(2), of s "(schedulers s i)\<lparr>ws_rqueue := cs\<rparr>"] Cons by simp
  with assms(1) Cons show ?thesis by (auto simp: ws_steal_def ws_own_def split: if_splits)
qed

lemma ws_awakened_laws:
  assumes "t \<le> n"
  shows "ws_own u (ws_awakened pinned t c s) = ws_own u s + (if u = t \<and> pinned c then {#c#} else {#})"
    and "ws_shared n (ws_awakened pinned t c s) = ws_shared n s + (if pinned c then {#} else {#c#})"
proof -
  show "ws_own u (ws_awakened pinned t c s) = ws_own u s + (if u = t \<and> pinned c then {#c#} else {#})"
    by (simp add: ws_own_def ws_awakened_def)
  have "ws_awakened pinned t c s =
    (if pinned c then s\<lparr>schedulers := (schedulers s)(t := (schedulers s t)\<lparr>ws_lqueue := ws_lqueue (schedulers s t) @ [c]\<rparr>)\<rparr>
     else s\<lparr>schedulers := (schedulers s)(t := (schedulers s t)\<lparr>ws_rqueue := ws_rqueue (schedulers s t) @ [c]\<rparr>)\<rparr>
       \<lparr>ws_thread := (ws_thread s)(c := None)\<rparr>)" by (simp add: ws_awakened_def)
  then show "ws_shared n (ws_awakened pinned t c s) = ws_shared n s + (if pinned c then {#} else {#c#})"
    using ws_shared_update [OF assms, of s "(schedulers s t)\<lparr>ws_rqueue := ws_rqueue (schedulers s t) @ [c]\<rparr>"]
      ws_shared_update [OF assms, of s "(schedulers s t)\<lparr>ws_lqueue := ws_lqueue (schedulers s t) @ [c]\<rparr>"]
    by (simp only: ws_thread_irrelevant if_distrib [of "ws_shared n"]) (auto split: if_splits)
qed

lemma ws_attach_irrelevant [simp]: "ws_shared n (ws_attach t c s) = ws_shared n s" "ws_own u (ws_attach t c s) = ws_own u s"
  by (simp_all add: ws_attach_def)

lemma ws_pick_laws:
  assumes "t \<le> n" "ws_pick_next n x t s = Some (r, s')"
  shows "(\<forall>u. ws_own u s = ws_own u s') \<and> ws_shared n s = ws_shared n s' + (case r of None \<Rightarrow> {#} | Some c \<Rightarrow> {#c#}) \<or>
    (\<exists>c. r = Some c \<and> ws_own t s = ws_own t s' + {#c#} \<and> (\<forall>u. u \<noteq> t \<longrightarrow> ws_own u s' = ws_own u s) \<and> ws_shared n s' = ws_shared n s)"
proof -
  obtain lost drawn lost2 where x: "x = (lost, drawn, lost2)" by (cases x) auto
  obtain p s1 where steal: "ws_steal lost t s = (p, s1)" by fastforce
  note l1 = ws_steal_laws [OF steal assms(1)]
  show ?thesis
  proof (cases p)
    case (Some c)
    with assms(2) x steal have "r = Some c" "s' = ws_attach t c s1" by (auto simp: ws_pick_next_def)
    with l1 Some show ?thesis by simp
  next
    case None
    show ?thesis
    proof (cases "ws_lqueue (schedulers s1 t)")
      case (Cons c cs)
      let ?t = "s1\<lparr>schedulers := (schedulers s1)(t := (schedulers s1 t)\<lparr>ws_lqueue := cs\<rparr>)\<rparr>"
      have "r = Some c" "s' = ?t" using assms(2) x steal None Cons by (auto simp: ws_pick_next_def)
      moreover have "ws_shared n ?t = ws_shared n s1"
        using ws_shared_update [OF assms(1), of s1 "(schedulers s1 t)\<lparr>ws_lqueue := cs\<rparr>"] by simp
      moreover have "ws_own t s1 = ws_own t ?t + {#c#}" "\<forall>u. u \<noteq> t \<longrightarrow> ws_own u ?t = ws_own u s1"
        using Cons by (simp_all add: ws_own_def)
      ultimately show ?thesis using l1 None by simp
    next
      case Nil
      with assms(2) x steal None obtain i where i: "draw_victim n t drawn = Some i"
        by (auto simp: ws_pick_next_def split: option.splits)
      obtain p2 s2 where steal2: "ws_steal lost2 i s1 = (p2, s2)" by fastforce
      note l2 = ws_steal_laws [OF steal2 conjunct1 [OF draw_victim_range [OF i]]]
      have "r = p2 \<and> (s' = s2 \<or> (\<exists>c. s' = ws_attach t c s2))"
        using assms(2) x steal None Nil i steal2 by (auto simp: ws_pick_next_def split: option.splits)
      with l1 l2 None show ?thesis by auto
    qed
  qed
qed

interpretation ws: ready_algorithm "{..n}" pinned "ws_awakened pinned" "ws_pick_next n" ws_own "ws_shared n" for n pinned
proof unfold_locales
  show "ws_own u (ws_awakened pinned t c s) = ws_own u s + (if u = t \<and> pinned c then {#c#} else {#})"
    "ws_shared n (ws_awakened pinned t c s) = ws_shared n s + (if pinned c then {#} else {#c#})"
    if "t \<in> {..n}" for t u c s using ws_awakened_laws [of t n] that by simp_all
  show "ws_own u s' = ws_own u s \<and> ws_shared n s' = ws_shared n s"
    if "t \<in> {..n}" "ws_pick_next n x t s = Some (None, s')" for t x s s' u
    using ws_pick_laws [of t n x s None s'] that by auto
  show "ws_own t s = ws_own t s' + {#c#} \<and> (\<forall>u. u \<noteq> t \<longrightarrow> ws_own u s' = ws_own u s) \<and> ws_shared n s' = ws_shared n s \<or>
      ws_shared n s = ws_shared n s' + {#c#} \<and> (\<forall>u. ws_own u s' = ws_own u s)"
    if "t \<in> {..n}" "ws_pick_next n x t s = Some (Some c, s')" for t x s s' c
    using ws_pick_laws [of t n x s "Some c" s'] that by auto
qed

text \<open>A loop that draws a victim does not end when there is no other thread.\<close>

lemma lone_thread_hangs: "ws_rqueue (schedulers s 0) = [] \<Longrightarrow> ws_lqueue (schedulers s 0) = [] \<Longrightarrow> ws_pick_next 0 (lost, drawn, lost2) 0 s = None"
proof -
  have "draw_victim 0 0 drawn = None" by (induction drawn) simp_all
  then show "ws_rqueue (schedulers s 0) = [] \<Longrightarrow> ws_lqueue (schedulers s 0) = [] \<Longrightarrow> ws_pick_next 0 (lost, drawn, lost2) 0 s = None"
    by (simp add: ws_pick_next_def ws_steal_def)
qed

subsection \<open>Shared work\<close>

text \<open>\<open>rqueue_\<close> is static, the other members belong to a thread's algorithm.\<close>

record shared_work_system =
  sh_rqueue :: "nat list"
  sh_lqueue :: "nat \<Rightarrow> nat list"
  sh_flag :: "nat \<Rightarrow> bool"
  sh_suspend :: "nat \<Rightarrow> bool"
  sh_thread :: "nat \<Rightarrow> nat option"

definition sh_awakened :: "(nat \<Rightarrow> bool) \<Rightarrow> nat \<Rightarrow> nat \<Rightarrow> shared_work_system \<Rightarrow> shared_work_system" where
  "sh_awakened pinned t c s =
     (if pinned c then s\<lparr>sh_lqueue := (sh_lqueue s)(t := sh_lqueue s t @ [c])\<rparr>
      else s\<lparr>sh_thread := (sh_thread s)(c := None), sh_rqueue := sh_rqueue s @ [c]\<rparr>)"

definition sh_pick_next :: "unit \<Rightarrow> nat \<Rightarrow> shared_work_system \<Rightarrow> (nat option \<times> shared_work_system) option" where
  "sh_pick_next x t s =
     (case sh_rqueue s of
        c # cs \<Rightarrow> Some (Some c, s\<lparr>sh_rqueue := cs, sh_thread := (sh_thread s)(c := Some t)\<rparr>)
      | [] \<Rightarrow>
          (case sh_lqueue s t of
             c # cs \<Rightarrow> Some (Some c, s\<lparr>sh_lqueue := (sh_lqueue s)(t := cs)\<rparr>)
           | [] \<Rightarrow> Some (None, s)))"

definition sh_has_ready_fibers :: "nat \<Rightarrow> shared_work_system \<Rightarrow> bool" where
  "sh_has_ready_fibers t s \<longleftrightarrow> sh_rqueue s \<noteq> [] \<or> sh_lqueue s t \<noteq> []"

definition sh_suspend_until :: "nat \<Rightarrow> bool option \<Rightarrow> shared_work_system \<Rightarrow> shared_work_system option" where
  "sh_suspend_until t deadline s =
     (if sh_suspend s t
      then (case deadline of
              None \<Rightarrow> if sh_flag s t then Some (s\<lparr>sh_flag := (sh_flag s)(t := False)\<rparr>) else None
            | Some passed \<Rightarrow> if sh_flag s t \<or> passed then Some (s\<lparr>sh_flag := (sh_flag s)(t := False)\<rparr>) else None)
      else Some s)"

definition sh_notify :: "nat \<Rightarrow> shared_work_system \<Rightarrow> shared_work_system" where
  "sh_notify t s = (if sh_suspend s t then s\<lparr>sh_flag := (sh_flag s)(t := True)\<rparr> else s)"

text \<open>A notification is not lost: it ends the next suspension, once.\<close>

lemma notified_comes_back:
  "sh_suspend_until t deadline (sh_notify t s) \<noteq> None"
  "ws_suspend_until t deadline (ws_notify t w) \<noteq> None"
  "sh_suspend s t \<Longrightarrow> sh_suspend_until t d s = Some s' \<Longrightarrow> sh_suspend_until t None s' = None"
  "ws_suspend (schedulers w t) \<Longrightarrow> ws_suspend_until t d w = Some w' \<Longrightarrow> ws_suspend_until t None w' = None"
  by (auto simp: sh_suspend_until_def sh_notify_def ws_suspend_until_def ws_notify_def Let_def
      split: option.splits if_splits)

interpretation sh: ready_algorithm UNIV pinned "sh_awakened pinned" sh_pick_next
    "\<lambda>t s. mset (sh_lqueue s t)" "\<lambda>s. mset (sh_rqueue s)" for pinned
  by unfold_locales (auto simp: sh_awakened_def sh_pick_next_def split: list.splits if_splits)

subsection \<open>The properties\<close>

definition work_stealing_start :: "bool \<Rightarrow> work_stealing_system" where
  "work_stealing_start suspend = \<lparr>schedulers = (\<lambda>t. work_stealing_new suspend), ws_thread = (\<lambda>c. None)\<rparr>"

definition shared_work_start :: "(nat \<Rightarrow> bool) \<Rightarrow> shared_work_system" where
  "shared_work_start suspend = \<lparr>sh_rqueue = [], sh_lqueue = (\<lambda>t. []), sh_flag = (\<lambda>t. False), sh_suspend = suspend,
     sh_thread = (\<lambda>c. None)\<rparr>"

text \<open>C15: the threads that share their work hand out every ready context once. Whatever they make ready, take and steal and whoever
  wins the races: the pinned contexts a thread has been given back, with those in its local queue, are
  those it made ready; and the other contexts that all threads have been given, with those in the queues, are those they made
  ready, each as often as it was.\<close>

theorem work_stealing_conserves:
  assumes "ready_run (ws_awakened pinned) (ws_pick_next n) acts (work_stealing_start suspend) = Some (made, given, s)"
    and "\<forall>act \<in> set acts. actor act \<le> n"
  shows "mset (map snd (filter (\<lambda>e. fst e = t \<and> pinned (snd e)) made)) =
      mset (map snd (filter (\<lambda>e. fst e = t \<and> pinned (snd e)) given)) + mset (ws_lqueue (schedulers s t)) \<and>
    mset (map snd (filter (\<lambda>e. \<not> pinned (snd e)) made)) =
      mset (map snd (filter (\<lambda>e. \<not> pinned (snd e)) given)) + (\<Sum>i \<le> n. mset (ws_rqueue (schedulers s i)))"
proof -
  have own: "ws_own t (work_stealing_start suspend) = {#}" for t
    by (simp add: ws_own_def work_stealing_start_def work_stealing_new_def)
  have shared: "ws_shared n (work_stealing_start suspend) = {#}"
    by (simp add: ws_shared_def work_stealing_start_def work_stealing_new_def)
  have "ready_algorithm.sorted_out pinned ws_own (ws_shared n) (work_stealing_start suspend)"
    unfolding ws.sorted_out_def by (simp add: own shared)
  from ws.run_conserves [OF this assms(1), of t] assms(2) show ?thesis
    unfolding own shared by (simp add: ws_own_def ws_shared_def)
qed

text \<open>Thread 0 makes a pinned context and two others ready; thread 1 steals one, the second time after a lost race.\<close>

theorem work_stealing_conserves_witness:
  "\<exists>s. ready_run (ws_awakened (\<lambda>c. c = 1)) (ws_pick_next 1)
      [Awakens 0 1, Awakens 0 2, Awakens 0 3, Picks 1 (False, [1, 0], True), Picks 1 (False, [0], False), Picks 0 (True, [], False)]
      (work_stealing_start True) = Some ([(0, 1), (0, 2), (0, 3)], [(1, 2), (0, 1)], s) \<and>
    {#2, 3#} = {#2#} + (\<Sum>i \<le> 1. mset (ws_rqueue (schedulers s i)))"
proof -
  let ?acts = "[Awakens 0 1, Awakens 0 2, Awakens 0 3, Picks 1 (False, [1, 0], True), Picks 1 (False, [0], False), Picks 0 (True, [], False)]"
  obtain s where s: "ready_run (ws_awakened (\<lambda>c. c = 1)) (ws_pick_next 1) ?acts (work_stealing_start True) =
      Some ([(0, 1), (0, 2), (0, 3)], [(1, 2), (0, 1)], s)"
    by (simp add: work_stealing_start_def work_stealing_new_def ws_awakened_def ws_pick_next_def ws_steal_def ws_attach_def)
  have "\<forall>act \<in> set ?acts. actor act \<le> 1" by simp
  from work_stealing_conserves [OF s this] s show ?thesis by simp
qed

text \<open>The same for the shared queue.\<close>

theorem shared_work_conserves:
  assumes "ready_run (sh_awakened pinned) sh_pick_next acts (shared_work_start suspend) = Some (made, given, s)"
  shows "mset (map snd (filter (\<lambda>e. fst e = t \<and> pinned (snd e)) made)) =
      mset (map snd (filter (\<lambda>e. fst e = t \<and> pinned (snd e)) given)) + mset (sh_lqueue s t) \<and>
    mset (map snd (filter (\<lambda>e. \<not> pinned (snd e)) made)) =
      mset (map snd (filter (\<lambda>e. \<not> pinned (snd e)) given)) + mset (sh_rqueue s)"
proof -
  have "ready_algorithm.sorted_out pinned (\<lambda>t s. mset (sh_lqueue s t)) (\<lambda>s. mset (sh_rqueue s)) (shared_work_start suspend)"
    unfolding sh.sorted_out_def by (simp add: shared_work_start_def)
  from sh.run_conserves [OF this assms, of t] show ?thesis by (simp add: shared_work_start_def)
qed

end
