(* ===== verification/Fiber_Barrier.thy ===== *)
theory Fiber_Barrier
  imports Fiber_Monitor
begin

text \<open>
  \<open>barrier\<close> (\<open>fiber/barrier.hpp\<close>, \<open>fiber/barrier.cpp\<close>) as a client of the monitor: the data under \<open>mtx_\<close> are the two
  counts and the flag of the round, the condition variable \<open>cond_\<close> is number 0. The members \<open>mtx_\<close> and
  \<open>cond_\<close> are those of the monitor.
\<close>

record barrier =
  br_initial :: int
  br_current :: int
  br_cycle :: bool

definition barrier_new :: "int \<Rightarrow> fiber_errc + barrier" where
  "barrier_new initial =
     (if 0 = initial then Inl invalid_argument
      else Inr \<lparr>br_initial = initial, br_current = initial, br_cycle = True\<rparr>)"

text \<open>A call of \<open>wait\<close>, and what a wait for the given round has left to do.\<close>

datatype br_op = Arrive | Arrived bool

definition br_cond :: nat where "br_cond = 0"

definition br_cond_wait :: "bool \<Rightarrow> barrier \<Rightarrow> barrier \<times> (br_op, bool) verdict" where
  "br_cond_wait cycle d =
     (if cycle \<noteq> br_cycle d then (d, Leave [] False) else (d, Wait_on br_cond False (Arrived cycle)))"

definition br_wait :: "barrier \<Rightarrow> barrier \<times> (br_op, bool) verdict" where
  "br_wait d =
     (let cycle = br_cycle d; d = d\<lparr>br_current := u64 (br_current d - 1)\<rparr> in
      if 0 = br_current d
      then (d\<lparr>br_cycle := \<not> br_cycle d, br_current := br_initial d\<rparr>, Leave [Notify_all br_cond] True)
      else br_cond_wait cycle d)"

fun br_body :: "br_op \<Rightarrow> cv_status \<Rightarrow> barrier \<Rightarrow> barrier \<times> (br_op, bool) verdict" where
  "br_body Arrive st d = br_wait d"
| "br_body (Arrived cycle) st d = br_cond_wait cycle d"

text \<open>A barrier used by \<open>n\<close> fibers.\<close>

inductive barrier_reach :: "barrier \<Rightarrow> nat \<Rightarrow> (barrier, br_op, bool) monitor \<Rightarrow> bool" for d n where
  barrier_start: "barrier_reach d n (monitor_new d)"
| barrier_step: "barrier_reach d n s \<Longrightarrow> (case e of Call c op \<Rightarrow> c < n \<and> op = Arrive | _ \<Rightarrow> True) \<Longrightarrow>
    mstep br_body e s = Some t \<Longrightarrow> barrier_reach d n t"

lemma barrier_mreach: "barrier_reach d n s \<Longrightarrow> mreach br_body d s"
  by (induction rule: barrier_reach.induct) (auto intro: mreach.intros)

subsection \<open>The invariant\<close>

fun pending_op :: "('o, 'r) pc \<Rightarrow> 'o option" where
  "pending_op (Entering op timed st) = Some op"
| "pending_op (Inside op st) = Some op"
| "pending_op (Waiting k timed op) = Some op"
| "pending_op p = None"

text \<open>The fibers that have arrived in the round with the given flag and have not left.\<close>

definition in_round :: "bool \<Rightarrow> (barrier, br_op, bool) monitor \<Rightarrow> ctx set" where
  "in_round b s = {c. pending_op (mo_pc s c) = Some (Arrived b)}"

text \<open>The rounds completed, and the fibers that have left with \<open>false\<close>.\<close>

definition rounds :: "(barrier, br_op, bool) monitor \<Rightarrow> nat" where
  "rounds s = length (filter snd (mo_log s))"

definition let_through :: "(barrier, br_op, bool) monitor \<Rightarrow> nat" where
  "let_through s = length (filter (\<lambda>e. \<not> snd e) (mo_log s))"

definition barrier_ok :: "nat \<Rightarrow> nat \<Rightarrow> (barrier, br_op, bool) monitor \<Rightarrow> bool" where
  "barrier_ok m n s \<longleftrightarrow>
     (\<forall>c. mo_pc s c \<noteq> Away \<longrightarrow> c < n) \<and> br_initial (mo_data s) = int m \<and>
     br_current (mo_data s) = int m - int (card (in_round (br_cycle (mo_data s)) s)) \<and> 0 < br_current (mo_data s) \<and>
     let_through s + card (in_round (\<not> br_cycle (mo_data s)) s) = rounds s * (m - 1) \<and>
     (\<forall>c k timed op. mo_pc s c = Waiting k timed op \<longrightarrow>
        k = br_cond \<and> \<not> timed \<and> (op = Arrived (br_cycle (mo_data s)) \<or> will_wake_all br_cond s))"

lemma barrier_okD:
  assumes "barrier_ok m n s"
  shows "mo_pc s c \<noteq> Away \<Longrightarrow> c < n" "br_initial (mo_data s) = int m"
    "br_current (mo_data s) = int m - int (card (in_round (br_cycle (mo_data s)) s))" "0 < br_current (mo_data s)"
    "let_through s + card (in_round (\<not> br_cycle (mo_data s)) s) = rounds s * (m - 1)"
    "mo_pc s c = Waiting k timed op \<Longrightarrow>
        k = br_cond \<and> \<not> timed \<and> (op = Arrived (br_cycle (mo_data s)) \<or> will_wake_all br_cond s)"
  using assms unfolding barrier_ok_def by blast+

lemma barrier_okI:
  assumes "\<And>c. mo_pc s c \<noteq> Away \<Longrightarrow> c < n" "br_initial (mo_data s) = int m"
    "br_current (mo_data s) = int m - int (card (in_round (br_cycle (mo_data s)) s))" "0 < br_current (mo_data s)"
    "let_through s + card (in_round (\<not> br_cycle (mo_data s)) s) = rounds s * (m - 1)"
    "\<And>c k timed op. mo_pc s c = Waiting k timed op \<Longrightarrow>
        k = br_cond \<and> \<not> timed \<and> (op = Arrived (br_cycle (mo_data s)) \<or> will_wake_all br_cond s)"
  shows "barrier_ok m n s"
  using assms unfolding barrier_ok_def by blast

text \<open>Outside the critical sections nobody changes what it is waiting for.\<close>

lemma quiet_step:
  assumes I: "mon_inv s" and st: "mstep br_body e s = Some t" and ns: "\<And>c. e \<noteq> Section c"
    and call: "case e of Call c op \<Rightarrow> op = Arrive | _ \<Rightarrow> True"
  shows "in_round b t = in_round b s \<and> mo_data t = mo_data s \<and> mo_log t = mo_log s \<and>
    (\<forall>c k timed op. mo_pc t c = Waiting k timed op \<longrightarrow> mo_pc s c = Waiting k timed op) \<and>
    (\<forall>c. mo_pc t c \<noteq> Away \<longrightarrow> mo_pc s c \<noteq> Away \<or> (\<exists>op. e = Call c op))"
proof (cases e)
  case (Notify c)
  with st obtain ns' r where c: "mo_pc s c = Notifying ns' r" by (auto split: pc.splits)
  show ?thesis
  proof (cases ns')
    case (Cons x xs)
    let ?u = "s\<lparr>mo_pc := (mo_pc s)(c := Notifying xs r)\<rparr>"
    have U: "mon_inv ?u" using c by (intro mon_inv_pc [OF I, where c = c]) auto
    have t: "t = notified x ?u" using Cons c st Notify by simp
    have "pending_op (mo_pc t d) = pending_op (mo_pc s d) \<and> (\<forall>k b op. mo_pc t d = Waiting k b op \<longrightarrow> mo_pc s d = Waiting k b op) \<and>
      (mo_pc t d \<noteq> Away \<longrightarrow> mo_pc s d \<noteq> Away)" for d
    proof (cases "d \<in> woken_set x ?u")
      case True
      with woken_waiting [OF U] obtain b op where w: "mo_pc ?u d = Waiting (target x) b op" by blast
      then have "d \<noteq> c" by auto
      with w True show ?thesis by (simp add: t notified_effect(1) [OF U] wakes_def)
    next
      case False
      with c show ?thesis by (cases "d = c") (simp_all add: t notified_effect(1) [OF U])
    qed
    note d = this
    have "in_round b t = in_round b s" using d by (simp add: in_round_def)
    moreover have "mo_data t = mo_data s" "mo_log t = mo_log s" by (simp_all add: t notified_effect(2,4) [OF U])
    ultimately show ?thesis using d by blast
  qed (use st c Notify in \<open>auto simp: in_round_def split: if_splits\<close>)
next
  case (Section c)
  with ns [of c] show ?thesis by simp
next
  case (Call c op)
  with st call show ?thesis by (auto simp: in_round_def split: pc.splits if_splits)
next
  case (Acquire c)
  with st show ?thesis by (auto simp: in_round_def split: pc.splits if_splits)
next
  case (Time_out c)
  with st show ?thesis by (auto simp: in_round_def split: pc.splits if_splits)
next
  case (Late c)
  with st show ?thesis by (auto simp: in_round_def split: pc.splits if_splits)
qed

lemma quiet_ok:
  assumes ok: "barrier_ok m n s" and I: "mon_inv s" "mon_inv t" and st: "mstep br_body e s = Some t" and ns: "\<And>c. e \<noteq> Section c"
    and call: "case e of Call c op \<Rightarrow> c < n \<and> op = Arrive | _ \<Rightarrow> True"
  shows "barrier_ok m n t"
proof -
  have call': "case e of Call c op \<Rightarrow> op = Arrive | _ \<Rightarrow> True" using call by (cases e) simp_all
  note q = quiet_step [OF I(1) st ns call']
  have eq: "in_round b t = in_round b s" "mo_data t = mo_data s" "mo_log t = mo_log s" for b using q by blast+
  have eq': "rounds t = rounds s" "let_through t = let_through s" using eq(3) by (simp_all add: rounds_def let_through_def)
  have old: "mo_pc s c = Waiting k timed op" if "mo_pc t c = Waiting k timed op" for c k timed op using q that by blast
  have "c < n" if "mo_pc t c \<noteq> Away" for c
  proof -
    from q that have "mo_pc s c \<noteq> Away \<or> (\<exists>op. e = Call c op)" by blast
    with call barrier_okD(1) [OF ok, of c] show ?thesis by auto
  qed
  moreover have "k = br_cond \<and> \<not> timed \<and> (op = Arrived (br_cycle (mo_data t)) \<or> will_wake_all br_cond t)"
    if w: "mo_pc t c = Waiting k timed op" for c k timed op
  proof -
    have "c \<in> set (mo_cond t k)" using I(2) w by (auto simp: mon_inv_def)
    then have "mo_cond t k \<noteq> []" by auto
    with barrier_okD(6) [OF ok old [OF w]] will_wake_all_step [OF I(1) st ns] eq(2) show ?thesis by auto
  qed
  ultimately show ?thesis unfolding barrier_ok_def eq eq' using barrier_okD(2-5) [OF ok] by blast
qed

lemma in_round_finite: "barrier_ok m n s \<Longrightarrow> finite (in_round b s) \<and> in_round b s \<subseteq> {..<n}"
proof -
  assume ok: "barrier_ok m n s"
  have "in_round b s \<subseteq> {..<n}"
  proof
    fix c assume "c \<in> in_round b s"
    then have "mo_pc s c \<noteq> Away" by (auto simp: in_round_def)
    with barrier_okD(1) [OF ok, of c] show "c \<in> {..<n}" by simp
  qed
  then show ?thesis using finite_subset by blast
qed

lemma section_ok:
  assumes ok: "barrier_ok m n s" and st: "mstep br_body (Section c) s = Some t" and n: "n \<le> m" "int m < 2 ^ 64"
  shows "barrier_ok m n t"
proof -
  from st obtain op x where c: "mo_pc s c = Inside op x" by (auto split: pc.splits)
  let ?b = "br_cycle (mo_data s)"
  note fin = in_round_finite [OF ok]
  have cn: "c < n" using barrier_okD(1) [OF ok, of c] c by simp
  have keep: "will_wake_all br_cond u" if "will_wake_all br_cond s" "\<And>d. d \<noteq> c \<Longrightarrow> mo_pc u d = mo_pc s d" for u
    by (rule will_wake_all_other [OF that(1), where c = c]) (use c that(2) in auto)
  have waits: "barrier_ok m n t" if d: "br_body op x (mo_data s) = (d, Wait_on br_cond False (Arrived ?b))"
    and d': "br_cycle d = ?b" "br_initial d = int m" "br_current d = int m - int (card (insert c (in_round ?b s)))" "0 < br_current d"
    and nr: "c \<notin> in_round (\<not> ?b) s" for d
  proof -
    have t: "mo_data t = d" "mo_log t = mo_log s" "mo_pc t = (mo_pc s)(c := Waiting br_cond False (Arrived ?b))"
      using st c d by auto
    have "in_round ?b t = insert c (in_round ?b s)" "in_round (\<not> ?b) t = in_round (\<not> ?b) s"
      using nr by (auto simp: in_round_def t)
    moreover have "will_wake_all br_cond s \<Longrightarrow> will_wake_all br_cond t" by (rule keep) (simp_all add: t)
    moreover have "rounds t = rounds s" "let_through t = let_through s" by (simp_all add: t(2) rounds_def let_through_def)
    ultimately show ?thesis using barrier_okD(5) [OF ok] d'
      by (intro barrier_okI) (auto simp: t split: if_splits dest: barrier_okD(1,6) [OF ok] intro: cn)
  qed
  show ?thesis
  proof (cases op)
    case Arrive
    have out: "c \<notin> in_round b s" for b using c Arrive by (simp add: in_round_def)
    have cur: "0 < br_current (mo_data s)" "br_current (mo_data s) < 2 ^ 64" using barrier_okD(3,4) [OF ok] n(2) by auto
    then have u: "u64 (br_current (mo_data s) - 1) = br_current (mo_data s) - 1" by (simp add: u64_def)
    show ?thesis
    proof (cases "br_current (mo_data s) = 1")
      case False
      with cur out u barrier_okD(2,3) [OF ok] fin Arrive show ?thesis
        by (intro waits [of "(mo_data s)\<lparr>br_current := br_current (mo_data s) - 1\<rparr>"]) (auto simp: br_wait_def br_cond_wait_def Let_def)
    next
      case True
      have all: "card (in_round ?b s) = m - 1" "0 < m" using barrier_okD(3) [OF ok] True n(1) cn by auto
      have "in_round (\<not> ?b) s = {}"
      proof (rule ccontr)
        assume "in_round (\<not> ?b) s \<noteq> {}"
        then obtain d where d: "d \<in> in_round (\<not> ?b) s" by blast
        have ne: "d \<noteq> c" using d out [of "\<not> ?b"] by blast
        have nb: "d \<notin> in_round ?b s" using d by (simp add: in_round_def)
        have "card (insert c (in_round ?b s)) = m" using all fin [of ?b] out [of ?b] by simp
        then have "card (insert d (insert c (in_round ?b s))) = Suc m" using ne nb fin [of ?b] by (subst card_insert_disjoint) auto
        moreover have "insert d (insert c (in_round ?b s)) \<subseteq> {..<n}" using d fin [of ?b] fin [of "\<not> ?b"] cn by blast
        ultimately have "Suc m \<le> n" by (metis card_lessThan card_mono finite_lessThan)
        with n(1) show False by simp
      qed
      note none = this
      let ?d = "(mo_data s)\<lparr>br_cycle := \<not> ?b, br_current := br_initial (mo_data s)\<rparr>"
      have b: "br_body op x (mo_data s) = (?d, Leave [Notify_all br_cond] True)"
        using Arrive u True by (simp add: br_wait_def Let_def)
      with st c have t: "mo_data t = ?d" "mo_log t = mo_log s @ [(op, True)]" "mo_pc t = (mo_pc s)(c := Notifying [Notify_all br_cond] True)"
        by auto
      have "will_wake_all br_cond t" unfolding will_wake_all_def t(3) by (metis fun_upd_same list.set_intros(1))
      moreover have "in_round b t = in_round b s" for b using out by (auto simp: in_round_def t)
      moreover have "rounds t = Suc (rounds s)" "let_through t = let_through s" by (simp_all add: t(2) rounds_def let_through_def)
      ultimately show ?thesis using barrier_okD(2,5) [OF ok] none all
        by (intro barrier_okI) (auto simp: t split: if_splits dest: barrier_okD(1,6) [OF ok] intro: cn)
    qed
  next
    case (Arrived cy)
    then have "in_round cy s = insert c (in_round cy s)" using c by (auto simp: in_round_def)
    show ?thesis
    proof (cases "cy = ?b")
      case True
      with Arrived c barrier_okD(2,3,4) [OF ok] show ?thesis
        by (intro waits [of "mo_data s"]) (auto simp: br_cond_wait_def in_round_def insert_absorb)
    next
      case False
      then have cy: "cy = (\<not> ?b)" by simp
      have t: "mo_data t = mo_data s" "mo_log t = mo_log s @ [(op, False)]" "mo_pc t = (mo_pc s)(c := Notifying [] False)"
        using st c Arrived False by (auto simp: br_cond_wait_def)
      have mem: "c \<in> in_round (\<not> ?b) s" using c Arrived cy by (simp add: in_round_def)
      have "in_round ?b t = in_round ?b s" "in_round (\<not> ?b) t = in_round (\<not> ?b) s - {c}"
        using c Arrived cy by (auto simp: in_round_def t)
      moreover have "card (in_round (\<not> ?b) s) = Suc (card (in_round (\<not> ?b) s - {c}))"
        using mem fin by (metis card.remove)
      moreover have "will_wake_all br_cond s \<Longrightarrow> will_wake_all br_cond t" by (rule keep) (simp_all add: t)
      moreover have "rounds t = rounds s" "let_through t = Suc (let_through s)" by (simp_all add: t(2) rounds_def let_through_def)
      ultimately show ?thesis using barrier_okD(2-5) [OF ok]
        by (intro barrier_okI) (auto simp: t split: if_splits dest: barrier_okD(1,6) [OF ok] intro: cn)
    qed
  qed
qed

lemma barrier_reach_ok:
  assumes "barrier_new (int m) = Inr d" "barrier_reach d n s" "n \<le> m" "int m < 2 ^ 64"
  shows "barrier_ok m n s"
  using assms(2)
proof (induction rule: barrier_reach.induct)
  case barrier_start
  then show ?case using assms(1)
    by (auto simp: barrier_ok_def monitor_new_def barrier_new_def in_round_def let_through_def rounds_def split: if_splits)
next
  case (barrier_step s e t)
  have I: "mon_inv s" by (rule mreach_inv [OF barrier_mreach [OF barrier_step.hyps(1)]])
  show ?case
  proof (cases "\<exists>c. e = Section c")
    case True
    with section_ok [OF barrier_step.IH _ assms(3,4)] barrier_step.hyps(3) show ?thesis by blast
  next
    case False
    with quiet_ok [OF barrier_step.IH I mon_inv_step [OF I barrier_step.hyps(3)] barrier_step.hyps(3) _ barrier_step.hyps(2)]
    show ?thesis by blast
  qed
qed

subsection \<open>The properties\<close>

text \<open>C25: a barrier keeps its fibers together. When at most \<open>m\<close> fibers use a barrier for \<open>m\<close>, then in every reachable state: as many
  calls have returned \<open>true\<close> as there were rounds; each round lets exactly \<open>m - 1\<close> others through, with \<open>false\<close>, of which
  those that have not yet left are still on their way; fewer than \<open>m\<close> fibers have arrived in the present round, and
  \<open>current_\<close> is the number still missing, so nobody passes before the last arrives; and unless
  the last of a round is still about to notify, only fibers of the present round sleep.\<close>

theorem barrier_keeps_together:
  assumes "barrier_new (int m) = Inr d" "barrier_reach d n s" "n \<le> m" "int m < 2 ^ 64"
  shows "let_through s + card (in_round (\<not> br_cycle (mo_data s)) s) = rounds s * (m - 1) \<and>
    card (in_round (br_cycle (mo_data s)) s) < m \<and>
    br_current (mo_data s) = int m - int (card (in_round (br_cycle (mo_data s)) s)) \<and>
    (\<not> will_wake_all br_cond s \<longrightarrow> (\<forall>k. set (mo_cond s k) \<subseteq> in_round (br_cycle (mo_data s)) s))"
proof -
  have ok: "barrier_ok m n s" by (rule barrier_reach_ok [OF assms])
  have I: "mon_inv s" by (rule mreach_inv [OF barrier_mreach [OF assms(2)]])
  have "c \<in> in_round (br_cycle (mo_data s)) s" if w: "\<not> will_wake_all br_cond s" and c: "c \<in> set (mo_cond s k)" for c k
  proof -
    from I c obtain timed op where "mo_pc s c = Waiting k timed op" by (auto simp: mon_inv_def)
    with barrier_okD(6) [OF ok this] w show ?thesis by (auto simp: in_round_def)
  qed
  with barrier_okD(3-5) [OF ok] show ?thesis by auto
qed

text \<open>Two fibers and two rounds: fiber 0 sleeps until 1 arrives; then 1 comes back at once, before 0 has run.\<close>

definition barrier_example :: "br_op event list" where
  "barrier_example = enters 0 Arrive @ enters 1 Arrive @ [Notify 1, Notify 1] @ enters 1 Arrive @ goes_on 0"

fun barrier_calls :: "nat \<Rightarrow> br_op event list \<Rightarrow> bool" where
  "barrier_calls n [] = True"
| "barrier_calls n (e # es) = ((case e of Call c op \<Rightarrow> c < n \<and> op = Arrive | _ \<Rightarrow> True) \<and> barrier_calls n es)"

lemma barrier_run_reach:
  "barrier_reach d n s \<Longrightarrow> barrier_calls n es \<Longrightarrow> mrun br_body es s = Some t \<Longrightarrow> barrier_reach d n t"
  by (induction es arbitrary: s) (auto intro: barrier_step split: Option.bind_splits)

definition barrier_two :: barrier where
  "barrier_two = \<lparr>br_initial = 2, br_current = 2, br_cycle = True\<rparr>"

theorem barrier_keeps_together_witness:
  "\<exists>s. mrun br_body barrier_example (monitor_new barrier_two) = Some s \<and> mo_log s = [(Arrive, True), (Arrived True, False)] \<and>
     1 + card (in_round True s) = 1 * (2 - 1 :: nat) \<and> card (in_round False s) < 2"
proof -
  have run: "map_option (\<lambda>s. (mo_log s, br_cycle (mo_data s))) (mrun br_body barrier_example (monitor_new barrier_two)) =
    Some ([(Arrive, True), (Arrived True, False)], False)" by code_simp
  then obtain s where s: "mrun br_body barrier_example (monitor_new barrier_two) = Some s"
    "mo_log s = [(Arrive, True), (Arrived True, False)]" "br_cycle (mo_data s) = False" by auto
  have "barrier_new (int 2) = Inr barrier_two" by (simp add: barrier_new_def barrier_two_def)
  from barrier_keeps_together [OF this barrier_run_reach [OF barrier_start _ s(1)], of 2] s show ?thesis
    by (simp add: barrier_example_def enters_def goes_on_def rounds_def let_through_def)
qed

text \<open>The bound on the fibers is needed, since \<open>cycle_\<close> is only a flag: with three fibers and a count of two, a fiber that has not yet
  run when the next round is complete goes back to sleep.\<close>

lemma barrier_missed_round:
  "map_option (\<lambda>s. (mo_log s, mo_pc s 0))
     (mrun br_body (enters 0 Arrive @ enters 1 Arrive @ [Notify 1, Notify 1] @ enters 1 Arrive @ enters 2 Arrive @ goes_on 0 @ [Notify 2, Notify 2] @ goes_on 0)
       (monitor_new barrier_two)) = Some ([(Arrive, True), (Arrive, True)], Waiting br_cond False (Arrived True))"
  by code_simp

end
