(* ===== verification/Fiber_Storage.thy ===== *)
theory Fiber_Storage
  imports Dumbo_Prelude
begin

text \<open>
  Fiber-specific storage: \<open>fiber_specific_ptr\<close> (\<open>fiber/fss.hpp\<close>) over the map of a context
  (\<open>context::get_fss_data\<close>, \<open>set_fss_data\<close> and \<open>set_terminated\<close> in \<open>fiber/context.cpp\<close>). An object is a number,
  a null pointer is \<open>None\<close>; a \<open>fiber_specific_ptr\<close> is named by its address, the key. Deleting an object twice is the result
  \<open>None\<close>. The cleanup functions are held by \<open>intrusive_ptr\<close>s, so they are values here.
\<close>

subsection \<open>Cleanup\<close>

text \<open>The function given by the user may be null; what it does with the data is the user's, so a call is recorded.\<close>

datatype fss_cleanup_function = Default_cleanup | Custom_cleanup "nat option"

record objects =
  live :: "nat set"
  cleaned :: "(nat \<times> nat option) list"

definition delete_object :: "nat option \<Rightarrow> objects \<Rightarrow> objects option" where
  "delete_object p h =
     (case p of None \<Rightarrow> Some h | Some x \<Rightarrow> if x \<in> live h then Some (h\<lparr>live := live h - {x}\<rparr>) else None)"

fun cleanup :: "fss_cleanup_function \<Rightarrow> nat option \<Rightarrow> objects \<Rightarrow> objects option" where
  "cleanup Default_cleanup p h = delete_object p h"
| "cleanup (Custom_cleanup (Some f)) p h = Some (h\<lparr>cleaned := cleaned h @ [(f, p)]\<rparr>)"
| "cleanup (Custom_cleanup None) p h = Some h"

record fss_data =
  fss_vp :: "nat option"
  fss_cleanup :: fss_cleanup_function

definition do_cleanup :: "fss_data \<Rightarrow> objects \<Rightarrow> objects option" where
  "do_cleanup d h = cleanup (fss_cleanup d) (fss_vp d) h"

subsection \<open>The map of a context\<close>

text \<open>\<open>std::map\<close>, by increasing key; \<open>insert\<close> does nothing when the key is there.\<close>

type_synonym fss_map = "(nat \<times> fss_data) list"

definition fss_insert :: "nat \<Rightarrow> fss_data \<Rightarrow> fss_map \<Rightarrow> fss_map" where
  "fss_insert k d fs = (if k \<in> fst ` set fs then fs else insort_key fst (k, d) fs)"

definition fss_erase :: "nat \<Rightarrow> fss_map \<Rightarrow> fss_map" where
  "fss_erase k fs = filter (\<lambda>e. fst e \<noteq> k) fs"

definition get_fss_data :: "nat \<Rightarrow> fss_map \<Rightarrow> nat option" where
  "get_fss_data k fs = (case map_of fs k of Some d \<Rightarrow> fss_vp d | None \<Rightarrow> None)"

definition set_fss_data ::
  "nat \<Rightarrow> fss_cleanup_function \<Rightarrow> nat option \<Rightarrow> bool \<Rightarrow> fss_map \<times> objects \<Rightarrow> (fss_map \<times> objects) option" where
  "set_fss_data k fn data cleanup_existing s =
     (case s of (fs, h) \<Rightarrow>
        (case map_of fs k of
           Some d \<Rightarrow>
             (case (if cleanup_existing then do_cleanup d h else Some h) of
                None \<Rightarrow> None
              | Some h \<Rightarrow>
                  if data \<noteq> None then Some (fss_insert k \<lparr>fss_vp = data, fss_cleanup = fn\<rparr> fs, h)
                  else Some (fss_erase k fs, h))
         | None \<Rightarrow> Some (fss_insert k \<lparr>fss_vp = data, fss_cleanup = fn\<rparr> fs, h)))"

text \<open>What \<open>set_terminated\<close> does with the map.\<close>

fun clear_fss_data :: "fss_map \<Rightarrow> objects \<Rightarrow> objects option" where
  "clear_fss_data [] h = Some h"
| "clear_fss_data ((k, d) # fs) h = (case do_cleanup d h of None \<Rightarrow> None | Some h \<Rightarrow> clear_fss_data fs h)"

definition terminate_fss :: "fss_map \<times> objects \<Rightarrow> (fss_map \<times> objects) option" where
  "terminate_fss s = (case s of (fs, h) \<Rightarrow> map_option (\<lambda>h. ([], h)) (clear_fss_data fs h))"

subsection \<open>The pointer\<close>

definition ptr_get :: "nat \<Rightarrow> fss_map \<times> objects \<Rightarrow> nat option" where
  "ptr_get k s = get_fss_data k (fst s)"

definition ptr_release ::
  "nat \<Rightarrow> fss_cleanup_function \<Rightarrow> fss_map \<times> objects \<Rightarrow> (nat option \<times> fss_map \<times> objects) option" where
  "ptr_release k fn s = map_option (\<lambda>s'. (ptr_get k s, s')) (set_fss_data k fn None False s)"

definition ptr_reset ::
  "nat \<Rightarrow> fss_cleanup_function \<Rightarrow> nat option \<Rightarrow> fss_map \<times> objects \<Rightarrow> (fss_map \<times> objects) option" where
  "ptr_reset k fn t s = (if ptr_get k s \<noteq> t then set_fss_data k fn t True s else Some s)"

definition ptr_delete :: "nat \<Rightarrow> fss_cleanup_function \<Rightarrow> fss_map \<times> objects \<Rightarrow> (fss_map \<times> objects) option" where
  "ptr_delete k fn s = set_fss_data k fn None True s"

subsection \<open>Programs of a fiber\<close>

text \<open>The operations of a fiber, with the address of the pointer. \<open>New\<close> makes an object; \<open>kind\<close> gives each pointer its
  cleanup function.\<close>

datatype fss_op = New nat | Reset nat "nat option" | Release nat | Delete nat | Terminate

fun fss_step :: "(nat \<Rightarrow> fss_cleanup_function) \<Rightarrow> fss_op \<Rightarrow> fss_map \<times> objects \<Rightarrow> (fss_map \<times> objects) option" where
  "fss_step kind (New x) s = (case s of (fs, h) \<Rightarrow> Some (fs, h\<lparr>live := insert x (live h)\<rparr>))"
| "fss_step kind (Reset k t) s = ptr_reset k (kind k) t s"
| "fss_step kind (Release k) s = map_option snd (ptr_release k (kind k) s)"
| "fss_step kind (Delete k) s = ptr_delete k (kind k) s"
| "fss_step kind Terminate s = terminate_fss s"

fun fss_run :: "(nat \<Rightarrow> fss_cleanup_function) \<Rightarrow> fss_op list \<Rightarrow> fss_map \<times> objects \<Rightarrow> (fss_map \<times> objects) option" where
  "fss_run kind [] s = Some s"
| "fss_run kind (op # ops) s = (case fss_step kind op s of None \<Rightarrow> None | Some s \<Rightarrow> fss_run kind ops s)"

text \<open>What a program may do: an object is made once, given to at most one pointer while it lives, and a pointer is given an object
  only when it has no entry in the map.\<close>

fun fss_allowed :: "fss_op \<Rightarrow> fss_map \<times> objects \<Rightarrow> bool" where
  "fss_allowed (New x) (fs, h) = (x \<notin> live h)"
| "fss_allowed (Reset k (Some t)) (fs, h) =
     (t \<in> live h \<and> Some t \<notin> (fss_vp \<circ> snd) ` set fs \<and> map_of fs k = None)"
| "fss_allowed op s = True"

text \<open>The specification: what each pointer holds.\<close>

fun fss_spec :: "fss_op \<Rightarrow> (nat \<Rightarrow> nat option) \<Rightarrow> nat \<Rightarrow> nat option" where
  "fss_spec (New x) m = m"
| "fss_spec (Reset k t) m = m(k := t)"
| "fss_spec (Release k) m = m(k := None)"
| "fss_spec (Delete k) m = m(k := None)"
| "fss_spec Terminate m = (\<lambda>k. None)"

text \<open>The objects an operation deletes.\<close>

fun fss_dropped :: "(nat \<Rightarrow> fss_cleanup_function) \<Rightarrow> fss_op \<Rightarrow> (nat \<Rightarrow> nat option) \<Rightarrow> nat set" where
  "fss_dropped kind (New x) m = {}"
| "fss_dropped kind (Reset k t) m = (if m k \<noteq> t \<and> kind k = Default_cleanup then set_option (m k) else {})"
| "fss_dropped kind (Release k) m = {}"
| "fss_dropped kind (Delete k) m = (if kind k = Default_cleanup then set_option (m k) else {})"
| "fss_dropped kind Terminate m = {x. \<exists>k. m k = Some x \<and> kind k = Default_cleanup}"

fun fss_spec_run :: "(nat \<Rightarrow> fss_cleanup_function) \<Rightarrow> fss_op list \<Rightarrow> (nat \<Rightarrow> nat option) \<times> nat set \<Rightarrow> (nat \<Rightarrow> nat option) \<times> nat set" where
  "fss_spec_run kind [] s = s"
| "fss_spec_run kind (op # ops) (m, L) =
     fss_spec_run kind ops (fss_spec op m, (case op of New x \<Rightarrow> insert x L | _ \<Rightarrow> L - fss_dropped kind op m))"

fun fss_all_allowed :: "(nat \<Rightarrow> fss_cleanup_function) \<Rightarrow> fss_op list \<Rightarrow> fss_map \<times> objects \<Rightarrow> bool" where
  "fss_all_allowed kind [] s = True"
| "fss_all_allowed kind (op # ops) s =
     (fss_allowed op s \<and> (case fss_step kind op s of None \<Rightarrow> True | Some s \<Rightarrow> fss_all_allowed kind ops s))"

subsection \<open>The map\<close>

lemma insort_key_keys [simp]: "set (insort_key fst e fs) = insert e (set fs)"
  by (induction fs) auto

lemma distinct_insort_keys: "fst e \<notin> fst ` set fs \<Longrightarrow> distinct (map fst (insort_key fst e fs)) = distinct (map fst fs)"
  by (induction fs) auto

lemma fss_erase_set: "set (fss_erase k fs) = {e \<in> set fs. fst e \<noteq> k}"
  by (simp add: fss_erase_def)

lemma distinct_erase: "distinct (map fst fs) \<Longrightarrow> distinct (map fst (fss_erase k fs))"
  by (simp add: fss_erase_def distinct_map_filter)

lemma get_iff:
  assumes "distinct (map fst fs)"
  shows "get_fss_data k fs = Some x \<longleftrightarrow> (\<exists>d. (k, d) \<in> set fs \<and> fss_vp d = Some x)"
proof -
  have "get_fss_data k fs = Some x \<longleftrightarrow> (\<exists>d. map_of fs k = Some d \<and> fss_vp d = Some x)"
    by (simp add: get_fss_data_def split: option.split)
  then show ?thesis by (simp add: map_of_eq_Some_iff [OF assms])
qed

definition fss_ok :: "(nat \<Rightarrow> fss_cleanup_function) \<Rightarrow> fss_map \<Rightarrow> objects \<Rightarrow> bool" where
  "fss_ok kind fs h \<longleftrightarrow> distinct (map fst fs) \<and> (\<forall>k d. (k, d) \<in> set fs \<longrightarrow> fss_cleanup d = kind k) \<and>
     (\<forall>k d x. (k, d) \<in> set fs \<longrightarrow> fss_vp d = Some x \<longrightarrow>
        x \<in> live h \<and> (\<forall>k' d'. (k', d') \<in> set fs \<longrightarrow> fss_vp d' = Some x \<longrightarrow> k' = k))"

lemma fss_okD:
  assumes "fss_ok kind fs h"
  shows "distinct (map fst fs)" "(k, d) \<in> set fs \<Longrightarrow> fss_cleanup d = kind k"
    "(k, d) \<in> set fs \<Longrightarrow> fss_vp d = Some x \<Longrightarrow> x \<in> live h"
    "(k, d) \<in> set fs \<Longrightarrow> fss_vp d = Some x \<Longrightarrow> (k', d') \<in> set fs \<Longrightarrow> fss_vp d' = Some x \<Longrightarrow> k' = k"
  using assms unfolding fss_ok_def by blast+

lemma fss_okI:
  assumes "distinct (map fst fs)" "\<And>k d. (k, d) \<in> set fs \<Longrightarrow> fss_cleanup d = kind k"
    "\<And>k d x. (k, d) \<in> set fs \<Longrightarrow> fss_vp d = Some x \<Longrightarrow> x \<in> live h"
    "\<And>k d x k' d'. (k, d) \<in> set fs \<Longrightarrow> fss_vp d = Some x \<Longrightarrow> (k', d') \<in> set fs \<Longrightarrow> fss_vp d' = Some x \<Longrightarrow> k' = k"
  shows "fss_ok kind fs h"
  using assms unfolding fss_ok_def by blast

text \<open>A cleanup deletes its object, if it is of the default kind, and never fails while the object lives.\<close>

lemma do_cleanup_live:
  assumes "\<And>x. fss_vp d = Some x \<Longrightarrow> x \<in> live h"
  shows "\<exists>h'. do_cleanup d h = Some h' \<and>
    live h' = live h - (if fss_cleanup d = Default_cleanup then set_option (fss_vp d) else {})"
proof (cases "fss_cleanup d")
  case Default_cleanup
  with assms show ?thesis by (cases "fss_vp d") (auto simp: do_cleanup_def delete_object_def)
next
  case (Custom_cleanup f)
  then show ?thesis by (cases f) (auto simp: do_cleanup_def)
qed

lemma fss_ok_erased:
  assumes ok: "fss_ok kind fs h" and h': "\<And>x. x \<in> live h \<Longrightarrow> x \<notin> live h' \<Longrightarrow> get_fss_data k fs = Some x"
  shows "fss_ok kind (fss_erase k fs) h'"
proof -
  have "x \<in> live h'" if "(k', d) \<in> set fs" "k' \<noteq> k" "fss_vp d = Some x" for k' d x
  proof (rule ccontr)
    assume "x \<notin> live h'"
    with fss_okD(3) [OF ok that(1,3)] h' have "get_fss_data k fs = Some x" by blast
    with get_iff [OF fss_okD(1) [OF ok]] obtain d' where "(k, d') \<in> set fs" "fss_vp d' = Some x" by blast
    with fss_okD(4) [OF ok that(1,3)] that(2) show False by blast
  qed
  note alive = this
  show ?thesis
  proof (rule fss_okI)
    show "distinct (map fst (fss_erase k fs))" by (rule distinct_erase [OF fss_okD(1) [OF ok]])
  qed (auto simp: fss_erase_set intro: fss_okD(2) [OF ok] alive dest: fss_okD(4) [OF ok])
qed

lemma get_erased: "get_fss_data k' (fss_erase k fs) = (if k' = k then None else get_fss_data k' fs)"
  by (induction fs) (auto simp: get_fss_data_def fss_erase_def)

lemma get_inserted:
  assumes "map_of fs k = None"
  shows "get_fss_data k' (fss_insert k d fs) = (if k' = k then fss_vp d else get_fss_data k' fs)"
proof -
  have "k \<notin> fst ` set fs" using assms by (simp add: map_of_eq_None_iff)
  moreover have "map_of (insort_key fst (k, d) fs) k' = (if k' = k then Some d else map_of fs k')" if "k \<notin> fst ` set fs"
    using that by (induction fs) auto
  ultimately show ?thesis by (simp add: get_fss_data_def fss_insert_def)
qed

lemma fss_ok_inserted:
  assumes ok: "fss_ok kind fs h" and k: "map_of fs k = None"
    and t: "\<And>x. t = Some x \<Longrightarrow> x \<in> live h \<and> Some x \<notin> (fss_vp \<circ> snd) ` set fs"
  shows "fss_ok kind (fss_insert k \<lparr>fss_vp = t, fss_cleanup = kind k\<rparr> fs) h"
proof -
  have new: "k \<notin> fst ` set fs" using k by (simp add: map_of_eq_None_iff)
  have fresh: "t \<noteq> Some x" if "(k', d) \<in> set fs" "fss_vp d = Some x" for k' d x
  proof
    assume "t = Some x"
    with t have "Some x \<notin> (fss_vp \<circ> snd) ` set fs" by blast
    with that show False by (metis comp_apply image_eqI snd_conv)
  qed
  have "set (fss_insert k \<lparr>fss_vp = t, fss_cleanup = kind k\<rparr> fs) = insert (k, \<lparr>fss_vp = t, fss_cleanup = kind k\<rparr>) (set fs)"
    using new by (simp add: fss_insert_def)
  note set = this
  show ?thesis
  proof (rule fss_okI)
    show "distinct (map fst (fss_insert k \<lparr>fss_vp = t, fss_cleanup = kind k\<rparr> fs))"
      using fss_okD(1) [OF ok] new by (simp add: fss_insert_def distinct_insort_keys)
    fix k1 d1 assume 1: "(k1, d1) \<in> set (fss_insert k \<lparr>fss_vp = t, fss_cleanup = kind k\<rparr> fs)"
    then show "fss_cleanup d1 = kind k1" unfolding set by (auto intro: fss_okD(2) [OF ok])
    fix x assume x: "fss_vp d1 = Some x"
    from 1 x show "x \<in> live h" unfolding set using t by (auto intro: fss_okD(3) [OF ok])
    fix k2 d2 assume 2: "(k2, d2) \<in> set (fss_insert k \<lparr>fss_vp = t, fss_cleanup = kind k\<rparr> fs)" "fss_vp d2 = Some x"
    from 1 x 2 fresh show "k2 = k1" unfolding set by (auto dest: fss_okD(4) [OF ok])
  qed
qed

lemma clear_live:
  assumes "fss_ok kind fs h"
  shows "\<exists>h'. clear_fss_data fs h = Some h' \<and>
    live h' = live h - {x. \<exists>k. get_fss_data k fs = Some x \<and> kind k = Default_cleanup}"
  using assms
proof (induction fs arbitrary: h)
  case Nil
  then show ?case by (simp add: get_fss_data_def)
next
  case (Cons e fs)
  obtain k d where e: "e = (k, d)" by (cases e) auto
  have kd: "(k, d) \<in> set (e # fs)" using e by simp
  obtain h1 where h1: "do_cleanup d h = Some h1"
    "live h1 = live h - (if fss_cleanup d = Default_cleanup then set_option (fss_vp d) else {})"
    using do_cleanup_live fss_okD(3) [OF Cons.prems kd] by metis
  have k: "k \<notin> fst ` set fs" using fss_okD(1) [OF Cons.prems] e by simp
  then have er: "fss_erase k (e # fs) = fs" by (auto simp: fss_erase_def e intro!: filter_True)
  have get: "get_fss_data k (e # fs) = fss_vp d" "\<And>j. j \<noteq> k \<Longrightarrow> get_fss_data j (e # fs) = get_fss_data j fs"
    "get_fss_data k fs = None"
    using k by (auto simp: get_fss_data_def e map_of_eq_None_iff [THEN iffD2])
  have "fss_ok kind fs h1"
    using fss_ok_erased [OF Cons.prems, where k = k and h' = h1] h1(2) get(1) unfolding er by (auto split: if_splits)
  from Cons.IH [OF this] obtain h' where h': "clear_fss_data fs h1 = Some h'"
    "live h' = live h1 - {x. \<exists>k. get_fss_data k fs = Some x \<and> kind k = Default_cleanup}" by blast
  have "fss_cleanup d = kind k" by (rule fss_okD(2) [OF Cons.prems kd])
  with h1(2) h'(2) have "live h' = live h - {x. \<exists>k. get_fss_data k (e # fs) = Some x \<and> kind k = Default_cleanup}"
    using get by (auto split: if_splits) (metis option.distinct(1))+
  with h' h1 e show ?case by simp
qed

subsection \<open>The operations\<close>

lemma set_null:
  assumes ok: "fss_ok kind fs h"
  shows "\<exists>fs' h'. set_fss_data k (kind k) None b (fs, h) = Some (fs', h') \<and> fss_ok kind fs' h' \<and>
    (\<forall>k'. get_fss_data k' fs' = (if k' = k then None else get_fss_data k' fs)) \<and>
    live h' = live h - (if b \<and> kind k = Default_cleanup then set_option (get_fss_data k fs) else {})"
proof (cases "map_of fs k")
  case None
  then have "get_fss_data k fs = None" by (simp add: get_fss_data_def)
  with None fss_ok_inserted [OF ok None, of None] get_inserted [OF None] show ?thesis
    by (auto simp: set_fss_data_def)
next
  case (Some d)
  have kd: "(k, d) \<in> set fs" using Some by (rule map_of_SomeD)
  have get: "get_fss_data k fs = fss_vp d" using Some by (simp add: get_fss_data_def)
  obtain h' where h': "do_cleanup d h = Some h'"
    "live h' = live h - (if fss_cleanup d = Default_cleanup then set_option (fss_vp d) else {})"
    using do_cleanup_live fss_okD(3) [OF ok kd] by metis
  have "fss_cleanup d = kind k" by (rule fss_okD(2) [OF ok kd])
  moreover have "fss_ok kind (fss_erase k fs) h'"
    by (rule fss_ok_erased [OF ok]) (use h'(2) get in \<open>auto split: if_splits\<close>)
  moreover have "fss_ok kind (fss_erase k fs) h" by (rule fss_ok_erased [OF ok]) simp
  ultimately show ?thesis using h' Some get by (cases b) (simp_all add: set_fss_data_def get_erased)
qed

lemma fss_step_refines:
  assumes ok: "fss_ok kind fs h" and al: "fss_allowed op (fs, h)"
  shows "\<exists>fs' h'. fss_step kind op (fs, h) = Some (fs', h') \<and> fss_ok kind fs' h' \<and>
    (\<lambda>k. get_fss_data k fs') = fss_spec op (\<lambda>k. get_fss_data k fs) \<and>
    live h' = (case op of New x \<Rightarrow> insert x (live h) | _ \<Rightarrow> live h - fss_dropped kind op (\<lambda>k. get_fss_data k fs))"
proof (cases op)
  case (New x)
  have "fss_ok kind fs (h\<lparr>live := insert x (live h)\<rparr>)"
    by (rule fss_okI) (auto intro: fss_okD(1,2,3) [OF ok] dest: fss_okD(4) [OF ok])
  with New show ?thesis by simp
next
  case (Reset k t)
  show ?thesis
  proof (cases "get_fss_data k fs = t")
    case True
    then have "fss_spec op (\<lambda>k. get_fss_data k fs) = (\<lambda>k. get_fss_data k fs)" using Reset by auto
    with True Reset ok show ?thesis by (simp add: ptr_reset_def ptr_get_def)
  next
    case False
    note ne = this
    show ?thesis
    proof (cases t)
      case None
      from set_null [OF ok, of k True] obtain fs' h' where s: "set_fss_data k (kind k) None True (fs, h) = Some (fs', h')"
        "fss_ok kind fs' h'" "\<forall>k'. get_fss_data k' fs' = (if k' = k then None else get_fss_data k' fs)"
        "live h' = live h - (if kind k = Default_cleanup then set_option (get_fss_data k fs) else {})" by auto
      with ne None Reset show ?thesis by (auto simp: ptr_reset_def ptr_get_def)
    next
      case (Some x)
      with al Reset have x: "x \<in> live h" "Some x \<notin> (fss_vp \<circ> snd) ` set fs" "map_of fs k = None" by auto
      then have "get_fss_data k fs = None" by (simp add: get_fss_data_def)
      with fss_ok_inserted [OF ok x(3), of t] get_inserted [OF x(3)] x Some Reset show ?thesis
        by (auto simp: ptr_reset_def ptr_get_def set_fss_data_def)
    qed
  qed
next
  case (Release k)
  from set_null [OF ok, of k False] obtain fs' h' where s: "set_fss_data k (kind k) None False (fs, h) = Some (fs', h')"
    "fss_ok kind fs' h'" "\<forall>k'. get_fss_data k' fs' = (if k' = k then None else get_fss_data k' fs)" "live h' = live h" by auto
  with Release show ?thesis by (auto simp: ptr_release_def)
next
  case (Delete k)
  from set_null [OF ok, of k True] obtain fs' h' where s: "set_fss_data k (kind k) None True (fs, h) = Some (fs', h')"
    "fss_ok kind fs' h'" "\<forall>k'. get_fss_data k' fs' = (if k' = k then None else get_fss_data k' fs)"
    "live h' = live h - (if kind k = Default_cleanup then set_option (get_fss_data k fs) else {})" by auto
  with Delete show ?thesis by (auto simp: ptr_delete_def)
next
  case Terminate
  from clear_live [OF ok] Terminate show ?thesis by (auto simp: terminate_fss_def fss_ok_def get_fss_data_def)
qed

subsection \<open>The properties\<close>

text \<open>C26: fiber-specific pointers implement a map from pointers to objects. Whatever a fiber does with its pointers, as long as it gives an
  object to one pointer only and to a pointer that has no entry: nothing fails, every pointer holds what the
  specification says, and exactly the objects that \<open>reset\<close>, the destructor of a pointer and the end of the
  fiber are to delete are deleted, none of them twice.\<close>

theorem fss_refines_map:
  assumes "fss_all_allowed kind ops ([], h)"
  shows "\<exists>fs h'. fss_run kind ops ([], h) = Some (fs, h') \<and>
    ((\<lambda>k. ptr_get k (fs, h')), live h') = fss_spec_run kind ops ((\<lambda>k. None), live h)"
proof -
  have "\<exists>fs' h'. fss_run kind ops (fs, h) = Some (fs', h') \<and>
      ((\<lambda>k. ptr_get k (fs', h')), live h') = fss_spec_run kind ops ((\<lambda>k. get_fss_data k fs), live h)"
    if "fss_ok kind fs h" "fss_all_allowed kind ops (fs, h)" for fs
    using that
  proof (induction ops arbitrary: fs h)
    case Nil
    then show ?case by (simp add: ptr_get_def)
  next
    case (Cons op ops)
    from Cons.prems(2) have "fss_allowed op (fs, h)" by simp
    from fss_step_refines [OF Cons.prems(1) this] obtain fs1 h1 where s: "fss_step kind op (fs, h) = Some (fs1, h1)"
      "fss_ok kind fs1 h1" "(\<lambda>k. get_fss_data k fs1) = fss_spec op (\<lambda>k. get_fss_data k fs)"
      "live h1 = (case op of New x \<Rightarrow> insert x (live h) | _ \<Rightarrow> live h - fss_dropped kind op (\<lambda>k. get_fss_data k fs))" by blast
    from Cons.prems(2) s(1) have "fss_all_allowed kind ops (fs1, h1)" by simp
    from Cons.IH [OF s(2) this] show ?case by (simp add: s)
  qed
  from this [of "[]"] assms show ?thesis by (simp add: fss_ok_def get_fss_data_def)
qed

text \<open>Two pointers; the first is reset to nothing and used again, the fiber ends with both holding an object.\<close>

definition fss_example :: "fss_op list" where
  "fss_example = [New 1, New 2, New 3, Reset 8 (Some 1), Reset 5 (Some 2), Reset 8 None, Reset 8 (Some 3), Terminate]"

theorem fss_refines_map_witness:
  "\<exists>fs h'. fss_run (\<lambda>k. Default_cleanup) fss_example ([], \<lparr>live = {}, cleaned = []\<rparr>) = Some (fs, h') \<and> live h' = {}"
proof -
  have "fss_all_allowed (\<lambda>k. Default_cleanup) fss_example ([], \<lparr>live = {}, cleaned = []\<rparr>)"
    by (simp add: fss_example_def ptr_reset_def ptr_get_def set_fss_data_def get_fss_data_def fss_insert_def fss_erase_def
        do_cleanup_def delete_object_def terminate_fss_def)
  from fss_refines_map [OF this] obtain fs h' where
    r: "fss_run (\<lambda>k. Default_cleanup) fss_example ([], \<lparr>live = {}, cleaned = []\<rparr>) = Some (fs, h')"
    "((\<lambda>k. ptr_get k (fs, h')), live h') = fss_spec_run (\<lambda>k. Default_cleanup) fss_example ((\<lambda>k. None), {})" by auto
  have "{x. \<exists>k. (if (k :: nat) = 8 then Some 3 else [5 \<mapsto> 2] k) = Some x} = {2, 3 :: nat}" (is "?R = _")
  proof
    show "?R \<subseteq> {2, 3}" by (auto split: if_splits)
    have "2 \<in> ?R" by (rule CollectI, rule exI [of _ 5]) simp
    moreover have "3 \<in> ?R" by (rule CollectI, rule exI [of _ 8]) simp
    ultimately show "{2, 3} \<subseteq> ?R" by blast
  qed
  then have "snd (fss_spec_run (\<lambda>k. Default_cleanup) fss_example ((\<lambda>k. None), {})) = {}" by (simp add: fss_example_def) blast
  with r show ?thesis by (metis snd_conv)
qed

text \<open>But \<open>set_fss_data\<close> does not store an object over another: \<open>insert\<close> keeps the entry that is there. So the second
  \<open>reset\<close> deletes the first object and leaves the pointer to it, and the end of the fiber deletes it again.\<close>

lemma reset_keeps_entry:
  assumes "map_of fs k = Some d" "t \<noteq> None" "ptr_reset k fn t (fs, h) = Some (fs', h')"
  shows "fs' = fs"
proof -
  have "k \<in> fst ` set fs" using assms(1) by (metis map_of_eq_None_iff option.distinct(1))
  with assms show ?thesis by (auto simp: ptr_reset_def set_fss_data_def fss_insert_def split: if_splits option.splits)
qed

theorem reset_leaves_dangling_pointer:
  "\<exists>fs h. fss_run (\<lambda>k. Default_cleanup) [New 1, Reset 8 (Some 1), New 2, Reset 8 (Some 2)] ([], \<lparr>live = {}, cleaned = []\<rparr>) =
      Some (fs, h) \<and> ptr_get 8 (fs, h) = Some 1 \<and> 1 \<notin> live h \<and> 2 \<in> live h \<and> fss_step (\<lambda>k. Default_cleanup) Terminate (fs, h) = None"
  by (simp add: ptr_reset_def ptr_get_def set_fss_data_def get_fss_data_def fss_insert_def do_cleanup_def delete_object_def terminate_fss_def)

end
