(* ===== verification/Fiber_Tuning.thy ===== *)
theory Fiber_Tuning
  imports Dumbo_Prelude
begin

text \<open>
  Scheduling properties of fibers: \<open>fiber_properties\<close> (\<open>fiber/properties.hpp\<close>, \<open>fiber/properties.cpp\<close>) and
  \<open>algorithm_with_properties\<close> (\<open>fiber/algo/algorithm.hpp\<close>, \<open>algo/algorithm.cpp\<close>). Contexts, algorithms and
  properties objects are numbers. What a subclass does in its \<open>awakened\<close> and \<open>property_change\<close> is the user's, so
  the calls are recorded; \<open>new_properties\<close> is a parameter, as is the ready-queue.
\<close>

datatype algorithm_call = Awakened nat nat nat | Property_change nat nat nat

record tuning =
  tu_properties :: "nat \<Rightarrow> nat option"
  tu_ctx :: "nat \<Rightarrow> nat"
  tu_algo :: "nat \<Rightarrow> nat option"
  tu_ready :: "nat set"
  tu_deleted :: "nat list"
  tu_calls :: "algorithm_call list"

definition fiber_properties_new :: "nat \<Rightarrow> nat \<Rightarrow> tuning \<Rightarrow> tuning" where
  "fiber_properties_new p ctx s = s\<lparr>tu_ctx := (tu_ctx s)(p := ctx), tu_algo := (tu_algo s)(p := None)\<rparr>"

definition set_algorithm :: "nat \<Rightarrow> nat \<Rightarrow> tuning \<Rightarrow> tuning" where
  "set_algorithm p a s = s\<lparr>tu_algo := (tu_algo s)(p := Some a)\<rparr>"

text \<open>\<open>context::set_properties\<close>; to delete a null pointer does nothing.\<close>

definition ctx_set_properties :: "nat \<Rightarrow> nat \<Rightarrow> tuning \<Rightarrow> tuning" where
  "ctx_set_properties ctx p s =
     s\<lparr>tu_deleted := (case tu_properties s ctx of None \<Rightarrow> tu_deleted s | Some old \<Rightarrow> tu_deleted s @ [old]),
       tu_properties := (tu_properties s)(ctx := Some p)\<rparr>"

text \<open>\<open>algorithm_with_properties::awakened\<close>; \<open>None\<close> when \<open>new_properties\<close> returns null, which is an assertion.\<close>

definition awp_awakened :: "(nat \<Rightarrow> nat option) \<Rightarrow> nat \<Rightarrow> nat \<Rightarrow> tuning \<Rightarrow> tuning option" where
  "awp_awakened new_properties a ctx s =
     (case (case tu_properties s ctx of
              Some p \<Rightarrow> Some (p, s)
            | None \<Rightarrow>
                (case new_properties ctx of
                   None \<Rightarrow> None
                 | Some p \<Rightarrow> Some (p, ctx_set_properties ctx p (fiber_properties_new p ctx s)))) of
        None \<Rightarrow> None
      | Some (p, s) \<Rightarrow> let s = set_algorithm p a s in Some (s\<lparr>tu_calls := tu_calls s @ [Awakened a ctx p]\<rparr>))"

text \<open>\<open>fiber_properties::notify\<close>; \<open>None\<close> when the assertion fails.\<close>

definition properties_notify :: "nat \<Rightarrow> tuning \<Rightarrow> tuning option" where
  "properties_notify p s =
     (case tu_algo s p of
        None \<Rightarrow> None
      | Some a \<Rightarrow>
          Some (if tu_ctx s p \<in> tu_ready s then s\<lparr>tu_calls := tu_calls s @ [Property_change a (tu_ctx s p) p]\<rparr> else s))"

subsection \<open>Runs\<close>

text \<open>A fiber made ready by an algorithm, linked into a ready-queue or unlinked, and a property changed by the user.\<close>

datatype tuning_event = Awaken nat nat | Link nat | Unlink nat | Change nat

fun tuning_step :: "(nat \<Rightarrow> nat option) \<Rightarrow> tuning_event \<Rightarrow> tuning \<Rightarrow> tuning option" where
  "tuning_step new_properties (Awaken a ctx) s = awp_awakened new_properties a ctx s"
| "tuning_step new_properties (Link ctx) s = Some (s\<lparr>tu_ready := insert ctx (tu_ready s)\<rparr>)"
| "tuning_step new_properties (Unlink ctx) s = Some (s\<lparr>tu_ready := tu_ready s - {ctx}\<rparr>)"
| "tuning_step new_properties (Change ctx) s =
     (case tu_properties s ctx of None \<Rightarrow> Some s | Some p \<Rightarrow> properties_notify p s)"

fun tuning_run :: "(nat \<Rightarrow> nat option) \<Rightarrow> tuning_event list \<Rightarrow> tuning \<Rightarrow> tuning option" where
  "tuning_run new_properties [] s = Some s"
| "tuning_run new_properties (x # xs) s =
     (case tuning_step new_properties x s of None \<Rightarrow> None | Some s \<Rightarrow> tuning_run new_properties xs s)"

definition tuning_new :: tuning where
  "tuning_new = \<lparr>tu_properties = (\<lambda>c. None), tu_ctx = (\<lambda>p. 0), tu_algo = (\<lambda>p. None), tu_ready = {}, tu_deleted = [], tu_calls = []\<rparr>"

text \<open>Each context has its own object, which knows its context and the algorithm that last made it ready.\<close>

fun last_algorithm :: "nat \<Rightarrow> algorithm_call list \<Rightarrow> nat option" where
  "last_algorithm ctx [] = None"
| "last_algorithm ctx (Awakened a c p # es) = (case last_algorithm ctx es of None \<Rightarrow> if c = ctx then Some a else None | r \<Rightarrow> r)"
| "last_algorithm ctx (Property_change a c p # es) = last_algorithm ctx es"

lemma last_algorithm_append [simp]:
  "last_algorithm ctx (es @ [Awakened a c p]) = (if c = ctx then Some a else last_algorithm ctx es)"
  "last_algorithm ctx (es @ [Property_change a c p]) = last_algorithm ctx es"
  by (induction es rule: last_algorithm.induct) (auto split: option.splits)

definition tuning_ok :: "tuning \<Rightarrow> bool" where
  "tuning_ok s \<longleftrightarrow> tu_deleted s = [] \<and>
     (\<forall>ctx p. tu_properties s ctx = Some p \<longrightarrow>
        tu_ctx s p = ctx \<and> (\<exists>a. tu_algo s p = Some a \<and> last_algorithm ctx (tu_calls s) = Some a))"

lemma tuning_step_ok:
  assumes ok: "tuning_ok s" and new: "inj new_properties" "\<And>c. new_properties c \<noteq> None"
    and own: "\<And>c p. tu_properties s c = Some p \<Longrightarrow> new_properties c = Some p"
  shows "\<exists>t. tuning_step new_properties x s = Some t \<and> tuning_ok t \<and>
    (\<forall>c p. tu_properties t c = Some p \<longrightarrow> new_properties c = Some p)"
proof (cases x)
  case (Awaken a ctx)
  obtain q where q: "new_properties ctx = Some q" using new(2) by blast
  have other: "p \<noteq> q" if "tu_properties s c = Some p" "c \<noteq> ctx" for c p
    using own [OF that(1)] q that(2) new(1) by (metis injD)
  show ?thesis
  proof (cases "tu_properties s ctx")
    case None
    with ok q own other Awaken show ?thesis
      by (auto simp: tuning_ok_def awp_awakened_def ctx_set_properties_def fiber_properties_new_def set_algorithm_def Let_def)
  next
    case (Some p)
    with own q have "p = q" by fastforce
    with Some ok q own other Awaken show ?thesis
      by (auto simp: tuning_ok_def awp_awakened_def set_algorithm_def Let_def)
  qed
next
  case (Change ctx)
  show ?thesis
  proof (cases "tu_properties s ctx")
    case (Some p)
    with ok obtain a where "tu_algo s p = Some a" by (auto simp: tuning_ok_def)
    with ok Some own Change show ?thesis by (auto simp: tuning_ok_def properties_notify_def)
  qed (use ok own Change in auto)
qed (use ok own in \<open>auto simp: tuning_ok_def\<close>)

text \<open>A change of a property reaches the algorithm that last made the fiber ready, and only while the fiber is in a ready-queue; no
  assertion fails and no object is deleted, if \<open>new_properties\<close> makes an object for each context.\<close>

theorem changes_reach_last_algorithm:
  assumes "inj new_properties" "\<forall>c. new_properties c \<noteq> None"
  shows "\<exists>s. tuning_run new_properties xs tuning_new = Some s \<and> tu_deleted s = [] \<and>
    (\<forall>ctx p. tu_properties s ctx = Some p \<longrightarrow>
       (\<exists>a. last_algorithm ctx (tu_calls s) = Some a \<and>
          tuning_step new_properties (Change ctx) s =
            Some (if ctx \<in> tu_ready s then s\<lparr>tu_calls := tu_calls s @ [Property_change a ctx p]\<rparr> else s)))"
proof -
  have "\<exists>t. tuning_run new_properties xs s = Some t \<and> tuning_ok t"
    if "tuning_ok s" "\<And>c p. tu_properties s c = Some p \<Longrightarrow> new_properties c = Some p" for s
    using that
  proof (induction xs arbitrary: s)
    case (Cons x xs)
    from tuning_step_ok [OF Cons.prems(1) assms(1) _ Cons.prems(2), of x] assms(2) obtain t where
      "tuning_step new_properties x s = Some t" "tuning_ok t" "\<And>c p. tu_properties t c = Some p \<Longrightarrow> new_properties c = Some p"
      by blast
    with Cons.IH show ?case by simp
  qed simp
  from this [of tuning_new] obtain s where s: "tuning_run new_properties xs tuning_new = Some s" "tuning_ok s"
    by (auto simp: tuning_ok_def tuning_new_def)
  moreover have "\<exists>a. last_algorithm ctx (tu_calls s) = Some a \<and>
      tuning_step new_properties (Change ctx) s =
        Some (if ctx \<in> tu_ready s then s\<lparr>tu_calls := tu_calls s @ [Property_change a ctx p]\<rparr> else s)"
    if "tu_properties s ctx = Some p" for ctx p
  proof -
    from s(2) that obtain a where "tu_ctx s p = ctx" "tu_algo s p = Some a" "last_algorithm ctx (tu_calls s) = Some a"
      unfolding tuning_ok_def by blast
    with that show ?thesis by (simp add: properties_notify_def)
  qed
  moreover have "tu_deleted s = []" using s(2) by (simp add: tuning_ok_def)
  ultimately show ?thesis by blast
qed

end
