(* ===== verification/Windows_IO.thy ===== *)
theory Windows_IO
  imports Linux_Poller "HOL-Library.Word"
begin

text \<open>
  Files and sockets on Windows, \<open>reactor/msvc\<close>: an operation has an \<open>OVERLAPPEDMsg\<close>, its completion comes back
  through the completion port, the poller puts its message into the reactor's ring and the event loop
  finishes it, as on Linux (\<open>Linux_Poller\<close> has the messages and the loop, which both share). What a system call
  returns is an argument. The structures of a call are named by the address of its message and their index.
\<close>

unbundle bit_operations_syntax

subsection \<open>Opening a file\<close>

type_synonym FileFlags = "32 word"

definition RDONLY :: FileFlags where "RDONLY = 1"
definition WRONLY :: FileFlags where "WRONLY = 2"
definition RDWR :: FileFlags where "RDWR = 4"
definition TRUNCATE :: FileFlags where "TRUNCATE = 8"
definition CREATE :: FileFlags where "CREATE = 32"
definition CLOEXEC :: FileFlags where "CLOEXEC = 64"
definition EXCL :: FileFlags where "EXCL = 128"

definition to_bool :: "FileFlags \<Rightarrow> bool" where
  "to_bool f \<longleftrightarrow> f \<noteq> 0"

text \<open>The constants of the system's interface.\<close>

definition GENERIC_READ :: "32 word" where "GENERIC_READ = 0x80000000"
definition GENERIC_WRITE :: "32 word" where "GENERIC_WRITE = 0x40000000"
definition CREATE_NEW :: "32 word" where "CREATE_NEW = 1"
definition OPEN_EXISTING :: "32 word" where "OPEN_EXISTING = 3"
definition OPEN_ALWAYS :: "32 word" where "OPEN_ALWAYS = 4"
definition TRUNCATE_EXISTING :: "32 word" where "TRUNCATE_EXISTING = 5"
definition FILE_ATTRIBUTE_NORMAL :: "32 word" where "FILE_ATTRIBUTE_NORMAL = 0x80"
definition FILE_FLAG_DELETE_ON_CLOSE :: "32 word" where "FILE_FLAG_DELETE_ON_CLOSE = 0x04000000"
definition FILE_FLAG_RANDOM_ACCESS :: "32 word" where "FILE_FLAG_RANDOM_ACCESS = 0x10000000"
definition FILE_FLAG_NO_BUFFERING :: "32 word" where "FILE_FLAG_NO_BUFFERING = 0x20000000"
definition FILE_FLAG_OVERLAPPED :: "32 word" where "FILE_FLAG_OVERLAPPED = 0x40000000"
definition FILE_FLAG_WRITE_THROUGH :: "32 word" where "FILE_FLAG_WRITE_THROUGH = 0x80000000"

definition get_access :: "FileFlags \<Rightarrow> 32 word" where
  "get_access flags =
     (let access = 0;
          access = (if to_bool (flags AND RDONLY) then access OR GENERIC_READ else access);
          access = (if to_bool (flags AND WRONLY) then access OR GENERIC_WRITE else access) in
      if to_bool (flags AND RDWR) then access OR (GENERIC_WRITE OR GENERIC_READ) else access)"

definition get_disposition :: "FileFlags \<Rightarrow> 32 word" where
  "get_disposition flags =
     (if to_bool (flags AND TRUNCATE) then TRUNCATE_EXISTING
      else if to_bool (flags AND CREATE)
      then (if to_bool (flags AND EXCL) then CREATE_NEW else OPEN_ALWAYS)
      else 0)"

definition get_flags_and_attributes :: "FileFlags \<Rightarrow> 32 word" where
  "get_flags_and_attributes flags =
     (let file_flags = FILE_ATTRIBUTE_NORMAL;
          file_flags = (if to_bool (flags AND CLOEXEC) then file_flags OR FILE_FLAG_DELETE_ON_CLOSE else file_flags) in
      file_flags OR (FILE_FLAG_NO_BUFFERING OR FILE_FLAG_OVERLAPPED OR FILE_FLAG_RANDOM_ACCESS OR FILE_FLAG_WRITE_THROUGH))"

text \<open>A file that is to be there already cannot be opened, since \<open>CreateFile\<close> has no disposition 0; and a file opened
  with \<open>CLOEXEC\<close> is deleted when it is closed.\<close>

lemma open_existing_never:
  "get_disposition flags \<noteq> OPEN_EXISTING"
  "\<not> to_bool (flags AND TRUNCATE) \<Longrightarrow> \<not> to_bool (flags AND CREATE) \<Longrightarrow> get_disposition flags = 0"
  by (simp_all add: get_disposition_def OPEN_EXISTING_def CREATE_NEW_def OPEN_ALWAYS_def TRUNCATE_EXISTING_def)

lemma cloexec_deletes: "get_flags_and_attributes CLOEXEC AND FILE_FLAG_DELETE_ON_CLOSE \<noteq> 0"
  by (simp add: get_flags_and_attributes_def CLOEXEC_def to_bool_def FILE_FLAG_DELETE_ON_CLOSE_def Let_def
      FILE_ATTRIBUTE_NORMAL_def FILE_FLAG_NO_BUFFERING_def FILE_FLAG_OVERLAPPED_def FILE_FLAG_RANDOM_ACCESS_def
      FILE_FLAG_WRITE_THROUGH_def)

subsection \<open>The structures of an operation\<close>

datatype win_operation = READ | WRITE

record OVERLAPPEDMsg =
  ov_offset :: int
  ov_offset_high :: int
  ov_msg :: "nat option"
  ov_size :: int
  ov_completion_key :: int
  ov_error_code :: int
  ov_status :: bool
  ov_operation :: win_operation
  ov_data :: nat
  ov_requested :: int

definition dword :: "int \<Rightarrow> int" where
  "dword x = x mod 2 ^ 32"

definition zeroed_OVERLAPPEDMsg :: OVERLAPPEDMsg where
  "zeroed_OVERLAPPEDMsg = \<lparr>ov_offset = 0, ov_offset_high = 0, ov_msg = None, ov_size = 0, ov_completion_key = 0,
     ov_error_code = 0, ov_status = False, ov_operation = READ, ov_data = 0, ov_requested = 0\<rparr>"

definition overlapped_configure :: "win_operation \<Rightarrow> nat \<Rightarrow> int \<Rightarrow> int \<Rightarrow> OVERLAPPEDMsg \<Rightarrow> OVERLAPPEDMsg" where
  "overlapped_configure operation data offset sz ovl =
     ovl\<lparr>ov_operation := operation, ov_data := data, ov_requested := sz, ov_offset := dword offset,
       ov_offset_high := dword (offset div 2 ^ 32)\<rparr>"

text \<open>\<open>FileIOBatch\<close>: the structures and \<open>submited_\<close>.\<close>

record win_batch =
  wb_blocks :: "OVERLAPPEDMsg list"
  wb_submited :: nat

definition win_add_read :: "nat \<Rightarrow> int \<Rightarrow> int \<Rightarrow> win_batch \<Rightarrow> win_batch" where
  "win_add_read data offset sz b =
     b\<lparr>wb_blocks := wb_blocks b @ [overlapped_configure READ data offset sz zeroed_OVERLAPPEDMsg]\<rparr>"

definition win_add_write :: "nat \<Rightarrow> int \<Rightarrow> int \<Rightarrow> win_batch \<Rightarrow> win_batch" where
  "win_add_write data offset sz b =
     b\<lparr>wb_blocks := wb_blocks b @ [overlapped_configure WRITE data offset sz zeroed_OVERLAPPEDMsg]\<rparr>"

definition win_configure :: "nat \<Rightarrow> win_batch \<Rightarrow> win_batch" where
  "win_configure msg b = b\<lparr>wb_blocks := map (\<lambda>ovl. ovl\<lparr>ov_msg := Some msg\<rparr>) (wb_blocks b)\<rparr>"

subsection \<open>The poller\<close>

text \<open>The reactor's side, the batches of the calls (that of a single operation has one structure), the next address and
  the sockets that have been closed.\<close>

record win_io =
  wi_io :: io_reactor
  wi_batch :: "nat \<Rightarrow> win_batch"
  wi_next :: nat
  wi_closed :: "int list"

text \<open>What \<open>GetQueuedCompletionStatus\<close> and \<open>GetLastError\<close> give: no structure and an error, or the structure, the number of
  bytes, the key, the status and the error. The port is empty after the end of the list.\<close>

datatype win_completion = Nothing_queued int | Completed nat nat int int bool int

definition WAIT_TIMEOUT :: int where "WAIT_TIMEOUT = 258"
definition ERROR_ABANDONED_WAIT_0 :: int where "ERROR_ABANDONED_WAIT_0 = 735"

definition put_completion :: "nat \<Rightarrow> nat \<Rightarrow> int \<Rightarrow> int \<Rightarrow> bool \<Rightarrow> int \<Rightarrow> win_io \<Rightarrow> win_io" where
  "put_completion a k num_bytes completion_key st error_code s =
     s\<lparr>wi_batch := (wi_batch s)(a := (wi_batch s a)\<lparr>wb_blocks := (wb_blocks (wi_batch s a))
       [k := (wb_blocks (wi_batch s a) ! k)\<lparr>ov_size := num_bytes, ov_completion_key := completion_key, ov_status := st,
          ov_error_code := error_code\<rparr>]\<rparr>),
      wi_io := (wi_io s)\<lparr>io_flight := remove1 (a, k) (io_flight (wi_io s))\<rparr>\<rparr>"

fun win_poll_turns :: "nat \<Rightarrow> win_completion list \<Rightarrow> win_io \<Rightarrow> io_fault + win_io" where
  "win_poll_turns 0 cs s = Inr s"
| "win_poll_turns (Suc n) [] s = Inr s"
| "win_poll_turns (Suc n) (Nothing_queued error_code # cs) s =
     (if error_code = WAIT_TIMEOUT \<or> error_code = ERROR_ABANDONED_WAIT_0 then Inr s else Inl Io_terminated)"
| "win_poll_turns (Suc n) (Completed a k num_bytes completion_key st error_code # cs) s =
     (if \<not> k < length (wb_blocks (wi_batch s a)) then Inl Io_stray_block
      else (let s = put_completion a k num_bytes completion_key st error_code s in
            case ov_msg (wb_blocks (wi_batch s a) ! k) of
              None \<Rightarrow> Inl Io_freed
            | Some msg \<Rightarrow>
                (case io_messages (wi_io s) msg of
                   None \<Rightarrow> Inl Io_freed
                 | Some m \<Rightarrow>
                     (case io_push msg ((wi_io s)\<lparr>io_messages := (io_messages (wi_io s))(msg \<mapsto> io_process m)\<rparr>) of
                        Inl e \<Rightarrow> Inl e
                      | Inr r \<Rightarrow> win_poll_turns n cs (s\<lparr>wi_io := r\<rparr>)))))"

definition win_poll :: "win_completion list \<Rightarrow> win_io \<Rightarrow> io_fault + win_io" where
  "win_poll cs s =
     (let room_size = rr_capacity (io_ring (wi_io s)) in
      if room_size > 0 then win_poll_turns (nat (min room_size 10)) cs s else Inr s)"

text \<open>A turn of the event loop, and some.\<close>

definition win_turn :: "win_completion list \<Rightarrow> win_io \<Rightarrow> io_fault + win_io" where
  "win_turn cs s =
     (case win_poll cs s of
        Inl e \<Rightarrow> Inl e
      | Inr s \<Rightarrow> (case drain_ring (wi_io s) of Inl e \<Rightarrow> Inl e | Inr r \<Rightarrow> Inr (s\<lparr>wi_io := r\<rparr>)))"

fun win_turns :: "win_completion list list \<Rightarrow> win_io \<Rightarrow> io_fault + win_io" where
  "win_turns [] s = Inr s"
| "win_turns (cs # css) s = (case win_turn cs s of Inl e \<Rightarrow> Inl e | Inr s \<Rightarrow> win_turns css s)"

subsection \<open>The calls\<close>

text \<open>Where a call is after a stretch: it waits for a completion, or for resources, or it has ended. For a batch: the blocks
  still to be given to the system and \<open>wait_num\<close>, and the error that ended the submission.\<close>

datatype win_pc =
    Single_started
  | Single_starved
  | Batch_started nat
  | Batch_starved "nat list" nat
  | Batch_failed nat int
  | Accept_started int
  | Ended "int + int"
  | Terminated

definition ERROR_IO_PENDING :: int where "ERROR_IO_PENDING = 997"
definition ERROR_INVALID_USER_BUFFER :: int where "ERROR_INVALID_USER_BUFFER = 1784"
definition ERROR_NOT_ENOUGH_MEMORY :: int where "ERROR_NOT_ENOUGH_MEMORY = 8"

definition op_started :: "bool \<times> int \<Rightarrow> bool" where
  "op_started r \<longleftrightarrow> fst r \<or> snd r = ERROR_IO_PENDING"

definition no_resources :: "bool \<times> int \<Rightarrow> bool" where
  "no_resources r \<longleftrightarrow> snd r = ERROR_INVALID_USER_BUFFER \<or> snd r = ERROR_NOT_ENOUGH_MEMORY"

text \<open>The head of a call: a message in its frame, and the structures that point to it.\<close>

definition AIOMessage_new :: "nat \<Rightarrow> io_message" where
  "AIOMessage_new active = FiberIOMessage_new active 1"

definition win_enter :: "nat \<Rightarrow> win_batch \<Rightarrow> win_io \<Rightarrow> nat \<times> win_io" where
  "win_enter f b s =
     (wi_next s, s\<lparr>wi_io := (wi_io s)\<lparr>io_messages := (io_messages (wi_io s))(wi_next s \<mapsto> AIOMessage_new f)\<rparr>,
        wi_batch := (wi_batch s)(wi_next s := win_configure (wi_next s) b), wi_next := Suc (wi_next s)\<rparr>)"

definition win_single_call :: "nat \<Rightarrow> int \<Rightarrow> win_io \<Rightarrow> nat \<times> win_io" where
  "win_single_call f offset s =
     win_enter f \<lparr>wb_blocks = [zeroed_OVERLAPPEDMsg\<lparr>ov_offset := dword offset, ov_offset_high := dword (offset div 2 ^ 32)\<rparr>],
       wb_submited = 0\<rparr> s"

definition win_waits :: "nat \<Rightarrow> win_io \<Rightarrow> win_io" where
  "win_waits f s = s\<lparr>wi_io := io_wait_for f (wi_io s)\<rparr>"

definition win_takes :: "nat \<times> nat \<Rightarrow> win_io \<Rightarrow> win_io" where
  "win_takes e s = s\<lparr>wi_io := (wi_io s)\<lparr>io_flight := io_flight (wi_io s) @ [e]\<rparr>\<rparr>"

text \<open>A turn of the loop of \<open>read\<close> or \<open>write\<close>: of a file, where another error terminates the program, and of a
  connection, where it is thrown. \<open>r\<close> is what \<open>ReadFile\<close> or \<open>WriteFile\<close> and \<open>GetLastError\<close> give.\<close>

definition win_file_turn :: "nat \<Rightarrow> nat \<Rightarrow> bool \<times> int \<Rightarrow> win_io \<Rightarrow> win_pc \<times> win_io" where
  "win_file_turn f a r s =
     (if op_started r then (Single_started, win_waits f (win_takes (a, 0) s))
      else if no_resources r then (Single_starved, win_waits f s)
      else (Terminated, s))"

definition win_connection_turn :: "nat \<Rightarrow> nat \<Rightarrow> bool \<times> int \<Rightarrow> win_io \<Rightarrow> win_pc \<times> win_io" where
  "win_connection_turn f a r s =
     (if op_started r then (Single_started, win_waits f (win_takes (a, 0) s))
      else if no_resources r then (Single_starved, win_waits f s)
      else (Ended (Inl (snd r)), s))"

text \<open>What follows the wait for a completion.\<close>

definition win_single_resumed :: "nat \<Rightarrow> win_io \<Rightarrow> int + int" where
  "win_single_resumed a s =
     (let ovl = wb_blocks (wi_batch s a) ! 0 in
      if ov_status ovl then Inr (ov_size ovl) else Inl (ov_error_code ovl))"

definition win_set_count :: "nat \<Rightarrow> nat \<Rightarrow> win_io \<Rightarrow> win_io" where
  "win_set_count a n s =
     s\<lparr>wi_io := (wi_io s)\<lparr>io_messages := (io_messages (wi_io s))(a := (case io_messages (wi_io s) a of
        Some (FiberIOMessage f ret c) \<Rightarrow> Some (FiberIOMessage f ret (int n)) | m \<Rightarrow> m))\<rparr>\<rparr>"

text \<open>\<open>process_batch\<close>: the loop over the blocks, \<open>starts\<close> being what the system says to each. It goes on with the same
  block after a wait for resources.\<close>

fun win_batch_loop :: "nat \<Rightarrow> nat \<Rightarrow> (nat \<Rightarrow> bool \<times> int) \<Rightarrow> bool \<Rightarrow> nat list \<Rightarrow> nat \<Rightarrow> win_io \<Rightarrow> win_pc \<times> win_io" where
  "win_batch_loop f a starts rise [] wait_num s = (Batch_started wait_num, win_waits f (win_set_count a wait_num s))"
| "win_batch_loop f a starts rise (c # cs) wait_num s =
     (if op_started (starts c) then win_batch_loop f a starts rise cs (Suc wait_num) (win_takes (a, c) s)
      else if no_resources (starts c) then (Batch_starved (c # cs) wait_num, win_waits f s)
      else if wait_num > 0 then (Batch_failed wait_num (snd (starts c)), win_waits f (win_set_count a wait_num s))
      else (Ended (if rise then Inl (snd (starts c)) else Inr 0),
            s\<lparr>wi_batch := (wi_batch s)(a := (wi_batch s a)\<lparr>wb_submited := wait_num\<rparr>)\<rparr>))"

definition win_process_batch :: "nat \<Rightarrow> win_batch \<Rightarrow> (nat \<Rightarrow> bool \<times> int) \<Rightarrow> bool \<Rightarrow> win_io \<Rightarrow> nat \<times> win_pc \<times> win_io" where
  "win_process_batch f b starts rise s =
     (case win_enter f b s of (a, s) \<Rightarrow> (a, win_batch_loop f a starts rise [0..<length (wb_blocks b)] 0 s))"

definition win_batch_resumed :: "nat \<Rightarrow> nat \<Rightarrow> (nat \<Rightarrow> bool \<times> int) \<Rightarrow> bool \<Rightarrow> win_pc \<Rightarrow> win_io \<Rightarrow> win_pc \<times> win_io" where
  "win_batch_resumed f a starts rise p s =
     (let submited = (\<lambda>n. s\<lparr>wi_batch := (wi_batch s)(a := (wi_batch s a)\<lparr>wb_submited := n\<rparr>)\<rparr>) in
      case p of
        Batch_started wait_num \<Rightarrow> (Ended (Inr (int wait_num)), submited wait_num)
      | Batch_failed wait_num e \<Rightarrow> (Ended (if rise then Inl e else Inr (int wait_num)), submited wait_num)
      | Batch_starved cs wait_num \<Rightarrow> win_batch_loop f a starts rise cs wait_num s
      | _ \<Rightarrow> (p, s))"

text \<open>Sockets. The constructor of a server socket: \<open>None\<close> when its assertion fails; \<open>port_result\<close> and \<open>bind_result\<close> are the errors
  of joining the completion port and of \<open>bind\<close>.\<close>

definition win_close :: "int \<Rightarrow> win_io \<Rightarrow> win_io" where
  "win_close fd s = s\<lparr>wi_closed := fd # wi_closed s\<rparr>"

definition win_server_new :: "bool \<Rightarrow> int + int \<Rightarrow> int option \<Rightarrow> int option \<Rightarrow> win_io \<Rightarrow> ((int + int) \<times> win_io) option" where
  "win_server_new address_is_v4 socket_result port_result bind_result s =
     (if \<not> address_is_v4 then None
      else Some (case socket_result of
        Inl e \<Rightarrow> (Inl e, s)
      | Inr fd \<Rightarrow>
          (case port_result of
             Some e \<Rightarrow> (Inl e, s)
           | None \<Rightarrow>
               (case bind_result of
                  Some e \<Rightarrow> (Inl e, win_close fd s)
                | None \<Rightarrow> (Inr fd, s)))))"

text \<open>\<open>accept\<close> up to its wait, and after it: \<open>ioctl_result\<close> is the error of finding \<open>AcceptEx\<close>, \<open>r\<close> is
  what \<open>AcceptEx\<close> gives.\<close>

definition win_accept ::
  "nat \<Rightarrow> int \<Rightarrow> int option \<Rightarrow> int + int \<Rightarrow> bool \<times> int \<Rightarrow> win_io \<Rightarrow> win_pc \<times> nat option \<times> win_io" where
  "win_accept f socket_fd ioctl_result socket_result r s =
     (case ioctl_result of
        Some e \<Rightarrow> (Ended (Inl e), None, win_close socket_fd s)
      | None \<Rightarrow>
          (case socket_result of
             Inl e \<Rightarrow> (Ended (Inl e), None, s)
           | Inr accept_socket \<Rightarrow>
               (case win_enter f \<lparr>wb_blocks = [zeroed_OVERLAPPEDMsg], wb_submited = 0\<rparr> s of
                  (a, s) \<Rightarrow>
                    if op_started r then (Accept_started accept_socket, Some a, win_waits f (win_takes (a, 0) s))
                    else (Ended (Inl (snd r)), Some a, win_close accept_socket s))))"

definition win_accept_resumed :: "int \<Rightarrow> int option \<Rightarrow> win_io \<Rightarrow> win_pc \<times> win_io" where
  "win_accept_resumed accept_socket port_result s =
     (case port_result of
        Some e \<Rightarrow> (Ended (Inl e), win_close accept_socket s)
      | None \<Rightarrow> (Ended (Inr accept_socket), s))"

subsection \<open>A batch that has been submitted\<close>

text \<open>A completion of a block: the block, the bytes, the key, the status and the error.\<close>

type_synonym block_completion = "nat \<times> int \<times> int \<times> bool \<times> int"

fun of_block :: "nat \<Rightarrow> block_completion \<Rightarrow> win_completion" where
  "of_block a (k, b, key, st, e) = Completed a k b key st e"

fun put_block :: "block_completion \<Rightarrow> OVERLAPPEDMsg list \<Rightarrow> OVERLAPPEDMsg list" where
  "put_block (k, b, key, st, e) bs =
     bs[k := (bs ! k)\<lparr>ov_size := b, ov_completion_key := key, ov_status := st, ov_error_code := e\<rparr>]"

fun has_completion :: "block_completion \<Rightarrow> OVERLAPPEDMsg list \<Rightarrow> bool" where
  "has_completion (k, b, key, st, e) bs \<longleftrightarrow>
     k < length bs \<and> ov_size (bs ! k) = b \<and> ov_completion_key (bs ! k) = key \<and> ov_status (bs ! k) = st \<and> ov_error_code (bs ! k) = e"

lemma put_block_simps [simp]:
  "length (put_block ev bs) = length bs"
  "fst ev < length bs \<Longrightarrow> map ov_msg (put_block ev bs) = map ov_msg bs"
  by (cases ev; simp add: map_update list_update_same_conv)+

lemma put_block_has:
  "fst ev < length bs \<Longrightarrow> has_completion ev (put_block ev bs)"
  "fst ev \<noteq> fst ev' \<Longrightarrow> has_completion ev' (put_block ev bs) = has_completion ev' bs"
  by (cases ev; cases ev'; simp)+

text \<open>The call of \<open>f\<close> at \<open>a\<close> waits for \<open>c\<close> more completions, the ring being \<open>q\<close>.\<close>

definition batch_waits :: "nat \<Rightarrow> nat \<Rightarrow> nat \<Rightarrow> nat \<Rightarrow> win_io \<Rightarrow> bool" where
  "batch_waits f a n c s \<longleftrightarrow>
     io_messages (wi_io s) a = Some (FiberIOMessage f True (int c)) \<and> map ov_msg (wb_blocks (wi_batch s a)) = replicate n (Some a) \<and>
     distinct (io_wait (wi_io s)) \<and> f \<notin> set (io_wait (wi_io s)) \<inter> set (io_ready (wi_io s)) \<and>
     (0 < c \<longrightarrow> f \<in> set (io_wait (wi_io s))) \<and> (c = 0 \<longrightarrow> f \<in> set (io_ready (wi_io s)))"

lemma poll_batch:
  assumes "batch_waits f a n c s" "ring_fits (wi_io s) (length es + m)" "\<forall>ev \<in> set es. fst ev < n" "length es \<le> N"
  shows "\<exists>t. win_poll_turns N (map (of_block a) es) s = Inr t \<and> batch_waits f a n c t \<and> ring_fits (wi_io t) m \<and>
    rr_contents (io_ring (wi_io t)) = rr_contents (io_ring (wi_io s)) @ replicate (length es) a \<and>
    wb_blocks (wi_batch t a) = fold put_block es (wb_blocks (wi_batch s a)) \<and>
    length (rr_buffer (io_ring (wi_io t))) = length (rr_buffer (io_ring (wi_io s))) \<and>
    rr_life (io_ring (wi_io s)) \<le> rr_life (io_ring (wi_io t)) + length es"
  using assms
proof (induction es arbitrary: s N)
  case Nil
  then show ?case by (intro exI [of _ s]) (cases N; simp)
next
  case (Cons ev es)
  obtain k b key st e where ev: "ev = (k, b, key, st, e)" by (cases ev) auto
  from Cons.prems(4) obtain N' where N: "N = Suc N'" "length es \<le> N'" by (cases N) auto
  have k: "k < n" using Cons.prems(3) ev by simp
  have msgs: "map ov_msg (wb_blocks (wi_batch s a)) = replicate n (Some a)"
    and m: "io_messages (wi_io s) a = Some (FiberIOMessage f True (int c))" using Cons.prems(1) by (auto simp: batch_waits_def)
  have len: "length (wb_blocks (wi_batch s a)) = n" using arg_cong [OF msgs, of length] by simp
  let ?s = "put_completion a k b key st e s"
  have blocks: "wb_blocks (wi_batch ?s a) = put_block ev (wb_blocks (wi_batch s a))" by (simp add: put_completion_def ev)
  have "fst ev < length (wb_blocks (wi_batch s a))" using k len ev by simp
  then have msgs': "map ov_msg (wb_blocks (wi_batch ?s a)) = replicate n (Some a)"
    unfolding blocks by (simp only: put_block_simps(2) msgs)
  then have msg: "ov_msg (wb_blocks (wi_batch ?s a) ! k) = Some a" using k
    by (metis length_map length_replicate nth_map nth_replicate)
  have io: "io_messages (wi_io ?s) a = Some (FiberIOMessage f True (int c))" using m by (simp add: put_completion_def)
  let ?r = "(wi_io ?s)\<lparr>io_messages := (io_messages (wi_io ?s))(a \<mapsto> io_process (FiberIOMessage f True (int c)))\<rparr>"
  have "ring_fits ?r (Suc (length es + m))" using Cons.prems(2) by (simp add: ring_fits_def put_completion_def)
  then obtain q where q: "io_push a ?r = Inr (?r\<lparr>io_ring := q\<rparr>)" "ring_fits (?r\<lparr>io_ring := q\<rparr>) (length es + m)"
    "rr_contents q = rr_contents (io_ring ?r) @ [a]" "length (rr_buffer q) = length (rr_buffer (io_ring ?r))"
    "rr_life (io_ring ?r) \<le> Suc (rr_life q)" by (rule io_push_fits) auto
  let ?t = "?s\<lparr>wi_io := ?r\<lparr>io_ring := q\<rparr>\<rparr>"
  have "batch_waits f a n c ?t" using Cons.prems(1) msgs' by (simp add: batch_waits_def) (simp add: put_completion_def)
  moreover have "\<forall>ev \<in> set es. fst ev < n" using Cons.prems(3) by simp
  ultimately obtain u where u: "win_poll_turns N' (map (of_block a) es) ?t = Inr u" "batch_waits f a n c u" "ring_fits (wi_io u) m"
    "rr_contents (io_ring (wi_io u)) = rr_contents q @ replicate (length es) a"
    "wb_blocks (wi_batch u a) = fold put_block es (wb_blocks (wi_batch ?s a))"
    "length (rr_buffer (io_ring (wi_io u))) = length (rr_buffer q)" "rr_life q \<le> rr_life (io_ring (wi_io u)) + length es"
    using Cons.IH [of ?t N'] q(2) N(2) by auto
  have "win_poll_turns N (map (of_block a) (ev # es)) s = Inr u"
    using N(1) k len ev msg io q(1) u(1) by (simp add: Let_def)
  then show ?case using u q ev by (intro exI [of _ u]) (auto simp: blocks put_completion_def)
qed

lemma drain_batch:
  assumes "batch_waits f a n c s" "rr_inv (io_ring (wi_io s))" "rr_contents (io_ring (wi_io s)) = replicate j a" "j \<le> c" "int c < 2 ^ 64" "j \<le> N"
  shows "\<exists>r. drain_turns N (wi_io s) = Inr r \<and> batch_waits f a n (c - j) (s\<lparr>wi_io := r\<rparr>) \<and> rr_inv (io_ring r) \<and>
    rr_contents (io_ring r) = [] \<and> length (rr_buffer (io_ring r)) = length (rr_buffer (io_ring (wi_io s))) \<and>
    rr_life (io_ring (wi_io s)) \<le> rr_life (io_ring r)"
  using assms
proof (induction j arbitrary: s c N)
  case 0
  have "rr_available (io_ring (wi_io s)) = int (length (rr_contents (io_ring (wi_io s))))"
    using 0(2) by (simp add: rr_available_eq rr_length_contents rr_inv_def)
  then have "rr_available (io_ring (wi_io s)) = 0" using 0(3) by simp
  with 0 show ?case by (intro exI [of _ "wi_io s"]) (cases N; simp)
next
  case (Suc j)
  from Suc.prems(6) obtain N' where N: "N = Suc N'" "j \<le> N'" by (cases N) auto
  have "rr_contents (io_ring (wi_io s)) = a # replicate j a" using Suc.prems(3) by simp
  then have "rr_pop_back (io_ring (wi_io s)) \<noteq> None" using rr.pop_None [OF Suc.prems(2)] by simp
  then obtain a' q where p: "rr_pop_back (io_ring (wi_io s)) = Some (a', q)" by auto
  from rr.pop_Some [OF Suc.prems(2) p] Suc.prems(3) have q: "a' = a" "rr_inv q" "rr_contents q = replicate j a"
    "length (rr_buffer q) = length (rr_buffer (io_ring (wi_io s)))" "rr_life (io_ring (wi_io s)) \<le> rr_life q" by auto
  have "rr_available (io_ring (wi_io s)) = int (length (rr_contents (io_ring (wi_io s))))"
    using Suc.prems(2) by (simp add: rr_available_eq rr_length_contents rr_inv_def)
  then have av: "rr_available (io_ring (wi_io s)) \<noteq> 0" using Suc.prems(3) by simp
  have m: "io_messages (wi_io s) a = Some (FiberIOMessage f True (int c))" using Suc.prems(1) by (simp add: batch_waits_def)
  have c: "0 < c" "u64 (int c - 1) = int (c - 1)" using Suc.prems(4,5) by (auto simp: u64_def of_nat_diff)
  have f: "f \<in> set (io_wait (wi_io s))" using Suc.prems(1) c(1) by (simp add: batch_waits_def)
  let ?m = "(io_messages (wi_io s))(a \<mapsto> FiberIOMessage f True (int (c - 1)))"
  obtain r where r: "io_process_fn a ((wi_io s)\<lparr>io_ring := q\<rparr>) = Inr r" "io_ring r = q" "batch_waits f a n (c - 1) (s\<lparr>wi_io := r\<rparr>)"
  proof (cases "c = 1")
    case True
    have "f \<notin> set (remove1 f (io_wait (wi_io s)))" using Suc.prems(1) by (auto simp: batch_waits_def)
    with True m f c Suc.prems(1) show thesis
      by (intro that [of "(wi_io s)\<lparr>io_ring := q, io_messages := ?m, io_wait := remove1 f (io_wait (wi_io s)), io_ready := io_ready (wi_io s) @ [f]\<rparr>"])
        (auto simp: io_process_fn_def io_resume_def batch_waits_def)
  next
    case False
    with m f c Suc.prems(1) show thesis
      by (intro that [of "(wi_io s)\<lparr>io_ring := q, io_messages := ?m\<rparr>"]) (auto simp: io_process_fn_def batch_waits_def)
  qed
  have "\<exists>u. drain_turns N' (wi_io (s\<lparr>wi_io := r\<rparr>)) = Inr u \<and> batch_waits f a n (c - 1 - j) ((s\<lparr>wi_io := r\<rparr>)\<lparr>wi_io := u\<rparr>) \<and> rr_inv (io_ring u) \<and>
    rr_contents (io_ring u) = [] \<and> length (rr_buffer (io_ring u)) = length (rr_buffer (io_ring (wi_io (s\<lparr>wi_io := r\<rparr>)))) \<and>
    rr_life (io_ring (wi_io (s\<lparr>wi_io := r\<rparr>))) \<le> rr_life (io_ring u)"
    by (rule Suc.IH) (use r q N Suc.prems(4,5) in auto)
  with r q N p av show ?case by auto
qed

lemma turn_batch:
  assumes b: "batch_waits f a n c s" and ring: "rr_inv (io_ring (wi_io s))" "rr_contents (io_ring (wi_io s)) = []"
      "10 \<le> length (rr_buffer (io_ring (wi_io s)))" "length es \<le> rr_life (io_ring (wi_io s))"
    and es: "length es \<le> 10" "length es \<le> c" "\<forall>ev \<in> set es. fst ev < n" and c: "int c < 2 ^ 64"
  shows "\<exists>t. win_turn (map (of_block a) es) s = Inr t \<and> batch_waits f a n (c - length es) t \<and>
    wb_blocks (wi_batch t a) = fold put_block es (wb_blocks (wi_batch s a)) \<and> rr_inv (io_ring (wi_io t)) \<and>
    rr_contents (io_ring (wi_io t)) = [] \<and> length (rr_buffer (io_ring (wi_io t))) = length (rr_buffer (io_ring (wi_io s))) \<and>
    rr_life (io_ring (wi_io s)) \<le> rr_life (io_ring (wi_io t)) + length es"
proof -
  have av: "rr_available q = int (length (rr_contents q))" if "rr_inv q" for q :: "nat ReactorRing"
    using that by (simp add: rr_available_eq rr_length_contents rr_inv_def)
  have "rr_ring_size (io_ring (wi_io s)) < 2 ^ 63" using ring(1) by (simp add: rr_inv_def rr_ring_size_def)
  then have room: "10 \<le> rr_capacity (io_ring (wi_io s))"
    using ring av [OF ring(1)] by (simp add: rr_capacity_def rr_ring_size_def u64_def)
  have "ring_fits (wi_io s) (length es + 0)" using ring es(1) by (simp add: ring_fits_def)
  from poll_batch [OF b this es(3) es(1)] obtain t where t: "win_poll_turns 10 (map (of_block a) es) s = Inr t"
    "batch_waits f a n c t" "ring_fits (wi_io t) 0" "rr_contents (io_ring (wi_io t)) = replicate (length es) a"
    "wb_blocks (wi_batch t a) = fold put_block es (wb_blocks (wi_batch s a))"
    "length (rr_buffer (io_ring (wi_io t))) = length (rr_buffer (io_ring (wi_io s)))"
    "rr_life (io_ring (wi_io s)) \<le> rr_life (io_ring (wi_io t)) + length es" by (auto simp: ring(2))
  have inv: "rr_inv (io_ring (wi_io t))" using t(3) by (simp add: ring_fits_def)
  have "nat (rr_available (io_ring (wi_io t))) = length es" using av [OF inv] t(4) by simp
  with drain_batch [OF t(2) inv t(4) es(2) c, of "length es"] obtain r where
    r: "drain_ring (wi_io t) = Inr r" "batch_waits f a n (c - length es) (t\<lparr>wi_io := r\<rparr>)" "rr_inv (io_ring r)"
    "rr_contents (io_ring r) = []" "length (rr_buffer (io_ring r)) = length (rr_buffer (io_ring (wi_io t)))"
    "rr_life (io_ring (wi_io t)) \<le> rr_life (io_ring r)" by (auto simp: drain_ring_def)
  have "win_poll (map (of_block a) es) s = Inr t" using t(1) room by (simp add: win_poll_def Let_def min_absorb2)
  with r t show ?thesis by (intro exI [of _ "t\<lparr>wi_io := r\<rparr>"]) (auto simp: win_turn_def)
qed

lemma turns_batch:
  assumes "batch_waits f a n c s" "rr_inv (io_ring (wi_io s))" "rr_contents (io_ring (wi_io s)) = []"
      "10 \<le> length (rr_buffer (io_ring (wi_io s)))" "length (concat ess) \<le> rr_life (io_ring (wi_io s))"
      "\<forall>es \<in> set ess. length es \<le> 10" "length (concat ess) \<le> c" "\<forall>ev \<in> set (concat ess). fst ev < n" "int c < 2 ^ 64"
  shows "\<exists>t. win_turns (map (map (of_block a)) ess) s = Inr t \<and> batch_waits f a n (c - length (concat ess)) t \<and>
    wb_blocks (wi_batch t a) = fold put_block (concat ess) (wb_blocks (wi_batch s a))"
  using assms
proof (induction ess arbitrary: s c)
  case (Cons es ess)
  have "length es \<le> rr_life (io_ring (wi_io s))" "length es \<le> 10" "length es \<le> c" "\<forall>ev \<in> set es. fst ev < n"
    using Cons.prems by auto
  from turn_batch [OF Cons.prems(1-4) this Cons.prems(9)] obtain t where t: "win_turn (map (of_block a) es) s = Inr t"
    "batch_waits f a n (c - length es) t" "wb_blocks (wi_batch t a) = fold put_block es (wb_blocks (wi_batch s a))"
    "rr_inv (io_ring (wi_io t))" "rr_contents (io_ring (wi_io t)) = []"
    "length (rr_buffer (io_ring (wi_io t))) = length (rr_buffer (io_ring (wi_io s)))"
    "rr_life (io_ring (wi_io s)) \<le> rr_life (io_ring (wi_io t)) + length es" by blast
  have "10 \<le> length (rr_buffer (io_ring (wi_io t)))" using t(6) Cons.prems(4) by simp
  moreover have "length (concat ess) \<le> rr_life (io_ring (wi_io t))" using t(7) Cons.prems(5) by simp
  moreover have "\<forall>es \<in> set ess. length es \<le> 10" "\<forall>ev \<in> set (concat ess). fst ev < n" using Cons.prems(6,8) by auto
  moreover have "length (concat ess) \<le> c - length es" "int (c - length es) < 2 ^ 64" using Cons.prems(7,9) by auto
  ultimately obtain u where "win_turns (map (map (of_block a)) ess) t = Inr u"
    "batch_waits f a n (c - length es - length (concat ess)) u"
    "wb_blocks (wi_batch u a) = fold put_block (concat ess) (wb_blocks (wi_batch t a))"
    using Cons.IH [OF t(2,4,5)] by blast
  with t show ?case by simp
qed simp

lemma fold_put_has:
  "distinct (map fst es) \<Longrightarrow> \<forall>ev \<in> set es. fst ev < length bs \<Longrightarrow> ev \<in> set es \<Longrightarrow> has_completion ev (fold put_block es bs)"
proof (induction es rule: rev_induct)
  case (snoc x es)
  have len: "length (fold put_block es bs) = length bs" for es by (induction es arbitrary: bs) simp_all
  have x: "fst x < length (fold put_block es bs)" using snoc.prems(2) by (simp add: len)
  show ?case
  proof (cases "ev = x")
    case True
    with put_block_has(1) [OF x] show ?thesis by simp
  next
    case False
    with snoc.prems have ev: "ev \<in> set es" "fst x \<noteq> fst ev" by auto
    then show ?thesis using snoc put_block_has(2) [OF ev(2)] by simp
  qed
qed simp

lemma batch_loop_starts:
  assumes "\<forall>c \<in> set cs. op_started (starts c)"
  shows "win_batch_loop f a starts rise cs w s = (Batch_started (w + length cs),
    win_waits f (win_set_count a (w + length cs) (s\<lparr>wi_io := (wi_io s)\<lparr>io_flight := io_flight (wi_io s) @ map (Pair a) cs\<rparr>\<rparr>)))"
  using assms by (induction cs arbitrary: w s) (simp_all add: win_takes_def)

subsection \<open>The properties\<close>

text \<open>C11: a batch on Windows ends when all its blocks have, and not before. If the system starts every block, then whatever the
  order in which the completion port returns the structures and however many turns of the event loop that takes: nothing fails, every block
  returned has what was reported for it, and the fiber waits until the last of them, which resumes it; the
  call then returns their number.\<close>

theorem windows_batch_completes:
  assumes ring: "rr_inv (io_ring (wi_io s))" "rr_contents (io_ring (wi_io s)) = []" "10 \<le> length (rr_buffer (io_ring (wi_io s)))"
      "length (concat ess) \<le> rr_life (io_ring (wi_io s))"
    and idle: "distinct (io_wait (wi_io s))" "f \<notin> set (io_wait (wi_io s))" "f \<notin> set (io_ready (wi_io s))"
    and n: "n = length (wb_blocks b)" "0 < n" "int n < 2 ^ 64" and starts: "\<forall>k < n. op_started (starts k)"
    and call: "win_process_batch f b starts rise s = (a, p, s1)"
    and evs: "\<forall>es \<in> set ess. length es \<le> 10" "distinct (map fst (concat ess))" "\<forall>ev \<in> set (concat ess). fst ev < n"
  shows "p = Batch_started n \<and> (\<exists>t. win_turns (map (map (of_block a)) ess) s1 = Inr t \<and>
    (f \<in> set (io_wait (wi_io t)) \<longleftrightarrow> length (concat ess) < n) \<and> (f \<in> set (io_ready (wi_io t)) \<longleftrightarrow> length (concat ess) = n) \<and>
    (\<forall>ev \<in> set (concat ess). has_completion ev (wb_blocks (wi_batch t a))) \<and>
    fst (win_batch_resumed f a starts rise p t) = Ended (Inr (int n)))"
proof -
  have all: "\<forall>c \<in> set [0..<length (wb_blocks b)]. op_started (starts c)" using starts n(1) by simp
  note loop = batch_loop_starts [OF all, where w = 0 and f = f and a = "wi_next s" and rise = rise]
  have p: "p = Batch_started n" "a = wi_next s" and s1: "s1 = win_waits f (win_set_count a n (let s = snd (win_enter f b s) in
      s\<lparr>wi_io := (wi_io s)\<lparr>io_flight := io_flight (wi_io s) @ map (Pair a) [0..<n]\<rparr>\<rparr>))"
    using call unfolding win_process_batch_def win_enter_def prod.case loop by (auto simp: n(1) Let_def)
  have le: "length (concat ess) \<le> n"
  proof -
    have "set (map fst (concat ess)) \<subseteq> {..<n}" using evs(3) by auto
    from card_mono [OF finite_lessThan this] show ?thesis using distinct_card [OF evs(2)] by simp
  qed
  have blocks: "map ov_msg (wb_blocks (wi_batch s1 a)) = replicate n (Some a)"
    using n(1) by (simp add: s1 p(2) win_waits_def win_set_count_def win_enter_def win_configure_def map_replicate_const comp_def)
  have "batch_waits f a n n s1"
    using blocks idle n(2) by (auto simp: batch_waits_def s1 p(2) win_waits_def win_set_count_def win_enter_def io_wait_for_def
        AIOMessage_new_def FiberIOMessage_new_def Let_def)
  moreover have "io_ring (wi_io s1) = io_ring (wi_io s)"
    by (simp add: s1 win_waits_def win_set_count_def win_enter_def io_wait_for_def Let_def)
  ultimately obtain t where t: "win_turns (map (map (of_block a)) ess) s1 = Inr t" "batch_waits f a n (n - length (concat ess)) t"
    "wb_blocks (wi_batch t a) = fold put_block (concat ess) (wb_blocks (wi_batch s1 a))"
    using turns_batch [of f a n n s1 ess] ring evs(1,3) le n(3) by auto
  have "length (wb_blocks (wi_batch s1 a)) = n" using arg_cong [OF blocks, of length] by simp
  then have "\<forall>ev \<in> set (concat ess). has_completion ev (wb_blocks (wi_batch t a))"
    unfolding t(3) using fold_put_has [OF evs(2)] evs(3) by blast
  moreover have "f \<in> set (io_wait (wi_io t)) \<longleftrightarrow> length (concat ess) < n" "f \<in> set (io_ready (wi_io t)) \<longleftrightarrow> length (concat ess) = n"
    using t(2) le by (cases "length (concat ess) = n"; auto simp: batch_waits_def)+
  ultimately show ?thesis using p(1) t(1) by (auto simp: win_batch_resumed_def Let_def)
qed

definition win_io_new :: "nat \<Rightarrow> win_io" where
  "win_io_new n = \<lparr>wi_io = \<lparr>io_ring = ReactorRing_new 0 n, io_messages = Map.empty, io_wait = [], io_ready = [], io_flight = [],
     io_log = []\<rparr>, wi_batch = (\<lambda>a. \<lparr>wb_blocks = [], wb_submited = 0\<rparr>), wi_next = 1, wi_closed = []\<rparr>"

definition win_two_blocks :: win_batch where
  "win_two_blocks = win_add_write 9 512 512 (win_add_read 8 0 512 \<lparr>wb_blocks = [], wb_submited = 0\<rparr>)"

text \<open>Both blocks are started, the second fails; their completions come in the other order, in two turns.\<close>

definition win_example :: "block_completion list list" where
  "win_example = [[(1, 0, 0, False, 112)], [(0, 512, 0, True, 0)]]"

theorem windows_batch_completes_witness:
  "\<exists>s1 t. win_process_batch 5 win_two_blocks (\<lambda>k. (True, 0)) True (win_io_new 16) = (1, Batch_started 2, s1) \<and>
     win_turns (map (map (of_block 1)) win_example) s1 = Inr t \<and> 5 \<in> set (io_ready (wi_io t)) \<and>
     has_completion (1, 0, 0, False, 112) (wb_blocks (wi_batch t 1))"
proof -
  obtain a p s1 where c: "win_process_batch 5 win_two_blocks (\<lambda>k. (True, 0)) True (win_io_new 16) = (a, p, s1)"
    by (metis prod_cases3)
  have a: "a = 1" using c by (simp add: win_process_batch_def win_enter_def win_io_new_def)
  have len: "2 = length (wb_blocks win_two_blocks)" by (simp add: win_two_blocks_def win_add_read_def win_add_write_def)
  have "pow2 (int 16)" unfolding pow2_def by (rule exI [of _ 4]) simp
  then have inv: "rr_inv (ReactorRing_new (0 :: nat) 16)" by (rule rr_inv_new) simp
  have ex: "length (concat win_example) = 2" "\<forall>es \<in> set win_example. length es \<le> 10" "distinct (map fst (concat win_example))"
    "\<forall>ev \<in> set (concat win_example). fst ev < 2" by (simp_all add: win_example_def)
  have ring: "rr_inv (io_ring (wi_io (win_io_new 16)))" "rr_contents (io_ring (wi_io (win_io_new 16))) = []"
    "10 \<le> length (rr_buffer (io_ring (wi_io (win_io_new 16))))" "length (concat win_example) \<le> rr_life (io_ring (wi_io (win_io_new 16)))"
    using inv ex(1) by (simp_all add: win_io_new_def ReactorRing_new_def rr_contents_def rr_life_def)
  have idle: "distinct (io_wait (wi_io (win_io_new 16)))" "5 \<notin> set (io_wait (wi_io (win_io_new 16)))" "5 \<notin> set (io_ready (wi_io (win_io_new 16)))"
    by (simp_all add: win_io_new_def)
  have "\<forall>k < (2 :: nat). op_started (True, 0)" by (simp add: op_started_def)
  from windows_batch_completes [OF ring idle len _ _ this c ex(2-4)] ex(1) obtain t where
    "p = Batch_started 2" "win_turns (map (map (of_block a)) win_example) s1 = Inr t" "5 \<in> set (io_ready (wi_io t))"
    "\<forall>ev \<in> set (concat win_example). has_completion ev (wb_blocks (wi_batch t a))" by auto
  with c a show ?thesis by (auto simp: win_example_def)
qed

text \<open>What goes wrong when the system has no resources to start an operation. The fiber sleeps, but nothing is on its way that
  would wake it.\<close>

lemma starved_call_has_nothing_in_flight:
  assumes "no_resources r" "\<not> op_started r"
  shows "win_file_turn f a r s = (Single_starved, t) \<Longrightarrow> io_flight (wi_io t) = io_flight (wi_io s) \<and> f \<in> set (io_wait (wi_io t))"
    and "win_connection_turn f a r s = (Single_starved, t) \<Longrightarrow> io_flight (wi_io t) = io_flight (wi_io s) \<and> f \<in> set (io_wait (wi_io t))"
  using assms by (auto simp: win_file_turn_def win_connection_turn_def win_waits_def io_wait_for_def)

text \<open>In a batch, a completion that comes during such a sleep does wake it, but is counted again: the second block
  lacks resources, the first completes and wakes the fiber, which starts the second and waits for two; after the second has completed the
  fiber still sleeps, and no block is left.\<close>

lemma starved_batch_never_resumed:
  assumes ring: "rr_inv (io_ring (wi_io s))" "rr_contents (io_ring (wi_io s)) = []" "10 \<le> length (rr_buffer (io_ring (wi_io s)))"
      "2 \<le> rr_life (io_ring (wi_io s))"
    and idle: "distinct (io_wait (wi_io s))" "f \<notin> set (io_wait (wi_io s))" "f \<notin> set (io_ready (wi_io s))"
    and b: "length (wb_blocks b) = 2"
    and starts: "op_started (starts 0)" "\<not> op_started (starts 1)" "no_resources (starts 1)" "op_started (starts' 1)"
    and call: "win_process_batch f b starts rise s = (a, p, s1)" and first: "win_turn [of_block a ev] s1 = Inr t1" "fst ev = 0"
    and run: "win_batch_resumed f a starts' rise p (t1\<lparr>wi_io := (wi_io t1)\<lparr>io_ready := filter (\<lambda>g. g \<noteq> f) (io_ready (wi_io t1))\<rparr>\<rparr>) = (p', s2)"
    and second: "win_turn [of_block a ev'] s2 = Inr t2" "fst ev' = 1"
  shows "p' = Batch_started 2 \<and> f \<in> set (io_wait (wi_io t2)) \<and> io_messages (wi_io t2) a = Some (FiberIOMessage f True 1)"
proof -
  let ?run = "\<lambda>t. t\<lparr>wi_io := (wi_io t)\<lparr>io_ready := filter (\<lambda>g. g \<noteq> f) (io_ready (wi_io t))\<rparr>\<rparr>"
  have upt: "[0..<length (wb_blocks b)] = [0, 1]" by (simp add: b numeral_2_eq_2)
  have s1: "a = wi_next s" "p = Batch_starved [1] 1" "s1 = win_waits f (win_takes (a, 0) (snd (win_enter f b s)))"
    using call starts(1-3) unfolding win_process_batch_def upt by (auto simp: win_enter_def)
  have "map ov_msg (wb_blocks (wi_batch s1 a)) = replicate 2 (Some a)"
    using b by (simp add: s1 win_waits_def win_takes_def win_enter_def win_configure_def map_replicate_const comp_def)
  then have w1: "batch_waits f a 2 1 s1"
    using idle by (auto simp: batch_waits_def s1 win_waits_def win_takes_def win_enter_def io_wait_for_def AIOMessage_new_def FiberIOMessage_new_def)
  have ring1: "io_ring (wi_io s1) = io_ring (wi_io s)" by (simp add: s1 win_waits_def win_takes_def win_enter_def io_wait_for_def)
  have t1: "batch_waits f a 2 0 t1" "rr_inv (io_ring (wi_io t1))" "rr_contents (io_ring (wi_io t1)) = []"
    "10 \<le> length (rr_buffer (io_ring (wi_io t1)))" "1 \<le> rr_life (io_ring (wi_io t1))"
    using turn_batch [OF w1, of "[ev]"] ring first by (auto simp: ring1)
  have s2: "p' = Batch_started 2" "s2 = win_waits f (win_set_count a 2 (win_takes (a, 1) (?run t1)))"
    using run starts(4) by (simp_all add: s1(2) win_batch_resumed_def Let_def numeral_2_eq_2)
  have "io_messages (wi_io t1) a = Some (FiberIOMessage f True 0)" "f \<notin> set (io_wait (wi_io t1))" "distinct (io_wait (wi_io t1))"
    "map ov_msg (wb_blocks (wi_batch t1 a)) = replicate 2 (Some a)" using t1(1) by (auto simp: batch_waits_def)
  then have w2: "batch_waits f a 2 2 s2"
    by (auto simp: batch_waits_def s2(2) win_waits_def win_set_count_def win_takes_def io_wait_for_def)
  have "io_ring (wi_io s2) = io_ring (wi_io t1)" by (simp add: s2(2) win_waits_def win_set_count_def win_takes_def io_wait_for_def)
  then have "batch_waits f a 2 1 t2" using turn_batch [OF w2, of "[ev']"] t1 second by auto
  with s2(1) show ?thesis by (simp add: batch_waits_def)
qed

text \<open>And an empty batch waits for nothing.\<close>

lemma empty_batch_never_resumed:
  assumes "win_process_batch f b starts rise s = (a, p, t)" "wb_blocks b = []"
  shows "f \<in> set (io_wait (wi_io t)) \<and> io_flight (wi_io t) = io_flight (wi_io s) \<and>
    io_messages (wi_io t) a = Some (FiberIOMessage f True 0)"
  using assms by (auto simp: win_process_batch_def win_enter_def win_waits_def win_set_count_def io_wait_for_def AIOMessage_new_def
      FiberIOMessage_new_def)

end
