(* ===== verification/Spec2Isabelle.thy ===== *)
theory Spec2Isabelle
  imports MPSC_Concurrent Disruptor_Wait Reactor_Ring Fiber_Properties Unbounded_Channel Future_Properties Buffered_Fifo
    Unbuffered_Rendezvous Reactor_Properties Thread_Pool Linux_File_Properties Linux_Socket
    Work_Sharing Fiber_Barrier Fiber_Storage Fiber_Tuning Windows_IO
begin

text \<open>
  A verification of dumbo, a C++ library of fibers, channels, futures and reactors. The theories model
  the code under \<open>src/include/dumbo/v1\<close> and \<open>src/src\<close>; \<open>I\<close> below stands for \<open>src/include/dumbo/v1\<close>.

  \<^bold>\<open>The program.\<close> A thread runs a scheduler that switches between fibers (\<open>I/fiber\<close>, a fork of
  Boost.Fiber on Boost.Context). Fibers synchronise by mutexes, condition variables, channels and
  futures, all built on one mechanism: a context links itself into an intrusive wait-queue and suspends,
  and another one unlinks it and makes it ready. Each thread of an application is a reactor
  (\<open>I/reactor\<close>): its event loop, itself a fiber, takes completed I/O from a ring buffer and messages of
  other reactors from an inbox, and starts a fiber for each request. The inbox is a queue over the
  sequencer of \<open>I/disruptor\<close>: counters, claim strategies for the producers and wait strategies for the
  consumer over a ring of events.

  \<^bold>\<open>The theories\<close>, bottom up. A definition has the name of the function it translates, prefixed where
  several classes share it; the fields of a record are those of the class.
  \<^item> \<open>Dumbo_Prelude\<close>: 64-bit integers as \<open>int\<close> with the wrap-around written out (\<open>i64\<close>, \<open>u64\<close>), list
    lemmas, the collections of simplification rules.
  \<^item> \<open>Fifo_Spec\<close>: the contract of a first-in first-out queue as a locale; interpreted on the reactor's
    ring, on the inbox and on the channels.
  \<^item> \<open>Disruptor_Sequence\<close> (\<open>sequence.h\<close>, \<open>ring_buffer.h\<close>), \<open>Disruptor_Claim\<close> (\<open>claim_strategy.h\<close>),
    \<open>Disruptor_Wait\<close> (\<open>wait_strategy.h\<close>), \<open>Disruptor_Sequencer\<close> (\<open>sequencer.h\<close>,
    \<open>sequence_barrier.h\<close>, \<open>event_processor.h\<close>): the disruptor. A spinning loop is a recursion over the
    list of values it observes, \<open>None\<close> when it still spins at the end of the list; so a statement about a
    loop holds for every behaviour of the other threads.
  \<^item> \<open>Reactor_Ring\<close> (\<open>I/reactor/ring_buffer.hpp\<close>), \<open>MPSC_Queue\<close> (\<open>I/reactor/mpsc_queue.hpp\<close>, operations
    one at a time) and \<open>MPSC_Concurrent\<close> (the same queue with each access to shared memory a step, any
    number of producers): first in first out, no slot overwritten, every message drained.
  \<^item> \<open>Fiber_Runtime\<close> (\<open>context.hpp/.cpp\<close>, \<open>scheduler.hpp/.cpp\<close>, \<open>fiber.hpp/.cpp\<close>, \<open>operations.hpp\<close>,
    \<open>algo/round_robin\<close>): one thread of fibers. The record \<open>runtime\<close> has the queues of the scheduler, the
    contexts and their hooks; an operation returns \<open>None\<close> when an assertion fails or a dangling pointer is
    followed. \<open>Fiber_Invariant\<close>: the well-formedness of that state and its preservation by each
    operation. \<open>Fiber_System\<close>: programs of any number of fibers over it, as steps between suspensions.
    \<open>Fiber_Properties\<close>: nothing fails, no fiber is lost, joins, destruction after the end of every fiber, sleeping, fairness.
  \<^item> \<open>Fiber_Mutex\<close> (\<open>mutex\<close>, \<open>timed_mutex\<close>, \<open>recursive_mutex\<close>, \<open>recursive_timed_mutex\<close>), \<open>Fiber_Locking\<close>
    (programs over them), \<open>Fiber_Lockable\<close> (the contract of a lock as a locale, interpreted on the
    four), \<open>Fiber_Condvar\<close> (\<open>condition_variable\<close>, \<open>condition_variable_any\<close>).
  \<^item> \<open>Context_Queue\<close> (\<open>detail/context_spmc_queue.hpp\<close>, each access to shared memory a step, one thread that pushes and any number
    that pop) and \<open>Work_Sharing\<close> (\<open>algo/work_stealing\<close>, \<open>algo/shared_work\<close>, clients of one contract, the locale
    \<open>ready_algorithm\<close>): no context is lost or handed out twice, and a pinned one stays in its thread.
  \<^item> \<open>Fiber_Storage\<close> (\<open>fss.hpp\<close> and the map of a context): fiber-specific pointers refine a map, under a
    condition that the code should not need. \<open>Fiber_Tuning\<close> (\<open>properties.hpp\<close>, \<open>algorithm_with_properties\<close>).
  \<^item> \<open>Fiber_Monitor\<close>: the locale of objects whose data is protected by a \<open>mutex\<close> and whose operations wait
    on condition variables; its clients are \<open>Bounded_Channel\<close>, \<open>Unbounded_Channel\<close> (over the linked list
    of \<open>Channel_List\<close>) and \<open>Shared_State\<close>. \<open>Fiber_Barrier\<close> (\<open>barrier.hpp/.cpp\<close>) uses its steps: a round lets
    its fibers through together.
  \<^item> \<open>Buffered_Channel\<close>, \<open>Buffered_Ring\<close>, \<open>Buffered_Fifo\<close> (\<open>buffered_channel.hpp\<close>): a ring with a cycle
    counter per slot, each access a step. \<open>Unbuffered_Channel\<close>, \<open>Unbuffered_Rendezvous\<close>
    (\<open>unbuffered_channel.hpp\<close>): a slot in the producer's frame, a step being what a fiber does between two
    suspensions.
  \<^item> \<open>Future_Errors\<close> (\<open>exceptions.hpp\<close>, \<open>future.cpp\<close>), \<open>Shared_State\<close> (\<open>future/detail/shared_state.hpp\<close>),
    \<open>Futures\<close> (\<open>future.hpp\<close>, \<open>promise.hpp\<close>, \<open>packaged_task.hpp\<close>, \<open>async.hpp\<close> and the task objects),
    \<open>Future_Counting\<close> (the reference counts, and which states hold nothing), \<open>Future_Properties\<close> (programs over futures).
    An exception pointer can be null.
  \<^item> \<open>Reactor_Messages\<close> (\<open>reactor.hpp/.cpp\<close>, \<open>smp_base.hpp\<close>, \<open>application.hpp\<close>, \<open>reactor/scheduler.hpp\<close>,
    \<open>reactor/message\<close>): the reactors of an application, each with its inbox, its event loop and its fibers, and the messages that go to a
    reactor and back. \<open>Reactor_Delivery\<close>: where every message is. \<open>Reactor_Properties\<close>: no message is used after it
    is freed, a call at another reactor returns its result once, a full inbox and the shutdown.
  \<^item> \<open>Thread_Pool\<close> (\<open>thread_pool.hpp/.cpp\<close>): workers and their threads, whose steps interleave; a task runs at
    most once, and never if its worker got it too early.
  \<^item> \<open>File_Batch\<close> (\<open>linux/buffer_vec.hpp\<close>), \<open>Linux_Poller\<close> (\<open>linux/io_poller.cpp\<close>, the I/O messages and the loop that
    finishes them), \<open>Linux_File\<close> (\<open>linux/file_impl.cpp\<close>), \<open>Linux_File_Calls\<close> (its invariant: a block is in flight, in the ring or
    reported, and a call counts its own), \<open>Linux_File_Properties\<close>, \<open>Linux_Socket\<close> (\<open>ip_address.cpp\<close>,
    \<open>socket_impl.cpp\<close>); \<open>Windows_IO\<close> (\<open>reactor/msvc\<close>): every call gets its own results and is resumed once, when all
    it waits for has come back. The kernel is part of the actions; what its documentation promises is a guard
    (\<open>kernel_reports\<close>: a block is reported once, and no more events than asked) or a hypothesis.

  \<^bold>\<open>Bounds and fuel.\<close> Machine integers keep their width in the disruptor; sequence numbers of the
  concurrent models are unbounded, the code's being 64 bits wide. The number of fibers, threads,
  producers and consumers is arbitrary. Loops whose termination depends on other threads have no fuel:
  they are steps of a system, or recursions over observations. The capacity of the inbox, of channels
  and of rings is a parameter, with the code's condition on it as a hypothesis. The loops of the pollers have the
  code's bounds, 512 events on Linux and 10 on Windows; the counts of the I/O messages wrap around at 64 bits.

  \<^bold>\<open>Memory and scheduling.\<close> Memory is sequentially consistent: the \<open>memory_order\<close> arguments are not
  modelled. \<open>detail/spinlock.hpp\<close> makes the spinlock of the fibers a class without state and
  \<open>context::set_ready\<close> asserts that both fibers have the same scheduler, so the fibers that share an object run in
  one thread; \<open>Fiber_Monitor\<close> and \<open>Buffered_Channel\<close> nevertheless let the steps of the fibers interleave
  at every access, which includes all that one thread can do. In them and in
  \<open>Unbuffered_Channel\<close> a deadline passes at any moment; in \<open>Fiber_System\<close> the clock is part of the state.

  \<^bold>\<open>Not modelled\<close>: the switch of stacks and the stack allocators (Boost.Context), the allocators passed
  to the constructors, template plumbing; the making of threads and their affinity; the system calls that open, seek and close files
  and set up the pollers, and the texts of errors; what nothing uses (the spinning variants of the spinlock, \<open>chase_lev_queue.hpp\<close>,
  \<open>context_mpsc_queue.hpp\<close>, \<open>latch.hpp\<close>); the demo and the tests.
\<close>

end
